(* ===== verification/HB_Prelude.thy ===== *)
theory HB_Prelude
  imports Main "HOL-Library.Word"
begin

text \<open>
  Shared vocabulary of the development: the fixed-width integers of lib/stdint.h, the result type
  of code that may stop, and the generic facts on words, lists and results that every component
  uses. The kernel stops in a few ways only: ASSERT and PANIC of kernel/debug.h both end in
  panic_spin, which disables interrupts and loops for ever; a read or write outside an array is
  not defined by C; a loop may never end; and a thread may be descheduled inside a call.
\<close>

unbundle bit_operations_syntax

section \<open>Integers of lib/stdint.h\<close>

type_synonym u8 = "8 word"
type_synonym u16 = "16 word"
type_synonym u32 = "32 word"
type_synonym addr = "32 word"

abbreviation (input) NULL :: addr where "NULL \<equiv> 0"

definition PG_SIZE :: u32 where "PG_SIZE = 4096"

definition DIV_ROUND_UP :: "u32 \<Rightarrow> u32 \<Rightarrow> u32" where
  "DIV_ROUND_UP X STEP = (X + STEP - 1) div STEP"

section \<open>Code that may stop\<close>

datatype stop =
    Assertion string   \<comment> \<open>ASSERT(condition) with a false condition\<close>
  | Panicked string    \<comment> \<open>PANIC(message)\<close>
  | Bad_access string  \<comment> \<open>an access outside the object, undefined in C\<close>
  | Diverges           \<comment> \<open>a loop that never ends\<close>
  | Blocked            \<comment> \<open>the calling thread gives up the processor inside the call\<close>

type_synonym 'a res = "stop + 'a"

definition bindR :: "'a res \<Rightarrow> ('a \<Rightarrow> 'b res) \<Rightarrow> 'b res" where
  "bindR m f = (case m of Inl e \<Rightarrow> Inl e | Inr x \<Rightarrow> f x)"

definition of_loop :: "'a option \<Rightarrow> 'a res" where
  "of_loop r = (case r of None \<Rightarrow> Inl Diverges | Some x \<Rightarrow> Inr x)"

definition is_ok :: "'a res \<Rightarrow> bool" where
  "is_ok r = (case r of Inl _ \<Rightarrow> False | Inr _ \<Rightarrow> True)"

named_theorems res_simps \<open>equations of the result combinators\<close>
named_theorems word_bounds \<open>bounds of unsigned readings\<close>

lemma bindR_simps [simp, res_simps]:
  "bindR (Inl e) f = Inl e"
  "bindR (Inr x) f = f x"
  by (simp_all add: bindR_def)

lemma of_loop_simps [simp, res_simps]:
  "of_loop None = Inl Diverges"
  "of_loop (Some x) = Inr x"
  by (simp_all add: of_loop_def)

lemma is_ok_simps [simp, res_simps]: "\<not> is_ok (Inl e)" "is_ok (Inr x)"
  by (simp_all add: is_ok_def)

lemma bindR_Inr_iff: "bindR m f = Inr y \<longleftrightarrow> (\<exists>x. m = Inr x \<and> f x = Inr y)"
  by (cases m) auto

lemma bindR_Inl_iff: "bindR m f = Inl e \<longleftrightarrow> m = Inl e \<or> (\<exists>x. m = Inr x \<and> f x = Inl e)"
  by (cases m) auto

lemma bindR_InrE [elim]:
  assumes "bindR m f = Inr y"
  obtains x where "m = Inr x" "f x = Inr y"
  using assms by (auto simp: bindR_Inr_iff)

lemma is_ok_iff: "is_ok r \<longleftrightarrow> (\<exists>x. r = Inr x)"
  by (cases r) auto

lemma bindR_assoc: "bindR (bindR m f) g = bindR m (\<lambda>x. bindR (f x) g)"
  by (cases m) auto

lemma of_loop_Inr_iff [simp]: "of_loop r = Inr x \<longleftrightarrow> r = Some x"
  by (cases r) auto

section \<open>Words\<close>

lemma unat_u32_less [word_bounds]: "unat (x :: u32) < 4294967296"
  using unsigned_less [of x] by simp

lemma unat_u16_less [word_bounds]: "unat (x :: u16) < 65536"
  using unsigned_less [of x] by simp

lemma unat_u8_less [word_bounds]: "unat (x :: u8) < 256"
  using unsigned_less [of x] by simp

lemma unat_add_u32: "unat (a :: u32) + unat b < 4294967296 \<Longrightarrow> unat (a + b) = unat a + unat b"
  using unat_add_lem [of a b] by simp

lemma unat_Suc_u32: "unat (a :: u32) + 1 < 4294967296 \<Longrightarrow> unat (a + 1) = unat a + 1"
  using unat_add_lem [of a 1] by simp

lemma unat_mult_u32: "unat (a :: u32) * unat b < 4294967296 \<Longrightarrow> unat (a * b) = unat a * unat b"
  using unat_mult_lem [of a b] by simp

lemma unat_sub_u32: "b \<le> a \<Longrightarrow> unat ((a :: u32) - b) = unat a - unat b"
  by (rule unat_sub)

lemma unat_of_nat_u32: "n < 4294967296 \<Longrightarrow> unat (of_nat n :: u32) = n"
  by (simp add: unat_of_nat take_bit_nat_eq_self)

lemma unat_of_nat_u8: "n < 256 \<Longrightarrow> unat (of_nat n :: u8) = n"
  by (simp add: unat_of_nat take_bit_nat_eq_self)

lemma unat_zero_extend:
  "unat (ucast (x :: u8) :: u32) = unat x" "unat (ucast (x :: u8) :: u16) = unat x"
  "unat (ucast (y :: u16) :: u32) = unat y"
  by (simp_all add: unsigned_ucast_eq take_bit_nat_eq_self unsigned_less [THEN order_less_le_trans])

lemma u32_eq_iff: "(a :: u32) = b \<longleftrightarrow> unat a = unat b"
  by (rule word_unat_eq_iff)

section \<open>Bounded searches\<close>

lemma all_from_Suc:
  assumes "P i" "\<forall>k. Suc i \<le> k \<and> k < j \<longrightarrow> P k"
  shows "\<forall>k. i \<le> k \<and> k < (j :: nat) \<longrightarrow> P k"
proof (intro allI impI)
  fix k assume k: "i \<le> k \<and> k < j"
  show "P k" using assms k by (cases "k = i") auto
qed


end
