(* ===== verification/Bitmap.thy ===== *)
theory Bitmap
  imports HB_Prelude
begin

text \<open>
  lib/kernel/bitmap.c: the bitmap that every allocator of the kernel is built on (physical page
  pools, virtual address pools, inodes and disk blocks). A bitmap is a record of the declared
  length in bytes and the bytes themselves; an access beyond the bytes is a bad access, and the
  ASSERTs are branches. The abstraction is \<open>bm_bit\<close>, the bit at an index, and \<open>free_run\<close>,
  a run of clear bits.
\<close>

section \<open>The structure and its operations\<close>

record bitmap =
  btmp_bytes_len :: u32
  btmp_bits :: "u8 list"

definition BITMAP_MASK :: u32 where "BITMAP_MASK = 1"

definition read_byte :: "bitmap \<Rightarrow> u32 \<Rightarrow> u8 res" where
  "read_byte bm i =
     (if unat i < length (btmp_bits bm) then Inr (btmp_bits bm ! unat i)
      else Inl (Bad_access ''btmp_bits''))"

definition write_byte :: "bitmap \<Rightarrow> u32 \<Rightarrow> u8 \<Rightarrow> bitmap res" where
  "write_byte bm i v =
     (if unat i < length (btmp_bits bm)
      then Inr (bm\<lparr>btmp_bits := (btmp_bits bm)[unat i := v]\<rparr>)
      else Inl (Bad_access ''btmp_bits''))"

definition bitmap_init :: "bitmap \<Rightarrow> bitmap res" where
  "bitmap_init bm =
     (if unat (btmp_bytes_len bm) \<le> length (btmp_bits bm)
      then Inr (bm\<lparr>btmp_bits := replicate (unat (btmp_bytes_len bm)) 0
                              @ drop (unat (btmp_bytes_len bm)) (btmp_bits bm)\<rparr>)
      else Inl (Bad_access ''btmp_bits''))"

definition bitmap_scan_test :: "bitmap \<Rightarrow> u32 \<Rightarrow> bool res" where
  "bitmap_scan_test bm bit_idx =
     (if \<not> bit_idx < btmp_bytes_len bm * 8
      then Inl (Assertion ''bit_idx < btmp->btmp_bytes_len * 8'')
      else let byte_idx = bit_idx div 8; bit_odd = bit_idx mod 8
           in bindR (read_byte bm byte_idx) (\<lambda>b.
                Inr ((ucast b :: u32) AND push_bit (unat bit_odd) BITMAP_MASK \<noteq> 0)))"

text \<open>The first loop of bitmap_scan: skip the bytes that are 0xff.\<close>

function scan_byte_loop :: "bitmap \<Rightarrow> u32 \<Rightarrow> u32 res" where
  "scan_byte_loop bm idx_byte =
     (if idx_byte < btmp_bytes_len bm
      then bindR (read_byte bm idx_byte) (\<lambda>b.
             if b = 0xff then scan_byte_loop bm (idx_byte + 1) else Inr idx_byte)
      else Inr idx_byte)"
  by pat_completeness auto
termination
proof (relation "measure (\<lambda>(bm, i). unat (btmp_bytes_len bm - i))")
  fix bm :: bitmap and i x :: u32
  assume "i < btmp_bytes_len bm"
  then have "btmp_bytes_len bm - i \<noteq> 0" by simp
  then have "unat (btmp_bytes_len bm - i - 1) < unat (btmp_bytes_len bm - i)"
    by (rule measure_unat)
  then show "((bm, i + 1), (bm, i)) \<in> measure (\<lambda>(bm, i). unat (btmp_bytes_len bm - i))"
    by (simp add: diff_diff_eq)
qed simp

text \<open>The second loop: the first clear bit of that byte, its index an int from 0 to 8.\<close>

function scan_bit_loop :: "u8 \<Rightarrow> nat \<Rightarrow> nat" where
  "scan_bit_loop b idx_bit =
     (if idx_bit < 8 \<and> (ucast b :: u32) AND push_bit idx_bit BITMAP_MASK \<noteq> 0
      then scan_bit_loop b (idx_bit + 1) else idx_bit)"
  by pat_completeness auto
termination
  by (relation "measure (\<lambda>(b, i). 8 - i)") auto

text \<open>The third loop, with bit_left counted down: look for cnt consecutive clear bits.\<close>

fun scan_run_loop :: "bitmap \<Rightarrow> u32 \<Rightarrow> nat \<Rightarrow> u32 \<Rightarrow> u32 \<Rightarrow> u32 res" where
  "scan_run_loop bm cnt 0 next_bit count = Inr (- 1)"
| "scan_run_loop bm cnt (Suc bit_left) next_bit count =
     bindR (bitmap_scan_test bm next_bit) (\<lambda>b.
       let count' = (if \<not> b then count + 1 else 0)
       in if count' = cnt then Inr (next_bit - cnt + 1)
          else scan_run_loop bm cnt bit_left (next_bit + 1) count')"

definition bitmap_scan :: "bitmap \<Rightarrow> u32 \<Rightarrow> u32 res" where
  "bitmap_scan bm cnt =
     bindR (scan_byte_loop bm 0) (\<lambda>idx_byte.
       if \<not> idx_byte < btmp_bytes_len bm
       then Inl (Assertion ''idx_byte < btmp->btmp_bytes_len'')
       else if idx_byte = btmp_bytes_len bm then Inr (- 1)
       else bindR (read_byte bm idx_byte) (\<lambda>b.
         let idx_bit = scan_bit_loop b 0;
             bit_idx_start = idx_byte * 8 + of_nat idx_bit
         in if cnt = 1 then Inr bit_idx_start
            else let bit_left = btmp_bytes_len bm * 8 - bit_idx_start;
                     next_bit = bit_idx_start + 1
                 in scan_run_loop bm cnt (unat bit_left) next_bit 1))"

definition bitmap_set :: "bitmap \<Rightarrow> u32 \<Rightarrow> u8 \<Rightarrow> bitmap res" where
  "bitmap_set bm bit_idx value =
     (if \<not> bit_idx < btmp_bytes_len bm * 8
      then Inl (Assertion ''bit_idx < btmp->btmp_bytes_len * 8'')
      else if \<not> (value = 0 \<or> value = 1)
      then Inl (Assertion ''value == 0 || value == 1'')
      else let byte_idx = bit_idx div 8; bit_odd = bit_idx mod 8;
               mask = push_bit (unat bit_odd) BITMAP_MASK
           in bindR (read_byte bm byte_idx) (\<lambda>b.
                if value \<noteq> 0 then write_byte bm byte_idx (ucast ((ucast b :: u32) OR mask))
                else write_byte bm byte_idx (ucast ((ucast b :: u32) AND NOT mask))))"

declare scan_byte_loop.simps [simp del] scan_bit_loop.simps [simp del]

section \<open>Abstraction\<close>

definition bm_size :: "bitmap \<Rightarrow> nat" where
  "bm_size bm = 8 * length (btmp_bits bm)"

definition bm_bit :: "bitmap \<Rightarrow> nat \<Rightarrow> bool" where
  "bm_bit bm i = bit (btmp_bits bm ! (i div 8)) (i mod 8)"

text \<open>The declared length is that of the bytes, and bit indices are non-negative as int.\<close>

definition bm_wf :: "bitmap \<Rightarrow> bool" where
  "bm_wf bm \<longleftrightarrow> length (btmp_bits bm) = unat (btmp_bytes_len bm)
                 \<and> unat (btmp_bytes_len bm) < 268435456"

definition free_run :: "bitmap \<Rightarrow> nat \<Rightarrow> nat \<Rightarrow> bool" where
  "free_run bm k n \<longleftrightarrow> k + n \<le> bm_size bm \<and> (\<forall>i<n. \<not> bm_bit bm (k + i))"

lemma bm_wf_len8: "bm_wf bm \<Longrightarrow> unat (btmp_bytes_len bm * 8) = bm_size bm"
  using unat_mult_lem [of "btmp_bytes_len bm" 8] by (simp add: bm_wf_def bm_size_def)

lemma bm_wf_size: "bm_wf bm \<Longrightarrow> bm_size bm < 2147483648"
  by (simp add: bm_wf_def bm_size_def)

lemma bm_wf_less: "bm_wf bm \<Longrightarrow> i < btmp_bytes_len bm * 8 \<longleftrightarrow> unat i < bm_size bm"
  by (simp add: word_less_nat_alt bm_wf_len8)

lemma mask_test: "(ucast (b :: u8) :: u32) AND push_bit n BITMAP_MASK \<noteq> 0 \<longleftrightarrow> n < 8 \<and> bit b n"
proof -
  have "(ucast b :: u32) AND push_bit n 1 = 0 \<longleftrightarrow> \<not> bit (ucast b :: u32) n"
    by (simp add: push_bit_of_1 and_exp_eq_0_iff_not_bit)
  then show ?thesis
    by (auto simp: BITMAP_MASK_def bit_simps dest: bit_imp_le_length)
qed

lemma read_byte_bit:
  assumes "bm_wf bm" "unat i < bm_size bm"
  shows "read_byte bm (i div 8) = Inr (btmp_bits bm ! (unat i div 8))"
  using assms by (simp add: read_byte_def unat_div bm_size_def)

lemma bitmap_scan_test_eq:
  assumes "bm_wf bm"
  shows "bitmap_scan_test bm i =
    (if unat i < bm_size bm then Inr (bm_bit bm (unat i))
     else Inl (Assertion ''bit_idx < btmp->btmp_bytes_len * 8''))"
  using assms
  by (auto simp: bitmap_scan_test_def bm_wf_less read_byte_bit Let_def mask_test unat_mod
      bm_bit_def)

section \<open>Setting a bit\<close>

definition bm_upd :: "bitmap \<Rightarrow> nat \<Rightarrow> bool \<Rightarrow> bitmap" where
  "bm_upd bm i v = bm\<lparr>btmp_bits := (btmp_bits bm)[i div 8 :=
     (if v then set_bit (i mod 8) (btmp_bits bm ! (i div 8))
      else unset_bit (i mod 8) (btmp_bits bm ! (i div 8)))]\<rparr>"

lemma bm_upd_simps [simp]:
  "btmp_bytes_len (bm_upd bm i v) = btmp_bytes_len bm"
  "bm_size (bm_upd bm i v) = bm_size bm"
  "bm_wf (bm_upd bm i v) = bm_wf bm"
  by (simp_all add: bm_upd_def bm_size_def bm_wf_def)

lemma bm_bit_upd [simp]:
  assumes "i < bm_size bm"
  shows "bm_bit (bm_upd bm i v) = (bm_bit bm)(i := v)"
proof
  fix j
  have i: "i div 8 < length (btmp_bits bm)" using assms by (simp add: bm_size_def)
  have eq: "j mod 8 = i mod 8 \<Longrightarrow> j div 8 = i div 8 \<Longrightarrow> j = i"
    by (metis div_mult_mod_eq)
  show "bm_bit (bm_upd bm i v) j = ((bm_bit bm)(i := v)) j"
  proof (cases "j div 8 = i div 8")
    case False
    then show ?thesis by (auto simp: bm_bit_def bm_upd_def)
  next
    case True
    then show ?thesis using i eq by (auto simp: bm_bit_def bm_upd_def bit_simps)
  qed
qed

lemma ucast_or_mask: "n < 8 \<Longrightarrow> (ucast ((ucast (b :: u8) :: u32) OR push_bit n BITMAP_MASK) :: u8) = set_bit n b"
  by (rule bit_word_eqI) (auto simp: bit_simps BITMAP_MASK_def)

lemma ucast_and_not_mask:
  "n < 8 \<Longrightarrow> (ucast ((ucast (b :: u8) :: u32) AND NOT (push_bit n BITMAP_MASK)) :: u8) = unset_bit n b"
  by (rule bit_word_eqI) (auto simp: bit_simps BITMAP_MASK_def)

lemma bitmap_set_eq:
  assumes "bm_wf bm"
  shows "bitmap_set bm i v =
    (if \<not> unat i < bm_size bm then Inl (Assertion ''bit_idx < btmp->btmp_bytes_len * 8'')
     else if \<not> (v = 0 \<or> v = 1) then Inl (Assertion ''value == 0 || value == 1'')
     else Inr (bm_upd bm (unat i) (v = 1)))"
proof -
  have "unat i < bm_size bm \<Longrightarrow> unat i div 8 < length (btmp_bits bm)"
    by (simp add: bm_size_def)
  then show ?thesis using assms
    by (auto simp: bitmap_set_def bm_wf_less read_byte_bit Let_def write_byte_def unat_div unat_mod
        ucast_or_mask ucast_and_not_mask bm_upd_def)
qed

section \<open>The loops of bitmap_scan\<close>

lemma scan_byte_loop_spec:
  assumes "bm_wf bm" "unat i \<le> unat (btmp_bytes_len bm)"
  shows "\<exists>j. scan_byte_loop bm i = Inr j \<and> unat i \<le> unat j \<and> unat j \<le> unat (btmp_bytes_len bm)
     \<and> (\<forall>k. unat i \<le> k \<and> k < unat j \<longrightarrow> btmp_bits bm ! k = 0xff)
     \<and> (unat j < unat (btmp_bytes_len bm) \<longrightarrow> btmp_bits bm ! unat j \<noteq> 0xff)"
  using assms
proof (induction bm i rule: scan_byte_loop.induct)
  case (1 bm i)
  show ?case
  proof (cases "i < btmp_bytes_len bm \<and> btmp_bits bm ! unat i = 0xff")
    case True
    then have lt: "unat i < unat (btmp_bytes_len bm)" by (simp add: word_less_nat_alt)
    then have s: "unat (i + 1) = unat i + 1"
      using unat_u32_less [of "btmp_bytes_len bm"] by (intro unat_Suc_u32) simp
    have "scan_byte_loop bm i = scan_byte_loop bm (i + 1)"
      using True lt "1.prems" by (subst scan_byte_loop.simps) (simp add: read_byte_def bm_wf_def)
    moreover obtain j where "scan_byte_loop bm (i + 1) = Inr j" "unat i + 1 \<le> unat j"
      "unat j \<le> unat (btmp_bytes_len bm)"
      "\<forall>k. unat i + 1 \<le> k \<and> k < unat j \<longrightarrow> btmp_bits bm ! k = 0xff"
      "unat j < unat (btmp_bytes_len bm) \<longrightarrow> btmp_bits bm ! unat j \<noteq> 0xff"
      using "1.IH" [of 255] True lt "1.prems"(1) s by auto
    ultimately show ?thesis using True all_from_Suc [of "\<lambda>k. btmp_bits bm ! k = 0xff" "unat i" "unat j"]
      by simp
  next
    case False
    then show ?thesis using "1.prems"
      by (subst scan_byte_loop.simps) (auto simp: read_byte_def bm_wf_def word_less_nat_alt)
  qed
qed

lemma scan_bit_loop_step:
  "scan_bit_loop b i = (if i < 8 \<and> bit b i then scan_bit_loop b (i + 1) else i)"
  by (subst scan_bit_loop.simps) (simp add: mask_test)

lemma scan_bit_loop_spec:
  "i \<le> 8 \<Longrightarrow> scan_bit_loop b i = j \<Longrightarrow>
    i \<le> j \<and> j \<le> 8 \<and> (\<forall>k. i \<le> k \<and> k < j \<longrightarrow> bit b k) \<and> (j < 8 \<longrightarrow> \<not> bit b j)"
proof (induction b i rule: scan_bit_loop.induct)
  case (1 b i)
  show ?case
  proof (cases "i < 8 \<and> bit b i")
    case True
    then have "scan_bit_loop b (i + 1) = j"
      using "1.prems" scan_bit_loop_step [of b i] by simp
    then have "i + 1 \<le> j \<and> j \<le> 8 \<and> (\<forall>k. i + 1 \<le> k \<and> k < j \<longrightarrow> bit b k) \<and> (j < 8 \<longrightarrow> \<not> bit b j)"
      using "1.IH" True by (simp add: mask_test)
    then show ?thesis using True all_from_Suc [of "bit b" i j] by simp
  next
    case False
    then show ?thesis using "1.prems" scan_bit_loop_step [of b i] by auto
  qed
qed

lemma byte_eq_ff: "(b :: u8) = 0xff \<longleftrightarrow> (\<forall>k<8. bit b k)"
proof
  assume "\<forall>k<8. bit b k"
  then have "b = mask 8" by (intro bit_word_eqI) (simp add: bit_simps)
  then show "b = 0xff" by (simp add: mask_eq_exp_minus_1)
qed (simp add: numeral_eq_Suc less_Suc_eq)


lemma scan_start:
  assumes wf: "bm_wf bm"
  obtains j where "scan_byte_loop bm 0 = Inr j" "unat j \<le> unat (btmp_bytes_len bm)"
    "unat j = unat (btmp_bytes_len bm) \<Longrightarrow> \<forall>k<bm_size bm. bm_bit bm k"
    "unat j < unat (btmp_bytes_len bm) \<Longrightarrow>
       8 * unat j + scan_bit_loop (btmp_bits bm ! unat j) 0 < bm_size bm
       \<and> \<not> bm_bit bm (8 * unat j + scan_bit_loop (btmp_bits bm ! unat j) 0)
       \<and> (\<forall>k<8 * unat j + scan_bit_loop (btmp_bits bm ! unat j) 0. bm_bit bm k)"
proof -
  obtain j where j: "scan_byte_loop bm 0 = Inr j" "unat j \<le> unat (btmp_bytes_len bm)"
      "\<forall>k<unat j. btmp_bits bm ! k = 0xff"
      "unat j < unat (btmp_bytes_len bm) \<longrightarrow> btmp_bits bm ! unat j \<noteq> 0xff"
    using scan_byte_loop_spec [OF wf, of 0] by auto
  have full: "bm_bit bm k" if "k < 8 * unat j" for k
    using that j(3) byte_eq_ff [of "btmp_bits bm ! (k div 8)"] by (simp add: bm_bit_def)
  let ?b = "btmp_bits bm ! unat j" and ?st = "8 * unat j + scan_bit_loop (btmp_bits bm ! unat j) 0"
  have first: "?st < bm_size bm \<and> \<not> bm_bit bm ?st \<and> (\<forall>k<?st. bm_bit bm k)"
    if lt: "unat j < unat (btmp_bytes_len bm)"
  proof -
    define i where "i = scan_bit_loop ?b 0"
    have i: "i \<le> 8" "\<forall>k<i. bit ?b k" "i < 8 \<longrightarrow> \<not> bit ?b i"
      using scan_bit_loop_spec [of 0 ?b i] by (auto simp: i_def)
    have "i < 8" using i j(4) lt byte_eq_ff [of ?b] by (auto simp: order_le_less)
    have "bm_bit bm k" if "k < 8 * unat j + i" for k
    proof (cases "k < 8 * unat j")
      case False
      then obtain d where d: "k = 8 * unat j + d" using le_Suc_ex not_less by blast
      then show ?thesis using i that \<open>i < 8\<close> by (simp add: bm_bit_def)
    qed (rule full)
    moreover have "\<not> bm_bit bm (8 * unat j + i)" using i \<open>i < 8\<close> by (simp add: bm_bit_def)
    moreover have "8 * unat j + i < bm_size bm"
      using lt wf \<open>i < 8\<close> by (simp add: bm_size_def bm_wf_def)
    ultimately show ?thesis by (simp add: i_def)
  qed
  show thesis
    using that [OF j(1,2)] first full wf by (auto simp: bm_size_def bm_wf_def)
qed

text \<open>The run search: \<open>c\<close> clear bits end just before \<open>p\<close>, and no run of length \<open>n\<close> ends by \<open>p\<close>.\<close>

definition run_inv :: "bitmap \<Rightarrow> nat \<Rightarrow> nat \<Rightarrow> nat \<Rightarrow> bool" where
  "run_inv bm n p c \<longleftrightarrow> c \<le> p \<and> c < n \<and> (\<forall>i. p - c \<le> i \<and> i < p \<longrightarrow> \<not> bm_bit bm i)
     \<and> (p = c \<or> bm_bit bm (p - c - 1)) \<and> (\<forall>k. free_run bm k n \<longrightarrow> p < k + n)"

lemma run_inv_set:
  assumes "run_inv bm n p c" "bm_bit bm p"
  shows "run_inv bm n (Suc p) 0"
proof -
  have "Suc p < k + n" if k: "free_run bm k n" for k
  proof (rule ccontr)
    assume "\<not> Suc p < k + n"
    then have "k \<le> p" "p - k < n" using assms k by (auto simp: run_inv_def)
    then show False using k assms(2) by (auto simp: free_run_def dest: spec [of _ "p - k"])
  qed
  then show ?thesis using assms by (simp add: run_inv_def)
qed

lemma run_inv_clear:
  assumes inv: "run_inv bm n p c" and clr: "\<not> bm_bit bm p" and lt: "Suc c < n"
  shows "run_inv bm n (Suc p) (Suc c)"
proof -
  have "Suc p < k + n" if k: "free_run bm k n" for k
  proof (rule ccontr)
    assume "\<not> Suc p < k + n"
    moreover have "p < k + n" using inv k by (simp add: run_inv_def)
    ultimately have e: "Suc p = k + n" by simp
    then have "p \<noteq> c" "p - c - 1 = k + (n - c - 2)" "n - c - 2 < n" using lt by auto
    then show False using inv k by (auto simp: run_inv_def free_run_def)
  qed
  moreover have "\<not> bm_bit bm i" if "p - c \<le> i" "i < Suc p" for i
    using that inv clr by (cases "i = p") (auto simp: run_inv_def)
  ultimately show ?thesis using inv lt by (auto simp: run_inv_def)
qed

lemma run_inv_found:
  assumes inv: "run_inv bm n p c" and clr: "\<not> bm_bit bm p" and eq: "Suc c = n" and p: "p < bm_size bm"
  shows "free_run bm (Suc p - n) n" "\<And>k. free_run bm k n \<Longrightarrow> Suc p - n \<le> k"
proof -
  have "\<not> bm_bit bm (Suc p - n + i)" if "i < n" for i
  proof (cases "Suc p - n + i = p")
    case False
    then have "p - c \<le> Suc p - n + i \<and> Suc p - n + i < p" using that eq inv by (auto simp: run_inv_def)
    then show ?thesis using inv by (simp add: run_inv_def)
  qed (use clr in simp)
  then show "free_run bm (Suc p - n) n" using inv eq p by (auto simp: free_run_def run_inv_def)
  show "Suc p - n \<le> k" if "free_run bm k n" for k
    using that inv by (fastforce simp: run_inv_def)
qed

lemma scan_run_loop_spec:
  assumes wf: "bm_wf bm" and inv: "run_inv bm n p c" and fuel: "p + left = bm_size bm + 1"
    and p: "p \<le> bm_size bm" and n: "n < 4294967296"
  shows "(\<exists>k. free_run bm k n \<and> (\<forall>k'. free_run bm k' n \<longrightarrow> k \<le> k')
            \<and> scan_run_loop bm (of_nat n) left (of_nat p) (of_nat c) = Inr (of_nat k))
       \<or> ((\<nexists>k. free_run bm k n)
            \<and> scan_run_loop bm (of_nat n) left (of_nat p) (of_nat c)
                = Inl (Assertion ''bit_idx < btmp->btmp_bytes_len * 8''))"
  using inv fuel p
proof (induction left arbitrary: p c)
  case 0
  then show ?case by simp
next
  case (Suc left)
  have up: "unat (of_nat p :: u32) = p"
    using Suc.prems(3) bm_wf_size [OF wf] by (intro unat_of_nat_u32) simp
  have test: "bitmap_scan_test bm (of_nat p) = (if p < bm_size bm then Inr (bm_bit bm p)
      else Inl (Assertion ''bit_idx < btmp->btmp_bytes_len * 8''))"
    by (simp add: bitmap_scan_test_eq [OF wf] up)
  have c: "c < n" using Suc.prems(1) by (simp add: run_inv_def)
  have cmp: "(1 + of_nat c = (of_nat n :: u32)) = (Suc c = n)"
    using c n unat_of_nat_u32 [of "Suc c"] unat_of_nat_u32 [of n] by (auto simp: u32_eq_iff)
  have n0: "((0 :: u32) = of_nat n) = False"
    using c n unat_of_nat_u32 [of n] by (auto simp: u32_eq_iff)
  consider (out) "p = bm_size bm" | (used) "p < bm_size bm" "bm_bit bm p"
    | (found) "p < bm_size bm" "\<not> bm_bit bm p" "Suc c = n"
    | (more) "p < bm_size bm" "\<not> bm_bit bm p" "Suc c < n"
    using Suc.prems(3) c by linarith
  then show ?case
  proof cases
    case out
    then have "\<nexists>k. free_run bm k n" using Suc.prems(1) by (auto simp: run_inv_def free_run_def)
    then show ?thesis using out test by simp
  next
    case used
    then show ?thesis using Suc.IH [OF run_inv_set [OF Suc.prems(1)]] Suc.prems(2)
      by (simp add: test n0 add.commute)
  next
    case found
    note run = run_inv_found [OF Suc.prems(1) found(2,3,1)]
    have "of_nat p - of_nat n + (1 :: u32) = of_nat (Suc p - n)"
      using run(1) found(3) Suc.prems(1) by (simp add: of_nat_diff run_inv_def)
    then show ?thesis using found run
      by (intro disjI1 exI [of _ "Suc p - n"]) (simp add: test cmp Let_def add.commute)
  next
    case more
    then show ?thesis using Suc.IH [OF run_inv_clear [OF Suc.prems(1)]] Suc.prems(2) cmp
      by (simp add: test add.commute)
  qed
qed

lemma run_inv_start:
  assumes "\<not> bm_bit bm st" "\<forall>k < st. bm_bit bm k" "1 < n"
  shows "run_inv bm n (st + 1) 1"
proof -
  have "st + 1 < k + n" if k: "free_run bm k n" for k
  proof -
    have "st \<le> k"
    proof (rule ccontr)
      assume "\<not> st \<le> k"
      then show False using assms k by (auto simp: free_run_def dest: spec [of _ 0])
    qed
    then show ?thesis using assms(3) by simp
  qed
  then show ?thesis using assms by (cases st) (auto simp: run_inv_def le_less_Suc_eq)
qed

text \<open>What the two first loops leave: no clear bit at all, or the first clear bit.\<close>

lemma bitmap_scan_cases:
  assumes wf: "bm_wf bm"
  obtains (full) "\<forall>k<bm_size bm. bm_bit bm k"
      "bitmap_scan bm cnt = Inl (Assertion ''idx_byte < btmp->btmp_bytes_len'')"
  | (found) st where "st < bm_size bm" "\<not> bm_bit bm st" "\<forall>k < st. bm_bit bm k"
      "bitmap_scan bm cnt = (if cnt = 1 then Inr (of_nat st)
        else scan_run_loop bm cnt (unat (btmp_bytes_len bm * 8 - of_nat st)) (of_nat st + 1) 1)"
proof -
  obtain j where j: "scan_byte_loop bm 0 = Inr j" "unat j \<le> unat (btmp_bytes_len bm)"
    "unat j = unat (btmp_bytes_len bm) \<Longrightarrow> \<forall>k<bm_size bm. bm_bit bm k"
    "unat j < unat (btmp_bytes_len bm) \<Longrightarrow>
       8 * unat j + scan_bit_loop (btmp_bits bm ! unat j) 0 < bm_size bm
       \<and> \<not> bm_bit bm (8 * unat j + scan_bit_loop (btmp_bits bm ! unat j) 0)
       \<and> (\<forall>k<8 * unat j + scan_bit_loop (btmp_bits bm ! unat j) 0. bm_bit bm k)"
    using scan_start [OF wf] by blast
  show thesis
  proof (cases "unat j < unat (btmp_bytes_len bm)")
    case False
    then show ?thesis using j full by (simp add: bitmap_scan_def word_less_nat_alt)
  next
    case True
    define st where "st = 8 * unat j + scan_bit_loop (btmp_bits bm ! unat j) 0"
    have "j * 8 + of_nat (scan_bit_loop (btmp_bits bm ! unat j) 0) = (of_nat st :: u32)"
      by (simp add: st_def)
    moreover have "read_byte bm j = Inr (btmp_bits bm ! unat j)"
      using True wf by (simp add: read_byte_def bm_wf_def)
    ultimately have "bitmap_scan bm cnt = (if cnt = 1 then Inr (of_nat st)
        else scan_run_loop bm cnt (unat (btmp_bytes_len bm * 8 - of_nat st)) (of_nat st + 1) 1)"
      using True by (auto simp: bitmap_scan_def j(1) Let_def word_less_nat_alt)
    then show ?thesis using j(4) [OF True] found [of st] by (simp add: st_def)
  qed
qed

text \<open>bitmap_scan is first fit, and it never returns -1: without a run an ASSERT stops it.\<close>

lemma bitmap_scan_first_fit:
  assumes wf: "bm_wf bm" and n: "0 < unat cnt"
  shows "(\<exists>k. free_run bm k (unat cnt) \<and> (\<forall>k'. free_run bm k' (unat cnt) \<longrightarrow> k \<le> k')
            \<and> bitmap_scan bm cnt = Inr (of_nat k))
       \<or> ((\<nexists>k. free_run bm k (unat cnt)) \<and> (\<exists>s. bitmap_scan bm cnt = Inl (Assertion s)))"
proof (cases rule: bitmap_scan_cases [OF wf, of cnt, case_names full found])
  case full
  then show ?thesis using n by (auto simp: free_run_def)
next
  case (found st)
  show ?thesis
  proof (cases "cnt = 1")
    case True
    have "free_run bm st 1" "\<forall>k'. free_run bm k' 1 \<longrightarrow> st \<le> k'"
      using found by (auto simp: free_run_def not_less [symmetric])
    then show ?thesis using found True by auto
  next
    case False
    then have gt: "1 < unat cnt" using n u32_eq_iff [of cnt 1] by simp
    have "unat (of_nat st :: u32) = st"
      using found(1) bm_wf_size [OF wf] by (intro unat_of_nat_u32) simp
    then have "st + 1 + unat (btmp_bytes_len bm * 8 - of_nat st) = bm_size bm + 1"
      using found(1) by (simp add: unat_sub_u32 word_le_nat_alt bm_wf_len8 [OF wf])
    moreover have "scan_run_loop bm (of_nat (unat cnt)) (unat (btmp_bytes_len bm * 8 - of_nat st))
        (of_nat (st + 1)) (of_nat 1) = bitmap_scan bm cnt"
      using found(4) False by (simp add: add.commute)
    ultimately show ?thesis
      using scan_run_loop_spec [OF wf run_inv_start [OF found(2,3) gt]] found(1) unat_u32_less [of cnt]
      by (metis Suc_eq_plus1 Suc_leI)
  qed
qed

lemma bitmap_scan_sound:
  assumes "bm_wf bm" "0 < unat cnt" "bitmap_scan bm cnt = Inr i"
  shows "free_run bm (unat i) (unat cnt)" "free_run bm k' (unat cnt) \<Longrightarrow> unat i \<le> k'"
    "i \<noteq> - 1"
proof -
  obtain k where k: "free_run bm k (unat cnt)" "\<forall>k'. free_run bm k' (unat cnt) \<longrightarrow> k \<le> k'"
    "i = of_nat k" using bitmap_scan_first_fit [OF assms(1,2)] assms(3) by auto
  then have "k < 2147483648" using bm_wf_size [OF assms(1)] assms(2) by (auto simp: free_run_def)
  then have u: "unat i = k" by (simp add: k(3) unat_of_nat_u32)
  show "free_run bm (unat i) (unat cnt)" "free_run bm k' (unat cnt) \<Longrightarrow> unat i \<le> k'"
    using k u by auto
  show "i \<noteq> - 1"
    using u \<open>k < _\<close> by (auto simp: unsigned_minus_1_eq_mask mask_eq_exp_minus_1)
qed

lemma bitmap_scan_complete:
  assumes "bm_wf bm" "0 < unat cnt" "free_run bm k (unat cnt)"
  shows "\<exists>i. bitmap_scan bm cnt = Inr i"
  using bitmap_scan_first_fit [OF assms(1,2)] assms(3) by auto

lemma free_run_1 [simp]: "free_run bm k (Suc 0) \<longleftrightarrow> k < bm_size bm \<and> \<not> bm_bit bm k"
  by (auto simp: free_run_def)

lemma bitmap_init_eq:
  assumes "bm_wf bm"
  shows "bitmap_init bm = Inr (bm\<lparr>btmp_bits := replicate (unat (btmp_bytes_len bm)) 0\<rparr>)"
  using assms by (simp add: bitmap_init_def bm_wf_def)

lemma bm_wf_cleared:
  "unat len < 268435456 \<Longrightarrow> bm_wf \<lparr>btmp_bytes_len = len, btmp_bits = replicate (unat len) b\<rparr>"
  by (simp add: bm_wf_def)

lemma bm_bit_cleared:
  "i < 8 * n \<Longrightarrow> \<not> bm_bit \<lparr>btmp_bytes_len = len, btmp_bits = replicate n 0\<rparr> i"
  by (simp add: bm_bit_def less_mult_imp_div_less mult.commute)

section \<open>Properties\<close>

definition demo_bits :: bitmap where
  "demo_bits = \<lparr>btmp_bytes_len = 2, btmp_bits = [0xf5, 0x01]\<rparr>"

text \<open>C17: bitmap_scan is first fit: it returns the least index from which cnt bits are clear, and when
  there is none it stops on an assertion; it never returns -1, the value its callers test for.\<close>
theorem bitmap_scan_correct:
  assumes "bm_wf bm" "0 < unat cnt"
  shows "(if \<exists>k. free_run bm k (unat cnt)
      then bitmap_scan bm cnt = Inr (of_nat (LEAST k. free_run bm k (unat cnt)))
        \<and> unat (of_nat (LEAST k. free_run bm k (unat cnt)) :: u32) = (LEAST k. free_run bm k (unat cnt))
      else \<exists>msg. bitmap_scan bm cnt = Inl (Assertion msg))
     \<and> bitmap_scan bm cnt \<noteq> Inr (- 1)"
proof -
  have nm: "bitmap_scan bm cnt \<noteq> Inr (- 1)" using bitmap_scan_sound(3) [OF assms] by blast
  show ?thesis
  proof (cases "\<exists>k. free_run bm k (unat cnt)")
    case True
    then obtain k where k: "free_run bm k (unat cnt)" "\<forall>k'. free_run bm k' (unat cnt) \<longrightarrow> k \<le> k'"
      "bitmap_scan bm cnt = Inr (of_nat k)" using bitmap_scan_first_fit [OF assms] by blast
    have "(LEAST k. free_run bm k (unat cnt)) = k" using k(1,2) by (intro Least_equality) auto
    moreover have "unat (of_nat k :: u32) = k"
      using k(1) bm_wf_size [OF assms(1)] by (intro unat_of_nat_u32) (simp add: free_run_def)
    ultimately show ?thesis using True k(3) nm by simp
  next
    case False
    then show ?thesis using bitmap_scan_first_fit [OF assms] nm by simp
  qed
qed

lemma bitmap_scan_correct_witness:
  "(\<exists>msg. bitmap_scan demo_bits 8 = Inl (Assertion msg)) \<and> bitmap_scan demo_bits 8 \<noteq> Inr (- 1)"
proof -
  have wf: "bm_wf demo_bits" by (simp add: bm_wf_def demo_bits_def)
  have "\<not> free_run demo_bits k 8" for k
  proof
    assume f: "free_run demo_bits k 8"
    have sz: "bm_size demo_bits = 16" by (simp add: bm_size_def demo_bits_def)
    have b: "bm_bit demo_bits 8" "bm_bit demo_bits 0" by code_simp+
    have all: "k \<le> 8" "\<And>i. i < 8 \<Longrightarrow> \<not> bm_bit demo_bits (k + i)" using f sz by (auto simp: free_run_def)
    show False
    proof (cases "k = 0")
      case True
      then show False using all(2) [of 0] b(2) by simp
    next
      case False
      then show False using all(2) [of "8 - k"] all(1) b(1) by simp
    qed
  qed
  then show ?thesis using bitmap_scan_correct [OF wf, of 8] by simp
qed

text \<open>After bitmap_set of bit i to v, bitmap_scan_test of i answers v and every other index answers
  what it did; an index past the end stops both on an assertion.\<close>
theorem bitmap_set_test:
  assumes "bm_wf bm" "v = 0 \<or> v = 1"
  shows "(if unat i < bm_size bm
      then \<exists>bm'. bitmap_set bm i v = Inr bm' \<and> bm_wf bm' \<and> bm_size bm' = bm_size bm
             \<and> (\<forall>j. bitmap_scan_test bm' j = (if j = i then Inr (v = 1) else bitmap_scan_test bm j))
      else \<not> is_ok (bitmap_set bm i v) \<and> \<not> is_ok (bitmap_scan_test bm i))"
  using assms by (auto simp: bitmap_set_eq bitmap_scan_test_eq u32_eq_iff)

lemma bitmap_set_test_witness:
  "\<exists>bm'. bitmap_set demo_bits 1 1 = Inr bm' \<and> bitmap_scan_test bm' 1 = Inr True"
proof -
  have wf: "bm_wf demo_bits" "bm_size demo_bits = 16" by (simp_all add: bm_wf_def bm_size_def demo_bits_def)
  show ?thesis using bitmap_set_test [OF wf(1), of 1 1] wf(2) by auto
qed

end
