(* ===== verification/Interfaces.thy ===== *)
theory Interfaces
  imports HB_Prelude
begin

text \<open>
  The interfaces between the components, as locales: the operations a client calls, the laws their
  provider promises, and the client's lemmas, proved once from the laws. Each is interpreted on the
  model of the code in the theory of the component that provides it:
  \<open>slot_allocator\<close> (bitmaps, page pools, inode and block bitmaps), \<open>fifo\<close> (the kernel list, the
  keyboard ring buffer), \<open>kernel_list\<close> (the kernel list), \<open>safe_system\<close> (step relations with an
  invariant).
\<close>

section \<open>Running an operation several times\<close>

fun take_many :: "('s \<Rightarrow> ('r \<times> 's) res) \<Rightarrow> nat \<Rightarrow> 's \<Rightarrow> ('r list \<times> 's) res" where
  "take_many f 0 s = Inr ([], s)"
| "take_many f (Suc n) s =
     bindR (f s) (\<lambda>(r, s'). bindR (take_many f n s') (\<lambda>(rs, s''). Inr (r # rs, s'')))"

fun put_many :: "('s \<Rightarrow> 'a \<Rightarrow> 's res) \<Rightarrow> 's \<Rightarrow> 'a list \<Rightarrow> 's res" where
  "put_many f s [] = Inr s"
| "put_many f s (x # xs) = bindR (f s x) (\<lambda>s'. put_many f s' xs)"

lemma take_many_Suc_InrE:
  assumes "take_many f (Suc n) s = Inr (rs, s'')"
  obtains r s' rs' where "f s = Inr (r, s')" "take_many f n s' = Inr (rs', s'')" "rs = r # rs'"
  using assms by (auto simp: bindR_Inr_iff)

section \<open>Allocators of numbered slots\<close>

locale slot_allocator =
  fixes good :: "'s \<Rightarrow> bool"
    and slots :: "'s \<Rightarrow> nat"
    and used :: "'s \<Rightarrow> nat \<Rightarrow> bool"
    and take_slot :: "'s \<Rightarrow> ('r \<times> 's) res"
    and give_slot :: "'s \<Rightarrow> 'r \<Rightarrow> 's res"
    and slot_of :: "'s \<Rightarrow> 'r \<Rightarrow> nat"
  assumes take_progress:
      "good s \<Longrightarrow> i < slots s \<Longrightarrow> \<not> used s i \<Longrightarrow> \<exists>r s'. take_slot s = Inr (r, s')"
    and take_sound: "good s \<Longrightarrow> take_slot s = Inr (r, s') \<Longrightarrow>
        slot_of s r < slots s \<and> \<not> used s (slot_of s r)
        \<and> used s' = (used s)(slot_of s r := True)
        \<and> slots s' = slots s \<and> slot_of s' = slot_of s \<and> good s'"
    and give_sound: "good s \<Longrightarrow> slot_of s r < slots s \<Longrightarrow>
        \<exists>s'. give_slot s r = Inr s' \<and> used s' = (used s)(slot_of s r := False)
        \<and> slots s' = slots s \<and> slot_of s' = slot_of s \<and> good s'"
begin

text \<open>Giving back what was just taken restores which slots are used.\<close>

lemma take_give:
  assumes "good s" "take_slot s = Inr (r, s')"
  shows "\<exists>s''. give_slot s' r = Inr s'' \<and> used s'' = used s \<and> slots s'' = slots s \<and> good s''"
proof -
  note t = take_sound [OF assms]
  obtain s'' where "give_slot s' r = Inr s''" "used s'' = (used s')(slot_of s' r := False)"
    "slots s'' = slots s'" "good s''"
    using give_sound [of s' r] t by auto
  then show ?thesis using t by (auto simp: fun_upd_idem_iff)
qed

text \<open>Slots taken one after the other are distinct, were free, and are the only change.\<close>

lemma take_many_distinct:
  assumes "good s" "take_many take_slot n s = Inr (rs, s')"
  shows "length rs = n \<and> distinct (map (slot_of s) rs)
     \<and> (\<forall>r \<in> set rs. slot_of s r < slots s \<and> \<not> used s (slot_of s r))
     \<and> (\<forall>i. used s' i \<longleftrightarrow> used s i \<or> i \<in> slot_of s ` set rs)
     \<and> slots s' = slots s \<and> slot_of s' = slot_of s \<and> good s'"
  using assms
proof (induction n arbitrary: s rs)
  case 0
  then show ?case by auto
next
  case (Suc n)
  then obtain r t rs' where r: "take_slot s = Inr (r, t)" "take_many take_slot n t = Inr (rs', s')"
    "rs = r # rs'" by (elim take_many_Suc_InrE)
  note t = take_sound [OF Suc.prems(1) r(1)]
  then have "good t" by simp
  note ih = Suc.IH [OF \<open>good t\<close> r(2)]
  show ?case using t ih r(3) by (auto simp: fun_upd_def image_iff split: if_splits)
qed

text \<open>As many slots as are free can be taken.\<close>

lemma take_many_progress:
  assumes "good s" "n \<le> card {i. i < slots s \<and> \<not> used s i}"
  shows "\<exists>rs s'. take_many take_slot n s = Inr (rs, s')"
  using assms
proof (induction n arbitrary: s)
  case 0
  then show ?case by simp
next
  case (Suc n)
  let ?F = "{i. i < slots s \<and> \<not> used s i}"
  have "?F \<noteq> {}" using Suc.prems(2) by (metis card.empty not_less_eq_eq zero_le)
  then obtain r t where r: "take_slot s = Inr (r, t)" using take_progress [OF Suc.prems(1)] by blast
  note t = take_sound [OF Suc.prems(1) r]
  have "{i. i < slots t \<and> \<not> used t i} = ?F - {slot_of s r}" using t by auto
  then have "n \<le> card {i. i < slots t \<and> \<not> used t i}" using t Suc.prems(2) by simp
  then obtain rs s' where "take_many take_slot n t = Inr (rs, s')" using Suc.IH t by blast
  then show ?case using r by simp
qed

end

section \<open>First in, first out\<close>

locale fifo =
  fixes rep :: "'q \<Rightarrow> 'a list \<Rightarrow> bool"
    and can_put :: "'a list \<Rightarrow> 'a \<Rightarrow> bool"
    and put :: "'q \<Rightarrow> 'a \<Rightarrow> 'q res"
    and get :: "'q \<Rightarrow> ('a \<times> 'q) res"
  assumes put_rep: "rep q xs \<Longrightarrow> can_put xs x \<Longrightarrow> \<exists>q'. put q x = Inr q' \<and> rep q' (xs @ [x])"
    and get_rep: "rep q (x # xs) \<Longrightarrow> \<exists>q'. get q = Inr (x, q') \<and> rep q' xs"
begin

lemma get_many_rep: "rep q (xs @ ys) \<Longrightarrow> \<exists>q'. take_many get (length xs) q = Inr (xs, q') \<and> rep q' ys"
proof (induction xs arbitrary: q)
  case Nil
  then show ?case by simp
next
  case (Cons x xs)
  then obtain q' where "get q = Inr (x, q')" "rep q' (xs @ ys)" using get_rep by fastforce
  then show ?case using Cons.IH by fastforce
qed

lemma put_many_rep:
  assumes "rep q xs" "\<And>us v vs. ys = us @ v # vs \<Longrightarrow> can_put (xs @ us) v"
  shows "\<exists>q'. put_many put q ys = Inr q' \<and> rep q' (xs @ ys)"
  using assms
proof (induction ys arbitrary: q xs)
  case Nil
  then show ?case by simp
next
  case (Cons y ys)
  have "can_put xs y" using Cons.prems(2) [of "[]" y ys] by simp
  then obtain q' where q': "put q y = Inr q'" "rep q' (xs @ [y])" using put_rep Cons.prems(1) by blast
  have "can_put ((xs @ [y]) @ us) v" if "ys = us @ v # vs" for us v vs
    using Cons.prems(2) [of "y # us" v vs] that by simp
  then show ?case using Cons.IH [OF q'(2)] q'(1) by simp
qed

text \<open>What goes in comes out, in the same order, and what was there before comes out first.\<close>

lemma put_get_many:
  assumes "rep q xs" "\<And>us v vs. ys = us @ v # vs \<Longrightarrow> can_put (xs @ us) v"
  shows "\<exists>q' q''. put_many put q ys = Inr q'
     \<and> take_many get (length xs + length ys) q' = Inr (xs @ ys, q'') \<and> rep q'' []"
proof -
  obtain q' where q': "put_many put q ys = Inr q'" "rep q' (xs @ ys)"
    using put_many_rep [of q xs ys] assms by blast
  then show ?thesis using get_many_rep [of q' "xs @ ys" "[]"] by auto
qed

end

section \<open>The doubly linked list of the kernel\<close>

locale kernel_list =
  fixes rep :: "'m \<Rightarrow> 'e list \<Rightarrow> bool"
    and can_add :: "'e list \<Rightarrow> 'e \<Rightarrow> bool"
    and push :: "'m \<Rightarrow> 'e \<Rightarrow> 'm"
    and append :: "'m \<Rightarrow> 'e \<Rightarrow> 'm"
    and remove :: "'m \<Rightarrow> 'e \<Rightarrow> 'm"
    and pop :: "'m \<Rightarrow> ('e \<times> 'm) res"
    and find :: "'m \<Rightarrow> 'e \<Rightarrow> bool res"
  assumes push_rep: "rep m xs \<Longrightarrow> can_add xs x \<Longrightarrow> rep (push m x) (x # xs)"
    and append_rep: "rep m xs \<Longrightarrow> can_add xs x \<Longrightarrow> rep (append m x) (xs @ [x])"
    and remove_rep: "rep m xs \<Longrightarrow> x \<in> set xs \<Longrightarrow> rep (remove m x) (remove1 x xs)"
    and pop_rep: "rep m (x # xs) \<Longrightarrow> \<exists>m'. pop m = Inr (x, m') \<and> rep m' xs"
    and find_rep: "rep m xs \<Longrightarrow> find m x = Inr (x \<in> set xs)"
    and can_add_fresh: "can_add xs x \<Longrightarrow> x \<notin> set xs"
begin

lemma find_append: "rep m xs \<Longrightarrow> can_add xs x \<Longrightarrow> find (append m x) x = Inr True"
  using find_rep [OF append_rep] by simp

lemma append_remove: "rep m xs \<Longrightarrow> can_add xs x \<Longrightarrow> rep (remove (append m x) x) xs"
  using remove_rep [OF append_rep, of m xs x x] can_add_fresh [of xs x] by (simp add: remove1_append)

lemma push_pop: "rep m xs \<Longrightarrow> can_add xs x \<Longrightarrow> \<exists>m'. pop (push m x) = Inr (x, m') \<and> rep m' xs"
  using pop_rep [OF push_rep] by simp

end

text \<open>append and pop make the list a first-in first-out queue.\<close>

sublocale kernel_list \<subseteq> queue: fifo rep can_add "\<lambda>m x. Inr (append m x)" pop
  by unfold_locales (auto simp: append_rep pop_rep)

section \<open>Systems with a safe step relation\<close>

inductive reach :: "('s \<Rightarrow> bool) \<Rightarrow> ('s \<Rightarrow> 's \<Rightarrow> bool) \<Rightarrow> 's \<Rightarrow> bool" for init step where
  reach_init: "init s \<Longrightarrow> reach init step s"
| reach_step: "reach init step s \<Longrightarrow> step s t \<Longrightarrow> reach init step t"

locale safe_system =
  fixes init :: "'s \<Rightarrow> bool" and step :: "'s \<Rightarrow> 's \<Rightarrow> bool" and inv :: "'s \<Rightarrow> bool"
  assumes init_inv: "init s \<Longrightarrow> inv s"
    and step_inv: "inv s \<Longrightarrow> step s t \<Longrightarrow> inv t"
begin

lemma reach_inv: "reach init step s \<Longrightarrow> inv s"
  by (induction rule: reach.induct) (auto intro: init_inv step_inv)

lemma steps_inv: "step\<^sup>*\<^sup>* s t \<Longrightarrow> inv s \<Longrightarrow> inv t"
  by (induction rule: rtranclp.induct) (auto intro: step_inv)

end

end
