(* ===== verification/Klist.thy ===== *)
theory Klist
  imports Interfaces
begin

text \<open>
  lib/kernel/list.c: doubly linked lists whose links are embedded in other structures. The memory is
  a map from the address of a list_elem to its two links; a struct list at address l has its head
  element at l and its tail element at l + 8. The loops follow the links, so they end only on a
  well-formed list: they are partial, and \<open>is_list\<close> makes them total. Every pointer
  operation runs with interrupts disabled and restores the previous state, so it is one step.
\<close>

section \<open>Memory and operations\<close>

record list_elem =
  lprev :: addr
  lnext :: addr

type_synonym lmem = "addr \<Rightarrow> list_elem"

definition set_prev :: "lmem \<Rightarrow> addr \<Rightarrow> addr \<Rightarrow> lmem" where
  "set_prev m a v = m(a := (m a)\<lparr>lprev := v\<rparr>)"

definition set_next :: "lmem \<Rightarrow> addr \<Rightarrow> addr \<Rightarrow> lmem" where
  "set_next m a v = m(a := (m a)\<lparr>lnext := v\<rparr>)"

definition list_head :: "addr \<Rightarrow> addr" where "list_head plist = plist"
definition list_tail :: "addr \<Rightarrow> addr" where "list_tail plist = plist + 8"

definition list_init :: "lmem \<Rightarrow> addr \<Rightarrow> lmem" where
  "list_init m plist =
     (let m = set_prev m (list_head plist) NULL;
          m = set_next m (list_head plist) (list_tail plist);
          m = set_prev m (list_tail plist) (list_head plist)
      in set_next m (list_tail plist) NULL)"

definition list_insert_before :: "lmem \<Rightarrow> addr \<Rightarrow> addr \<Rightarrow> lmem" where
  "list_insert_before m before elem =
     (let m = set_prev m elem (lprev (m before));
          m = set_next m elem before;
          m = set_next m (lprev (m before)) elem
      in set_prev m before elem)"

definition list_push :: "lmem \<Rightarrow> addr \<Rightarrow> addr \<Rightarrow> lmem" where
  "list_push m plist elem = list_insert_before m (lnext (m (list_head plist))) elem"

definition list_append :: "lmem \<Rightarrow> addr \<Rightarrow> addr \<Rightarrow> lmem" where
  "list_append m plist elem = list_insert_before m (list_tail plist) elem"

definition list_remove :: "lmem \<Rightarrow> addr \<Rightarrow> lmem" where
  "list_remove m pelem =
     (let m = set_next m (lprev (m pelem)) (lnext (m pelem))
      in set_prev m (lnext (m pelem)) (lprev (m pelem)))"

definition list_pop :: "lmem \<Rightarrow> addr \<Rightarrow> (addr \<times> lmem) res" where
  "list_pop m plist =
     (if lnext (m (list_head plist)) = list_tail plist
      then Inl (Assertion ''plist->head.next != &plist->tail'')
      else let elem = lnext (m (list_head plist)) in Inr (elem, list_remove m elem))"

partial_function (option) elem_find_loop :: "lmem \<Rightarrow> addr \<Rightarrow> addr \<Rightarrow> addr \<Rightarrow> bool option" where
  "elem_find_loop m tail obj_elem elem =
     (if elem = tail then Some False
      else if elem = obj_elem then Some True
      else elem_find_loop m tail obj_elem (lnext (m elem)))"

definition elem_find :: "lmem \<Rightarrow> addr \<Rightarrow> addr \<Rightarrow> bool res" where
  "elem_find m plist obj_elem =
     of_loop (elem_find_loop m (list_tail plist) obj_elem (lnext (m (list_head plist))))"

definition list_empty :: "lmem \<Rightarrow> addr \<Rightarrow> bool" where
  "list_empty m plist = (lnext (m (list_head plist)) = list_tail plist)"

text \<open>The callback of list_traversal may change a state of its own, which is threaded.\<close>

partial_function (option) list_traversal_loop ::
    "lmem \<Rightarrow> addr \<Rightarrow> (addr \<Rightarrow> u32 \<Rightarrow> 's \<Rightarrow> bool \<times> 's) \<Rightarrow> u32 \<Rightarrow> addr \<Rightarrow> 's \<Rightarrow> (addr \<times> 's) option" where
  "list_traversal_loop m tail func arg elem s =
     (if elem = tail then Some (NULL, s)
      else let r = func elem arg s
           in if fst r then Some (elem, snd r)
              else list_traversal_loop m tail func arg (lnext (m elem)) (snd r))"

definition list_traversal ::
    "lmem \<Rightarrow> addr \<Rightarrow> (addr \<Rightarrow> u32 \<Rightarrow> 's \<Rightarrow> bool \<times> 's) \<Rightarrow> u32 \<Rightarrow> 's \<Rightarrow> (addr \<times> 's) res" where
  "list_traversal m plist func arg s =
     (if list_empty m plist then Inr (NULL, s)
      else of_loop (list_traversal_loop m (list_tail plist) func arg
             (lnext (m (list_head plist))) s))"

partial_function (option) list_len_loop :: "lmem \<Rightarrow> addr \<Rightarrow> addr \<Rightarrow> u32 \<Rightarrow> u32 option" where
  "list_len_loop m tail elem len =
     (if elem = tail then Some len else list_len_loop m tail (lnext (m elem)) (len + 1))"

definition list_len :: "lmem \<Rightarrow> addr \<Rightarrow> u32 res" where
  "list_len m plist = of_loop (list_len_loop m (list_tail plist) (lnext (m (list_head plist))) 0)"

section \<open>Well-formed lists\<close>

text \<open>\<open>chain m a xs b\<close>: the links lead from a over the elements xs to b, and back.\<close>

fun chain :: "lmem \<Rightarrow> addr \<Rightarrow> addr list \<Rightarrow> addr \<Rightarrow> bool" where
  "chain m a [] b \<longleftrightarrow> lnext (m a) = b \<and> lprev (m b) = a"
| "chain m a (x # xs) b \<longleftrightarrow> lnext (m a) = x \<and> lprev (m x) = a \<and> chain m x xs b"

definition is_list :: "addr \<Rightarrow> lmem \<Rightarrow> addr list \<Rightarrow> bool" where
  "is_list plist m xs \<longleftrightarrow>
     chain m (list_head plist) xs (list_tail plist)
     \<and> distinct (list_head plist # xs @ [list_tail plist])"

definition can_link :: "addr \<Rightarrow> addr list \<Rightarrow> addr \<Rightarrow> bool" where
  "can_link plist xs x \<longleftrightarrow> x \<notin> set (list_head plist # xs @ [list_tail plist])"

lemma chain_append [simp]: "chain m a (xs @ y # ys) b \<longleftrightarrow> chain m a xs y \<and> chain m y ys b"
  by (induction xs arbitrary: a) auto

text \<open>A chain only looks at the next links of a and xs and at the previous links of xs and b.\<close>

lemma chain_cong:
  assumes "\<And>x. x \<in> set (a # xs) \<Longrightarrow> lnext (m' x) = lnext (m x)"
    and "\<And>x. x \<in> set (xs @ [b]) \<Longrightarrow> lprev (m' x) = lprev (m x)"
  shows "chain m' a xs b \<longleftrightarrow> chain m a xs b"
  using assms by (induction xs arbitrary: a) auto

lemma links_simps [simp]:
  "lprev (set_prev m a v x) = (if x = a then v else lprev (m x))"
  "lnext (set_prev m a v x) = lnext (m x)"
  "lnext (set_next m a v x) = (if x = a then v else lnext (m x))"
  "lprev (set_next m a v x) = lprev (m x)"
  by (simp_all add: set_prev_def set_next_def)

lemma tail_neq_head [simp]: "list_head p \<noteq> list_tail p" "list_tail p \<noteq> list_head p"
  by (simp_all add: list_head_def list_tail_def)

lemma chain_last_prev: "chain m a xs b \<Longrightarrow> lprev (m b) = last (a # xs)"
  by (induction xs arbitrary: a) auto

lemma chain_first_next: "chain m a xs b \<Longrightarrow> lnext (m a) = hd (xs @ [b])"
  by (cases xs) auto

lemma list_init_is_list: "is_list p (list_init m p) []"
  by (simp add: is_list_def list_init_def Let_def)

lemma chain_set_next [simp]:
  "x \<notin> set (a # xs) \<Longrightarrow> chain (set_next m x v) a xs b \<longleftrightarrow> chain m a xs b"
  by (rule chain_cong) auto

lemma chain_set_prev [simp]:
  "x \<notin> set (xs @ [b]) \<Longrightarrow> chain (set_prev m x v) a xs b \<longleftrightarrow> chain m a xs b"
  by (rule chain_cong) auto

text \<open>Inserting a new element before b makes it the last element of the chain that ends at b.\<close>

lemma chain_insert_before:
  assumes "chain m a xs b" "distinct (a # xs @ [b])" "e \<notin> set (a # xs @ [b])"
  shows "chain (list_insert_before m b e) a (xs @ [e]) b"
  using assms
  by (cases xs rule: rev_cases) (auto simp: list_insert_before_def Let_def)

text \<open>It leaves alone every chain that starts at b.\<close>

lemma chain_insert_after:
  assumes "chain m a xs b" "distinct (a # xs @ b # ys @ [c])" "e \<notin> set (a # xs @ b # ys @ [c])"
  shows "chain (list_insert_before m b e) b ys c \<longleftrightarrow> chain m b ys c"
  using assms by (cases xs rule: rev_cases) (auto simp: list_insert_before_def Let_def)

lemma chain_remove:
  assumes "chain m a (xs @ x # ys) b" "distinct (a # xs @ x # ys @ [b])"
  shows "chain (list_remove m x) a (xs @ ys) b"
  using assms
  by (cases xs rule: rev_cases; cases ys) (auto simp: list_remove_def Let_def)

section \<open>Each operation on a well-formed list\<close>

lemma list_append_is_list:
  assumes "is_list p m xs" "can_link p xs x"
  shows "is_list p (list_append m p x) (xs @ [x])"
  using assms chain_insert_before [of m "list_head p" xs "list_tail p" x]
  by (auto simp: is_list_def can_link_def list_append_def)

lemma list_push_is_list:
  assumes "is_list p m xs" "can_link p xs x"
  shows "is_list p (list_push m p x) (x # xs)"
proof (cases xs)
  case Nil
  then show ?thesis using assms list_append_is_list [of p m "[]" x]
    by (simp add: is_list_def list_push_def list_append_def)
next
  case (Cons y ys)
  then show ?thesis
    using assms chain_insert_before [of m "list_head p" "[]" y x]
      chain_insert_after [of m "list_head p" "[]" y ys "list_tail p" x]
    by (auto simp: is_list_def can_link_def list_push_def)
qed

lemma list_remove_is_list:
  assumes l: "is_list p m xs" and x: "x \<in> set xs"
  shows "is_list p (list_remove m x) (remove1 x xs)"
proof -
  obtain us vs where xs: "xs = us @ x # vs" "x \<notin> set us"
    using split_list_first [OF x] by blast
  then have "chain (list_remove m x) (list_head p) (us @ vs) (list_tail p)"
    using l by (intro chain_remove) (auto simp: is_list_def)
  then show ?thesis using l xs by (auto simp: is_list_def remove1_append)
qed

lemma is_list_next_head: "is_list p m xs \<Longrightarrow> lnext (m (list_head p)) = hd (xs @ [list_tail p])"
  by (auto simp: is_list_def dest: chain_first_next)

lemma list_empty_iff: "is_list p m xs \<Longrightarrow> list_empty m p \<longleftrightarrow> xs = []"
  by (cases xs) (auto simp: list_empty_def is_list_next_head, auto simp: is_list_def)

lemma list_pop_is_list:
  assumes "is_list p m (x # xs)"
  shows "list_pop m p = Inr (x, list_remove m x) \<and> is_list p (list_remove m x) xs"
  using list_remove_is_list [OF assms, of x] is_list_next_head [OF assms] assms
  by (auto simp: list_pop_def is_list_def)

lemma list_pop_empty:
  "is_list p m [] \<Longrightarrow> list_pop m p = Inl (Assertion ''plist->head.next != &plist->tail'')"
  by (simp add: list_pop_def is_list_next_head)

text \<open>The loops, from any element of a chain that ends at the tail.\<close>

lemma elem_find_loop_chain:
  "chain m a xs t \<Longrightarrow> t \<notin> set xs \<Longrightarrow> elem_find_loop m t e (lnext (m a)) = Some (e \<in> set xs)"
proof (induction xs arbitrary: a)
  case Nil
  then show ?case by (simp add: elem_find_loop.simps)
next
  case (Cons x xs)
  then show ?case by (subst elem_find_loop.simps) auto
qed

lemma list_len_loop_chain:
  "chain m a xs t \<Longrightarrow> t \<notin> set xs \<Longrightarrow>
    list_len_loop m t (lnext (m a)) n = Some (n + of_nat (length xs))"
proof (induction xs arbitrary: a n)
  case Nil
  then show ?case by (simp add: list_len_loop.simps)
next
  case (Cons x xs)
  then show ?case by (subst list_len_loop.simps) (auto simp: add.assoc)
qed

text \<open>What list_traversal computes: the callback over the elements in order, up to the first true.\<close>

fun first_hit :: "(addr \<Rightarrow> u32 \<Rightarrow> 's \<Rightarrow> bool \<times> 's) \<Rightarrow> u32 \<Rightarrow> addr list \<Rightarrow> 's \<Rightarrow> addr \<times> 's" where
  "first_hit f arg [] s = (NULL, s)"
| "first_hit f arg (x # xs) s =
     (let r = f x arg s in if fst r then (x, snd r) else first_hit f arg xs (snd r))"

lemma list_traversal_loop_chain:
  "chain m a xs t \<Longrightarrow> t \<notin> set xs \<Longrightarrow>
    list_traversal_loop m t f arg (lnext (m a)) s = Some (first_hit f arg xs s)"
proof (induction xs arbitrary: a s)
  case Nil
  then show ?case by (simp add: list_traversal_loop.simps)
next
  case (Cons x xs)
  then show ?case by (subst list_traversal_loop.simps) (auto simp: Let_def)
qed

lemma elem_find_is_list: "is_list p m xs \<Longrightarrow> elem_find m p e = Inr (e \<in> set xs)"
  by (auto simp: elem_find_def is_list_def intro: elem_find_loop_chain)

lemma list_len_is_list: "is_list p m xs \<Longrightarrow> list_len m p = Inr (of_nat (length xs))"
  using list_len_loop_chain [of m "list_head p" xs "list_tail p" 0]
  by (auto simp: list_len_def is_list_def)

lemma list_traversal_is_list:
  "is_list p m xs \<Longrightarrow> list_traversal m p f arg s = Inr (first_hit f arg xs s)"
  using list_empty_iff [of p m xs] list_traversal_loop_chain [of m "list_head p" xs "list_tail p" f arg s]
  by (auto simp: list_traversal_def is_list_def)

section \<open>The list as the interface the kernel uses\<close>

interpretation klist: kernel_list "is_list p" "can_link p" "\<lambda>m. list_push m p" "\<lambda>m. list_append m p"
    list_remove "\<lambda>m. list_pop m p" "\<lambda>m. elem_find m p" for p
proof unfold_locales
  fix m x xs
  assume "is_list p m (x # xs)"
  then show "\<exists>m'. list_pop m p = Inr (x, m') \<and> is_list p m' xs" using list_pop_is_list by blast
qed (auto simp: list_push_is_list list_append_is_list list_remove_is_list elem_find_is_list can_link_def)

text \<open>Operations on one list leave every list with other cells alone.\<close>

definition cells :: "addr \<Rightarrow> addr list \<Rightarrow> addr set" where
  "cells p xs = set (list_head p # xs @ [list_tail p])"

lemma is_list_cong:
  assumes "\<And>a. a \<in> cells q ys \<Longrightarrow> m' a = m a"
  shows "is_list q m' ys \<longleftrightarrow> is_list q m ys"
proof -
  have "chain m' (list_head q) ys (list_tail q) \<longleftrightarrow> chain m (list_head q) ys (list_tail q)"
    by (rule chain_cong) (use assms in \<open>auto simp: cells_def\<close>)
  then show ?thesis by (simp add: is_list_def)
qed

lemma list_insert_before_other:
  "a \<noteq> e \<Longrightarrow> a \<noteq> b \<Longrightarrow> a \<noteq> lprev (m b) \<Longrightarrow> list_insert_before m b e a = m a"
  by (auto simp: list_insert_before_def Let_def set_prev_def set_next_def)

lemma last_cells: "is_list p m xs \<Longrightarrow> lprev (m (list_tail p)) \<in> cells p xs"
  using chain_last_prev [of m "list_head p" xs "list_tail p"] last_in_set [of xs]
  by (auto simp: is_list_def cells_def split: if_splits)

lemma list_append_frame:
  assumes "is_list p m xs" "is_list q m ys" "cells q ys \<inter> insert x (cells p xs) = {}"
  shows "is_list q (list_append m p x) ys"
proof -
  have "list_append m p x a = m a" if "a \<in> cells q ys" for a
    using that assms(3) last_cells [OF assms(1)] unfolding list_append_def
    by (intro list_insert_before_other) (auto simp: cells_def)
  then show ?thesis using assms(2) is_list_cong by blast
qed

lemma list_push_frame:
  assumes "is_list p m xs" "is_list q m ys" "cells q ys \<inter> insert x (cells p xs) = {}"
  shows "is_list q (list_push m p x) ys"
proof -
  have "lnext (m (list_head p)) \<in> cells p xs"
    using is_list_next_head [OF assms(1)] by (cases xs) (auto simp: cells_def)
  moreover have "lprev (m (lnext (m (list_head p)))) = list_head p"
    using assms(1) by (cases xs) (auto simp: is_list_def)
  ultimately have "list_push m p x a = m a" if "a \<in> cells q ys" for a
    using that assms(3) unfolding list_push_def
    by (intro list_insert_before_other) (auto simp: cells_def)
  then show ?thesis using assms(2) is_list_cong by blast
qed

lemma list_remove_frame:
  assumes l: "is_list p m xs" and "is_list q m ys" "cells q ys \<inter> cells p xs = {}" and x: "x \<in> set xs"
  shows "is_list q (list_remove m x) ys"
proof -
  obtain us vs where xs: "xs = us @ x # vs" using split_list [OF x] by blast
  then have "lprev (m x) = last (list_head p # us)" "lnext (m x) = hd (vs @ [list_tail p])"
    using l by (auto simp: is_list_def dest: chain_last_prev chain_first_next)
  then have "lprev (m x) \<in> cells p xs" "lnext (m x) \<in> cells p xs"
    using xs by (cases vs; auto simp: cells_def)+
  then have "list_remove m x a = m a" if "a \<in> cells q ys" for a
    using that assms(3) by (auto simp: list_remove_def Let_def set_prev_def set_next_def)
  then show ?thesis using assms(2) is_list_cong by blast
qed

text \<open>A self-loop makes the search for anything else run for ever.\<close>

lemma elem_find_loop_self:
  assumes "lnext (m x) = x" "x \<noteq> t" "x \<noteq> e"
  shows "elem_find_loop m t e x = None"
proof -
  have "\<not> (lnext (m a) = a \<and> a \<noteq> t \<and> a \<noteq> e)" if ret: "elem_find_loop m t e a = Some r" for a r
  proof (rule elem_find_loop.raw_induct
      [where P = "\<lambda>m t e a r. \<not> (lnext (m a) = a \<and> a \<noteq> t \<and> a \<noteq> e)", OF _ ret])
    fix f :: "lmem \<Rightarrow> addr \<Rightarrow> addr \<Rightarrow> addr \<Rightarrow> bool option" and m t e a r
    assume "\<And>m t e a r. f m t e a = Some r \<Longrightarrow> \<not> (lnext (m a) = a \<and> a \<noteq> t \<and> a \<noteq> e)"
      and "(if a = t then Some False else if a = e then Some True else f m t e (lnext (m a))) = Some r"
    then show "\<not> (lnext (m a) = a \<and> a \<noteq> t \<and> a \<noteq> e)" by (metis option.distinct(1))
  qed
  then show ?thesis using assms by (cases "elem_find_loop m t e x") auto
qed

lemma elem_find_loop_skip:
  "chain m a xs x \<Longrightarrow> t \<notin> set xs \<Longrightarrow> e \<notin> set xs \<Longrightarrow>
    (\<And>y. y \<in> set (a # xs) \<Longrightarrow> lnext (m' y) = lnext (m y)) \<Longrightarrow>
    elem_find_loop m' t e (lnext (m' a)) = elem_find_loop m' t e x"
proof (induction xs arbitrary: a)
  case (Cons y ys)
  then show ?case by (subst elem_find_loop.simps) auto
qed simp

text \<open>
  Why the kernel asserts that an element is not in a list before it appends it: appending the last
  element again makes a self-loop, and the next search for an absent element never returns.
\<close>

lemma append_last_again:
  assumes l: "is_list p m (xs @ [x])" and e: "e \<notin> set (xs @ [x])"
  shows "elem_find (list_append m p x) p e = Inl Diverges"
proof -
  let ?m = "list_append m p x"
  have self: "lnext (?m x) = x"
    using l by (auto simp: is_list_def list_append_def list_insert_before_def Let_def)
  have "chain m (list_head p) xs x" using l by (simp add: is_list_def)
  moreover have "lnext (?m y) = lnext (m y)" if "y \<in> set (list_head p # xs)" for y
    using l that by (auto simp: is_list_def list_append_def list_insert_before_def Let_def)
  ultimately have "elem_find_loop ?m (list_tail p) e (lnext (?m (list_head p)))
      = elem_find_loop ?m (list_tail p) e x"
    using l e by (intro elem_find_loop_skip [of m]) (auto simp: is_list_def)
  also have "\<dots> = None" using l e self by (intro elem_find_loop_self) (auto simp: is_list_def)
  finally show ?thesis by (simp add: elem_find_def)
qed

section \<open>Properties\<close>

definition demo_list :: lmem where
  "demo_list = list_append (list_append (list_init (\<lambda>_. \<lparr>lprev = 0, lnext = 0\<rparr>) 0x1000) 0x1000 0x2000) 0x1000 0x3000"

lemma demo_list_is: "is_list 0x1000 demo_list [0x2000, 0x3000]"
proof -
  let ?m = "list_init (\<lambda>_. \<lparr>lprev = 0, lnext = 0\<rparr>) 0x1000"
  have "is_list 0x1000 (list_append ?m 0x1000 0x2000) ([] @ [0x2000])"
    by (rule list_append_is_list [OF list_init_is_list]) (simp add: can_link_def list_head_def list_tail_def)
  then have "is_list 0x1000 demo_list ([0x2000] @ [0x3000])"
    unfolding demo_list_def by (intro list_append_is_list) (simp_all add: can_link_def list_head_def list_tail_def)
  then show ?thesis by simp
qed

text \<open>C15: The linked list implements a sequence: on the list of xs, push and append of a new element
  add it at the two ends, remove takes an element out, pop takes the first, and the searches, the
  traversal and the length read the sequence; the loops over the links end.\<close>
theorem klist_refines_sequence:
  assumes "is_list p m xs"
  shows "(\<forall>x. can_link p xs x \<longrightarrow> is_list p (list_push m p x) (x # xs) \<and> is_list p (list_append m p x) (xs @ [x]))
     \<and> (\<forall>x \<in> set xs. is_list p (list_remove m x) (remove1 x xs))
     \<and> (case xs of [] \<Rightarrow> \<not> is_ok (list_pop m p)
        | x # ys \<Rightarrow> \<exists>m'. list_pop m p = Inr (x, m') \<and> is_list p m' ys)
     \<and> (\<forall>e. elem_find m p e = Inr (e \<in> set xs)) \<and> list_empty m p = (xs = [])
     \<and> list_len m p = Inr (of_nat (length xs))
     \<and> (\<forall>f arg (s :: 's). list_traversal m p f arg s = Inr (first_hit f arg xs s))"
  using assms klist.push_rep [of p m xs] klist.append_rep [of p m xs] klist.remove_rep [of p m xs]
    klist.pop_rep [of p m] klist.find_rep [of p m xs] list_empty_iff [OF assms] list_len_is_list [OF assms]
    list_traversal_is_list [OF assms] list_pop_empty [of p m]
  by (auto split: list.split)

lemma klist_refines_sequence_witness:
  "elem_find demo_list 0x1000 0x3000 = Inr True \<and> list_len demo_list 0x1000 = Inr 2"
  using klist_refines_sequence [OF demo_list_is] by auto

text \<open>The list is first in, first out: new elements appended in a row are popped in that order after
  those that were there, whatever the links outside the list hold.\<close>
theorem klist_fifo:
  assumes "is_list p m xs" "distinct (xs @ ys)" "list_head p \<notin> set ys" "list_tail p \<notin> set ys"
  shows "\<exists>m' m''. put_many (\<lambda>m x. Inr (list_append m p x)) m ys = Inr m'
     \<and> take_many (\<lambda>m. list_pop m p) (length xs + length ys) m' = Inr (xs @ ys, m'') \<and> is_list p m'' []"
proof (rule klist.queue.put_get_many [OF assms(1)])
  fix us v vs assume "ys = us @ v # vs"
  then show "can_link p (xs @ us) v" using assms(2-4) by (auto simp: can_link_def)
qed

lemma klist_fifo_witness:
  "\<exists>m' m''. put_many (\<lambda>m x. Inr (list_append m 0x1000 x)) demo_list [0x4000] = Inr m'
     \<and> take_many (\<lambda>m. list_pop m 0x1000) (length [0x2000, 0x3000 :: addr] + length [0x4000 :: addr]) m'
         = Inr ([0x2000, 0x3000] @ [0x4000], m'') \<and> is_list 0x1000 m'' []"
  by (rule klist_fifo [OF demo_list_is]) (simp_all add: list_head_def list_tail_def)

end
