(* ===== verification/Cstring.thy ===== *)
theory Cstring
  imports HB_Prelude
begin

text \<open>
  lib/string.c on byte-addressed memory: memset, memcpy and memcmp count their size down, so they
  are recursive on it; the functions on C strings follow the bytes up to a NUL and are partial.
  char is signed on the target, uint8_t is not, which matters wherever the two are compared.
  \<open>cstr m p cs\<close> says that a C string with the characters cs stands at p.
\<close>

type_synonym mem = "addr \<Rightarrow> u8"

section \<open>Blocks of a given size\<close>

fun memset_loop :: "mem \<Rightarrow> addr \<Rightarrow> u8 \<Rightarrow> nat \<Rightarrow> mem" where
  "memset_loop m dst value 0 = m"
| "memset_loop m dst value (Suc sz) = memset_loop (m(dst := value)) (dst + 1) value sz"

definition memset :: "mem \<Rightarrow> addr \<Rightarrow> u8 \<Rightarrow> u32 \<Rightarrow> mem res" where
  "memset m dst value sz =
     (if dst = NULL then Inl (Assertion ''dst_ != NULL'')
      else Inr (memset_loop m dst value (unat sz)))"

fun memcpy_loop :: "mem \<Rightarrow> addr \<Rightarrow> addr \<Rightarrow> nat \<Rightarrow> mem" where
  "memcpy_loop m dst src 0 = m"
| "memcpy_loop m dst src (Suc sz) = memcpy_loop (m(dst := m src)) (dst + 1) (src + 1) sz"

definition memcpy :: "mem \<Rightarrow> addr \<Rightarrow> addr \<Rightarrow> u32 \<Rightarrow> mem res" where
  "memcpy m dst src sz =
     (if \<not> (dst \<noteq> NULL \<and> src \<noteq> NULL) then Inl (Assertion ''dst_ != NULL && src_ != NULL'')
      else Inr (memcpy_loop m dst src (unat sz)))"

fun memcmp_loop :: "mem \<Rightarrow> addr \<Rightarrow> addr \<Rightarrow> nat \<Rightarrow> u32" where
  "memcmp_loop m a b 0 = 0"
| "memcmp_loop m a b (Suc sz) =
     (if m a \<noteq> m b then (if m a > m b then 1 else - 1) else memcmp_loop m (a + 1) (b + 1) sz)"

definition memcmp :: "mem \<Rightarrow> addr \<Rightarrow> addr \<Rightarrow> u32 \<Rightarrow> u32 res" where
  "memcmp m a b sz =
     (if \<not> (a \<noteq> NULL \<and> b \<noteq> NULL) then Inl (Assertion ''a_ != NULL && b_ != NULL'')
      else Inr (memcmp_loop m a b (unat sz)))"

section \<open>C strings\<close>

partial_function (option) strcpy_loop :: "mem \<Rightarrow> addr \<Rightarrow> addr \<Rightarrow> mem option" where
  "strcpy_loop m dst src =
     (let m' = m(dst := m src)
      in if m src \<noteq> 0 then strcpy_loop m' (dst + 1) (src + 1) else Some m')"

definition strcpy :: "mem \<Rightarrow> addr \<Rightarrow> addr \<Rightarrow> (addr \<times> mem) res" where
  "strcpy m dst src =
     (if \<not> (dst \<noteq> NULL \<and> src \<noteq> NULL) then Inl (Assertion ''dst_ != NULL && src_ != NULL'')
      else bindR (of_loop (strcpy_loop m dst src)) (\<lambda>m'. Inr (dst, m')))"

partial_function (option) strlen_loop :: "mem \<Rightarrow> addr \<Rightarrow> addr option" where
  "strlen_loop m s = (if m s \<noteq> 0 then strlen_loop m (s + 1) else Some (s + 1))"

definition strlen :: "mem \<Rightarrow> addr \<Rightarrow> u32 res" where
  "strlen m str =
     (if str = NULL then Inl (Assertion ''str_ != NULL'')
      else bindR (of_loop (strlen_loop m str)) (\<lambda>s. Inr (s - str - 1)))"

partial_function (option) strcmp_loop :: "mem \<Rightarrow> addr \<Rightarrow> addr \<Rightarrow> u32 option" where
  "strcmp_loop m a b =
     (if m a \<noteq> 0 \<and> m a = m b then strcmp_loop m (a + 1) (b + 1)
      else Some (if sint (m a) > sint (m b) then 1 else if sint (m a) < sint (m b) then - 1 else 0))"

definition strcmp :: "mem \<Rightarrow> addr \<Rightarrow> addr \<Rightarrow> u32 res" where
  "strcmp m a b =
     (if \<not> (a \<noteq> NULL \<and> b \<noteq> NULL) then Inl (Assertion ''a_ != NULL && b_ != NULL'')
      else of_loop (strcmp_loop m a b))"

partial_function (option) strchr_loop :: "mem \<Rightarrow> addr \<Rightarrow> u8 \<Rightarrow> addr option" where
  "strchr_loop m str ch =
     (if m str \<noteq> 0 then if m str = ch then Some str else strchr_loop m (str + 1) ch
      else Some NULL)"

definition strchr :: "mem \<Rightarrow> addr \<Rightarrow> u8 \<Rightarrow> addr res" where
  "strchr m str ch =
     (if str = NULL then Inl (Assertion ''str_ != NULL'') else of_loop (strchr_loop m str ch))"

text \<open>Here ch is a uint8_t and *str_ a char: the comparison is on int, after promotion.\<close>

partial_function (option) strrchr_loop :: "mem \<Rightarrow> addr \<Rightarrow> u8 \<Rightarrow> addr \<Rightarrow> addr option" where
  "strrchr_loop m str ch last_char_ptr =
     (if m str \<noteq> 0
      then strrchr_loop m (str + 1) ch (if sint (m str) = uint ch then str else last_char_ptr)
      else Some last_char_ptr)"

definition strrchr :: "mem \<Rightarrow> addr \<Rightarrow> u8 \<Rightarrow> addr res" where
  "strrchr m str ch =
     (if str = NULL then Inl (Assertion ''str_ != NULL'')
      else of_loop (strrchr_loop m str ch NULL))"

partial_function (option) strcat_end_loop :: "mem \<Rightarrow> addr \<Rightarrow> addr option" where
  "strcat_end_loop m str = (if m str \<noteq> 0 then strcat_end_loop m (str + 1) else Some str)"

partial_function (option) strcat_copy_loop :: "mem \<Rightarrow> addr \<Rightarrow> addr \<Rightarrow> mem option" where
  "strcat_copy_loop m str src =
     (if m src \<noteq> 0 then strcat_copy_loop (m(str := m src)) (str + 1) (src + 1) else Some m)"

definition strcat :: "mem \<Rightarrow> addr \<Rightarrow> addr \<Rightarrow> (addr \<times> mem) res" where
  "strcat m dsc src =
     (if \<not> (dsc \<noteq> NULL \<and> src \<noteq> NULL) then Inl (Assertion ''dsc_ != NULL && src_ != NULL'')
      else bindR (of_loop (strcat_end_loop m dsc)) (\<lambda>str.
           bindR (of_loop (strcat_copy_loop m str src)) (\<lambda>m'. Inr (dsc, m'))))"

partial_function (option) strchrs_loop :: "mem \<Rightarrow> addr \<Rightarrow> u8 \<Rightarrow> u32 \<Rightarrow> u32 option" where
  "strchrs_loop m str ch ch_cnt =
     (if m str \<noteq> 0
      then strchrs_loop m (str + 1) ch (if sint (m str) = uint ch then ch_cnt + 1 else ch_cnt)
      else Some ch_cnt)"

definition strchrs :: "mem \<Rightarrow> addr \<Rightarrow> u8 \<Rightarrow> u32 res" where
  "strchrs m str ch =
     (if str = NULL then Inl (Assertion ''str_ != NULL'') else of_loop (strchrs_loop m str ch 0))"

section \<open>Regions and strings in memory\<close>

definition region :: "addr \<Rightarrow> nat \<Rightarrow> addr set" where
  "region p n = (\<lambda>i. p + of_nat i) ` {..<n}"

fun cstr :: "mem \<Rightarrow> addr \<Rightarrow> u8 list \<Rightarrow> bool" where
  "cstr m p [] \<longleftrightarrow> m p = 0"
| "cstr m p (c # cs) \<longleftrightarrow> m p = c \<and> c \<noteq> 0 \<and> cstr m (p + 1) cs"

lemma region_0 [simp]: "region p 0 = {}"
  by (simp add: region_def)

lemma region_Suc: "region p (Suc n) = insert p (region (p + 1) n)"
  by (simp add: region_def lessThan_Suc_eq_insert_0 image_image add.assoc)

lemma region_memI [intro]: "i < n \<Longrightarrow> p + of_nat i \<in> region p n"
  by (simp add: region_def)

lemma start_not_in_rest: "n < 4294967296 \<Longrightarrow> p \<notin> region (p + 1) n"
proof
  assume "n < 4294967296" "p \<in> region (p + 1) n"
  then obtain i where i: "i < n" "p = p + 1 + of_nat i" by (auto simp: region_def)
  then have "(of_nat (Suc i) :: addr) = 0" by (simp add: add.assoc)
  then have "unat (of_nat (Suc i) :: addr) = 0" by simp
  then show False using i(1) \<open>n < _\<close> unat_of_nat_u32 [of "Suc i"] by simp
qed

lemma region_rest: "region (p + 1) n \<subseteq> region p (Suc n)"
  by (auto simp: region_Suc)

lemma memset_loop_eq: "memset_loop m d v n = (\<lambda>a. if a \<in> region d n then v else m a)"
  by (induction n arbitrary: m d) (auto simp: region_Suc fun_eq_iff)

lemma memcpy_loop_outside: "a \<notin> region d n \<Longrightarrow> memcpy_loop m d s n a = m a"
  by (induction n arbitrary: m d s) (auto simp: region_Suc)

text \<open>memcpy copies forwards: right as long as no byte is overwritten before it is read.\<close>

lemma memcpy_loop_copies:
  assumes "\<And>i j. i < j \<Longrightarrow> j < n \<Longrightarrow> d + of_nat i \<noteq> s + of_nat j" "n \<le> 4294967296" "k < n"
  shows "memcpy_loop m d s n (d + of_nat k) = m (s + of_nat k)"
  using assms
proof (induction n arbitrary: m d s k)
  case 0
  then show ?case by simp
next
  case (Suc n)
  show ?case
  proof (cases k)
    case 0
    then show ?thesis using Suc.prems start_not_in_rest [of n d] by (simp add: memcpy_loop_outside)
  next
    case (Suc k')
    have "d + 1 + of_nat i \<noteq> s + 1 + of_nat j" if "i < j" "j < n" for i j
      using Suc.prems(1) [of "Suc i" "Suc j"] that by (simp add: add.assoc)
    then have "memcpy_loop (m(d := m s)) (d + 1) (s + 1) n (d + 1 + of_nat k')
        = (m(d := m s)) (s + 1 + of_nat k')"
      using Suc.IH Suc.prems Suc by simp
    moreover have "s + 1 + of_nat k' \<noteq> d"
      using Suc.prems(1) [of 0 "Suc k'"] Suc.prems(3) Suc by (auto simp: add.assoc)
    ultimately show ?thesis using Suc by (simp add: add.assoc)
  qed
qed

lemma memcmp_loop_0: "memcmp_loop m a b n = 0 \<longleftrightarrow> (\<forall>i<n. m (a + of_nat i) = m (b + of_nat i))"
proof (induction n arbitrary: a b)
  case (Suc n)
  have A: "(\<forall>i<Suc n. m (a + of_nat i) = m (b + of_nat i)) \<longleftrightarrow>
      m a = m b \<and> (\<forall>i<n. m (a + 1 + of_nat i) = m (b + 1 + of_nat i))"
    unfolding All_less_Suc2 by (simp add: add.assoc)
  have B: "memcmp_loop m a b (Suc n) = 0 \<longleftrightarrow> m a = m b \<and> memcmp_loop m (a + 1) (b + 1) n = 0"
    by simp
  show ?case unfolding A B Suc.IH by (rule refl)
qed simp

lemma memcmp_loop_first_diff:
  assumes "k < n" "\<forall>i<k. m (a + of_nat i) = m (b + of_nat i)"
    "m (a + of_nat k) \<noteq> m (b + of_nat k)"
  shows "memcmp_loop m a b n = (if m (a + of_nat k) > m (b + of_nat k) then 1 else - 1)"
  using assms
proof (induction n arbitrary: a b k)
  case (Suc n)
  show ?case
  proof (cases k)
    case (Suc k')
    have "m a = m b" using Suc.prems(2) Suc by (auto dest: spec [of _ 0])
    moreover have "\<forall>i<k'. m (a + 1 + of_nat i) = m (b + 1 + of_nat i)"
    proof (intro allI impI)
      fix i assume "i < k'"
      then show "m (a + 1 + of_nat i) = m (b + 1 + of_nat i)"
        using Suc.prems(2) Suc by (auto dest: spec [of _ "Suc i"] simp: add.assoc)
    qed
    ultimately show ?thesis using Suc.IH [of k' "a + 1" "b + 1"] Suc.prems Suc by (simp add: add.assoc)
  qed (use Suc.prems in auto)
qed simp

lemma cstr_nonzero: "cstr m p cs \<Longrightarrow> 0 \<notin> set cs"
  by (induction cs arbitrary: p) auto

lemma cstr_nth: "cstr m p cs \<longleftrightarrow>
  (\<forall>i<length cs. m (p + of_nat i) = cs ! i \<and> cs ! i \<noteq> 0) \<and> m (p + of_nat (length cs)) = 0"
proof (induction cs arbitrary: p)
  case (Cons c cs)
  then show ?case by (auto simp: less_Suc_eq_0_disj add.assoc nth_Cons split: nat.splits)
qed simp

lemma cstr_cong:
  assumes "\<And>a. a \<in> region p (Suc (length cs)) \<Longrightarrow> m' a = m a"
  shows "cstr m' p cs \<longleftrightarrow> cstr m p cs"
  using assms
proof (induction cs arbitrary: p)
  case (Cons c cs)
  have "cstr m' (p + 1) cs \<longleftrightarrow> cstr m (p + 1) cs"
    using Cons.prems by (intro Cons.IH) (simp add: region_Suc [of p])
  then show ?case using Cons.prems [of p] by (simp add: region_Suc)
qed (simp add: region_Suc)

lemma cstr_unique: "cstr m p cs \<Longrightarrow> cstr m p ds \<Longrightarrow> cs = ds"
proof (induction cs arbitrary: p ds)
  case Nil
  then show ?case by (cases ds) auto
next
  case (Cons c cs)
  then show ?case by (cases ds) auto
qed

lemma strlen_loop_cstr: "cstr m p cs \<Longrightarrow> strlen_loop m p = Some (p + of_nat (length cs) + 1)"
proof (induction cs arbitrary: p)
  case (Cons c cs)
  then show ?case by (subst strlen_loop.simps) (simp add: add.assoc)
qed (simp add: strlen_loop.simps)

lemma strlen_cstr: "cstr m p cs \<Longrightarrow> p \<noteq> NULL \<Longrightarrow> strlen m p = Inr (of_nat (length cs))"
  by (simp add: strlen_def strlen_loop_cstr)

text \<open>The order strcmp decides: the first difference, as signed characters, NUL included.\<close>

fun cmp_chars :: "u8 list \<Rightarrow> u8 list \<Rightarrow> u32" where
  "cmp_chars [] [] = 0"
| "cmp_chars [] (b # bs) = (if 0 > sint b then 1 else - 1)"
| "cmp_chars (a # as) [] = (if sint a > 0 then 1 else - 1)"
| "cmp_chars (a # as) (b # bs) =
     (if a = b then cmp_chars as bs else if sint a > sint b then 1 else - 1)"

lemma sint_u8_eq_iff: "sint (a :: u8) = sint b \<longleftrightarrow> a = b"
  by (rule word_eq_iff_signed [symmetric])

lemma cmp_chars_0: "0 \<notin> set as \<Longrightarrow> 0 \<notin> set bs \<Longrightarrow> cmp_chars as bs = 0 \<longleftrightarrow> as = bs"
  by (induction as bs rule: cmp_chars.induct) auto

lemma strcmp_loop_cstr:
  "cstr m a as \<Longrightarrow> cstr m b bs \<Longrightarrow> strcmp_loop m a b = Some (cmp_chars as bs)"
proof (induction as bs arbitrary: a b rule: cmp_chars.induct)
  case (2 c bs)
  then show ?case by (subst strcmp_loop.simps) (auto simp: sint_u8_eq_iff [of c 0, simplified])
next
  case (3 c as)
  then show ?case by (subst strcmp_loop.simps) (auto simp: sint_u8_eq_iff [of c 0, simplified])
next
  case (4 c as d bs)
  then show ?case by (subst strcmp_loop.simps) (auto simp: sint_u8_eq_iff)
qed (subst strcmp_loop.simps, auto)

lemma strchr_loop_cstr:
  "cstr m p cs \<Longrightarrow> strchr_loop m p ch =
    Some (if ch \<in> set cs then p + of_nat (length (takeWhile (\<lambda>c. c \<noteq> ch) cs)) else NULL)"
proof (induction cs arbitrary: p)
  case (Cons c cs)
  then show ?case by (subst strchr_loop.simps) (auto simp: add.assoc)
qed (simp add: strchr_loop.simps)

text \<open>The position strrchr should find: the last one; \<open>last_at\<close> starts from the given default.\<close>

fun last_at :: "(u8 \<Rightarrow> bool) \<Rightarrow> addr \<Rightarrow> u8 list \<Rightarrow> addr \<Rightarrow> addr" where
  "last_at P p [] d = d"
| "last_at P p (c # cs) d = last_at P (p + 1) cs (if P c then p else d)"

lemma last_at_append: "last_at P p (as @ bs) d = last_at P (p + of_nat (length as)) bs (last_at P p as d)"
  by (induction as arbitrary: p d) (auto simp: add.assoc)

lemma last_at_none: "(\<forall>c\<in>set cs. \<not> P c) \<Longrightarrow> last_at P p cs d = d"
  by (induction cs arbitrary: p d) auto

lemma last_at_split:
  "P c \<Longrightarrow> (\<forall>x\<in>set bs. \<not> P x) \<Longrightarrow> last_at P p (as @ c # bs) d = p + of_nat (length as)"
  by (simp add: last_at_append last_at_none)

lemma strrchr_loop_cstr:
  "cstr m p cs \<Longrightarrow> strrchr_loop m p ch d = Some (last_at (\<lambda>c. sint c = uint ch) p cs d)"
proof (induction cs arbitrary: p d)
  case (Cons c cs)
  then show ?case by (subst strrchr_loop.simps) auto
qed (simp add: strrchr_loop.simps)

lemma strchrs_loop_cstr:
  "cstr m p cs \<Longrightarrow> strchrs_loop m p ch n =
    Some (n + of_nat (length (filter (\<lambda>c. sint c = uint ch) cs)))"
proof (induction cs arbitrary: p n)
  case (Cons c cs)
  then show ?case by (subst strchrs_loop.simps) (auto simp: add.assoc)
qed (simp add: strchrs_loop.simps)

text \<open>A char and a uint8_t are equal as int when the byte is the same and below 128.\<close>

lemma char_eq_uint8: "sint (c :: u8) = uint ch \<longleftrightarrow> c = ch \<and> uint ch < 128"
proof -
  have c: "sint c = (uint c + 128) mod 256 - 128"
    by (simp add: sint_uint signed_take_bit_eq_take_bit_shift take_bit_eq_mod)
  have b: "0 \<le> uint c" "uint c < 256" "0 \<le> uint ch" "uint ch < 256"
    using uint_lt2p [of c] uint_lt2p [of ch] by simp_all
  have small: "sint c = uint c" if "uint c < 128" using c b that by simp
  have large: "sint c = uint c - 256" if "\<not> uint c < 128"
  proof -
    have "(uint c - 128 + 256) mod 256 = (uint c - 128) mod 256" by (rule mod_add_self2)
    also have "\<dots> = uint c - 128" using b that by (intro mod_pos_pos_trivial) auto
    also have "uint c - 128 + 256 = uint c + 128" by simp
    finally show ?thesis using c by simp
  qed
  have eq: "c = ch \<longleftrightarrow> uint c = uint ch" by (simp add: word_uint_eq_iff)
  show ?thesis
  proof (cases "uint c < 128")
    case True
    then show ?thesis using small eq by auto
  next
    case False
    then have "sint c \<noteq> uint ch" using large b by linarith
    then show ?thesis using False eq by auto
  qed
qed

text \<open>On disjoint regions the copying loops are memcpy of the length of the string.\<close>

lemma disjoint_rest:
  assumes "region d (Suc n) \<inter> region s (Suc k) = {}"
  shows "region (d + 1) n \<inter> region (s + 1) k = {}" "d \<notin> region (s + 1) k" "d \<noteq> s"
  using assms by (auto simp: region_Suc)

lemma strcpy_loop_cstr:
  assumes "cstr m s cs" "region d (Suc (length cs)) \<inter> region s (Suc (length cs)) = {}"
  shows "strcpy_loop m d s = Some (memcpy_loop m d s (Suc (length cs)))"
  using assms
proof (induction cs arbitrary: m d s)
  case Nil
  then show ?case by (simp add: strcpy_loop.simps fun_upd_def)
next
  case (Cons c cs)
  have "cstr (m(d := m s)) (s + 1) cs \<longleftrightarrow> cstr m (s + 1) cs"
    using Cons.prems(2) by (intro cstr_cong) (auto simp: region_Suc)
  then have "cstr (m(d := m s)) (s + 1) cs" using Cons.prems(1) by simp
  then have "strcpy_loop (m(d := m s)) (d + 1) (s + 1)
      = Some (memcpy_loop (m(d := m s)) (d + 1) (s + 1) (Suc (length cs)))"
    by (rule Cons.IH) (rule disjoint_rest(1) [OF Cons.prems(2) [unfolded list.size(4) add_Suc_right
          add_0_right]])
  then show ?case using Cons.prems(1) by (subst strcpy_loop.simps) (auto simp: fun_upd_def)
qed

lemma strcat_copy_loop_cstr:
  assumes "cstr m s cs" "region d (length cs) \<inter> region s (Suc (length cs)) = {}"
  shows "strcat_copy_loop m d s = Some (memcpy_loop m d s (length cs))"
  using assms
proof (induction cs arbitrary: m d s)
  case Nil
  then show ?case by (simp add: strcat_copy_loop.simps)
next
  case (Cons c cs)
  have "cstr (m(d := m s)) (s + 1) cs \<longleftrightarrow> cstr m (s + 1) cs"
    using Cons.prems(2) by (intro cstr_cong) (auto simp: region_Suc)
  then have "cstr (m(d := m s)) (s + 1) cs" using Cons.prems(1) by simp
  then have "strcat_copy_loop (m(d := m s)) (d + 1) (s + 1)
      = Some (memcpy_loop (m(d := m s)) (d + 1) (s + 1) (length cs))"
    by (rule Cons.IH) (rule disjoint_rest(1) [OF Cons.prems(2) [unfolded list.size(4) add_Suc_right
          add_0_right]])
  then show ?case using Cons.prems(1) by (subst strcat_copy_loop.simps) (auto simp: fun_upd_def)
qed

lemma strcat_end_loop_cstr: "cstr m p cs \<Longrightarrow> strcat_end_loop m p = Some (p + of_nat (length cs))"
proof (induction cs arbitrary: p)
  case (Cons c cs)
  then show ?case by (subst strcat_end_loop.simps) (simp add: add.assoc)
qed (simp add: strcat_end_loop.simps)

lemma disjoint_copy:
  assumes "region d n \<inter> region s k = {}" "n \<le> k" "n \<le> 4294967296" "i < n"
  shows "memcpy_loop m d s n (d + of_nat i) = m (s + of_nat i)"
proof (rule memcpy_loop_copies [OF _ assms(3,4)])
  fix i j assume "i < j" "j < n"
  then have "d + of_nat i \<in> region d n" "s + of_nat j \<in> region s k" using assms(2) by auto
  then show "d + of_nat i \<noteq> s + of_nat j" using assms(1) by auto
qed

lemma copied_cstr:
  assumes "cstr m s cs" "region d (Suc (length cs)) \<inter> region s (Suc (length cs)) = {}"
    "length cs < 4294967296"
  shows "cstr (memcpy_loop m d s (Suc (length cs))) d cs"
  unfolding cstr_nth
proof (intro conjI allI impI)
  have copy: "memcpy_loop m d s (Suc (length cs)) (d + of_nat i) = m (s + of_nat i)"
    if "i < Suc (length cs)" for i
    using disjoint_copy [OF assms(2)] assms(3) that by simp
  show "memcpy_loop m d s (Suc (length cs)) (d + of_nat (length cs)) = 0"
    using copy [of "length cs"] assms(1) by (simp add: cstr_nth)
  fix i assume i: "i < length cs"
  then show "memcpy_loop m d s (Suc (length cs)) (d + of_nat i) = cs ! i" "cs ! i \<noteq> 0"
    using copy [of i] assms(1) by (simp_all add: cstr_nth)
qed

text \<open>strcat writes the characters but no NUL: the string is terminated only if one was there.\<close>

lemma region_append: "region p (n + k) = region p n \<union> region (p + of_nat n) k"
proof (induction n arbitrary: p)
  case (Suc n)
  then show ?case by (simp add: region_Suc add.assoc)
qed simp

lemma region_outside_next:
  assumes "n < 4294967296" shows "p + of_nat n \<notin> region p n"
proof
  assume "p + of_nat n \<in> region p n"
  then obtain i where i: "i < n" "(of_nat n :: addr) = of_nat i" by (auto simp: region_def)
  then show False using assms unat_of_nat_u32 [of n] unat_of_nat_u32 [of i] by auto
qed

lemma region_disjoint_next:
  assumes "n + k \<le> 4294967296" shows "region p n \<inter> region (p + of_nat n) k = {}"
proof -
  have "(of_nat i :: addr) \<noteq> of_nat n + of_nat j" if "i < n" "j < k" for i j
  proof
    assume "(of_nat i :: addr) = of_nat n + of_nat j"
    then have "(of_nat i :: addr) = of_nat (n + j)" by simp
    then show False using that assms unat_of_nat_u32 [of i] unat_of_nat_u32 [of "n + j"] by auto
  qed
  then show ?thesis by (auto simp: region_def add.assoc)
qed

section \<open>Bytes written in a row\<close>

fun poke :: "mem \<Rightarrow> addr \<Rightarrow> u8 list \<Rightarrow> mem" where
  "poke m b [] = m"
| "poke m b (x # xs) = poke (m(b := x)) (b + 1) xs"

lemma poke_append: "poke m b (xs @ ys) = poke (poke m b xs) (b + of_nat (length xs)) ys"
  by (induction xs arbitrary: m b) (simp_all add: add.assoc)

lemma poke_outside: "a \<notin> region b (length xs) \<Longrightarrow> poke m b xs a = m a"
  by (induction xs arbitrary: m b) (auto simp: region_Suc)

lemma poke_inside:
  "i < length xs \<Longrightarrow> length xs \<le> 4294967296 \<Longrightarrow> poke m b xs (b + of_nat i) = xs ! i"
proof (induction xs arbitrary: m b i)
  case (Cons x xs)
  show ?case
  proof (cases i)
    case 0
    then show ?thesis using Cons.prems start_not_in_rest [of "length xs" b] by (simp add: poke_outside)
  next
    case (Suc j)
    then show ?thesis using Cons.IH [of j "m(b := x)" "b + 1"] Cons.prems by (simp add: add.assoc fun_upd_def)
  qed
qed simp

lemma poke_over: "poke (poke m b (xs @ [y])) (b + of_nat (length xs)) (z # zs) = poke m b (xs @ z # zs)"
  by (simp add: poke_append)

lemma memcpy_poke: "(\<forall>i < n. m (s + of_nat i) = cs ! i) \<Longrightarrow> length cs = n \<Longrightarrow> region d n \<inter> region s n = {}
   \<Longrightarrow> memcpy_loop m d s n = poke m d cs"
proof (induction n arbitrary: m d s cs)
  case (Suc n)
  obtain c cs' where cs: "cs = c # cs'" "length cs' = n" using Suc.prems(2) by (cases cs) auto
  have c: "m s = c" using Suc.prems(1) cs(1) by (auto dest: spec [of _ 0])
  have "(m(d := c)) (s + 1 + of_nat i) = cs' ! i" if "i < n" for i
  proof -
    have "m (s + 1 + of_nat i) = cs' ! i" using Suc.prems(1) cs(1) that by (auto dest: spec [of _ "Suc i"] simp: add.assoc)
    moreover have "s + 1 + of_nat i \<in> region s (Suc n)" using that region_rest [of s n] by blast
    moreover have "d \<in> region d (Suc n)" by (simp add: region_Suc)
    ultimately show ?thesis using Suc.prems(3) by auto
  qed
  moreover have "region (d + 1) n \<inter> region (s + 1) n = {}"
    using Suc.prems(3) region_rest [of d n] region_rest [of s n] by blast
  ultimately show ?case using Suc.IH [of "m(d := c)" "s + 1" cs' "d + 1"] cs c by (simp add: fun_upd_def)
qed simp

lemma poke_agrees: "region b (length xs) \<inter> P = {} \<Longrightarrow> a \<in> P \<Longrightarrow> poke m b xs a = m a"
  by (intro poke_outside) blast

lemma region_mono: "n \<le> k \<Longrightarrow> region p n \<subseteq> region p k"
  by (auto simp: region_def)

section \<open>Properties\<close>

definition demo_mem :: mem where
  "demo_mem = (\<lambda>a. if a = 0x1000 \<or> a = 0x1002 then 0x61 else if a = 0x1001 then 0x62
     else if a = 0x2000 then 0x63 else if a = 0x2001 then 0 else if a = 0x2002 then 0xff else 0)"

lemma demo_strings: "cstr demo_mem 0x1000 [0x61, 0x62, 0x61]" "cstr demo_mem 0x2000 [0x63]"
  by (simp_all add: demo_mem_def)

lemma region_far: "unat p + n \<le> unat q \<Longrightarrow> unat q + k < 4294967296 \<Longrightarrow> region p n \<inter> region q k = {}"
proof -
  assume a: "unat p + n \<le> unat q" "unat q + k < 4294967296"
  have "p + of_nat i \<noteq> q + of_nat j" if ij: "i < n" "j < k" for i j
  proof
    assume e: "p + of_nat i = q + of_nat j"
    have "unat (p + of_nat i) = unat p + i"
      using a ij unat_of_nat_u32 [of i] by (subst unat_add_u32) simp_all
    moreover have "unat (q + of_nat j) = unat q + j"
      using a ij unat_of_nat_u32 [of j] by (subst unat_add_u32) simp_all
    ultimately show False using e a(1) ij by simp
  qed
  then show ?thesis by (auto simp: region_def)
qed

text \<open>strcpy copies a C string with its NUL into a region apart from it, returns the destination and
  writes nothing else; strlen then reads the same length on both.\<close>
theorem strcpy_copies:
  assumes s: "cstr m src cs" and d: "dst \<noteq> NULL" "src \<noteq> NULL" and n: "length cs < 4294967295"
    and dis: "region dst (Suc (length cs)) \<inter> region src (Suc (length cs)) = {}"
  shows "\<exists>m'. strcpy m dst src = Inr (dst, m') \<and> cstr m' dst cs \<and> cstr m' src cs
     \<and> (\<forall>a. a \<notin> region dst (Suc (length cs)) \<longrightarrow> m' a = m a)
     \<and> strlen m' dst = Inr (of_nat (length cs)) \<and> strlen m src = Inr (of_nat (length cs))"
proof -
  let ?m = "memcpy_loop m dst src (Suc (length cs))"
  have "strcpy m dst src = Inr (dst, ?m)"
    using strcpy_loop_cstr [OF s dis] d by (simp add: strcpy_def)
  moreover have c: "cstr ?m dst cs" using n by (intro copied_cstr [OF s dis]) simp
  moreover have "cstr ?m src cs \<longleftrightarrow> cstr m src cs"
    using dis by (intro cstr_cong memcpy_loop_outside) auto
  ultimately show ?thesis
    using s strlen_cstr [OF c d(1)] strlen_cstr [OF s d(2)] memcpy_loop_outside [of _ dst "Suc (length cs)" m src] by blast
qed

lemma strcpy_copies_witness:
  "\<exists>m'. strcpy demo_mem 0x3000 0x1000 = Inr (0x3000, m') \<and> cstr m' 0x3000 [0x61, 0x62, 0x61]"
proof -
  have l: "Suc (length [0x61, 0x62, 0x61 :: u8]) = 4" by simp
  have "region 0x3000 (Suc (length [0x61, 0x62, 0x61 :: u8])) \<inter> region 0x1000 (Suc (length [0x61, 0x62, 0x61 :: u8])) = {}"
    unfolding l using region_far [of "0x1000" 4 "0x3000" 4] by (simp add: Int_commute)
  from strcpy_copies [OF demo_strings(1) _ _ _ this] show ?thesis by auto
qed

text \<open>strcat appends the characters of src behind dsc and nothing else: the byte after them keeps what
  it held, so the result is a C string only where that byte was 0 already.\<close>
theorem strcat_no_terminator:
  assumes ds: "cstr m dsc ds" and cs: "cstr m src cs" and nn: "dsc \<noteq> NULL" "src \<noteq> NULL"
    and n: "length ds + length cs < 4294967295" and ne: "cs \<noteq> []"
    and dis: "region dsc (length ds + Suc (length cs)) \<inter> region src (Suc (length cs)) = {}"
  defines "e \<equiv> dsc + of_nat (length ds + length cs)"
  shows "\<exists>m'. strcat m dsc src = Inr (dsc, m') \<and> m' e = m e
     \<and> (\<forall>i < length ds + length cs. m' (dsc + of_nat i) = (ds @ cs) ! i)
     \<and> (cstr m' dsc (ds @ cs) \<longleftrightarrow> m e = 0)"
proof -
  let ?p = "dsc + of_nat (length ds)"
  let ?m = "memcpy_loop m ?p src (length cs)"
  have dis2: "region ?p (length cs) \<inter> region src (Suc (length cs)) = {}"
    using dis region_append [of dsc "length ds" "Suc (length cs)"] region_append [of ?p "length cs" 1] by auto
  have r: "strcat m dsc src = Inr (dsc, ?m)"
    using strcat_end_loop_cstr [OF ds] strcat_copy_loop_cstr [OF cs dis2] nn by (simp add: strcat_def)
  have e: "e = ?p + of_nat (length cs)" by (simp add: e_def add.assoc)
  have me: "?m e = m e"
    unfolding e using n by (intro memcpy_loop_outside region_outside_next) simp
  have old: "?m (dsc + of_nat i) = ds ! i" if i: "i < length ds" for i
  proof -
    have "dsc + of_nat i \<in> region dsc (length ds)" using i by (rule region_memI)
    then have "dsc + of_nat i \<notin> region ?p (length cs)"
      using region_disjoint_next [of "length ds" "length cs" dsc] n by auto
    then show ?thesis using ds i by (simp add: memcpy_loop_outside cstr_nth)
  qed
  have new: "?m (?p + of_nat i) = cs ! i" if i: "i < length cs" for i
    using disjoint_copy [OF dis2, of i m] i n cs by (simp add: cstr_nth)
  have all: "?m (dsc + of_nat i) = (ds @ cs) ! i" if i: "i < length ds + length cs" for i
  proof (cases "i < length ds")
    case True
    then show ?thesis using old by (simp add: nth_append)
  next
    case False
    then obtain j where j: "i = length ds + j" "j < length cs" using i by (metis add_less_cancel_left le_Suc_ex not_le)
    have p: "dsc + of_nat i = ?p + of_nat j" by (simp add: j(1) add.assoc)
    show ?thesis unfolding p new [OF j(2)] using j by (simp add: nth_append)
  qed
  have nz: "\<forall>i < length ds + length cs. (ds @ cs) ! i \<noteq> 0"
    using cstr_nonzero [OF ds] cstr_nonzero [OF cs] by (metis Un_iff length_append nth_mem set_append)
  have "cstr ?m dsc (ds @ cs) \<longleftrightarrow> m e = 0"
    unfolding cstr_nth length_append e_def [symmetric] me using all nz by auto
  then show ?thesis using r me all by blast
qed

lemma strcat_no_terminator_witness:
  "\<exists>m'. strcat demo_mem 0x2000 0x1000 = Inr (0x2000, m') \<and> m' 0x2004 = demo_mem 0x2004"
proof -
  have l: "length [0x63 :: u8] + Suc (length [0x61, 0x62, 0x61 :: u8]) = 5"
    "Suc (length [0x61, 0x62, 0x61 :: u8]) = 4" by simp_all
  have "region 0x2000 (length [0x63 :: u8] + Suc (length [0x61, 0x62, 0x61 :: u8])) \<inter> region 0x1000 (Suc (length [0x61, 0x62, 0x61 :: u8])) = {}"
    unfolding l using region_far [of "0x1000" 4 "0x2000" 5] by (simp add: Int_commute)
  from strcat_no_terminator [OF demo_strings(2,1) _ _ _ _ this] show ?thesis by auto
qed

text \<open>strcmp answers 0 exactly for equal strings, and strrchr finds the last occurrence of a character
  below 128; for one from 128 on it finds nothing, even when the string has it, because it compares a
  signed char with an unsigned byte.\<close>
theorem strcmp_strrchr:
  assumes "cstr m a as" "cstr m b bs" "a \<noteq> NULL" "b \<noteq> NULL"
  shows "(\<exists>r. strcmp m a b = Inr r \<and> (r = 0 \<longleftrightarrow> as = bs))
     \<and> (\<forall>ch us vs. as = us @ ch # vs \<longrightarrow> ch \<notin> set vs \<longrightarrow>
          strrchr m a ch = Inr (if ch < 128 then a + of_nat (length us) else NULL))"
proof (intro conjI allI impI)
  show "\<exists>r. strcmp m a b = Inr r \<and> (r = 0 \<longleftrightarrow> as = bs)"
    using strcmp_loop_cstr [OF assms(1,2)] cmp_chars_0 [OF cstr_nonzero [OF assms(1)] cstr_nonzero [OF assms(2)]] assms(3,4)
    by (simp add: strcmp_def)
next
  fix ch us vs assume e: "as = us @ ch # vs" "ch \<notin> set vs"
  have lt: "uint ch < 128 \<longleftrightarrow> ch < 128" by (simp add: word_less_def)
  show "strrchr m a ch = Inr (if ch < 128 then a + of_nat (length us) else NULL)"
  proof (cases "ch < 128")
    case True
    have "last_at (\<lambda>c. sint c = uint ch) a as NULL = a + of_nat (length us)"
      unfolding e(1) using e(2) True lt by (intro last_at_split) (auto simp: char_eq_uint8)
    then show ?thesis using strrchr_loop_cstr [OF assms(1), of ch NULL] assms(3) True by (simp add: strrchr_def)
  next
    case False
    then have "last_at (\<lambda>c. sint c = uint ch) a as NULL = NULL"
      using lt by (intro last_at_none) (auto simp: char_eq_uint8)
    then show ?thesis using strrchr_loop_cstr [OF assms(1), of ch NULL] assms(3) False by (simp add: strrchr_def)
  qed
qed

lemma strcmp_strrchr_witness:
  "(\<exists>r. strcmp demo_mem 0x1000 0x2000 = Inr r \<and> r \<noteq> 0) \<and> strrchr demo_mem 0x1000 0x61 = Inr 0x1002"
proof -
  have p: "(0x1000 :: addr) \<noteq> NULL" "(0x2000 :: addr) \<noteq> NULL" by simp_all
  note c = strcmp_strrchr [OF demo_strings p]
  have "[0x61, 0x62, 0x61 :: u8] = [0x61, 0x62] @ 0x61 # []" by simp
  moreover have "(0x61 :: u8) \<notin> set []" by simp
  ultimately have "strrchr demo_mem 0x1000 0x61 = Inr (if (0x61 :: u8) < 128 then 0x1000 + of_nat (length [0x61, 0x62 :: u8]) else NULL)"
    using conjunct2 [OF c] by blast
  moreover have "\<exists>r. strcmp demo_mem 0x1000 0x2000 = Inr r \<and> r \<noteq> 0" using conjunct1 [OF c] by auto
  ultimately show ?thesis by simp
qed

end
