(* ===== verification/Page_Table.thy ===== *)
theory Page_Table
  imports HB_Prelude
begin

text \<open>
  The page table arithmetic of kernel/memory.c. The last page directory entry maps the directory
  itself, so the entries of the active tables are words in the window from 0xffc00000 upwards:
  \<open>pte_ptr\<close> and \<open>pde_ptr\<close> compute their addresses. The state is the content of that window,
  a map from the address of an entry to the entry; the physical pages behind it are not modelled.
\<close>

type_synonym ptab = "addr \<Rightarrow> u32"

definition PG_P_1 :: u32 where "PG_P_1 = 1"
definition PG_RW_W :: u32 where "PG_RW_W = 2"
definition PG_US_U :: u32 where "PG_US_U = 4"

definition PDE_INDEX :: "addr \<Rightarrow> u32" where
  "PDE_INDEX addr = drop_bit 22 (addr AND 0xffc00000)"

definition PTE_INDEX :: "addr \<Rightarrow> u32" where
  "PTE_INDEX addr = drop_bit 12 (addr AND 0x003ff000)"

definition pte_ptr :: "addr \<Rightarrow> addr" where
  "pte_ptr vaddr = 0xffc00000 + drop_bit 10 (vaddr AND 0xffc00000) + PTE_INDEX vaddr * 4"

definition pde_ptr :: "addr \<Rightarrow> addr" where
  "pde_ptr vaddr = 0xfffff000 + PDE_INDEX vaddr * 4"

definition addr_v2p :: "ptab \<Rightarrow> addr \<Rightarrow> addr" where
  "addr_v2p pt vaddr = (pt (pte_ptr vaddr) AND 0xfffff000) + (vaddr AND 0x00000fff)"

definition page_table_pte_remove :: "ptab \<Rightarrow> addr \<Rightarrow> ptab" where
  "page_table_pte_remove pt vaddr = pt(pte_ptr vaddr := pt (pte_ptr vaddr) AND NOT PG_P_1)"

text \<open>The entry for a page: its frame and the three attribute bits.\<close>

definition pg_entry :: "addr \<Rightarrow> u32" where
  "pg_entry page_phyaddr = page_phyaddr OR PG_US_U OR PG_RW_W OR PG_P_1"

definition present :: "u32 \<Rightarrow> bool" where
  "present e \<longleftrightarrow> e AND 0x00000001 \<noteq> 0"

section \<open>Arithmetic of the window\<close>

definition page_aligned :: "addr \<Rightarrow> bool" where
  "page_aligned a \<longleftrightarrow> a AND 0x00000fff = 0"

definition page_of :: "addr \<Rightarrow> nat" where
  "page_of a = unat a div 4096"

lemma page_mask: "(0xfff :: u32) = mask 12" "(0xfffff000 :: u32) = NOT (mask 12)"
  "(0xffc00000 :: u32) = NOT (mask 22)" "(0x003ff000 :: u32) = push_bit 12 (mask 10)"
  by (simp_all add: mask_eq_exp_minus_1 not_eq_complement)

lemma page_mask_bit: "bit ((a :: u32) AND 0xfffff000) n \<longleftrightarrow> bit a n \<and> 12 \<le> n"
  "bit (a AND 0xfff) n \<longleftrightarrow> bit a n \<and> n < 12"
  "bit (a AND 0xffc00000) n \<longleftrightarrow> bit a n \<and> 22 \<le> n"
  "bit (a AND 0x003ff000) n \<longleftrightarrow> bit a n \<and> 12 \<le> n \<and> n < 22"
  unfolding page_mask by (auto simp: bit_simps dest: bit_imp_le_length)

lemma page_split: "(a AND 0xfffff000) + (a AND 0xfff) = (a :: u32)"
proof -
  have "(a AND 0xfffff000) + (a AND 0xfff) = (a AND 0xfffff000) OR (a AND 0xfff)"
    by (rule disjunctive_add) (auto simp: page_mask_bit)
  also have "\<dots> = a" by (rule bit_word_eqI) (auto simp: bit_or_iff page_mask_bit)
  finally show ?thesis .
qed

lemma aligned_mask: "page_aligned a \<longleftrightarrow> a AND 0xfffff000 = a"
proof
  show "page_aligned a \<Longrightarrow> a AND 0xfffff000 = a" using page_split [of a] by (simp add: page_aligned_def)
  assume "a AND 0xfffff000 = a"
  then show "page_aligned a" using page_split [of a] unfolding page_aligned_def
    by (metis add_cancel_right_right)
qed

lemma unat_page_base: "unat ((a :: u32) AND 0xfffff000) = 4096 * page_of a"
proof -
  have "a AND 0xfffff000 = drop_bit 12 a * 4096"
  proof -
    have "a AND 0xfffff000 = push_bit 12 (drop_bit 12 a)"
      by (rule bit_word_eqI) (auto simp: page_mask_bit bit_push_bit_iff bit_drop_bit_eq dest: bit_imp_le_length)
    then show ?thesis by (simp add: push_bit_eq_mult)
  qed
  moreover have "unat (drop_bit 12 a) = page_of a"
    by (simp add: page_of_def drop_bit_eq_div unat_div)
  moreover have "page_of a * 4096 \<le> unat a" by (simp add: page_of_def)
  ultimately show ?thesis using unat_u32_less [of a] by (simp add: unat_mult_u32)
qed

lemma unat_page_off: "unat ((a :: u32) AND 0xfff) = unat a mod 4096"
  unfolding page_mask by (simp add: unsigned_take_bit_eq flip: take_bit_eq_mask) (simp add: take_bit_eq_mod)

lemma page_base_eq_iff: "(a :: u32) AND 0xfffff000 = b AND 0xfffff000 \<longleftrightarrow> page_of a = page_of b"
  using unat_page_base [of a] unat_page_base [of b] by (auto simp: u32_eq_iff)

lemma aligned_unat: "page_aligned a \<longleftrightarrow> unat a mod 4096 = 0"
  using unat_page_off [of a] by (simp add: page_aligned_def u32_eq_iff)

text \<open>The entry of page k is the k-th word of the window.\<close>

lemma pte_ptr_eq: "unat (pte_ptr v) = 4290772992 + 4 * page_of v"
proof -
  have pte: "PTE_INDEX v = take_bit 10 (drop_bit 12 v)"
    unfolding PTE_INDEX_def
    by (rule bit_word_eqI) (simp only: page_mask_bit bit_drop_bit_eq bit_take_bit_iff o_def, auto)
  have "drop_bit 10 (v AND 0xffc00000) + PTE_INDEX v * 4
      = drop_bit 10 (v AND 0xffc00000) + push_bit 2 (take_bit 10 (drop_bit 12 v))"
    by (simp add: pte push_bit_eq_mult mult.commute)
  also have "\<dots> = drop_bit 10 (v AND 0xffc00000) OR push_bit 2 (take_bit 10 (drop_bit 12 v))"
    by (rule disjunctive_add) (auto simp: page_mask_bit bit_push_bit_iff bit_drop_bit_eq bit_take_bit_iff)
  also have "\<dots> = push_bit 2 (drop_bit 12 v)"
    by (rule bit_word_eqI)
      (auto simp: page_mask_bit bit_push_bit_iff bit_drop_bit_eq bit_take_bit_iff bit_or_iff
        dest: bit_imp_le_length)
  finally have "pte_ptr v = 0xffc00000 + drop_bit 12 v * 4"
    by (simp add: pte_ptr_def push_bit_eq_mult mult.commute add.assoc)
  moreover have d: "unat (drop_bit 12 v) = page_of v"
    by (simp add: page_of_def drop_bit_eq_div unat_div)
  moreover have "page_of v < 1048576" using unat_u32_less [of v] by (simp add: page_of_def)
  moreover have "unat (drop_bit 12 v * 4) = page_of v * 4"
    using d \<open>page_of v < _\<close> by (simp add: unat_mult_u32)
  ultimately show ?thesis by (simp add: unat_add_u32)
qed

lemma pte_ptr_inj: "pte_ptr v = pte_ptr w \<longleftrightarrow> page_of v = page_of w"
  using pte_ptr_eq [of v] pte_ptr_eq [of w] by (auto simp: u32_eq_iff)

lemma pde_ptr_eq: "unat (pde_ptr v) = 4294963200 + 4 * (unat v div 4194304)"
proof -
  have "PDE_INDEX v = drop_bit 22 v"
    unfolding PDE_INDEX_def
    by (rule bit_word_eqI) (simp only: page_mask_bit bit_drop_bit_eq o_def, auto)
  then have d: "unat (PDE_INDEX v) = unat v div 4194304"
    by (simp add: drop_bit_eq_div unat_div)
  then have "unat (PDE_INDEX v * 4) = unat v div 4194304 * 4"
    using unat_u32_less [of v] by (simp add: unat_mult_u32)
  then show ?thesis using unat_u32_less [of v] d by (simp add: pde_ptr_def unat_add_u32)
qed

text \<open>The directory entry of a page is the table entry of its table entry: the recursive mapping.\<close>

lemma pde_ptr_recursive: "pde_ptr v = pte_ptr (pte_ptr v)"
proof -
  have "page_of (pte_ptr v) = 1047552 + unat v div 4194304"
  proof -
    have "page_of (pte_ptr v) = (4290772992 + 4 * (unat v div 4096)) div 4096"
      by (simp add: page_of_def [of "pte_ptr v"] pte_ptr_eq page_of_def [of v])
    also have "\<dots> = 1047552 + unat v div 4096 div 1024" by simp
    also have "unat v div 4096 div 1024 = unat v div 4194304" by (simp add: div_mult2_eq [symmetric])
    finally show ?thesis .
  qed
  then show ?thesis by (simp add: u32_eq_iff pde_ptr_eq pte_ptr_eq)
qed

section \<open>Entries\<close>

lemma present_bit: "present e \<longleftrightarrow> bit e 0"
  using and_exp_eq_0_iff_not_bit [of e 0] by (simp add: present_def)

lemma pg_entry_present: "present (pg_entry a)"
  by (simp add: present_bit pg_entry_def bit_or_iff PG_P_1_def bit_simps)

lemma pg_entry_frame: "page_aligned a \<Longrightarrow> pg_entry a AND 0xfffff000 = a"
proof -
  assume "page_aligned a"
  then have "\<And>n. n < 12 \<Longrightarrow> \<not> bit a n" by (metis aligned_mask page_mask_bit(1) not_less)
  moreover have "(7 :: u32) = mask 3" by (simp add: mask_eq_exp_minus_1)
  then have "pg_entry a = a OR mask 3"
    by (simp add: pg_entry_def PG_US_U_def PG_RW_W_def PG_P_1_def or.assoc)
  ultimately show ?thesis
    by (intro bit_word_eqI) (auto simp: page_mask_bit bit_or_iff bit_mask_iff not_less [symmetric])
qed

lemma addr_v2p_mapped:
  "page_aligned frame \<Longrightarrow> pt (pte_ptr v) = pg_entry frame \<Longrightarrow> addr_v2p pt v = frame + (v AND 0xfff)"
  by (simp add: addr_v2p_def pg_entry_frame)

lemma addr_v2p_upd_other: "page_of v \<noteq> page_of w \<Longrightarrow> addr_v2p (pt(pte_ptr w := e)) v = addr_v2p pt v"
  by (simp add: addr_v2p_def pte_ptr_inj)

lemma page_table_pte_remove_present: "\<not> present (page_table_pte_remove pt v (pte_ptr v))"
  by (simp add: present_bit page_table_pte_remove_def bit_and_iff bit_not_iff PG_P_1_def bit_simps)

lemma page_table_pte_remove_other:
  "page_of v \<noteq> page_of w \<Longrightarrow> page_table_pte_remove pt w (pte_ptr v) = pt (pte_ptr v)"
  by (simp add: page_table_pte_remove_def pte_ptr_inj)

text \<open>Only the present bit is cleared: the frame can still be read back.\<close>

lemma page_table_pte_remove_frame: "addr_v2p (page_table_pte_remove pt v) v = addr_v2p pt v"
proof -
  have "(pt (pte_ptr v) AND NOT PG_P_1) AND 0xfffff000 = pt (pte_ptr v) AND 0xfffff000"
    by (rule bit_word_eqI)
      (simp only: page_mask_bit(1), auto simp: bit_and_iff bit_not_iff PG_P_1_def bit_1_iff)
  then show ?thesis by (simp add: addr_v2p_def page_table_pte_remove_def)
qed

section \<open>Properties\<close>

text \<open>The recursive page table: the entry written for page v translates exactly the addresses of that
  page, to the frame plus the offset; clearing its present bit keeps the frame readable, marks the page
  absent and leaves every other translation; the directory entry of a page is the table entry of its
  table entry.\<close>
theorem page_table_translation:
  assumes "page_aligned f"
  shows "(\<forall>w. addr_v2p (pt(pte_ptr v := pg_entry f)) w
        = (if page_of w = page_of v then f + (w AND 0xfff) else addr_v2p pt w))
     \<and> addr_v2p (page_table_pte_remove (pt(pte_ptr v := pg_entry f)) v) v = f + (v AND 0xfff)
     \<and> \<not> present (page_table_pte_remove (pt(pte_ptr v := pg_entry f)) v (pte_ptr v))
     \<and> (\<forall>w. page_of w \<noteq> page_of v \<longrightarrow>
          page_table_pte_remove (pt(pte_ptr v := pg_entry f)) v (pte_ptr w) = pt (pte_ptr w))
     \<and> pde_ptr v = pte_ptr (pte_ptr v)"
proof -
  let ?pt = "pt(pte_ptr v := pg_entry f)"
  have a: "addr_v2p ?pt w = f + (w AND 0xfff)" if "page_of w = page_of v" for w
    using that pte_ptr_inj [of w v] by (intro addr_v2p_mapped [OF assms]) simp
  have "addr_v2p (page_table_pte_remove ?pt v) v = f + (v AND 0xfff)"
    unfolding page_table_pte_remove_frame by (rule a) simp
  then show ?thesis
    using a page_table_pte_remove_present page_table_pte_remove_other [of _ v ?pt] pde_ptr_recursive
    by (auto simp: addr_v2p_upd_other pte_ptr_inj)
qed

lemma page_table_translation_witness:
  "addr_v2p ((\<lambda>_. 0)(pte_ptr 0xc0100000 := pg_entry 0x200000)) 0xc0100abc = 0x200abc"
proof -
  have al: "page_aligned 0x200000" by (simp add: page_aligned_def)
  have "page_of 0xc0100abc = page_of 0xc0100000" by (simp add: page_of_def)
  then show ?thesis using page_table_translation [OF al, of "\<lambda>_. 0" "0xc0100000"] by simp
qed

end
