(* ===== verification/Threads.thy ===== *)
theory Threads
  imports Page_Table Interfaces
begin

text \<open>
  thread/thread.c, the scheduling half, with process_activate of userprog/process.c, which
  schedule calls. A task is named by the address of its PCB; the lists hold the addresses of the
  tags embedded in the PCBs, and a PCB is found back from its general_tag by masking the low bits.
  The processor is the running PCB, the interrupt flag, cr3 and the ring-0 stack of the TSS;
  switch_to makes another PCB the running one, so what follows a call of schedule in the code is
  executed when the caller runs again. The two queues are sequences of tags, which
  is what lib/kernel/list.c implements (theory Klist).
\<close>

section \<open>Interrupt flag (kernel/interrupt.c)\<close>

datatype intr_status = INTR_OFF | INTR_ON

text \<open>Each returns the old status, and the new one.\<close>

definition intr_enable :: "intr_status \<Rightarrow> intr_status \<times> intr_status" where
  "intr_enable s = (if s = INTR_ON then (INTR_ON, s) else (INTR_OFF, INTR_ON))"

definition intr_disable :: "intr_status \<Rightarrow> intr_status \<times> intr_status" where
  "intr_disable s = (if s = INTR_OFF then (INTR_OFF, s) else (INTR_ON, INTR_OFF))"

definition intr_set_status :: "intr_status \<Rightarrow> intr_status \<Rightarrow> intr_status \<times> intr_status" where
  "intr_set_status s stat = (if stat = INTR_ON then intr_enable s else intr_disable s)"

lemma intr_simps [simp]:
  "snd (intr_enable s) = INTR_ON" "snd (intr_disable s) = INTR_OFF"
  "fst (intr_enable s) = s" "fst (intr_disable s) = s"
  "snd (intr_set_status s t) = t" "fst (intr_set_status s t) = s"
  by (cases s; cases t; simp add: intr_enable_def intr_disable_def intr_set_status_def)+

section \<open>Tasks and the state of the scheduler\<close>

datatype thread_status =
  TASK_RUNNING | TASK_READY | TASK_BLOCKED | TASK_WAITING | TASK_HANGING | TASK_DIED

record task_struct =
  self_kstack :: addr
  pid :: u16
  status :: thread_status
  priority :: u8
  ticks :: u8
  elapsed_ticks :: u32
  pname :: "u8 list"
  fd_table :: "u32 list"
  pgdir :: addr
  stack_magic :: u32

record kthreads =
  tasks :: "addr \<Rightarrow> task_struct"
  thread_ready_list :: "addr list"
  thread_all_list :: "addr list"
  running_thread :: addr
  idle_thread :: addr
  main_thread :: addr
  intr :: intr_status
  next_pid :: u16
  total_ticks :: u32
  cr3 :: addr
  tss_esp0 :: addr
  ptab :: ptab

definition general_tag :: "addr \<Rightarrow> addr" where "general_tag pthread = pthread + 68"
definition all_list_tag :: "addr \<Rightarrow> addr" where "all_list_tag pthread = pthread + 76"
definition pcb_of_tag :: "addr \<Rightarrow> addr" where "pcb_of_tag tag = tag AND 0xfffff000"

definition upd_task :: "(task_struct \<Rightarrow> task_struct) \<Rightarrow> addr \<Rightarrow> 'a kthreads_scheme \<Rightarrow> 'a kthreads_scheme" where
  "upd_task f t s = s\<lparr>tasks := (tasks s)(t := f (tasks s t))\<rparr>"

definition set_intr :: "intr_status \<Rightarrow> 'a kthreads_scheme \<Rightarrow> 'a kthreads_scheme" where
  "set_intr v s = s\<lparr>intr := snd (intr_set_status (intr s) v)\<rparr>"

section \<open>process_activate and schedule\<close>

definition page_dir_activate :: "addr \<Rightarrow> 'a kthreads_scheme \<Rightarrow> 'a kthreads_scheme" where
  "page_dir_activate pthread s =
     (let page_dir_phy_addr =
        (if pgdir (tasks s pthread) \<noteq> NULL then addr_v2p (ptab s) (pgdir (tasks s pthread))
         else 0x00100000)
      in s\<lparr>cr3 := page_dir_phy_addr\<rparr>)"

definition update_tss_esp :: "addr \<Rightarrow> 'a kthreads_scheme \<Rightarrow> 'a kthreads_scheme" where
  "update_tss_esp pthread s = s\<lparr>tss_esp0 := pthread + PG_SIZE\<rparr>"

definition process_activate :: "addr \<Rightarrow> 'a kthreads_scheme \<Rightarrow> 'a kthreads_scheme res" where
  "process_activate pthread s =
     (if pthread = NULL then Inl (Assertion ''pthread != NULL'')
      else let s = page_dir_activate pthread s
           in Inr (if pgdir (tasks s pthread) \<noteq> NULL then update_tss_esp pthread s else s))"

definition thread_unblock :: "addr \<Rightarrow> 'a kthreads_scheme \<Rightarrow> 'a kthreads_scheme res" where
  "thread_unblock pthread s =
     (let old_status = intr s;
          s = s\<lparr>intr := snd (intr_disable (intr s))\<rparr>;
          st = status (tasks s pthread)
      in if \<not> (st = TASK_BLOCKED \<or> st = TASK_WAITING \<or> st = TASK_HANGING)
         then Inl (Assertion ''pthread->status is blocked, waiting or hanging'')
         else if st \<noteq> TASK_READY then
           (if general_tag pthread \<in> set (thread_ready_list s)
            then Inl (Assertion ''!elem_find(&thread_ready_list, &pthread->general_tag)'')
            else let s = s\<lparr>thread_ready_list := general_tag pthread # thread_ready_list s\<rparr>;
                     s = upd_task (status_update (\<lambda>_. TASK_READY)) pthread s
                 in Inr (set_intr old_status s))
         else Inr (set_intr old_status s))"

text \<open>The first statement of schedule, and the last ones: pop, mark, activate, switch.\<close>

definition requeue_running :: "addr \<Rightarrow> 'a kthreads_scheme \<Rightarrow> 'a kthreads_scheme res" where
  "requeue_running cur s =
     (if status (tasks s cur) = TASK_RUNNING
      then (if general_tag cur \<in> set (thread_ready_list s)
            then Inl (Assertion ''!elem_find(&thread_ready_list, &cur->general_tag)'')
            else let s = s\<lparr>thread_ready_list := thread_ready_list s @ [general_tag cur]\<rparr>
                 in Inr (upd_task (\<lambda>t. t\<lparr>status := TASK_READY, ticks := priority t\<rparr>) cur s))
      else Inr s)"

definition switch_to_first :: "'a kthreads_scheme \<Rightarrow> 'a kthreads_scheme res" where
  "switch_to_first s =
     (case thread_ready_list s of
        [] \<Rightarrow> Inl (Assertion ''plist->head.next != &plist->tail'')
      | thread_tag # rest \<Rightarrow>
          let s = s\<lparr>thread_ready_list := rest\<rparr>;
              nxt = pcb_of_tag thread_tag;
              s = upd_task (status_update (\<lambda>_. TASK_RUNNING)) nxt s
          in bindR (process_activate nxt s) (\<lambda>s. Inr (s\<lparr>running_thread := nxt\<rparr>)))"

definition schedule :: "'a kthreads_scheme \<Rightarrow> 'a kthreads_scheme res" where
  "schedule s =
     (if intr s \<noteq> INTR_OFF then Inl (Assertion ''intr_get_status() == INTR_OFF'')
      else bindR (requeue_running (running_thread s) s) (\<lambda>s.
           bindR (if thread_ready_list s = [] then thread_unblock (idle_thread s) s else Inr s)
             switch_to_first))"

text \<open>
  thread_block up to the switch; the last statement restores the saved status when the thread
  runs again, and is \<open>set_intr old\<close>.
\<close>

definition thread_block :: "thread_status \<Rightarrow> 'a kthreads_scheme \<Rightarrow> 'a kthreads_scheme res" where
  "thread_block stat s =
     (if \<not> (stat = TASK_BLOCKED \<or> stat = TASK_WAITING \<or> stat = TASK_HANGING)
      then Inl (Assertion ''stat is TASK_BLOCKED, TASK_WAITING or TASK_HANGING'')
      else let s = s\<lparr>intr := snd (intr_disable (intr s))\<rparr>;
               s = upd_task (status_update (\<lambda>_. stat)) (running_thread s) s
           in schedule s)"

definition thread_yield :: "'a kthreads_scheme \<Rightarrow> 'a kthreads_scheme res" where
  "thread_yield s =
     (let cur = running_thread s;
          s = s\<lparr>intr := snd (intr_disable (intr s))\<rparr>
      in if general_tag cur \<in> set (thread_ready_list s)
         then Inl (Assertion ''!elem_find(&thread_ready_list, &cur->general_tag)'')
         else schedule (upd_task (status_update (\<lambda>_. TASK_READY)) cur s))"

text \<open>The timer interrupt (device/timer.c); the processor has disabled interrupts on entry.\<close>

definition intr_timer_handler :: "'a kthreads_scheme \<Rightarrow> 'a kthreads_scheme res" where
  "intr_timer_handler s =
     (let cur = running_thread s
      in if stack_magic (tasks s cur) \<noteq> 0x20250325
         then Inl (Assertion ''cur_thread->stack_magic == 0x20250325'')
         else let s = upd_task (\<lambda>t. t\<lparr>elapsed_ticks := elapsed_ticks t + 1\<rparr>) cur s;
                  s = s\<lparr>total_ticks := total_ticks s + 1\<rparr>
              in if ticks (tasks s cur) = 0 then schedule s
                 else Inr (upd_task (\<lambda>t. t\<lparr>ticks := ticks t - 1\<rparr>) cur s))"

section \<open>Tags\<close>

text \<open>The PCB starts a page, so masking its tag finds it again.\<close>

lemma tag_page: "page_aligned t \<Longrightarrow> unat k < 4096 \<Longrightarrow> page_of (t + k) = page_of t"
proof -
  assume a: "page_aligned t" and k: "unat k < 4096"
  have t: "4096 * page_of t = unat t" 
    using a mult_div_mod_eq [of 4096 "unat t"] by (simp add: page_of_def aligned_unat)
  then have "page_of t < 1048576" using unat_u32_less [of t] by simp
  then have "unat t + unat k < 4294967296" using t k by simp
  then have "unat (t + k) = 4096 * page_of t + unat k" using t by (simp add: unat_add_u32)
  then show ?thesis using k by (simp add: page_of_def [of "t + k"])
qed

lemma pcb_of_general_tag [simp]: "page_aligned t \<Longrightarrow> pcb_of_tag (general_tag t) = t"
  using tag_page [of t 68] page_base_eq_iff [of "t + 68" t]
  by (simp add: pcb_of_tag_def general_tag_def aligned_mask)

lemma general_tag_inj [simp]: "general_tag a = general_tag b \<longleftrightarrow> a = b"
  by (simp add: general_tag_def)

lemma upd_task_simps [simp]:
  "tasks (upd_task f t s) = (tasks s)(t := f (tasks s t))"
  "thread_ready_list (upd_task f t s) = thread_ready_list s"
  "thread_all_list (upd_task f t s) = thread_all_list s"
  "running_thread (upd_task f t s) = running_thread s"
  "idle_thread (upd_task f t s) = idle_thread s"
  "main_thread (upd_task f t s) = main_thread s"
  "intr (upd_task f t s) = intr s"
  "ptab (upd_task f t s) = ptab s"
  by (simp_all add: upd_task_def)

lemma set_intr_simps [simp]:
  "tasks (set_intr v s) = tasks s"
  "thread_ready_list (set_intr v s) = thread_ready_list s"
  "thread_all_list (set_intr v s) = thread_all_list s"
  "running_thread (set_intr v s) = running_thread s"
  "idle_thread (set_intr v s) = idle_thread s"
  "main_thread (set_intr v s) = main_thread s"
  "intr (set_intr v s) = v"
  "ptab (set_intr v s) = ptab s"
  by (simp_all add: set_intr_def)


section \<open>The invariant of the scheduler\<close>

definition live :: "'a kthreads_scheme \<Rightarrow> addr \<Rightarrow> bool" where
  "live s t \<longleftrightarrow> all_list_tag t \<in> set (thread_all_list s)"

definition waits :: "thread_status \<Rightarrow> bool" where
  "waits st \<longleftrightarrow> st = TASK_BLOCKED \<or> st = TASK_WAITING \<or> st = TASK_HANGING"

text \<open>
  What holds at the entry of schedule: the ready list holds, once each, the tags of the ready tasks,
  and no task but the running one has the status TASK_RUNNING; the running one may have just left it.
\<close>

definition sched_mid :: "'a kthreads_scheme \<Rightarrow> bool" where
  "sched_mid s \<longleftrightarrow>
     (\<forall>t. live s t \<longrightarrow> page_aligned t \<and> t \<noteq> NULL \<and> stack_magic (tasks s t) = 0x20250325)
   \<and> live s (running_thread s) \<and> live s (idle_thread s)
   \<and> distinct (thread_ready_list s)
   \<and> (\<forall>tag \<in> set (thread_ready_list s). \<exists>t. live s t \<and> tag = general_tag t)
   \<and> (\<forall>t. live s t \<longrightarrow> (general_tag t \<in> set (thread_ready_list s) \<longleftrightarrow> status (tasks s t) = TASK_READY))
   \<and> (\<forall>t. live s t \<longrightarrow> status (tasks s t) = TASK_RUNNING \<longrightarrow> t = running_thread s)
   \<and> status (tasks s (idle_thread s)) \<noteq> TASK_DIED"

definition sched_inv :: "'a kthreads_scheme \<Rightarrow> bool" where
  "sched_inv s \<longleftrightarrow> sched_mid s \<and> status (tasks s (running_thread s)) = TASK_RUNNING"

text \<open>The queue schedule pops from, before idle is considered.\<close>

definition candidates :: "'a kthreads_scheme \<Rightarrow> addr list" where
  "candidates s = thread_ready_list s
     @ (if status (tasks s (running_thread s)) = TASK_RUNNING then [general_tag (running_thread s)] else [])"

definition chosen :: "'a kthreads_scheme \<Rightarrow> addr" where
  "chosen s = (case candidates s of [] \<Rightarrow> idle_thread s | tag # _ \<Rightarrow> pcb_of_tag tag)"

definition after_schedule :: "'a kthreads_scheme \<Rightarrow> 'a kthreads_scheme \<Rightarrow> bool" where
  "after_schedule s s' \<longleftrightarrow>
     running_thread s' = chosen s \<and> thread_ready_list s' = tl (candidates s)
   \<and> thread_all_list s' = thread_all_list s \<and> idle_thread s' = idle_thread s
   \<and> main_thread s' = main_thread s \<and> intr s' = INTR_OFF \<and> ptab s' = ptab s
   \<and> (\<forall>t. stack_magic (tasks s' t) = stack_magic (tasks s t) \<and> pgdir (tasks s' t) = pgdir (tasks s t)
        \<and> status (tasks s' t) =
            (if t = chosen s then TASK_RUNNING
             else if t = running_thread s \<and> status (tasks s t) = TASK_RUNNING then TASK_READY
             else status (tasks s t)))
   \<and> cr3 s' = (if pgdir (tasks s (chosen s)) = NULL then 0x00100000
               else addr_v2p (ptab s) (pgdir (tasks s (chosen s))))"

lemma process_activate_eq:
  "t \<noteq> NULL \<Longrightarrow> process_activate t s = Inr (s\<lparr>
     cr3 := if pgdir (tasks s t) = NULL then 0x00100000 else addr_v2p (ptab s) (pgdir (tasks s t)),
     tss_esp0 := if pgdir (tasks s t) = NULL then tss_esp0 s else t + PG_SIZE\<rparr>)"
  by (simp add: process_activate_def page_dir_activate_def update_tss_esp_def Let_def)

lemma sched_midD:
  assumes "sched_mid s"
  shows "live s t \<Longrightarrow> page_aligned t" "live s t \<Longrightarrow> t \<noteq> NULL"
    "live s t \<Longrightarrow> stack_magic (tasks s t) = 0x20250325"
    "live s (running_thread s)" "live s (idle_thread s)" "distinct (thread_ready_list s)"
    "tag \<in> set (thread_ready_list s) \<Longrightarrow> \<exists>t. live s t \<and> tag = general_tag t"
    "live s t \<Longrightarrow> general_tag t \<in> set (thread_ready_list s) \<longleftrightarrow> status (tasks s t) = TASK_READY"
    "live s t \<Longrightarrow> status (tasks s t) = TASK_RUNNING \<Longrightarrow> t = running_thread s"
    "status (tasks s (idle_thread s)) \<noteq> TASK_DIED"
  using assms unfolding sched_mid_def by blast+

lemma sched_midI:
  assumes "\<And>t. live s t \<Longrightarrow> page_aligned t \<and> t \<noteq> NULL \<and> stack_magic (tasks s t) = 0x20250325"
    and "live s (running_thread s)" "live s (idle_thread s)" "distinct (thread_ready_list s)"
    and "\<And>tag. tag \<in> set (thread_ready_list s) \<Longrightarrow> \<exists>t. live s t \<and> tag = general_tag t"
    and "\<And>t. live s t \<Longrightarrow> general_tag t \<in> set (thread_ready_list s) \<longleftrightarrow> status (tasks s t) = TASK_READY"
    and "\<And>t. live s t \<Longrightarrow> status (tasks s t) = TASK_RUNNING \<Longrightarrow> t = running_thread s"
    and "status (tasks s (idle_thread s)) \<noteq> TASK_DIED"
  shows "sched_mid s"
  using assms unfolding sched_mid_def by blast

lemma schedule_switches:
  assumes mid: "sched_mid s" and off: "intr s = INTR_OFF"
  shows "\<exists>s'. schedule s = Inr s' \<and> after_schedule s s'"
proof (cases "candidates s")
  case Nil
  then have st: "status (tasks s (running_thread s)) \<noteq> TASK_RUNNING" and em: "thread_ready_list s = []"
    by (auto simp: candidates_def split: if_splits)
  let ?i = "idle_thread s"
  have i: "page_aligned ?i" "?i \<noteq> NULL" "live s ?i" "status (tasks s ?i) \<noteq> TASK_DIED"
    using sched_midD [OF mid] by blast+
  have "status (tasks s ?i) \<noteq> TASK_READY" "status (tasks s ?i) \<noteq> TASK_RUNNING"
    using sched_midD(8,9) [OF mid i(3)] em st by auto
  then have w: "waits (status (tasks s ?i))" using i(4)
    by (cases "status (tasks s ?i)") (auto simp: waits_def)
  have "chosen s = ?i" using Nil by (simp add: chosen_def)
  then show ?thesis using st em i(1,2) w off Nil
    by (auto simp: schedule_def requeue_running_def switch_to_first_def thread_unblock_def after_schedule_def process_activate_eq Let_def waits_def)
next
  case (Cons tag rest)
  let ?c = "running_thread s"
  have live: "live s ?c" by (rule sched_midD(4) [OF mid])
  have nt: "general_tag ?c \<notin> set (thread_ready_list s)" if "status (tasks s ?c) = TASK_RUNNING"
    using sched_midD(8) [OF mid live] that by simp
  have "tag \<in> set (candidates s)" using Cons by simp
  then have "tag \<in> set (thread_ready_list s) \<or> tag = general_tag ?c"
    by (auto simp: candidates_def split: if_splits)
  moreover have "\<forall>tag \<in> set (thread_ready_list s). \<exists>t. live s t \<and> tag = general_tag t"
    using sched_midD(7) [OF mid] by blast
  ultimately have "\<exists>t. live s t \<and> tag = general_tag t" using live by blast
  then obtain t where t: "live s t" "tag = general_tag t" by blast
  then have "page_aligned t" "t \<noteq> NULL" using sched_midD(1,2) [OF mid] by blast+
  then have ch: "chosen s = t" "pcb_of_tag tag = t" "t \<noteq> NULL" using Cons t(2) by (auto simp: chosen_def)
  show ?thesis
  proof (cases "status (tasks s ?c) = TASK_RUNNING")
    case True
    then have "thread_ready_list s @ [general_tag ?c] = tag # rest" using Cons by (simp add: candidates_def)
    then show ?thesis using True nt off ch Cons
      by (auto simp: schedule_def requeue_running_def switch_to_first_def after_schedule_def process_activate_eq Let_def)
  next
    case False
    then have "thread_ready_list s = tag # rest" using Cons by (simp add: candidates_def)
    then show ?thesis using False off ch Cons
      by (auto simp: schedule_def requeue_running_def switch_to_first_def after_schedule_def process_activate_eq Let_def)
  qed
qed


lemma candidates_mem:
  assumes mid: "sched_mid s" and t: "live s t"
  shows "general_tag t \<in> set (candidates s) \<longleftrightarrow>
    status (tasks s t) = TASK_READY \<or> (t = running_thread s \<and> status (tasks s t) = TASK_RUNNING)"
  using sched_midD(8) [OF mid t] by (auto simp: candidates_def)

lemma candidates_live:
  assumes mid: "sched_mid s" and tag: "tag \<in> set (candidates s)"
  shows "\<exists>t. live s t \<and> tag = general_tag t"
proof -
  have "tag \<in> set (thread_ready_list s) \<or> tag = general_tag (running_thread s)"
    using tag by (auto simp: candidates_def split: if_splits)
  then show ?thesis using sched_midD(4,7) [OF mid] by blast
qed

lemma candidates_distinct:
  assumes mid: "sched_mid s"
  shows "distinct (candidates s)"
  using sched_midD(6) [OF mid] sched_midD(8) [OF mid sched_midD(4) [OF mid]]
  by (auto simp: candidates_def)

lemma chosen_live:
  assumes mid: "sched_mid s"
  shows "live s (chosen s)"
    and "candidates s = tag # rest \<Longrightarrow> tag = general_tag (chosen s)"
proof -
  have *: "live s (chosen s) \<and> tag = general_tag (chosen s)" if c: "candidates s = tag # rest" for tag rest
  proof -
    obtain t where t: "live s t" "tag = general_tag t" using candidates_live [OF mid, of tag] c by auto
    moreover have "page_aligned t" by (rule sched_midD(1) [OF mid t(1)])
    ultimately show ?thesis using c by (simp add: chosen_def)
  qed
  show "live s (chosen s)"
    using * sched_midD(5) [OF mid] by (cases "candidates s") (auto simp: chosen_def)
  show "candidates s = tag # rest \<Longrightarrow> tag = general_tag (chosen s)" using * by blast
qed

lemma tl_candidates_mem:
  assumes mid: "sched_mid s" and t: "live s t"
  shows "general_tag t \<in> set (tl (candidates s)) \<longleftrightarrow> general_tag t \<in> set (candidates s) \<and> t \<noteq> chosen s"
proof (cases "candidates s")
  case Nil
  then show ?thesis by simp
next
  case (Cons tag rest)
  then show ?thesis
    using chosen_live(2) [OF mid Cons] candidates_distinct [OF mid] by auto
qed

lemma after_scheduleD:
  assumes "after_schedule s s'"
  shows "running_thread s' = chosen s" "thread_ready_list s' = tl (candidates s)"
    "live s' t = live s t" "idle_thread s' = idle_thread s" "intr s' = INTR_OFF"
    "stack_magic (tasks s' t) = stack_magic (tasks s t)"
    "status (tasks s' t) = (if t = chosen s then TASK_RUNNING
        else if t = running_thread s \<and> status (tasks s t) = TASK_RUNNING then TASK_READY
        else status (tasks s t))"
  using assms by (simp_all add: after_schedule_def live_def)

lemma schedule_inv:
  assumes mid: "sched_mid s" and a: "after_schedule s s'"
  shows "sched_inv s'"
proof -
  note A = after_scheduleD [OF a] and M = sched_midD [OF mid]
  have tag: "general_tag t \<in> set (thread_ready_list s') \<longleftrightarrow> status (tasks s' t) = TASK_READY"
    if t: "live s t" for t
    using tl_candidates_mem [OF mid t] candidates_mem [OF mid t] by (auto simp: A)
  have run: "t = chosen s" if "live s t" "status (tasks s' t) = TASK_RUNNING" for t
    using that M(9) [of t] by (auto simp: A(7) split: if_splits)
  have lv: "\<exists>t. live s t \<and> tag = general_tag t" if "tag \<in> set (thread_ready_list s')" for tag
    using that candidates_live [OF mid, of tag] by (cases "candidates s") (auto simp: A)
  have d: "distinct (thread_ready_list s')" using candidates_distinct [OF mid] by (simp add: A distinct_tl)
  have i: "status (tasks s' (idle_thread s)) \<noteq> TASK_DIED" using M(10) by (simp add: A(7))
  have "sched_mid s'"
    unfolding sched_mid_def A(1,3,4,6)
    using M(1-3,5) chosen_live(1) [OF mid] d lv tag run i by blast
  then show ?thesis by (simp add: sched_inv_def A(1,7))
qed


section \<open>The events that drive the scheduler\<close>

datatype sched_event = Timer | Block thread_status | Unblock addr | Yield

definition sched_event :: "sched_event \<Rightarrow> 'a kthreads_scheme \<Rightarrow> 'a kthreads_scheme res" where
  "sched_event e s = (case e of
      Timer \<Rightarrow> intr_timer_handler (s\<lparr>intr := INTR_OFF\<rparr>)
    | Block stat \<Rightarrow> thread_block stat s
    | Unblock t \<Rightarrow> thread_unblock t s
    | Yield \<Rightarrow> thread_yield s)"

fun sched_events :: "sched_event list \<Rightarrow> 'a kthreads_scheme \<Rightarrow> 'a kthreads_scheme res" where
  "sched_events [] s = Inr s"
| "sched_events (e # es) s = bindR (sched_event e s) (sched_events es)"

text \<open>What a caller owes: it blocks with a waiting status, and unblocks a task that waits.\<close>

definition event_ok :: "sched_event \<Rightarrow> 'a kthreads_scheme \<Rightarrow> bool" where
  "event_ok e s = (case e of
      Timer \<Rightarrow> True
    | Block stat \<Rightarrow> waits stat
    | Unblock t \<Rightarrow> live s t \<and> waits (status (tasks s t))
    | Yield \<Rightarrow> False)"

lemma live_upd_simps [simp]:
  "live (upd_task f a s) t = live s t"
  "live (s\<lparr>intr := v\<rparr>) t = live s t"
  "live (s\<lparr>thread_ready_list := l\<rparr>) t = live s t"
  "live (s\<lparr>total_ticks := n\<rparr>) t = live s t"
  "live (set_intr v s) t = live s t"
  by (simp_all add: live_def)

lemma sched_mid_intr [simp]:
  "sched_mid (s\<lparr>intr := v\<rparr>) = sched_mid s" "sched_mid (s\<lparr>total_ticks := n\<rparr>) = sched_mid s"
  "sched_mid (set_intr v s) = sched_mid s"
  by (simp_all add: sched_mid_def)

lemma sched_inv_intr [simp]:
  "sched_inv (s\<lparr>intr := v\<rparr>) = sched_inv s" "sched_inv (set_intr v s) = sched_inv s"
  by (simp_all add: sched_inv_def)

text \<open>An update of the tasks that the scheduler does not look at.\<close>

lemma sched_mid_upd_other:
  assumes "\<And>x. status (f x) = status x" "\<And>x. stack_magic (f x) = stack_magic x"
  shows "sched_mid (upd_task f t s) = sched_mid s"
proof -
  have *: "status (tasks (upd_task f t s) u) = status (tasks s u)"
    "stack_magic (tasks (upd_task f t s) u) = stack_magic (tasks s u)" for u
    using assms by simp_all
  show ?thesis
    unfolding sched_mid_def * live_upd_simps upd_task_simps(2,4,5) by (rule refl)
qed

lemma sched_inv_upd_other:
  assumes "\<And>x. status (f x) = status x" "\<And>x. stack_magic (f x) = stack_magic x"
  shows "sched_inv (upd_task f t s) = sched_inv s"
  using assms by (simp add: sched_inv_def sched_mid_upd_other)

lemma block_mid:
  assumes inv: "sched_inv s" and w: "waits stat"
  shows "sched_mid (upd_task (status_update (\<lambda>_. stat)) (running_thread s) (s\<lparr>intr := v\<rparr>))"
proof -
  have mid: "sched_mid s" and r: "status (tasks s (running_thread s)) = TASK_RUNNING"
    using inv by (auto simp: sched_inv_def)
  note M = sched_midD [OF mid]
  have ne: "stat \<noteq> TASK_READY" "stat \<noteq> TASK_RUNNING" "stat \<noteq> TASK_DIED" using w by (auto simp: waits_def)
  have nr: "general_tag (running_thread s) \<notin> set (thread_ready_list s)" using M(8) [OF M(4)] r by simp
  show ?thesis
  proof (rule sched_midI, goal_cases)
    case (1 t)
    then show ?case using M(1-3) [of t] by auto
  next
    case (5 tag)
    then show ?case using M(7) [of tag] by simp
  next
    case (6 t)
    then show ?case using M(8) [of t] ne nr by auto
  next
    case (7 t)
    then show ?case using M(9) [of t] ne by (simp split: if_splits)
  qed (use M(4-6,10) ne in simp_all)
qed

lemma unblock_inv:
  assumes inv: "sched_inv s" and l: "live s t" and w: "waits (status (tasks s t))"
  shows "\<exists>s'. thread_unblock t s = Inr s' \<and> sched_inv s' \<and> status (tasks s' t) = TASK_READY
     \<and> thread_ready_list s' = general_tag t # thread_ready_list s
     \<and> running_thread s' = running_thread s \<and> intr s' = intr s"
proof -
  have mid: "sched_mid s" and r: "status (tasks s (running_thread s)) = TASK_RUNNING"
    using inv by (auto simp: sched_inv_def)
  note M = sched_midD [OF mid]
  have ne: "status (tasks s t) \<noteq> TASK_READY" "status (tasks s t) \<noteq> TASK_RUNNING"
    using w by (auto simp: waits_def)
  have nr: "general_tag t \<notin> set (thread_ready_list s)" using M(8) [OF l] ne by simp
  have tr: "t \<noteq> running_thread s" using r ne by auto
  let ?s = "upd_task (status_update (\<lambda>_. TASK_READY)) t
     (s\<lparr>intr := INTR_OFF, thread_ready_list := general_tag t # thread_ready_list s\<rparr>)"
  have "sched_mid ?s"
  proof (rule sched_midI, goal_cases)
    case (1 t)
    then show ?case using M(1-3) [of t] by auto
  next
    case (5 tag)
    then show ?case using M(7) [of tag] l by auto
  next
    case (6 u)
    then show ?case using M(8) [of u] nr by auto
  next
    case (7 u)
    then show ?case using M(9) [of u] by (simp split: if_splits)
  qed (use M(4-6,10) nr in simp_all)
  then have "sched_inv (set_intr (intr s) ?s)" using r tr by (simp add: sched_inv_def)
  moreover have "thread_unblock t s = Inr (set_intr (intr s) ?s)"
    using w ne nr by (auto simp: thread_unblock_def waits_def Let_def)
  ultimately show ?thesis by simp
qed

lemma timer_cases:
  assumes inv: "sched_inv s" and off: "intr s = INTR_OFF"
  shows "\<exists>s'. intr_timer_handler s = Inr s' \<and> sched_inv s'
     \<and> (ticks (tasks s (running_thread s)) \<noteq> 0 \<longrightarrow> running_thread s' = running_thread s)"
proof -
  have mid: "sched_mid s" using inv by (simp add: sched_inv_def)
  let ?c = "running_thread s"
  let ?s = "upd_task (\<lambda>t. t\<lparr>elapsed_ticks := elapsed_ticks t + 1\<rparr>) ?c s
     \<lparr>total_ticks := total_ticks s + 1\<rparr>"
  have m: "stack_magic (tasks s ?c) = 0x20250325" using sched_midD(3,4) [OF mid] by blast
  have mid': "sched_mid ?s" using mid by (simp add: sched_mid_upd_other)
  then have inv': "sched_inv (upd_task (\<lambda>t. t\<lparr>ticks := ticks t - 1\<rparr>) ?c ?s)"
    using inv by (simp add: sched_inv_def sched_mid_upd_other)
  have e: "intr_timer_handler s = (if ticks (tasks s ?c) = 0 then schedule ?s
     else Inr (upd_task (\<lambda>t. t\<lparr>ticks := ticks t - 1\<rparr>) ?c ?s))"
    using m by (simp add: intr_timer_handler_def Let_def upd_task_def)
  obtain s' where "schedule ?s = Inr s'" "sched_inv s'"
    using schedule_switches [OF mid'] schedule_inv [OF mid'] off by auto
  then show ?thesis using inv' e by auto
qed

lemma sched_event_inv:
  assumes inv: "sched_inv s" and ok: "event_ok e s"
  shows "\<exists>s'. sched_event e s = Inr s' \<and> sched_inv s'"
proof (cases e)
  case Timer
  then show ?thesis using timer_cases [of "s\<lparr>intr := INTR_OFF\<rparr>"] inv by (auto simp: sched_event_def)
next
  case (Block stat)
  let ?s = "upd_task (status_update (\<lambda>_. stat)) (running_thread s) (s\<lparr>intr := INTR_OFF\<rparr>)"
  have w: "waits stat" using ok Block by (simp add: event_ok_def)
  have mid: "sched_mid ?s" by (rule block_mid [OF inv w])
  have "sched_event e s = schedule ?s"
    using w Block by (auto simp: sched_event_def thread_block_def waits_def Let_def)
  then show ?thesis using schedule_switches [OF mid] schedule_inv [OF mid] by auto
next
  case (Unblock t)
  then show ?thesis using unblock_inv [OF inv] ok by (auto simp: sched_event_def event_ok_def)
next
  case Yield
  then show ?thesis using ok by (simp add: event_ok_def)
qed


section \<open>thread_yield\<close>

text \<open>
  A task that is ready but on no list: thread_yield leaves the caller so, since it sets the status
  to TASK_READY before schedule, and schedule appends a running task only.
\<close>

definition lost :: "addr \<Rightarrow> 'a kthreads_scheme \<Rightarrow> bool" where
  "lost t s \<longleftrightarrow> page_aligned t \<and> page_aligned (running_thread s) \<and> page_aligned (idle_thread s)
     \<and> (\<forall>tag \<in> set (thread_ready_list s). \<exists>u. page_aligned u \<and> tag = general_tag u)
     \<and> status (tasks s t) = TASK_READY \<and> general_tag t \<notin> set (thread_ready_list s)"

lemma lost_intr [simp]: "lost t (s\<lparr>intr := v\<rparr>) = lost t s" "lost t (set_intr v s) = lost t s"
  "lost t (s\<lparr>total_ticks := n\<rparr>) = lost t s"
  by (simp_all add: lost_def)

lemma lost_upd:
  assumes "lost t s" "u = t \<Longrightarrow> status (f (tasks s t)) = TASK_READY"
  shows "lost t (upd_task f u s)"
  using assms by (auto simp: lost_def)

lemma lost_unblock:
  assumes "lost t s" "page_aligned u" "thread_unblock u s = Inr s'"
  shows "lost t s' \<and> running_thread s' = running_thread s"
proof -
  have "waits (status (tasks s u))" using assms(3)
    by (simp add: thread_unblock_def waits_def Let_def split: if_splits)
  then have "u \<noteq> t" using assms(1) by (auto simp: lost_def waits_def)
  have "s' = set_intr (intr s) (upd_task (status_update (\<lambda>_. TASK_READY)) u
     (s\<lparr>intr := INTR_OFF, thread_ready_list := general_tag u # thread_ready_list s\<rparr>))"
    using assms(3) \<open>waits _\<close> by (auto simp: thread_unblock_def waits_def Let_def split: if_splits)
  then show ?thesis using assms(1,2) \<open>u \<noteq> t\<close> by (auto simp: lost_def)
qed

lemma process_activate_Inr:
  assumes "process_activate t s = Inr s'"
  shows "tasks s' = tasks s" "thread_ready_list s' = thread_ready_list s"
    "running_thread s' = running_thread s" "idle_thread s' = idle_thread s"
proof -
  have "t \<noteq> NULL" using assms by (auto simp: process_activate_def)
  then show "tasks s' = tasks s" "thread_ready_list s' = thread_ready_list s"
    "running_thread s' = running_thread s" "idle_thread s' = idle_thread s"
    using assms by (auto simp: process_activate_eq)
qed

text \<open>A task off every list is not the one schedule picks.\<close>

lemma lost_pick:
  assumes l: "lost t s" and c: "thread_ready_list s = tag # rest"
    and p: "process_activate (pcb_of_tag tag) (upd_task (status_update (\<lambda>_. TASK_RUNNING)) (pcb_of_tag tag)
       (s\<lparr>thread_ready_list := rest\<rparr>)) = Inr s'"
  shows "lost t (s'\<lparr>running_thread := pcb_of_tag tag\<rparr>) \<and> pcb_of_tag tag \<noteq> t"
proof -
  obtain u where u: "page_aligned u" "tag = general_tag u" using l c by (auto simp: lost_def)
  then have "u \<noteq> t" using l c by (auto simp: lost_def)
  then show ?thesis using l c u process_activate_Inr [OF p] by (simp add: lost_def)
qed

lemma lost_schedule:
  assumes l: "lost t s" and n: "schedule s = Inr s'"
  shows "lost t s' \<and> running_thread s' \<noteq> t"
proof -
  let ?c = "running_thread s"
  let ?wake = "\<lambda>s. if thread_ready_list s = [] then thread_unblock (idle_thread s) s else Inr s"
  have "bindR (requeue_running ?c s) (\<lambda>s. bindR (?wake s) switch_to_first) = Inr s'"
    using n unfolding schedule_def by (cases "intr s") simp_all
  then obtain a where a: "requeue_running ?c s = Inr a" and "bindR (?wake a) switch_to_first = Inr s'"
    by (rule bindR_InrE)
  then obtain b where b: "?wake a = Inr b" and c: "switch_to_first b = Inr s'"
    by (elim bindR_InrE)
  have la: "lost t a" using a l by (auto simp: requeue_running_def lost_def Let_def split: if_splits)
  then have "page_aligned (idle_thread a)" by (simp add: lost_def)
  then have lb: "lost t b" using b la lost_unblock [of t a "idle_thread a" b] by (simp split: if_splits)
  show ?thesis
  proof (cases "thread_ready_list b")
    case Nil
    then show ?thesis using c by (simp add: switch_to_first_def)
  next
    case (Cons tag rest)
    then show ?thesis using c lost_pick [OF lb Cons] by (auto simp: switch_to_first_def Let_def bindR_Inr_iff)
  qed
qed

definition event_aligned :: "sched_event \<Rightarrow> bool" where
  "event_aligned e = (case e of Unblock t \<Rightarrow> page_aligned t | _ \<Rightarrow> True)"

lemma lost_event:
  assumes l: "lost t s" and n: "running_thread s \<noteq> t" and e: "event_aligned e" "sched_event e s = Inr s'"
  shows "lost t s' \<and> running_thread s' \<noteq> t"
proof (cases e)
  case Timer
  let ?c = "running_thread s"
  let ?s = "upd_task (\<lambda>t. t\<lparr>elapsed_ticks := elapsed_ticks t + 1\<rparr>) ?c (s\<lparr>intr := INTR_OFF\<rparr>)
     \<lparr>total_ticks := total_ticks s + 1\<rparr>"
  have ls: "lost t ?s" using lost_upd [of t "s\<lparr>intr := INTR_OFF\<rparr>"] l n by simp
  have "schedule ?s = Inr s' \<or> s' = upd_task (\<lambda>t. t\<lparr>ticks := ticks t - 1\<rparr>) ?c ?s"
    using e(2) Timer by (auto simp: sched_event_def intr_timer_handler_def Let_def upd_task_def split: if_splits)
  then show ?thesis
  proof
    assume "schedule ?s = Inr s'"
    then show ?thesis using lost_schedule [OF ls] n by simp
  next
    assume "s' = upd_task (\<lambda>t. t\<lparr>ticks := ticks t - 1\<rparr>) ?c ?s"
    then show ?thesis using lost_upd [OF ls] n by simp
  qed
next
  case (Block stat)
  then show ?thesis
    using e(2) n lost_schedule [of t "upd_task (status_update (\<lambda>_. stat)) (running_thread s) (s\<lparr>intr := INTR_OFF\<rparr>)" s']
      lost_upd [of t "s\<lparr>intr := INTR_OFF\<rparr>" "running_thread s"] l
    by (simp add: sched_event_def thread_block_def Let_def split: if_splits)
next
  case (Unblock u)
  then show ?thesis using e lost_unblock [OF l, of u s'] n by (simp add: sched_event_def event_aligned_def)
next
  case Yield
  then show ?thesis
    using e(2) n lost_schedule [of t "upd_task (status_update (\<lambda>_. TASK_READY)) (running_thread s) (s\<lparr>intr := INTR_OFF\<rparr>)" s']
      lost_upd [of t "s\<lparr>intr := INTR_OFF\<rparr>" "running_thread s"] l
    by (simp add: sched_event_def thread_yield_def Let_def split: if_splits)
qed

lemma lost_events:
  "lost t s \<Longrightarrow> running_thread s \<noteq> t \<Longrightarrow> list_all event_aligned es \<Longrightarrow> sched_events es s = Inr s'
   \<Longrightarrow> lost t s' \<and> running_thread s' \<noteq> t"
proof (induction es arbitrary: s)
  case Nil
  then show ?case by simp
next
  case (Cons e es)
  then show ?case using lost_event [of t s e] by (auto simp: bindR_Inr_iff)
qed

lemma yield_lost:
  assumes "sched_inv s" "thread_yield s = Inr s'"
  shows "lost (running_thread s) s'" "running_thread s' \<noteq> running_thread s"
proof -
  let ?c = "running_thread s"
  let ?s = "upd_task (status_update (\<lambda>_. TASK_READY)) ?c (s\<lparr>intr := INTR_OFF\<rparr>)"
  have mid: "sched_mid s" and r: "status (tasks s ?c) = TASK_RUNNING"
    using assms(1) by (auto simp: sched_inv_def)
  have nr: "general_tag ?c \<notin> set (thread_ready_list s)"
    using sched_midD(8) [OF mid sched_midD(4) [OF mid]] r by simp
  have l: "lost ?c ?s"
    unfolding lost_def
    using sched_midD(1,4,5,7) [OF mid] nr by auto blast
  have "schedule ?s = Inr s'" using assms(2) nr by (simp add: thread_yield_def Let_def)
  then show "lost ?c s'" "running_thread s' \<noteq> ?c" using lost_schedule [OF l] by blast+
qed

section \<open>A concrete state\<close>

definition demo_task :: "thread_status \<Rightarrow> task_struct" where
  "demo_task st = \<lparr>self_kstack = 0xc0101000, pid = 1, status = st, priority = 31, ticks = 0,
     elapsed_ticks = 0, pname = [], fd_table = [], pgdir = NULL, stack_magic = 0x20250325\<rparr>"

text \<open>main (0xc009e000) runs, idle (0xc0100000) is blocked, two workers are ready.\<close>

definition demo_threads :: kthreads where
  "demo_threads = \<lparr>
     tasks = (\<lambda>_. demo_task TASK_DIED)(0xc009e000 := demo_task TASK_RUNNING,
       0xc0100000 := demo_task TASK_BLOCKED, 0xc0101000 := demo_task TASK_READY,
       0xc0102000 := demo_task TASK_READY),
     thread_ready_list = [0xc0101044, 0xc0102044],
     thread_all_list = [0xc009e04c, 0xc010004c, 0xc010104c, 0xc010204c],
     running_thread = 0xc009e000, idle_thread = 0xc0100000, main_thread = 0xc009e000,
     intr = INTR_OFF, next_pid = 3, total_ticks = 0, cr3 = 0x100000, tss_esp0 = 0, ptab = (\<lambda>_. 0)\<rparr>"

lemma add_eq_word: "t + 76 = (c :: addr) \<longleftrightarrow> t = c - 76"
  by (auto simp: eq_diff_eq)

lemma demo_live: "live demo_threads t \<longleftrightarrow> t = 0xc009e000 \<or> t = 0xc0100000 \<or> t = 0xc0101000
    \<or> t = 0xc0102000"
  by (simp add: live_def demo_threads_def all_list_tag_def add_eq_word)

lemma demo_inv: "sched_inv demo_threads"
proof -
  have "sched_mid demo_threads"
  proof (rule sched_midI, goal_cases)
    case (5 tag)
    then have "tag = general_tag 0xc0101000 \<or> tag = general_tag 0xc0102000"
      by (simp add: demo_threads_def general_tag_def)
    then show ?case using demo_live [of "0xc0101000"] demo_live [of "0xc0102000"] by auto
  qed (auto simp: demo_live, auto simp: demo_threads_def demo_task_def page_aligned_def general_tag_def)
  then show ?thesis by (simp add: sched_inv_def demo_threads_def demo_task_def)
qed

text \<open>C2: schedule, entered with interrupts off and the queue in order, never stops on an assertion; it
  switches to the first ready task, the running task having been queued behind the others when it is
  still running, or to idle when none is ready; the other tasks keep their status; and cr3 is the
  page directory of the task switched to.\<close>
theorem schedule_correct:
  assumes "sched_mid s" "intr s = INTR_OFF"
  shows "\<exists>s'. schedule s = Inr s' \<and> sched_inv s'
     \<and> running_thread s' = (case candidates s of [] \<Rightarrow> idle_thread s | tag # _ \<Rightarrow> pcb_of_tag tag)
     \<and> thread_ready_list s' = tl (candidates s)
     \<and> (\<forall>t. status (tasks s' t) =
          (if t = running_thread s' then TASK_RUNNING
           else if t = running_thread s \<and> status (tasks s t) = TASK_RUNNING then TASK_READY
           else status (tasks s t)))
     \<and> cr3 s' = (if pgdir (tasks s (running_thread s')) = NULL then 0x00100000
                 else addr_v2p (ptab s) (pgdir (tasks s (running_thread s'))))"
proof -
  obtain s' where s': "schedule s = Inr s'" "after_schedule s s'"
    using schedule_switches [OF assms] by blast
  then show ?thesis using schedule_inv [OF assms(1)]
    by (auto simp: after_schedule_def chosen_def)
qed

lemma schedule_correct_witness:
  "\<exists>s'. schedule demo_threads = Inr s' \<and> sched_inv s' \<and> running_thread s' = 0xc0101000
     \<and> thread_ready_list s' = [0xc0102044, 0xc009e044]"
proof -
  have mid: "sched_mid demo_threads" using demo_inv by (simp add: sched_inv_def)
  have c: "candidates demo_threads = [0xc0101044, 0xc0102044, 0xc009e044]"
    by (simp add: candidates_def demo_threads_def demo_task_def general_tag_def)
  have off: "intr demo_threads = INTR_OFF" by (simp add: demo_threads_def)
  show ?thesis
    using schedule_correct [OF mid off] by (auto simp: c pcb_of_tag_def)
qed

text \<open>C14: Every event of the scheduler (a timer tick, the blocking of the running task, the
  unblocking of a waiting task) goes through without a failed assertion and keeps the invariant: one
  running task, and the ready list holding the ready tasks once each.\<close>
theorem sched_events_safe:
  assumes "sched_inv s" "event_ok e s"
  shows "\<exists>s'. sched_event e s = Inr s' \<and> sched_inv s'"
  using sched_event_inv [OF assms] .

lemma sched_events_safe_witness:
  "\<exists>s'. sched_event (Unblock 0xc0100000) demo_threads = Inr s' \<and> sched_inv s'"
proof -
  have "event_ok (Unblock 0xc0100000) demo_threads"
    by (simp add: event_ok_def demo_live waits_def, simp add: demo_threads_def demo_task_def)
  then show ?thesis by (rule sched_events_safe [OF demo_inv])
qed

text \<open>C21: A task that calls thread_yield never runs again: whatever ticks, blocks, unblocks and yields
  follow, as long as none of them stops the kernel, the running task is another one. thread_yield sets
  the status to TASK_READY without appending the task to the ready list, schedule appends only a
  running task, and thread_unblock asserts that the task is waiting.\<close>
theorem thread_yield_never_again:
  assumes "sched_inv s" "thread_yield s = Inr s'" "list_all event_aligned es" "sched_events es s' = Inr s''"
  shows "running_thread s'' \<noteq> running_thread s"
  using lost_events yield_lost [OF assms(1,2)] assms(3,4) by blast

lemma thread_yield_never_again_witness:
  "\<exists>s' s''. thread_yield demo_threads = Inr s' \<and> sched_events [Timer, Timer] s' = Inr s''
     \<and> running_thread s'' \<noteq> 0xc009e000"
proof -
  have "is_ok (bindR (thread_yield demo_threads) (sched_events [Timer, Timer]))"
    by code_simp
  then obtain s' s'' where y: "thread_yield demo_threads = Inr s'" "sched_events [Timer, Timer] s' = Inr s''"
    by (auto simp: is_ok_iff bindR_Inr_iff simp del: sched_events.simps)
  moreover have "list_all event_aligned [Timer, Timer]" by (simp add: event_aligned_def)
  ultimately show ?thesis
    using thread_yield_never_again [OF demo_inv y(1) _ y(2)] by (auto simp: demo_threads_def)
qed

end
