(* ===== verification/Sync.thy ===== *)
theory Sync
  imports Threads
begin

text \<open>
  thread/sync.c: the binary semaphore and the re-entrant lock built on it. sema_down and sema_up run
  with interrupts off and are atomic, except that a thread that finds the value 0 queues itself and
  gives up the processor in thread_block; each pass of its loop is one segment. lock_acquire and
  lock_release run with interrupts on, so a timer tick may switch threads between any two of their
  statements: the lock is therefore also a machine with one program counter per thread, whose
  segments are the statements, and the lemmas hold for every interleaving.
\<close>

section \<open>Semaphores and locks\<close>

record semaphore =
  svalue :: u8
  waiters :: "addr list"

record lock =
  sem :: semaphore
  holder :: addr
  holder_repeat_nr :: u32

definition sema_init :: "u8 \<Rightarrow> semaphore" where
  "sema_init value = \<lparr>svalue = value, waiters = []\<rparr>"

definition lock_init :: lock where
  "lock_init = \<lparr>sem = sema_init 1, holder = NULL, holder_repeat_nr = 0\<rparr>"

text \<open>One pass of sema_down: True when the value was taken, False when the thread queued itself and
  another one runs; it then starts the loop again when it is woken.\<close>

definition sema_down :: "semaphore \<Rightarrow> 'a kthreads_scheme \<Rightarrow> (bool \<times> semaphore \<times> 'a kthreads_scheme) res" where
  "sema_down psema s =
     (let old_status = intr s;
          s = s\<lparr>intr := snd (intr_disable (intr s))\<rparr>;
          tag = general_tag (running_thread s)
      in if svalue psema = 0 then
           (if tag \<in> set (waiters psema)
            then Inl (Assertion ''!elem_find(&psema->waiters, &running_thread()->general_tag)'')
            else let psema = psema\<lparr>waiters := waiters psema @ [tag]\<rparr>
                 in bindR (thread_block TASK_BLOCKED s) (\<lambda>s. Inr (False, psema, s)))
         else
           (let psema = psema\<lparr>svalue := svalue psema - 1\<rparr>
            in if svalue psema \<noteq> 0 then Inl (Assertion ''psema->value == 0'')
               else Inr (True, psema, set_intr old_status s)))"

definition sema_up :: "semaphore \<Rightarrow> 'a kthreads_scheme \<Rightarrow> (semaphore \<times> 'a kthreads_scheme) res" where
  "sema_up psema s =
     (let old_status = intr s;
          s = s\<lparr>intr := snd (intr_disable (intr s))\<rparr>
      in if svalue psema \<noteq> 0 then Inl (Assertion ''psema->value == 0'')
         else bindR (case waiters psema of
                       [] \<Rightarrow> Inr (psema, s)
                     | tag # rest \<Rightarrow> bindR (thread_unblock (pcb_of_tag tag) s)
                                         (\<lambda>s. Inr (psema\<lparr>waiters := rest\<rparr>, s)))
           (\<lambda>(psema, s).
             let psema = psema\<lparr>svalue := svalue psema + 1\<rparr>
             in if svalue psema \<noteq> 1 then Inl (Assertion ''psema->value == 1'')
                else Inr (psema, set_intr old_status s)))"

text \<open>The two lock operations without an interruption; Blocked when the thread had to queue.\<close>

definition lock_acquire :: "lock \<Rightarrow> 'a kthreads_scheme \<Rightarrow> (lock \<times> 'a kthreads_scheme) res" where
  "lock_acquire plock s =
     (if holder plock = running_thread s
      then Inr (plock\<lparr>holder_repeat_nr := holder_repeat_nr plock + 1\<rparr>, s)
      else bindR (sema_down (sem plock) s) (\<lambda>(taken, psema, s).
        if \<not> taken then Inl Blocked
        else let plock = plock\<lparr>sem := psema, holder := running_thread s\<rparr>
             in if holder_repeat_nr plock \<noteq> 0 then Inl (Assertion ''plock->holder_repeat_nr == 0'')
                else Inr (plock\<lparr>holder_repeat_nr := 1\<rparr>, s)))"

definition lock_release :: "lock \<Rightarrow> 'a kthreads_scheme \<Rightarrow> (lock \<times> 'a kthreads_scheme) res" where
  "lock_release plock s =
     (if holder plock \<noteq> running_thread s then Inl (Assertion ''plock->holder == running_thread()'')
      else if holder_repeat_nr plock > 1
      then Inr (plock\<lparr>holder_repeat_nr := holder_repeat_nr plock - 1\<rparr>, s)
      else if holder_repeat_nr plock \<noteq> 1 then Inl (Assertion ''plock->holder_repeat_nr == 1'')
      else let plock = plock\<lparr>holder := NULL, holder_repeat_nr := 0\<rparr>
           in bindR (sema_up (sem plock) s) (\<lambda>(psema, s). Inr (plock\<lparr>sem := psema\<rparr>, s)))"

section \<open>The lock under interleaving\<close>

text \<open>The statement of lock_acquire or lock_release a thread is at; Client outside them.\<close>

datatype lock_pc =
    Client
  | AcqInc          \<comment> \<open>plock->holder_repeat_nr++\<close>
  | AcqDown         \<comment> \<open>sema_down(&plock->semaphore)\<close>
  | AcqHolder       \<comment> \<open>plock->holder = running_thread()\<close>
  | AcqNr           \<comment> \<open>ASSERT(plock->holder_repeat_nr == 0); plock->holder_repeat_nr = 1\<close>
  | RelDec          \<comment> \<open>plock->holder_repeat_nr--\<close>
  | RelHolder       \<comment> \<open>plock->holder = NULL\<close>
  | RelNr           \<comment> \<open>plock->holder_repeat_nr = 0\<close>
  | RelUp           \<comment> \<open>sema_up(&plock->semaphore)\<close>

text \<open>depth counts, for each thread, the lock_acquire that returned less the lock_release begun.\<close>

record sync =
  kth :: kthreads
  lk :: lock
  pc :: "addr \<Rightarrow> lock_pc"
  depth :: "addr \<Rightarrow> nat"

definition goto :: "lock_pc \<Rightarrow> addr \<Rightarrow> sync \<Rightarrow> sync" where
  "goto p c s = s\<lparr>pc := (pc s)(c := p)\<rparr>"

definition acquired :: "addr \<Rightarrow> sync \<Rightarrow> sync" where
  "acquired c s = s\<lparr>pc := (pc s)(c := Client), depth := (depth s)(c := depth s c + 1)\<rparr>"

definition acquire_test :: "sync \<Rightarrow> sync" where
  "acquire_test s = (let c = running_thread (kth s)
     in goto (if holder (lk s) = c then AcqInc else AcqDown) c s)"

definition release_test :: "sync \<Rightarrow> sync res" where
  "release_test s = (let c = running_thread (kth s); s' = s\<lparr>depth := (depth s)(c := depth s c - 1)\<rparr>
     in if holder (lk s) \<noteq> c then Inl (Assertion ''plock->holder == running_thread()'')
        else if holder_repeat_nr (lk s) > 1 then Inr (goto RelDec c s')
        else if holder_repeat_nr (lk s) \<noteq> 1 then Inl (Assertion ''plock->holder_repeat_nr == 1'')
        else Inr (goto RelHolder c s'))"

definition set_lk :: "(lock \<Rightarrow> lock) \<Rightarrow> sync \<Rightarrow> sync" where
  "set_lk f s = s\<lparr>lk := f (lk s)\<rparr>"

definition continue :: "sync \<Rightarrow> sync res" where
  "continue s = (let c = running_thread (kth s); l = lk s in
     case pc s c of
       Client \<Rightarrow> Inr s
     | AcqInc \<Rightarrow> Inr (acquired c (set_lk (\<lambda>l. l\<lparr>holder_repeat_nr := holder_repeat_nr l + 1\<rparr>) s))
     | AcqDown \<Rightarrow> bindR (sema_down (sem l) (kth s)) (\<lambda>(taken, psema, k).
         let s = s\<lparr>kth := k, lk := l\<lparr>sem := psema\<rparr>\<rparr>
         in Inr (if taken then goto AcqHolder c s else s))
     | AcqHolder \<Rightarrow> Inr (goto AcqNr c (set_lk (\<lambda>l. l\<lparr>holder := c\<rparr>) s))
     | AcqNr \<Rightarrow> if holder_repeat_nr l \<noteq> 0 then Inl (Assertion ''plock->holder_repeat_nr == 0'')
               else Inr (acquired c (set_lk (\<lambda>l. l\<lparr>holder_repeat_nr := 1\<rparr>) s))
     | RelDec \<Rightarrow> Inr (goto Client c (set_lk (\<lambda>l. l\<lparr>holder_repeat_nr := holder_repeat_nr l - 1\<rparr>) s))
     | RelHolder \<Rightarrow> Inr (goto RelNr c (set_lk (\<lambda>l. l\<lparr>holder := NULL\<rparr>) s))
     | RelNr \<Rightarrow> Inr (goto RelUp c (set_lk (\<lambda>l. l\<lparr>holder_repeat_nr := 0\<rparr>) s))
     | RelUp \<Rightarrow> bindR (sema_up (sem l) (kth s)) (\<lambda>(psema, k).
         Inr (goto Client c (s\<lparr>kth := k, lk := l\<lparr>sem := psema\<rparr>\<rparr>))))"

datatype lock_event =
    CallAcquire | CallRelease | Continue | Tick
  | IntrFlag intr_status       \<comment> \<open>the flag the running thread was saved with, or sets\<close>
  | ClientBlock thread_status  \<comment> \<open>the running thread waits for something else\<close>
  | ClientUnblock addr         \<comment> \<open>a thread that waits for something else is woken\<close>

definition on_kth :: "sync \<Rightarrow> kthreads res \<Rightarrow> sync res" where
  "on_kth s r = bindR r (\<lambda>k. Inr (s\<lparr>kth := k\<rparr>))"

definition lock_event :: "lock_event \<Rightarrow> sync \<Rightarrow> sync res" where
  "lock_event e s = (case e of
      CallAcquire \<Rightarrow> Inr (acquire_test s)
    | CallRelease \<Rightarrow> release_test s
    | Continue \<Rightarrow> continue s
    | Tick \<Rightarrow> on_kth s (sched_event Timer (kth s))
    | IntrFlag v \<Rightarrow> Inr (s\<lparr>kth := (kth s)\<lparr>intr := v\<rparr>\<rparr>)
    | ClientBlock stat \<Rightarrow> on_kth s (sched_event (Block stat) (kth s))
    | ClientUnblock t \<Rightarrow> on_kth s (sched_event (Unblock t) (kth s)))"

text \<open>
  What the clients owe: calls only outside the lock's code and not by idle, a release for an earlier
  acquire, fewer than 2^32 nested acquisitions, and no wake-up of a thread that waits for the lock.
\<close>

definition lock_event_ok :: "lock_event \<Rightarrow> sync \<Rightarrow> bool" where
  "lock_event_ok e s = (let c = running_thread (kth s) in case e of
      CallAcquire \<Rightarrow> pc s c = Client \<and> c \<noteq> idle_thread (kth s) \<and> int (depth s c) < 4294967295
    | CallRelease \<Rightarrow> pc s c = Client \<and> 0 < depth s c
    | Continue \<Rightarrow> True
    | Tick \<Rightarrow> True
    | IntrFlag v \<Rightarrow> True
    | ClientBlock stat \<Rightarrow> pc s c = Client \<and> waits stat
    | ClientUnblock t \<Rightarrow> live (kth s) t \<and> waits (status (tasks (kth s) t)) \<and> pc s t = Client)"

definition lock_step :: "sync \<Rightarrow> sync \<Rightarrow> bool" where
  "lock_step s t \<longleftrightarrow> (\<exists>e. lock_event_ok e s \<and> lock_event e s = Inr t)"

definition lock_start :: "sync \<Rightarrow> bool" where
  "lock_start s \<longleftrightarrow> sched_inv (kth s) \<and> lk s = lock_init \<and> (\<forall>t. pc s t = Client \<and> depth s t = 0)"

section \<open>What the scheduler leaves alone\<close>

definition runnable :: "'a kthreads_scheme \<Rightarrow> addr \<Rightarrow> bool" where
  "runnable k t \<longleftrightarrow> status (tasks k t) = TASK_READY \<or> status (tasks k t) = TASK_RUNNING"

definition same_parked :: "'a kthreads_scheme \<Rightarrow> 'a kthreads_scheme \<Rightarrow> bool" where
  "same_parked k k' \<longleftrightarrow> (\<forall>t. live k' t = live k t) \<and> idle_thread k' = idle_thread k
     \<and> (\<forall>t. live k t \<longrightarrow> t \<noteq> idle_thread k \<longrightarrow>
          (runnable k' t = runnable k t) \<and> (\<not> runnable k t \<longrightarrow> status (tasks k' t) = status (tasks k t)))"

lemma same_parkedD:
  assumes "same_parked k k'"
  shows "live k' t = live k t" "idle_thread k' = idle_thread k"
    "live k t \<Longrightarrow> t \<noteq> idle_thread k \<Longrightarrow> runnable k' t = runnable k t"
    "live k t \<Longrightarrow> t \<noteq> idle_thread k \<Longrightarrow> \<not> runnable k t \<Longrightarrow> status (tasks k' t) = status (tasks k t)"
  using assms unfolding same_parked_def by blast+

lemma chosen_runnable:
  assumes mid: "sched_mid k" and ne: "chosen k \<noteq> idle_thread k"
  shows "runnable k (chosen k)"
proof -
  obtain tag rest where c: "candidates k = tag # rest"
    using ne by (cases "candidates k") (auto simp: chosen_def)
  then have "general_tag (chosen k) \<in> set (candidates k)" using chosen_live(2) [OF mid c] by simp
  then show ?thesis using candidates_mem [OF mid chosen_live(1) [OF mid]] by (auto simp: runnable_def)
qed

lemma schedule_parked:
  assumes mid: "sched_mid k" and a: "after_schedule k k'"
  shows "same_parked k k'"
  unfolding same_parked_def after_scheduleD(3,4) [OF a]
  using after_scheduleD(7) [OF a] chosen_runnable [OF mid]
  by (auto simp: runnable_def)

lemma block_parked:
  assumes inv: "sched_inv k" and w: "waits stat"
  shows "\<exists>k'. thread_block stat k = Inr k' \<and> sched_inv k'
     \<and> same_parked (upd_task (status_update (\<lambda>_. stat)) (running_thread k) k) k'"
proof -
  let ?k = "upd_task (status_update (\<lambda>_. stat)) (running_thread k) (k\<lparr>intr := INTR_OFF\<rparr>)"
  have mid: "sched_mid ?k" by (rule block_mid [OF inv w])
  obtain k' where k': "schedule ?k = Inr k'" "after_schedule ?k k'" using schedule_switches [OF mid] by auto
  have "thread_block stat k = Inr k'"
    using w k'(1) by (auto simp: thread_block_def waits_def Let_def)
  moreover have "same_parked ?k k'" by (rule schedule_parked [OF mid k'(2)])
  ultimately show ?thesis using schedule_inv [OF mid k'(2)] by (auto simp: same_parked_def runnable_def)
qed

lemma tick_parked:
  assumes inv: "sched_inv k"
  shows "\<exists>k'. sched_event Timer k = Inr k' \<and> sched_inv k' \<and> same_parked k k'"
proof -
  let ?c = "running_thread k"
  let ?k = "upd_task (\<lambda>t. t\<lparr>elapsed_ticks := elapsed_ticks t + 1\<rparr>) ?c (k\<lparr>intr := INTR_OFF\<rparr>)
     \<lparr>total_ticks := total_ticks k + 1\<rparr>"
  have mid: "sched_mid k" using inv by (simp add: sched_inv_def)
  then have mid': "sched_mid ?k" by (simp add: sched_mid_upd_other)
  obtain k' where k': "schedule ?k = Inr k'" "after_schedule ?k k'" using schedule_switches [OF mid'] by auto
  obtain k2 where k2: "sched_event Timer k = Inr k2" "sched_inv k2"
    using sched_event_inv [OF inv, of Timer] by (auto simp: event_ok_def)
  have m: "stack_magic (tasks k ?c) = 0x20250325" using sched_midD(3,4) [OF mid] by blast
  have "k2 = k' \<or> k2 = upd_task (\<lambda>t. t\<lparr>ticks := ticks t - 1\<rparr>) ?c ?k"
    using k2(1) k'(1) m by (auto simp: sched_event_def intr_timer_handler_def Let_def upd_task_def split: if_splits)
  moreover have "same_parked k k'"
    using schedule_parked [OF mid' k'(2)] by (auto simp: same_parked_def runnable_def live_def)
  moreover have "same_parked k (upd_task (\<lambda>t. t\<lparr>ticks := ticks t - 1\<rparr>) ?c ?k)"
    by (auto simp: same_parked_def runnable_def)
  ultimately show ?thesis using k2 by auto
qed

lemma unblock_parked:
  assumes inv: "sched_inv k" and l: "live k t" and w: "waits (status (tasks k t))"
  shows "\<exists>k'. thread_unblock t k = Inr k' \<and> sched_inv k' \<and> running_thread k' = running_thread k
     \<and> same_parked (upd_task (status_update (\<lambda>_. TASK_READY)) t k) k'"
proof -
  let ?k = "set_intr (intr k) (upd_task (status_update (\<lambda>_. TASK_READY)) t
     (k\<lparr>intr := INTR_OFF, thread_ready_list := general_tag t # thread_ready_list k\<rparr>))"
  obtain k' where k': "thread_unblock t k = Inr k'" "sched_inv k'" "running_thread k' = running_thread k"
    using unblock_inv [OF assms] by blast
  then have "k' = ?k" using w by (auto simp: thread_unblock_def waits_def Let_def split: if_splits)
  then have "same_parked (upd_task (status_update (\<lambda>_. TASK_READY)) t k) k'"
    by (simp add: same_parked_def runnable_def)
  then show ?thesis using k' by blast
qed

section \<open>The invariant of the lock\<close>

text \<open>What the fields are while t owns the lock, by the statement t is at.\<close>

definition owner_ok :: "sync \<Rightarrow> addr \<Rightarrow> bool" where
  "owner_ok s t = (let d = depth s t; h = holder (lk s); n = unat (holder_repeat_nr (lk s)) in
     case pc s t of
       Client \<Rightarrow> 0 < d \<and> h = t \<and> n = d
     | AcqInc \<Rightarrow> 0 < d \<and> h = t \<and> n = d \<and> int d < 4294967295
     | AcqDown \<Rightarrow> False
     | AcqHolder \<Rightarrow> d = 0 \<and> h = NULL \<and> n = 0
     | AcqNr \<Rightarrow> d = 0 \<and> h = t \<and> n = 0
     | RelDec \<Rightarrow> 0 < d \<and> h = t \<and> n = d + 1
     | RelHolder \<Rightarrow> d = 0 \<and> h = t \<and> n = 1
     | RelNr \<Rightarrow> d = 0 \<and> h = NULL \<and> n = 1
     | RelUp \<Rightarrow> d = 0 \<and> h = NULL \<and> n = 0)"

definition other_ok :: "sync \<Rightarrow> addr \<Rightarrow> bool" where
  "other_ok s t \<longleftrightarrow> depth s t = 0 \<and> (pc s t = Client \<or> pc s t = AcqDown \<and> live (kth s) t \<and> t \<noteq> idle_thread (kth s))"

definition unheld :: "sync \<Rightarrow> bool" where
  "unheld s \<longleftrightarrow> svalue (sem (lk s)) = 1 \<and> holder (lk s) = NULL \<and> holder_repeat_nr (lk s) = 0
     \<and> (\<forall>t. other_ok s t)"

definition held_by :: "sync \<Rightarrow> addr \<Rightarrow> bool" where
  "held_by s t \<longleftrightarrow> svalue (sem (lk s)) = 0 \<and> live (kth s) t \<and> t \<noteq> idle_thread (kth s)
     \<and> owner_ok s t \<and> (\<forall>u. u \<noteq> t \<longrightarrow> other_ok s u)"

text \<open>The waiters are, once each, the threads in sema_down that are not runnable.\<close>

definition queue_ok :: "sync \<Rightarrow> bool" where
  "queue_ok s \<longleftrightarrow> distinct (waiters (sem (lk s)))
     \<and> (\<forall>tag \<in> set (waiters (sem (lk s))). \<exists>t. live (kth s) t \<and> tag = general_tag t)
     \<and> (\<forall>t. live (kth s) t \<longrightarrow> (general_tag t \<in> set (waiters (sem (lk s))) \<longleftrightarrow>
          pc s t = AcqDown \<and> \<not> runnable (kth s) t))
     \<and> (\<forall>t. live (kth s) t \<longrightarrow> pc s t = AcqDown \<longrightarrow> \<not> runnable (kth s) t
          \<longrightarrow> status (tasks (kth s) t) = TASK_BLOCKED)"

text \<open>No wake-up is lost: a free lock with waiters has a woken thread on its way to it.\<close>

definition wake_ok :: "sync \<Rightarrow> bool" where
  "wake_ok s \<longleftrightarrow> (svalue (sem (lk s)) = 1 \<longrightarrow> waiters (sem (lk s)) \<noteq> [] \<longrightarrow>
     (\<exists>t. live (kth s) t \<and> pc s t = AcqDown \<and> runnable (kth s) t))"

definition lock_inv :: "sync \<Rightarrow> bool" where
  "lock_inv s \<longleftrightarrow> sched_inv (kth s) \<and> queue_ok s \<and> wake_ok s \<and> (unheld s \<or> (\<exists>t. held_by s t))"

lemma queue_okD:
  assumes "queue_ok s"
  shows "distinct (waiters (sem (lk s)))"
    "tag \<in> set (waiters (sem (lk s))) \<Longrightarrow> \<exists>t. live (kth s) t \<and> tag = general_tag t"
    "live (kth s) t \<Longrightarrow> general_tag t \<in> set (waiters (sem (lk s))) \<longleftrightarrow> pc s t = AcqDown \<and> \<not> runnable (kth s) t"
    "live (kth s) t \<Longrightarrow> pc s t = AcqDown \<Longrightarrow> \<not> runnable (kth s) t \<Longrightarrow> status (tasks (kth s) t) = TASK_BLOCKED"
  using assms unfolding queue_ok_def by blast+

lemma down_other:
  assumes "lock_inv s" "pc s t = AcqDown"
  shows "other_ok s t"
proof -
  have "\<not> owner_ok s t" using assms(2) by (simp add: owner_ok_def)
  then have "other_ok s t" if "held_by s u" for u
    using that by (cases "t = u") (auto simp: held_by_def)
  then show ?thesis using assms(1) by (auto simp: lock_inv_def unheld_def)
qed

text \<open>Changes of the scheduler state that leave the threads in sema_down alone.\<close>

lemma lock_inv_kth:
  assumes inv: "lock_inv s" and k: "sched_inv k"
    and live: "\<And>t. live k t = live (kth s) t" and idle: "idle_thread k = idle_thread (kth s)"
    and same: "\<And>t. live k t \<Longrightarrow> pc s t = AcqDown \<Longrightarrow> t \<noteq> idle_thread k \<Longrightarrow>
       runnable k t = runnable (kth s) t \<and> (\<not> runnable k t \<longrightarrow> status (tasks k t) = status (tasks (kth s) t))"
  shows "lock_inv (s\<lparr>kth := k\<rparr>)"
proof -
  let ?s = "s\<lparr>kth := k\<rparr>"
  have down: "t \<noteq> idle_thread k" if "pc s t = AcqDown" for t
    using down_other [OF inv that] that by (simp add: other_ok_def idle)
  have q: "queue_ok s" and w: "wake_ok s" using inv by (auto simp: lock_inv_def)
  have "queue_ok ?s"
    unfolding queue_ok_def
    using queue_okD [OF q] same down by (simp add: live) blast
  moreover have "wake_ok ?s"
    using w same down by (simp add: wake_ok_def live) blast
  moreover have "unheld ?s = unheld s" "held_by ?s t = held_by s t" for t
    by (simp_all add: unheld_def held_by_def other_ok_def owner_ok_def live idle)
  ultimately show ?thesis using inv k by (simp add: lock_inv_def)
qed

lemma lock_inv_parked:
  assumes inv: "lock_inv s" and k: "sched_inv k" and p: "same_parked (kth s) k"
  shows "lock_inv (s\<lparr>kth := k\<rparr>)"
  by (rule lock_inv_kth [OF inv k]) (use same_parkedD [OF p] in auto)

lemma lock_inv_upd_client:
  assumes inv: "lock_inv s" and k: "sched_inv k" and c: "pc s c = Client"
    and p: "same_parked (upd_task f c (kth s)) k"
  shows "lock_inv (s\<lparr>kth := k\<rparr>)"
proof (rule lock_inv_kth [OF inv k])
  fix t assume t: "live k t" "pc s t = AcqDown" "t \<noteq> idle_thread k"
  then have "t \<noteq> c" using c by auto
  then show "runnable k t = runnable (kth s) t \<and>
      (\<not> runnable k t \<longrightarrow> status (tasks k t) = status (tasks (kth s) t))"
    using same_parkedD [OF p] t by (auto simp: runnable_def)
qed (use same_parkedD(1,2) [OF p] in auto)

text \<open>Changes of the running thread's program counter and of the lock's own fields.\<close>

lemma running_facts:
  assumes "lock_inv s"
  shows "live (kth s) (running_thread (kth s))" "runnable (kth s) (running_thread (kth s))"
  using assms sched_midD(4) by (auto simp: lock_inv_def sched_inv_def runnable_def)

lemma lock_inv_local:
  assumes inv: "lock_inv s"
    and k: "kth s' = kth s" and sem: "sem (lk s') = sem (lk s)"
    and pc: "\<And>t. t \<noteq> running_thread (kth s) \<Longrightarrow> pc s' t = pc s t \<and> depth s' t = depth s t"
    and p: "pc s (running_thread (kth s)) \<noteq> AcqDown"
    and h: "unheld s' \<or> (\<exists>t. held_by s' t)"
  shows "lock_inv s'"
proof -
  note r = running_facts [OF inv]
  have q: "queue_ok s" and w: "wake_ok s" using inv by (auto simp: lock_inv_def)
  have pcD: "pc s' t = AcqDown \<longleftrightarrow> pc s t = AcqDown" if "t \<noteq> running_thread (kth s)" for t
    using pc [OF that] by simp
  have down: "pc s' t = AcqDown \<and> \<not> runnable (kth s) t \<longleftrightarrow> pc s t = AcqDown \<and> \<not> runnable (kth s) t" for t
    using pcD [of t] r(2) by (cases "t = running_thread (kth s)") auto
  have "queue_ok s'"
    unfolding queue_ok_def k sem down
    using queue_okD [OF q] down by blast
  moreover have "wake_ok s'"
    unfolding wake_ok_def k sem
    using w p pcD unfolding wake_ok_def by metis
  ultimately show ?thesis using inv k h by (simp add: lock_inv_def)
qed

lemma other_ok_upd:
  assumes "kth s' = kth s" "pc s' t = pc s t" "depth s' t = depth s t"
  shows "other_ok s' t = other_ok s t"
  using assms by (simp add: other_ok_def)

text \<open>A thread that is at one of the owner's statements, or has the lock, is the owner.\<close>

lemma owner_running:
  assumes inv: "lock_inv s" and o: "\<not> other_ok s c"
  shows "held_by s c"
proof -
  have "t = c" if "held_by s t" for t using that o by (auto simp: held_by_def)
  then show ?thesis using inv o by (auto simp: lock_inv_def unheld_def)
qed

lemma lock_inv_owner:
  assumes inv: "lock_inv s" and h: "held_by s (running_thread (kth s))"
    and k: "kth s' = kth s" and sem: "sem (lk s') = sem (lk s)"
    and pc: "\<And>t. t \<noteq> running_thread (kth s) \<Longrightarrow> pc s' t = pc s t \<and> depth s' t = depth s t"
    and o: "owner_ok s' (running_thread (kth s))"
  shows "lock_inv s'"
proof (rule lock_inv_local [OF inv k sem pc])
  show "pc s (running_thread (kth s)) \<noteq> AcqDown" using h by (auto simp: held_by_def owner_ok_def)
  have "other_ok s' u = other_ok s u" if "u \<noteq> running_thread (kth s)" for u
    using other_ok_upd [OF k] pc [OF that] by blast
  then have "held_by s' (running_thread (kth s))" using h o k sem by (simp add: held_by_def)
  then show "unheld s' \<or> (\<exists>t. held_by s' t)" by blast
qed

lemma acquire_test_inv:
  assumes inv: "lock_inv s" and c: "pc s (running_thread (kth s)) = Client"
    "running_thread (kth s) \<noteq> idle_thread (kth s)" "int (depth s (running_thread (kth s))) < 4294967295"
  shows "lock_inv (acquire_test s)"
proof -
  let ?c = "running_thread (kth s)"
  have nz: "?c \<noteq> NULL" using inv sched_midD(2,4) by (auto simp: lock_inv_def sched_inv_def)
  show ?thesis
  proof (cases "other_ok s ?c")
    case True
    have "holder (lk s) \<noteq> ?c"
    proof (cases "unheld s")
      case True
      then show ?thesis using nz by (simp add: unheld_def)
    next
      case False
      then obtain t where t: "held_by s t" using inv by (auto simp: lock_inv_def)
      have "t \<noteq> ?c" using t True c(1) by (auto simp: held_by_def owner_ok_def other_ok_def)
      then show ?thesis using t nz by (auto simp: held_by_def owner_ok_def Let_def split: lock_pc.splits)
    qed
    then have e: "acquire_test s = goto AcqDown ?c s" by (simp add: acquire_test_def Let_def)
    have o: "other_ok (goto AcqDown ?c s) u \<longleftrightarrow> other_ok s u" for u
      using True running_facts(1) [OF inv] c(2) by (auto simp: other_ok_def goto_def)
    have "unheld (goto AcqDown ?c s) = unheld s"
      unfolding unheld_def o by (simp add: goto_def)
    moreover have "held_by (goto AcqDown ?c s) t" if "held_by s t" for t
    proof -
      have "t \<noteq> ?c" using that True c(1) by (auto simp: held_by_def owner_ok_def other_ok_def)
      then show ?thesis using that unfolding held_by_def o by (simp add: goto_def owner_ok_def)
    qed
    ultimately have "unheld (goto AcqDown ?c s) \<or> (\<exists>t. held_by (goto AcqDown ?c s) t)"
      using inv unfolding lock_inv_def by blast
    then show ?thesis unfolding e
      by (intro lock_inv_local [OF inv]) (auto simp: goto_def c(1))
  next
    case False
    then have h: "held_by s ?c" by (rule owner_running [OF inv])
    then show ?thesis using c
      by (intro lock_inv_owner [OF inv h])
         (auto simp: acquire_test_def goto_def held_by_def owner_ok_def Let_def)
  qed
qed

lemma release_test_inv:
  assumes inv: "lock_inv s" and c: "pc s (running_thread (kth s)) = Client" "0 < depth s (running_thread (kth s))"
  shows "\<exists>s'. release_test s = Inr s' \<and> lock_inv s'"
proof -
  let ?c = "running_thread (kth s)"
  have "\<not> other_ok s ?c" using c by (simp add: other_ok_def)
  then have h: "held_by s ?c" by (rule owner_running [OF inv])
  then have f: "holder (lk s) = ?c" "unat (holder_repeat_nr (lk s)) = depth s ?c"
    using c by (auto simp: held_by_def owner_ok_def Let_def)
  have n: "holder_repeat_nr (lk s) > 1 \<longleftrightarrow> depth s ?c > 1" "holder_repeat_nr (lk s) = 1 \<longleftrightarrow> depth s ?c = 1"
    using f(2) by (auto simp: word_less_nat_alt u32_eq_iff)
  show ?thesis
    using c f n by (auto simp: release_test_def Let_def goto_def owner_ok_def intro!: lock_inv_owner [OF inv h])
qed


lemma continue_owner_inv:
  assumes inv: "lock_inv s" and p: "pc s (running_thread (kth s)) \<notin> {Client, AcqDown, RelUp}"
  shows "\<exists>s'. continue s = Inr s' \<and> lock_inv s'"
proof -
  let ?c = "running_thread (kth s)"
  have "\<not> other_ok s ?c" using p by (auto simp: other_ok_def)
  then have h: "held_by s ?c" by (rule owner_running [OF inv])
  then have o: "owner_ok s ?c" by (simp add: held_by_def)
  have dec: "unat (n - 1 :: u32) = unat n - 1" if "unat n \<noteq> 0" for n :: u32
    using that unat_sub_u32 [of 1 n] by (simp add: word_le_nat_alt)
  have inc: "unat (n + 1 :: u32) = unat n + 1" if "unat n < 2 ^ 32 - 1" for n :: u32
    using that by (intro unat_Suc_u32) simp
  show ?thesis
    using p o
    by (cases "pc s ?c")
       (auto simp: continue_def Let_def goto_def acquired_def set_lk_def owner_ok_def dec inc u32_eq_iff
             intro!: lock_inv_owner [OF inv h])
qed

lemma sema_down_free:
  assumes "svalue p = 1"
  shows "sema_down p k = Inr (True, p\<lparr>svalue := 0\<rparr>, k)"
  using assms by (simp add: sema_down_def Let_def set_intr_def)

lemma continue_taken_inv:
  assumes inv: "lock_inv s" and p: "pc s (running_thread (kth s)) = AcqDown" and v: "unheld s"
  shows "\<exists>s'. continue s = Inr s' \<and> lock_inv s'"
proof -
  let ?c = "running_thread (kth s)"
  let ?s = "goto AcqHolder ?c (s\<lparr>lk := (lk s)\<lparr>sem := (sem (lk s))\<lparr>svalue := 0\<rparr>\<rparr>\<rparr>)"
  have v1: "svalue (sem (lk s)) = 1" using v by (simp add: unheld_def)
  have e: "continue s = Inr ?s" using p by (simp add: continue_def Let_def sema_down_free [OF v1])
  note r = running_facts [OF inv]
  have q: "queue_ok s" using inv by (simp add: lock_inv_def)
  have down: "pc ?s t = AcqDown \<and> \<not> runnable (kth ?s) t \<longleftrightarrow> pc s t = AcqDown \<and> \<not> runnable (kth s) t" for t
    using r(2) by (auto simp: goto_def)
  have f: "kth ?s = kth s" "waiters (sem (lk ?s)) = waiters (sem (lk s))" by (simp_all add: goto_def)
  have "queue_ok ?s"
    using queue_okD [OF q] down unfolding queue_ok_def f by blast
  moreover have "wake_ok ?s" by (simp add: wake_ok_def goto_def)
  moreover have "held_by ?s ?c"
    using v down_other [OF inv p] p r(1)
    by (auto simp: held_by_def unheld_def other_ok_def owner_ok_def goto_def)
  moreover have "sched_inv (kth ?s)" using inv unfolding f by (simp add: lock_inv_def)
  ultimately have "lock_inv ?s" unfolding lock_inv_def by blast
  then show ?thesis using e by blast
qed

lemma continue_queued_inv:
  assumes inv: "lock_inv s" and p: "pc s (running_thread (kth s)) = AcqDown" and v: "svalue (sem (lk s)) = 0"
  shows "\<exists>s'. continue s = Inr s' \<and> lock_inv s'"
proof -
  let ?c = "running_thread (kth s)"
  let ?p = "(sem (lk s))\<lparr>waiters := waiters (sem (lk s)) @ [general_tag ?c]\<rparr>"
  have k: "sched_inv (kth s)" and q: "queue_ok s" using inv by (auto simp: lock_inv_def)
  note r = running_facts [OF inv] and Q = queue_okD [OF q]
  have nt: "general_tag ?c \<notin> set (waiters (sem (lk s)))" using Q(3) [OF r(1)] r(2) by simp
  have k0: "sched_inv ((kth s)\<lparr>intr := INTR_OFF\<rparr>)" using k by simp
  obtain k' where k': "thread_block TASK_BLOCKED ((kth s)\<lparr>intr := INTR_OFF\<rparr>) = Inr k'" "sched_inv k'"
    "same_parked (upd_task (status_update (\<lambda>_. TASK_BLOCKED)) ?c ((kth s)\<lparr>intr := INTR_OFF\<rparr>)) k'"
    using block_parked [OF k0, of TASK_BLOCKED] by (auto simp: waits_def)
  let ?s = "s\<lparr>kth := k', lk := (lk s)\<lparr>sem := ?p\<rparr>\<rparr>"
  have e: "continue s = Inr ?s"
    using p v nt k'(1) by (simp add: continue_def sema_down_def Let_def)
  note P = same_parkedD [OF k'(3)]
  have ni: "?c \<noteq> idle_thread (kth s)" using down_other [OF inv p] p by (simp add: other_ok_def)
  have lv: "live k' t = live (kth s) t" and id: "idle_thread k' = idle_thread (kth s)" for t
    using P(1,2) by simp_all
  have c: "\<not> runnable k' ?c" "status (tasks k' ?c) = TASK_BLOCKED"
    using P(3,4) [of ?c] r(1) ni by (auto simp: runnable_def)
  have o: "runnable k' t = runnable (kth s) t" "\<not> runnable k' t \<Longrightarrow> status (tasks k' t) = status (tasks (kth s) t)"
    if "live (kth s) t" "pc s t = AcqDown" "t \<noteq> ?c" for t
    using P(3,4) [of t] that down_other [OF inv that(2)] by (auto simp: runnable_def other_ok_def)
  have mem: "general_tag t \<in> set (waiters ?p) \<longleftrightarrow> pc s t = AcqDown \<and> \<not> runnable k' t"
    if t: "live (kth s) t" for t
    using Q(3) [OF t] o(1) [OF t] c p by (cases "t = ?c") auto
  have "queue_ok ?s"
    unfolding queue_ok_def
  proof (intro conjI ballI allI impI)
    show "distinct (waiters (sem (lk ?s)))" using Q(1) nt by simp
    show "\<exists>t. live (kth ?s) t \<and> tag = general_tag t" if "tag \<in> set (waiters (sem (lk ?s)))" for tag
      using that Q(2) [of tag] r(1) by (auto simp: lv)
    show "general_tag t \<in> set (waiters (sem (lk ?s))) \<longleftrightarrow> pc ?s t = AcqDown \<and> \<not> runnable (kth ?s) t"
      if "live (kth ?s) t" for t
      using mem [of t] that by (simp add: lv)
    show "status (tasks (kth ?s) t) = TASK_BLOCKED"
      if "live (kth ?s) t" "pc ?s t = AcqDown" "\<not> runnable (kth ?s) t" for t
      using that Q(4) [of t] o [of t] c by (cases "t = ?c") (auto simp: lv)
  qed
  moreover have "wake_ok ?s" using v by (simp add: wake_ok_def)
  moreover have "held_by ?s t" if "held_by s t" for t
    using that by (simp add: held_by_def other_ok_def owner_ok_def lv id)
  moreover have "\<not> unheld s" using v by (simp add: unheld_def)
  ultimately have "lock_inv ?s" using inv k'(2) by (auto simp: lock_inv_def)
  then show ?thesis using e by blast
qed


lemma continue_up_inv:
  assumes inv: "lock_inv s" and p: "pc s (running_thread (kth s)) = RelUp"
  shows "\<exists>s'. continue s = Inr s' \<and> lock_inv s'"
proof -
  let ?c = "running_thread (kth s)" and ?ws = "waiters (sem (lk s))"
  have k: "sched_inv (kth s)" and q: "queue_ok s" using inv by (auto simp: lock_inv_def)
  note r = running_facts [OF inv] and Q = queue_okD [OF q]
  have "\<not> other_ok s ?c" using p by (simp add: other_ok_def)
  then have h: "held_by s ?c" by (rule owner_running [OF inv])
  then have f: "svalue (sem (lk s)) = 0" "holder (lk s) = NULL" "holder_repeat_nr (lk s) = 0" "depth s ?c = 0"
    using p by (auto simp: held_by_def owner_ok_def u32_eq_iff)
  have others: "other_ok s u" if "u \<noteq> ?c" for u using h that by (simp add: held_by_def)
  show ?thesis
  proof (cases ?ws)
    case Nil
    let ?s = "goto Client ?c (s\<lparr>lk := (lk s)\<lparr>sem := (sem (lk s))\<lparr>svalue := 1\<rparr>\<rparr>\<rparr>)"
    have e: "continue s = Inr ?s"
      using p f Nil by (simp add: continue_def sema_up_def Let_def set_intr_def)
    have down: "pc ?s t = AcqDown \<longleftrightarrow> pc s t = AcqDown" for t
      using p by (simp add: goto_def)
    have g: "kth ?s = kth s" "waiters (sem (lk ?s)) = ?ws" by (simp_all add: goto_def)
    have "queue_ok ?s" unfolding queue_ok_def down g using Q by blast
    moreover have "wake_ok ?s" using Nil unfolding wake_ok_def g by simp
    moreover have "unheld ?s"
      using f others by (auto simp: unheld_def other_ok_def goto_def)
    moreover have "sched_inv (kth ?s)" unfolding g by (rule k)
    ultimately have "lock_inv ?s" unfolding lock_inv_def by blast
    then show ?thesis using e by blast
  next
    case (Cons tag rest)
    obtain w where w: "live (kth s) w" "tag = general_tag w" using Q(2) [of tag] Cons by auto
    have pw: "pc s w = AcqDown" "\<not> runnable (kth s) w" using Q(3) [OF w(1)] w(2) Cons by auto
    have bw: "waits (status (tasks (kth s) w))" using Q(4) [OF w(1) pw] by (simp add: waits_def)
    have pw': "pcb_of_tag tag = w" using w k sched_midD(1) [of "kth s" w] by (simp add: sched_inv_def)
    have k0: "sched_inv ((kth s)\<lparr>intr := INTR_OFF\<rparr>)" using k by simp
    obtain k' where k': "thread_unblock w ((kth s)\<lparr>intr := INTR_OFF\<rparr>) = Inr k'" "sched_inv k'"
      "same_parked (upd_task (status_update (\<lambda>_. TASK_READY)) w ((kth s)\<lparr>intr := INTR_OFF\<rparr>)) k'"
      using unblock_parked [OF k0, of w] w bw by auto
    let ?k = "set_intr (intr (kth s)) k'"
    let ?s = "goto Client ?c (s\<lparr>kth := ?k, lk := (lk s)\<lparr>sem := (sem (lk s))\<lparr>waiters := rest, svalue := 1\<rparr>\<rparr>\<rparr>)"
    have e: "continue s = Inr ?s"
      using p f Cons pw' k'(1) by (simp add: continue_def sema_up_def Let_def)
    note P = same_parkedD [OF k'(3)]
    have lv: "live ?k t = live (kth s) t" and id: "idle_thread ?k = idle_thread (kth s)" for t
      using P(1,2) by simp_all
    have wi: "w \<noteq> idle_thread (kth s)" using down_other [OF inv pw(1)] pw by (simp add: other_ok_def)
    have rw: "runnable ?k w" using P(3) [of w] w(1) wi by (simp add: runnable_def)
    have o: "runnable ?k t = runnable (kth s) t" "\<not> runnable ?k t \<Longrightarrow> status (tasks ?k t) = status (tasks (kth s) t)"
      if "live (kth s) t" "pc s t = AcqDown" "t \<noteq> w" for t
      using P(3,4) [of t] that down_other [OF inv that(2)] by (auto simp: runnable_def other_ok_def)
    have down: "pc ?s t = AcqDown \<longleftrightarrow> pc s t = AcqDown" for t
      using p by (simp add: goto_def)
    have g: "kth ?s = ?k" "waiters (sem (lk ?s)) = rest" by (simp_all add: goto_def)
    have mem: "general_tag t \<in> set rest \<longleftrightarrow> pc s t = AcqDown \<and> \<not> runnable ?k t"
      if t: "live (kth s) t" for t
      using Q(3) [OF t] o(1) [OF t] rw pw w(2) Q(1) Cons by (cases "t = w") auto
    have blk: "status (tasks ?k t) = TASK_BLOCKED"
      if "live (kth s) t" "pc s t = AcqDown" "\<not> runnable ?k t" for t
      using that Q(4) [of t] o [of t] rw by (cases "t = w") auto
    have "queue_ok ?s"
      unfolding queue_ok_def down g lv using Q(1,2) Cons mem blk by auto
    moreover have "wake_ok ?s" unfolding wake_ok_def down g lv using w(1) pw(1) rw by blast
    moreover have "unheld ?s"
      using f others P(1,2)
      by (auto simp: unheld_def other_ok_def goto_def)
    moreover have "sched_inv (kth ?s)" unfolding g using k'(2) by simp
    ultimately have "lock_inv ?s" unfolding lock_inv_def by blast
    then show ?thesis using e by blast
  qed
qed

lemma continue_inv:
  assumes inv: "lock_inv s"
  shows "\<exists>s'. continue s = Inr s' \<and> lock_inv s'"
proof -
  let ?p = "pc s (running_thread (kth s))"
  consider "?p = Client" | "?p = AcqDown" "unheld s" | "?p = AcqDown" "\<exists>t. held_by s t"
    | "?p = RelUp" | "?p \<notin> {Client, AcqDown, RelUp}"
    using inv by (auto simp: lock_inv_def)
  then show ?thesis
  proof cases
    case 1
    then show ?thesis using inv by (simp add: continue_def Let_def)
  next
    case 2
    then show ?thesis by (rule continue_taken_inv [OF inv])
  next
    case 3
    then have "svalue (sem (lk s)) = 0" by (auto simp: held_by_def)
    then show ?thesis by (rule continue_queued_inv [OF inv 3(1)])
  next
    case 4
    then show ?thesis by (rule continue_up_inv [OF inv])
  next
    case 5
    then show ?thesis by (rule continue_owner_inv [OF inv])
  qed
qed

lemma lock_event_inv:
  assumes inv: "lock_inv s" and ok: "lock_event_ok e s"
  shows "\<exists>s'. lock_event e s = Inr s' \<and> lock_inv s'"
proof -
  have k: "sched_inv (kth s)" using inv by (simp add: lock_inv_def)
  show ?thesis
  proof (cases e)
    case CallAcquire
    then show ?thesis using acquire_test_inv [OF inv] ok by (simp add: lock_event_def lock_event_ok_def Let_def)
  next
    case CallRelease
    then show ?thesis using release_test_inv [OF inv] ok by (simp add: lock_event_def lock_event_ok_def Let_def)
  next
    case Continue
    then show ?thesis using continue_inv [OF inv] by (simp add: lock_event_def)
  next
    case Tick
    then show ?thesis using tick_parked [OF k] lock_inv_parked [OF inv]
      by (auto simp: lock_event_def on_kth_def)
  next
    case (IntrFlag v)
    have "same_parked (kth s) ((kth s)\<lparr>intr := v\<rparr>)" by (simp add: same_parked_def runnable_def)
    then show ?thesis using IntrFlag lock_inv_parked [OF inv] k by (simp add: lock_event_def)
  next
    case (ClientBlock stat)
    then show ?thesis
      using block_parked [OF k, of stat] lock_inv_upd_client [OF inv] ok
      by (auto simp: lock_event_def lock_event_ok_def on_kth_def sched_event_def Let_def)
  next
    case (ClientUnblock t)
    then show ?thesis
      using unblock_parked [OF k, of t] lock_inv_upd_client [OF inv] ok
      by (auto simp: lock_event_def lock_event_ok_def on_kth_def sched_event_def Let_def)
  qed
qed

lemma lock_start_inv:
  assumes "lock_start s"
  shows "lock_inv s"
  using assms
  by (simp add: lock_start_def lock_inv_def lock_init_def sema_init_def queue_ok_def wake_ok_def unheld_def other_ok_def)

interpretation lock_sys: safe_system lock_start lock_step lock_inv
proof unfold_locales
  show "lock_inv s" if "lock_start s" for s by (rule lock_start_inv [OF that])
  show "lock_inv t" if "lock_inv s" "lock_step s t" for s t
    using that lock_event_inv [of s] by (fastforce simp: lock_step_def)
qed

section \<open>Properties\<close>

definition demo_sync :: sync where
  "demo_sync = \<lparr>kth = demo_threads, lk = lock_init, pc = (\<lambda>_. Client), depth = (\<lambda>_. 0)\<rparr>"

lemma demo_start: "lock_start demo_sync"
  by (simp add: lock_start_def demo_sync_def demo_inv)

lemma demo_reach: "reach lock_start lock_step demo_sync"
  by (rule reach_init) (rule demo_start)

text \<open>Two threads asking for the lock one after the other, with a tick between.\<close>

definition demo_run :: "lock_event list" where
  "demo_run = [CallAcquire, Continue, Continue, Continue, Tick, CallAcquire, Continue]"

fun lock_events :: "lock_event list \<Rightarrow> sync \<Rightarrow> sync res" where
  "lock_events [] s = Inr s"
| "lock_events (e # es) s = (if lock_event_ok e s then bindR (lock_event e s) (lock_events es) else Inl Blocked)"

lemma lock_events_reach:
  "reach lock_start lock_step s \<Longrightarrow> lock_events es s = Inr t \<Longrightarrow> reach lock_start lock_step t"
proof (induction es arbitrary: s)
  case Nil
  then show ?case by simp
next
  case (Cons e es)
  then obtain u where u: "lock_event_ok e s" "lock_event e s = Inr u" "lock_events es u = Inr t"
    by (auto simp: bindR_Inr_iff split: if_splits)
  then have "lock_step s u" by (auto simp: lock_step_def)
  then show ?case using Cons.IH [OF reach_step [OF Cons.prems(1)]] u(3) by blast
qed

text \<open>C1: Mutual exclusion of the lock, for every interleaving of the statements of lock_acquire and
  lock_release with timer ticks and blocking: at most one thread is between a lock_acquire that
  returned and the matching lock_release.\<close>
theorem lock_mutual_exclusion:
  assumes "reach lock_start lock_step s" "0 < depth s t" "0 < depth s u"
  shows "t = u"
proof -
  have "lock_inv s" by (rule lock_sys.reach_inv [OF assms(1)])
  then obtain v where "\<forall>w. w \<noteq> v \<longrightarrow> depth s w = 0"
    by (auto simp: lock_inv_def unheld_def held_by_def other_ok_def)
  then show ?thesis using assms(2,3) by (metis less_not_refl)
qed


lemma lock_mutual_exclusion_witness:
  "\<exists>s. lock_events demo_run demo_sync = Inr s \<and> 0 < depth s 0xc009e000 \<and> pc s 0xc0101000 = AcqDown
     \<and> (\<forall>u. 0 < depth s u \<longrightarrow> 0xc009e000 = u)"
proof -
  have "(case lock_events demo_run demo_sync of Inl _ \<Rightarrow> False
     | Inr s \<Rightarrow> 0 < depth s 0xc009e000 \<and> pc s 0xc0101000 = AcqDown)"
    by code_simp
  then obtain s where s: "lock_events demo_run demo_sync = Inr s" "0 < depth s 0xc009e000" "pc s 0xc0101000 = AcqDown"
    by (auto split: sum.splits)
  then show ?thesis
    using lock_mutual_exclusion [OF lock_events_reach [OF demo_reach s(1)] s(2)] by blast
qed

text \<open>C11: None of the assertions of sema_down, sema_up, lock_acquire, lock_release and of the scheduler
  under them fails, in any reachable interleaving of clients that release only what they acquired.\<close>
theorem lock_never_stops:
  assumes "reach lock_start lock_step s" "lock_event_ok e s"
  shows "is_ok (lock_event e s)"
  using lock_event_inv [OF lock_sys.reach_inv [OF assms(1)] assms(2)] by (auto simp: is_ok_iff)

lemma lock_never_stops_witness: "is_ok (lock_event CallAcquire demo_sync)"
proof (rule lock_never_stops [OF demo_reach])
  show "lock_event_ok CallAcquire demo_sync" by code_simp
qed

text \<open>C18: No wake-up is lost: when no thread has the lock or is on its way to take or give it, and some
  threads are queued on it, then a thread of the loop of sema_down is ready or running.\<close>
theorem lock_no_lost_wakeup:
  assumes "reach lock_start lock_step s" "waiters (sem (lk s)) \<noteq> []" "\<forall>t. depth s t = 0"
    "\<forall>t. pc s t = Client \<or> pc s t = AcqDown"
  shows "\<exists>t. live (kth s) t \<and> pc s t = AcqDown
     \<and> (status (tasks (kth s) t) = TASK_READY \<or> status (tasks (kth s) t) = TASK_RUNNING)"
proof -
  have inv: "lock_inv s" by (rule lock_sys.reach_inv [OF assms(1)])
  have "\<not> held_by s t" for t
  proof -
    have "\<not> owner_ok s t" using spec [OF assms(3), of t] spec [OF assms(4), of t]
      by (elim disjE) (simp_all add: owner_ok_def)
    then show ?thesis by (simp add: held_by_def)
  qed
  then have "unheld s" using inv by (simp add: lock_inv_def)
  moreover have "wake_ok s" using inv by (simp add: lock_inv_def)
  ultimately show ?thesis using assms(2) unfolding wake_ok_def runnable_def unheld_def by blast
qed

text \<open>A third thread asks too, then the first one releases the lock.\<close>

definition demo_wake :: "lock_event list" where
  "demo_wake = demo_run @ [CallAcquire, Continue, CallRelease, Continue, Continue, Continue]"

lemma lock_no_lost_wakeup_witness:
  "\<exists>s. lock_events demo_wake demo_sync = Inr s \<and> waiters (sem (lk s)) \<noteq> []
     \<and> (\<exists>t. live (kth s) t \<and> pc s t = AcqDown
       \<and> (status (tasks (kth s) t) = TASK_READY \<or> status (tasks (kth s) t) = TASK_RUNNING))"
proof -
  have "(case lock_events demo_wake demo_sync of Inl _ \<Rightarrow> False
     | Inr s \<Rightarrow> waiters (sem (lk s)) \<noteq> [] \<and> svalue (sem (lk s)) = 1)"
    by code_simp
  then obtain s where s: "lock_events demo_wake demo_sync = Inr s" "waiters (sem (lk s)) \<noteq> []"
    "svalue (sem (lk s)) = 1"
    by (auto split: sum.splits)
  have r: "reach lock_start lock_step s" by (rule lock_events_reach [OF demo_reach s(1)])
  have "unheld s" using lock_sys.reach_inv [OF r] s(3) by (auto simp: lock_inv_def held_by_def)
  then have "\<forall>t. depth s t = 0" "\<forall>t. pc s t = Client \<or> pc s t = AcqDown"
    by (auto simp: unheld_def other_ok_def)
  from lock_no_lost_wakeup [OF r s(2) this] show ?thesis using s(1,2) by blast
qed

text \<open>The lock is re-entrant: nested calls without a switch.\<close>

fun acquire_n :: "nat \<Rightarrow> lock \<Rightarrow> kthreads \<Rightarrow> (lock \<times> kthreads) res" where
  "acquire_n 0 l k = Inr (l, k)"
| "acquire_n (Suc n) l k = bindR (lock_acquire l k) (\<lambda>(l, k). acquire_n n l k)"

fun release_n :: "nat \<Rightarrow> lock \<Rightarrow> kthreads \<Rightarrow> (lock \<times> kthreads) res" where
  "release_n 0 l k = Inr (l, k)"
| "release_n (Suc n) l k = bindR (lock_release l k) (\<lambda>(l, k). release_n n l k)"

definition lock_held :: "addr \<Rightarrow> nat \<Rightarrow> lock" where
  "lock_held c n = \<lparr>sem = \<lparr>svalue = 0, waiters = []\<rparr>, holder = c, holder_repeat_nr = of_nat n\<rparr>"

lemma acquire_again:
  "acquire_n n (lock_held (running_thread k) m) k = Inr (lock_held (running_thread k) (m + n), k)"
proof (induction n arbitrary: m)
  case 0
  then show ?case by simp
next
  case (Suc n)
  have "lock_acquire (lock_held (running_thread k) m) k = Inr (lock_held (running_thread k) (Suc m), k)"
    by (simp add: lock_acquire_def lock_held_def add.commute)
  then show ?case using Suc.IH [of "Suc m"] by simp
qed

lemma acquire_first:
  assumes "running_thread k \<noteq> NULL"
  shows "lock_acquire lock_init k = Inr (lock_held (running_thread k) 1, k)"
  using assms
  by (simp add: lock_acquire_def lock_init_def sema_init_def lock_held_def sema_down_free)

lemma release_last: "lock_release (lock_held (running_thread k) 1) k = Inr (lock_init, k)"
  by (simp add: lock_release_def lock_held_def sema_up_def lock_init_def sema_init_def set_intr_def Let_def)

lemma release_all:
  assumes "0 < n" "n < 4294967296"
  shows "release_n n (lock_held (running_thread k) n) k = Inr (lock_init, k)"
  using assms
proof (induction n)
  case 0
  then show ?case by simp
next
  case (Suc n)
  have u: "unat (of_nat (Suc n) :: u32) = Suc n" using Suc.prems by (intro unat_of_nat_u32) simp
  show ?case
  proof (cases "n = 0")
    case True
    then show ?thesis
      by (simp add: lock_release_def lock_held_def sema_up_def lock_init_def sema_init_def set_intr_def Let_def)
  next
    case False
    have g: "(1 :: u32) < of_nat (Suc n)" unfolding word_less_nat_alt u using False by simp
    have "lock_release (lock_held (running_thread k) (Suc n)) k = Inr (lock_held (running_thread k) n, k)"
      using g by (simp add: lock_release_def lock_held_def)
    then show ?thesis using Suc False by simp
  qed
qed

text \<open>The lock counts its nested acquisitions: a thread that acquires a free lock n times holds it
  with the count n and the semaphore at 0, and gives it back free after n releases, and not before.\<close>
theorem lock_nesting:
  assumes "running_thread k \<noteq> NULL" "0 < n" "n < 4294967296"
  shows "\<exists>l. acquire_n n lock_init k = Inr (l, k) \<and> holder l = running_thread k
     \<and> unat (holder_repeat_nr l) = n \<and> svalue (sem l) = 0 \<and> release_n n l k = Inr (lock_init, k)"
proof -
  obtain m where m: "n = Suc m" using assms(2) by (cases n) auto
  have "acquire_n n lock_init k = Inr (lock_held (running_thread k) n, k)"
    using acquire_first [OF assms(1)] acquire_again [of m k 1] m by simp
  moreover have "unat (of_nat n :: u32) = n" by (rule unat_of_nat_u32 [OF assms(3)])
  ultimately show ?thesis using release_all [OF assms(2,3)] by (simp add: lock_held_def)
qed

lemma lock_nesting_witness:
  "\<exists>l. acquire_n 3 lock_init demo_threads = Inr (l, demo_threads) \<and> unat (holder_repeat_nr l) = 3
     \<and> release_n 3 l demo_threads = Inr (lock_init, demo_threads)"
  using lock_nesting [of demo_threads 3] by (auto simp: demo_threads_def)

end
