(* ===== verification/Memory.thy ===== *)
theory Memory
  imports Sync Bitmap Cstring
begin

text \<open>
  kernel/memory.c: the two physical page pools, the virtual address pools, the page tables filled
  through the recursive window, whole-page allocation, and the arenas behind sys_malloc. The state
  extends the scheduler's, since the running task selects the pool and the locks name their holder.
  A struct arena is the typed object at the start of its page; a free list is the sequence of the
  addresses of its blocks, which is what lib/kernel/list.c implements (theory Klist).
\<close>

section \<open>State\<close>

datatype pool_flags = PF_KERNEL | PF_USER

record pool =
  pool_bitmap :: bitmap
  bitmap_at :: addr          \<comment> \<open>the pointer pool_bitmap.btmp_bits\<close>
  plock :: lock
  phy_addr_start :: addr
  pool_size :: u32

record virtual_addr =
  vaddr_bitmap :: bitmap
  vaddr_start :: addr

record mem_block_desc =
  block_size :: u32
  block_per_arena :: u32
  free_list :: "addr list"

datatype desc_ptr = KDesc nat | UDesc addr nat

record arena =
  adesc :: "desc_ptr option"
  large :: bool
  acnt :: u32

record memory = kthreads +
  kernel_pool :: pool
  user_pool :: pool
  kernel_vaddr :: virtual_addr
  userprog_vaddr :: "addr \<Rightarrow> virtual_addr"
  k_block_descs :: "mem_block_desc list"
  u_block_desc :: "addr \<Rightarrow> mem_block_desc list"
  arenas :: "addr \<Rightarrow> arena"
  bytes :: mem

definition K_HEAP_START :: addr where "K_HEAP_START = 0xc0100000"
definition MEM_BITMAP_BASE :: addr where "MEM_BITMAP_BASE = 0xc009a000"
definition DESC_CNT :: nat where "DESC_CNT = 7"
definition sizeof_arena :: u32 where "sizeof_arena = 12"

definition vaddr_pool :: "pool_flags \<Rightarrow> memory \<Rightarrow> virtual_addr" where
  "vaddr_pool pf s = (case pf of PF_KERNEL \<Rightarrow> kernel_vaddr s
                                | PF_USER \<Rightarrow> userprog_vaddr s (running_thread s))"

definition set_vaddr_bitmap :: "pool_flags \<Rightarrow> bitmap \<Rightarrow> memory \<Rightarrow> memory" where
  "set_vaddr_bitmap pf bm s = (case pf of
      PF_KERNEL \<Rightarrow> s\<lparr>kernel_vaddr := (kernel_vaddr s)\<lparr>vaddr_bitmap := bm\<rparr>\<rparr>
    | PF_USER \<Rightarrow> s\<lparr>userprog_vaddr := (userprog_vaddr s)(running_thread s :=
        (userprog_vaddr s (running_thread s))\<lparr>vaddr_bitmap := bm\<rparr>)\<rparr>)"

definition mem_pool :: "pool_flags \<Rightarrow> memory \<Rightarrow> pool" where
  "mem_pool pf s = (case pf of PF_KERNEL \<Rightarrow> kernel_pool s | PF_USER \<Rightarrow> user_pool s)"

definition set_mem_pool :: "pool_flags \<Rightarrow> pool \<Rightarrow> memory \<Rightarrow> memory" where
  "set_mem_pool pf p s = (case pf of PF_KERNEL \<Rightarrow> s\<lparr>kernel_pool := p\<rparr> | PF_USER \<Rightarrow> s\<lparr>user_pool := p\<rparr>)"

section \<open>Virtual addresses\<close>

text \<open>The loops that set or clear n bits from start + cnt on.\<close>

fun bitmap_set_run :: "bitmap \<Rightarrow> u32 \<Rightarrow> u8 \<Rightarrow> u32 \<Rightarrow> nat \<Rightarrow> bitmap res" where
  "bitmap_set_run bm bit_idx_start v cnt 0 = Inr bm"
| "bitmap_set_run bm bit_idx_start v cnt (Suc n) =
     bindR (bitmap_set bm (bit_idx_start + cnt) v) (\<lambda>bm. bitmap_set_run bm bit_idx_start v (cnt + 1) n)"

definition vaddr_get :: "pool_flags \<Rightarrow> u32 \<Rightarrow> memory \<Rightarrow> (addr \<times> memory) res" where
  "vaddr_get pf pg_cnt s =
     (let vp = vaddr_pool pf s in
      bindR (bitmap_scan (vaddr_bitmap vp) pg_cnt) (\<lambda>bit_idx_start.
        if bit_idx_start = - 1 then Inr (NULL, s)
        else bindR (bitmap_set_run (vaddr_bitmap vp) bit_idx_start 1 0 (unat pg_cnt)) (\<lambda>bm.
          let va = vaddr_start vp + bit_idx_start * PG_SIZE;
              s = set_vaddr_bitmap pf bm s
          in if pf = PF_USER \<and> \<not> va < 0xc0000000 - PG_SIZE
             then Inl (Assertion ''(uint32_t)vaddr_start < (0xc0000000 - PG_SIZE)'')
             else Inr (va, s))))"

definition vaddr_remove :: "pool_flags \<Rightarrow> addr \<Rightarrow> u32 \<Rightarrow> memory \<Rightarrow> memory res" where
  "vaddr_remove pf va pg_cnt s =
     (let vp = vaddr_pool pf s;
          bit_idx_start = (va - vaddr_start vp) div PG_SIZE
      in bindR (bitmap_set_run (vaddr_bitmap vp) bit_idx_start 0 0 (unat pg_cnt)) (\<lambda>bm.
           Inr (set_vaddr_bitmap pf bm s)))"

section \<open>Physical pages and page tables\<close>

definition palloc :: "pool \<Rightarrow> (addr \<times> pool) res" where
  "palloc m_pool =
     bindR (bitmap_scan (pool_bitmap m_pool) 1) (\<lambda>bit_idx.
       if bit_idx = - 1 then Inr (NULL, m_pool)
       else bindR (bitmap_set (pool_bitmap m_pool) bit_idx 1) (\<lambda>bm.
         let page_phyaddr = phy_addr_start m_pool + bit_idx * PG_SIZE
         in Inr (page_phyaddr, m_pool\<lparr>pool_bitmap := bm\<rparr>)))"

definition pfree :: "addr \<Rightarrow> memory \<Rightarrow> memory res" where
  "pfree pg_phy_addr s =
     (let pf = (if phy_addr_start (user_pool s) \<le> pg_phy_addr then PF_USER else PF_KERNEL);
          p = mem_pool pf s;
          bit_idx = (pg_phy_addr - phy_addr_start p) div PG_SIZE
      in bindR (bitmap_set (pool_bitmap p) bit_idx 0) (\<lambda>bm.
           Inr (set_mem_pool pf (p\<lparr>pool_bitmap := bm\<rparr>) s)))"

definition zero_page :: "ptab \<Rightarrow> addr \<Rightarrow> ptab" where
  "zero_page pt base = (\<lambda>a. if a AND 0xfffff000 = base then 0 else pt a)"

definition page_table_add :: "addr \<Rightarrow> addr \<Rightarrow> memory \<Rightarrow> memory res" where
  "page_table_add va page_phyaddr s =
     (let pde = pde_ptr va; pte = pte_ptr va in
      if present (ptab s pde) then
        (if present (ptab s pte) then Inl (Assertion ''!(*pte & 0x00000001)'')
         else Inr (s\<lparr>ptab := (ptab s)(pte := pg_entry page_phyaddr)\<rparr>))
      else
        bindR (palloc (kernel_pool s)) (\<lambda>(pde_phyaddr, kp).
          let pt = (ptab s)(pde := pg_entry pde_phyaddr);
              pt = zero_page pt (pte AND 0xfffff000)
          in if present (pt pte) then Inl (Assertion ''!(*pte & 0x00000001)'')
             else Inr (s\<lparr>kernel_pool := kp, ptab := pt(pte := pg_entry page_phyaddr)\<rparr>)))"

section \<open>Whole pages\<close>

text \<open>The loop of malloc_page; False when palloc returned NULL.\<close>

fun malloc_page_loop :: "pool_flags \<Rightarrow> nat \<Rightarrow> addr \<Rightarrow> memory \<Rightarrow> (bool \<times> memory) res" where
  "malloc_page_loop pf 0 va s = Inr (True, s)"
| "malloc_page_loop pf (Suc cnt) va s =
     bindR (palloc (mem_pool pf s)) (\<lambda>(page_phyaddr, p).
       let s = set_mem_pool pf p s in
       if page_phyaddr = NULL then Inr (False, s)
       else bindR (page_table_add va page_phyaddr s) (\<lambda>s. malloc_page_loop pf cnt (va + PG_SIZE) s))"

definition malloc_page :: "pool_flags \<Rightarrow> u32 \<Rightarrow> memory \<Rightarrow> (addr \<times> memory) res" where
  "malloc_page pf pg_cnt s =
     (if \<not> (pg_cnt > 0 \<and> pg_cnt < 3840) then Inl (Assertion ''pg_cnt > 0 && pg_cnt < 3840'')
      else bindR (vaddr_get pf pg_cnt s) (\<lambda>(vaddr_start, s).
        if vaddr_start = NULL then Inr (NULL, s)
        else bindR (malloc_page_loop pf (unat pg_cnt) vaddr_start s) (\<lambda>(ok, s).
          Inr (if ok then vaddr_start else NULL, s))))"

definition memset_bytes :: "addr \<Rightarrow> u8 \<Rightarrow> u32 \<Rightarrow> memory \<Rightarrow> memory res" where
  "memset_bytes dst v sz s = bindR (memset (bytes s) dst v sz) (\<lambda>m. Inr (s\<lparr>bytes := m\<rparr>))"

definition get_kernel_pages :: "u32 \<Rightarrow> memory \<Rightarrow> (addr \<times> memory) res" where
  "get_kernel_pages pg_cnt s =
     bindR (malloc_page PF_KERNEL pg_cnt s) (\<lambda>(va, s).
       if va \<noteq> NULL then bindR (memset_bytes va 0 (pg_cnt * PG_SIZE) s) (\<lambda>s. Inr (va, s))
       else Inr (va, s))"

definition pool_lock :: "pool_flags \<Rightarrow> memory \<Rightarrow> memory res" where
  "pool_lock pf s = bindR (lock_acquire (plock (mem_pool pf s)) s) (\<lambda>(l, s).
     Inr (set_mem_pool pf ((mem_pool pf s)\<lparr>plock := l\<rparr>) s))"

definition pool_unlock :: "pool_flags \<Rightarrow> memory \<Rightarrow> memory res" where
  "pool_unlock pf s = bindR (lock_release (plock (mem_pool pf s)) s) (\<lambda>(l, s).
     Inr (set_mem_pool pf ((mem_pool pf s)\<lparr>plock := l\<rparr>) s))"

definition get_user_page :: "u32 \<Rightarrow> memory \<Rightarrow> (addr \<times> memory) res" where
  "get_user_page pg_cnt s =
     bindR (pool_lock PF_USER s) (\<lambda>s.
     bindR (malloc_page PF_USER pg_cnt s) (\<lambda>(va, s).
     bindR (if va \<noteq> NULL then memset_bytes va 0 (pg_cnt * PG_SIZE) s else Inr s) (\<lambda>s.
     bindR (pool_unlock PF_USER s) (\<lambda>s. Inr (va, s)))))"

definition get_a_page :: "pool_flags \<Rightarrow> addr \<Rightarrow> memory \<Rightarrow> (addr \<times> memory) res" where
  "get_a_page pf va s =
     bindR (pool_lock pf s) (\<lambda>s.
       let pd = pgdir (tasks s (running_thread s)); vp = vaddr_pool pf s in
       if \<not> (pd \<noteq> NULL \<and> pf = PF_USER \<or> pd = NULL \<and> pf = PF_KERNEL)
       then Inl (Panicked ''get_a_page:not allow kernel alloc userspace or user alloc kernelspace by get_a_page'')
       else let bit_idx = (va - vaddr_start vp) div PG_SIZE in
         if \<not> 0 < sint bit_idx then Inl (Assertion ''bit_idx > 0'')
         else bindR (bitmap_set (vaddr_bitmap vp) bit_idx 1) (\<lambda>bm.
           let s = set_vaddr_bitmap pf bm s in
           bindR (palloc (mem_pool pf s)) (\<lambda>(page_phyaddr, p).
             let s = set_mem_pool pf p s in
             if page_phyaddr = NULL then Inr (NULL, s)
             else bindR (page_table_add va page_phyaddr s) (\<lambda>s.
                  bindR (pool_unlock pf s) (\<lambda>s. Inr (va, s))))))"

text \<open>The loop of mfree_page; the check of the frame depends on the pool of the first page.\<close>

fun mfree_page_loop :: "bool \<Rightarrow> nat \<Rightarrow> addr \<Rightarrow> memory \<Rightarrow> memory res" where
  "mfree_page_loop user 0 va s = Inr s"
| "mfree_page_loop user (Suc cnt) va s =
     (let va = va + PG_SIZE;
          pg_phy_addr = addr_v2p (ptab s) va
      in if \<not> ((if user then phy_addr_start (user_pool s) \<le> pg_phy_addr
                else phy_addr_start (kernel_pool s) \<le> pg_phy_addr
                     \<and> pg_phy_addr < phy_addr_start (user_pool s))
               \<and> pg_phy_addr mod PG_SIZE = 0)
         then Inl (Assertion ''pg_phy_addr is a page of the pool'')
         else bindR (pfree pg_phy_addr s) (\<lambda>s.
           mfree_page_loop user cnt va (s\<lparr>ptab := page_table_pte_remove (ptab s) va\<rparr>)))"

definition mfree_page :: "pool_flags \<Rightarrow> addr \<Rightarrow> u32 \<Rightarrow> memory \<Rightarrow> memory res" where
  "mfree_page pf va pg_cnt s =
     (if \<not> (1 \<le> pg_cnt \<and> va mod PG_SIZE = 0) then Inl (Assertion ''pg_cnt >= 1 && (vaddr % PG_SIZE) == 0'')
      else let pg_phy_addr = addr_v2p (ptab s) va in
        if \<not> (0x102000 \<le> pg_phy_addr \<and> pg_phy_addr mod PG_SIZE = 0)
        then Inl (Assertion ''pg_phy_addr >= 0x102000 && (pg_phy_addr % PG_SIZE) == 0'')
        else bindR (mfree_page_loop (phy_addr_start (user_pool s) \<le> pg_phy_addr) (unat pg_cnt) (va - PG_SIZE) s)
               (vaddr_remove pf va pg_cnt))"

section \<open>mem_pool_init\<close>

text \<open>The three bitmaps lie one after the other from MEM_BITMAP_BASE; m is what the bytes hold.\<close>

definition bitmap_on :: "mem \<Rightarrow> addr \<Rightarrow> u32 \<Rightarrow> bitmap" where
  "bitmap_on m at_addr len = \<lparr>btmp_bytes_len = len, btmp_bits = map (\<lambda>i. m (at_addr + of_nat i)) [0..<unat len]\<rparr>"

definition mem_pool_init :: "u32 \<Rightarrow> memory \<Rightarrow> memory res" where
  "mem_pool_init all_mem s =
     (let page_table_size = 256 * PG_SIZE;
          used_mem = page_table_size + 0x100000;
          free_mem = all_mem - used_mem;
          all_free_pages = (ucast (free_mem div PG_SIZE) :: u16);
          kernel_free_pages = all_free_pages div 2;
          user_free_pages = all_free_pages - kernel_free_pages;
          kbm_len = (ucast (kernel_free_pages div 8) :: u32);
          ubm_len = (ucast (user_free_pages div 8) :: u32);
          kp_start = used_mem;
          up_start = kp_start + ucast kernel_free_pages * PG_SIZE
      in
        bindR (bitmap_init (bitmap_on (bytes s) MEM_BITMAP_BASE kbm_len)) (\<lambda>kbm.
        bindR (bitmap_init (bitmap_on (bytes s) (MEM_BITMAP_BASE + kbm_len) ubm_len)) (\<lambda>ubm.
        bindR (bitmap_init (bitmap_on (bytes s) (MEM_BITMAP_BASE + kbm_len + ubm_len) kbm_len)) (\<lambda>vbm.
        Inr (s\<lparr>kernel_pool := \<lparr>pool_bitmap = kbm, bitmap_at = MEM_BITMAP_BASE, plock = lock_init,
                   phy_addr_start = kp_start, pool_size = ucast kernel_free_pages * PG_SIZE\<rparr>,
               user_pool := \<lparr>pool_bitmap = ubm, bitmap_at = MEM_BITMAP_BASE + kbm_len, plock = lock_init,
                   phy_addr_start = up_start, pool_size = ucast user_free_pages * PG_SIZE\<rparr>,
               kernel_vaddr := \<lparr>vaddr_bitmap = vbm, vaddr_start = K_HEAP_START\<rparr>\<rparr>)))))"

section \<open>What a page pool promises\<close>

text \<open>Page i of a pool is the frame at phy_addr_start + 4096 i; its bit is set when it is allocated.\<close>

definition frame :: "pool \<Rightarrow> nat \<Rightarrow> addr" where
  "frame p i = phy_addr_start p + of_nat i * PG_SIZE"

definition frame_index :: "pool \<Rightarrow> addr \<Rightarrow> nat" where
  "frame_index p a = unat ((a - phy_addr_start p) div PG_SIZE)"

definition pool_ok :: "pool \<Rightarrow> bool" where
  "pool_ok p \<longleftrightarrow> bm_wf (pool_bitmap p) \<and> page_aligned (phy_addr_start p) \<and> phy_addr_start p \<noteq> NULL
     \<and> unat (phy_addr_start p) + 4096 * bm_size (pool_bitmap p) \<le> 4294967296"

lemma unat_frame:
  assumes "pool_ok p" "i < bm_size (pool_bitmap p)"
  shows "unat (frame p i) = unat (phy_addr_start p) + 4096 * i"
proof -
  have b: "unat (phy_addr_start p) + 4096 * bm_size (pool_bitmap p) \<le> 4294967296"
    using assms(1) by (simp add: pool_ok_def)
  have i: "unat (of_nat i :: u32) = i" using b assms(2) by (intro unat_of_nat_u32) simp
  have m: "unat (of_nat i * PG_SIZE :: u32) = 4096 * i"
    using b assms(2) i by (subst unat_mult_u32) (simp_all add: PG_SIZE_def)
  show ?thesis unfolding frame_def using b assms(2) m by (subst unat_add_u32) simp_all
qed

lemma frame_index_frame:
  assumes "pool_ok p" "i < bm_size (pool_bitmap p)"
  shows "frame_index p (frame p i) = i"
proof -
  have b: "unat (phy_addr_start p) + 4096 * bm_size (pool_bitmap p) \<le> 4294967296"
    using assms(1) by (simp add: pool_ok_def)
  have i: "unat (of_nat i :: u32) = i" using b assms(2) by (intro unat_of_nat_u32) simp
  have "unat (of_nat i * PG_SIZE :: u32) = 4096 * i"
    using b assms(2) i by (subst unat_mult_u32) (simp_all add: PG_SIZE_def)
  then show ?thesis by (simp add: frame_index_def frame_def unat_div PG_SIZE_def)
qed

lemma frame_ne_NULL:
  assumes "pool_ok p" "i < bm_size (pool_bitmap p)"
  shows "frame p i \<noteq> NULL"
proof -
  have "unat (phy_addr_start p) \<noteq> 0" using assms(1) by (auto simp: pool_ok_def unat_eq_zero)
  then have "unat (frame p i) \<noteq> unat (NULL :: addr)" using unat_frame [OF assms] by simp
  then show ?thesis by metis
qed

lemma frame_aligned:
  assumes "pool_ok p" "i < bm_size (pool_bitmap p)"
  shows "page_aligned (frame p i)"
  using assms unat_frame [OF assms] by (simp add: pool_ok_def aligned_unat mod_add_eq [symmetric])

text \<open>palloc takes the first clear bit and nothing else; it never returns NULL.\<close>

definition take_page :: "pool \<Rightarrow> nat \<Rightarrow> pool" where
  "take_page p i = p\<lparr>pool_bitmap := bm_upd (pool_bitmap p) i True\<rparr>"

lemma palloc_cases:
  assumes ok: "pool_ok p"
  shows "palloc p = Inr (a, p') \<longleftrightarrow> (\<exists>i < bm_size (pool_bitmap p). \<not> bm_bit (pool_bitmap p) i
     \<and> (\<forall>j<i. bm_bit (pool_bitmap p) j) \<and> a = frame p i \<and> p' = take_page p i)"
    (is "?L \<longleftrightarrow> ?R")
proof -
  have wf: "bm_wf (pool_bitmap p)" using ok by (simp add: pool_ok_def)
  let ?b = "pool_bitmap p"
  have scan: "palloc p = Inr (frame p i, take_page p i)"
    if i: "i < bm_size ?b" "\<not> bm_bit ?b i" "\<forall>j<i. bm_bit ?b j" for i
  proof -
    have f: "free_run ?b i 1" using i by (simp add: free_run_1)
    obtain k where k: "bitmap_scan ?b 1 = Inr k"
      using bitmap_scan_complete [OF wf, of 1 i] f by auto
    have "free_run ?b (unat k) 1" "unat k \<le> i" "k \<noteq> - 1"
      using bitmap_scan_sound [OF wf _ k] f by auto
    then have u: "unat k = i" "k \<noteq> - 1" using i(3) by (auto simp: free_run_1 le_less)
    then have "k = of_nat i" by auto
    then show ?thesis
      using k u i(1) by (simp add: palloc_def bitmap_set_eq [OF wf] frame_def take_page_def)
  qed
  show ?thesis
  proof
    assume ?R
    then show ?L using scan by auto
  next
    assume L: ?L
    then obtain k where k: "bitmap_scan ?b 1 = Inr k" by (auto simp: palloc_def bindR_Inr_iff)
    have "free_run ?b (unat k) 1" and m: "\<And>j. free_run ?b j 1 \<Longrightarrow> unat k \<le> j"
      using bitmap_scan_sound [OF wf _ k] by auto
    then have i: "unat k < bm_size ?b" "\<not> bm_bit ?b (unat k)" by (auto simp: free_run_1)
    have "bm_bit ?b j" if "j < unat k" for j
      using m [of j] i(1) that by (cases "bm_bit ?b j") auto
    then show ?R using scan [of "unat k"] i L by auto
  qed
qed


definition pools_ok :: "memory \<Rightarrow> bool" where
  "pools_ok s \<longleftrightarrow> pool_ok (kernel_pool s) \<and> pool_ok (user_pool s)
     \<and> unat (phy_addr_start (kernel_pool s)) + 4096 * bm_size (pool_bitmap (kernel_pool s))
         \<le> unat (phy_addr_start (user_pool s))"

definition page_used :: "pool_flags \<Rightarrow> memory \<Rightarrow> nat \<Rightarrow> bool" where
  "page_used pf s = bm_bit (pool_bitmap (mem_pool pf s))"

definition pool_pages :: "pool_flags \<Rightarrow> memory \<Rightarrow> nat" where
  "pool_pages pf s = bm_size (pool_bitmap (mem_pool pf s))"

definition page_index :: "pool_flags \<Rightarrow> memory \<Rightarrow> addr \<Rightarrow> nat" where
  "page_index pf s = frame_index (mem_pool pf s)"

definition palloc_in :: "pool_flags \<Rightarrow> memory \<Rightarrow> (addr \<times> memory) res" where
  "palloc_in pf s = bindR (palloc (mem_pool pf s)) (\<lambda>(a, p). Inr (a, set_mem_pool pf p s))"

lemma mem_pool_set [simp]:
  "mem_pool pf (set_mem_pool pf' p s) = (if pf = pf' then p else mem_pool pf s)"
  "kernel_pool (set_mem_pool PF_KERNEL p s) = p" "user_pool (set_mem_pool PF_KERNEL p s) = user_pool s"
  "user_pool (set_mem_pool PF_USER p s) = p" "kernel_pool (set_mem_pool PF_USER p s) = kernel_pool s"
  by (cases pf; cases pf'; simp add: mem_pool_def set_mem_pool_def)+

lemma take_page_simps [simp]:
  "phy_addr_start (take_page p i) = phy_addr_start p"
  "plock (take_page p i) = plock p"
  "bm_size (pool_bitmap (take_page p i)) = bm_size (pool_bitmap p)"
  "pool_ok (take_page p i) = pool_ok p"
  "frame_index (take_page p i) = frame_index p"
  by (simp_all add: take_page_def pool_ok_def frame_index_def fun_eq_iff)

lemma pools_ok_pool: "pools_ok s \<Longrightarrow> pool_ok (mem_pool pf s)"
  by (cases pf) (simp_all add: pools_ok_def mem_pool_def)

lemma palloc_in_cases:
  assumes "pools_ok s"
  shows "palloc_in pf s = Inr (a, s') \<longleftrightarrow> (\<exists>i < pool_pages pf s. \<not> page_used pf s i
     \<and> (\<forall>j<i. page_used pf s j) \<and> a = frame (mem_pool pf s) i
     \<and> s' = set_mem_pool pf (take_page (mem_pool pf s) i) s)"
  using palloc_cases [OF pools_ok_pool [OF assms, of pf]]
  by (auto simp: palloc_in_def bindR_Inr_iff pool_pages_def page_used_def)

lemma pools_ok_set:
  assumes "pools_ok s" "phy_addr_start p = phy_addr_start (mem_pool pf s)"
    "bm_size (pool_bitmap p) = bm_size (pool_bitmap (mem_pool pf s))" "bm_wf (pool_bitmap p)"
  shows "pools_ok (set_mem_pool pf p s)"
  using assms by (cases pf) (auto simp: pools_ok_def mem_pool_def set_mem_pool_def pool_ok_def)

text \<open>pfree finds the pool of a frame by its address.\<close>

lemma pfree_frame:
  assumes ok: "pools_ok s" and i: "page_index pf s a < pool_pages pf s"
  shows "pfree a s = Inr (set_mem_pool pf
     ((mem_pool pf s)\<lparr>pool_bitmap := bm_upd (pool_bitmap (mem_pool pf s)) (page_index pf s a) False\<rparr>) s)"
proof -
  let ?p = "mem_pool pf s" and ?k = "kernel_pool s" and ?u = "user_pool s"
  have p: "pool_ok ?p" by (rule pools_ok_pool [OF ok])
  then have wf: "bm_wf (pool_bitmap ?p)" by (simp add: pool_ok_def)
  have b: "unat (phy_addr_start ?p) + 4096 * bm_size (pool_bitmap ?p) \<le> 4294967296"
    using p by (simp add: pool_ok_def)
  let ?d = "a - phy_addr_start ?p"
  have "unat ?d div 4096 < bm_size (pool_bitmap ?p)"
    using i by (simp add: page_index_def frame_index_def pool_pages_def unat_div PG_SIZE_def)
  then have d: "unat ?d < 4096 * bm_size (pool_bitmap ?p)" by (simp add: less_mult_imp_div_less div_less_iff_less_mult mult.commute)
  have "unat (phy_addr_start ?p + ?d) = unat (phy_addr_start ?p) + unat ?d"
    using b d by (intro unat_add_u32) simp
  then have a: "unat a = unat (phy_addr_start ?p) + unat ?d" by simp
  have sel: "(if phy_addr_start ?u \<le> a then PF_USER else PF_KERNEL) = pf"
    using a d ok by (cases pf) (auto simp: word_le_nat_alt pools_ok_def mem_pool_def)
  show ?thesis
    unfolding pfree_def sel Let_def
    using i by (simp add: bitmap_set_eq [OF wf] page_index_def frame_index_def pool_pages_def)
qed

lemma page_allocator: "slot_allocator pools_ok (pool_pages pf) (page_used pf) (palloc_in pf) (\<lambda>s a. pfree a s) (page_index pf)"
proof
  fix s i assume ok: "pools_ok s" and i: "i < pool_pages pf s" "\<not> page_used pf s i"
  let ?i = "LEAST i. \<not> page_used pf s i"
  have "\<not> page_used pf s ?i" using i(2) by (rule LeastI)
  moreover have "?i < pool_pages pf s" using Least_le [of "\<lambda>i. \<not> page_used pf s i", OF i(2)] i(1) by simp
  moreover have "\<forall>j<?i. page_used pf s j" using not_less_Least by blast
  ultimately show "\<exists>r s'. palloc_in pf s = Inr (r, s')" using palloc_in_cases [OF ok] by blast
next
  fix s r s' assume ok: "pools_ok s" and a: "palloc_in pf s = Inr (r, s')"
  obtain i where i: "i < pool_pages pf s" "\<not> page_used pf s i" "r = frame (mem_pool pf s) i"
    "s' = set_mem_pool pf (take_page (mem_pool pf s) i) s"
    using a palloc_in_cases [OF ok] by blast
  have p: "pool_ok (mem_pool pf s)" by (rule pools_ok_pool [OF ok])
  have r: "page_index pf s r = i"
    using frame_index_frame [OF p] i(1,3) by (simp add: page_index_def pool_pages_def)
  have "pools_ok s'" unfolding i(4) using p by (intro pools_ok_set [OF ok]) (simp_all add: pool_ok_def take_page_def)
  then show "page_index pf s r < pool_pages pf s \<and> \<not> page_used pf s (page_index pf s r)
      \<and> page_used pf s' = (page_used pf s)(page_index pf s r := True)
      \<and> pool_pages pf s' = pool_pages pf s \<and> page_index pf s' = page_index pf s \<and> pools_ok s'"
    using i(1,2) unfolding r i(4)
    by (simp add: page_used_def pool_pages_def page_index_def) (simp add: take_page_def)
next
  fix s r assume ok: "pools_ok s" and r: "page_index pf s r < pool_pages pf s"
  let ?p = "(mem_pool pf s)\<lparr>pool_bitmap := bm_upd (pool_bitmap (mem_pool pf s)) (page_index pf s r) False\<rparr>"
  have "pool_ok (mem_pool pf s)" by (rule pools_ok_pool [OF ok])
  then have "pools_ok (set_mem_pool pf ?p s)" by (intro pools_ok_set [OF ok]) (simp_all add: pool_ok_def)
  then show "\<exists>s'. pfree r s = Inr s' \<and> page_used pf s' = (page_used pf s)(page_index pf s r := False)
      \<and> pool_pages pf s' = pool_pages pf s \<and> page_index pf s' = page_index pf s \<and> pools_ok s'"
    using pfree_frame [OF ok r] r
    by (simp add: page_used_def pool_pages_def page_index_def frame_index_def fun_eq_iff)
qed

interpretation kernel_pages: slot_allocator pools_ok "pool_pages PF_KERNEL" "page_used PF_KERNEL"
    "palloc_in PF_KERNEL" "\<lambda>s a. pfree a s" "page_index PF_KERNEL"
  by (rule page_allocator)

interpretation user_pages: slot_allocator pools_ok "pool_pages PF_USER" "page_used PF_USER"
    "palloc_in PF_USER" "\<lambda>s a. pfree a s" "page_index PF_USER"
  by (rule page_allocator)

end
