(* ===== verification/Paging.thy ===== *)
theory Paging
  imports Memory
begin

text \<open>
  What the whole-page functions of kernel/memory.c promise: malloc_page gives a first-fit run of
  virtual pages, each mapped to a frame of its own that was free, and mfree_page gives them back.
\<close>

section \<open>The loops of malloc_page and mfree_page\<close>

fun map_pages :: "ptab \<Rightarrow> addr \<Rightarrow> addr list \<Rightarrow> ptab" where
  "map_pages pt va [] = pt"
| "map_pages pt va (f # fs) = map_pages (pt(pte_ptr va := pg_entry f)) (va + PG_SIZE) fs"

fun unmap_pages :: "ptab \<Rightarrow> addr \<Rightarrow> nat \<Rightarrow> ptab" where
  "unmap_pages pt va 0 = pt"
| "unmap_pages pt va (Suc n) = unmap_pages (page_table_pte_remove pt va) (va + PG_SIZE) n"

definition page_at :: "addr \<Rightarrow> nat \<Rightarrow> addr" where
  "page_at va j = va + of_nat j * PG_SIZE"

lemma page_at_0 [simp]: "page_at va 0 = va"
  by (simp add: page_at_def)

lemma page_at_Suc: "page_at va (Suc j) = page_at (va + PG_SIZE) j"
  by (simp add: page_at_def algebra_simps)

lemma page_at_add: "page_at (page_at va i) j = page_at va (i + j)"
  by (simp add: page_at_def algebra_simps)

lemma unat_page_at:
  assumes "unat va + 4096 * j < 4294967296"
  shows "unat (page_at va j) = unat va + 4096 * j"
proof -
  have i: "unat (of_nat j :: u32) = j" using assms by (intro unat_of_nat_u32) simp
  have m: "unat (of_nat j * PG_SIZE :: u32) = 4096 * j"
    using assms i by (subst unat_mult_u32) (simp_all add: PG_SIZE_def)
  show ?thesis unfolding page_at_def using assms m by (subst unat_add_u32) simp_all
qed

lemma page_of_page_at:
  assumes "unat va + 4096 * j < 4294967296"
  shows "page_of (page_at va j) = page_of va + j"
  using unat_page_at [OF assms] by (simp add: page_of_def)

lemma page_at_aligned:
  assumes "page_aligned va" "unat va + 4096 * j < 4294967296"
  shows "page_aligned (page_at va j)"
  using assms unat_page_at [OF assms(2)] by (simp add: aligned_unat mod_add_eq [symmetric])

text \<open>Below the window of the page tables no entry written is a page directory entry.\<close>

lemma pte_below_window:
  assumes "unat va < 4290772992"
  shows "pte_ptr va \<noteq> pde_ptr w"
proof
  assume "pte_ptr va = pde_ptr w"
  then have "page_of va = page_of (pte_ptr w)" unfolding pde_ptr_recursive by (simp only: pte_ptr_inj)
  then have "unat va div 4096 = unat (pte_ptr w) div 4096" by (simp only: page_of_def)
  moreover have "4290772992 div 4096 \<le> unat (pte_ptr w) div 4096"
    by (intro div_le_mono) (simp add: pte_ptr_eq)
  moreover have "unat va div 4096 < 1047552" using assms by (simp add: div_less_iff_less_mult)
  ultimately show False by simp
qed

lemma palloc_in_ptab: "palloc_in pf (s\<lparr>ptab := pt\<rparr>) = bindR (palloc_in pf s) (\<lambda>(a, s). Inr (a, s\<lparr>ptab := pt\<rparr>))"
  by (cases pf; cases "palloc (mem_pool pf s)")
     (auto simp: palloc_in_def mem_pool_def set_mem_pool_def)

lemma take_many_ptab:
  "take_many (palloc_in pf) n (s\<lparr>ptab := pt\<rparr>) =
   bindR (take_many (palloc_in pf) n s) (\<lambda>(a, s). Inr (a, s\<lparr>ptab := pt\<rparr>))"
proof (induction n arbitrary: s)
  case 0
  then show ?case by simp
next
  case (Suc n)
  show ?case
  proof (cases "palloc_in pf s")
    case (Inl e)
    then show ?thesis by (simp add: palloc_in_ptab)
  next
    case (Inr r)
    obtain a t where r: "r = (a, t)" by (cases r)
    show ?thesis
      by (cases "take_many (palloc_in pf) n t") (auto simp: palloc_in_ptab Inr r Suc.IH)
  qed
qed

lemma ptab_take:
  assumes "palloc_in pf s = Inr (a, s')"
  shows "ptab s' = ptab s"
  using assms by (cases pf) (auto simp: palloc_in_def bindR_Inr_iff set_mem_pool_def)

lemma mod_pages_ok:
  fixes pf :: pool_flags
  assumes "pools_ok s" "palloc_in pf s = Inr (a, s')"
  shows "pools_ok s'" "a \<noteq> NULL"
proof -
  obtain i where i: "i < pool_pages pf s" "a = frame (mem_pool pf s) i"
    "s' = set_mem_pool pf (take_page (mem_pool pf s) i) s"
    using assms palloc_in_cases [OF assms(1)] by blast
  have p: "pool_ok (mem_pool pf s)" by (rule pools_ok_pool [OF assms(1)])
  show "a \<noteq> NULL" using frame_ne_NULL [OF p] i(1,2) by (simp add: pool_pages_def)
  show "pools_ok s'" unfolding i(3) using p
    by (intro pools_ok_set [OF assms(1)]) (simp_all add: pool_ok_def take_page_def)
qed

lemma malloc_page_loop_eq:
  assumes "pools_ok s" "unat va + 4096 * n \<le> 4290772992"
    and "\<forall>j<n. present (ptab s (pde_ptr (page_at va j))) \<and> \<not> present (ptab s (pte_ptr (page_at va j)))"
    and "take_many (palloc_in pf) n s = Inr (fs, t)"
  shows "malloc_page_loop pf n va s = Inr (True, t\<lparr>ptab := map_pages (ptab s) va fs\<rparr>)"
  using assms
proof (induction n arbitrary: s va fs t)
  case 0
  then show ?case by simp
next
  case (Suc n)
  obtain a s1 fs' where a: "palloc_in pf s = Inr (a, s1)" "take_many (palloc_in pf) n s1 = Inr (fs', t)"
    "fs = a # fs'" using Suc.prems(4) by (elim take_many_Suc_InrE)
  note ok1 = mod_pages_ok [OF Suc.prems(1) a(1)] and pt1 = ptab_take [OF a(1)]
  obtain p where p: "palloc (mem_pool pf s) = Inr (a, p)" "s1 = set_mem_pool pf p s"
    using a(1) by (auto simp: palloc_in_def bindR_Inr_iff)
  let ?s2 = "s1\<lparr>ptab := (ptab s)(pte_ptr va := pg_entry a)\<rparr>"
  have pr: "present (ptab s (pde_ptr va))" "\<not> present (ptab s (pte_ptr va))"
    using Suc.prems(3) by (auto dest: spec [of _ 0])
  have add: "page_table_add va a s1 = Inr ?s2"
    using pr by (simp add: page_table_add_def Let_def pt1)
  have lt: "unat va < 4290772992" using Suc.prems(2) by simp
  have vs: "unat (va + PG_SIZE) = unat va + 4096"
    using unat_page_at [of va 1] Suc.prems(2) by (simp add: page_at_def)
  have "pools_ok ?s2" using ok1(1) by (simp add: pools_ok_def)
  moreover have "unat (va + PG_SIZE) + 4096 * n \<le> 4290772992" using Suc.prems(2) vs by simp
  moreover have "\<forall>j<n. present (ptab ?s2 (pde_ptr (page_at (va + PG_SIZE) j)))
      \<and> \<not> present (ptab ?s2 (pte_ptr (page_at (va + PG_SIZE) j)))"
  proof (intro allI impI)
    fix j assume j: "j < n"
    have "page_of (page_at va (Suc j)) = page_of va + Suc j"
      using Suc.prems(2) j by (intro page_of_page_at) simp
    then have "pte_ptr (page_at va (Suc j)) \<noteq> pte_ptr va" by (simp add: pte_ptr_inj)
    moreover have "pde_ptr (page_at va (Suc j)) \<noteq> pte_ptr va"
      using pte_below_window [OF lt] by metis
    ultimately show "present (ptab ?s2 (pde_ptr (page_at (va + PG_SIZE) j)))
      \<and> \<not> present (ptab ?s2 (pte_ptr (page_at (va + PG_SIZE) j)))"
      using Suc.prems(3) j by (simp add: page_at_Suc [symmetric])
  qed
  moreover have "take_many (palloc_in pf) n ?s2 = Inr (fs', t\<lparr>ptab := (ptab s)(pte_ptr va := pg_entry a)\<rparr>)"
    by (simp add: take_many_ptab a(2))
  ultimately have "malloc_page_loop pf n (va + PG_SIZE) ?s2 =
      Inr (True, t\<lparr>ptab := map_pages ((ptab s)(pte_ptr va := pg_entry a)) (va + PG_SIZE) fs'\<rparr>)"
    using Suc.IH by fastforce
  then show ?case using p ok1(2) add a(3) by simp
qed

lemma map_pages_other:
  assumes "\<forall>j<length fs. a \<noteq> pte_ptr (page_at va j)"
  shows "map_pages pt va fs a = pt a"
  using assms
proof (induction fs arbitrary: pt va)
  case Nil
  then show ?case by simp
next
  case (Cons f fs)
  have "\<forall>j<length fs. a \<noteq> pte_ptr (page_at (va + PG_SIZE) j)"
    using Cons.prems by (auto simp: page_at_Suc [symmetric])
  moreover have "a \<noteq> pte_ptr va" using Cons.prems by (auto dest: spec [of _ 0])
  ultimately show ?case using Cons.IH by simp
qed

lemma map_pages_nth:
  assumes "unat va + 4096 * length fs \<le> 4290772992" "j < length fs"
  shows "map_pages pt va fs (pte_ptr (page_at va j)) = pg_entry (fs ! j)"
  using assms
proof (induction fs arbitrary: pt va j)
  case Nil
  then show ?case by simp
next
  case (Cons f fs)
  have vs: "unat (va + PG_SIZE) = unat va + 4096"
    using unat_page_at [of va 1] Cons.prems(1) by (simp add: page_at_def)
  show ?case
  proof (cases j)
    case 0
    have "pte_ptr va \<noteq> pte_ptr (page_at (va + PG_SIZE) i)" if "i < length fs" for i
    proof -
      have "page_of (page_at va (Suc i)) = page_of va + Suc i"
        using Cons.prems(1) that by (intro page_of_page_at) simp
      then show ?thesis by (simp add: pte_ptr_inj page_at_Suc [symmetric])
    qed
    then show ?thesis using 0 by (simp add: map_pages_other)
  next
    case (Suc i)
    then show ?thesis using Cons.IH [of "va + PG_SIZE" i] Cons.prems vs by (simp add: page_at_Suc)
  qed
qed


lemma pfree_ptab: "pfree a (s\<lparr>ptab := pt\<rparr>) = bindR (pfree a s) (\<lambda>s. Inr (s\<lparr>ptab := pt\<rparr>))"
  by (simp add: pfree_def Let_def mem_pool_def set_mem_pool_def bindR_assoc split: pool_flags.splits)
     (auto simp: bindR_def split: sum.splits)

lemma put_many_pfree_ptab:
  "put_many (\<lambda>s a. pfree a s) (s\<lparr>ptab := pt\<rparr>) fs =
   bindR (put_many (\<lambda>s a. pfree a s) s fs) (\<lambda>s. Inr (s\<lparr>ptab := pt\<rparr>))"
proof (induction fs arbitrary: s)
  case Nil
  then show ?case by simp
next
  case (Cons f fs)
  then show ?case by (cases "pfree f s") (auto simp: pfree_ptab)
qed

lemma pfree_keeps:
  assumes "pfree a s = Inr t"
  shows "ptab t = ptab s" "phy_addr_start (kernel_pool t) = phy_addr_start (kernel_pool s)"
    "phy_addr_start (user_pool t) = phy_addr_start (user_pool s)"
    "vaddr_pool pf t = vaddr_pool pf s"
  using assms
  by (auto simp: pfree_def Let_def bindR_Inr_iff mem_pool_def set_mem_pool_def vaddr_pool_def
      split: if_splits pool_flags.splits)

text \<open>A frame of the pool passes the checks of mfree_page.\<close>

lemma page_index_range:
  assumes ok: "pools_ok s" and i: "page_index pf s a < pool_pages pf s"
  shows "phy_addr_start (user_pool s) \<le> a \<longleftrightarrow> pf = PF_USER" "phy_addr_start (mem_pool pf s) \<le> a"
proof -
  let ?p = "mem_pool pf s"
  let ?d = "a - phy_addr_start ?p"
  have p: "pool_ok ?p" by (rule pools_ok_pool [OF ok])
  have b: "unat (phy_addr_start ?p) + 4096 * bm_size (pool_bitmap ?p) \<le> 4294967296"
    using p by (simp add: pool_ok_def)
  have "unat ?d div 4096 < bm_size (pool_bitmap ?p)"
    using i by (simp add: page_index_def frame_index_def pool_pages_def unat_div PG_SIZE_def)
  then have d: "unat ?d < 4096 * bm_size (pool_bitmap ?p)" by (simp add: div_less_iff_less_mult mult.commute)
  have "unat (phy_addr_start ?p + ?d) = unat (phy_addr_start ?p) + unat ?d"
    using b d by (intro unat_add_u32) simp
  then have a: "unat a = unat (phy_addr_start ?p) + unat ?d" by simp
  show "phy_addr_start (mem_pool pf s) \<le> a" using a by (simp add: word_le_nat_alt)
  show "phy_addr_start (user_pool s) \<le> a \<longleftrightarrow> pf = PF_USER"
    using a d ok by (cases pf) (auto simp: word_le_nat_alt pools_ok_def mem_pool_def)
qed

lemma pfree_same:
  assumes ok: "pools_ok s" and i: "page_index pf s a < pool_pages pf s" and t: "pfree a s = Inr t"
  shows "pools_ok t" "page_index pf t = page_index pf s" "pool_pages pf t = pool_pages pf s"
    "page_used pf t = (page_used pf s)(page_index pf s a := False)"
  using slot_allocator.give_sound [OF page_allocator ok i] t by auto


lemma aligned_mod: "page_aligned a \<longleftrightarrow> a mod PG_SIZE = 0"
  by (simp add: u32_eq_iff unat_mod PG_SIZE_def aligned_unat)

lemma mfree_page_loop_eq:
  assumes "pools_ok s" "length fs = n" "unat va + 4096 * n \<le> 4290772992"
    and "\<forall>j<n. addr_v2p (ptab s) (page_at va j) = fs ! j \<and> page_index pf s (fs ! j) < pool_pages pf s
       \<and> page_aligned (fs ! j)"
    and "user = (pf = PF_USER)"
  shows "\<exists>t. put_many (\<lambda>s a. pfree a s) s fs = Inr t
     \<and> mfree_page_loop user n (va - PG_SIZE) s = Inr (t\<lparr>ptab := unmap_pages (ptab s) va n\<rparr>)"
  using assms(1-4)
proof (induction n arbitrary: s va fs)
  case 0
  then show ?case by simp
next
  case (Suc n)
  obtain f fs' where fs: "fs = f # fs'" "length fs' = n" using Suc.prems(2) by (cases fs) auto
  have f: "addr_v2p (ptab s) va = f" "page_index pf s f < pool_pages pf s" "page_aligned f"
    using spec [OF Suc.prems(4), of 0] fs by auto
  obtain s1 where s1: "pfree f s = Inr s1" using pfree_frame [OF Suc.prems(1) f(2)] by simp
  note S1 = pfree_same [OF Suc.prems(1) f(2) s1] and K1 = pfree_keeps [OF s1]
  let ?pt = "page_table_pte_remove (ptab s) va"
  let ?s2 = "s1\<lparr>ptab := ?pt\<rparr>"
  have chk: "(if user then phy_addr_start (user_pool s) \<le> f
       else phy_addr_start (kernel_pool s) \<le> f \<and> f < phy_addr_start (user_pool s)) \<and> f mod PG_SIZE = 0"
    using page_index_range [OF Suc.prems(1) f(2)] f(3) assms(5)
    by (cases pf) (auto simp: aligned_mod mem_pool_def)
  have vs: "unat (va + PG_SIZE) = unat va + 4096"
    using unat_page_at [of va 1] Suc.prems(3) by (simp add: page_at_def)
  have idx: "page_index pf ?s2 = page_index pf s" "pool_pages pf ?s2 = pool_pages pf s"
    using S1(2,3) by (simp_all add: page_index_def pool_pages_def mem_pool_def split: pool_flags.splits)
  have nxt: "\<forall>j<n. addr_v2p (ptab ?s2) (page_at (va + PG_SIZE) j) = fs' ! j
     \<and> page_index pf ?s2 (fs' ! j) < pool_pages pf ?s2 \<and> page_aligned (fs' ! j)"
  proof (intro allI impI)
    fix j assume j: "j < n"
    have "page_of (page_at va (Suc j)) = page_of va + Suc j"
      using Suc.prems(3) j by (intro page_of_page_at) simp
    then have "addr_v2p ?pt (page_at va (Suc j)) = addr_v2p (ptab s) (page_at va (Suc j))"
      by (simp add: page_table_pte_remove_def addr_v2p_upd_other)
    then show "addr_v2p (ptab ?s2) (page_at (va + PG_SIZE) j) = fs' ! j
     \<and> page_index pf ?s2 (fs' ! j) < pool_pages pf ?s2 \<and> page_aligned (fs' ! j)"
      using spec [OF Suc.prems(4), of "Suc j"] j fs unfolding idx by (simp add: page_at_Suc)
  qed
  have ok2: "pools_ok ?s2" using S1(1) by (simp add: pools_ok_def)
  have bound: "unat (va + PG_SIZE) + 4096 * n \<le> 4290772992" using Suc.prems(3) vs by simp
  obtain t where t: "put_many (\<lambda>s a. pfree a s) ?s2 fs' = Inr t"
    "mfree_page_loop user n (va + PG_SIZE - PG_SIZE) ?s2 = Inr (t\<lparr>ptab := unmap_pages ?pt (va + PG_SIZE) n\<rparr>)"
    using Suc.IH [OF ok2 fs(2) bound nxt] by auto
  obtain t1 where t1: "put_many (\<lambda>s a. pfree a s) s1 fs' = Inr t1" "t = t1\<lparr>ptab := ?pt\<rparr>"
    using t(1) by (cases "put_many (\<lambda>s a. pfree a s) s1 fs'") (auto simp: put_many_pfree_ptab)
  have "mfree_page_loop user (Suc n) (va - PG_SIZE) s = mfree_page_loop user n va ?s2"
    using chk f(1) s1 by (simp add: Let_def K1(1))
  then show ?case using t(2) t1 s1 fs by simp
qed

lemma bitmap_set_run_eq:
  assumes "bm_wf bm" "unat st + unat cnt + n \<le> bm_size bm" and v: "v = 0 \<or> v = 1"
  shows "\<exists>bm'. bitmap_set_run bm st v cnt n = Inr bm' \<and> bm_wf bm' \<and> bm_size bm' = bm_size bm
     \<and> (\<forall>i. bm_bit bm' i = (if unat st + unat cnt \<le> i \<and> i < unat st + unat cnt + n then v = 1 else bm_bit bm i))"
  using assms(1,2)
proof (induction n arbitrary: bm cnt)
  case 0
  then show ?case by (auto simp: not_less)
next
  case (Suc n)
  have sz: "bm_size bm < 2147483648" by (rule bm_wf_size [OF Suc.prems(1)])
  have u1: "unat (st + cnt) = unat st + unat cnt" using Suc.prems(2) sz by (intro unat_add_u32) simp
  have u2: "unat (cnt + 1) = unat cnt + 1" using Suc.prems(2) sz by (intro unat_Suc_u32) simp
  note u = u1 u2
  let ?b = "bm_upd bm (unat st + unat cnt) (v = 1)"
  obtain bm' where b: "bitmap_set_run ?b st v (cnt + 1) n = Inr bm'" "bm_wf bm'" "bm_size bm' = bm_size bm"
    "\<forall>i. bm_bit bm' i = (if unat st + unat (cnt + 1) \<le> i \<and> i < unat st + unat (cnt + 1) + n then v = 1 else bm_bit ?b i)"
    using Suc.IH [of ?b "cnt + 1"] Suc.prems u by auto
  have "bitmap_set bm (st + cnt) v = Inr ?b"
    using Suc.prems u v by (auto simp: bitmap_set_eq)
  moreover have "bm_bit bm' i = (if unat st + unat cnt \<le> i \<and> i < unat st + unat cnt + Suc n then v = 1 else bm_bit bm i)" for i
    using b(4) Suc.prems(2) u by auto
  ultimately show ?case using b by simp
qed

section \<open>Address spaces\<close>

definition vpage :: "pool_flags \<Rightarrow> memory \<Rightarrow> nat \<Rightarrow> addr" where
  "vpage pf s i = page_at (vaddr_start (vaddr_pool pf s)) i"

definition vused :: "pool_flags \<Rightarrow> memory \<Rightarrow> nat \<Rightarrow> bool" where
  "vused pf s = bm_bit (vaddr_bitmap (vaddr_pool pf s))"

definition vpages :: "pool_flags \<Rightarrow> memory \<Rightarrow> nat" where
  "vpages pf s = bm_size (vaddr_bitmap (vaddr_pool pf s))"

definition frame_of :: "pool_flags \<Rightarrow> memory \<Rightarrow> nat \<Rightarrow> addr" where
  "frame_of pf s i = addr_v2p (ptab s) (vpage pf s i)"

text \<open>The virtual pool lies below the page table window; the last user page is the stack's.\<close>

definition vrange_ok :: "pool_flags \<Rightarrow> memory \<Rightarrow> bool" where
  "vrange_ok pf s \<longleftrightarrow> bm_wf (vaddr_bitmap (vaddr_pool pf s))
     \<and> page_aligned (vaddr_start (vaddr_pool pf s)) \<and> vaddr_start (vaddr_pool pf s) \<noteq> NULL
     \<and> unat (vaddr_start (vaddr_pool pf s)) + 4096 * vpages pf s \<le> 4290772992
     \<and> 0x102000 \<le> phy_addr_start (mem_pool pf s)
     \<and> (pf = PF_USER \<longrightarrow> (\<forall>i < vpages pf s. \<not> vused pf s i \<longrightarrow> vpage pf s i < 0xbffff000))"

text \<open>The page table, the virtual bitmap and the physical bitmap agree, and no frame is shared.\<close>

definition mapping_ok :: "pool_flags \<Rightarrow> memory \<Rightarrow> bool" where
  "mapping_ok pf s \<longleftrightarrow>
     (\<forall>i < vpages pf s. present (ptab s (pde_ptr (vpage pf s i)))
        \<and> (present (ptab s (pte_ptr (vpage pf s i))) \<longleftrightarrow> vused pf s i)
        \<and> (vused pf s i \<longrightarrow> page_aligned (frame_of pf s i) \<and> page_index pf s (frame_of pf s i) < pool_pages pf s
             \<and> page_used pf s (page_index pf s (frame_of pf s i))))
   \<and> (\<forall>i < vpages pf s. \<forall>j < vpages pf s. vused pf s i \<longrightarrow> vused pf s j
        \<longrightarrow> page_index pf s (frame_of pf s i) = page_index pf s (frame_of pf s j) \<longrightarrow> i = j)"

definition space_ok :: "pool_flags \<Rightarrow> memory \<Rightarrow> bool" where
  "space_ok pf s \<longleftrightarrow> pools_ok s \<and> vrange_ok pf s \<and> mapping_ok pf s"

definition free_frames :: "pool_flags \<Rightarrow> memory \<Rightarrow> nat" where
  "free_frames pf s = card {i. i < pool_pages pf s \<and> \<not> page_used pf s i}"

definition vfree_run :: "pool_flags \<Rightarrow> memory \<Rightarrow> nat \<Rightarrow> nat \<Rightarrow> bool" where
  "vfree_run pf s k n \<longleftrightarrow> k + n \<le> vpages pf s \<and> (\<forall>i<n. \<not> vused pf s (k + i))"

lemma vaddr_pool_set [simp]:
  "vaddr_pool pf (set_vaddr_bitmap pf bm s) = (vaddr_pool pf s)\<lparr>vaddr_bitmap := bm\<rparr>"
  "vaddr_pool pf (set_mem_pool pf' p s) = vaddr_pool pf s"
  "vaddr_pool pf (s\<lparr>ptab := pt\<rparr>) = vaddr_pool pf s"
  "mem_pool pf' (set_vaddr_bitmap pf bm s) = mem_pool pf' s"
  "mem_pool pf' (s\<lparr>ptab := pt\<rparr>) = mem_pool pf' s"
  "ptab (set_vaddr_bitmap pf bm s) = ptab s"
  by (simp_all add: vaddr_pool_def set_vaddr_bitmap_def mem_pool_def set_mem_pool_def split: pool_flags.splits)

lemma pools_ok_irrelevant [simp]:
  "pools_ok (set_vaddr_bitmap pf bm s) = pools_ok s" "pools_ok (s\<lparr>ptab := pt\<rparr>) = pools_ok s"
  by (simp_all add: pools_ok_def set_vaddr_bitmap_def split: pool_flags.splits)

text \<open>vaddr_get: the first run of free virtual pages.\<close>

lemma vaddr_get_eq:
  assumes r: "vrange_ok pf s" and n: "0 < unat n" and f: "vfree_run pf s k (unat n)"
    and first: "\<forall>k'. vfree_run pf s k' (unat n) \<longrightarrow> k \<le> k'"
  shows "\<exists>bm. vaddr_get pf n s = Inr (vpage pf s k, set_vaddr_bitmap pf bm s)
     \<and> bm_wf bm \<and> bm_size bm = vpages pf s
     \<and> (\<forall>i. bm_bit bm i = (if k \<le> i \<and> i < k + unat n then True else vused pf s i))"
proof -
  let ?b = "vaddr_bitmap (vaddr_pool pf s)"
  have wf: "bm_wf ?b" using r by (simp add: vrange_ok_def)
  have fr: "free_run ?b j (unat n) = vfree_run pf s j (unat n)" for j
    by (simp add: free_run_def vfree_run_def vpages_def vused_def)
  obtain x where x: "bitmap_scan ?b n = Inr x" using bitmap_scan_complete [OF wf n] f fr by blast
  then have "unat x \<le> k" "k \<le> unat x" and nm: "x \<noteq> - 1"
    using bitmap_scan_sound [OF wf n x] f first fr by auto
  then have ux: "unat x = k" by simp
  have kn: "k + unat n \<le> bm_size ?b" using f by (simp add: vfree_run_def vpages_def)
  obtain bm where bm: "bitmap_set_run ?b x 1 0 (unat n) = Inr bm" "bm_wf bm" "bm_size bm = bm_size ?b"
    "\<forall>i. bm_bit bm i = (if k \<le> i \<and> i < k + unat n then True else bm_bit ?b i)"
    using bitmap_set_run_eq [OF wf, of x 0 "unat n" 1] ux kn by auto
  have va: "vaddr_start (vaddr_pool pf s) + x * PG_SIZE = vpage pf s k"
    using ux by (auto simp: vpage_def page_at_def)
  have "pf = PF_USER \<longrightarrow> vpage pf s k < 0xbffff000"
    using r f n by (auto simp: vrange_ok_def vfree_run_def dest: spec [of _ 0])
  then have "vaddr_get pf n s = Inr (vpage pf s k, set_vaddr_bitmap pf bm s)"
    using x bm(1) nm va by (auto simp: vaddr_get_def Let_def PG_SIZE_def)
  then show ?thesis using bm(2-4) by (auto simp: vpages_def vused_def)
qed


section \<open>malloc_page\<close>

lemma vpage_bound:
  assumes "vrange_ok pf s" "i < vpages pf s"
  shows "unat (vaddr_start (vaddr_pool pf s)) + 4096 * i < 4290772992"
  using assms by (simp add: vrange_ok_def)

lemma unat_vpage:
  assumes "vrange_ok pf s" "i < vpages pf s"
  shows "unat (vpage pf s i) = unat (vaddr_start (vaddr_pool pf s)) + 4096 * i"
  unfolding vpage_def using vpage_bound [OF assms] by (intro unat_page_at) simp

lemma page_of_vpage:
  assumes "vrange_ok pf s" "i < vpages pf s"
  shows "page_of (vpage pf s i) = page_of (vaddr_start (vaddr_pool pf s)) + i"
  unfolding vpage_def using vpage_bound [OF assms] by (intro page_of_page_at) simp

lemma vpage_inj:
  assumes "vrange_ok pf s" "i < vpages pf s" "j < vpages pf s"
  shows "pte_ptr (vpage pf s i) = pte_ptr (vpage pf s j) \<longleftrightarrow> i = j"
  using page_of_vpage [OF assms(1,2)] page_of_vpage [OF assms(1,3)] by (simp add: pte_ptr_inj)

lemma vpage_aligned:
  assumes "vrange_ok pf s" "i < vpages pf s"
  shows "page_aligned (vpage pf s i)"
  unfolding vpage_def using vpage_bound [OF assms] assms(1)
  by (intro page_at_aligned) (simp_all add: vrange_ok_def)

lemma vpage_nonnull:
  assumes "vrange_ok pf s" "i < vpages pf s"
  shows "vpage pf s i \<noteq> NULL"
proof -
  have "unat (vaddr_start (vaddr_pool pf s)) \<noteq> 0" using assms(1) by (auto simp: vrange_ok_def unat_eq_zero)
  then have "unat (vpage pf s i) \<noteq> unat (NULL :: addr)" using unat_vpage [OF assms] by simp
  then show ?thesis by metis
qed

lemma palloc_in_keeps:
  assumes "palloc_in pf s = Inr (a, t)" "pools_ok s"
  shows "vaddr_pool pf' t = vaddr_pool pf' s" "phy_addr_start (mem_pool pf t) = phy_addr_start (mem_pool pf s)"
    "page_aligned a"
proof -
  obtain i where i: "i < pool_pages pf s" "a = frame (mem_pool pf s) i"
    "t = set_mem_pool pf (take_page (mem_pool pf s) i) s"
    using assms palloc_in_cases [OF assms(2)] by blast
  show "vaddr_pool pf' t = vaddr_pool pf' s" "phy_addr_start (mem_pool pf t) = phy_addr_start (mem_pool pf s)"
    unfolding i(3) by simp_all
  show "page_aligned a"
    unfolding i(2) using i(1) by (intro frame_aligned pools_ok_pool [OF assms(2)]) (simp add: pool_pages_def)
qed

lemma take_many_keeps:
  assumes "take_many (palloc_in pf) n s = Inr (fs, t)" "pools_ok s"
  shows "vaddr_pool pf' t = vaddr_pool pf' s \<and> phy_addr_start (mem_pool pf t) = phy_addr_start (mem_pool pf s)
    \<and> (\<forall>f \<in> set fs. page_aligned f)"
  using assms
proof (induction n arbitrary: s fs)
  case 0
  then show ?case by simp
next
  case (Suc n)
  then obtain a u fs' where a: "palloc_in pf s = Inr (a, u)" "take_many (palloc_in pf) n u = Inr (fs', t)" "fs = a # fs'"
    by (elim take_many_Suc_InrE)
  show ?case
    using Suc.IH [OF a(2) mod_pages_ok(1) [OF Suc.prems(2) a(1)]] palloc_in_keeps [OF a(1) Suc.prems(2)] a(3)
    by simp
qed

text \<open>The state malloc_page leaves: frames fs mapped at the pages from k on.\<close>

definition mapped_state :: "pool_flags \<Rightarrow> memory \<Rightarrow> nat \<Rightarrow> addr list \<Rightarrow> memory \<Rightarrow> bool" where
  "mapped_state pf s k fs s' \<longleftrightarrow>
     vaddr_start (vaddr_pool pf s') = vaddr_start (vaddr_pool pf s) \<and> vpages pf s' = vpages pf s
   \<and> (\<forall>i. vused pf s' i \<longleftrightarrow> (k \<le> i \<and> i < k + length fs) \<or> vused pf s i)
   \<and> ptab s' = map_pages (ptab s) (vpage pf s k) fs
   \<and> distinct (map (page_index pf s) fs)
   \<and> (\<forall>f \<in> set fs. page_aligned f \<and> page_index pf s f < pool_pages pf s \<and> \<not> page_used pf s (page_index pf s f))
   \<and> (\<forall>i. page_used pf s' i \<longleftrightarrow> page_used pf s i \<or> i \<in> page_index pf s ` set fs)
   \<and> pool_pages pf s' = pool_pages pf s \<and> page_index pf s' = page_index pf s"

lemma malloc_page_maps:
  assumes ok: "space_ok pf s" and n: "0 < unat n" "n < 3840"
    and f: "vfree_run pf s k (unat n)" and first: "\<forall>k'. vfree_run pf s k' (unat n) \<longrightarrow> k \<le> k'"
    and fr: "unat n \<le> free_frames pf s"
  shows "\<exists>s' fs. malloc_page pf n s = Inr (vpage pf s k, s') \<and> length fs = unat n
     \<and> pools_ok s' \<and> vrange_ok pf s' \<and> mapped_state pf s k fs s'"
proof -
  have pools: "pools_ok s" and vr: "vrange_ok pf s" and mp: "mapping_ok pf s"
    using ok by (simp_all add: space_ok_def)
  obtain bm where bm: "vaddr_get pf n s = Inr (vpage pf s k, set_vaddr_bitmap pf bm s)" "bm_wf bm"
    "bm_size bm = vpages pf s" "\<forall>i. bm_bit bm i = (if k \<le> i \<and> i < k + unat n then True else vused pf s i)"
    using vaddr_get_eq [OF vr n(1) f first] by blast
  let ?s1 = "set_vaddr_bitmap pf bm s"
  have kn: "k + unat n \<le> vpages pf s" and k: "k < vpages pf s"
    using f n(1) by (auto simp: vfree_run_def)
  have pools1: "pools_ok ?s1" using pools by simp
  have same: "page_used pf ?s1 = page_used pf s" "pool_pages pf ?s1 = pool_pages pf s" "page_index pf ?s1 = page_index pf s"
    by (simp_all add: page_used_def pool_pages_def page_index_def)
  have "unat n \<le> card {i. i < pool_pages pf ?s1 \<and> \<not> page_used pf ?s1 i}"
    using fr by (simp add: same free_frames_def)
  then obtain fs t where t: "take_many (palloc_in pf) (unat n) ?s1 = Inr (fs, t)"
    using slot_allocator.take_many_progress [OF page_allocator pools1] by blast
  note D = slot_allocator.take_many_distinct [OF page_allocator pools1 t, unfolded same]
  note K = conjunct1 [OF take_many_keeps [OF t pools1, of pf]]
    conjunct2 [OF take_many_keeps [OF t pools1, of pf]]
  let ?s' = "t\<lparr>ptab := map_pages (ptab s) (vpage pf s k) fs\<rparr>"
  have loop: "malloc_page_loop pf (unat n) (vpage pf s k) ?s1 = Inr (True, ?s')"
  proof (rule malloc_page_loop_eq [OF pools1 _ _ t, simplified])
    show "unat (vpage pf s k) + 4096 * unat n \<le> 4290772992"
      using unat_vpage [OF vr k] kn vr by (simp add: vrange_ok_def)
    show "\<forall>j<unat n. present (ptab s (pde_ptr (page_at (vpage pf s k) j)))
        \<and> \<not> present (ptab s (pte_ptr (page_at (vpage pf s k) j)))"
    proof (intro allI impI)
      fix j assume j: "j < unat n"
      have e: "page_at (vpage pf s k) j = vpage pf s (k + j)" by (simp add: vpage_def page_at_add)
      have "k + j < vpages pf s" "\<not> vused pf s (k + j)" using f j by (auto simp: vfree_run_def)
      then show "present (ptab s (pde_ptr (page_at (vpage pf s k) j)))
          \<and> \<not> present (ptab s (pte_ptr (page_at (vpage pf s k) j)))"
        unfolding e using mp by (simp add: mapping_ok_def)
    qed
  qed
  have nn: "vpage pf s k \<noteq> NULL" by (rule vpage_nonnull [OF vr k])
  have n0: "n > 0" using n(1) by (simp add: word_less_nat_alt)
  have call: "malloc_page pf n s = Inr (vpage pf s k, ?s')"
    using n0 n(2) bm(1) nn loop by (simp add: malloc_page_def)
  have vp: "vaddr_pool pf ?s' = (vaddr_pool pf s)\<lparr>vaddr_bitmap := bm\<rparr>" using K(1) by simp
  have vu: "vused pf ?s' = bm_bit bm" and vn: "vpages pf ?s' = vpages pf s"
    using vp bm(3) by (simp_all add: vused_def vpages_def)
  have pg: "page_used pf ?s' = page_used pf t" "pool_pages pf ?s' = pool_pages pf t" "page_index pf ?s' = page_index pf t"
    by (simp_all add: page_used_def pool_pages_def page_index_def)
  have "vpage pf ?s' i = vpage pf s i" for i using vp by (simp add: vpage_def)
  then have "vrange_ok pf ?s'"
    using vr bm(2,4) K(2) vp unfolding vrange_ok_def vu vn by (auto simp: vrange_ok_def split: if_splits)
  moreover have "mapped_state pf s k fs ?s'"
    unfolding mapped_state_def vu vn pg
    using D K(2) bm(4) vp by auto
  ultimately show ?thesis using call D by auto
qed

lemma mapped_frame_new:
  assumes vr: "vrange_ok pf s" and m: "mapped_state pf s k fs s'" and k: "k + length fs \<le> vpages pf s"
    and j: "j < length fs"
  shows "ptab s' (pte_ptr (vpage pf s (k + j))) = pg_entry (fs ! j)" "frame_of pf s' (k + j) = fs ! j"
proof -
  have kk: "k < vpages pf s" and kj: "k + j < vpages pf s" using k j by auto
  have e: "page_at (vpage pf s k) j = vpage pf s (k + j)" by (simp add: vpage_def page_at_add)
  have b: "unat (vpage pf s k) + 4096 * length fs \<le> 4290772992"
    using unat_vpage [OF vr kk] k vr by (simp add: vrange_ok_def)
  show p: "ptab s' (pte_ptr (vpage pf s (k + j))) = pg_entry (fs ! j)"
    using map_pages_nth [OF b j] m by (simp add: e mapped_state_def)
  have "page_aligned (fs ! j)" using m j by (auto simp: mapped_state_def)
  moreover have "vpage pf s' (k + j) = vpage pf s (k + j)" using m by (simp add: vpage_def mapped_state_def)
  moreover have "vpage pf s (k + j) AND 0xfff = 0"
    using vpage_aligned [OF vr kj] by (simp add: page_aligned_def)
  ultimately show "frame_of pf s' (k + j) = fs ! j"
    using p addr_v2p_mapped [of "fs ! j" "ptab s'" "vpage pf s (k + j)"] by (simp add: frame_of_def)
qed

lemma mapped_other:
  assumes vr: "vrange_ok pf s" and m: "mapped_state pf s k fs s'" and k: "k + length fs \<le> vpages pf s"
    and i: "i < vpages pf s" "\<not> (k \<le> i \<and> i < k + length fs)"
  shows "ptab s' (pte_ptr (vpage pf s i)) = ptab s (pte_ptr (vpage pf s i))" "frame_of pf s' i = frame_of pf s i"
proof -
  have "pte_ptr (vpage pf s i) \<noteq> pte_ptr (page_at (vpage pf s k) j)" if "j < length fs" for j
  proof -
    have "page_at (vpage pf s k) j = vpage pf s (k + j)" by (simp add: vpage_def page_at_add)
    then show ?thesis using vpage_inj [OF vr i(1), of "k + j"] that k i(2) by auto
  qed
  then show p: "ptab s' (pte_ptr (vpage pf s i)) = ptab s (pte_ptr (vpage pf s i))"
    using m by (simp add: mapped_state_def map_pages_other)
  then show "frame_of pf s' i = frame_of pf s i"
    using m by (simp add: frame_of_def addr_v2p_def vpage_def mapped_state_def)
qed

lemma mapped_pde:
  assumes vr: "vrange_ok pf s" and m: "mapped_state pf s k fs s'" and k: "k + length fs \<le> vpages pf s"
  shows "ptab s' (pde_ptr w) = ptab s (pde_ptr w)"
proof -
  have "pde_ptr w \<noteq> pte_ptr (page_at (vpage pf s k) j)" if "j < length fs" for j
  proof -
    have e: "page_at (vpage pf s k) j = vpage pf s (k + j)" by (simp add: vpage_def page_at_add)
    have "k + j < vpages pf s" using that k by simp
    from unat_vpage [OF vr this] vpage_bound [OF vr this]
    have "unat (vpage pf s (k + j)) < 4290772992" by simp
    then show ?thesis unfolding e using pte_below_window by metis
  qed
  then show ?thesis using m by (simp add: mapped_state_def map_pages_other)
qed

lemma mapped_space:
  assumes vr: "vrange_ok pf s" and mp: "mapping_ok pf s" and m: "mapped_state pf s k fs s'"
    and k: "vfree_run pf s k (length fs)"
  shows "mapping_ok pf s'"
proof -
  have kn: "k + length fs \<le> vpages pf s" using k by (simp add: vfree_run_def)
  note new = mapped_frame_new [OF vr m kn] and old = mapped_other [OF vr m kn] and pde = mapped_pde [OF vr m kn]
  have f: "vpages pf s' = vpages pf s" "vpage pf s' = vpage pf s" "page_index pf s' = page_index pf s"
    "pool_pages pf s' = pool_pages pf s"
    using m by (simp_all add: mapped_state_def vpage_def fun_eq_iff)
  have u: "vused pf s' i \<longleftrightarrow> (k \<le> i \<and> i < k + length fs) \<or> vused pf s i" for i
    using m by (simp add: mapped_state_def)
  have pu: "page_used pf s' i \<longleftrightarrow> page_used pf s i \<or> i \<in> page_index pf s ` set fs" for i
    using m by (simp add: mapped_state_def)
  have fs: "page_aligned (fs ! j)" "page_index pf s (fs ! j) < pool_pages pf s"
    "\<not> page_used pf s (page_index pf s (fs ! j))" if "j < length fs" for j
    using m that by (auto simp: mapped_state_def)
  have dist: "distinct (map (page_index pf s) fs)" using m by (simp add: mapped_state_def)
  have one: "present (ptab s' (pde_ptr (vpage pf s i)))
      \<and> (present (ptab s' (pte_ptr (vpage pf s i))) \<longleftrightarrow> vused pf s' i)
      \<and> (vused pf s' i \<longrightarrow> page_aligned (frame_of pf s' i) \<and> page_index pf s (frame_of pf s' i) < pool_pages pf s
           \<and> page_used pf s' (page_index pf s (frame_of pf s' i)))" if i: "i < vpages pf s" for i
  proof (cases "k \<le> i \<and> i < k + length fs")
    case True
    then obtain j where j: "i = k + j" "j < length fs" by (metis add_less_cancel_left le_Suc_ex)
    then show ?thesis using new [OF j(2)] fs [OF j(2)] mp i
      by (auto simp: u pu pde pg_entry_present mapping_ok_def)
  next
    case False
    then show ?thesis using old [OF i False] mp i by (auto simp: u pu pde mapping_ok_def)
  qed
  have inj: "i = j" if ij: "i < vpages pf s" "j < vpages pf s" "vused pf s' i" "vused pf s' j"
    and e: "page_index pf s (frame_of pf s' i) = page_index pf s (frame_of pf s' j)" for i j
  proof -
    let ?new = "\<lambda>i. k \<le> i \<and> i < k + length fs"
    have nidx: "\<exists>a < length fs. i = k + a \<and> frame_of pf s' i = fs ! a" if "?new i" for i
      using that new(2) [of "i - k"] by (intro exI [of _ "i - k"]) auto
    have oidx: "page_used pf s (page_index pf s (frame_of pf s' i))" if "\<not> ?new i" "i < vpages pf s" "vused pf s' i" for i
      using old(2) [OF that(2,1)] that mp by (auto simp: u mapping_ok_def)
    consider "?new i" "?new j" | "\<not> ?new i" "\<not> ?new j" | "?new i" "\<not> ?new j" | "\<not> ?new i" "?new j" by blast
    then show ?thesis
    proof cases
      case 1
      then obtain a b where ab: "a < length fs" "i = k + a" "frame_of pf s' i = fs ! a"
        "b < length fs" "j = k + b" "frame_of pf s' j = fs ! b" using nidx by meson
      then show ?thesis using e nth_eq_iff_index_eq [OF dist, of a b] by simp
    next
      case 2
      then show ?thesis using e ij old(2) mp by (auto simp: u mapping_ok_def)
    next
      case 3
      then obtain a where "a < length fs" "frame_of pf s' i = fs ! a" using nidx by meson
      then show ?thesis using oidx [OF 3(2) ij(2,4)] fs(3) [of a] e by simp
    next
      case 4
      then obtain a where "a < length fs" "frame_of pf s' j = fs ! a" using nidx by meson
      then show ?thesis using oidx [OF 4(1) ij(1,3)] fs(3) [of a] e by simp
    qed
  qed
  show ?thesis unfolding mapping_ok_def f using one inj by blast
qed


section \<open>mfree_page\<close>

lemma unmap_pages_other:
  assumes "\<forall>j<n. a \<noteq> pte_ptr (page_at va j)"
  shows "unmap_pages pt va n a = pt a"
  using assms
proof (induction n arbitrary: pt va)
  case 0
  then show ?case by simp
next
  case (Suc n)
  have "\<forall>j<n. a \<noteq> pte_ptr (page_at (va + PG_SIZE) j)"
    using Suc.prems by (auto simp: page_at_Suc [symmetric])
  moreover have "a \<noteq> pte_ptr va" using Suc.prems by (auto dest: spec [of _ 0])
  ultimately show ?case using Suc.IH by (simp add: page_table_pte_remove_def)
qed

lemma unmap_pages_absent:
  assumes "unat va + 4096 * n \<le> 4290772992" "j < n"
  shows "\<not> present (unmap_pages pt va n (pte_ptr (page_at va j)))"
  using assms
proof (induction n arbitrary: pt va j)
  case 0
  then show ?case by simp
next
  case (Suc n)
  have vs: "unat (va + PG_SIZE) = unat va + 4096"
    using unat_page_at [of va 1] Suc.prems(1) by (simp add: page_at_def)
  show ?case
  proof (cases j)
    case 0
    have "pte_ptr va \<noteq> pte_ptr (page_at (va + PG_SIZE) i)" if "i < n" for i
    proof -
      have "page_of (page_at va (Suc i)) = page_of va + Suc i"
        using Suc.prems(1) that by (intro page_of_page_at) simp
      then show ?thesis by (simp add: pte_ptr_inj page_at_Suc [symmetric])
    qed
    then show ?thesis using 0 page_table_pte_remove_present [of pt va] by (simp add: unmap_pages_other)
  next
    case (Suc i)
    then show ?thesis using Suc.IH [of "va + PG_SIZE" i] Suc.prems vs by (simp add: page_at_Suc)
  qed
qed

lemma put_many_pfree:
  assumes "pools_ok s" "\<forall>f \<in> set fs. page_index pf s f < pool_pages pf s"
    and "put_many (\<lambda>s a. pfree a s) s fs = Inr t"
  shows "pools_ok t \<and> page_index pf t = page_index pf s \<and> pool_pages pf t = pool_pages pf s
    \<and> (\<forall>i. page_used pf t i \<longleftrightarrow> page_used pf s i \<and> i \<notin> page_index pf s ` set fs)
    \<and> phy_addr_start (mem_pool pf t) = phy_addr_start (mem_pool pf s) \<and> vaddr_pool pf t = vaddr_pool pf s"
  using assms
proof (induction fs arbitrary: s)
  case Nil
  then show ?case by simp
next
  case (Cons f fs)
  obtain u where u: "pfree f s = Inr u" "put_many (\<lambda>s a. pfree a s) u fs = Inr t"
    using Cons.prems(3) by (auto simp: bindR_Inr_iff)
  have f: "page_index pf s f < pool_pages pf s" using Cons.prems(2) by simp
  note U = pfree_same [OF Cons.prems(1) f u(1)] and K = pfree_keeps [OF u(1)]
  have "phy_addr_start (mem_pool pf u) = phy_addr_start (mem_pool pf s)"
    using K(2,3) by (simp add: mem_pool_def split: pool_flags.splits)
  moreover have "\<forall>f \<in> set fs. page_index pf u f < pool_pages pf u" using Cons.prems(2) U(2,3) by simp
  ultimately show ?case using Cons.IH [OF U(1) _ u(2)] U K(4) by auto
qed

text \<open>The state mfree_page leaves: the n pages from k on unmapped and their frames free.\<close>

definition unmapped_state :: "pool_flags \<Rightarrow> memory \<Rightarrow> nat \<Rightarrow> nat \<Rightarrow> memory \<Rightarrow> bool" where
  "unmapped_state pf s k n s' \<longleftrightarrow>
     vaddr_start (vaddr_pool pf s') = vaddr_start (vaddr_pool pf s) \<and> vpages pf s' = vpages pf s
   \<and> (\<forall>i. vused pf s' i \<longleftrightarrow> vused pf s i \<and> \<not> (k \<le> i \<and> i < k + n))
   \<and> ptab s' = unmap_pages (ptab s) (vpage pf s k) n
   \<and> (\<forall>i. page_used pf s' i \<longleftrightarrow> page_used pf s i
        \<and> i \<notin> (\<lambda>j. page_index pf s (frame_of pf s j)) ` {k..<k + n})
   \<and> pool_pages pf s' = pool_pages pf s \<and> page_index pf s' = page_index pf s"

lemma mfree_page_unmaps:
  assumes ok: "space_ok pf s" and n: "0 < unat n" and k: "k + unat n \<le> vpages pf s"
    and u: "\<forall>i. k \<le> i \<and> i < k + unat n \<longrightarrow> vused pf s i"
    and lim: "pf = PF_USER \<longrightarrow> (\<forall>i. k \<le> i \<and> i < k + unat n \<longrightarrow> vpage pf s i < 0xbffff000)"
  shows "\<exists>s'. mfree_page pf (vpage pf s k) n s = Inr s' \<and> pools_ok s' \<and> vrange_ok pf s'
     \<and> unmapped_state pf s k (unat n) s'"
proof -
  have pools: "pools_ok s" and vr: "vrange_ok pf s" and mp: "mapping_ok pf s"
    using ok by (simp_all add: space_ok_def)
  have kk: "k < vpages pf s" using k n by simp
  define fs where "fs = map (frame_of pf s) [k..<k + unat n]"
  have e: "page_at (vpage pf s k) j = vpage pf s (k + j)" for j by (simp add: vpage_def page_at_add)
  have F: "page_aligned (frame_of pf s i) \<and> page_index pf s (frame_of pf s i) < pool_pages pf s"
    if "k \<le> i" "i < k + unat n" for i
    using that u k mp by (auto simp: mapping_ok_def)
  have fr: "\<forall>j<unat n. addr_v2p (ptab s) (page_at (vpage pf s k) j) = fs ! j
      \<and> page_index pf s (fs ! j) < pool_pages pf s \<and> page_aligned (fs ! j)"
    using F by (simp add: e fs_def frame_of_def)
  have b: "unat (vpage pf s k) + 4096 * unat n \<le> 4290772992"
    using unat_vpage [OF vr kk] k vr by (simp add: vrange_ok_def)
  let ?f = "frame_of pf s k"
  have f0: "page_aligned ?f" "page_index pf s ?f < pool_pages pf s" using F [of k] n by auto
  have user: "(phy_addr_start (user_pool s) \<le> ?f) = (pf = PF_USER)"
    by (rule page_index_range(1) [OF pools f0(2)])
  have lenfs: "length fs = unat n" by (simp add: fs_def)
  obtain t where t: "put_many (\<lambda>s a. pfree a s) s fs = Inr t"
    "mfree_page_loop (phy_addr_start (user_pool s) \<le> ?f) (unat n) (vpage pf s k - PG_SIZE) s
       = Inr (t\<lparr>ptab := unmap_pages (ptab s) (vpage pf s k) (unat n)\<rparr>)"
    using mfree_page_loop_eq [OF pools lenfs b fr user] by blast
  let ?t = "t\<lparr>ptab := unmap_pages (ptab s) (vpage pf s k) (unat n)\<rparr>"
  have "\<forall>f \<in> set fs. page_index pf s f < pool_pages pf s" using F by (auto simp: fs_def)
  note T = put_many_pfree [OF pools this t(1)]
  have wf: "bm_wf (vaddr_bitmap (vaddr_pool pf s))" using vr by (simp add: vrange_ok_def)
  have kb: "unat (of_nat k :: u32) = k"
    using vpage_bound [OF vr kk] by (intro unat_of_nat_u32) simp
  have idx: "(vpage pf s k - vaddr_start (vaddr_pool pf s)) div PG_SIZE = of_nat k"
  proof -
    have m: "unat (of_nat k * PG_SIZE :: u32) = 4096 * k"
      using vpage_bound [OF vr kk] kb by (subst unat_mult_u32) (simp_all add: PG_SIZE_def)
    have d: "vpage pf s k - vaddr_start (vaddr_pool pf s) = of_nat k * PG_SIZE"
      by (simp add: vpage_def page_at_def)
    have "unat ((of_nat k * PG_SIZE :: u32) div PG_SIZE) = k"
      using m by (simp add: unat_div PG_SIZE_def)
    then show ?thesis unfolding d using kb by (simp add: u32_eq_iff)
  qed
  obtain bm where bm: "bitmap_set_run (vaddr_bitmap (vaddr_pool pf s)) (of_nat k) 0 0 (unat n) = Inr bm" "bm_wf bm"
    "bm_size bm = vpages pf s"
    "\<forall>i. bm_bit bm i = (if k \<le> i \<and> i < k + unat n then False else vused pf s i)"
    using bitmap_set_run_eq [OF wf, of "of_nat k" 0 "unat n" 0] kb k by (auto simp: vpages_def vused_def)
  let ?s' = "set_vaddr_bitmap pf bm ?t"
  have vpt: "vaddr_pool pf ?t = vaddr_pool pf s" using T by simp
  have rem: "vaddr_remove pf (vpage pf s k) n ?t = Inr ?s'"
    unfolding vaddr_remove_def Let_def vpt idx using bm(1) by simp
  have "vpage pf s k mod PG_SIZE = 0" using vpage_aligned [OF vr kk] by (simp add: aligned_mod)
  moreover have "1 \<le> n" using n by (simp add: word_le_nat_alt)
  moreover have "0x102000 \<le> ?f" using page_index_range(2) [OF pools f0(2)] vr by (auto simp: vrange_ok_def)
  moreover have "?f mod PG_SIZE = 0" using f0(1) by (simp add: aligned_mod)
  ultimately have call: "mfree_page pf (vpage pf s k) n s = Inr ?s'"
    using t(2) rem by (simp add: mfree_page_def frame_of_def)
  have vp: "vaddr_pool pf ?s' = (vaddr_pool pf s)\<lparr>vaddr_bitmap := bm\<rparr>" using T by simp
  have vu: "vused pf ?s' = bm_bit bm" and vn: "vpages pf ?s' = vpages pf s"
    using vp bm(3) by (simp_all add: vused_def vpages_def)
  have pg: "page_used pf ?s' = page_used pf t" "pool_pages pf ?s' = pool_pages pf t" "page_index pf ?s' = page_index pf t"
    by (simp_all add: page_used_def pool_pages_def page_index_def)
  have vpg: "vpage pf ?s' i = vpage pf s i" for i using vp by (simp add: vpage_def)
  have "vrange_ok pf ?s'"
    using vr bm(2,4) T vp lim unfolding vrange_ok_def vu vn vpg by (auto split: if_splits)
  moreover have "unmapped_state pf s k (unat n) ?s'"
    unfolding unmapped_state_def vu vn pg
    using T bm(4) vp by (auto simp: fs_def image_image)
  moreover have "pools_ok ?s'" using T by simp
  ultimately show ?thesis using call by blast
qed

lemma unmapped_space:
  assumes ok: "space_ok pf s" and m: "unmapped_state pf s k n s'" and k: "k + n \<le> vpages pf s"
    and u: "\<forall>i. k \<le> i \<and> i < k + n \<longrightarrow> vused pf s i"
  shows "mapping_ok pf s'"
    and "\<And>i. i < vpages pf s \<Longrightarrow> \<not> (k \<le> i \<and> i < k + n) \<Longrightarrow> ptab s' (pte_ptr (vpage pf s i)) = ptab s (pte_ptr (vpage pf s i))"
proof -
  have vr: "vrange_ok pf s" and mp: "mapping_ok pf s"
    using ok by (simp_all add: space_ok_def)
  have e: "page_at (vpage pf s k) j = vpage pf s (k + j)" for j by (simp add: vpage_def page_at_add)
  have f: "vpages pf s' = vpages pf s" "vpage pf s' = vpage pf s" "page_index pf s' = page_index pf s"
    "pool_pages pf s' = pool_pages pf s"
    using m by (simp_all add: unmapped_state_def vpage_def fun_eq_iff)
  have pt: "ptab s' = unmap_pages (ptab s) (vpage pf s k) n" using m by (simp add: unmapped_state_def)
  have vu: "vused pf s' i \<longleftrightarrow> vused pf s i \<and> \<not> (k \<le> i \<and> i < k + n)" for i
    using m by (simp add: unmapped_state_def)
  have pu: "page_used pf s' i \<longleftrightarrow> page_used pf s i
      \<and> i \<notin> (\<lambda>j. page_index pf s (frame_of pf s j)) ` {k..<k + n}" for i
    using m by (simp add: unmapped_state_def)
  have pde: "ptab s' (pde_ptr w) = ptab s (pde_ptr w)" for w
  proof -
    have "pde_ptr w \<noteq> pte_ptr (page_at (vpage pf s k) j)" if "j < n" for j
    proof -
      have "k + j < vpages pf s" using that k by simp
      from unat_vpage [OF vr this] vpage_bound [OF vr this]
      have "unat (vpage pf s (k + j)) < 4290772992" by simp
      then show ?thesis unfolding e using pte_below_window by metis
    qed
    then show ?thesis unfolding pt by (simp add: unmap_pages_other)
  qed
  have old: "ptab s' (pte_ptr (vpage pf s i)) = ptab s (pte_ptr (vpage pf s i))"
    if "i < vpages pf s" "\<not> (k \<le> i \<and> i < k + n)" for i
  proof -
    have "pte_ptr (vpage pf s i) \<noteq> pte_ptr (page_at (vpage pf s k) j)" if "j < n" for j
      unfolding e using vpage_inj [OF vr \<open>i < _\<close>, of "k + j"] that k \<open>\<not> (k \<le> i \<and> _)\<close> by auto
    then show ?thesis unfolding pt by (simp add: unmap_pages_other)
  qed
  then show "\<And>i. i < vpages pf s \<Longrightarrow> \<not> (k \<le> i \<and> i < k + n) \<Longrightarrow> ptab s' (pte_ptr (vpage pf s i)) = ptab s (pte_ptr (vpage pf s i))"
    by blast
  have absent: "\<not> present (ptab s' (pte_ptr (vpage pf s i)))" if i: "k \<le> i" "i < k + n" for i
  proof -
    have kk: "k < vpages pf s" using i k by simp
    have "unat (vpage pf s k) + 4096 * n \<le> 4290772992"
      using unat_vpage [OF vr kk] k vr by (simp add: vrange_ok_def)
    from unmap_pages_absent [OF this, of "i - k" "ptab s"] i show ?thesis by (simp add: pt e)
  qed
  have ofr: "frame_of pf s' i = frame_of pf s i" if "i < vpages pf s" "\<not> (k \<le> i \<and> i < k + n)" for i
    using old [OF that] f(2) by (simp add: frame_of_def addr_v2p_def)
  have inj: "page_index pf s (frame_of pf s i) = page_index pf s (frame_of pf s j) \<Longrightarrow> i = j"
    if "i < vpages pf s" "j < vpages pf s" "vused pf s i" "vused pf s j" for i j
    using mp that by (auto simp: mapping_ok_def)
  have one: "present (ptab s' (pde_ptr (vpage pf s i)))
      \<and> (present (ptab s' (pte_ptr (vpage pf s i))) \<longleftrightarrow> vused pf s' i)
      \<and> (vused pf s' i \<longrightarrow> page_aligned (frame_of pf s' i) \<and> page_index pf s (frame_of pf s' i) < pool_pages pf s
           \<and> page_used pf s' (page_index pf s (frame_of pf s' i)))" if i: "i < vpages pf s" for i
  proof (cases "k \<le> i \<and> i < k + n")
    case True
    then show ?thesis using absent [of i] mp i by (simp add: vu pde mapping_ok_def)
  next
    case False
    have "page_index pf s (frame_of pf s i) \<notin> (\<lambda>j. page_index pf s (frame_of pf s j)) ` {k..<k + n}"
      if "vused pf s i"
    proof
      assume "page_index pf s (frame_of pf s i) \<in> (\<lambda>j. page_index pf s (frame_of pf s j)) ` {k..<k + n}"
      then obtain j where j: "k \<le> j" "j < k + n" "page_index pf s (frame_of pf s i) = page_index pf s (frame_of pf s j)"
        by auto
      then have "i = j" using inj [of i j] i k u that by auto
      then show False using j False by simp
    qed
    then show ?thesis using False ofr [OF i False] old [OF i False] mp i
      by (auto simp: vu pde pu mapping_ok_def)
  qed
  show "mapping_ok pf s'"
    unfolding mapping_ok_def f using one inj ofr by (auto simp: vu)
qed

lemma mapped_state_space:
  assumes ok: "space_ok pf s" and f: "vfree_run pf s k (length fs)"
    and m: "pools_ok s'" "vrange_ok pf s'" "mapped_state pf s k fs s'"
  shows "space_ok pf s'"
  using mapped_space [OF _ _ m(3) f] ok m by (simp add: space_ok_def)

section \<open>A concrete memory\<close>

definition demo_bitmap :: bitmap where
  "demo_bitmap = \<lparr>btmp_bytes_len = 1, btmp_bits = [0]\<rparr>"

definition demo_memory :: memory where
  "demo_memory = kthreads.extend (demo_threads\<lparr>ptab := \<lambda>a. if 0xfffff000 \<le> a then 1 else 0\<rparr>) (memory.fields
     \<lparr>pool_bitmap = demo_bitmap, bitmap_at = 0xc009a000, plock = lock_init, phy_addr_start = 0x200000, pool_size = 0x8000\<rparr>
     \<lparr>pool_bitmap = demo_bitmap, bitmap_at = 0xc009a001, plock = lock_init, phy_addr_start = 0x208000, pool_size = 0x8000\<rparr>
     \<lparr>vaddr_bitmap = demo_bitmap, vaddr_start = 0xc0100000\<rparr>
     (\<lambda>_. \<lparr>vaddr_bitmap = demo_bitmap, vaddr_start = 0x8048000\<rparr>)
     [] (\<lambda>_. []) (\<lambda>_. \<lparr>adesc = None, large = False, acnt = 0\<rparr>) (\<lambda>_. 0))"

lemma demo_bm: "bm_wf demo_bitmap" "bm_size demo_bitmap = 8" "i < 8 \<Longrightarrow> \<not> bm_bit demo_bitmap i"
  by (simp_all add: bm_wf_def bm_size_def bm_bit_def demo_bitmap_def)

lemma demo_space: "space_ok PF_KERNEL demo_memory"
proof -
  have "pools_ok demo_memory"
    by (simp add: pools_ok_def demo_memory_def kthreads.defs memory.defs pool_ok_def demo_bm page_aligned_def)
  moreover have vr: "vrange_ok PF_KERNEL demo_memory"
    by (simp add: vrange_ok_def demo_memory_def kthreads.defs memory.defs demo_bm page_aligned_def vpages_def vaddr_pool_def mem_pool_def)
  moreover have "mapping_ok PF_KERNEL demo_memory"
  proof -
    have n: "vpages PF_KERNEL demo_memory = 8" "\<And>i. i < 8 \<Longrightarrow> \<not> vused PF_KERNEL demo_memory i"
      by (simp_all add: vpages_def vused_def vaddr_pool_def demo_memory_def kthreads.defs memory.defs demo_bm)
    have pt: "ptab demo_memory = (\<lambda>a. if 0xfffff000 \<le> a then 1 else 0)"
      by (simp add: demo_memory_def kthreads.defs memory.defs)
    have "0xfffff000 \<le> pde_ptr w" for w by (simp add: word_le_nat_alt pde_ptr_eq)
    moreover have "\<not> 0xfffff000 \<le> pte_ptr (vpage PF_KERNEL demo_memory i)" if "i < 8" for i
    proof -
      have st: "vaddr_start (vaddr_pool PF_KERNEL demo_memory) = 0xc0100000"
        by (simp add: vaddr_pool_def demo_memory_def kthreads.defs memory.defs)
      have "page_of (vpage PF_KERNEL demo_memory i) = 0xc0100 + i"
        using page_of_vpage [OF vr, of i] that n(1) by (simp add: st page_of_def [of "0xc0100000"])
      then show ?thesis using that by (simp add: word_le_nat_alt pte_ptr_eq)
    qed
    ultimately show ?thesis by (simp add: mapping_ok_def n pt present_def)
  qed
  ultimately show ?thesis by (simp add: space_ok_def)
qed

lemma demo_room:
  "vfree_run PF_KERNEL demo_memory 0 3" "3 \<le> free_frames PF_KERNEL demo_memory"
proof -
  show "vfree_run PF_KERNEL demo_memory 0 3"
    by (simp add: vfree_run_def vpages_def vused_def vaddr_pool_def demo_memory_def kthreads.defs memory.defs demo_bm)
  have "{i. i < pool_pages PF_KERNEL demo_memory \<and> \<not> page_used PF_KERNEL demo_memory i} = {..<8}"
    by (auto simp: pool_pages_def page_used_def mem_pool_def demo_memory_def kthreads.defs memory.defs demo_bm)
  then show "3 \<le> free_frames PF_KERNEL demo_memory" by (simp add: free_frames_def)
qed

section \<open>Properties\<close>

text \<open>C3: malloc_page, on an address space where page table, virtual bitmap and physical bitmap agree and
  with enough free frames, returns the first run of free virtual pages; each is mapped to a frame of
  its own that was free; exactly those pages and frames become used, the other entries of the space
  stay, and the three structures still agree.\<close>
theorem malloc_page_spec:
  assumes ok: "space_ok pf s" and n: "0 < unat n" "n < 3840"
    and f: "vfree_run pf s k (unat n)" and first: "\<forall>k'. vfree_run pf s k' (unat n) \<longrightarrow> k \<le> k'"
    and fr: "unat n \<le> free_frames pf s"
  shows "\<exists>s'. malloc_page pf n s = Inr (vpage pf s k, s') \<and> space_ok pf s'
     \<and> (\<forall>i. vused pf s' i \<longleftrightarrow> vused pf s i \<or> k \<le> i \<and> i < k + unat n)
     \<and> (\<forall>j. page_used pf s' j \<longleftrightarrow> page_used pf s j
          \<or> j \<in> (\<lambda>i. page_index pf s (frame_of pf s' (k + i))) ` {..<unat n})
     \<and> (\<forall>i < unat n. \<not> page_used pf s (page_index pf s (frame_of pf s' (k + i))))
     \<and> inj_on (\<lambda>i. page_index pf s (frame_of pf s' (k + i))) {..<unat n}
     \<and> (\<forall>i < vpages pf s. \<not> (k \<le> i \<and> i < k + unat n)
          \<longrightarrow> ptab s' (pte_ptr (vpage pf s i)) = ptab s (pte_ptr (vpage pf s i)))"
proof -
  obtain s' fs where s': "malloc_page pf n s = Inr (vpage pf s k, s')" "length fs = unat n"
    "pools_ok s'" "vrange_ok pf s'" "mapped_state pf s k fs s'"
    using malloc_page_maps [OF assms] by blast
  have vr: "vrange_ok pf s" using ok by (simp add: space_ok_def)
  have kn: "k + length fs \<le> vpages pf s" using f s'(2) by (simp add: vfree_run_def)
  note m = s'(5)
  have idx: "page_index pf s (frame_of pf s' (k + i)) = map (page_index pf s) fs ! i" if "i < unat n" for i
    using mapped_frame_new(2) [OF vr m kn, of i] that s'(2) by simp
  have "map (\<lambda>i. page_index pf s (frame_of pf s' (k + i))) [0..<unat n] = map (page_index pf s) fs"
    using idx s'(2) by (intro nth_equalityI) simp_all
  from arg_cong [OF this, of set]
  have "(\<lambda>i. page_index pf s (frame_of pf s' (k + i))) ` {..<unat n} = page_index pf s ` set fs"
    by (simp add: atLeast0LessThan)
  moreover have "inj_on (\<lambda>i. page_index pf s (frame_of pf s' (k + i))) {..<unat n}"
    using m s'(2) by (auto simp: inj_on_def idx mapped_state_def nth_eq_iff_index_eq simp del: nth_map)
  moreover have "\<forall>i < unat n. \<not> page_used pf s (page_index pf s (frame_of pf s' (k + i)))"
    using m s'(2) by (simp add: idx mapped_state_def)
  moreover have "space_ok pf s'"
    using mapped_state_space [OF ok _ s'(3,4) m] f s'(2) by simp
  ultimately show ?thesis
    using s'(1,2) m mapped_other(1) [OF vr m kn] by (auto simp: mapped_state_def)
qed

lemma malloc_page_spec_witness:
  "\<exists>s'. malloc_page PF_KERNEL 3 demo_memory = Inr (vpage PF_KERNEL demo_memory 0, s') \<and> space_ok PF_KERNEL s'"
  using malloc_page_spec [OF demo_space, of 3 0] demo_room by auto

text \<open>C13: What malloc_page gave mfree_page takes back: after both, the virtual bitmap, the physical
  bitmap and which pages are mapped are what they were, and the space is consistent again.\<close>
theorem malloc_mfree_roundtrip:
  assumes ok: "space_ok pf s" and n: "0 < unat n" "n < 3840"
    and f: "vfree_run pf s k (unat n)" and first: "\<forall>k'. vfree_run pf s k' (unat n) \<longrightarrow> k \<le> k'"
    and fr: "unat n \<le> free_frames pf s"
  shows "\<exists>va s' s''. malloc_page pf n s = Inr (va, s') \<and> va \<noteq> NULL \<and> mfree_page pf va n s' = Inr s''
     \<and> space_ok pf s'' \<and> vused pf s'' = vused pf s \<and> page_used pf s'' = page_used pf s
     \<and> (\<forall>i < vpages pf s. present (ptab s'' (pte_ptr (vpage pf s i))) = present (ptab s (pte_ptr (vpage pf s i))))"
proof -
  obtain s' fs where s': "malloc_page pf n s = Inr (vpage pf s k, s')" "length fs = unat n"
    "pools_ok s'" "vrange_ok pf s'" "mapped_state pf s k fs s'"
    using malloc_page_maps [OF assms] by blast
  note m = s'(5)
  have vr: "vrange_ok pf s" and mp: "mapping_ok pf s" using ok by (simp_all add: space_ok_def)
  have kn: "k + length fs \<le> vpages pf s" using f s'(2) by (simp add: vfree_run_def)
  have ok': "space_ok pf s'" using mapped_state_space [OF ok _ s'(3,4) m] f s'(2) by simp
  have vp: "vpage pf s' = vpage pf s" "vpages pf s' = vpages pf s" "page_index pf s' = page_index pf s"
    using m by (simp_all add: mapped_state_def vpage_def fun_eq_iff)
  have u: "\<forall>i. k \<le> i \<and> i < k + unat n \<longrightarrow> vused pf s' i" using m s'(2) by (simp add: mapped_state_def)
  have nu: "\<not> vused pf s i" if "k \<le> i" "i < k + unat n" for i
    using f that by (auto simp: vfree_run_def dest: spec [of _ "i - k"])
  have lim: "pf = PF_USER \<longrightarrow> (\<forall>i. k \<le> i \<and> i < k + unat n \<longrightarrow> vpage pf s' i < 0xbffff000)"
    using vr nu kn s'(2) unfolding vp vrange_ok_def by auto
  have kn': "k + unat n \<le> vpages pf s'" using kn s'(2) vp by simp
  obtain s'' where s'': "mfree_page pf (vpage pf s' k) n s' = Inr s''" "pools_ok s''" "vrange_ok pf s''"
    "unmapped_state pf s' k (unat n) s''"
    using mfree_page_unmaps [OF ok' n(1) kn' u lim] by blast
  note m' = s''(4)
  have mp': "mapping_ok pf s''" by (rule unmapped_space(1) [OF ok' m' kn' u])
  then have ok'': "space_ok pf s''" using s''(2,3) by (simp add: space_ok_def)
  have vu: "vused pf s'' = vused pf s"
    using m m' s'(2) nu by (auto simp: mapped_state_def unmapped_state_def fun_eq_iff)
  have img: "(\<lambda>j. page_index pf s' (frame_of pf s' j)) ` {k..<k + unat n} = page_index pf s ` set fs"
  proof -
    have "map (frame_of pf s') [k..<k + unat n] = fs"
      using mapped_frame_new(2) [OF vr m kn] s'(2) by (intro nth_equalityI) auto
    then have "frame_of pf s' ` {k..<k + unat n} = set fs" by (metis list.set_map set_upt)
    then show ?thesis unfolding vp by (metis image_image)
  qed
  have "page_used pf s'' = page_used pf s"
    using m m' img by (auto simp: mapped_state_def unmapped_state_def fun_eq_iff)
  moreover have "present (ptab s'' (pte_ptr (vpage pf s i))) = present (ptab s (pte_ptr (vpage pf s i)))"
    if "i < vpages pf s" for i
  proof -
    have "vpage pf s'' = vpage pf s" "vpages pf s'' = vpages pf s"
      using m' vp by (simp_all add: unmapped_state_def vpage_def fun_eq_iff)
    then show ?thesis using mp mp' that vu by (simp add: mapping_ok_def)
  qed
  ultimately show ?thesis
    using s'(1) s''(1) ok'' vu vp(1) vpage_nonnull [OF vr, of k] kn n(1) s'(2) by auto
qed

lemma malloc_mfree_roundtrip_witness:
  "\<exists>va s' s''. malloc_page PF_KERNEL 3 demo_memory = Inr (va, s') \<and> mfree_page PF_KERNEL va 3 s' = Inr s''
     \<and> page_used PF_KERNEL s'' = page_used PF_KERNEL demo_memory"
  using malloc_mfree_roundtrip [OF demo_space, of 3 0] demo_room by auto


section \<open>Frames and the layout of the pools\<close>

text \<open>palloc called n times on the kernel pool, with n frames free, gives n distinct page-aligned
  frames of the kernel's part of memory that were free, and marks exactly those.\<close>
theorem palloc_many:
  assumes "pools_ok s" "n \<le> free_frames PF_KERNEL s"
  shows "\<exists>fs s'. take_many (palloc_in PF_KERNEL) n s = Inr (fs, s') \<and> length fs = n
     \<and> distinct (map (page_index PF_KERNEL s) fs)
     \<and> (\<forall>f \<in> set fs. f \<noteq> NULL \<and> page_aligned f \<and> f < phy_addr_start (user_pool s)
          \<and> \<not> page_used PF_KERNEL s (page_index PF_KERNEL s f))
     \<and> (\<forall>i. page_used PF_KERNEL s' i \<longleftrightarrow> page_used PF_KERNEL s i \<or> i \<in> page_index PF_KERNEL s ` set fs)"
proof -
  obtain fs s' where t: "take_many (palloc_in PF_KERNEL) n s = Inr (fs, s')"
    using kernel_pages.take_many_progress [OF assms(1), of n] assms(2) by (auto simp: free_frames_def)
  note D = kernel_pages.take_many_distinct [OF assms(1) t]
  have al: "\<forall>f \<in> set fs. page_aligned f" using take_many_keeps [OF t assms(1)] by simp
  have "f \<noteq> NULL \<and> f < phy_addr_start (user_pool s)" if "f \<in> set fs" for f
  proof -
    have i: "page_index PF_KERNEL s f < pool_pages PF_KERNEL s" using D that by blast
    have "\<not> phy_addr_start (user_pool s) \<le> f" using page_index_range(1) [OF assms(1) i] by simp
    moreover have "phy_addr_start (kernel_pool s) \<le> f"
      using page_index_range(2) [OF assms(1) i] by (simp add: mem_pool_def)
    moreover have "phy_addr_start (kernel_pool s) \<noteq> NULL" using assms(1) by (simp add: pools_ok_def pool_ok_def)
    ultimately show ?thesis by (auto simp: not_le)
  qed
  then show ?thesis using t D al by auto
qed

lemma palloc_many_witness:
  "\<exists>fs s'. take_many (palloc_in PF_KERNEL) 3 demo_memory = Inr (fs, s') \<and> length fs = 3
     \<and> distinct (map (page_index PF_KERNEL demo_memory) fs)"
proof -
  have "pools_ok demo_memory" using demo_space by (simp add: space_ok_def)
  then show ?thesis using palloc_many [of demo_memory 3] demo_room(2) by blast
qed

text \<open>The number of pages mem_pool_init counts: a 16-bit variable.\<close>

lemma unat_ucast_u16: "unat (ucast (x :: u16) :: u32) = unat x"
  using unat_u16_less [of x] by (simp add: unsigned_ucast_eq take_bit_nat_eq_self)

definition counted_pages :: "u32 \<Rightarrow> nat" where
  "counted_pages all_mem = ((unat all_mem - 0x200000) div 4096) mod 65536"

lemma bitmap_init_on:
  "bitmap_init (bitmap_on m a len) = Inr \<lparr>btmp_bytes_len = len, btmp_bits = replicate (unat len) 0\<rparr>"
  by (simp add: bitmap_init_def bitmap_on_def)

lemma mem_pool_init_result:
  assumes "0x200000 \<le> all_mem"
  defines "N \<equiv> counted_pages all_mem"
  shows "\<exists>s' kb ub. mem_pool_init all_mem s = Inr s'
     \<and> unat kb = N div 2 div 8 \<and> unat ub = (N - N div 2) div 8
     \<and> pool_bitmap (kernel_pool s') = \<lparr>btmp_bytes_len = kb, btmp_bits = replicate (unat kb) 0\<rparr>
     \<and> pool_bitmap (user_pool s') = \<lparr>btmp_bytes_len = ub, btmp_bits = replicate (unat ub) 0\<rparr>
     \<and> vaddr_bitmap (kernel_vaddr s') = \<lparr>btmp_bytes_len = kb, btmp_bits = replicate (unat kb) 0\<rparr>
     \<and> vaddr_start (kernel_vaddr s') = K_HEAP_START
     \<and> bitmap_at (kernel_pool s') = MEM_BITMAP_BASE \<and> bitmap_at (user_pool s') = MEM_BITMAP_BASE + kb
     \<and> phy_addr_start (kernel_pool s') = 0x200000
     \<and> unat (phy_addr_start (user_pool s')) = 0x200000 + 4096 * (N div 2)
     \<and> unat (pool_size (kernel_pool s')) = 4096 * (N div 2)
     \<and> unat (pool_size (user_pool s')) = 4096 * (N - N div 2)
     \<and> plock (kernel_pool s') = lock_init \<and> plock (user_pool s') = lock_init
     \<and> s' = s\<lparr>kernel_pool := kernel_pool s', user_pool := user_pool s', kernel_vaddr := kernel_vaddr s'\<rparr>"
proof -
  have N: "N < 65536" by (simp add: N_def counted_pages_def)
  let ?all = "ucast ((all_mem - 0x200000) div PG_SIZE) :: u16"
  let ?k = "?all div 2" and ?u = "?all - ?all div 2"
  have d: "unat (all_mem - 0x200000) = unat all_mem - 0x200000" using unat_sub_u32 [OF assms(1)] by simp
  have all: "unat ?all = N"
    by (simp add: N_def counted_pages_def unsigned_ucast_eq unat_div d PG_SIZE_def take_bit_eq_mod)
  have k: "unat ?k = N div 2" using all by (simp add: unat_div)
  have "?k \<le> ?all" by (simp add: word_le_nat_alt k all)
  then have u: "unat ?u = N - N div 2" using all k by (simp add: unat_sub)
  have kb: "unat (ucast (?k div 8) :: u32) = N div 2 div 8"
    by (simp add: unat_ucast_u16 unat_div all)
  have ub: "unat (ucast (?u div 8) :: u32) = (N - N div 2) div 8"
    by (simp add: unat_ucast_u16 unat_div u)
  have ks: "unat (ucast ?k * PG_SIZE :: u32) = 4096 * (N div 2)"
    using k N by (subst unat_mult_u32) (simp_all add: unat_ucast_u16 PG_SIZE_def)
  have us: "unat (ucast ?u * PG_SIZE :: u32) = 4096 * (N - N div 2)"
    using u N by (subst unat_mult_u32) (simp_all add: unat_ucast_u16 PG_SIZE_def)
  have st: "unat (0x200000 + ucast ?k * PG_SIZE :: u32) = 0x200000 + 4096 * (N div 2)"
    using ks N by (subst unat_add_u32) simp_all
  have used: "256 * PG_SIZE + 0x100000 = (0x200000 :: u32)" by (simp add: PG_SIZE_def)
  let ?kb = "ucast (?k div 8) :: u32" and ?ub = "ucast (?u div 8) :: u32"
  obtain s' where s': "mem_pool_init all_mem s = Inr s'"
    "kernel_pool s' = \<lparr>pool_bitmap = \<lparr>btmp_bytes_len = ?kb, btmp_bits = replicate (unat ?kb) 0\<rparr>,
       bitmap_at = MEM_BITMAP_BASE, plock = lock_init, phy_addr_start = 0x200000, pool_size = ucast ?k * PG_SIZE\<rparr>"
    "user_pool s' = \<lparr>pool_bitmap = \<lparr>btmp_bytes_len = ?ub, btmp_bits = replicate (unat ?ub) 0\<rparr>,
       bitmap_at = MEM_BITMAP_BASE + ?kb, plock = lock_init,
       phy_addr_start = 0x200000 + ucast ?k * PG_SIZE, pool_size = ucast ?u * PG_SIZE\<rparr>"
    "kernel_vaddr s' = \<lparr>vaddr_bitmap = \<lparr>btmp_bytes_len = ?kb, btmp_bits = replicate (unat ?kb) 0\<rparr>,
       vaddr_start = K_HEAP_START\<rparr>"
    "s' = s\<lparr>kernel_pool := kernel_pool s', user_pool := user_pool s', kernel_vaddr := kernel_vaddr s'\<rparr>"
    using that unfolding mem_pool_init_def Let_def used bitmap_init_on bindR_simps by simp
  show ?thesis
    by (rule exI [of _ s'], rule exI [of _ ?kb], rule exI [of _ ?ub], intro conjI s'(1,5), unfold s'(2-4) kb ub)
       (simp_all add: ks us st)
qed

lemma mem_pool_init_pools:
  assumes "0x200000 \<le> all_mem"
  shows "\<exists>s'. mem_pool_init all_mem s = Inr s' \<and> pools_ok s'
     \<and> phy_addr_start (kernel_pool s') = 0x200000
     \<and> unat (phy_addr_start (user_pool s')) = unat (phy_addr_start (kernel_pool s')) + unat (pool_size (kernel_pool s'))
     \<and> unat (phy_addr_start (user_pool s')) + unat (pool_size (user_pool s')) \<le> unat all_mem
     \<and> unat (pool_size (kernel_pool s')) + unat (pool_size (user_pool s'))
         = 4096 * (((unat all_mem - 0x200000) div 4096) mod 65536)
     \<and> (\<forall>pf. \<forall>i < pool_pages pf s'. \<not> page_used pf s' i)
     \<and> (\<forall>i < vpages PF_KERNEL s'. \<not> vused PF_KERNEL s' i) \<and> vpages PF_KERNEL s' = pool_pages PF_KERNEL s'
     \<and> unat (bitmap_at (user_pool s')) = unat (bitmap_at (kernel_pool s')) + pool_pages PF_KERNEL s' div 8
     \<and> unat (bitmap_at (user_pool s')) + pool_pages PF_USER s' div 8 + vpages PF_KERNEL s' div 8 \<le> 0xc009e000
     \<and> pool_pages PF_KERNEL s' = 8 * (counted_pages all_mem div 16) \<and> vrange_ok PF_KERNEL s'
     \<and> vaddr_start (kernel_vaddr s') = K_HEAP_START
     \<and> plock (kernel_pool s') = lock_init \<and> plock (user_pool s') = lock_init
     \<and> s' = s\<lparr>kernel_pool := kernel_pool s', user_pool := user_pool s', kernel_vaddr := kernel_vaddr s'\<rparr>"
proof -
  let ?N = "counted_pages all_mem"
  have N: "?N < 65536" "?N \<le> (unat all_mem - 0x200000) div 4096"
    by (simp_all add: counted_pages_def)
  have mem: "4096 * ?N + 0x200000 \<le> unat all_mem"
  proof -
    have "4096 * ?N \<le> 4096 * ((unat all_mem - 0x200000) div 4096)" using N(2) by simp
    also have "\<dots> \<le> unat all_mem - 0x200000" by simp
    finally show ?thesis using assms by (simp add: word_le_nat_alt)
  qed
  obtain s' kb ub where i: "mem_pool_init all_mem s = Inr s'"
    and b: "unat kb = ?N div 2 div 8" "unat ub = (?N - ?N div 2) div 8"
    and p: "pool_bitmap (kernel_pool s') = \<lparr>btmp_bytes_len = kb, btmp_bits = replicate (unat kb) 0\<rparr>"
      "pool_bitmap (user_pool s') = \<lparr>btmp_bytes_len = ub, btmp_bits = replicate (unat ub) 0\<rparr>"
      "vaddr_bitmap (kernel_vaddr s') = \<lparr>btmp_bytes_len = kb, btmp_bits = replicate (unat kb) 0\<rparr>"
      "bitmap_at (kernel_pool s') = MEM_BITMAP_BASE" "bitmap_at (user_pool s') = MEM_BITMAP_BASE + kb"
    and a: "phy_addr_start (kernel_pool s') = 0x200000"
      "unat (phy_addr_start (user_pool s')) = 0x200000 + 4096 * (?N div 2)"
      "unat (pool_size (kernel_pool s')) = 4096 * (?N div 2)"
      "unat (pool_size (user_pool s')) = 4096 * (?N - ?N div 2)"
    and e: "vaddr_start (kernel_vaddr s') = K_HEAP_START" "plock (kernel_pool s') = lock_init" "plock (user_pool s') = lock_init"
    and fr: "s' = s\<lparr>kernel_pool := kernel_pool s', user_pool := user_pool s', kernel_vaddr := kernel_vaddr s'\<rparr>"
    using mem_pool_init_result [OF assms, of s] by blast
  have k8: "8 * (?N div 2 div 8) \<le> ?N div 2" and u8: "8 * ((?N - ?N div 2) div 8) \<le> ?N - ?N div 2" by simp_all
  have lt: "?N div 2 < 65536" "?N - ?N div 2 < 65536" using N by simp_all
  have half: "?N div 2 + (?N - ?N div 2) = ?N" by simp
  have pages: "pool_pages PF_KERNEL s' = 8 * (?N div 2 div 8)" "pool_pages PF_USER s' = 8 * ((?N - ?N div 2) div 8)"
    "vpages PF_KERNEL s' = 8 * (?N div 2 div 8)"
    by (simp_all add: pool_pages_def vpages_def mem_pool_def vaddr_pool_def p bm_size_def b)
  have ok: "pools_ok s'"
  proof -
    have "bm_wf (pool_bitmap (kernel_pool s'))" "bm_wf (pool_bitmap (user_pool s'))"
      unfolding p bm_wf_def using b lt by simp_all linarith+
    moreover have "bm_size (pool_bitmap (kernel_pool s')) = 8 * (?N div 2 div 8)"
      "bm_size (pool_bitmap (user_pool s')) = 8 * ((?N - ?N div 2) div 8)"
      using pages by (simp_all add: pool_pages_def mem_pool_def)
    moreover have "page_aligned (phy_addr_start (user_pool s'))" by (simp add: aligned_unat a mod_add_eq [symmetric])
    moreover have "phy_addr_start (user_pool s') \<noteq> NULL" using a(2) by auto
    ultimately show ?thesis
      by (simp add: pools_ok_def pool_ok_def a page_aligned_def) (use k8 u8 lt in linarith)
  qed
  have vr: "vrange_ok PF_KERNEL s'"
  proof -
    have "bm_wf (vaddr_bitmap (kernel_vaddr s'))" unfolding p bm_wf_def using b lt by simp linarith
    then show ?thesis using k8 lt pages(3)
      by (simp add: vrange_ok_def vaddr_pool_def mem_pool_def e a page_aligned_def K_HEAP_START_def)
  qed
  have kp: "pool_pages PF_KERNEL s' = 8 * (?N div 16)" using pages(1) by (simp add: div_mult2_eq [symmetric])
  have "\<not> page_used pf s' i" if "i < pool_pages pf s'" for pf i
    using that bm_bit_cleared [of i] b
    by (cases pf) (simp_all add: page_used_def pages mem_pool_def p)
  moreover have "\<not> vused PF_KERNEL s' i" if "i < vpages PF_KERNEL s'" for i
    using that bm_bit_cleared [of i] b by (simp add: vused_def pages vaddr_pool_def p)
  moreover have "unat (bitmap_at (user_pool s')) = unat (bitmap_at (kernel_pool s')) + ?N div 2 div 8"
    unfolding p by (subst unat_add_u32) (simp_all add: MEM_BITMAP_BASE_def b, use lt in linarith)
  moreover have "?N div 2 div 8 + (?N - ?N div 2) div 8 + ?N div 2 div 8 \<le> 0x4000"
  proof -
    have *: "8 * x \<le> a \<Longrightarrow> 8 * y \<le> b \<Longrightarrow> a < 32768 \<Longrightarrow> b < 65536 \<Longrightarrow> x + y + x \<le> 0x4000" for x y a b :: nat
      by simp
    have "?N div 2 < 32768" using N(1) by simp
    then show ?thesis by (rule * [OF k8 u8 _ lt(2)])
  qed
  moreover have s4: "4096 * (?N div 2) + 4096 * (?N - ?N div 2) = 4096 * ?N"
    unfolding distrib_left [symmetric] half ..
  moreover have "unat (phy_addr_start (user_pool s')) = unat (phy_addr_start (kernel_pool s')) + unat (pool_size (kernel_pool s'))"
    unfolding a by simp
  moreover have "unat (phy_addr_start (user_pool s')) + unat (pool_size (user_pool s')) \<le> unat all_mem"
    unfolding a using mem s4 by (simp only: add.assoc add.commute)
  moreover have "unat (pool_size (kernel_pool s')) + unat (pool_size (user_pool s')) = 4096 * ?N"
    unfolding a by (rule s4)
  moreover have "unat (bitmap_at (user_pool s')) + pool_pages PF_USER s' div 8 + vpages PF_KERNEL s' div 8
      = 0xc009a000 + (?N div 2 div 8 + (?N - ?N div 2) div 8 + ?N div 2 div 8)"
    unfolding pages using \<open>unat (bitmap_at (user_pool s')) = _\<close> by (simp add: p MEM_BITMAP_BASE_def)
  moreover have "pool_pages PF_KERNEL s' div 8 = ?N div 2 div 8" "vpages PF_KERNEL s' = pool_pages PF_KERNEL s'"
    unfolding pages by simp_all
  ultimately show ?thesis
    unfolding counted_pages_def [symmetric]
    by (intro exI [of _ s'] conjI allI impI i ok a(1) vr kp e fr) (assumption | simp)+
qed

text \<open>C20: mem_pool_init lays the kernel pool, then the user pool, from 2 MB on inside the memory there
  is, all frames free, with the three bitmaps one after the other below the main thread's PCB at
  0xc009e000. The pages shared out are those above 2 MB modulo 2^16: the count is kept in 16 bits.\<close>
theorem mem_pool_init_layout:
  assumes "0x200000 \<le> all_mem"
  shows "\<exists>s'. mem_pool_init all_mem s = Inr s' \<and> pools_ok s'
     \<and> phy_addr_start (kernel_pool s') = 0x200000
     \<and> unat (phy_addr_start (user_pool s')) = unat (phy_addr_start (kernel_pool s')) + unat (pool_size (kernel_pool s'))
     \<and> unat (phy_addr_start (user_pool s')) + unat (pool_size (user_pool s')) \<le> unat all_mem
     \<and> unat (pool_size (kernel_pool s')) + unat (pool_size (user_pool s'))
         = 4096 * (((unat all_mem - 0x200000) div 4096) mod 65536)
     \<and> (\<forall>pf. \<forall>i < pool_pages pf s'. \<not> page_used pf s' i)
     \<and> (\<forall>i < vpages PF_KERNEL s'. \<not> vused PF_KERNEL s' i) \<and> vpages PF_KERNEL s' = pool_pages PF_KERNEL s'
     \<and> unat (bitmap_at (user_pool s')) = unat (bitmap_at (kernel_pool s')) + pool_pages PF_KERNEL s' div 8
     \<and> unat (bitmap_at (user_pool s')) + pool_pages PF_USER s' div 8 + vpages PF_KERNEL s' div 8 \<le> 0xc009e000"
  using mem_pool_init_pools [OF assms, of s] by blast

lemma mem_pool_init_layout_witness:
  "\<exists>s'. mem_pool_init 0x20000000 demo_memory = Inr s' \<and> pools_ok s'
     \<and> unat (pool_size (kernel_pool s')) + unat (pool_size (user_pool s')) = 4096 * 65024"
  using mem_pool_init_layout [of "0x20000000" demo_memory] by auto


end
