(* ===== verification/Malloc.thy ===== *)
theory Malloc
  imports Paging
begin

text \<open>
  The heap of kernel/memory.c: block_init, sys_malloc and sys_free. A page cut into equal blocks is an
  arena; the seven descriptors keep the free blocks of 16, 32, ..., 1024 bytes. Requests above 1024
  bytes get whole pages behind an arena header.
\<close>

section \<open>Descriptors\<close>

definition descs :: "pool_flags \<Rightarrow> memory \<Rightarrow> mem_block_desc list" where
  "descs pf s = (case pf of PF_KERNEL \<Rightarrow> k_block_descs s | PF_USER \<Rightarrow> u_block_desc s (running_thread s))"

definition desc_ref :: "pool_flags \<Rightarrow> memory \<Rightarrow> nat \<Rightarrow> desc_ptr" where
  "desc_ref pf s i = (case pf of PF_KERNEL \<Rightarrow> KDesc i | PF_USER \<Rightarrow> UDesc (running_thread s) i)"

definition get_desc :: "memory \<Rightarrow> desc_ptr \<Rightarrow> mem_block_desc" where
  "get_desc s d = (case d of KDesc i \<Rightarrow> k_block_descs s ! i | UDesc t i \<Rightarrow> u_block_desc s t ! i)"

definition set_desc :: "desc_ptr \<Rightarrow> mem_block_desc \<Rightarrow> memory \<Rightarrow> memory" where
  "set_desc d v s = (case d of
      KDesc i \<Rightarrow> s\<lparr>k_block_descs := (k_block_descs s)[i := v]\<rparr>
    | UDesc t i \<Rightarrow> s\<lparr>u_block_desc := (u_block_desc s)(t := (u_block_desc s t)[i := v])\<rparr>)"

fun block_init_loop :: "nat \<Rightarrow> u16 \<Rightarrow> mem_block_desc list" where
  "block_init_loop 0 bs = []"
| "block_init_loop (Suc n) bs =
     \<lparr>block_size = ucast bs, block_per_arena = (PG_SIZE - sizeof_arena) div ucast bs, free_list = []\<rparr>
     # block_init_loop n (bs * 2)"

definition block_init :: "mem_block_desc list" where
  "block_init = block_init_loop DESC_CNT 16"

definition mem_init :: "u32 \<Rightarrow> memory \<Rightarrow> memory res" where
  "mem_init mem_bytes_total s =
     bindR (mem_pool_init mem_bytes_total s) (\<lambda>s. Inr (s\<lparr>k_block_descs := block_init\<rparr>))"

section \<open>Arenas\<close>

definition arena2block :: "memory \<Rightarrow> addr \<Rightarrow> desc_ptr \<Rightarrow> u32 \<Rightarrow> addr" where
  "arena2block s ar d idx = ar + sizeof_arena + idx * block_size (get_desc s d)"

definition block2arena :: "addr \<Rightarrow> addr" where
  "block2arena b = b AND 0xfffff000"

definition upd_arena :: "addr \<Rightarrow> (arena \<Rightarrow> arena) \<Rightarrow> memory \<Rightarrow> memory" where
  "upd_arena a f s = s\<lparr>arenas := (arenas s)(a := f (arenas s a))\<rparr>"

definition upd_free :: "desc_ptr \<Rightarrow> (addr list \<Rightarrow> addr list) \<Rightarrow> memory \<Rightarrow> memory" where
  "upd_free d f s = set_desc d ((get_desc s d)\<lparr>free_list := f (free_list (get_desc s d))\<rparr>) s"

text \<open>The loop that cuts the new arena a into n blocks from block_idx on.\<close>

fun split_arena :: "addr \<Rightarrow> desc_ptr \<Rightarrow> u32 \<Rightarrow> nat \<Rightarrow> memory \<Rightarrow> memory res" where
  "split_arena a d block_idx 0 s = Inr s"
| "split_arena a d block_idx (Suc n) s =
     (let b = arena2block s a d block_idx
      in if b \<in> set (free_list (get_desc s d))
         then Inl (Assertion ''!elem_find(&a->desc->free_list, &b->free_elem)'')
         else split_arena a d (block_idx + 1) n (upd_free d (\<lambda>l. l @ [b]) s))"

text \<open>The loop that takes the blocks of an arena off the free list.\<close>

fun unlink_arena :: "addr \<Rightarrow> desc_ptr \<Rightarrow> u32 \<Rightarrow> nat \<Rightarrow> memory \<Rightarrow> memory res" where
  "unlink_arena a d block_idx 0 s = Inr s"
| "unlink_arena a d block_idx (Suc n) s =
     (let b = arena2block s a d block_idx
      in if b \<notin> set (free_list (get_desc s d))
         then Inl (Assertion ''elem_find(&a->desc->free_list, &b->free_elem)'')
         else unlink_arena a d (block_idx + 1) n (upd_free d (remove1 b) s))"

section \<open>sys_malloc\<close>

fun find_desc :: "mem_block_desc list \<Rightarrow> u32 \<Rightarrow> nat" where
  "find_desc [] sz = 0"
| "find_desc (d # ds) sz = (if sz \<le> block_size d then 0 else Suc (find_desc ds sz))"

text \<open>A request of more than 1024 bytes. The branch that succeeds returns without lock_release.\<close>

definition malloc_large :: "pool_flags \<Rightarrow> u32 \<Rightarrow> memory \<Rightarrow> (addr \<times> memory) res" where
  "malloc_large pf sz s =
     (let page_cnt = DIV_ROUND_UP (sz + sizeof_arena) PG_SIZE in
      bindR (malloc_page pf page_cnt s) (\<lambda>(a, s).
        if a \<noteq> NULL then
          bindR (memset_bytes a 0 (page_cnt * PG_SIZE) s) (\<lambda>s.
            Inr (a + sizeof_arena, upd_arena a (\<lambda>_. \<lparr>adesc = None, large = True, acnt = page_cnt\<rparr>) s))
        else bindR (pool_unlock pf s) (\<lambda>s. Inr (NULL, s))))"

text \<open>The new arena of a small request, when the descriptor has no free block; NULL without pages.\<close>

definition new_arena :: "pool_flags \<Rightarrow> desc_ptr \<Rightarrow> memory \<Rightarrow> (bool \<times> memory) res" where
  "new_arena pf d s =
     bindR (malloc_page pf 1 s) (\<lambda>(a, s).
       if a = NULL then Inr (False, s)
       else bindR (memset_bytes a 0 PG_SIZE s) (\<lambda>s.
         let s = upd_arena a (\<lambda>_. \<lparr>adesc = Some d, large = False, acnt = block_per_arena (get_desc s d)\<rparr>) s;
             old_status = intr s;
             s = s\<lparr>intr := snd (intr_disable (intr s))\<rparr>
         in bindR (split_arena a d 0 (unat (block_per_arena (get_desc s d))) s) (\<lambda>s.
              Inr (True, s\<lparr>intr := snd (intr_set_status (intr s) old_status)\<rparr>))))"

definition malloc_small :: "pool_flags \<Rightarrow> u32 \<Rightarrow> memory \<Rightarrow> (addr \<times> memory) res" where
  "malloc_small pf sz s =
     (let desc_idx = find_desc (descs pf s) sz in
      if \<not> desc_idx < length (descs pf s) then Inl (Bad_access ''descs[desc_idx]'')
      else let d = desc_ref pf s desc_idx in
        bindR (if free_list (get_desc s d) = [] then new_arena pf d s else Inr (True, s)) (\<lambda>(ok, s).
          if \<not> ok then bindR (pool_unlock pf s) (\<lambda>s. Inr (NULL, s))
          else case free_list (get_desc s d) of
            [] \<Rightarrow> Inl (Assertion ''plist->head.next != &plist->tail'')
          | b # rest \<Rightarrow>
              let s = upd_free d (\<lambda>_. rest) s in
              bindR (memset_bytes b (ucast (block_size (get_desc s d))) 0 s) (\<lambda>s.
                let s = upd_arena (block2arena b) (\<lambda>a. a\<lparr>acnt := acnt a - 1\<rparr>) s
                in bindR (pool_unlock pf s) (\<lambda>s. Inr (b, s)))))"

definition task_pool :: "memory \<Rightarrow> pool_flags" where
  "task_pool s = (if pgdir (tasks s (running_thread s)) = NULL then PF_KERNEL else PF_USER)"

definition sys_malloc :: "u32 \<Rightarrow> memory \<Rightarrow> (addr \<times> memory) res" where
  "sys_malloc sz s =
     (let pf = task_pool s in
      if \<not> (0 < sz \<and> sz < pool_size (mem_pool pf s)) then Inr (NULL, s)
      else bindR (pool_lock pf s) (\<lambda>s.
        if 1024 < sz then malloc_large pf sz s else malloc_small pf sz s))"

section \<open>sys_free\<close>

text \<open>list_append does not check that the block is off the list; appending one that is on it leaves
  links that form no sequence (theory Klist), which is the Bad_access branch.\<close>

definition free_small :: "pool_flags \<Rightarrow> addr \<Rightarrow> addr \<Rightarrow> desc_ptr \<Rightarrow> memory \<Rightarrow> memory res" where
  "free_small pf b a d s =
     (if b \<in> set (free_list (get_desc s d)) then Inl (Bad_access ''free_elem'')
      else let s = upd_free d (\<lambda>l. l @ [b]) s;
          s = upd_arena a (\<lambda>ar. ar\<lparr>acnt := acnt ar + 1\<rparr>) s
      in if acnt (arenas s a) = block_per_arena (get_desc s d)
         then bindR (unlink_arena a d 0 (unat (block_per_arena (get_desc s d))) s) (mfree_page pf a 1)
         else Inr s)"

definition sys_free :: "addr \<Rightarrow> memory \<Rightarrow> memory res" where
  "sys_free ptr s =
     (if ptr = NULL then Inl (Assertion ''ptr != NULL'')
      else let pf = task_pool s in
        if pf = PF_KERNEL \<and> \<not> K_HEAP_START \<le> ptr then Inl (Assertion ''(uint32_t)ptr >= K_HEAP_START'')
        else bindR (pool_lock pf s) (\<lambda>s.
          let a = block2arena ptr in
          bindR (case adesc (arenas s a) of
                   None \<Rightarrow> mfree_page pf a (acnt (arenas s a)) s
                 | Some d \<Rightarrow> if large (arenas s a) then mfree_page pf a (acnt (arenas s a)) s
                             else free_small pf ptr a d s)
            (pool_unlock pf)))"

section \<open>Blocks of an arena\<close>

definition block_ok :: "mem_block_desc \<Rightarrow> bool" where
  "block_ok D \<longleftrightarrow> 0 < unat (block_size D) \<and> 0 < unat (block_per_arena D)
     \<and> 12 + unat (block_per_arena D) * unat (block_size D) \<le> 4096"

lemma block_init_eq: "block_init = [\<lparr>block_size = 16, block_per_arena = 255, free_list = []\<rparr>,
   \<lparr>block_size = 32, block_per_arena = 127, free_list = []\<rparr>, \<lparr>block_size = 64, block_per_arena = 63, free_list = []\<rparr>,
   \<lparr>block_size = 128, block_per_arena = 31, free_list = []\<rparr>, \<lparr>block_size = 256, block_per_arena = 15, free_list = []\<rparr>,
   \<lparr>block_size = 512, block_per_arena = 7, free_list = []\<rparr>, \<lparr>block_size = 1024, block_per_arena = 3, free_list = []\<rparr>]"
  by code_simp

text \<open>Block idx of the arena at the page a: behind the header, inside the page.\<close>

lemma unat_arena2block:
  assumes "page_aligned a" "block_ok (get_desc s d)" "unat idx < unat (block_per_arena (get_desc s d))"
  shows "unat (arena2block s a d idx) = unat a + 12 + unat idx * unat (block_size (get_desc s d))"
    "12 + unat idx * unat (block_size (get_desc s d)) + unat (block_size (get_desc s d)) \<le> 4096"
proof -
  let ?n = "unat (block_per_arena (get_desc s d))" and ?z = "unat (block_size (get_desc s d))"
  have "(unat idx + 1) * ?z \<le> ?n * ?z" using assms(3) by (intro mult_right_mono) auto
  then show le: "12 + unat idx * ?z + ?z \<le> 4096" using assms(2) by (simp add: block_ok_def)
  have "unat a = 4096 * page_of a"
    using assms(1) mult_div_mod_eq [of 4096 "unat a"] by (simp add: page_of_def aligned_unat)
  moreover have "page_of a < 1048576" using unat_u32_less [of a] by (simp add: page_of_def)
  ultimately have ub: "unat a + 4096 \<le> 4294967296" by simp
  have m: "unat (idx * block_size (get_desc s d)) = unat idx * ?z" using le by (intro unat_mult_u32) simp
  have "unat (a + 12) = unat a + 12" using ub by (subst unat_add_u32) simp_all
  then show "unat (arena2block s a d idx) = unat a + 12 + unat idx * ?z"
    unfolding arena2block_def sizeof_arena_def using m le ub assms(2)
    by (subst unat_add_u32) (simp_all add: block_ok_def)
qed

lemma block2arena_arena2block:
  assumes "page_aligned a" "block_ok (get_desc s d)" "unat idx < unat (block_per_arena (get_desc s d))"
  shows "block2arena (arena2block s a d idx) = a"
proof -
  note u = unat_arena2block [OF assms]
  let ?z = "unat (block_size (get_desc s d))"
  have z: "0 < ?z" using assms(2) by (simp add: block_ok_def)
  have "unat a = 4096 * page_of a"
    using assms(1) mult_div_mod_eq [of 4096 "unat a"] by (simp add: page_of_def aligned_unat)
  then have "unat (arena2block s a d idx) = 4096 * page_of a + (12 + unat idx * ?z)" using u(1) by simp
  then have "page_of (arena2block s a d idx) = page_of a"
    using u(2) z by (simp add: page_of_def [of "arena2block s a d idx"])
  then have "arena2block s a d idx AND 0xfffff000 = a AND 0xfffff000" by (simp only: page_base_eq_iff)
  then show ?thesis using assms(1) by (simp add: block2arena_def aligned_mask)
qed

lemma arena2block_inj:
  assumes "page_aligned a" "block_ok (get_desc s d)" "unat i < unat (block_per_arena (get_desc s d))"
    "unat j < unat (block_per_arena (get_desc s d))"
  shows "arena2block s a d i = arena2block s a d j \<longleftrightarrow> i = j"
proof
  assume e: "arena2block s a d i = arena2block s a d j"
  have "unat a + 12 + unat i * unat (block_size (get_desc s d)) = unat a + 12 + unat j * unat (block_size (get_desc s d))"
    unfolding unat_arena2block(1) [OF assms(1,2,3), symmetric] unat_arena2block(1) [OF assms(1,2,4), symmetric] e ..
  then have "unat i * unat (block_size (get_desc s d)) = unat j * unat (block_size (get_desc s d))" by simp
  moreover have "0 < unat (block_size (get_desc s d))" using assms(2) by (simp add: block_ok_def)
  ultimately show "i = j" by (simp add: u32_eq_iff)
qed auto

text \<open>For each of the seven sizes, the blocks of an arena lie behind its header and inside its page,
  do not overlap, and block2arena finds the arena from any of them.\<close>
theorem arena_blocks:
  assumes "page_aligned a" "d < 7"
    and s: "k_block_descs s = block_init"
    and "unat i < unat (block_per_arena (block_init ! d))" "unat j < unat (block_per_arena (block_init ! d))" "i \<noteq> j"
  shows "block2arena (arena2block s a (KDesc d) i) = a
     \<and> unat a + 12 \<le> unat (arena2block s a (KDesc d) i)
     \<and> unat (arena2block s a (KDesc d) i) + unat (block_size (block_init ! d)) \<le> unat a + 4096
     \<and> (unat (arena2block s a (KDesc d) i) + unat (block_size (block_init ! d)) \<le> unat (arena2block s a (KDesc d) j)
        \<or> unat (arena2block s a (KDesc d) j) + unat (block_size (block_init ! d)) \<le> unat (arena2block s a (KDesc d) i))"
proof -
  have D: "get_desc s (KDesc d) = block_init ! d" by (simp add: get_desc_def s)
  have "\<forall>D \<in> set block_init. block_ok D" by (simp add: block_init_eq block_ok_def)
  moreover have "length block_init = 7" by (simp add: block_init_eq)
  ultimately have ok: "block_ok (get_desc s (KDesc d))" using assms(2) by (simp add: D)
  let ?z = "unat (block_size (block_init ! d))"
  note ui = unat_arena2block [OF assms(1) ok, of i, unfolded D, OF assms(4)]
  note uj = unat_arena2block [OF assms(1) ok, of j, unfolded D, OF assms(5)]
  have "unat i < unat j \<or> unat j < unat i" using assms(6) by (simp add: u32_eq_iff nat_neq_iff)
  then have "(unat i + 1) * ?z \<le> unat j * ?z \<or> (unat j + 1) * ?z \<le> unat i * ?z"
    using mult_right_mono [of "unat i + 1" "unat j" ?z] mult_right_mono [of "unat j + 1" "unat i" ?z] by auto
  then show ?thesis
    using ui uj block2arena_arena2block [OF assms(1) ok, of i, unfolded D, OF assms(4)] by auto
qed

lemma arena_blocks_witness:
  "block2arena (arena2block (demo_memory\<lparr>k_block_descs := block_init\<rparr>) 0xc0100000 (KDesc 1) 3) = 0xc0100000"
  using arena_blocks [of "0xc0100000" 1 "demo_memory\<lparr>k_block_descs := block_init\<rparr>" 3 4]
  by (simp add: page_aligned_def block_init_eq)


section \<open>The heap of the kernel\<close>

definition kfree :: "memory \<Rightarrow> nat \<Rightarrow> addr list" where
  "kfree s d = free_list (k_block_descs s ! d)"

text \<open>The free lists hold blocks of arenas, once each, and each arena counts its free blocks.\<close>

definition heap_ok :: "memory \<Rightarrow> bool" where
  "heap_ok s \<longleftrightarrow>
     map block_size (k_block_descs s) = map block_size block_init
   \<and> map block_per_arena (k_block_descs s) = map block_per_arena block_init
   \<and> (\<forall>d<7. distinct (kfree s d)
        \<and> (\<forall>b \<in> set (kfree s d). \<exists>i. unat i < unat (block_per_arena (k_block_descs s ! d))
             \<and> b = arena2block s (block2arena b) (KDesc d) i
             \<and> adesc (arenas s (block2arena b)) = Some (KDesc d) \<and> \<not> large (arenas s (block2arena b)))
        \<and> (\<forall>a. adesc (arenas s a) = Some (KDesc d) \<longrightarrow> \<not> large (arenas s a) \<longrightarrow>
             unat (acnt (arenas s a)) = card {b \<in> set (kfree s d). block2arena b = a}))"

lemma block2arena_aligned: "page_aligned (block2arena b)"
  by (simp add: block2arena_def aligned_mask)

lemma heap_okD:
  assumes "heap_ok s" "d < 7"
  shows "block_size (k_block_descs s ! d) = block_size (block_init ! d)"
    "block_per_arena (k_block_descs s ! d) = block_per_arena (block_init ! d)"
    "length (k_block_descs s) = 7" "block_ok (k_block_descs s ! d)" "distinct (kfree s d)"
    "b \<in> set (kfree s d) \<Longrightarrow> \<exists>i. unat i < unat (block_per_arena (k_block_descs s ! d))
             \<and> b = arena2block s (block2arena b) (KDesc d) i
             \<and> adesc (arenas s (block2arena b)) = Some (KDesc d) \<and> \<not> large (arenas s (block2arena b))"
    "adesc (arenas s a) = Some (KDesc d) \<Longrightarrow> \<not> large (arenas s a) \<Longrightarrow>
             unat (acnt (arenas s a)) = card {b \<in> set (kfree s d). block2arena b = a}"
proof -
  have m: "map block_size (k_block_descs s) = map block_size block_init"
    "map block_per_arena (k_block_descs s) = map block_per_arena block_init"
    using assms(1) by (simp_all add: heap_ok_def)
  show l: "length (k_block_descs s) = 7" using map_eq_imp_length_eq [OF m(1)] by (simp add: block_init_eq)
  have l': "length block_init = 7" by (simp add: block_init_eq)
  show z: "block_size (k_block_descs s ! d) = block_size (block_init ! d)"
    using arg_cong [OF m(1), of "\<lambda>l. l ! d"] l l' assms(2) by simp
  show n: "block_per_arena (k_block_descs s ! d) = block_per_arena (block_init ! d)"
    using arg_cong [OF m(2), of "\<lambda>l. l ! d"] l l' assms(2) by simp
  have "\<forall>D \<in> set block_init. block_ok D" by (simp add: block_init_eq block_ok_def)
  then have "block_ok (block_init ! d)" using assms(2) l' by simp
  then show "block_ok (k_block_descs s ! d)" by (simp add: block_ok_def z n)
  show "distinct (kfree s d)" using assms by (simp add: heap_ok_def)
  show "b \<in> set (kfree s d) \<Longrightarrow> \<exists>i. unat i < unat (block_per_arena (k_block_descs s ! d))
             \<and> b = arena2block s (block2arena b) (KDesc d) i
             \<and> adesc (arenas s (block2arena b)) = Some (KDesc d) \<and> \<not> large (arenas s (block2arena b))"
    using assms unfolding heap_ok_def by blast
  show "adesc (arenas s a) = Some (KDesc d) \<Longrightarrow> \<not> large (arenas s a) \<Longrightarrow>
             unat (acnt (arenas s a)) = card {b \<in> set (kfree s d). block2arena b = a}"
    using assms unfolding heap_ok_def by blast
qed

text \<open>Taking the first free block, and putting a block back.\<close>

definition kset :: "nat \<Rightarrow> addr list \<Rightarrow> memory \<Rightarrow> memory" where
  "kset d l s = upd_free (KDesc d) (\<lambda>_. l) s"

definition kcount :: "addr \<Rightarrow> (u32 \<Rightarrow> u32) \<Rightarrow> memory \<Rightarrow> memory" where
  "kcount a f s = upd_arena a (\<lambda>ar. ar\<lparr>acnt := f (acnt ar)\<rparr>) s"

lemma kset_simps:
  "arenas (kset d l s) = arenas s" "arenas (kcount a f s) = (arenas s)(a := (arenas s a)\<lparr>acnt := f (acnt (arenas s a))\<rparr>)"
  "k_block_descs (kcount a f s) = k_block_descs s"
  "k_block_descs (kset d l s) = (k_block_descs s)[d := (k_block_descs s ! d)\<lparr>free_list := l\<rparr>]"
  by (simp_all add: kset_def kcount_def upd_free_def upd_arena_def set_desc_def get_desc_def)

lemma kfree_kset: "d < length (k_block_descs s) \<Longrightarrow> kfree (kset d l s) e = (if e = d then l else kfree s e)"
  by (simp add: kfree_def kset_simps nth_list_update)

lemma map_free_update: "d < length xs \<Longrightarrow> map block_size (xs[d := (xs ! d)\<lparr>free_list := l\<rparr>]) = map block_size xs"
  "d < length xs \<Longrightarrow> map block_per_arena (xs[d := (xs ! d)\<lparr>free_list := l\<rparr>]) = map block_per_arena xs"
  by (auto intro!: nth_equalityI simp: nth_list_update)

lemma arena2block_cong:
  assumes "map block_size (k_block_descs s') = map block_size (k_block_descs s)" "d < length (k_block_descs s)"
  shows "arena2block s' a (KDesc d) i = arena2block s a (KDesc d) i"
proof -
  have "length (k_block_descs s') = length (k_block_descs s)" by (rule map_eq_imp_length_eq [OF assms(1)])
  then have "block_size (k_block_descs s' ! d) = block_size (k_block_descs s ! d)"
    using arg_cong [OF assms(1), of "\<lambda>l. l ! d"] assms(2) by simp
  then show ?thesis by (simp add: arena2block_def get_desc_def)
qed

text \<open>The invariant only depends on the descriptors and the arenas.\<close>

lemma heap_ok_cong:
  assumes "k_block_descs s' = k_block_descs s" "arenas s' = arenas s"
  shows "heap_ok s' = heap_ok s"
  unfolding heap_ok_def kfree_def arena2block_def get_desc_def assms desc_ptr.case by (rule refl)

lemma heap_ok_change:
  assumes ok: "heap_ok s" and d: "d < 7"
    and l: "distinct l"
      "\<And>b. b \<in> set l \<Longrightarrow> \<exists>i. unat i < unat (block_per_arena (k_block_descs s ! d))
         \<and> b = arena2block s (block2arena b) (KDesc d) i
         \<and> adesc (arenas s (block2arena b)) = Some (KDesc d) \<and> \<not> large (arenas s (block2arena b))"
    and a: "adesc (arenas s a) = Some (KDesc d)" "\<not> large (arenas s a)"
    and cnt: "unat (f (acnt (arenas s a))) = card {b \<in> set l. block2arena b = a}"
    and other: "\<And>a'. a' \<noteq> a \<Longrightarrow> {b \<in> set l. block2arena b = a'} = {b \<in> set (kfree s d). block2arena b = a'}"
  shows "heap_ok (kcount a f (kset d l s))"
proof -
  note H = heap_okD [OF ok]
  let ?s = "kcount a f (kset d l s)"
  have len: "d < length (k_block_descs s)" using H(3) [OF d] d by simp
  have ms: "map block_size (k_block_descs ?s) = map block_size (k_block_descs s)"
    "map block_per_arena (k_block_descs ?s) = map block_per_arena (k_block_descs s)"
    using map_free_update [OF len] by (simp_all add: kset_simps)
  have kf: "kfree ?s e = (if e = d then l else kfree s e)" for e
    using kfree_kset [OF len, of l e] by (simp add: kfree_def kset_simps)
  have ar: "adesc (arenas ?s x) = adesc (arenas s x)" "large (arenas ?s x) = large (arenas s x)"
    "acnt (arenas ?s x) = (if x = a then f (acnt (arenas s a)) else acnt (arenas s x))" for x
    by (simp_all add: kset_simps)
  have blk: "arena2block ?s x (KDesc e) i = arena2block s x (KDesc e) i" if "e < 7" for x e i
    using arena2block_cong [OF ms(1)] H(3) [OF d] that by simp
  have bp: "block_per_arena (k_block_descs ?s ! e) = block_per_arena (k_block_descs s ! e)" for e
    using len by (simp add: kset_simps nth_list_update)
  show ?thesis
    unfolding heap_ok_def ms ar kf bp
  proof (intro conjI allI impI ballI)
    show "map block_size (k_block_descs s) = map block_size block_init"
      "map block_per_arena (k_block_descs s) = map block_per_arena block_init"
      using ok by (simp_all add: heap_ok_def)
    fix e :: nat assume e: "e < 7"
    show "distinct (if e = d then l else kfree s e)" using l(1) H(5) [OF e] by simp
    show "\<exists>i. unat i < unat (block_per_arena (k_block_descs s ! e)) \<and> b = arena2block ?s (block2arena b) (KDesc e) i
        \<and> adesc (arenas s (block2arena b)) = Some (KDesc e) \<and> \<not> large (arenas s (block2arena b))"
      if "b \<in> set (if e = d then l else kfree s e)" for b
      unfolding blk [OF e] using that l(2) [of b] H(6) [OF e, of b] by (cases "e = d") simp_all
    show "unat (if x = a then f (acnt (arenas s a)) else acnt (arenas s x))
        = card {b \<in> set (if e = d then l else kfree s e). block2arena b = x}"
      if x: "adesc (arenas s x) = Some (KDesc e)" "\<not> large (arenas s x)" for x
    proof (cases "x = a")
      case True
      then have "e = d" using a(1) x(1) by simp
      then show ?thesis using True cnt by simp
    next
      case False
      then show ?thesis using H(7) [OF e x] other [OF False] by (cases "e = d") simp_all
    qed
  qed
qed


lemma heap_ok_pop:
  assumes ok: "heap_ok s" and d: "d < 7" and f: "kfree s d = b # rest"
  shows "heap_ok (kcount (block2arena b) (\<lambda>n. n - 1) (kset d rest s))"
    "unat (acnt (arenas s (block2arena b)) - 1) + 1 = unat (acnt (arenas s (block2arena b)))"
    "adesc (arenas s (block2arena b)) = Some (KDesc d)" "\<not> large (arenas s (block2arena b))"
proof -
  note H = heap_okD [OF ok d]
  have b: "b \<in> set (kfree s d)" using f by simp
  show A: "adesc (arenas s (block2arena b)) = Some (KDesc d)" "\<not> large (arenas s (block2arena b))"
    using H(6) [OF b] by blast+
  let ?n = "acnt (arenas s (block2arena b))"
  let ?X = "\<lambda>l. {x \<in> set l. block2arena x = block2arena b}"
  have c: "unat ?n = card (?X (kfree s d))" by (rule H(7) [OF A])
  have X: "?X (kfree s d) = insert b (?X rest)" "b \<notin> ?X rest" using f H(5) by auto
  then have c1: "unat ?n = card (?X rest) + 1" using c by simp
  then have "1 \<le> ?n" by (simp add: word_le_nat_alt)
  then have m: "unat (?n - 1) = card (?X rest)" using c1 by (simp add: unat_sub_u32)
  then show "unat (?n - 1) + 1 = unat ?n" using c1 by simp
  show "heap_ok (kcount (block2arena b) (\<lambda>n. n - 1) (kset d rest s))"
  proof (rule heap_ok_change [OF ok d _ _ A])
    show "distinct rest" using H(5) f by simp
    show "\<exists>i. unat i < unat (block_per_arena (k_block_descs s ! d)) \<and> x = arena2block s (block2arena x) (KDesc d) i
        \<and> adesc (arenas s (block2arena x)) = Some (KDesc d) \<and> \<not> large (arenas s (block2arena x))"
      if "x \<in> set rest" for x using H(6) [of x] that f by simp
    show "unat (?n - 1) = card {x \<in> set rest. block2arena x = block2arena b}" by (rule m)
    show "{x \<in> set rest. block2arena x = a'} = {x \<in> set (kfree s d). block2arena x = a'}"
      if "a' \<noteq> block2arena b" for a' using that f by auto
  qed
qed

text \<open>The lock of a pool, taken free and given back.\<close>

lemma pool_lock_free:
  assumes "plock (mem_pool pf s) = lock_init" "running_thread s \<noteq> NULL"
  shows "pool_lock pf s = Inr (set_mem_pool pf ((mem_pool pf s)\<lparr>plock := lock_held (running_thread s) 1\<rparr>) s)"
  using acquire_first [OF assms(2)] assms(1) by (simp add: pool_lock_def)

lemma pool_unlock_held:
  assumes "plock (mem_pool pf s) = lock_held (running_thread s) 1"
  shows "pool_unlock pf s = Inr (set_mem_pool pf ((mem_pool pf s)\<lparr>plock := lock_init\<rparr>) s)"
  using release_last [of s] assms by (simp add: pool_unlock_def)

definition kernel_heap :: "memory \<Rightarrow> bool" where
  "kernel_heap s \<longleftrightarrow> heap_ok s \<and> running_thread s \<noteq> NULL \<and> task_pool s = PF_KERNEL
     \<and> plock (kernel_pool s) = lock_init"

lemma block_nonnull:
  assumes "heap_ok s" "d < 7" "b \<in> set (kfree s d)"
  shows "b \<noteq> NULL"
proof -
  note H = heap_okD [OF assms(1,2)]
  obtain i where i: "unat i < unat (block_per_arena (k_block_descs s ! d))" "b = arena2block s (block2arena b) (KDesc d) i"
    using H(6) [OF assms(3)] by blast
  have g: "get_desc s (KDesc d) = k_block_descs s ! d" by (simp add: get_desc_def)
  have "unat (arena2block s (block2arena b) (KDesc d) i) \<ge> 12"
    using unat_arena2block(1) [OF block2arena_aligned, of s "KDesc d" i] H(4) i(1) by (simp add: g)
  then show ?thesis using i(2) by auto
qed

lemma memset_zero_bytes: "b \<noteq> NULL \<Longrightarrow> memset_bytes b v 0 s = Inr s"
  by (simp add: memset_bytes_def memset_def)

lemma find_desc_first:
  assumes "D \<in> set ds" "sz \<le> block_size D"
  shows "find_desc ds sz < length ds \<and> sz \<le> block_size (ds ! find_desc ds sz)
    \<and> (\<forall>e < find_desc ds sz. block_size (ds ! e) < sz)"
  using assms by (induction ds) (auto simp: nth_Cons not_le split: nat.split)

lemma find_desc_sizes:
  "map block_size xs = map block_size ys \<Longrightarrow> find_desc xs sz = find_desc ys sz"
proof (induction xs arbitrary: ys)
  case Nil
  then show ?case by simp
next
  case (Cons x xs)
  then obtain y ys' where y: "ys = y # ys'" "block_size x = block_size y" "map block_size xs = map block_size ys'"
    by (cases ys) simp_all
  show ?case using Cons.IH [OF y(3)] unfolding y(1) by (simp add: y(2))
qed

lemma find_desc_spec:
  assumes "map block_size ds = map block_size block_init" "sz \<le> 1024"
  shows "find_desc ds sz < 7 \<and> sz \<le> block_size (block_init ! find_desc ds sz)
    \<and> (\<forall>e < find_desc ds sz. block_size (block_init ! e) < sz)"
proof -
  note * = find_desc_sizes
  have "\<lparr>block_size = 1024, block_per_arena = 3, free_list = []\<rparr> \<in> set block_init" by (simp add: block_init_eq)
  from find_desc_first [OF this, of sz] assms(2)
  have "find_desc block_init sz < length block_init \<and> sz \<le> block_size (block_init ! find_desc block_init sz)
    \<and> (\<forall>e < find_desc block_init sz. block_size (block_init ! e) < sz)" by simp
  moreover have "length block_init = 7" by (simp add: block_init_eq)
  ultimately show ?thesis unfolding * [OF assms(1)] by simp
qed

lemma sys_malloc_small_eq:
  assumes h: "kernel_heap s" and sz: "0 < sz" "sz \<le> 1024" "sz < pool_size (kernel_pool s)"
    and f: "kfree s (find_desc (k_block_descs s) sz) = b # rest"
  shows "sys_malloc sz s =
    Inr (b, kcount (block2arena b) (\<lambda>n. n - 1) (kset (find_desc (k_block_descs s) sz) rest s))"
proof -
  let ?d = "find_desc (k_block_descs s) sz"
  have ok: "heap_ok s" and r: "running_thread s \<noteq> NULL" and tp: "task_pool s = PF_KERNEL"
    and pl: "plock (kernel_pool s) = lock_init"
    using h by (simp_all add: kernel_heap_def)
  have d: "?d < 7" using find_desc_spec [OF _ sz(2)] ok by (auto simp: heap_ok_def)
  have len: "length (k_block_descs s) = 7" by (rule heap_okD(3) [OF ok d])
  let ?s1 = "s\<lparr>kernel_pool := (kernel_pool s)\<lparr>plock := lock_held (running_thread s) 1\<rparr>\<rparr>"
  have lk: "pool_lock PF_KERNEL s = Inr ?s1"
    using pool_lock_free [of PF_KERNEL s] pl r by (simp add: mem_pool_def set_mem_pool_def)
  have nn: "b \<noteq> NULL" using block_nonnull [OF ok d, of b] f by simp
  let ?s2 = "kcount (block2arena b) (\<lambda>n. n - 1) (kset ?d rest ?s1)"
  have "malloc_small PF_KERNEL sz ?s1 = bindR (pool_unlock PF_KERNEL ?s2) (\<lambda>s. Inr (b, s))"
    using f d len nn
    by (simp add: malloc_small_def descs_def desc_ref_def get_desc_def kfree_def Let_def
        memset_zero_bytes kcount_def kset_def)
  moreover have "pool_unlock PF_KERNEL ?s2 = Inr (?s2\<lparr>kernel_pool := (kernel_pool ?s2)\<lparr>plock := lock_init\<rparr>\<rparr>)"
    using pool_unlock_held [of PF_KERNEL ?s2]
    by (simp add: mem_pool_def set_mem_pool_def kcount_def kset_def upd_arena_def upd_free_def set_desc_def)
  moreover have "?s2\<lparr>kernel_pool := (kernel_pool ?s2)\<lparr>plock := lock_init\<rparr>\<rparr> =
      kcount (block2arena b) (\<lambda>n. n - 1) (kset ?d rest s)"
    using pl [symmetric] by (simp add: kcount_def kset_def upd_arena_def upd_free_def set_desc_def get_desc_def)
  moreover have "(0 < sz \<and> sz < pool_size (mem_pool PF_KERNEL s)) = True" "(1024 < sz) = False"
    using sz by (auto simp: mem_pool_def)
  ultimately show ?thesis
    using lk tp by (simp add: sys_malloc_def Let_def)
qed


lemma heap_fields:
  "kernel_pool (kcount a f s) = kernel_pool s" "kernel_pool (kset d l s) = kernel_pool s"
  "running_thread (kcount a f s) = running_thread s" "running_thread (kset d l s) = running_thread s"
  "task_pool (kcount a f s) = task_pool s" "task_pool (kset d l s) = task_pool s"
  by (simp_all add: kcount_def kset_def upd_arena_def upd_free_def set_desc_def task_pool_def)

lemma sys_free_small_eq:
  assumes h: "kernel_heap s" and d: "d < 7" and b: "K_HEAP_START \<le> b" "b \<notin> set (kfree s d)"
    and a: "adesc (arenas s (block2arena b)) = Some (KDesc d)" "\<not> large (arenas s (block2arena b))"
    and part: "acnt (arenas s (block2arena b)) + 1 \<noteq> block_per_arena (k_block_descs s ! d)"
  shows "sys_free b s = Inr (kcount (block2arena b) (\<lambda>n. n + 1) (kset d (kfree s d @ [b]) s))"
proof -
  have ok: "heap_ok s" and r: "running_thread s \<noteq> NULL" and tp: "task_pool s = PF_KERNEL"
    and pl: "plock (kernel_pool s) = lock_init"
    using h by (simp_all add: kernel_heap_def)
  have len: "length (k_block_descs s) = 7" by (rule heap_okD(3) [OF ok d])
  have nn: "b \<noteq> NULL" using b(1) by (auto simp: K_HEAP_START_def)
  let ?s1 = "s\<lparr>kernel_pool := (kernel_pool s)\<lparr>plock := lock_held (running_thread s) 1\<rparr>\<rparr>"
  have lk: "pool_lock PF_KERNEL s = Inr ?s1"
    using pool_lock_free [of PF_KERNEL s] pl r by (simp add: mem_pool_def set_mem_pool_def)
  let ?s2 = "kcount (block2arena b) (\<lambda>n. n + 1) (kset d (kfree s d @ [b]) ?s1)"
  have "free_small PF_KERNEL b (block2arena b) (KDesc d) ?s1 = Inr ?s2"
    using b(2) part len d
    by (simp add: free_small_def get_desc_def kfree_def kcount_def kset_def Let_def upd_free_def set_desc_def
        upd_arena_def)
  moreover have "pool_unlock PF_KERNEL ?s2 = Inr (?s2\<lparr>kernel_pool := (kernel_pool ?s2)\<lparr>plock := lock_init\<rparr>\<rparr>)"
    using pool_unlock_held [of PF_KERNEL ?s2]
    by (simp add: mem_pool_def set_mem_pool_def kcount_def kset_def upd_arena_def upd_free_def set_desc_def)
  moreover have "?s2\<lparr>kernel_pool := (kernel_pool ?s2)\<lparr>plock := lock_init\<rparr>\<rparr> =
      kcount (block2arena b) (\<lambda>n. n + 1) (kset d (kfree s d @ [b]) s)"
    using pl [symmetric] by (simp add: kcount_def kset_def upd_arena_def upd_free_def set_desc_def get_desc_def)
  ultimately show ?thesis
    using nn b(1) lk tp a by (simp add: sys_free_def Let_def)
qed

section \<open>A concrete heap\<close>

text \<open>One arena of 1024-byte blocks at 0xc0100000 with two of its three blocks free.\<close>

definition demo_heap :: memory where
  "demo_heap = demo_memory\<lparr>
     k_block_descs := block_init[6 := \<lparr>block_size = 1024, block_per_arena = 3, free_list = [0xc010000c, 0xc010040c]\<rparr>],
     arenas := (\<lambda>_. \<lparr>adesc = None, large = False, acnt = 0\<rparr>)(0xc0100000 := \<lparr>adesc = Some (KDesc 6), large = False, acnt = 2\<rparr>)\<rparr>"

lemma demo_heap_free: "kfree demo_heap d = (if d = 6 then [0xc010000c, 0xc010040c] else free_list (block_init ! d))"
proof -
  have "length block_init = 7" by (simp add: block_init_eq)
  then show ?thesis by (auto simp: kfree_def demo_heap_def nth_list_update)
qed

lemma block_init_free: "d < 7 \<Longrightarrow> free_list (block_init ! d) = []"
proof -
  assume d: "d < 7"
  have "\<forall>D \<in> set block_init. free_list D = []" "length block_init = 7" by (simp_all add: block_init_eq)
  then show ?thesis using d by simp
qed

lemma demo_heap_ok: "kernel_heap demo_heap"
proof -
  have kd: "k_block_descs demo_heap ! 6 = \<lparr>block_size = 1024, block_per_arena = 3, free_list = [0xc010000c, 0xc010040c]\<rparr>"
    by (simp add: demo_heap_def block_init_eq)
  have b2a: "block2arena 0xc010000c = 0xc0100000" "block2arena 0xc010040c = 0xc0100000"
    by (simp_all add: block2arena_def)
  have ar: "adesc (arenas demo_heap a) = Some (KDesc d) \<longleftrightarrow> a = 0xc0100000 \<and> d = 6" for a d
    by (simp add: demo_heap_def)
  have a0: "acnt (arenas demo_heap 0xc0100000) = 2" "\<not> large (arenas demo_heap a)" for a by (simp_all add: demo_heap_def)
  have blk: "\<exists>i. unat i < unat (block_per_arena (k_block_descs demo_heap ! 6)) \<and> b = arena2block demo_heap (block2arena b) (KDesc 6) i"
    if "b = 0xc010000c \<or> b = 0xc010040c" for b
    using that
  proof
    assume "b = 0xc010000c"
    then show ?thesis by (intro exI [of _ 0]) (simp add: kd b2a arena2block_def sizeof_arena_def get_desc_def)
  next
    assume "b = 0xc010040c"
    then show ?thesis by (intro exI [of _ 1]) (simp add: kd b2a arena2block_def sizeof_arena_def get_desc_def)
  qed
  have card2: "card {b \<in> set (kfree demo_heap 6). block2arena b = 0xc0100000} = 2"
  proof -
    have "{b \<in> set (kfree demo_heap 6). block2arena b = 0xc0100000} = {0xc010000c, 0xc010040c}"
      using b2a by (auto simp: demo_heap_free)
    then show ?thesis by simp
  qed
  have per: "distinct (kfree demo_heap d)
        \<and> (\<forall>b \<in> set (kfree demo_heap d). \<exists>i. unat i < unat (block_per_arena (k_block_descs demo_heap ! d))
             \<and> b = arena2block demo_heap (block2arena b) (KDesc d) i
             \<and> adesc (arenas demo_heap (block2arena b)) = Some (KDesc d) \<and> \<not> large (arenas demo_heap (block2arena b)))
        \<and> (\<forall>a. adesc (arenas demo_heap a) = Some (KDesc d) \<longrightarrow> \<not> large (arenas demo_heap a) \<longrightarrow>
             unat (acnt (arenas demo_heap a)) = card {b \<in> set (kfree demo_heap d). block2arena b = a})"
    if d: "d < 7" for d
  proof (cases "d = 6")
    case True
    have "\<forall>b \<in> set (kfree demo_heap 6). \<exists>i. unat i < unat (block_per_arena (k_block_descs demo_heap ! 6))
             \<and> b = arena2block demo_heap (block2arena b) (KDesc 6) i
             \<and> adesc (arenas demo_heap (block2arena b)) = Some (KDesc 6) \<and> \<not> large (arenas demo_heap (block2arena b))"
      using blk b2a ar a0(2) by (fastforce simp: demo_heap_free)
    then show ?thesis using True card2 a0(1) ar by (auto simp: demo_heap_free)
  next
    case False
    then have "kfree demo_heap d = []" using block_init_free [OF d] by (simp add: demo_heap_free)
    then show ?thesis using False ar by simp
  qed
  have "map block_size (k_block_descs demo_heap) = map block_size block_init"
    "map block_per_arena (k_block_descs demo_heap) = map block_per_arena block_init"
    by (simp_all add: demo_heap_def block_init_eq)
  then have "heap_ok demo_heap" using per unfolding heap_ok_def by blast
  then show ?thesis
    by (simp add: kernel_heap_def task_pool_def demo_heap_def demo_memory_def kthreads.defs memory.defs
        demo_threads_def demo_task_def)
qed

lemma demo_heap_find: "find_desc (k_block_descs demo_heap) 1000 = 6" "kernel_pool demo_heap = kernel_pool demo_memory"
  by (simp_all add: demo_heap_def block_init_eq)

section \<open>Small requests\<close>

text \<open>C4: A request of at most 1024 bytes with a free block at hand: sys_malloc returns the first block of
  the smallest size class that is large enough, taken off its free list and nothing off the others;
  the sz bytes from it on lie in its arena behind the header, the arena's count goes down by one, the
  heap invariant holds again and the lock is free.\<close>
theorem sys_malloc_small_spec:
  assumes h: "kernel_heap s" and sz: "0 < sz" "sz \<le> 1024" "sz < pool_size (kernel_pool s)"
    and f: "kfree s (find_desc (k_block_descs s) sz) \<noteq> []"
  defines "d \<equiv> find_desc (k_block_descs s) sz"
  shows "\<exists>b s'. sys_malloc sz s = Inr (b, s') \<and> kernel_heap s'
     \<and> kfree s d = b # kfree s' d \<and> (\<forall>e. e \<noteq> d \<longrightarrow> kfree s' e = kfree s e)
     \<and> sz \<le> block_size (block_init ! d) \<and> (\<forall>e<d. block_size (block_init ! e) < sz)
     \<and> unat (block2arena b) + 12 \<le> unat b \<and> unat b + unat sz \<le> unat (block2arena b) + 4096
     \<and> unat (acnt (arenas s' (block2arena b))) + 1 = unat (acnt (arenas s (block2arena b)))"
proof -
  obtain b rest where b: "kfree s d = b # rest" using f unfolding d_def by (cases "kfree s (find_desc (k_block_descs s) sz)") auto
  let ?s' = "kcount (block2arena b) (\<lambda>n. n - 1) (kset d rest s)"
  have ok: "heap_ok s" using h by (simp add: kernel_heap_def)
  have fd: "d < 7 \<and> sz \<le> block_size (block_init ! d) \<and> (\<forall>e<d. block_size (block_init ! e) < sz)"
    unfolding d_def using find_desc_spec [OF _ sz(2)] ok by (auto simp: heap_ok_def)
  then have d: "d < 7" by simp
  note H = heap_okD [OF ok d] and P = heap_ok_pop [OF ok d b]
  have m: "sys_malloc sz s = Inr (b, ?s')"
    unfolding d_def by (rule sys_malloc_small_eq [OF h sz b [unfolded d_def]])
  have kf: "kfree ?s' e = (if e = d then rest else kfree s e)" for e
    using kfree_kset [of d s rest e] H(3) d by (simp add: kfree_def kset_simps)
  obtain i where i: "unat i < unat (block_per_arena (k_block_descs s ! d))" "b = arena2block s (block2arena b) (KDesc d) i"
    using H(6) [of b] b by auto
  have g: "get_desc s (KDesc d) = k_block_descs s ! d" by (simp add: get_desc_def)
  note U = unat_arena2block [of "block2arena b" s "KDesc d" i, OF block2arena_aligned, unfolded g, OF H(4) i(1)]
  have ub: "unat b = unat (block2arena b) + 12 + unat i * unat (block_size (k_block_descs s ! d))"
    using U(1) i(2) by simp
  have "unat sz \<le> unat (block_size (k_block_descs s ! d))" using fd H(1) by (simp add: word_le_nat_alt)
  then have "unat (block2arena b) + 12 \<le> unat b" "unat b + unat sz \<le> unat (block2arena b) + 4096"
    using ub U(2) by linarith+
  moreover have "kernel_heap ?s'" using h P(1) by (simp add: kernel_heap_def heap_fields)
  moreover have "unat (acnt (arenas ?s' (block2arena b))) + 1 = unat (acnt (arenas s (block2arena b)))"
    using P(2) by (simp add: kset_simps)
  ultimately show ?thesis using m kf fd b by auto
qed

lemma sys_malloc_small_spec_witness:
  "\<exists>b s'. sys_malloc 1000 demo_heap = Inr (b, s') \<and> kernel_heap s' \<and> kfree s' 6 = [0xc010040c]"
  using sys_malloc_small_spec [OF demo_heap_ok, of 1000]
  by (simp add: demo_heap_find demo_heap_free demo_memory_def kthreads.defs memory.defs) (metis (no_types))

text \<open>C12: For a size whose class has a free block, in an arena some of whose blocks are in use, sys_malloc gives
  the first block of the class and sys_free takes it back: the free list has the same blocks, the one given
  and taken back now at its end, the arenas, the pool and its lock are as before, and the heap invariant
  holds. (Without a free block sys_malloc opens a new page, and a block that is the last one in use takes
  its page with it when it is freed.)\<close>
theorem sys_malloc_free_roundtrip:
  assumes h: "kernel_heap s" and sz: "0 < sz" "sz \<le> 1024" "sz < pool_size (kernel_pool s)"
    and f: "kfree s (find_desc (k_block_descs s) sz) = b # rest" and b: "K_HEAP_START \<le> b"
    and part: "acnt (arenas s (block2arena b)) \<noteq> block_per_arena (k_block_descs s ! find_desc (k_block_descs s) sz)"
  shows "\<exists>s' s''. sys_malloc sz s = Inr (b, s') \<and> sys_free b s' = Inr s'' \<and> kernel_heap s''
     \<and> kfree s'' (find_desc (k_block_descs s) sz) = rest @ [b]
     \<and> arenas s'' = arenas s \<and> kernel_pool s'' = kernel_pool s"
proof -
  let ?d = "find_desc (k_block_descs s) sz"
  let ?s' = "kcount (block2arena b) (\<lambda>n. n - 1) (kset ?d rest s)"
  have ok: "heap_ok s" using h by (simp add: kernel_heap_def)
  have d: "?d < 7" using find_desc_spec [OF _ sz(2)] ok by (auto simp: heap_ok_def)
  note H = heap_okD [OF ok d] and P = heap_ok_pop [OF ok d f]
  have m: "sys_malloc sz s = Inr (b, ?s')" by (rule sys_malloc_small_eq [OF h sz f])
  have kf: "kfree ?s' e = (if e = ?d then rest else kfree s e)" for e
    using kfree_kset [of ?d s rest e] H(3) d by (simp add: kfree_def kset_simps)
  have h': "kernel_heap ?s'" using h P(1) by (simp add: kernel_heap_def heap_fields)
  have nb: "b \<notin> set (kfree ?s' ?d)" using H(5) f by (simp add: kf)
  have bp: "block_per_arena (k_block_descs ?s' ! ?d) = block_per_arena (k_block_descs s ! ?d)"
    using H(3) d by (simp add: kset_simps)
  let ?s'' = "kcount (block2arena b) (\<lambda>n. n + 1) (kset ?d (kfree ?s' ?d @ [b]) ?s')"
  have fr: "sys_free b ?s' = Inr ?s''"
    by (rule sys_free_small_eq [OF h' d b nb]) (use P(3,4) part bp in \<open>simp_all add: kset_simps\<close>)
  have ar: "arenas ?s'' = arenas s" by (simp add: kset_simps)
  have l': "?d < length (k_block_descs ?s')" using H(3) d by (simp add: kset_simps)
  have kf2: "kfree ?s'' e = (if e = ?d then rest @ [b] else kfree s e)" for e
    using kfree_kset [OF l', of "kfree ?s' ?d @ [b]" e] kf by (simp add: kfree_def kset_simps)
  have "heap_ok ?s''"
  proof -
    let ?X = "\<lambda>l a. {x \<in> set l. block2arena x = a}"
    have same: "?X (rest @ [b]) a = ?X (kfree s ?d) a" for a using f by auto
    have "heap_ok (kcount (block2arena b) (\<lambda>n. n) (kset ?d (rest @ [b]) s))"
    proof (rule heap_ok_change [OF ok d _ _ P(3,4)])
      show "distinct (rest @ [b])" using H(5) f by auto
      show "\<exists>i. unat i < unat (block_per_arena (k_block_descs s ! ?d)) \<and> x = arena2block s (block2arena x) (KDesc ?d) i
        \<and> adesc (arenas s (block2arena x)) = Some (KDesc ?d) \<and> \<not> large (arenas s (block2arena x))"
        if "x \<in> set (rest @ [b])" for x using H(6) [of x] that f by auto
      show "unat (acnt (arenas s (block2arena b))) = card (?X (rest @ [b]) (block2arena b))"
        unfolding same by (rule H(7) [OF P(3,4)])
      show "?X (rest @ [b]) a' = ?X (kfree s ?d) a'" for a' by (rule same)
    qed
    moreover have "k_block_descs ?s'' = k_block_descs (kcount (block2arena b) (\<lambda>n. n) (kset ?d (rest @ [b]) s))"
      using kf H(3) d by (simp add: kset_simps)
    moreover have "arenas ?s'' = arenas (kcount (block2arena b) (\<lambda>n. n) (kset ?d (rest @ [b]) s))"
      unfolding ar by (simp add: kset_simps)
    ultimately show ?thesis using heap_ok_cong by blast
  qed
  then have "kernel_heap ?s''" using h by (simp add: kernel_heap_def heap_fields)
  moreover have "kernel_pool ?s'' = kernel_pool s" by (simp add: heap_fields)
  moreover have "kfree ?s'' ?d = rest @ [b]" unfolding kf2 by simp
  ultimately show ?thesis using m fr ar by blast
qed


lemma sys_malloc_free_roundtrip_witness:
  "\<exists>s' s''. sys_malloc 1000 demo_heap = Inr (0xc010000c, s') \<and> sys_free 0xc010000c s' = Inr s''
     \<and> kfree s'' 6 = [0xc010040c, 0xc010000c]"
proof -
  have b: "block2arena 0xc010000c = 0xc0100000" by (simp add: block2arena_def)
  have p: "1000 < pool_size (kernel_pool demo_heap)"
    unfolding demo_heap_find by (simp add: demo_memory_def kthreads.defs memory.defs)
  have f: "kfree demo_heap (find_desc (k_block_descs demo_heap) 1000) = 0xc010000c # [0xc010040c]"
    unfolding demo_heap_find demo_heap_free by simp
  have c: "acnt (arenas demo_heap (block2arena 0xc010000c))
      \<noteq> block_per_arena (k_block_descs demo_heap ! find_desc (k_block_descs demo_heap) 1000)"
    unfolding b demo_heap_find by (simp add: demo_heap_def block_init_eq)
  have "K_HEAP_START \<le> 0xc010000c" by (simp add: K_HEAP_START_def)
  from sys_malloc_free_roundtrip [OF demo_heap_ok _ _ p f this c] show ?thesis
    unfolding demo_heap_find by auto
qed

section \<open>Large requests\<close>

definition same_locks :: "memory \<Rightarrow> memory \<Rightarrow> bool" where
  "same_locks s s' \<longleftrightarrow> plock (kernel_pool s') = plock (kernel_pool s) \<and> plock (user_pool s') = plock (user_pool s)
     \<and> running_thread s' = running_thread s"

lemma same_locks_trans: "same_locks s t \<Longrightarrow> same_locks t u \<Longrightarrow> same_locks s u"
  by (simp add: same_locks_def)

lemma palloc_lock: "palloc p = Inr (a, p') \<Longrightarrow> plock p' = plock p"
  by (auto simp: palloc_def bindR_Inr_iff Let_def split: if_splits)

lemma page_table_add_locks: "page_table_add va f s = Inr s' \<Longrightarrow> same_locks s s'"
  by (auto simp: page_table_add_def Let_def bindR_Inr_iff same_locks_def palloc_lock split: if_splits)

lemma set_mem_pool_locks: "plock p = plock (mem_pool pf s) \<Longrightarrow> same_locks s (set_mem_pool pf p s)"
  by (cases pf) (simp_all add: same_locks_def set_mem_pool_def mem_pool_def)

lemma malloc_page_loop_locks: "malloc_page_loop pf n va s = Inr (ok, s') \<Longrightarrow> same_locks s s'"
proof (induction n arbitrary: va s)
  case 0
  then show ?case by (simp add: same_locks_def)
next
  case (Suc n)
  obtain a p where p: "palloc (mem_pool pf s) = Inr (a, p)" using Suc.prems by (auto simp: bindR_Inr_iff)
  let ?s1 = "set_mem_pool pf p s"
  have s1: "same_locks s ?s1" by (rule set_mem_pool_locks [OF palloc_lock [OF p]])
  show ?case
  proof (cases "a = NULL")
    case True
    then show ?thesis using Suc.prems p s1 by simp
  next
    case False
    then obtain s2 where "page_table_add va a ?s1 = Inr s2" "malloc_page_loop pf n (va + PG_SIZE) s2 = Inr (ok, s')"
      using Suc.prems p by (auto simp: bindR_Inr_iff)
    then show ?thesis using Suc.IH page_table_add_locks s1 same_locks_trans by meson
  qed
qed

lemma set_vaddr_locks: "same_locks s (set_vaddr_bitmap pf bm s)"
  by (cases pf) (simp_all add: same_locks_def set_vaddr_bitmap_def)

lemma malloc_page_locks: "malloc_page pf n s = Inr (va, s') \<Longrightarrow> same_locks s s'"
proof -
  assume m: "malloc_page pf n s = Inr (va, s')"
  then obtain v s1 where v: "vaddr_get pf n s = Inr (v, s1)"
    "(if v = NULL then Inr (NULL, s1) else bindR (malloc_page_loop pf (unat n) v s1) (\<lambda>(ok, s).
          Inr (if ok then v else NULL, s))) = Inr (va, s')"
    by (auto simp: malloc_page_def bindR_Inr_iff split: if_splits)
  have "s1 = s \<or> (\<exists>bm. s1 = set_vaddr_bitmap pf bm s)"
    using v(1) by (auto simp: vaddr_get_def Let_def bindR_Inr_iff split: if_splits)
  then have s1: "same_locks s s1" using set_vaddr_locks by (auto simp: same_locks_def)
  show ?thesis
  proof (cases "v = NULL")
    case True
    then show ?thesis using v(2) s1 by simp
  next
    case False
    then obtain ok where "malloc_page_loop pf (unat n) v s1 = Inr (ok, s')"
      using v(2) by (auto simp: bindR_Inr_iff)
    then show ?thesis using malloc_page_loop_locks s1 same_locks_trans by meson
  qed
qed

text \<open>C22: A request of more than 1024 bytes that succeeds returns with the pool's lock held: every later
  lock_acquire of it by another thread fails to get through. The branch returns without lock_release.\<close>
theorem sys_malloc_large_keeps_lock:
  assumes pl: "plock (kernel_pool s) = lock_init" and r: "running_thread s \<noteq> NULL" and tp: "task_pool s = PF_KERNEL"
    and sz: "1024 < sz" and m: "sys_malloc sz s = Inr (va, s')" "va \<noteq> NULL"
    and k: "running_thread (k :: kthreads) \<noteq> running_thread s"
  shows "holder (plock (kernel_pool s')) = running_thread s
     \<and> \<not> is_ok (lock_acquire (plock (kernel_pool s')) k)"
proof -
  let ?s1 = "s\<lparr>kernel_pool := (kernel_pool s)\<lparr>plock := lock_held (running_thread s) 1\<rparr>\<rparr>"
  have lk: "pool_lock PF_KERNEL s = Inr ?s1"
    using pool_lock_free [of PF_KERNEL s] pl r by (simp add: mem_pool_def set_mem_pool_def)
  have lg: "malloc_large PF_KERNEL sz ?s1 = Inr (va, s')"
    using m sz tp lk by (auto simp: sys_malloc_def Let_def split: if_splits)
  obtain a s2 where a: "malloc_page PF_KERNEL (DIV_ROUND_UP (sz + sizeof_arena) PG_SIZE) ?s1 = Inr (a, s2)"
    "a \<noteq> NULL" "same_locks s2 s'"
    using lg m(2)
    by (auto simp: malloc_large_def Let_def bindR_Inr_iff memset_bytes_def same_locks_def upd_arena_def split: if_splits)
  have "plock (kernel_pool s') = lock_held (running_thread s) 1"
    using malloc_page_locks [OF a(1)] a(3) by (simp add: same_locks_def)
  moreover have "\<not> is_ok (lock_acquire (lock_held (running_thread s) 1) k)"
    using k by (auto simp: lock_acquire_def lock_held_def sema_down_def Let_def is_ok_iff bindR_Inr_iff split: if_splits)
  ultimately show ?thesis by (simp add: lock_held_def)
qed


lemma space_ok_plock:
  "space_ok PF_KERNEL (s\<lparr>kernel_pool := (kernel_pool s)\<lparr>plock := l\<rparr>\<rparr>) = space_ok PF_KERNEL s"
  "vfree_run PF_KERNEL (s\<lparr>kernel_pool := (kernel_pool s)\<lparr>plock := l\<rparr>\<rparr>) k n = vfree_run PF_KERNEL s k n"
  "free_frames PF_KERNEL (s\<lparr>kernel_pool := (kernel_pool s)\<lparr>plock := l\<rparr>\<rparr>) = free_frames PF_KERNEL s"
  "vpage PF_KERNEL (s\<lparr>kernel_pool := (kernel_pool s)\<lparr>plock := l\<rparr>\<rparr>) k = vpage PF_KERNEL s k"
proof -
  let ?s = "s\<lparr>kernel_pool := (kernel_pool s)\<lparr>plock := l\<rparr>\<rparr>"
  have e: "vpages PF_KERNEL ?s = vpages PF_KERNEL s" "vused PF_KERNEL ?s = vused PF_KERNEL s"
    "vpage PF_KERNEL ?s = vpage PF_KERNEL s" "frame_of PF_KERNEL ?s = frame_of PF_KERNEL s"
    "page_index PF_KERNEL ?s = page_index PF_KERNEL s" "pool_pages PF_KERNEL ?s = pool_pages PF_KERNEL s"
    "page_used PF_KERNEL ?s = page_used PF_KERNEL s" "ptab ?s = ptab s"
    by (simp_all add: vpages_def vused_def vpage_def frame_of_def page_index_def frame_index_def pool_pages_def
        page_used_def vaddr_pool_def mem_pool_def fun_eq_iff)
  have "mapping_ok PF_KERNEL ?s = mapping_ok PF_KERNEL s" unfolding mapping_ok_def e by (rule refl)
  moreover have "vrange_ok PF_KERNEL ?s = vrange_ok PF_KERNEL s"
    unfolding vrange_ok_def e by (simp add: vaddr_pool_def mem_pool_def)
  moreover have "pools_ok ?s = pools_ok s" by (simp add: pools_ok_def pool_ok_def)
  ultimately show "space_ok PF_KERNEL ?s = space_ok PF_KERNEL s" by (simp add: space_ok_def)
  show "vfree_run PF_KERNEL ?s k n = vfree_run PF_KERNEL s k n" "free_frames PF_KERNEL ?s = free_frames PF_KERNEL s"
    "vpage PF_KERNEL ?s k = vpage PF_KERNEL s k"
    by (simp_all add: vfree_run_def free_frames_def e)
qed

lemma demo_large: "\<exists>va s'. sys_malloc 5000 demo_memory = Inr (va, s') \<and> va \<noteq> NULL"
proof -
  have f: "plock (kernel_pool demo_memory) = lock_init" "running_thread demo_memory = 0xc009e000"
    "task_pool demo_memory = PF_KERNEL" "5000 < pool_size (kernel_pool demo_memory)"
    by (simp_all add: demo_memory_def kthreads.defs memory.defs task_pool_def demo_threads_def demo_task_def)
  let ?s1 = "demo_memory\<lparr>kernel_pool := (kernel_pool demo_memory)\<lparr>plock := lock_held 0xc009e000 1\<rparr>\<rparr>"
  have lk: "pool_lock PF_KERNEL demo_memory = Inr ?s1"
    using pool_lock_free [of PF_KERNEL demo_memory] f by (simp add: mem_pool_def set_mem_pool_def)
  have n: "DIV_ROUND_UP (5000 + sizeof_arena) PG_SIZE = 2"
    by (simp add: DIV_ROUND_UP_def sizeof_arena_def PG_SIZE_def)
  have v2: "vfree_run PF_KERNEL demo_memory 0 2" using demo_room(1) by (simp add: vfree_run_def)
  have "\<exists>s' fs. malloc_page PF_KERNEL 2 ?s1 = Inr (vpage PF_KERNEL ?s1 0, s') \<and> length fs = unat (2 :: u32)
     \<and> pools_ok s' \<and> vrange_ok PF_KERNEL s' \<and> mapped_state PF_KERNEL ?s1 0 fs s'"
    by (rule malloc_page_maps) (use demo_space demo_room(2) v2 in \<open>simp_all add: space_ok_plock\<close>)
  then obtain s2 where s2: "malloc_page PF_KERNEL 2 ?s1 = Inr (0xc0100000, s2)"
    by (auto simp: space_ok_plock vpage_def vaddr_pool_def demo_memory_def kthreads.defs memory.defs)
  have "sys_malloc 5000 demo_memory = malloc_large PF_KERNEL 5000 ?s1"
    using f lk by (simp add: sys_malloc_def Let_def mem_pool_def)
  moreover have "\<exists>s'. malloc_large PF_KERNEL 5000 ?s1 = Inr (0xc0100000 + sizeof_arena, s')"
    using s2 by (simp add: malloc_large_def n Let_def memset_bytes_def memset_def)
  moreover have "(0xc0100000 + sizeof_arena :: addr) \<noteq> NULL" by (simp add: sizeof_arena_def)
  ultimately show ?thesis by metis
qed

lemma sys_malloc_large_keeps_lock_witness:
  "\<exists>va s'. sys_malloc 5000 demo_memory = Inr (va, s') \<and> holder (plock (kernel_pool s')) = 0xc009e000
     \<and> \<not> is_ok (lock_acquire (plock (kernel_pool s')) (demo_threads\<lparr>running_thread := 0xc0101000\<rparr>))"
proof -
  obtain va s' where m: "sys_malloc 5000 demo_memory = Inr (va, s')" "va \<noteq> NULL" using demo_large by blast
  have f: "plock (kernel_pool demo_memory) = lock_init" "running_thread demo_memory = 0xc009e000"
    "task_pool demo_memory = PF_KERNEL"
    by (simp_all add: demo_memory_def kthreads.defs memory.defs task_pool_def demo_threads_def demo_task_def)
  show ?thesis
    using sys_malloc_large_keeps_lock [OF f(1) _ f(3) _ m, of "demo_threads\<lparr>running_thread := 0xc0101000\<rparr>"] f(2) m(1)
    by auto
qed


end
