(* ===== verification/Ioqueue.thy ===== *)
theory Ioqueue
  imports Sync "HOL-Library.Signed_Division"
begin

text \<open>
  device/ioqueue.c: the ring of 64 bytes between the keyboard interrupt and its readers. ioq_getchar
  and ioq_putchar run with interrupts off; on an empty or full ring the caller queues itself as the
  waiting consumer or producer and gives up the processor with the ring's lock held, and when it runs
  again releases the lock and looks again. A pass is what runs up to that switch.
\<close>

record ioqueue =
  qlock :: lock
  producer :: addr
  consumer :: addr
  buf :: "u8 list"
  head :: u32
  tail :: u32

definition bufsize :: nat where "bufsize = 64"

definition ioqueue_init :: "u8 list \<Rightarrow> ioqueue" where
  "ioqueue_init garbage = \<lparr>qlock = lock_init, producer = NULL, consumer = NULL, buf = garbage, head = 0, tail = 0\<rparr>"

definition next_pos :: "u32 \<Rightarrow> u32" where
  "next_pos pos = word_of_int (sint (pos + 1) smod int bufsize)"

definition ioq_full :: "ioqueue \<Rightarrow> 'a kthreads_scheme \<Rightarrow> bool res" where
  "ioq_full ioq s =
     (if intr s \<noteq> INTR_OFF then Inl (Assertion ''intr_get_status() == INTR_OFF'')
      else Inr (next_pos (head ioq) = tail ioq))"

definition ioq_empty :: "ioqueue \<Rightarrow> 'a kthreads_scheme \<Rightarrow> bool res" where
  "ioq_empty ioq s =
     (if intr s \<noteq> INTR_OFF then Inl (Assertion ''intr_get_status() == INTR_OFF'')
      else Inr (head ioq = tail ioq))"

definition ioq_wait :: "addr \<Rightarrow> 'a kthreads_scheme \<Rightarrow> (addr \<times> 'a kthreads_scheme) res" where
  "ioq_wait waiter s =
     (if waiter \<noteq> NULL then Inl (Assertion ''waiter != NULL && *waiter == NULL'')
      else bindR (thread_block TASK_BLOCKED s) (\<lambda>s'. Inr (running_thread s, s')))"

definition wake_up :: "addr \<Rightarrow> 'a kthreads_scheme \<Rightarrow> (addr \<times> 'a kthreads_scheme) res" where
  "wake_up waiter s =
     (if waiter = NULL then Inl (Assertion ''*waiter != NULL'')
      else bindR (thread_unblock waiter s) (\<lambda>s. Inr (NULL, s)))"

definition read_buf :: "ioqueue \<Rightarrow> u32 \<Rightarrow> u8 res" where
  "read_buf ioq i = (if unat i < length (buf ioq) then Inr (buf ioq ! unat i) else Inl (Bad_access ''buf''))"

definition write_buf :: "ioqueue \<Rightarrow> u32 \<Rightarrow> u8 \<Rightarrow> ioqueue res" where
  "write_buf ioq i b = (if unat i < length (buf ioq) then Inr (ioq\<lparr>buf := (buf ioq)[unat i := b]\<rparr>)
     else Inl (Bad_access ''buf''))"

text \<open>A pass of ioq_getchar: the byte, or None when the thread gave up the processor.\<close>

definition ioq_getchar :: "ioqueue \<Rightarrow> 'a kthreads_scheme \<Rightarrow> (u8 option \<times> ioqueue \<times> 'a kthreads_scheme) res" where
  "ioq_getchar ioq s =
     bindR (ioq_empty ioq s) (\<lambda>empty.
       if empty then
         bindR (lock_acquire (qlock ioq) s) (\<lambda>(l, s).
         bindR (ioq_wait (consumer ioq) s) (\<lambda>(c, s).
           Inr (None, ioq\<lparr>qlock := l, consumer := c\<rparr>, s)))
       else
         bindR (read_buf ioq (tail ioq)) (\<lambda>byte.
           let ioq = ioq\<lparr>tail := next_pos (tail ioq)\<rparr> in
           if producer ioq \<noteq> NULL
           then bindR (wake_up (producer ioq) s) (\<lambda>(p, s). Inr (Some byte, ioq\<lparr>producer := p\<rparr>, s))
           else Inr (Some byte, ioq, s)))"

text \<open>A pass of ioq_putchar: True when the byte is in the ring.\<close>

definition ioq_putchar :: "ioqueue \<Rightarrow> u8 \<Rightarrow> 'a kthreads_scheme \<Rightarrow> (bool \<times> ioqueue \<times> 'a kthreads_scheme) res" where
  "ioq_putchar ioq byte s =
     bindR (ioq_full ioq s) (\<lambda>full.
       if full then
         bindR (lock_acquire (qlock ioq) s) (\<lambda>(l, s).
         bindR (ioq_wait (producer ioq) s) (\<lambda>(p, s).
           Inr (False, ioq\<lparr>qlock := l, producer := p\<rparr>, s)))
       else
         bindR (write_buf ioq (head ioq) byte) (\<lambda>ioq.
           let ioq = ioq\<lparr>head := next_pos (head ioq)\<rparr> in
           if consumer ioq \<noteq> NULL
           then bindR (wake_up (consumer ioq) s) (\<lambda>(c, s). Inr (True, ioq\<lparr>consumer := c\<rparr>, s))
           else Inr (True, ioq, s)))"

text \<open>What a thread woken from ioq_wait does before its next pass.\<close>

definition ioq_resume :: "ioqueue \<Rightarrow> 'a kthreads_scheme \<Rightarrow> (ioqueue \<times> 'a kthreads_scheme) res" where
  "ioq_resume ioq s = bindR (lock_release (qlock ioq) s) (\<lambda>(l, s). Inr (ioq\<lparr>qlock := l\<rparr>, s))"

section \<open>The ring holds a sequence\<close>

definition ring_ok :: "ioqueue \<Rightarrow> bool" where
  "ring_ok ioq \<longleftrightarrow> length (buf ioq) = bufsize \<and> unat (head ioq) < bufsize \<and> unat (tail ioq) < bufsize"

definition ring_len :: "ioqueue \<Rightarrow> nat" where
  "ring_len ioq = (unat (head ioq) + bufsize - unat (tail ioq)) mod bufsize"

definition ring_seq :: "ioqueue \<Rightarrow> u8 list" where
  "ring_seq ioq = map (\<lambda>i. buf ioq ! ((unat (tail ioq) + i) mod bufsize)) [0..<ring_len ioq]"

lemma smod_nonneg: "0 \<le> a \<Longrightarrow> 0 < n \<Longrightarrow> a smod n = a mod (n :: int)"
  by (cases "a = 0") (simp_all add: smod_int_alt_def sgn_if)

lemma unat_next_pos:
  assumes "unat p < bufsize"
  shows "unat (next_pos p) = (unat p + 1) mod bufsize"
proof -
  have lt: "unat p < 64" using assms by (simp add: bufsize_def)
  have "p + 1 = word_of_nat (unat p + 1)" by (simp add: add.commute)
  then have "sint (p + 1) = sint (word_of_nat (unat p + 1) :: u32)" by (rule arg_cong)
  also have "\<dots> = signed_take_bit 31 (int (unat p + 1))" by (simp only: signed_of_nat) simp
  also have "\<dots> = int (unat p + 1)" 
  proof (rule signed_take_bit_int_eq_self)
    have "int (unat p) < 64" using lt by linarith
    then show "int (unat p + 1) < 2 ^ 31" by simp
    show "- (2 ^ 31) \<le> int (unat p + 1)" by simp
  qed
  finally have e: "sint (p + 1) = int (unat p + 1)" .
  have "sint (p + 1) smod int bufsize = int ((unat p + 1) mod bufsize)"
    unfolding e zmod_int by (rule smod_nonneg) (simp_all add: bufsize_def)
  then have "next_pos p = of_nat ((unat p + 1) mod bufsize)" by (simp add: next_pos_def)
  moreover have "(unat p + 1) mod bufsize < 4294967296" by (simp add: bufsize_def mod_less_divisor less_trans [of _ 64])
  ultimately show ?thesis by (simp only: unat_of_nat_u32)
qed

lemma ring_mod: "a < 128 \<Longrightarrow> a mod bufsize = (if a < 64 then a else a - 64)"
  by (simp add: bufsize_def mod_if [of a 64])

lemma ring_len_eq:
  assumes "ring_ok q"
  shows "ring_len q = (if unat (tail q) \<le> unat (head q) then unat (head q) - unat (tail q)
     else unat (head q) + 64 - unat (tail q))" "ring_len q < 64"
proof -
  have b: "unat (head q) < 64" "unat (tail q) < 64" using assms by (simp_all add: ring_ok_def bufsize_def)
  show "ring_len q = (if unat (tail q) \<le> unat (head q) then unat (head q) - unat (tail q)
     else unat (head q) + 64 - unat (tail q))"
    using b unfolding ring_len_def by (subst ring_mod) (simp_all add: bufsize_def)
  then show "ring_len q < 64" using b by (cases "unat (tail q) \<le> unat (head q)") simp_all
qed

lemma length_ring_seq [simp]: "length (ring_seq q) = ring_len q"
  by (simp add: ring_seq_def)

lemma ring_seq_nth: "i < ring_len q \<Longrightarrow> ring_seq q ! i = buf q ! ((unat (tail q) + i) mod bufsize)"
  by (simp add: ring_seq_def)

lemma ring_empty: "ring_ok q \<Longrightarrow> head q = tail q \<longleftrightarrow> ring_seq q = []"
proof -
  assume q: "ring_ok q"
  then have "unat (head q) < 64" "unat (tail q) < 64" by (simp_all add: ring_ok_def bufsize_def)
  then have "head q = tail q \<longleftrightarrow> ring_len q = 0"
    using ring_len_eq(1) [OF q] by (auto simp: u32_eq_iff)
  then show ?thesis by (simp add: ring_seq_def)
qed

lemma ring_full: "ring_ok q \<Longrightarrow> next_pos (head q) = tail q \<longleftrightarrow> ring_len q = 63"
proof -
  assume q: "ring_ok q"
  then have b: "unat (head q) < 64" "unat (tail q) < 64" by (simp_all add: ring_ok_def bufsize_def)
  have "unat (next_pos (head q)) = (if unat (head q) + 1 < 64 then unat (head q) + 1 else 0)"
    using b unat_next_pos [of "head q"] ring_mod [of "unat (head q) + 1"] by (simp add: bufsize_def)
  then show ?thesis using b ring_len_eq(1) [OF q] by (auto simp: u32_eq_iff)
qed

lemma ring_put:
  fixes b :: u8
  assumes q: "ring_ok q" and n: "ring_len q < 63"
  defines "q' \<equiv> q\<lparr>buf := (buf q)[unat (head q) := b], head := next_pos (head q)\<rparr>"
  shows "ring_ok q'" "ring_seq q' = ring_seq q @ [b]" "write_buf q (head q) b = Inr (q\<lparr>buf := (buf q)[unat (head q) := b]\<rparr>)"
proof -
  have b: "unat (head q) < 64" "unat (tail q) < 64" "length (buf q) = 64"
    using q by (simp_all add: ring_ok_def bufsize_def)
  then show "write_buf q (head q) b = Inr (q\<lparr>buf := (buf q)[unat (head q) := b]\<rparr>)" by (simp add: write_buf_def)
  have h: "unat (next_pos (head q)) = (if unat (head q) + 1 < 64 then unat (head q) + 1 else 0)"
    using b unat_next_pos [of "head q"] ring_mod [of "unat (head q) + 1"] by (simp add: bufsize_def)
  show ok: "ring_ok q'" using b h by (simp add: ring_ok_def q'_def bufsize_def)
  have len: "ring_len q' = Suc (ring_len q)"
    using ring_len_eq(1) [OF ok] ring_len_eq(1) [OF q] n b h by (auto simp: q'_def split: if_splits)
  show "ring_seq q' = ring_seq q @ [b]"
  proof (rule nth_equalityI)
    show "length (ring_seq q') = length (ring_seq q @ [b])" by (simp add: len)
    fix i assume "i < length (ring_seq q')"
    then have iq: "i < ring_len q'" and i: "i < Suc (ring_len q)" by (simp_all add: len)
    let ?p = "(unat (tail q) + i) mod bufsize"
    have p: "?p = (if unat (tail q) + i < 64 then unat (tail q) + i else unat (tail q) + i - 64)"
      using b i n by (intro ring_mod) simp
    have "?p = unat (head q) \<longleftrightarrow> i = ring_len q"
      using p b i n ring_len_eq(1) [OF q] by (auto split: if_splits)
    then have "ring_seq q' ! i = (if i = ring_len q then b else buf q ! ?p)"
      unfolding ring_seq_nth [OF iq] using b by (cases "i = ring_len q") (auto simp: q'_def nth_list_update)
    then show "ring_seq q' ! i = (ring_seq q @ [b]) ! i"
      using i by (auto simp: nth_append ring_seq_nth)
  qed
qed

lemma ring_get:
  assumes q: "ring_ok q" and s: "ring_seq q = b # bs"
  defines "q' \<equiv> q\<lparr>tail := next_pos (tail q)\<rparr>"
  shows "ring_ok q'" "ring_seq q' = bs" "read_buf q (tail q) = Inr b"
proof -
  have b: "unat (head q) < 64" "unat (tail q) < 64" "length (buf q) = 64"
    using q by (simp_all add: ring_ok_def bufsize_def)
  have n: "ring_len q = Suc (length bs)" using arg_cong [OF s, of length] by simp
  have t: "unat (next_pos (tail q)) = (if unat (tail q) + 1 < 64 then unat (tail q) + 1 else 0)"
    using b unat_next_pos [of "tail q"] ring_mod [of "unat (tail q) + 1"] by (simp add: bufsize_def)
  show ok: "ring_ok q'" using b t by (simp add: ring_ok_def q'_def bufsize_def)
  have len: "ring_len q' = length bs"
    using ring_len_eq(1) [OF ok] ring_len_eq(1) [OF q] n b t by (auto simp: q'_def split: if_splits)
  have nth: "(b # bs) ! i = buf q ! ((unat (tail q) + i) mod bufsize)" if "i < Suc (length bs)" for i
    unfolding s [symmetric] using that n by (intro ring_seq_nth) simp
  show "read_buf q (tail q) = Inr b" using nth [of 0] b by (simp add: read_buf_def bufsize_def)
  show "ring_seq q' = bs"
  proof (rule nth_equalityI)
    show "length (ring_seq q') = length bs" by (simp add: len)
    fix i assume "i < length (ring_seq q')"
    then have i: "i < length bs" by (simp add: len)
    have l64: "ring_len q < 64" by (rule ring_len_eq(2) [OF q])
    have "(unat (next_pos (tail q)) + i) mod bufsize = (unat (tail q) + Suc i) mod bufsize"
      using t b i n l64 ring_mod [of "unat (next_pos (tail q)) + i"] ring_mod [of "unat (tail q) + Suc i"] by auto
    then show "ring_seq q' ! i = bs ! i"
      using nth [of "Suc i"] i len ring_seq_nth [of i q'] by (simp add: q'_def)
  qed
qed

section \<open>The ring as a queue\<close>

text \<open>A ring nobody waits on, used with interrupts off.\<close>

definition ring_rep :: "ioqueue \<times> kthreads \<Rightarrow> u8 list \<Rightarrow> bool" where
  "ring_rep qs xs \<longleftrightarrow> ring_ok (fst qs) \<and> ring_seq (fst qs) = xs \<and> producer (fst qs) = NULL
     \<and> consumer (fst qs) = NULL \<and> intr (snd qs) = INTR_OFF"

definition ioq_put :: "ioqueue \<times> kthreads \<Rightarrow> u8 \<Rightarrow> (ioqueue \<times> kthreads) res" where
  "ioq_put qs b = bindR (ioq_putchar (fst qs) b (snd qs)) (\<lambda>(ok, qs'). if ok then Inr qs' else Inl Blocked)"

definition ioq_get :: "ioqueue \<times> kthreads \<Rightarrow> (u8 \<times> ioqueue \<times> kthreads) res" where
  "ioq_get qs = bindR (ioq_getchar (fst qs) (snd qs)) (\<lambda>(r, qs'). case r of Some b \<Rightarrow> Inr (b, qs') | None \<Rightarrow> Inl Blocked)"

lemma ioq_putchar_room:
  assumes "ring_ok q" "ring_len q < 63" "consumer q = NULL" "intr s = INTR_OFF"
  shows "ioq_putchar q b s = Inr (True, q\<lparr>buf := (buf q)[unat (head q) := b], head := next_pos (head q)\<rparr>, s)"
  using assms ring_full [OF assms(1)] ring_put(3) [OF assms(1,2)]
  by (simp add: ioq_putchar_def ioq_full_def Let_def)

lemma ioq_getchar_some:
  assumes "ring_ok q" "ring_seq q = b # bs" "producer q = NULL" "intr s = INTR_OFF"
  shows "ioq_getchar q s = Inr (Some b, q\<lparr>tail := next_pos (tail q)\<rparr>, s)"
  using assms ring_empty [OF assms(1)] ring_get(3) [OF assms(1,2)]
  by (simp add: ioq_getchar_def ioq_empty_def Let_def)

interpretation ioq: fifo ring_rep "\<lambda>xs b. length xs < 63" ioq_put ioq_get
proof unfold_locales
  fix q :: "ioqueue \<times> kthreads" and xs :: "u8 list" and x :: u8
  assume r: "ring_rep q xs" and n: "length xs < 63"
  have len: "ring_len (fst q) < 63" using r n length_ring_seq [of "fst q"] by (simp add: ring_rep_def)
  show "\<exists>q'. ioq_put q x = Inr q' \<and> ring_rep q' (xs @ [x])"
    using r ring_put(1,2) [OF _ len, of x] ioq_putchar_room [OF _ len, of "snd q" x]
    by (simp add: ring_rep_def ioq_put_def)
next
  fix q :: "ioqueue \<times> kthreads" and xs :: "u8 list" and x :: u8
  assume r: "ring_rep q (x # xs)"
  then show "\<exists>q'. ioq_get q = Inr (x, q') \<and> ring_rep q' xs"
    using ring_get(1,2) [of "fst q" x xs] ioq_getchar_some [of "fst q" x xs "snd q"]
    by (auto simp: ring_rep_def ioq_get_def)
qed

section \<open>Properties\<close>

text \<open>C16: What is put into the ring comes out in the same order after what was in it, for any sequence
  that fits; the ring holds at most 63 bytes, and is full exactly then and empty exactly when the
  sequence is.\<close>
theorem ioq_fifo:
  assumes "ring_rep (q, k) xs" "length xs + length ys \<le> 63"
  shows "\<exists>qs' qs''. put_many ioq_put (q, k) ys = Inr qs'
     \<and> ioq_full (fst qs') (snd qs') = Inr (length xs + length ys = 63)
     \<and> ioq_empty (fst qs') (snd qs') = Inr (xs = [] \<and> ys = [])
     \<and> take_many ioq_get (length xs + length ys) qs' = Inr (xs @ ys, qs'') \<and> ring_rep qs'' []"
proof -
  have room: "length (xs @ us) < 63" if "ys = us @ v # vs" for us v vs using assms(2) that by simp
  obtain qs' where q': "put_many ioq_put (q, k) ys = Inr qs'" "ring_rep qs' (xs @ ys)"
    using ioq.put_many_rep [of "(q, k)" xs ys] assms(1) room by blast
  obtain qs'' where g: "take_many ioq_get (length (xs @ ys)) qs' = Inr (xs @ ys, qs'')" "ring_rep qs'' []"
    using ioq.get_many_rep [of qs' "xs @ ys" "[]"] q'(2) by auto
  have ok: "ring_ok (fst qs')" "intr (snd qs') = INTR_OFF" "ring_seq (fst qs') = xs @ ys"
    using q'(2) by (simp_all add: ring_rep_def)
  have "ring_len (fst qs') = length xs + length ys"
    using length_ring_seq [of "fst qs'"] ok(3) by simp
  then have "ioq_full (fst qs') (snd qs') = Inr (length xs + length ys = 63)"
    using ring_full [OF ok(1)] ok(2) by (simp add: ioq_full_def)
  moreover have "ioq_empty (fst qs') (snd qs') = Inr (xs = [] \<and> ys = [])"
    using ring_empty [OF ok(1)] ok by (simp add: ioq_empty_def)
  moreover have "take_many ioq_get (length xs + length ys) qs' = Inr (xs @ ys, qs'')" using g(1) by simp
  ultimately show ?thesis using q'(1) g(2) by blast
qed

lemma ring_init: "length g = bufsize \<Longrightarrow> intr k = INTR_OFF \<Longrightarrow> ring_rep (ioqueue_init g, k) []"
  by (simp add: ring_rep_def ring_ok_def ring_seq_def ring_len_def ioqueue_init_def bufsize_def)

lemma ioq_fifo_witness:
  "\<exists>qs' qs''. put_many ioq_put (ioqueue_init (replicate 64 0), demo_threads) [1, 2, 3] = Inr qs'
     \<and> take_many ioq_get 3 qs' = Inr ([1, 2, 3], qs'')"
proof -
  have r: "ring_rep (ioqueue_init (replicate 64 0), demo_threads) []"
    by (rule ring_init) (simp_all add: bufsize_def demo_threads_def)
  have n: "length ([] :: u8 list) + length [1, 2, 3 :: u8] \<le> 63" "length ([] :: u8 list) + length [1, 2, 3 :: u8] = 3"
    by simp_all
  show ?thesis using ioq_fifo [OF r n(1)] unfolding n(2) append_Nil by blast
qed

text \<open>C19: A reader of an empty ring does not miss its byte: it becomes the waiting consumer and gives up
  the processor, and whichever byte is put next makes it ready again with the byte in the ring.\<close>
theorem ioq_reader_is_woken:
  assumes inv: "sched_inv s" and off: "intr s = INTR_OFF" and q: "ring_ok q" "ring_seq q = []"
    and l: "qlock q = lock_init" and w: "consumer q = NULL" "producer q = NULL"
    and ni: "running_thread s \<noteq> idle_thread s"
  shows "\<exists>q1 s1. ioq_getchar q s = Inr (None, q1, s1) \<and> consumer q1 = running_thread s
     \<and> (\<forall>b. \<exists>q2 s2. ioq_putchar q1 b s1 = Inr (True, q2, s2) \<and> ring_seq q2 = [b] \<and> consumer q2 = NULL
          \<and> status (tasks s2 (running_thread s)) = TASK_READY \<and> sched_inv s2)"
proof -
  let ?c = "running_thread s"
  have mid: "sched_mid s" using inv by (simp add: sched_inv_def)
  have c: "live s ?c" "?c \<noteq> NULL" using sched_midD(2,4) [OF mid] by blast+
  obtain s1 where s1: "thread_block TASK_BLOCKED s = Inr s1" "sched_inv s1"
    "same_parked (upd_task (status_update (\<lambda>_. TASK_BLOCKED)) ?c s) s1"
    using block_parked [OF inv, of TASK_BLOCKED] by (auto simp: waits_def)
  have st: "live s1 ?c" "status (tasks s1 ?c) = TASK_BLOCKED"
    using same_parkedD [OF s1(3)] c(1) ni by (simp_all add: runnable_def)
  have off1: "intr s1 = INTR_OFF"
  proof -
    have mid': "sched_mid (upd_task (status_update (\<lambda>_. TASK_BLOCKED)) ?c (s\<lparr>intr := INTR_OFF\<rparr>))"
      by (rule block_mid [OF inv]) (simp add: waits_def)
    show ?thesis
      using schedule_switches [OF mid'] s1(1)
      by (auto simp: thread_block_def Let_def after_schedule_def)
  qed
  let ?q1 = "q\<lparr>qlock := lock_held ?c 1, consumer := ?c\<rparr>"
  have g: "ioq_getchar q s = Inr (None, ?q1, s1)"
    using off q ring_empty [OF q(1)] l w(1) acquire_first [OF c(2)] s1(1)
    by (simp add: ioq_getchar_def ioq_empty_def ioq_wait_def)
  have "\<exists>q2 s2. ioq_putchar ?q1 b s1 = Inr (True, q2, s2) \<and> ring_seq q2 = [b] \<and> consumer q2 = NULL
          \<and> status (tasks s2 ?c) = TASK_READY \<and> sched_inv s2" for b
  proof -
    have ok1: "ring_ok ?q1" and seq1: "ring_seq ?q1 = []" using q by (simp_all add: ring_ok_def ring_seq_def ring_len_def)
    have len: "ring_len ?q1 < 63" unfolding length_ring_seq [symmetric] seq1 by simp
    note P = ring_put [OF ok1 len, of b]
    obtain s2 where s2: "thread_unblock ?c s1 = Inr s2" "sched_inv s2" "status (tasks s2 ?c) = TASK_READY"
      using unblock_inv [OF s1(2) st(1)] st(2) by (auto simp: waits_def)
    let ?q2 = "?q1\<lparr>buf := (buf ?q1)[unat (head ?q1) := b], head := next_pos (head ?q1)\<rparr>"
    have "ioq_putchar ?q1 b s1 = Inr (True, ?q2\<lparr>consumer := NULL\<rparr>, s2)"
      using off1 ring_full [OF ok1] len P(3) c(2) s2(1)
      by (simp add: ioq_putchar_def ioq_full_def wake_up_def Let_def)
    moreover have "ring_seq (?q2\<lparr>consumer := NULL\<rparr>) = [b]"
      using P(2) unfolding seq1 by (simp add: ring_seq_def ring_len_def)
    ultimately show ?thesis using s2 by auto
  qed
  then show ?thesis using g by auto
qed

lemma ioq_reader_is_woken_witness:
  "\<exists>q1 s1. ioq_getchar (ioqueue_init (replicate 64 0)) demo_threads = Inr (None, q1, s1)
     \<and> (\<exists>q2 s2. ioq_putchar q1 65 s1 = Inr (True, q2, s2) \<and> status (tasks s2 0xc009e000) = TASK_READY)"
proof -
  have q: "ring_ok (ioqueue_init (replicate 64 0))" "ring_seq (ioqueue_init (replicate 64 0)) = []"
    by (simp_all add: ring_ok_def ring_seq_def ring_len_def ioqueue_init_def bufsize_def)
  have d: "intr demo_threads = INTR_OFF" "running_thread demo_threads = 0xc009e000" "idle_thread demo_threads = 0xc0100000"
    by (simp_all add: demo_threads_def)
  have i: "qlock (ioqueue_init g) = lock_init" "consumer (ioqueue_init g) = NULL" "producer (ioqueue_init g) = NULL" for g
    by (simp_all add: ioqueue_init_def)
  show ?thesis
    using ioq_reader_is_woken [OF demo_inv d(1) q i] unfolding d by fastforce
qed

end
