(* ===== verification/Keyboard.thy ===== *)
theory Keyboard
  imports Ioqueue
begin

text \<open>
  device/keyboard.c: the interrupt handler that turns scan codes into characters in the keyboard ring,
  with its modifier state. A key sends a make code when pressed and the same code with bit 7 set when
  released; some keys send 0xe0 first. The specification reads the byte stream as a list of codes and
  the codes as modifier changes and characters; the handler implements it byte by byte.
\<close>

record kbd =
  ctrl_status :: bool
  shift_status :: bool
  alt_status :: bool
  caps_lock_status :: bool
  ext_scancode :: bool
  kbd_buf :: ioqueue

definition shift_l_make :: u16 where "shift_l_make = 0x2a"
definition shift_r_make :: u16 where "shift_r_make = 0x36"
definition alt_l_make :: u16 where "alt_l_make = 0x38"
definition alt_r_make :: u16 where "alt_r_make = 0xe038"
definition ctrl_l_make :: u16 where "ctrl_l_make = 0x1d"
definition ctrl_r_make :: u16 where "ctrl_r_make = 0xe01d"
definition caps_lock_make :: u16 where "caps_lock_make = 0x3a"

text \<open>The table from 0x00 to 0x3a: the character without and with shift, 0 for a key without one.\<close>

definition keymap :: "(u8 \<times> u8) list" where
  "keymap = [
     (48, 48), (27, 27), (49, 33), (50, 64),
     (51, 35), (52, 36), (53, 37), (54, 94),
     (55, 38), (56, 42), (57, 40), (48, 41),
     (45, 95), (61, 43), (8, 8), (9, 9),
     (113, 81), (119, 87), (101, 69), (114, 82),
     (116, 84), (121, 89), (117, 85), (105, 73),
     (111, 79), (112, 80), (91, 123), (93, 125),
     (13, 13), (0, 0), (97, 65), (115, 83),
     (100, 68), (102, 70), (103, 71), (104, 72),
     (106, 74), (107, 75), (108, 76), (59, 58),
     (39, 34), (96, 126), (0, 0), (92, 124),
     (122, 90), (120, 88), (99, 67), (118, 65),
     (98, 66), (110, 78), (109, 77), (44, 60),
     (46, 62), (47, 63), (0, 0), (42, 42),
     (0, 0), (32, 32), (0, 0)]"

text \<open>The static initial state, and what keyboard_init sets.\<close>

definition keyboard_init :: "u8 list \<Rightarrow> kbd" where
  "keyboard_init garbage = \<lparr>ctrl_status = False, shift_status = False, alt_status = False,
     caps_lock_status = False, ext_scancode = False, kbd_buf = ioqueue_init garbage\<rparr>"

text \<open>Keys that shift, but not caps lock, changes.\<close>

definition shift_only :: "u16 \<Rightarrow> bool" where
  "shift_only scancode \<longleftrightarrow> scancode < 0x0e \<or> scancode = 0x29 \<or> scancode = 0x1a \<or> scancode = 0x1b
     \<or> scancode = 0x2b \<or> scancode = 0x27 \<or> scancode = 0x28 \<or> scancode = 0x33 \<or> scancode = 0x34 \<or> scancode = 0x35"

definition break_key :: "u16 \<Rightarrow> kbd \<Rightarrow> kbd" where
  "break_key make_code s =
     (if make_code = ctrl_l_make \<or> make_code = ctrl_r_make then s\<lparr>ctrl_status := False\<rparr>
      else if make_code = shift_l_make \<or> make_code = shift_r_make then s\<lparr>shift_status := False\<rparr>
      else if make_code = alt_l_make \<or> make_code = alt_r_make then s\<lparr>alt_status := False\<rparr>
      else s)"

definition make_key :: "u16 \<Rightarrow> kbd \<Rightarrow> kthreads \<Rightarrow> (kbd \<times> kthreads) res" where
  "make_key scancode s k =
     (let shift_down_last = shift_status s;
          caps_down_last = caps_lock_status s;
          shift = (if shift_only scancode then shift_down_last
                   else if shift_down_last \<and> caps_down_last then False
                   else if shift_down_last \<or> caps_down_last then True
                   else False);
          scancode = scancode AND 0x00ff;
          index = (ucast scancode :: u8)
      in if \<not> unat index < length keymap then Inl (Bad_access ''keymap'')
         else let entry = keymap ! unat index;
                  cur_char = (if shift then snd entry else fst entry)
         in if cur_char \<noteq> 0 then
              bindR (ioq_full (kbd_buf s) k) (\<lambda>full.
                if \<not> full then bindR (ioq_putchar (kbd_buf s) cur_char k) (\<lambda>(_, q, k).
                  Inr (s\<lparr>kbd_buf := q\<rparr>, k))
                else Inr (s, k))
            else Inr (
              if scancode = ctrl_l_make \<or> scancode = ctrl_r_make then s\<lparr>ctrl_status := True\<rparr>
              else if scancode = shift_l_make \<or> scancode = shift_r_make then s\<lparr>shift_status := True\<rparr>
              else if scancode = alt_l_make \<or> scancode = alt_r_make then s\<lparr>alt_status := True\<rparr>
              else if scancode = caps_lock_make then s\<lparr>caps_lock_status := \<not> caps_lock_status s\<rparr>
              else s, k))"

text \<open>intr_keyboard_handler for the byte b read from port 0x60; the message for an unknown key is left out.\<close>

definition intr_keyboard_handler :: "u8 \<Rightarrow> kbd \<Rightarrow> kthreads \<Rightarrow> (kbd \<times> kthreads) res" where
  "intr_keyboard_handler b s k =
     (let scancode = (ucast b :: u16) in
      if scancode = 0xe0 then Inr (s\<lparr>ext_scancode := True\<rparr>, k)
      else let scancode = (if ext_scancode s then 0xe000 OR scancode else scancode);
               s = s\<lparr>ext_scancode := False\<rparr>
      in if 0x0080 AND scancode \<noteq> 0 then Inr (break_key (scancode AND 0xff7f) s, k)
         else if 0x00 < scancode \<and> scancode < 0x3B \<or> scancode = alt_r_make \<or> scancode = ctrl_r_make
         then make_key scancode s k
         else Inr (s, k))"

fun keyboard_run :: "u8 list \<Rightarrow> kbd \<Rightarrow> kthreads \<Rightarrow> (kbd \<times> kthreads) res" where
  "keyboard_run [] s k = Inr (s, k)"
| "keyboard_run (b # bs) s k = bindR (intr_keyboard_handler b s k) (\<lambda>(s, k). keyboard_run bs s k)"

section \<open>Specification\<close>

text \<open>The codes of a byte stream; the flag says that the last byte was 0xe0.\<close>

fun codes :: "bool \<Rightarrow> u8 list \<Rightarrow> bool \<times> u16 list" where
  "codes ext [] = (ext, [])"
| "codes ext (b # bs) =
     (if b = 0xe0 then codes True bs
      else let (e, cs) = codes False bs in (e, (if ext then 0xe000 OR ucast b else ucast b) # cs))"

record mods =
  mctrl :: bool
  mshift :: bool
  malt :: bool
  mcaps :: bool

definition key_char :: "mods \<Rightarrow> u16 \<Rightarrow> u8" where
  "key_char m c =
     (if (if shift_only c then mshift m else mshift m \<noteq> mcaps m)
      then snd (keymap ! unat c) else fst (keymap ! unat c))"

definition code_step :: "mods \<Rightarrow> u16 \<Rightarrow> mods \<times> u8 list" where
  "code_step m c =
     (if c = 0x1d \<or> c = 0xe01d then (m\<lparr>mctrl := True\<rparr>, [])
      else if c = 0x9d \<or> c = 0xe09d then (m\<lparr>mctrl := False\<rparr>, [])
      else if c = 0x2a \<or> c = 0x36 then (m\<lparr>mshift := True\<rparr>, [])
      else if c = 0xaa \<or> c = 0xb6 then (m\<lparr>mshift := False\<rparr>, [])
      else if c = 0x38 \<or> c = 0xe038 then (m\<lparr>malt := True\<rparr>, [])
      else if c = 0xb8 \<or> c = 0xe0b8 then (m\<lparr>malt := False\<rparr>, [])
      else if c = 0x3a then (m\<lparr>mcaps := \<not> mcaps m\<rparr>, [])
      else if 0 < c \<and> c < 0x3a then (m, [key_char m c])
      else (m, []))"

fun type_codes :: "mods \<Rightarrow> u16 list \<Rightarrow> mods \<times> u8 list" where
  "type_codes m [] = (m, [])"
| "type_codes m (c # cs) =
     (let (m, out) = code_step m c; (m', out') = type_codes m cs in (m', out @ out'))"

definition kbd_mods :: "kbd \<Rightarrow> mods" where
  "kbd_mods s = \<lparr>mctrl = ctrl_status s, mshift = shift_status s, malt = alt_status s, mcaps = caps_lock_status s\<rparr>"

section \<open>The handler implements it\<close>

lemma break_eq:
  assumes "0x0080 AND c \<noteq> (0 :: u16)" "\<not> bit m 7"
  shows "c AND 0xff7f = m \<longleftrightarrow> c = m OR 0x0080"
proof -
  have p: "(0x0080 :: u16) = 2 ^ 7" and ff: "(0xff7f :: u16) = NOT (0x0080)" by simp_all
  have b80: "bit (0x0080 :: u16) n \<longleftrightarrow> n = 7" for n
    unfolding p by (auto simp only: bit_exp_iff possible_bit_word) simp
  have "bit c 7"
    using assms(1) unfolding p by (metis and.commute and_exp_eq_0_iff_not_bit)
  show ?thesis
  proof
    assume "c AND 0xff7f = m"
    then show "c = m OR 0x0080"
      unfolding ff using \<open>bit c 7\<close>
      by (intro bit_word_eqI) (auto simp only: b80 bit_or_iff bit_and_iff bit_not_iff possible_bit_word)
  next
    assume "c = m OR 0x0080"
    then show "c AND 0xff7f = m"
      unfolding ff using assms(2)
      by (intro bit_word_eqI) (auto simp only: b80 bit_or_iff bit_and_iff bit_not_iff possible_bit_word)
  qed
qed


lemma keymap_length: "length keymap = 59"
  by (simp add: keymap_def)

lemma keymap_zero:
  assumes "i < 59" "i \<noteq> 0x1d" "i \<noteq> 0x2a" "i \<noteq> 0x36" "i \<noteq> 0x38" "i \<noteq> 0x3a"
  shows "fst (keymap ! i) \<noteq> 0" "snd (keymap ! i) \<noteq> 0"
proof -
  have "\<forall>i \<in> set [0..<59]. i \<in> set [0x1d, 0x2a, 0x36, 0x38, 0x3a] \<or> fst (keymap ! i) \<noteq> 0 \<and> snd (keymap ! i) \<noteq> 0"
    by code_simp
  then show "fst (keymap ! i) \<noteq> 0" "snd (keymap ! i) \<noteq> 0" using assms by auto
qed

lemma keymap_special:
  "keymap ! 0x1d = (0, 0)" "keymap ! 0x2a = (0, 0)" "keymap ! 0x36 = (0, 0)" "keymap ! 0x38 = (0, 0)"
  "keymap ! 0x3a = (0, 0)"
  by (simp_all add: keymap_def)

text \<open>A ring that nobody reads, as the handler finds it with interrupts off.\<close>

definition kbd_ok :: "kbd \<Rightarrow> kthreads \<Rightarrow> bool" where
  "kbd_ok s k \<longleftrightarrow> ring_ok (kbd_buf s) \<and> producer (kbd_buf s) = NULL \<and> consumer (kbd_buf s) = NULL \<and> intr k = INTR_OFF"

definition typed_buf :: "kbd \<Rightarrow> u8 list" where
  "typed_buf s = ring_seq (kbd_buf s)"

text \<open>The ring takes what fits and drops the rest.\<close>

definition fits :: "u8 list \<Rightarrow> u8 list" where
  "fits xs = take 63 xs"

lemma kbd_ok_len: "kbd_ok s k \<Longrightarrow> length (typed_buf s) \<le> 63"
  using ring_len_eq(2) [of "kbd_buf s"] by (simp add: kbd_ok_def typed_buf_def)

lemma fits_id: "kbd_ok s k \<Longrightarrow> fits (typed_buf s) = typed_buf s"
  using kbd_ok_len [of s k] by (simp add: fits_def)

lemma fits_append: "fits (fits xs @ ys) = fits (xs @ ys)"
  by (cases "length xs \<le> 63") (simp_all add: fits_def min_def)

definition kbd_does :: "u16 \<Rightarrow> kbd \<Rightarrow> kthreads \<Rightarrow> (kbd \<times> kthreads) res \<Rightarrow> bool" where
  "kbd_does c s k r \<longleftrightarrow> (\<exists>s'. r = Inr (s', k) \<and> kbd_ok s' k \<and> \<not> ext_scancode s'
     \<and> kbd_mods s' = fst (code_step (kbd_mods s) c)
     \<and> typed_buf s' = fits (typed_buf s @ snd (code_step (kbd_mods s) c)))"

lemma break_does:
  assumes ok: "kbd_ok s k" and e: "\<not> ext_scancode s" and b: "0x0080 AND c \<noteq> (0 :: u16)"
  shows "kbd_does c s k (Inr (break_key (c AND 0xff7f) s, k))"
proof -
  have eqs: "c AND 0xff7f = 0x1d \<longleftrightarrow> c = 0x9d" "c AND 0xff7f = 0xe01d \<longleftrightarrow> c = 0xe09d"
    "c AND 0xff7f = 0x2a \<longleftrightarrow> c = 0xaa" "c AND 0xff7f = 0x36 \<longleftrightarrow> c = 0xb6"
    "c AND 0xff7f = 0x38 \<longleftrightarrow> c = 0xb8" "c AND 0xff7f = 0xe038 \<longleftrightarrow> c = 0xe0b8"
    using break_eq [OF b] by simp_all
  have ne: "c \<noteq> 0x1d" "c \<noteq> 0xe01d" "c \<noteq> 0x2a" "c \<noteq> 0x36" "c \<noteq> 0x38" "c \<noteq> 0xe038" "c \<noteq> 0x3a"
    using b by auto
  have "\<not> c < 0x3a"
  proof
    assume "c < 0x3a"
    then have "unat c < 2 ^ 7" by (simp add: word_less_nat_alt)
    then have "take_bit 7 (unat c) = unat c" by (rule take_bit_nat_eq_self)
    then have "\<not> bit (unat c) 7" by (metis bit_take_bit_iff less_irrefl)
    then have "\<not> bit c 7" by (simp add: bit_unsigned_iff)
    moreover have "(0x0080 :: u16) = 2 ^ 7" by simp
    ultimately show False using b by (metis and.commute and_exp_eq_0_iff_not_bit)
  qed
  then show ?thesis
    using ok e ne unfolding kbd_does_def break_key_def code_step_def eqs ctrl_l_make_def ctrl_r_make_def shift_l_make_def
      shift_r_make_def alt_l_make_def alt_r_make_def
    by (simp add: kbd_ok_def kbd_mods_def typed_buf_def fits_id [of s k, unfolded typed_buf_def kbd_ok_def])
qed

lemma make_index:
  fixes c :: u16
  assumes "c < 0x3b"
  shows "c AND 0x00ff = c" "unat (ucast c :: u8) = unat c" "unat c < 59"
proof -
  show u: "unat c < 59" using assms by (simp add: word_less_nat_alt)
  have "unat c < 2 ^ 8" using u by simp
  then have "take_bit 8 (unat c) = unat c" by (rule take_bit_nat_eq_self)
  then have "take_bit 8 c = c" by (simp add: word_unat_eq_iff unsigned_take_bit_eq)
  moreover have "(0x00ff :: u16) = mask 8" by (simp add: mask_eq_exp_minus_1)
  ultimately show "c AND 0x00ff = c" by (simp add: take_bit_eq_mask)
  show "unat (ucast c :: u8) = unat c" using u by (simp add: unsigned_ucast_eq take_bit_nat_eq_self)
qed

lemma type_char:
  assumes ok: "kbd_ok s k"
  shows "\<exists>q. bindR (ioq_full (kbd_buf s) k) (\<lambda>full. if \<not> full
      then bindR (ioq_putchar (kbd_buf s) ch k) (\<lambda>(_, q, k). Inr (s\<lparr>kbd_buf := q\<rparr>, k)) else Inr (s, k))
      = Inr (s\<lparr>kbd_buf := q\<rparr>, k) \<and> kbd_ok (s\<lparr>kbd_buf := q\<rparr>) k
      \<and> typed_buf (s\<lparr>kbd_buf := q\<rparr>) = fits (typed_buf s @ [ch])"
proof -
  let ?q = "kbd_buf s"
  have r: "ring_ok ?q" "producer ?q = NULL" "consumer ?q = NULL" "intr k = INTR_OFF"
    using ok by (simp_all add: kbd_ok_def)
  have full: "ioq_full ?q k = Inr (ring_len ?q = 63)" using r ring_full [of ?q] by (simp add: ioq_full_def)
  show ?thesis
  proof (cases "ring_len ?q = 63")
    case True
    then have "fits (typed_buf s @ [ch]) = typed_buf s" by (simp add: fits_def typed_buf_def)
    then show ?thesis using True full ok by (intro exI [of _ ?q]) simp
  next
    case False
    then have l: "ring_len ?q < 63" using ring_len_eq(2) [OF r(1)] by simp
    let ?q' = "?q\<lparr>buf := (buf ?q)[unat (head ?q) := ch], head := next_pos (head ?q)\<rparr>"
    have "ioq_putchar ?q ch k = Inr (True, ?q', k)" by (rule ioq_putchar_room [OF r(1) l r(3,4)])
    moreover have "ring_ok ?q'" "ring_seq ?q' = ring_seq ?q @ [ch]" using ring_put(1,2) [OF r(1) l] by auto
    moreover have "fits (typed_buf s @ [ch]) = ring_seq ?q @ [ch]" using l by (simp add: fits_def typed_buf_def)
    ultimately show ?thesis using r full False
      by (intro exI [of _ ?q']) (simp add: kbd_ok_def typed_buf_def)
  qed
qed

lemma kbd_doesI:
  assumes "kbd_ok s k" "\<not> ext_scancode s" "code_step (kbd_mods s) c = (kbd_mods s', [])"
    "kbd_buf s' = kbd_buf s" "ext_scancode s' = ext_scancode s"
  shows "kbd_does c s k (Inr (s', k))"
  using assms fits_id [OF assms(1)] by (simp add: kbd_does_def kbd_ok_def typed_buf_def)

lemmas make_codes = shift_l_make_def shift_r_make_def alt_l_make_def alt_r_make_def ctrl_l_make_def
  ctrl_r_make_def caps_lock_make_def

lemma make_special:
  assumes "kbd_ok s k" "\<not> ext_scancode s"
    and c: "c = 0x1d \<or> c = 0x2a \<or> c = 0x36 \<or> c = 0x38 \<or> c = 0x3a \<or> c = 0xe01d \<or> c = 0xe038"
  shows "kbd_does c s k (make_key c s k)"
  using c
  by (elim disjE; simp add: make_key_def Let_def keymap_length keymap_special make_codes;
      intro kbd_doesI [OF assms(1,2)]; simp add: code_step_def kbd_mods_def)

lemma make_letter:
  assumes ok: "kbd_ok s k" and e: "\<not> ext_scancode s" and c: "0 < c" "c < 0x3a"
    and ns: "c \<noteq> 0x1d" "c \<noteq> 0x2a" "c \<noteq> 0x36" "c \<noteq> 0x38"
  shows "kbd_does c s k (make_key c s k)"
proof -
  have "c < 0x3b" using c(2) by (simp add: word_less_nat_alt)
  note i = make_index [OF this]
  have un: "unat c \<noteq> 0x1d" "unat c \<noteq> 0x2a" "unat c \<noteq> 0x36" "unat c \<noteq> 0x38" "unat c \<noteq> 0x3a"
    using ns c(2) by (auto simp: word_unat_eq_iff word_less_nat_alt)
  note nz = keymap_zero [OF i(3) un]
  define ch where "ch = key_char (kbd_mods s) c"
  have ch: "ch \<noteq> 0" using nz by (simp add: ch_def key_char_def)
  obtain q where q: "bindR (ioq_full (kbd_buf s) k) (\<lambda>full. if \<not> full
      then bindR (ioq_putchar (kbd_buf s) ch k) (\<lambda>(_, q, k). Inr (s\<lparr>kbd_buf := q\<rparr>, k)) else Inr (s, k))
      = Inr (s\<lparr>kbd_buf := q\<rparr>, k)" "kbd_ok (s\<lparr>kbd_buf := q\<rparr>) k"
      "typed_buf (s\<lparr>kbd_buf := q\<rparr>) = fits (typed_buf s @ [ch])"
    using type_char [OF ok] by blast
  have sh: "(if shift_only c then shift_status s else if shift_status s \<and> caps_lock_status s then False
       else if shift_status s \<or> caps_lock_status s then True else False)
     = (if shift_only c then mshift (kbd_mods s) else mshift (kbd_mods s) \<noteq> mcaps (kbd_mods s))"
    by (simp add: kbd_mods_def)
  have m: "make_key c s k = Inr (s\<lparr>kbd_buf := q\<rparr>, k)"
    unfolding make_key_def Let_def sh i(1,2) keymap_length
    using i(3) ch q(1) unfolding ch_def key_char_def by (simp split: if_splits)
  have "c \<noteq> 0xe01d" "c \<noteq> 0x9d" "c \<noteq> 0xe09d" "c \<noteq> 0xaa" "c \<noteq> 0xb6" "c \<noteq> 0xe038" "c \<noteq> 0xb8" "c \<noteq> 0xe0b8" "c \<noteq> 0x3a"
    using c(2) by auto
  then have "code_step (kbd_mods s) c = (kbd_mods s, [ch])"
    using ns c by (simp add: code_step_def ch_def)
  then show ?thesis unfolding m using q(2,3) e by (simp add: kbd_does_def kbd_mods_def)
qed

lemma make_does:
  assumes "kbd_ok s k" "\<not> ext_scancode s"
    and c: "0x00 < c \<and> c < 0x3B \<or> c = alt_r_make \<or> c = ctrl_r_make"
  shows "kbd_does c s k (make_key c s k)"
proof (cases "c = 0x1d \<or> c = 0x2a \<or> c = 0x36 \<or> c = 0x38 \<or> c = 0x3a \<or> c = 0xe01d \<or> c = 0xe038")
  case True
  then show ?thesis by (rule make_special [OF assms(1,2)])
next
  case False
  then have "0 < c" "c < 0x3b" "c \<noteq> 0x3a" using c by (auto simp: make_codes)
  moreover from this have "c < 0x3a" by (simp add: word_less_nat_alt word_unat_eq_iff)
  ultimately show ?thesis using False by (intro make_letter [OF assms(1,2)]) auto
qed

lemma unknown_does:
  assumes "kbd_ok s k" "\<not> ext_scancode s" "\<not> 0x0080 AND c \<noteq> (0 :: u16)"
    and c: "\<not> (0x00 < c \<and> c < 0x3B \<or> c = alt_r_make \<or> c = ctrl_r_make)"
  shows "kbd_does c s k (Inr (s, k))"
proof (rule kbd_doesI [OF assms(1,2)])
  have "c \<noteq> 0x1d" "c \<noteq> 0x2a" "c \<noteq> 0x36" "c \<noteq> 0x38" "c \<noteq> 0x3a" "c \<noteq> 0xe01d" "c \<noteq> 0xe038"
    using c by (auto simp: make_codes)
  moreover have "c \<noteq> 0x9d" "c \<noteq> 0xe09d" "c \<noteq> 0xaa" "c \<noteq> 0xb6" "c \<noteq> 0xb8" "c \<noteq> 0xe0b8"
    using assms(3) by auto
  moreover have "\<not> (0 < c \<and> c < 0x3a)" using c by (auto simp: word_less_nat_alt)
  ultimately show "code_step (kbd_mods s) c = (kbd_mods s, [])" by (simp add: code_step_def)
qed simp_all

text \<open>One interrupt: 0xe0 is remembered, any other byte completes a code.\<close>

lemma handler_does:
  assumes ok: "kbd_ok s k"
  shows "\<exists>s'. intr_keyboard_handler b s k = Inr (s', k) \<and> kbd_ok s' k
     \<and> ext_scancode s' = fst (codes (ext_scancode s) [b])
     \<and> kbd_mods s' = fst (type_codes (kbd_mods s) (snd (codes (ext_scancode s) [b])))
     \<and> typed_buf s' = fits (typed_buf s @ snd (type_codes (kbd_mods s) (snd (codes (ext_scancode s) [b]))))"
proof (cases "b = 0xe0")
  case True
  have "intr_keyboard_handler b s k = Inr (s\<lparr>ext_scancode := True\<rparr>, k)"
    using True by (simp add: intr_keyboard_handler_def)
  then show ?thesis using True ok fits_id [OF ok]
    by (simp add: kbd_ok_def kbd_mods_def typed_buf_def)
next
  case False
  define c where "c = (if ext_scancode s then 0xe000 OR ucast b else ucast b :: u16)"
  let ?s = "s\<lparr>ext_scancode := False\<rparr>"
  have ok': "kbd_ok ?s k" "\<not> ext_scancode ?s" using ok by (simp_all add: kbd_ok_def)
  have "unat (ucast b :: u16) = unat b" by (simp add: unsigned_ucast_eq take_bit_nat_eq_self unsigned_less [THEN order_less_le_trans])
  then have ne: "(ucast b :: u16) \<noteq> 0xe0" using False by (auto simp: word_unat_eq_iff)
  have h: "intr_keyboard_handler b s k = (if 0x0080 AND c \<noteq> 0 then Inr (break_key (c AND 0xff7f) ?s, k)
     else if 0x00 < c \<and> c < 0x3B \<or> c = alt_r_make \<or> c = ctrl_r_make then make_key c ?s k else Inr (?s, k))"
    using ne by (simp add: intr_keyboard_handler_def Let_def c_def)
  have "kbd_does c ?s k (intr_keyboard_handler b s k)"
    unfolding h using break_does [OF ok', of c] make_does [OF ok', of c] unknown_does [OF ok', of c]
    by (auto split: if_splits)
  moreover have "codes (ext_scancode s) [b] = (False, [c])" using False by (simp add: c_def)
  moreover have "kbd_mods ?s = kbd_mods s" "typed_buf ?s = typed_buf s" by (simp_all add: kbd_mods_def typed_buf_def)
  ultimately show ?thesis by (auto simp: kbd_does_def split: prod.splits)
qed

lemma codes_Cons:
  "fst (codes e (b # bs)) = fst (codes (fst (codes e [b])) bs)"
  "snd (codes e (b # bs)) = snd (codes e [b]) @ snd (codes (fst (codes e [b])) bs)"
  by (simp_all split: prod.splits)

lemma type_codes_append:
  "fst (type_codes m (cs @ cs')) = fst (type_codes (fst (type_codes m cs)) cs')"
  "snd (type_codes m (cs @ cs')) = snd (type_codes m cs) @ snd (type_codes (fst (type_codes m cs)) cs')"
  by (induction cs arbitrary: m) (simp_all add: case_prod_beta)

section \<open>Properties\<close>

text \<open>C29: The handler, run on any stream of bytes from the controller, recovers the scan codes (0xe0 begins a
  code of two bytes), follows control, shift, alt and caps lock, and types into the ring the characters
  of the codes as far as they fit; no byte makes it read outside keymap or stop.\<close>
theorem keyboard_types:
  assumes "kbd_ok s k"
  shows "\<exists>s'. keyboard_run bs s k = Inr (s', k) \<and> kbd_ok s' k
     \<and> ext_scancode s' = fst (codes (ext_scancode s) bs)
     \<and> kbd_mods s' = fst (type_codes (kbd_mods s) (snd (codes (ext_scancode s) bs)))
     \<and> typed_buf s' = fits (typed_buf s @ snd (type_codes (kbd_mods s) (snd (codes (ext_scancode s) bs))))"
  using assms
proof (induction bs arbitrary: s)
  case Nil
  then show ?case by (simp add: fits_id)
next
  case (Cons b bs)
  obtain s1 where s1: "intr_keyboard_handler b s k = Inr (s1, k)" "kbd_ok s1 k"
    "ext_scancode s1 = fst (codes (ext_scancode s) [b])"
    "kbd_mods s1 = fst (type_codes (kbd_mods s) (snd (codes (ext_scancode s) [b])))"
    "typed_buf s1 = fits (typed_buf s @ snd (type_codes (kbd_mods s) (snd (codes (ext_scancode s) [b]))))"
    using handler_does [OF Cons.prems, of b] by blast
  obtain s2 where s2: "keyboard_run bs s1 k = Inr (s2, k)" "kbd_ok s2 k"
    "ext_scancode s2 = fst (codes (ext_scancode s1) bs)"
    "kbd_mods s2 = fst (type_codes (kbd_mods s1) (snd (codes (ext_scancode s1) bs)))"
    "typed_buf s2 = fits (typed_buf s1 @ snd (type_codes (kbd_mods s1) (snd (codes (ext_scancode s1) bs))))"
    using Cons.IH [OF s1(2)] by blast
  have "keyboard_run (b # bs) s k = Inr (s2, k)" using s1(1) s2(1) by simp
  moreover have "typed_buf s2 = fits (typed_buf s @ snd (type_codes (kbd_mods s) (snd (codes (ext_scancode s) (b # bs)))))"
    unfolding codes_Cons(2) [of _ b bs] type_codes_append s2(5) s1(3-5) fits_append by simp
  ultimately show ?case using s2(2-4) unfolding codes_Cons [of _ b bs] type_codes_append s1(3-5) by blast
qed

lemma keyboard_types_witness:
  "\<exists>s'. keyboard_run [0x2a, 0x1e, 0xaa, 0x30, 0xe0, 0x38] (keyboard_init (replicate 64 0)) demo_threads = Inr (s', demo_threads)
     \<and> typed_buf s' = [0x41, 0x62] \<and> alt_status s' \<and> \<not> shift_status s'"
proof -
  let ?s = "keyboard_init (replicate 64 0)"
  have "kbd_ok ?s demo_threads" by (simp add: kbd_ok_def keyboard_init_def ioqueue_init_def ring_ok_def bufsize_def demo_threads_def)
  from keyboard_types [OF this, of "[0x2a, 0x1e, 0xaa, 0x30, 0xe0, 0x38]"]
  obtain s' where s': "keyboard_run [0x2a, 0x1e, 0xaa, 0x30, 0xe0, 0x38] ?s demo_threads = Inr (s', demo_threads)"
    "kbd_mods s' = fst (type_codes (kbd_mods ?s) (snd (codes (ext_scancode ?s) [0x2a, 0x1e, 0xaa, 0x30, 0xe0, 0x38])))"
    "typed_buf s' = fits (typed_buf ?s @ snd (type_codes (kbd_mods ?s) (snd (codes (ext_scancode ?s) [0x2a, 0x1e, 0xaa, 0x30, 0xe0, 0x38]))))"
    by (elim exE conjE)
  have e: "ext_scancode ?s = False" "kbd_mods ?s = \<lparr>mctrl = False, mshift = False, malt = False, mcaps = False\<rparr>"
    "typed_buf ?s = []"
    by (simp_all add: keyboard_init_def kbd_mods_def typed_buf_def ioqueue_init_def ring_seq_def ring_len_def bufsize_def)
  have c: "codes False [0x2a, 0x1e, 0xaa, 0x30, 0xe0, 0x38] = (False, [0x2a, 0x1e, 0xaa, 0x30, 0xe038])" by code_simp
  have t: "type_codes \<lparr>mctrl = False, mshift = False, malt = False, mcaps = False\<rparr> [0x2a, 0x1e, 0xaa, 0x30, 0xe038]
     = (\<lparr>mctrl = False, mshift = False, malt = True, mcaps = False\<rparr>, [0x41, 0x62])" by code_simp
  have "kbd_mods s' = \<lparr>mctrl = False, mshift = False, malt = True, mcaps = False\<rparr>" "typed_buf s' = [0x41, 0x62]"
    using s'(2,3) unfolding e c snd_conv t fst_conv by (simp_all add: fits_def)
  then show ?thesis using s'(1) by (intro exI [of _ s']) (simp add: kbd_mods_def)
qed

text \<open>Shift and caps lock on the letter keys: either alone gives the upper-case letter of the key, both or
  neither the lower-case one, for the 25 letters other than v; the key of v gives A in place of V.\<close>
theorem letter_keys:
  "\<forall>c \<in> set ([0x10..<0x1a] @ [0x1e..<0x27] @ [0x2c..<0x33]). \<forall>m.
     let lower = fst (keymap ! c)
     in lower \<in> {0x61..0x7a}
      \<and> key_char m (of_nat c) = (if mshift m = mcaps m then lower else if c = 0x2f then 0x41 else lower - 0x20)"
proof -
  have all: "\<forall>c \<in> set ([0x10..<0x1a] @ [0x1e..<0x27] @ [0x2c..<0x33]). 
     0x61 \<le> fst (keymap ! c) \<and> fst (keymap ! c) \<le> 0x7a \<and> \<not> shift_only (of_nat c) \<and> unat (of_nat c :: u16) = c
      \<and> snd (keymap ! c) = (if c = 0x2f then 0x41 else fst (keymap ! c) - 0x20)"
    by code_simp
  show ?thesis
  proof (intro ballI allI)
    fix c m assume "c \<in> set ([0x10..<0x1a] @ [0x1e..<0x27] @ [0x2c..<0x33])"
    note a = bspec [OF all this]
    show "let lower = fst (keymap ! c)
     in lower \<in> {0x61..0x7a}
      \<and> key_char m (of_nat c) = (if mshift m = mcaps m then lower else if c = 0x2f then 0x41 else lower - 0x20)"
      using a by (simp add: key_char_def Let_def)
  qed
qed

lemma letter_keys_witness: "key_char \<lparr>mctrl = False, mshift = True, malt = False, mcaps = False\<rparr> 0x2f = 0x41"
proof -
  have "0x2f \<in> set ([0x10..<0x1a] @ [0x1e..<0x27] @ [0x2c..<0x33 :: nat])" by simp
  from bspec [OF letter_keys this, THEN spec, of "\<lparr>mctrl = False, mshift = True, malt = False, mcaps = False\<rparr>"]
  show ?thesis by (simp add: Let_def)
qed

end
