(* ===== verification/Clock.thy ===== *)
theory Clock
  imports Threads
begin

text \<open>
  device/timer.c but for its interrupt handler, which is in Threads with the scheduler it calls: the
  programming of the 8254 counter as the bytes written to its ports, and the sleeping functions on
  the state of the scheduler.
\<close>

section \<open>The counter\<close>

text \<open>What outb writes: the port and the byte.\<close>

type_synonym port_write = "u16 \<times> u8"

definition IRQ0_FREQUENCY :: u32 where "IRQ0_FREQUENCY = 100"
definition INPUT_FREQUENCY :: u32 where "INPUT_FREQUENCY = 1193180"
definition COUNTER0_VALUE :: u32 where "COUNTER0_VALUE = INPUT_FREQUENCY div IRQ0_FREQUENCY"
definition COUNTER0_PORT :: u8 where "COUNTER0_PORT = 0x40"
definition COUNTER0_NO :: u8 where "COUNTER0_NO = 0"
definition COUNTER_MODE :: u8 where "COUNTER_MODE = 2"
definition READ_WRITE_LATCH :: u8 where "READ_WRITE_LATCH = 3"
definition PIT_COUNTROL_PORT :: u16 where "PIT_COUNTROL_PORT = 0x43"
definition mil_second_per_intr :: u32 where "mil_second_per_intr = 1000 div IRQ0_FREQUENCY"

text \<open>The cast binds closer than the shift, so the last byte is the low one shifted out.\<close>

definition frequency_set :: "u8 \<Rightarrow> u8 \<Rightarrow> u8 \<Rightarrow> u8 \<Rightarrow> u16 \<Rightarrow> port_write list" where
  "frequency_set counter_port counter_no rwl counter_mode counter_value =
     [(PIT_COUNTROL_PORT, ucast (push_bit 6 (ucast counter_no :: u32) OR push_bit 4 (ucast rwl)
                                   OR push_bit 1 (ucast counter_mode))),
      (ucast counter_port, ucast counter_value),
      (ucast counter_port, ucast (drop_bit 8 (ucast (ucast counter_value :: u8) :: u32)))]"

text \<open>timer_init, with the vector it registers its handler for.\<close>

definition timer_init :: "port_write list \<times> u8" where
  "timer_init = (frequency_set COUNTER0_PORT COUNTER0_NO READ_WRITE_LATCH COUNTER_MODE (ucast COUNTER0_VALUE), 0x20)"

section \<open>Sleeping\<close>

text \<open>One test of the loop of ticks_to_sleep: True when it ends, False when the processor was given up.\<close>

definition ticks_to_sleep :: "u32 \<Rightarrow> u32 \<Rightarrow> 'a kthreads_scheme \<Rightarrow> (bool \<times> 'a kthreads_scheme) res" where
  "ticks_to_sleep start_tick sleep_ticks s =
     (if total_ticks s - start_tick < sleep_ticks
      then bindR (thread_yield s) (\<lambda>s. Inr (False, s))
      else Inr (True, s))"

definition mtime_sleep :: "u32 \<Rightarrow> 'a kthreads_scheme \<Rightarrow> (bool \<times> 'a kthreads_scheme) res" where
  "mtime_sleep m_second s =
     (let sleep_ticks = DIV_ROUND_UP m_second mil_second_per_intr
      in if \<not> 0 < sleep_ticks then Inl (Assertion ''sleep_ticks > 0'')
         else ticks_to_sleep (total_ticks s) sleep_ticks s)"

section \<open>Specification\<close>

text \<open>
  The 8254 in the read/write mode that timer_init selects takes the low byte, then the high byte of
  the count, and counts 65536 for 0.
\<close>

definition pit_count :: "u8 \<Rightarrow> u8 \<Rightarrow> nat" where
  "pit_count lo hi = (if unat lo + 256 * unat hi = 0 then 65536 else unat lo + 256 * unat hi)"

lemma high_byte_lost: "drop_bit 8 (ucast (x :: u8) :: u32) = 0"
proof -
  have "unat (ucast x :: u32) = unat x"
    by (simp add: unsigned_ucast_eq take_bit_nat_eq_self unsigned_less [THEN order_less_le_trans])
  then have "unat (drop_bit 8 (ucast x :: u32)) = 0"
    by (simp add: drop_bit_eq_div unat_div unat_u8_less)
  then show ?thesis by (simp add: u32_eq_iff)
qed

lemma unat_low_byte: "unat (ucast (v :: u16) :: u8) = unat v mod 256"
  by (simp add: unsigned_ucast_eq take_bit_eq_mod)

lemma sleep_ticks_pos:
  assumes "0 < m" "unat m + 9 < 4294967296"
  shows "0 < DIV_ROUND_UP m mil_second_per_intr"
proof -
  have "unat (m + 10 - 1) = unat m + 9"
  proof -
    have "m + 10 - 1 = m + 9" by simp
    then show ?thesis using assms(2) by (simp add: unat_add_u32)
  qed
  moreover have "0 < unat m" using assms(1) by (simp add: word_less_nat_alt)
  ultimately show ?thesis
    by (simp add: DIV_ROUND_UP_def mil_second_per_intr_def IRQ0_FREQUENCY_def word_less_nat_alt unat_div)
qed

section \<open>Properties\<close>

text \<open>frequency_set never writes a high byte other than 0, so the counter counts the value modulo
  256 (256 times 256 when that is 0): timer_init, which asks for 11931, one interrupt in 10 ms, gets
  155, about 7700 interrupts a second.\<close>
theorem timer_counts_low_byte:
  "(case map snd (frequency_set port no rwl mode v) of
      [ctl, lo, hi] \<Rightarrow> pit_count lo hi = (if unat v mod 256 = 0 then 65536 else unat v mod 256)
    | _ \<Rightarrow> False)
   \<and> unat COUNTER0_VALUE = 11931
   \<and> fst timer_init = [(0x43, 0x34), (0x40, 155), (0x40, 0)] \<and> pit_count 155 0 = 155"
  by (simp add: frequency_set_def timer_init_def high_byte_lost pit_count_def unat_low_byte COUNTER0_VALUE_def
      INPUT_FREQUENCY_def IRQ0_FREQUENCY_def PIT_COUNTROL_PORT_def COUNTER0_PORT_def COUNTER0_NO_def
      READ_WRITE_LATCH_def COUNTER_MODE_def)

text \<open>A thread that sleeps a positive number of milliseconds gives up the processor at the first test
  and never runs again, whatever ticks, blocks, unblocks and yields follow: thread_yield loses it. A
  sleep of 0 milliseconds stops the kernel on an assertion.\<close>
theorem sleeper_never_wakes:
  assumes "sched_inv s" "0 < m" "unat m + 9 < 4294967296"
  shows "(\<forall>r s'. mtime_sleep m s = Inr (r, s') \<longrightarrow> \<not> r
       \<and> (\<forall>es s''. list_all event_aligned es \<longrightarrow> sched_events es s' = Inr s'' \<longrightarrow> running_thread s'' \<noteq> running_thread s))
     \<and> \<not> is_ok (mtime_sleep 0 s)"
proof (intro conjI allI impI)
  fix r s' assume "mtime_sleep m s = Inr (r, s')"
  then have y: "thread_yield s = Inr s'" and r: "\<not> r"
    using sleep_ticks_pos [OF assms(2,3)] by (auto simp: mtime_sleep_def ticks_to_sleep_def bindR_Inr_iff)
  show "\<not> r" by (rule r)
  fix es s'' assume "list_all event_aligned es" "sched_events es s' = Inr s''"
  then show "running_thread s'' \<noteq> running_thread s"
    using lost_events yield_lost [OF assms(1) y] by blast
next
  show "\<not> is_ok (mtime_sleep 0 s)"
    by (simp add: mtime_sleep_def DIV_ROUND_UP_def mil_second_per_intr_def IRQ0_FREQUENCY_def)
qed

lemma sleeper_never_wakes_witness:
  "\<exists>s' s''. mtime_sleep 10 demo_threads = Inr (False, s') \<and> sched_events [Timer] s' = Inr s''
     \<and> running_thread s'' \<noteq> 0xc009e000"
proof -
  have "is_ok (bindR (mtime_sleep 10 demo_threads) (\<lambda>(r, s). sched_events [Timer] s))" by code_simp
  then obtain r s' s'' where s: "mtime_sleep 10 demo_threads = Inr (r, s')" "sched_events [Timer] s' = Inr s''"
    by (auto simp: is_ok_iff bindR_Inr_iff simp del: sched_events.simps)
  have a: "list_all event_aligned [Timer]" by (simp add: event_aligned_def)
  have "\<forall>r s'. mtime_sleep 10 demo_threads = Inr (r, s') \<longrightarrow> \<not> r
       \<and> (\<forall>es s''. list_all event_aligned es \<longrightarrow> sched_events es s' = Inr s''
            \<longrightarrow> running_thread s'' \<noteq> running_thread demo_threads)"
    by (rule conjunct1 [OF sleeper_never_wakes [OF demo_inv]]) simp_all
  then have "\<not> r" "running_thread s'' \<noteq> running_thread demo_threads" using s a by blast+
  then show ?thesis using s by (intro exI [of _ s'] exI [of _ s'']) (simp add: demo_threads_def)
qed

end
