(* ===== verification/Descriptors.thy ===== *)
theory Descriptors
  imports Clock
begin

text \<open>
  The tables the processor reads: the interrupt descriptor table, the handler table and the two 8259A
  controllers of kernel/interrupt.c, and the segment descriptors and the TSS of userprog/tss.c.
  Functions are named by their addresses. The specification is the reading of the descriptor formats
  by the processor: offset, privilege level and kind of a gate, base, limit and flags of a segment.
\<close>

unbundle bit_operations_syntax

section \<open>Interrupt gates\<close>

record gate_desc =
  func_offset_low_word :: u16
  selector :: u16
  dcount :: u8
  attribute :: u8
  func_offset_high_word :: u16

definition IDT_DESC_CNT :: nat where "IDT_DESC_CNT = 0x81"
definition SELECTOR_K_CODE :: u16 where "SELECTOR_K_CODE = push_bit 3 1"
definition SELECTOR_K_STACK :: u32 where "SELECTOR_K_STACK = push_bit 3 2"
definition SELECTOR_TSS :: u16 where "SELECTOR_TSS = push_bit 3 4"
definition SELECTOR_U_CODE :: u32 where "SELECTOR_U_CODE = push_bit 3 5 + 3"
definition SELECTOR_U_DATA :: u32 where "SELECTOR_U_DATA = push_bit 3 6 + 3"
definition IDT_DESC_ATTR_DPL0 :: u8 where "IDT_DESC_ATTR_DPL0 = push_bit 7 1 + push_bit 5 0 + 0xE"
definition IDT_DESC_ATTR_DPL3 :: u8 where "IDT_DESC_ATTR_DPL3 = push_bit 7 1 + push_bit 5 3 + 0xE"

definition make_idt_desc :: "u8 \<Rightarrow> addr \<Rightarrow> gate_desc" where
  "make_idt_desc attr func =
     \<lparr>func_offset_low_word = ucast (func AND 0x0000FFFF),
      selector = SELECTOR_K_CODE,
      dcount = 0,
      attribute = attr,
      func_offset_high_word = ucast (drop_bit 16 (func AND 0xFFFF0000))\<rparr>"

text \<open>entry i stands for intr_entry_table[i]; kernel.S fills 0x30 of the 0x81 entries the code reads.\<close>

definition idt_desc_init :: "(nat \<Rightarrow> addr) \<Rightarrow> addr \<Rightarrow> gate_desc list" where
  "idt_desc_init intr_entry_table syscall_handler =
     (let idt = map (\<lambda>i. make_idt_desc IDT_DESC_ATTR_DPL0 (intr_entry_table i)) [0..<IDT_DESC_CNT];
          last_index = IDT_DESC_CNT - 1
      in idt[last_index := make_idt_desc IDT_DESC_ATTR_DPL3 syscall_handler])"

section \<open>Handlers\<close>

text \<open>general_intr_handler returns for the two spurious vectors. For the others it calls set_cursor of
  lib/kernel/print.S, which pops eight words that nobody has pushed and does not come back
  (lemma set_cursor_from_C of theory Asm): the report of the exception behind that call is not reached.\<close>

definition general_intr_handler :: "u8 \<Rightarrow> unit res" where
  "general_intr_handler vec_nr = (if vec_nr = 0x27 \<or> vec_nr = 0x2f then Inr () else Inl (Bad_access ''set_cursor''))"

record vectors =
  idt_table :: "addr list"
  intr_name :: "string list"

definition exception_init :: "addr \<Rightarrow> vectors" where
  "exception_init general_handler =
     (let names = replicate IDT_DESC_CNT ''unknown'' in
      \<lparr>idt_table = replicate IDT_DESC_CNT general_handler,
       intr_name = names[0 := ''#DE Divide Error'', 1 := ''#DB Debug Exception'', 2 := ''NMI Interrupt'',
         3 := ''#BP Breakpoint Exception'', 4 := ''#OF Overflow Exception'',
         5 := ''#BR BOUND Range Exceeded Exception'', 6 := ''#UD Invalid Opcode Exception'',
         7 := ''#NM Device Not Available Exception'', 8 := ''#DF Double Fault Exception'',
         9 := ''Coprocessor Segment Overrun'', 10 := ''#TS Invalid TSS Exception'',
         11 := ''#NP Segment Not Present'', 12 := ''#SS Stack Fault Exception'',
         13 := ''#GP General Protection Exception'', 14 := ''#PF Page-Fault Exception'',
         16 := ''#MF x87 FPU Floating-Point Error'', 17 := ''#AC Alignment Check Exception'',
         18 := ''#MC Machine-Check Exception'', 19 := ''#XF SIMD Floating-Point Exception'']\<rparr>)"

definition register_handler :: "u8 \<Rightarrow> addr \<Rightarrow> vectors \<Rightarrow> vectors res" where
  "register_handler vector_no func v =
     (if unat vector_no < length (idt_table v)
      then Inr (v\<lparr>idt_table := (idt_table v)[unat vector_no := func]\<rparr>)
      else Inl (Bad_access ''idt_table''))"

section \<open>The interrupt controllers\<close>

definition PIC_M_CTRL :: u16 where "PIC_M_CTRL = 0x20"
definition PIC_M_DATA :: u16 where "PIC_M_DATA = 0x21"
definition PIC_S_CTRL :: u16 where "PIC_S_CTRL = 0xa0"
definition PIC_S_DATA :: u16 where "PIC_S_DATA = 0xa1"

definition pic_init :: "port_write list" where
  "pic_init =
     [(PIC_M_CTRL, 0x11), (PIC_M_DATA, 0x20), (PIC_M_DATA, 0x04), (PIC_M_DATA, 0x01),
      (PIC_S_CTRL, 0x11), (PIC_S_DATA, 0x28), (PIC_S_DATA, 0x02), (PIC_S_DATA, 0x01),
      (PIC_M_DATA, 0xf8), (PIC_S_DATA, 0xbf)]"

text \<open>idt_init: the gates, the handlers, the bytes sent to the controllers and the operand of lidt.\<close>

definition idt_init :: "(nat \<Rightarrow> addr) \<Rightarrow> addr \<Rightarrow> addr \<Rightarrow> addr \<Rightarrow> gate_desc list \<times> vectors \<times> port_write list \<times> 64 word" where
  "idt_init intr_entry_table syscall_handler general_handler idt_at =
     (idt_desc_init intr_entry_table syscall_handler, exception_init general_handler, pic_init,
      (of_nat (8 * IDT_DESC_CNT) - 1) OR push_bit 16 (ucast idt_at))"

section \<open>Segment descriptors and the TSS\<close>

record gdt_desc =
  limit_low_word :: u16
  base_low_word :: u16
  base_mid_byte :: u8
  attr_low_byte :: u8
  limit_high_byte_and_attr_high_byte :: u8
  base_hight_byte :: u8

definition GDT_ATTR_HIGH :: u8 where
  "GDT_ATTR_HIGH = push_bit 7 1 + push_bit 6 1 + push_bit 5 0 + push_bit 4 0"
definition GDT_CODE_ATTR_LOW_DPL3 :: u8 where
  "GDT_CODE_ATTR_LOW_DPL3 = push_bit 7 1 + push_bit 5 3 + push_bit 4 1 + 8"
definition GDT_DATA_ATTR_LOW_DPL3 :: u8 where
  "GDT_DATA_ATTR_LOW_DPL3 = push_bit 7 1 + push_bit 5 3 + push_bit 4 1 + 2"
definition TSS_ATTR_HIGH :: u8 where
  "TSS_ATTR_HIGH = push_bit 7 1 + push_bit 6 0 + push_bit 5 0 + push_bit 4 0 + 0"
definition TSS_ATTR_LOW :: u8 where
  "TSS_ATTR_LOW = push_bit 7 1 + push_bit 5 0 + push_bit 4 0 + 9"
definition GDT_BASE_ADDR :: addr where "GDT_BASE_ADDR = 0xc0000903"

definition make_gdt_desc :: "addr \<Rightarrow> u32 \<Rightarrow> u8 \<Rightarrow> u8 \<Rightarrow> gdt_desc" where
  "make_gdt_desc desc_base limit attr_low attr_high =
     \<lparr>limit_low_word = ucast (limit AND 0x0000ffff),
      base_low_word = ucast (desc_base AND 0x0000ffff),
      base_mid_byte = ucast (drop_bit 16 (desc_base AND 0x00ff0000)),
      attr_low_byte = attr_low,
      limit_high_byte_and_attr_high_byte = ucast (drop_bit 16 (limit AND 0x00ff0000) + ucast attr_high),
      base_hight_byte = ucast (drop_bit 24 (desc_base AND 0xff000000))\<rparr>"

text \<open>The fields of the TSS that tss_init and update_tss_esp set; memset clears the rest.\<close>

record tss =
  ss0 :: u32
  esp0 :: addr
  io_base :: u32

definition sizeof_tss :: u32 where "sizeof_tss = 27 * 4"

definition tss_init :: "addr \<Rightarrow> (addr \<Rightarrow> gdt_desc) \<Rightarrow> tss \<times> (addr \<Rightarrow> gdt_desc) \<times> 64 word \<times> u16" where
  "tss_init tss_at gdt =
     (let tss_size = sizeof_tss;
          t = \<lparr>ss0 = SELECTOR_K_STACK, esp0 = 0, io_base = tss_size\<rparr>;
          gdt = gdt(GDT_BASE_ADDR + 0x20 := make_gdt_desc tss_at (tss_size - 1) TSS_ATTR_LOW TSS_ATTR_HIGH);
          gdt = gdt(GDT_BASE_ADDR + 0x28 := make_gdt_desc 0 0xfffff GDT_CODE_ATTR_LOW_DPL3 GDT_ATTR_HIGH);
          gdt = gdt(GDT_BASE_ADDR + 0x30 := make_gdt_desc 0 0xfffff GDT_DATA_ATTR_LOW_DPL3 GDT_ATTR_HIGH);
          gdt_operand = (8 * 7 - 1) OR push_bit 16 (ucast GDT_BASE_ADDR)
      in (t, gdt, gdt_operand, SELECTOR_TSS))"

section \<open>Specification: how the processor reads them\<close>

definition gate_offset :: "gate_desc \<Rightarrow> addr" where
  "gate_offset g = ucast (func_offset_low_word g) OR push_bit 16 (ucast (func_offset_high_word g))"

definition dpl :: "u8 \<Rightarrow> u8" where "dpl attr = drop_bit 5 attr AND 3"
definition present_bit :: "u8 \<Rightarrow> bool" where "present_bit attr \<longleftrightarrow> bit attr 7"
definition gate_type :: "u8 \<Rightarrow> u8" where "gate_type attr = attr AND 0x1f"

definition seg_base :: "gdt_desc \<Rightarrow> u32" where
  "seg_base d = ucast (base_low_word d) OR push_bit 16 (ucast (base_mid_byte d))
     OR push_bit 24 (ucast (base_hight_byte d))"

definition seg_limit :: "gdt_desc \<Rightarrow> u32" where
  "seg_limit d = ucast (limit_low_word d) OR push_bit 16 (ucast (limit_high_byte_and_attr_high_byte d AND 0x0f))"

definition seg_flags :: "gdt_desc \<Rightarrow> u8" where
  "seg_flags d = limit_high_byte_and_attr_high_byte d AND 0xf0"

text \<open>The byte a port holds after a series of writes.\<close>

fun last_write :: "u16 \<Rightarrow> port_write list \<Rightarrow> u8 option" where
  "last_write p [] = None"
| "last_write p ((q, b) # ws) = (case last_write p ws of Some c \<Rightarrow> Some c | None \<Rightarrow> if q = p then Some b else None)"

text \<open>An 8259A pair: the vector of each line, from ICW2, and the lines left unmasked.\<close>

definition irq_open :: "port_write list \<Rightarrow> nat \<Rightarrow> bool" where
  "irq_open ws n = (case last_write (if n < 8 then PIC_M_DATA else PIC_S_DATA) ws of
     Some m \<Rightarrow> n < 16 \<and> \<not> bit m (n mod 8) | None \<Rightarrow> False)"

text \<open>The byte that follows ICW1 on a controller, the vector of its first line.\<close>

fun icw2 :: "u16 \<Rightarrow> u16 \<Rightarrow> port_write list \<Rightarrow> u8 option" where
  "icw2 ctrl data ((p, a) # (q, b) # ws) =
     (if p = ctrl \<and> bit a 4 then (if q = data then Some b else None) else icw2 ctrl data ((q, b) # ws))"
| "icw2 ctrl data ws = None"

definition irq_vector :: "port_write list \<Rightarrow> nat \<Rightarrow> nat option" where
  "irq_vector ws n =
     (if n < 8 then map_option (\<lambda>v. unat v + n) (icw2 PIC_M_CTRL PIC_M_DATA ws)
      else if n < 16 then map_option (\<lambda>v. unat v + (n - 8)) (icw2 PIC_S_CTRL PIC_S_DATA ws)
      else None)"

lemma bit_numeral_masks:
  "(0x0000FFFF :: u32) = mask 16" "(0xFFFF0000 :: u32) = NOT (mask 16)"
  "(0x00ff0000 :: u32) = push_bit 16 (mask 8)" "(0xff000000 :: u32) = push_bit 24 (mask 8)"
  by (simp_all add: mask_eq_exp_minus_1 push_bit_eq_mult)

lemma gate_offset_make: "gate_offset (make_idt_desc attr f) = f"
  unfolding gate_offset_def make_idt_desc_def gate_desc.simps bit_numeral_masks
  by (intro bit_word_eqI) (auto simp: bit_simps)

lemma seg_base_make: "seg_base (make_gdt_desc b l al ah) = b"
proof (rule bit_word_eqI)
  fix n assume "n < LENGTH(32)"
  then show "bit (seg_base (make_gdt_desc b l al ah)) n = bit b n"
    unfolding seg_base_def make_gdt_desc_def gdt_desc.simps bit_numeral_masks
    by (cases "n < 16"; cases "n < 24"; auto simp: bit_simps)
qed

text \<open>The last byte of the limit and the flags add up without a carry when both keep to their nibble.\<close>

lemma limit_bit:
  assumes "unat (limit :: u32) < 0x100000"
  shows "bit limit n \<Longrightarrow> n < 20"
proof -
  assume b: "bit limit n"
  have "bit (unat limit) n" using b by (simp add: bit_unsigned_iff bit_imp_possible_bit)
  moreover have "take_bit 20 (unat limit) = unat limit" using assms by (simp add: take_bit_nat_eq_self)
  ultimately show "n < 20" by (metis bit_take_bit_iff)
qed

lemma limit_byte:
  assumes "unat limit < 0x100000" "ah AND 0x0f = (0 :: u8)"
  shows "ucast (drop_bit 16 (limit AND 0x00ff0000) + ucast ah) = (ucast (drop_bit 16 limit) OR ah :: u8)"
    "(ucast (drop_bit 16 limit) :: u8) AND 0x0f = ucast (drop_bit 16 limit)"
    "(ucast (drop_bit 16 (limit :: u32)) :: u8) AND 0xf0 = 0"
proof -
  have hi: "bit limit (16 + n) \<Longrightarrow> n < 4" for n using limit_bit [OF assms(1), of "16 + n"] by simp
  have m: "(0x0f :: u8) = mask 4" "(0xf0 :: u8) = push_bit 4 (mask 4)" by (simp_all add: mask_eq_exp_minus_1 push_bit_eq_mult)
  have ah: "\<not> bit ah n" if "n < 4" for n
  proof -
    have "bit (ah AND 0x0f) n \<longleftrightarrow> bit ah n" using that unfolding m by (simp add: bit_simps)
    then show ?thesis using assms(2) by simp
  qed
  have "drop_bit 16 (limit AND 0x00ff0000) + ucast ah = drop_bit 16 (limit AND 0x00ff0000) OR (ucast ah :: u32)"
    unfolding bit_numeral_masks
  proof (rule disjunctive_add)
    fix n
    show "\<not> bit (drop_bit 16 (limit AND push_bit 16 (mask 8))) n \<or> \<not> bit (ucast ah :: u32) n"
      using hi [of n] ah [of n] by (cases "n < 4") (auto simp: bit_simps)
  qed
  then show "ucast (drop_bit 16 (limit AND 0x00ff0000) + ucast ah) = (ucast (drop_bit 16 limit) OR ah :: u8)"
    unfolding bit_numeral_masks by (intro bit_word_eqI) (auto simp: bit_simps)
  show "(ucast (drop_bit 16 limit) :: u8) AND 0x0f = ucast (drop_bit 16 limit)"
    unfolding m by (intro bit_word_eqI) (auto simp: bit_simps dest: hi)
  show "(ucast (drop_bit 16 limit) :: u8) AND 0xf0 = 0"
    unfolding m by (intro bit_word_eqI) (auto simp: bit_simps dest: hi)
qed

lemma seg_limit_make:
  assumes "unat limit < 0x100000" "ah AND 0x0f = (0 :: u8)"
  shows "seg_limit (make_gdt_desc b limit al ah) = limit" "seg_flags (make_gdt_desc b limit al ah) = ah"
proof -
  note lb = limit_byte [OF assms]
  note hi = limit_bit [OF assms(1)]
  have byte: "limit_high_byte_and_attr_high_byte (make_gdt_desc b limit al ah) = ucast (drop_bit 16 limit) OR ah"
    unfolding make_gdt_desc_def gdt_desc.simps by (rule lb(1))
  have n: "limit_high_byte_and_attr_high_byte (make_gdt_desc b limit al ah) AND 0x0f = ucast (drop_bit 16 limit)"
    unfolding byte using lb(2) assms(2) by (simp add: bit.conj_disj_distrib2)
  show "seg_limit (make_gdt_desc b limit al ah) = limit"
  proof -
    have "seg_limit (make_gdt_desc b limit al ah)
        = ucast (ucast (limit AND mask 16) :: u16) OR push_bit 16 (ucast (ucast (drop_bit 16 limit) :: u8))"
      unfolding seg_limit_def n by (simp add: make_gdt_desc_def bit_numeral_masks)
    then show ?thesis by (simp only:) (intro bit_word_eqI, auto simp: bit_simps dest: hi)
  qed
  have "ah AND 0xf0 = ah"
  proof -
    have "(ah AND 0x0f) OR (ah AND 0xf0) = ah AND (0x0f OR 0xf0)" by (rule bit.conj_disj_distrib [symmetric])
    also have "(0x0f OR 0xf0 :: u8) = - 1" by simp
    finally show ?thesis using assms(2) by simp
  qed
  then show "seg_flags (make_gdt_desc b limit al ah) = ah"
    unfolding seg_flags_def byte using lb(3) by (simp add: bit.conj_disj_distrib2)
qed

section \<open>Properties\<close>

text \<open>The interrupt table as the processor reads it: gate i below 0x80 leads to the entry i of
  kernel.S, gate 0x80 to the system call entry; each is a present 32-bit interrupt gate into the
  kernel's code segment, open to ring 3 for the system call alone; and lidt is given the table with its
  limit.\<close>
theorem idt_gates:
  "length (idt_desc_init entries sysc) = 0x81
   \<and> (\<forall>i < 0x81. let g = idt_desc_init entries sysc ! i
     in gate_offset g = (if i = 0x80 then sysc else entries i) \<and> selector g = 8
      \<and> present_bit (attribute g) \<and> gate_type (attribute g) = 0xe
      \<and> dpl (attribute g) = (if i = 0x80 then 3 else 0))"
proof -
  have a: "present_bit IDT_DESC_ATTR_DPL0" "gate_type IDT_DESC_ATTR_DPL0 = 0xe" "dpl IDT_DESC_ATTR_DPL0 = 0"
    "present_bit IDT_DESC_ATTR_DPL3" "gate_type IDT_DESC_ATTR_DPL3 = 0xe" "dpl IDT_DESC_ATTR_DPL3 = 3"
    by code_simp+
  have m: "selector (make_idt_desc t f) = 8" "attribute (make_idt_desc t f) = t" for t f
    by (simp_all add: make_idt_desc_def SELECTOR_K_CODE_def)
  show ?thesis
    by (simp add: idt_desc_init_def IDT_DESC_CNT_def Let_def nth_list_update gate_offset_make m a del: upt_Suc)
qed

lemma idt_gates_witness:
  "gate_offset (idt_desc_init (\<lambda>i. 0xc0001500 + of_nat i * 16) 0xc0001ab0 ! 0x80) = 0xc0001ab0
   \<and> gate_offset (idt_desc_init (\<lambda>i. 0xc0001500 + of_nat i * 16) 0xc0001ab0 ! 0x21) = 0xc0001710"
proof -
  have i: "0x80 < (0x81 :: nat)" "0x21 < (0x81 :: nat)" by simp_all
  note g = conjunct2 [OF idt_gates, THEN spec, THEN mp]
  show ?thesis
    using g [OF i(1), of "\<lambda>i. 0xc0001500 + of_nat i * 16" "0xc0001ab0"]
      g [OF i(2), of "\<lambda>i. 0xc0001500 + of_nat i * 16" "0xc0001ab0"] by (simp add: Let_def)
qed

text \<open>The controllers deliver line n as vector 0x20 + n, so the timer, the keyboard and the first disk
  channel come in where timer_init, keyboard_init and ide_init register their handlers (0x20, 0x21,
  0x2e); the lines left open are those three and the cascade, line 2.\<close>
theorem pic_lines:
  "irq_vector pic_init n = (if n < 16 then Some (0x20 + n) else None)
   \<and> (irq_open pic_init n \<longleftrightarrow> n = 0 \<or> n = 1 \<or> n = 2 \<or> n = 14)"
proof (cases "n < 16")
  case True
  then have "n \<in> set [0..<16]" by simp
  moreover have "\<forall>n \<in> set [0..<16]. irq_vector pic_init n = Some (0x20 + n)
     \<and> (irq_open pic_init n \<longleftrightarrow> n = 0 \<or> n = 1 \<or> n = 2 \<or> n = 14)"
    by code_simp
  ultimately show ?thesis using True by simp
next
  case False
  then show ?thesis by (auto simp: irq_vector_def irq_open_def split: option.split)
qed

text \<open>A segment descriptor holds the base, the limit and the flags make_gdt_desc was given, for a limit
  below 2^20 and flags that keep to their nibble; and tss_init enters, for those selectors the kernel
  loads, the TSS with its limit, and flat 4 GB code and data segments of ring 3.\<close>
theorem segments_of_tss_init:
  assumes "unat limit < 0x100000" "ah AND 0x0f = (0 :: u8)"
  shows "seg_base (make_gdt_desc b limit al ah) = b \<and> seg_limit (make_gdt_desc b limit al ah) = limit
     \<and> seg_flags (make_gdt_desc b limit al ah) = ah \<and> attr_low_byte (make_gdt_desc b limit al ah) = al
     \<and> (case tss_init t gdt of (tss, gdt', _, tr) \<Rightarrow>
          seg_base (gdt' (GDT_BASE_ADDR + (ucast tr AND 0xfff8))) = t
        \<and> seg_limit (gdt' (GDT_BASE_ADDR + (ucast tr AND 0xfff8))) + 1 = io_base tss
        \<and> (\<forall>sel \<in> {SELECTOR_U_CODE, SELECTOR_U_DATA}. 
             seg_base (gdt' (GDT_BASE_ADDR + (sel AND 0xfff8))) = 0
           \<and> seg_limit (gdt' (GDT_BASE_ADDR + (sel AND 0xfff8))) = 0xfffff
           \<and> seg_flags (gdt' (GDT_BASE_ADDR + (sel AND 0xfff8))) = 0xc0
           \<and> dpl (attr_low_byte (gdt' (GDT_BASE_ADDR + (sel AND 0xfff8)))) = 3
           \<and> ucast (dpl (attr_low_byte (gdt' (GDT_BASE_ADDR + (sel AND 0xfff8))))) = sel AND 3))"
proof -
  have ah: "GDT_ATTR_HIGH AND 0x0f = 0" "TSS_ATTR_HIGH AND 0x0f = 0" "GDT_ATTR_HIGH = 0xc0"
    by (simp_all add: GDT_ATTR_HIGH_def TSS_ATTR_HIGH_def)
  have a: "attr_low_byte (make_gdt_desc b l al h) = al" for b l al h by (simp add: make_gdt_desc_def)
  have d: "dpl GDT_CODE_ATTR_LOW_DPL3 = 3" "dpl GDT_DATA_ATTR_LOW_DPL3 = 3"
    by (simp_all add: dpl_def GDT_CODE_ATTR_LOW_DPL3_def GDT_DATA_ATTR_LOW_DPL3_def)
  have l: "unat (0xfffff :: u32) < 0x100000" "unat (sizeof_tss - 1) < 0x100000" by (simp_all add: sizeof_tss_def)
  have sels: "SELECTOR_U_CODE AND 0xfff8 = 0x28" "SELECTOR_U_DATA AND 0xfff8 = 0x30"
    "SELECTOR_U_CODE AND 3 = 3" "SELECTOR_U_DATA AND 3 = 3" "(ucast SELECTOR_TSS AND 0xfff8 :: u32) = 0x20"
    by (simp_all add: SELECTOR_U_CODE_def SELECTOR_U_DATA_def SELECTOR_TSS_def)
  show ?thesis
    using seg_base_make seg_limit_make [OF assms] seg_limit_make [OF l(1) ah(1)] seg_limit_make [OF l(2) ah(2)]
    by (simp add: a tss_init_def Let_def sels d ah(3))
qed

lemma segments_of_tss_init_witness:
  "seg_limit (make_gdt_desc 0x12345678 0xabcde 0x92 0xc0) = 0xabcde"
proof -
  have "unat (0xabcde :: u32) < 0x100000" "(0xc0 :: u8) AND 0x0f = 0" by simp_all
  from segments_of_tss_init [OF this] show ?thesis by blast
qed

text \<open>The mask that make_gdt_desc takes the high bits of the limit with is a nibble too wide: a limit from
  2^20 on spills into the flags and they no longer hold what was asked for.\<close>
lemma wide_limit_spoils_flags:
  "seg_flags (make_gdt_desc b 0x00ffffff al 0) = 0xf0"
  by (simp add: seg_flags_def make_gdt_desc_def)

end
