(* ===== verification/Stdio.thy ===== *)
theory Stdio
  imports Cstring Sync
begin

text \<open>
  lib/stdio.c on byte memory, and device/console.c, through which printk prints. The arguments of a
  variadic call lie in memory, four bytes each, behind the parameter format; va_arg steps over them.
  \<open>render\<close> says what a format yields; \<open>digits\<close> is the numeral of a number.
\<close>

section \<open>itoa\<close>

text \<open>The digits go to buf_ptr, which comes back moved; a base of 0 traps.\<close>

partial_function (option) itoa :: "u32 \<Rightarrow> u8 \<Rightarrow> mem \<Rightarrow> addr \<Rightarrow> (mem \<times> addr) option" where
  "itoa value base m buf_ptr =
     (if base = 0 then None
      else let r = value mod ucast base; i = value div ucast base in
        Option.bind (if i \<noteq> 0 then itoa i base m buf_ptr else Some (m, buf_ptr)) (\<lambda>(m, buf_ptr).
          Some (m(buf_ptr := if r < 10 then ucast (r + 0x30) else ucast (r - 10 + 0x41)), buf_ptr + 1)))"

section \<open>vsprintf\<close>

definition mem_word :: "mem \<Rightarrow> addr \<Rightarrow> u32" where
  "mem_word m a = ucast (m a) OR push_bit 8 (ucast (m (a + 1))) OR push_bit 16 (ucast (m (a + 2)))
     OR push_bit 24 (ucast (m (a + 3)))"

partial_function (option) vsprintf_loop :: "mem \<Rightarrow> addr \<Rightarrow> addr \<Rightarrow> addr \<Rightarrow> (mem \<times> addr) res option" where
  "vsprintf_loop m buf_ptr index_ptr ap =
     (let index_char = m index_ptr in
      if index_char = 0 then Some (Inr (m, buf_ptr))
      else if index_char \<noteq> 0x25
      then vsprintf_loop (m(buf_ptr := index_char)) (buf_ptr + 1) (index_ptr + 1) ap
      else let index_char = m (index_ptr + 1); ap = ap + 4; arg_int = mem_word m ap in
        if index_char = 0x78 then
          Option.bind (itoa arg_int 16 m buf_ptr) (\<lambda>(m, buf_ptr).
            vsprintf_loop m buf_ptr (index_ptr + 2) ap)
        else if index_char = 0x64 then
          Option.bind (if arg_int <s 0 then itoa (0 - arg_int) 10 (m(buf_ptr := 0x2d)) (buf_ptr + 1)
                       else itoa arg_int 10 m buf_ptr) (\<lambda>(m, buf_ptr).
            vsprintf_loop m buf_ptr (index_ptr + 2) ap)
        else if index_char = 0x63 then
          vsprintf_loop (m(buf_ptr := m ap)) (buf_ptr + 1) (index_ptr + 2) ap
        else if index_char = 0x73 then
          (case bindR (strcpy m buf_ptr arg_int) (\<lambda>(_, m).
                  bindR (strlen m arg_int) (\<lambda>n. Inr (m, n))) of
             Inl e \<Rightarrow> Some (Inl e)
           | Inr r \<Rightarrow> vsprintf_loop (fst r) (buf_ptr + snd r) (index_ptr + 2) ap)
        else Some (Inl (Panicked ''Undefined placeholder'')))"

definition vsprintf :: "mem \<Rightarrow> addr \<Rightarrow> addr \<Rightarrow> addr \<Rightarrow> (u32 \<times> mem) res" where
  "vsprintf m str format ap =
     bindR (bindR (of_loop (vsprintf_loop m str format ap)) id) (\<lambda>(m, _).
     bindR (strlen m str) (\<lambda>n. Inr (n, m)))"

text \<open>format_at is the address of the parameter format, which va_start takes; buf in printf and printk is
  the array on the stack, cleared before use.\<close>

definition sprintf :: "mem \<Rightarrow> addr \<Rightarrow> addr \<Rightarrow> addr \<Rightarrow> (u32 \<times> mem) res" where
  "sprintf m buf format format_at = vsprintf m buf format format_at"

section \<open>The console\<close>

record console =
  console_lock :: lock
  screen :: "u8 list"

definition console_init :: "u8 list \<Rightarrow> console" where
  "console_init old = \<lparr>console_lock = lock_init, screen = old\<rparr>"

definition console_acquire :: "console \<Rightarrow> 'a kthreads_scheme \<Rightarrow> (console \<times> 'a kthreads_scheme) res" where
  "console_acquire c k = bindR (lock_acquire (console_lock c) k) (\<lambda>(l, k). Inr (c\<lparr>console_lock := l\<rparr>, k))"

definition console_release :: "console \<Rightarrow> 'a kthreads_scheme \<Rightarrow> (console \<times> 'a kthreads_scheme) res" where
  "console_release c k = bindR (lock_release (console_lock c) k) (\<lambda>(l, k). Inr (c\<lparr>console_lock := l\<rparr>, k))"

text \<open>put_char, put_str and put_int (lib/kernel/print.S) put characters on the screen, after what is there.\<close>

definition put_char :: "u8 \<Rightarrow> console \<Rightarrow> console" where
  "put_char ch c = c\<lparr>screen := screen c @ [ch]\<rparr>"

partial_function (option) put_str :: "mem \<Rightarrow> addr \<Rightarrow> console \<Rightarrow> console option" where
  "put_str m str c = (if m str = 0 then Some c else put_str m (str + 1) (put_char (m str) c))"

definition console_put_str :: "mem \<Rightarrow> addr \<Rightarrow> console \<Rightarrow> 'a kthreads_scheme \<Rightarrow> (console \<times> 'a kthreads_scheme) res" where
  "console_put_str m str c k =
     bindR (console_acquire c k) (\<lambda>(c, k).
     bindR (of_loop (put_str m str c)) (\<lambda>c. console_release c k))"

definition console_put_char :: "u8 \<Rightarrow> console \<Rightarrow> 'a kthreads_scheme \<Rightarrow> (console \<times> 'a kthreads_scheme) res" where
  "console_put_char ch c k = bindR (console_acquire c k) (\<lambda>(c, k). console_release (put_char ch c) k)"

text \<open>put_int: eight hexadecimal digits in a buffer, the leading zeros skipped, but one digit at least.\<close>

definition put_int :: "u32 \<Rightarrow> console \<Rightarrow> console" where
  "put_int num c =
     (let put_int_buffer = map (\<lambda>i. let d = drop_bit (4 * (7 - i)) num AND 0xf in
            if d > 9 then ucast (d - 10) + 0x41 else ucast d + 0x30) [0..<8];
          shown = dropWhile (\<lambda>ch. ch = 0x30) put_int_buffer
      in c\<lparr>screen := screen c @ (if shown = [] then [0x30] else shown)\<rparr>)"

definition console_put_int :: "u32 \<Rightarrow> console \<Rightarrow> 'a kthreads_scheme \<Rightarrow> (console \<times> 'a kthreads_scheme) res" where
  "console_put_int num c k = bindR (console_acquire c k) (\<lambda>(c, k). console_release (put_int num c) k)"

definition printk :: "mem \<Rightarrow> addr \<Rightarrow> addr \<Rightarrow> addr \<Rightarrow> console \<Rightarrow> 'a kthreads_scheme \<Rightarrow> (mem \<times> console \<times> 'a kthreads_scheme) res" where
  "printk m buf format format_at c k =
     (let m = memset_loop m buf 0 1024 in
      bindR (vsprintf m buf format format_at) (\<lambda>(_, m).
      bindR (console_put_str m buf c k) (\<lambda>(c, k). Inr (m, c, k))))"

text \<open>panic_spin (kernel/debug.c) and the two functions of thread/thread.c that print a length; lit is a string
  literal. The result of panic_spin is the state in which it spins.\<close>

definition lit :: "string \<Rightarrow> console \<Rightarrow> console" where
  "lit s c = c\<lparr>screen := screen c @ map of_char s\<rparr>"

definition panic_spin :: "mem \<Rightarrow> addr \<Rightarrow> u32 \<Rightarrow> addr \<Rightarrow> addr \<Rightarrow> console \<Rightarrow> 'a kthreads_scheme \<Rightarrow> (console \<times> 'a kthreads_scheme) res" where
  "panic_spin m filename line func cond c k =
     (let k = k\<lparr>intr := snd (intr_disable (intr k))\<rparr>;
          nl = lit [CHR 0x0A];
          c = lit ''filename:'' (lit (replicate 3 (CHR 0x0A) @ ''!!!kernel panic!!!'' @ [CHR 0x0A]) c) in
      bindR (of_loop (put_str m filename c)) (\<lambda>c.
      let c = lit ''function:'' (nl (put_int line (lit ''line:0x'' (nl c)))) in
      bindR (of_loop (put_str m func c)) (\<lambda>c.
      bindR (of_loop (put_str m cond (lit ''condition:'' (nl c)))) (\<lambda>c.
        Inr (nl c, k)))))"

definition ready_list_len :: "'a kthreads_scheme \<Rightarrow> console \<Rightarrow> console" where
  "ready_list_len k c = lit [CHR 0x0A] (put_int (of_nat (length (thread_ready_list k))) c)"

definition all_list_len :: "'a kthreads_scheme \<Rightarrow> console \<Rightarrow> console" where
  "all_list_len k c = lit [CHR 0x0A] (put_int (of_nat (length (thread_all_list k))) c)"

section \<open>Specification\<close>

definition digit_char :: "nat \<Rightarrow> u8" where
  "digit_char d = (if d < 10 then of_nat (d + 0x30) else of_nat (d - 10 + 0x41))"

function digits :: "nat \<Rightarrow> nat \<Rightarrow> u8 list" where
  "digits base n = (if n < base \<or> base < 2 then [digit_char n] else digits base (n div base) @ [digit_char (n mod base)])"
  by pat_completeness auto
termination by (relation "measure snd") auto

declare digits.simps [simp del]

definition digit_value :: "u8 \<Rightarrow> nat" where
  "digit_value c = (if c < 0x3a then unat c - 0x30 else unat c - 0x41 + 10)"

definition numeral_value :: "nat \<Rightarrow> u8 list \<Rightarrow> nat" where
  "numeral_value base = foldl (\<lambda>v c. v * base + digit_value c) 0"

definition decimal :: "u32 \<Rightarrow> u8 list" where
  "decimal a = (if sint a < 0 then 0x2d # digits 10 (nat (- sint a)) else digits 10 (nat (sint a)))"

text \<open>What a format yields on its arguments; strs gives the strings that pointers lead to.\<close>

fun render :: "(u32 \<Rightarrow> u8 list option) \<Rightarrow> u8 list \<Rightarrow> u32 list \<Rightarrow> u8 list option" where
  "render strs [] args = Some []"
| "render strs (c # fs) args =
     (if c \<noteq> 0x25 then map_option ((#) c) (render strs fs args)
      else case (fs, args) of
        (k # fs', a # as) \<Rightarrow>
          Option.bind (if k = 0x78 then Some (digits 16 (unat a)) else if k = 0x64 then Some (decimal a)
                       else if k = 0x63 then Some [ucast a] else if k = 0x73 then strs a else None)
            (\<lambda>out. map_option ((@) out) (render strs fs' as))
      | _ \<Rightarrow> None)"

section \<open>Numerals\<close>

lemma length_digits_pos: "digits base n \<noteq> []"
  by (simp add: digits.simps [of base n])

lemma digit_value_char: "d < 36 \<Longrightarrow> digit_value (digit_char d) = d"
proof -
  assume "d < 36"
  moreover have "\<forall>d \<in> set [0..<36]. digit_value (digit_char d) = d" by code_simp
  ultimately show ?thesis by simp
qed

lemma numeral_value_digits:
  assumes "2 \<le> base" "base \<le> 36"
  shows "numeral_value base (digits base n) = n"
proof (induction n rule: less_induct)
  case (less n)
  show ?case
  proof (cases "n < base")
    case True
    then show ?thesis using assms by (simp add: digits.simps [of base n] numeral_value_def digit_value_char)
  next
    case False
    then have "n div base < n" using assms(1) by (intro div_less_dividend) simp_all
    note ih = less.IH [OF this]
    have "n mod base < 36" using assms mod_less_divisor [of base n] by linarith
    then show ?thesis using ih False assms(1)
      by (simp add: digits.simps [of base n] numeral_value_def digit_value_char div_mult_mod_eq)
  qed
qed

lemma digit_byte:
  assumes "unat r < 36"
  shows "(if r < 10 then ucast (r + 0x30) else ucast (r - 10 + 0x41)) = digit_char (unat (r :: u32))"
proof -
  obtain d where d: "r = of_nat d" "unat r = d" "d < 36" using assms by (intro that [of "unat r"]) simp_all
  have "\<forall>d \<in> set [0..<36]. (if (of_nat d :: u32) < 10 then ucast ((of_nat d :: u32) + 0x30)
      else ucast ((of_nat d :: u32) - 10 + 0x41)) = digit_char d" by code_simp
  moreover have "d \<in> set [0..<36]" using d(3) by simp
  ultimately show ?thesis unfolding d(2) unfolding d(1) by (rule bspec)
qed

lemma itoa_digits:
  assumes "2 \<le> base" "base \<le> 36"
  shows "itoa v base m b = Some (poke m b (digits (unat base) (unat v)), b + of_nat (length (digits (unat base) (unat v))))"
proof (induction "unat v" arbitrary: v rule: less_induct)
  case less
  have ub: "unat (ucast base :: u32) = unat base"
    by (simp add: unsigned_ucast_eq take_bit_nat_eq_self unsigned_less [THEN order_less_le_trans])
  have b: "2 \<le> unat base" "unat base \<le> 36" using assms by (simp_all add: word_le_nat_alt)
  have b0: "base \<noteq> 0" using b(1) by auto
  have r: "unat (v mod ucast base) = unat v mod unat base" "unat (v div ucast base) = unat v div unat base"
    by (simp_all add: unat_mod unat_div ub)
  have "unat v mod unat base < 36" using b mod_less_divisor [of "unat base" "unat v"] by linarith
  then have d: "(if v mod ucast base < 10 then ucast (v mod ucast base + 0x30) else ucast (v mod ucast base - 10 + 0x41))
      = digit_char (unat v mod unat base)"
    using digit_byte [of "v mod ucast base"] unfolding r by blast
  show ?case
  proof (cases "unat v < unat base")
    case True
    then have "v div ucast base = 0" using r(2) by (simp add: u32_eq_iff)
    then show ?thesis using True b0 d
      by (subst itoa.simps) (simp add: Let_def digits.simps [of "unat base" "unat v"])
  next
    case False
    then have "0 < unat v div unat base" using b(1) by (simp add: div_greater_zero_iff)
    then have nz: "v div ucast base \<noteq> 0" using r(2) by auto
    have "unat (v div ucast base) < unat v" using b(1) False unfolding r by (intro div_less_dividend) simp_all
    note ih = less.hyps [OF this, unfolded r]
    show ?thesis using False b0 b(1) d nz ih
      by (subst itoa.simps) (simp add: Let_def digits.simps [of "unat base" "unat v"] poke_append add.assoc)
  qed
qed

section \<open>Formats\<close>

text \<open>What vsprintf reads: the format at i, the arguments behind ap, the strings they point to; P is
  where all that lies.\<close>

definition args_at :: "mem \<Rightarrow> addr set \<Rightarrow> addr \<Rightarrow> u32 list \<Rightarrow> bool" where
  "args_at m P ap args \<longleftrightarrow> (\<forall>k < length args. mem_word m (ap + 4 + 4 * of_nat k) = args ! k
     \<and> region (ap + 4 + 4 * of_nat k) 4 \<subseteq> P)"

definition strings_at :: "mem \<Rightarrow> addr set \<Rightarrow> (u32 \<Rightarrow> u8 list option) \<Rightarrow> bool" where
  "strings_at m P strs \<longleftrightarrow> (\<forall>a cs. strs a = Some cs \<longrightarrow> a \<noteq> NULL \<and> cstr m a cs \<and> region a (Suc (length cs)) \<subseteq> P)"

lemma mem_word_cong:
  assumes a: "\<And>a. a \<in> region p 4 \<Longrightarrow> m' a = m a"
  shows "mem_word m' p = mem_word m p"
proof -
  have r: "p \<in> region p 4" "p + 1 \<in> region p 4" "p + 2 \<in> region p 4" "p + 3 \<in> region p 4"
    using region_memI [of 0 4 p] region_memI [of 1 4 p] region_memI [of 2 4 p] region_memI [of 3 4 p] by simp_all
  show ?thesis unfolding mem_word_def a [OF r(1)] a [OF r(2)] a [OF r(3)] a [OF r(4)] by (rule refl)
qed

lemma args_at_cong:
  assumes "args_at m P ap args" and a: "\<And>a. a \<in> P \<Longrightarrow> m' a = m a"
  shows "args_at m' P ap args"
  unfolding args_at_def
proof (intro allI impI)
  fix k assume "k < length args"
  then have k: "mem_word m (ap + 4 + 4 * of_nat k) = args ! k" "region (ap + 4 + 4 * of_nat k) 4 \<subseteq> P"
    using assms(1) by (simp_all add: args_at_def)
  have "mem_word m' (ap + 4 + 4 * of_nat k) = mem_word m (ap + 4 + 4 * of_nat k)"
    using k(2) by (intro mem_word_cong a) blast
  then show "mem_word m' (ap + 4 + 4 * of_nat k) = args ! k \<and> region (ap + 4 + 4 * of_nat k) 4 \<subseteq> P"
    using k by simp
qed

lemma strings_at_cong:
  assumes s: "strings_at m P strs" and m: "\<And>a. a \<in> P \<Longrightarrow> m' a = m a"
  shows "strings_at m' P strs"
  unfolding strings_at_def
proof (intro allI impI)
  fix a cs assume c: "strs a = Some cs"
  have a: "a \<noteq> NULL" "cstr m a cs" "region a (Suc (length cs)) \<subseteq> P" using s c by (auto simp: strings_at_def)
  then have "cstr m' a cs \<longleftrightarrow> cstr m a cs" by (intro cstr_cong m) blast
  then show "a \<noteq> NULL \<and> cstr m' a cs \<and> region a (Suc (length cs)) \<subseteq> P" using a by blast
qed

lemma args_at_Cons:
  assumes "args_at m P ap (a # as)"
  shows "mem_word m (ap + 4) = a" "args_at m P (ap + 4) as" "region (ap + 4) 4 \<subseteq> P"
proof -
  have *: "mem_word m (ap + 4 + 4 * of_nat k) = (a # as) ! k \<and> region (ap + 4 + 4 * of_nat k) 4 \<subseteq> P"
    if "k < Suc (length as)" for k using assms that by (simp add: args_at_def)
  show "mem_word m (ap + 4) = a" "region (ap + 4) 4 \<subseteq> P" using * [of 0] by simp_all
  show "args_at m P (ap + 4) as"
    unfolding args_at_def
  proof (intro allI impI)
    fix k assume "k < length as"
    then show "mem_word m (ap + 4 + 4 + 4 * of_nat k) = as ! k \<and> region (ap + 4 + 4 + 4 * of_nat k) 4 \<subseteq> P"
      using * [of "Suc k"] by (simp add: algebra_simps)
  qed
qed

lemma mem_word_low: "ucast (mem_word m p) = m p"
  unfolding mem_word_def by (intro bit_word_eqI) (auto simp: bit_simps)

definition has_string :: "u8 list \<Rightarrow> bool" where
  "has_string fs \<longleftrightarrow> 0x73 \<in> set fs"

text \<open>The memory after output xs: the characters, and perhaps the NUL that strcpy left behind them.\<close>

definition written :: "mem \<Rightarrow> addr \<Rightarrow> u8 list \<Rightarrow> bool \<Rightarrow> mem \<Rightarrow> bool" where
  "written m b xs nul m' \<longleftrightarrow> m' = poke m b xs \<or> nul \<and> m' = poke m b (xs @ [0])"

lemma written_step: "written (poke m b xs) (b + of_nat (length xs)) ys nul m' \<Longrightarrow> written m b (xs @ ys) nul m'"
  by (auto simp: written_def poke_append add.assoc)

lemma written_step_nul:
  assumes "written (poke m b (xs @ [0])) (b + of_nat (length xs)) ys True m'"
  shows "written m b (xs @ ys) True m'"
proof (cases ys)
  case Nil
  have "poke (poke m b (xs @ [0])) (b + of_nat (length xs)) [0] = poke m b (xs @ [0])"
    using poke_over [of m b xs 0 0 "[]"] by simp
  then show ?thesis using assms Nil by (auto simp: written_def)
next
  case (Cons z zs)
  then show ?thesis using assms poke_over [of m b xs 0 z zs] poke_over [of m b xs 0 z "zs @ [0]"]
    by (auto simp: written_def)
qed

lemma decimal_written:
  "(if a <s 0 then itoa (0 - a) 10 (m(b := 0x2d)) (b + 1) else itoa a 10 m b)
     = Some (poke m b (decimal a), b + of_nat (length (decimal a)))"
proof -
  have neg: "a <s 0 \<longleftrightarrow> sint a < 0" by (simp add: word_sless_alt)
  have u: "unat (0 - a) = nat (- sint a)" if n: "sint a < 0"
  proof -
    have lo: "- (2 ^ 31) \<le> sint a" using sint_ge [of a] by simp
    have "uint (- a) = (- uint a) mod 2 ^ 32" by (simp add: uint_word_ariths)
    also have "uint a = sint a mod 2 ^ 32" using uint_sint [of a] by (simp add: take_bit_eq_mod)
    also have "(- (sint a mod 2 ^ 32)) mod 2 ^ 32 = (- sint a) mod 2 ^ 32" by (rule mod_minus_eq)
    also have "\<dots> = - sint a" using lo n by (intro mod_pos_pos_trivial) simp_all
    finally show ?thesis by (simp add: unat_eq_nat_uint)
  qed
  have p: "unat a = nat (sint a)" if n: "\<not> sint a < 0"
  proof -
    have "uint a = sint a mod 2 ^ 32" using uint_sint [of a] by (simp add: take_bit_eq_mod)
    also have "\<dots> = sint a" using n sint_lt [of a] by (intro mod_pos_pos_trivial) simp_all
    finally show ?thesis by (simp add: unat_eq_nat_uint)
  qed
  have t: "(2 :: u8) \<le> 10" "(10 :: u8) \<le> 36" by simp_all
  show ?thesis
  proof (cases "sint a < 0")
    case True
    then show ?thesis using u by (simp add: neg itoa_digits [OF t] decimal_def add.assoc fun_upd_def)
  next
    case False
    then show ?thesis using p by (simp add: neg itoa_digits [OF t] decimal_def)
  qed
qed

lemma written_mono: "written m b xs nul m' \<Longrightarrow> (nul \<Longrightarrow> nul') \<Longrightarrow> written m b xs nul' m'"
  by (auto simp: written_def)

text \<open>One directive: the loop writes its text and goes on behind it.\<close>

definition piece :: "(u32 \<Rightarrow> u8 list option) \<Rightarrow> u8 \<Rightarrow> u32 \<Rightarrow> u8 list option" where
  "piece strs k a = (if k = 0x78 then Some (digits 16 (unat a)) else if k = 0x64 then Some (decimal a)
     else if k = 0x63 then Some [ucast a] else if k = 0x73 then strs a else None)"

lemma directive_written:
  assumes p: "piece strs k a = Some o1" and c: "m i = 0x25" "m (i + 1) = k" and a: "mem_word m (ap + 4) = a"
    and s: "strings_at m P strs" and d: "region b (Suc (length o1)) \<inter> P = {}" "0 \<in> P"
  shows "\<exists>m1. vsprintf_loop m b i ap = vsprintf_loop m1 (b + of_nat (length o1)) (i + 2) (ap + 4)
     \<and> (m1 = poke m b o1 \<or> k = 0x73 \<and> m1 = poke m b (o1 @ [0]))"
proof -
  have x: "(2 :: u8) \<le> 16" "(16 :: u8) \<le> 36" by simp_all
  consider "k = 0x78" | "k = 0x64" | "k = 0x63" | "k = 0x73" "strs a = Some o1"
    using p by (auto simp: piece_def split: if_splits)
  then show ?thesis
  proof cases
    case 1
    then have "vsprintf_loop m b i ap = vsprintf_loop (poke m b o1) (b + of_nat (length o1)) (i + 2) (ap + 4)"
      using p c a by (subst vsprintf_loop.simps) (simp add: piece_def Let_def itoa_digits [OF x])
    then show ?thesis by blast
  next
    case 2
    then have "vsprintf_loop m b i ap = vsprintf_loop (poke m b o1) (b + of_nat (length o1)) (i + 2) (ap + 4)"
      using p c by (subst vsprintf_loop.simps) (simp add: piece_def Let_def decimal_written a [symmetric] del: fun_upd_apply)
    then show ?thesis by blast
  next
    case 3
    then have "vsprintf_loop m b i ap = vsprintf_loop (poke m b o1) (b + of_nat (length o1)) (i + 2) (ap + 4)"
      using p c mem_word_low [of m "ap + 4"] a by (subst vsprintf_loop.simps) (auto simp: piece_def Let_def fun_upd_def)
    then show ?thesis by blast
  next
    case 4
    have r: "a \<noteq> NULL" "cstr m a o1" "region a (Suc (length o1)) \<subseteq> P" using s 4(2) by (auto simp: strings_at_def)
    have b: "b \<noteq> NULL" using d by (auto simp: region_Suc)
    have dis: "region b (Suc (length o1)) \<inter> region a (Suc (length o1)) = {}" using d(1) r(3) by blast
    have cp: "memcpy_loop m b a (Suc (length o1)) = poke m b (o1 @ [0])"
      using r(2) dis by (intro memcpy_poke) (auto simp: cstr_nth nth_append less_Suc_eq)
    have "cstr (poke m b (o1 @ [0])) a o1 \<longleftrightarrow> cstr m a o1"
      using r(3) d by (intro cstr_cong poke_outside) auto
    then have "strlen (poke m b (o1 @ [0])) a = Inr (of_nat (length o1))" using r(1,2) by (intro strlen_cstr) simp_all
    then have "vsprintf_loop m b i ap = vsprintf_loop (poke m b (o1 @ [0])) (b + of_nat (length o1)) (i + 2) (ap + 4)"
      using c a 4 strcpy_loop_cstr [OF r(2) dis] r(1) b cp
      by (subst vsprintf_loop.simps) (simp add: Let_def strcpy_def)
    then show ?thesis using 4(1) by blast
  qed
qed

lemma vsprintf_loop_renders:
  assumes "render strs fs args = Some out" "cstr m i fs" "region i (Suc (length fs)) \<subseteq> P" "args_at m P ap args"
    "strings_at m P strs" "region b (Suc (length out)) \<inter> P = {}" "0 \<in> P"
  shows "\<exists>m'. vsprintf_loop m b i ap = Some (Inr (m', b + of_nat (length out))) \<and> written m b out (has_string fs) m'"
  using assms
proof (induction fs arbitrary: args out m i ap b rule: length_induct)
  case (1 fs)
  note IH = "1.IH" [rule_format]
  note P = "1.prems"
  show ?case
  proof (cases fs)
    case Nil
    then show ?thesis using P(1,2) by (auto simp: vsprintf_loop.simps written_def)
  next
    case (Cons c gs)
    have mi: "m i = c" "c \<noteq> 0" "cstr m (i + 1) gs" using P(2) Cons by simp_all
    have ri: "region (i + 1) (Suc (length gs)) \<subseteq> P" using P(3) region_rest [of i "Suc (length gs)"] Cons by auto
    show ?thesis
    proof (cases "c = 0x25")
      case False
      then obtain out' where o: "out = c # out'" "render strs gs args = Some out'"
        using P(1) Cons by auto
      have P': "region b (length [c]) \<inter> P = {}" "region (b + 1) (Suc (length out')) \<inter> P = {}"
        using P(6) o(1) by (auto simp: region_Suc)
      define m1 where m1: "m1 = poke m b [c]"
      have ag: "m1 a = m a" if "a \<in> P" for a unfolding m1 by (rule poke_agrees [OF P'(1) that])
      have "cstr m1 (i + 1) gs" using mi(3) ri by (subst cstr_cong [OF ag]) auto
      from IH [of gs, OF _ o(2) this ri args_at_cong [OF P(4) ag] strings_at_cong [OF P(5) ag] P'(2) P(7)]
      obtain m' where m': "vsprintf_loop m1 (b + 1) (i + 1) ap = Some (Inr (m', b + 1 + of_nat (length out')))"
        "written m1 (b + 1) out' (has_string gs) m'" using Cons by auto
      have "vsprintf_loop m b i ap = vsprintf_loop m1 (b + 1) (i + 1) ap"
        using mi False by (subst vsprintf_loop.simps) (simp add: m1)
      moreover have "written m b out (has_string gs) m'" using written_step [of m b "[c]"] m'(2) o(1) unfolding m1 by simp
      then have "written m b out (has_string fs) m'" by (rule written_mono) (simp add: has_string_def Cons)
      ultimately show ?thesis using m'(1) o(1) by (auto simp: add.assoc)
    next
      case True
      then obtain k gs' a as o1 o2 where g: "gs = k # gs'" "args = a # as" "piece strs k a = Some o1"
        "render strs gs' as = Some o2" "out = o1 @ o2"
        using P(1) Cons by (auto simp: piece_def bind_eq_Some_conv split: list.splits)
      have mk: "m (i + 1) = k" "cstr m (i + 2) gs'" using mi(3) g(1) by (simp_all add: add.assoc)
      have ri': "region (i + 2) (Suc (length gs')) \<subseteq> P"
        using ri region_rest [of "i + 1" "Suc (length gs')"] g(1) by (auto simp: add.assoc)
      note A = args_at_Cons [OF P(4) [unfolded g(2)]]
      have split: "region b (Suc (length out)) = region b (length o1) \<union> region (b + of_nat (length o1)) (Suc (length o2))"
        using region_append [of b "length o1" "Suc (length o2)"] g(5) by simp
      have o1s: "region b (Suc (length o1)) \<subseteq> region b (Suc (length out))"
        using region_append [of b "Suc (length o1)" "length o2"] g(5) by auto
      obtain m1 where m1: "vsprintf_loop m b i ap = vsprintf_loop m1 (b + of_nat (length o1)) (i + 2) (ap + 4)"
        "m1 = poke m b o1 \<or> k = 0x73 \<and> m1 = poke m b (o1 @ [0])"
        using directive_written [OF g(3) _ mk(1) A(1) P(5) _ P(7), of b] mi(1) True o1s P(6) by blast
      have ag: "m1 a = m a" if "a \<in> P" for a
      proof -
        have "poke m b o1 a = m a" using that o1s P(6) region_append [of b "length o1" 1]
          by (intro poke_agrees [of _ _ P]) auto
        moreover have "poke m b (o1 @ [0]) a = m a" using that o1s P(6) by (intro poke_agrees [of _ _ P]) auto
        ultimately show ?thesis using m1(2) by auto
      qed
      have "cstr m1 (i + 2) gs'" using mk(2) ri' by (subst cstr_cong [OF ag]) auto
      moreover have "region (b + of_nat (length o1)) (Suc (length o2)) \<inter> P = {}" using split P(6) by blast
      ultimately obtain m' where m': "vsprintf_loop m1 (b + of_nat (length o1)) (i + 2) (ap + 4)
          = Some (Inr (m', b + of_nat (length o1) + of_nat (length o2)))"
        "written m1 (b + of_nat (length o1)) o2 (has_string gs') m'"
        using IH [of gs', OF _ g(4) _ ri' args_at_cong [OF A(2) ag] strings_at_cong [OF P(5) ag] _ P(7)] Cons g(1) by auto
      have hs: "has_string fs \<longleftrightarrow> k = 0x73 \<or> has_string gs'" using Cons g(1) True by (auto simp: has_string_def)
      have "written m b out (has_string fs) m'"
        using m1(2)
      proof
        assume "m1 = poke m b o1"
        then have "written m b out (has_string gs') m'" using m'(2) written_step g(5) by simp
        then show ?thesis by (rule written_mono) (simp add: hs)
      next
        assume k: "k = 0x73 \<and> m1 = poke m b (o1 @ [0])"
        then have "written m1 (b + of_nat (length o1)) o2 True m'" using m'(2) by (auto simp: written_def)
        then have "written m b out True m'" using k written_step_nul g(5) by simp
        then show ?thesis using k hs by simp
      qed
      then show ?thesis using m1(1) m'(1) g(5) by (auto simp: add.assoc)
    qed
  qed
qed

lemma written_reads:
  assumes "written m b xs nul m'" "length xs < 4294967295"
  shows "\<And>i. i < length xs \<Longrightarrow> m' (b + of_nat i) = xs ! i"
    "\<And>a. a \<notin> region b (Suc (length xs)) \<Longrightarrow> m' a = m a"
    "m' (b + of_nat (length xs)) = m (b + of_nat (length xs)) \<or> nul \<and> m' (b + of_nat (length xs)) = 0"
proof -
  have e: "b + of_nat (length xs) \<notin> region b (length xs)" using assms(2) by (intro region_outside_next) simp
  have nul: "m' = poke m b xs \<or> nul \<and> m' = poke m b (xs @ [0])" using assms(1) by (simp add: written_def)
  show "m' (b + of_nat i) = xs ! i" if i: "i < length xs" for i
  proof -
    have "poke m b xs (b + of_nat i) = xs ! i" using i assms(2) by (intro poke_inside) simp_all
    moreover have "poke m b (xs @ [0]) (b + of_nat i) = (xs @ [0]) ! i" using i assms(2) by (intro poke_inside) simp_all
    ultimately show ?thesis using nul i by (auto simp: nth_append)
  qed
  show "m' a = m a" if "a \<notin> region b (Suc (length xs))" for a
  proof -
    have "a \<notin> region b (length xs)" using that region_mono [of "length xs" "Suc (length xs)" b] by auto
    then have "poke m b xs a = m a" by (rule poke_outside)
    moreover have "poke m b (xs @ [0]) a = m a" using that by (intro poke_outside) simp
    ultimately show ?thesis using nul by auto
  qed
  have "poke m b (xs @ [0]) (b + of_nat (length xs)) = (xs @ [0]) ! length xs"
    using assms(2) by (intro poke_inside) simp_all
  then show "m' (b + of_nat (length xs)) = m (b + of_nat (length xs)) \<or> nul \<and> m' (b + of_nat (length xs)) = 0"
    using nul poke_outside [OF e] by auto
qed

lemma put_str_cstr: "cstr m p cs \<Longrightarrow> put_str m p c = Some (c\<lparr>screen := screen c @ cs\<rparr>)"
proof (induction cs arbitrary: p c)
  case Nil
  then show ?case by (simp add: put_str.simps)
next
  case (Cons x xs)
  then show ?case by (subst put_str.simps) (simp add: put_char_def)
qed

lemma console_put_str_free:
  assumes "cstr m p cs" "console_lock c = lock_init" "running_thread k \<noteq> NULL"
  shows "console_put_str m p c k = Inr (c\<lparr>screen := screen c @ cs\<rparr>, k)"
  using assms put_str_cstr [OF assms(1)] acquire_first [OF assms(3)] release_last [of k]
  by (simp add: console_put_str_def console_acquire_def console_release_def)

lemma vsprintf_terminated:
  assumes "vsprintf_loop m str fmt ap = Some (Inr (m', str + of_nat (length out)))" "written m str out nul m'"
    and "length out < 4294967295" "0 \<notin> set out" "m (str + of_nat (length out)) = 0" "str \<noteq> NULL"
  shows "cstr m' str out" "vsprintf m str fmt ap = Inr (of_nat (length out), m')"
proof -
  note r = written_reads [OF assms(2,3)]
  show c: "cstr m' str out" unfolding cstr_nth using r(1,3) assms(4,5) by (metis nth_mem)
  show "vsprintf m str fmt ap = Inr (of_nat (length out), m')"
    using assms(1) strlen_cstr [OF c assms(6)] by (simp add: vsprintf_def)
qed

text \<open>A cleared buffer of 1024 bytes, as printf and printk use it.\<close>

lemma vsprintf_cleared:
  assumes f: "render strs fs args = Some out" "cstr m fmt fs" "region fmt (Suc (length fs)) \<subseteq> P"
    and a: "args_at m P ap args" "strings_at m P strs"
    and b: "region buf 1024 \<inter> P = {}" "0 \<in> P" "length out < 1024" "0 \<notin> set out"
  shows "\<exists>m'. vsprintf (memset_loop m buf 0 1024) buf fmt ap = Inr (of_nat (length out), m') \<and> cstr m' buf out
     \<and> buf \<noteq> NULL \<and> (\<forall>a. a \<notin> region buf 1024 \<longrightarrow> m' a = m a)"
proof -
  let ?m = "memset_loop m buf 0 1024"
  have eq: "?m a = m a" if "a \<in> P" for a using that b(1) by (auto simp: memset_loop_eq)
  have sub: "region buf (Suc (length out)) \<subseteq> region buf 1024"
    using b(3) by (intro region_mono) simp
  have cf: "cstr ?m fmt fs" using f(2,3) by (subst cstr_cong [OF eq]) auto
  have dis: "region buf (Suc (length out)) \<inter> P = {}" using sub b(1) by blast
  obtain m' where m': "vsprintf_loop ?m buf fmt ap = Some (Inr (m', buf + of_nat (length out)))"
    "written ?m buf out (has_string fs) m'"
    using vsprintf_loop_renders [OF f(1) cf f(3) args_at_cong [OF a(1) eq] strings_at_cong [OF a(2) eq] dis b(2)] by blast
  have len: "length out < 4294967295" using b(3) by simp
  have "buf + of_nat (length out) \<in> region buf 1024" using b(3) by (rule region_memI)
  then have e: "?m (buf + of_nat (length out)) = 0" by (simp add: memset_loop_eq)
  have "buf \<in> region buf 1024" using region_memI [of 0 1024 buf] by simp
  then have bn: "buf \<noteq> NULL" using b(1,2) by auto
  note t = vsprintf_terminated [OF m' len b(4) e bn]
  have "m' a = m a" if "a \<notin> region buf 1024" for a
    using written_reads(2) [OF m'(2) len, of a] that sub by (auto simp: memset_loop_eq)
  then show ?thesis using t bn by blast
qed

section \<open>A concrete call\<close>

text \<open>sprintf(0x4000, "%d=%s", 7, "ok"): format at 0x1000, arguments behind 0x2000, string at 0x3000.\<close>

definition demo_call :: mem where
  "demo_call = poke (poke (poke (\<lambda>_. 0) 0x1000 [0x25, 0x64, 0x3d, 0x25, 0x73]) 0x2004 [7, 0, 0, 0, 0, 0x30, 0, 0])
     0x3000 [0x6f, 0x6b]"

definition demo_strs :: "u32 \<Rightarrow> u8 list option" where
  "demo_strs = (\<lambda>a. if a = 0x3000 then Some [0x6f, 0x6b] else None)"

definition demo_area :: "addr set" where
  "demo_area = {a. a < 0x4000}"

lemma demo_call_ok:
  "render demo_strs [0x25, 0x64, 0x3d, 0x25, 0x73] [7, 0x3000] = Some [0x37, 0x3d, 0x6f, 0x6b]"
  "cstr demo_call 0x1000 [0x25, 0x64, 0x3d, 0x25, 0x73]"
  "region 0x1000 (Suc (length [0x25, 0x64, 0x3d, 0x25, 0x73 :: u8])) \<subseteq> demo_area"
  "args_at demo_call demo_area 0x2000 [7, 0x3000]" "strings_at demo_call demo_area demo_strs" "0 \<in> demo_area"
  "region 0x4000 (Suc (length [0x37, 0x3d, 0x6f, 0x6b :: u8])) \<inter> demo_area = {}"
proof -
  show "render demo_strs [0x25, 0x64, 0x3d, 0x25, 0x73] [7, 0x3000] = Some [0x37, 0x3d, 0x6f, 0x6b]"
    by (simp add: demo_strs_def decimal_def digits.simps digit_char_def)
  show "cstr demo_call 0x1000 [0x25, 0x64, 0x3d, 0x25, 0x73]" by (simp add: demo_call_def)
  show "region 0x1000 (Suc (length [0x25, 0x64, 0x3d, 0x25, 0x73 :: u8])) \<subseteq> demo_area"
    by (simp add: region_Suc demo_area_def)
  show "args_at demo_call demo_area 0x2000 [7, 0x3000]"
  proof -
    have w: "mem_word demo_call 0x2004 = 7" "mem_word demo_call 0x2008 = 0x3000" by code_simp+
    have four: "(4 :: nat) = Suc (Suc (Suc (Suc 0)))" by simp
    have r: "region 0x2004 4 \<subseteq> demo_area" "region 0x2008 4 \<subseteq> demo_area"
      unfolding four by (simp_all add: region_Suc demo_area_def)
    show ?thesis unfolding args_at_def
    proof (intro allI impI)
      fix k assume "k < length [7, 0x3000 :: u32]"
      then consider "k = 0" | "k = 1" by (auto simp: less_Suc_eq)
      then show "mem_word demo_call (0x2000 + 4 + 4 * of_nat k) = [7, 0x3000] ! k
         \<and> region (0x2000 + 4 + 4 * of_nat k) 4 \<subseteq> demo_area"
        using w r by cases simp_all
    qed
  qed
  show "strings_at demo_call demo_area demo_strs"
    by (simp add: strings_at_def demo_strs_def demo_call_def region_Suc demo_area_def)
  show "0 \<in> demo_area" by (simp add: demo_area_def)
  show "region 0x4000 (Suc (length [0x37, 0x3d, 0x6f, 0x6b :: u8])) \<inter> demo_area = {}"
    by (simp add: region_Suc demo_area_def)
qed

text \<open>put_int prints the hexadecimal numeral.\<close>

fun hex_digits :: "nat \<Rightarrow> nat \<Rightarrow> u8 list" where
  "hex_digits 0 n = []"
| "hex_digits (Suc k) n = hex_digits k (n div 16) @ [digit_char (n mod 16)]"

lemma digit_char_zero: "d < 16 \<Longrightarrow> digit_char d = 0x30 \<longleftrightarrow> d = 0"
proof
  assume d: "d < 16" "digit_char d = 0x30"
  have "digit_value (digit_char d) = d" using d(1) by (intro digit_value_char) simp
  then show "d = 0" unfolding d(2) by (simp add: digit_value_def)
qed (simp add: digit_char_def)

lemma hex_digits_shown: "n < 16 ^ k \<Longrightarrow> dropWhile (\<lambda>ch. ch = 0x30) (hex_digits k n) = (if n = 0 then [] else digits 16 n)"
proof (induction k arbitrary: n)
  case (Suc k)
  have "n div 16 < 16 ^ k" using Suc.prems by (simp add: less_mult_imp_div_less mult.commute)
  then have ih: "dropWhile (\<lambda>ch. ch = 0x30) (hex_digits k (n div 16)) = (if n div 16 = 0 then [] else digits 16 (n div 16))"
    by (rule Suc.IH)
  show ?case
  proof (cases "n div 16 = 0")
    case True
    then have a: "\<forall>x \<in> set (hex_digits k (n div 16)). x = 0x30" and l: "n < 16" using ih by (simp_all add: div_eq_0_iff)
    have "dropWhile (\<lambda>ch. ch = 0x30) (hex_digits k (n div 16) @ [digit_char (n mod 16)]) = dropWhile (\<lambda>ch. ch = 0x30) [digit_char (n mod 16)]"
      by (rule dropWhile_append2) (use a in blast)
    then show ?thesis using l digit_char_zero [of n] by (subst digits.simps) simp
  next
    case False
    then have "\<not> (\<forall>x \<in> set (hex_digits k (n div 16)). x = 0x30)"
      using ih length_digits_pos [of 16 "n div 16"] unfolding dropWhile_eq_Nil_conv [symmetric] by (simp only: False if_False not_False_eq_True)
    then obtain x where x: "x \<in> set (hex_digits k (n div 16))" "x \<noteq> 0x30" by blast
    have "\<not> n < 16" using False by (auto simp: div_eq_0_iff)
    then have dg: "digits 16 n = digits 16 (n div 16) @ [digit_char (n mod 16)]" by (subst digits.simps) simp
    have "dropWhile (\<lambda>ch. ch = 0x30) (hex_digits k (n div 16) @ [digit_char (n mod 16)])
        = dropWhile (\<lambda>ch. ch = 0x30) (hex_digits k (n div 16)) @ [digit_char (n mod 16)]"
      by (rule dropWhile_append1 [OF x(1)]) (rule x(2))
    moreover have "n \<noteq> 0" using False by auto
    ultimately show ?thesis unfolding ih dg using False by simp
  qed
qed simp

lemma hex_digits_map: "hex_digits k n = map (\<lambda>i. digit_char (n div 16 ^ (k - 1 - i) mod 16)) [0..<k]"
proof (induction k arbitrary: n)
  case (Suc k)
  have "map (\<lambda>i. digit_char (n div 16 ^ (Suc k - 1 - i) mod 16)) [0..<k] = map (\<lambda>i. digit_char (n div 16 div 16 ^ (k - 1 - i) mod 16)) [0..<k]"
  proof (rule map_cong [OF refl])
    fix i assume "i \<in> set [0..<k]"
    then have "Suc k - 1 - i = Suc (k - 1 - i)" by auto
    then show "digit_char (n div 16 ^ (Suc k - 1 - i) mod 16) = digit_char (n div 16 div 16 ^ (k - 1 - i) mod 16)"
      by (simp add: div_mult2_eq)
  qed
  then show ?case using Suc.IH [of "n div 16"] by simp
qed simp

lemma hex_digit_char:
  fixes d :: u32
  assumes "unat d < 16"
  shows "(if d > 9 then ucast (d - 10) + 0x41 else ucast d + 0x30) = digit_char (unat d)"
proof -
  have "\<forall>n \<in> set [0..<16]. (if (of_nat n :: u32) > 9 then ucast ((of_nat n :: u32) - 10) + 0x41 else ucast (of_nat n :: u32) + 0x30) = digit_char n"
    by code_simp
  moreover have "of_nat (unat d) = d" "unat d \<in> set [0..<16]" using assms by simp_all
  ultimately show ?thesis by metis
qed

lemma put_int_digits: "put_int num c = c\<lparr>screen := screen c @ digits 16 (unat num)\<rparr>"
proof -
  have d: "(let d = drop_bit (4 * (7 - i)) num AND 0xf in if d > 9 then ucast (d - 10) + 0x41 else ucast d + 0x30)
      = digit_char (unat num div 16 ^ (8 - 1 - i) mod 16)" for i
  proof -
    let ?d = "drop_bit (4 * (7 - i)) num AND 0xf"
    have m: "(0xf :: u32) = mask 4" by (simp add: mask_eq_exp_minus_1)
    have "unat ?d = unat (drop_bit (4 * (7 - i)) num) mod 16"
      unfolding m by (simp add: unsigned_take_bit_eq flip: take_bit_eq_mask) (simp add: take_bit_eq_mod)
    moreover have "unat (drop_bit (4 * (7 - i)) num) = drop_bit (4 * (7 - i)) (unat num)"
      by (rule bit_eqI) (auto simp: bit_unsigned_iff bit_drop_bit_eq dest: bit_imp_le_length)
    ultimately have u: "unat ?d = unat num div 16 ^ (7 - i) mod 16"
      by (simp only: drop_bit_eq_div power_mult) simp
    then have "unat ?d < 16" by simp
    from hex_digit_char [OF this] show ?thesis by (simp only: Let_def u) simp
  qed
  have l: "unat num < 16 ^ 8" using unat_u32_less [of num] by simp
  have z: "digits 16 0 = [0x30]" by (subst digits.simps) (simp add: digit_char_def)
  have p: "put_int num c = (let shown = dropWhile (\<lambda>ch. ch = 0x30) (hex_digits 8 (unat num)) in
      c\<lparr>screen := screen c @ (if shown = [] then [0x30] else shown)\<rparr>)"
    unfolding put_int_def hex_digits_map Let_def d [unfolded Let_def] by (rule refl)
  show ?thesis
    unfolding p hex_digits_shown [OF l] using z length_digits_pos [of 16 "unat num"] by (cases "unat num = 0") simp_all
qed

lemma panic_spin_reports:
  assumes "cstr m filename fs" "cstr m func gs" "cstr m cond cs"
  shows "panic_spin m filename line func cond c k = Inr (c\<lparr>screen := screen c @ map of_char (replicate 3 (CHR 0x0A) @ ''!!!kernel panic!!!'' @ [CHR 0x0A])
       @ map of_char ''filename:'' @ fs @ map of_char (CHR 0x0A # ''line:0x'') @ digits 16 (unat line) @ map of_char (CHR 0x0A # ''function:'') @ gs
       @ map of_char (CHR 0x0A # ''condition:'') @ cs @ [0x0A]\<rparr>, k\<lparr>intr := INTR_OFF\<rparr>)"
  by (simp add: panic_spin_def Let_def put_str_cstr [OF assms(1)] put_str_cstr [OF assms(2)] put_str_cstr [OF assms(3)] lit_def put_int_digits of_loop_def)

section \<open>Properties\<close>

text \<open>C28: vsprintf on a format it knows, apart in memory from what it reads: it returns, the buffer holds the
  text the format denotes and no byte beyond the one after it is touched. A NUL follows only if the byte
  was 0 or a string ended there: without %s the byte keeps what it held, so only on a cleared buffer is
  the result a C string and the length returned its length.\<close>
theorem vsprintf_renders:
  assumes f: "render strs fs args = Some out" "cstr m fmt fs" "region fmt (Suc (length fs)) \<subseteq> P"
    and a: "args_at m P ap args" "strings_at m P strs"
    and b: "region str (Suc (length out)) \<inter> P = {}" "0 \<in> P" "length out < 4294967295"
  defines "e \<equiv> str + of_nat (length out)"
  shows "\<exists>m'. vsprintf_loop m str fmt ap = Some (Inr (m', e))
     \<and> (\<forall>i < length out. m' (str + of_nat i) = out ! i)
     \<and> (\<forall>a. a \<notin> region str (Suc (length out)) \<longrightarrow> m' a = m a)
     \<and> (\<not> has_string fs \<longrightarrow> m' e = m e)
     \<and> (m e = 0 \<and> 0 \<notin> set out \<longrightarrow> vsprintf m str fmt ap = Inr (of_nat (length out), m') \<and> cstr m' str out)"
proof -
  obtain m' where m': "vsprintf_loop m str fmt ap = Some (Inr (m', e))" "written m str out (has_string fs) m'"
    using vsprintf_loop_renders [OF f a b(1,2)] by (auto simp: e_def)
  have "str \<noteq> NULL" using b(1,2) by (auto simp: region_Suc)
  then have t: "m e = 0 \<and> 0 \<notin> set out \<longrightarrow> vsprintf m str fmt ap = Inr (of_nat (length out), m') \<and> cstr m' str out"
    using vsprintf_terminated [OF m'(1) [unfolded e_def] m'(2) b(3)] by (auto simp: e_def)
  have z: "\<not> has_string fs \<longrightarrow> m' e = m e" using written_reads(3) [OF m'(2) b(3)] by (auto simp: e_def)
  have i: "\<forall>i < length out. m' (str + of_nat i) = out ! i" using written_reads(1) [OF m'(2) b(3)] by blast
  have o: "\<forall>a. a \<notin> region str (Suc (length out)) \<longrightarrow> m' a = m a" using written_reads(2) [OF m'(2) b(3)] by blast
  show ?thesis using m'(1) i o z t by blast
qed

lemma vsprintf_renders_witness:
  "\<exists>m'. vsprintf demo_call 0x4000 0x1000 0x2000 = Inr (4, m') \<and> cstr m' 0x4000 [0x37, 0x3d, 0x6f, 0x6b]"
proof -
  have "length [0x37, 0x3d, 0x6f, 0x6b :: u8] < 4294967295" by simp
  note v = vsprintf_renders [OF demo_call_ok(1-5,7,6) this]
  have "demo_call 0x4004 = 0" by (simp add: demo_call_def)
  then show ?thesis using v by auto
qed

text \<open>printk on a free console prints the text its format denotes, when that has fewer than 1024
  characters, and gives the console back free; it writes no memory but its own buffer.\<close>
theorem printk_prints:
  assumes f: "render strs fs args = Some out" "cstr m fmt fs" "region fmt (Suc (length fs)) \<subseteq> P"
    and a: "args_at m P ap args" "strings_at m P strs"
    and b: "region buf 1024 \<inter> P = {}" "0 \<in> P" "length out < 1024" "0 \<notin> set out"
    and c: "console_lock c = lock_init" "running_thread k \<noteq> NULL"
  shows "\<exists>m'. printk m buf fmt ap c k = Inr (m', c\<lparr>screen := screen c @ out\<rparr>, k)
     \<and> (\<forall>a. a \<notin> region buf 1024 \<longrightarrow> m' a = m a)"
proof -
  obtain m' where "vsprintf (memset_loop m buf 0 1024) buf fmt ap = Inr (of_nat (length out), m')" "cstr m' buf out"
    "\<forall>a. a \<notin> region buf 1024 \<longrightarrow> m' a = m a"
    using vsprintf_cleared [OF f a b] by blast
  then show ?thesis using console_put_str_free [OF _ c] by (simp add: printk_def Let_def)
qed

lemma printk_prints_witness:
  "\<exists>m'. printk demo_call 0x4000 0x1000 0x2000 (console_init []) demo_threads
     = Inr (m', console_init [0x37, 0x3d, 0x6f, 0x6b], demo_threads)"
proof -
  have "region 0x4000 1024 \<inter> demo_area = {}"
  proof -
    have "\<not> 0x4000 + of_nat i < (0x4000 :: addr)" if "i < 1024" for i
    proof -
      have "unat (0x4000 + of_nat i :: addr) = 0x4000 + i" using that by (subst unat_add_u32) (simp_all add: unat_of_nat_u32)
      then show ?thesis by (simp add: word_less_nat_alt)
    qed
    then show ?thesis by (auto simp: region_def demo_area_def)
  qed
  moreover have "length [0x37, 0x3d, 0x6f, 0x6b :: u8] < 1024" "0 \<notin> set [0x37, 0x3d, 0x6f, 0x6b :: u8]"
    "console_lock (console_init []) = lock_init" "running_thread demo_threads \<noteq> NULL"
    by (simp_all add: console_init_def demo_threads_def)
  ultimately show ?thesis
    using printk_prints [OF demo_call_ok(1-5) _ demo_call_ok(6), of "0x4000" "console_init []" demo_threads]
    by (auto simp: console_init_def)
qed

end
