(* ===== verification/Ide.thy ===== *)
theory Ide
  imports Clock Sync Cstring
begin

text \<open>
  device/ide.c: the driver of the two ATA channels. The device behind the ports is not code of the
  kernel: it is the parameter \<open>P :: 'd ports\<close>, functions on a device state, and \<open>ata_behaves\<close>
  states what the ATA standard says of the registers the driver uses: after a command the device is busy
  for as long as it likes, then it interrupts and moves one sector of 512 bytes, may be busy again before
  it moves the next, and so on. The driver takes all sectors of a command in one piece without looking at
  the status between them; \<open>no_pause\<close> is what it relies on for more than one sector, and \<open>ready_to_write\<close>
  what it relies on when it writes. The driver's state is the channel, the device, the threads and the
  memory the sectors are copied to.
  A thread that waits for the disk is parked by sema_down and woken by intr_hd_handler; where the
  driver waits, the model lets the interrupt come in before the test of the semaphore, and
  disk_wait_wakes shows that it ends the same when it comes in after the thread is parked. The interrupts
  of the later sectors of a command find expecting_intr false, and the handler does nothing.
\<close>

unbundle bit_operations_syntax

section \<open>Registers and commands\<close>

text \<open>p_irq is the device working on up to its next interrupt.\<close>

record 'd ports =
  p_out :: "u16 \<Rightarrow> u8 \<Rightarrow> 'd \<Rightarrow> 'd"
  p_in :: "u16 \<Rightarrow> 'd \<Rightarrow> u8 \<times> 'd"
  p_inw :: "u16 \<Rightarrow> 'd \<Rightarrow> u16 \<times> 'd"
  p_outw :: "u16 \<Rightarrow> u16 \<Rightarrow> 'd \<Rightarrow> 'd"
  p_irq :: "'d \<Rightarrow> 'd"

text \<open>insw and outsw of lib/io.h: rep moves word by word, the low byte first in memory.\<close>

fun insw :: "'d ports \<Rightarrow> u16 \<Rightarrow> nat \<Rightarrow> 'd \<Rightarrow> u8 list \<times> 'd" where
  "insw P port 0 d = ([], d)"
| "insw P port (Suc word_cnt) d =
     (let (w, d) = p_inw P port d; (bs, d) = insw P port word_cnt d in (ucast w # ucast (drop_bit 8 w) # bs, d))"

definition word_of :: "u8 \<Rightarrow> u8 \<Rightarrow> u16" where
  "word_of lo hi = ucast lo OR push_bit 8 (ucast hi)"

fun outsw :: "'d ports \<Rightarrow> u16 \<Rightarrow> u8 list \<Rightarrow> 'd \<Rightarrow> 'd" where
  "outsw P port (lo # hi # bs) d = outsw P port bs (p_outw P port (word_of lo hi) d)"
| "outsw P port bs d = d"

record ide_channel =
  port_base :: u16
  irq_no :: u8
  chan_lock :: lock
  expecting_intr :: bool
  disk_done :: semaphore

definition reg_data :: "ide_channel \<Rightarrow> u16" where "reg_data ch = port_base ch + 0"
definition reg_sect_cnt :: "ide_channel \<Rightarrow> u16" where "reg_sect_cnt ch = port_base ch + 2"
definition reg_lba_l :: "ide_channel \<Rightarrow> u16" where "reg_lba_l ch = port_base ch + 3"
definition reg_lba_m :: "ide_channel \<Rightarrow> u16" where "reg_lba_m ch = port_base ch + 4"
definition reg_lba_h :: "ide_channel \<Rightarrow> u16" where "reg_lba_h ch = port_base ch + 5"
definition reg_dev :: "ide_channel \<Rightarrow> u16" where "reg_dev ch = port_base ch + 6"
definition reg_status :: "ide_channel \<Rightarrow> u16" where "reg_status ch = port_base ch + 7"
definition reg_cmd :: "ide_channel \<Rightarrow> u16" where "reg_cmd ch = reg_status ch"

definition BIT_ALT_STAT_BSY :: u8 where "BIT_ALT_STAT_BSY = 0x80"
definition BIT_ALT_STAT_DRQ :: u8 where "BIT_ALT_STAT_DRQ = 0x8"
definition BIT_DEV_MBS :: u8 where "BIT_DEV_MBS = 0xa0"
definition BIT_DEV_LBA :: u8 where "BIT_DEV_LBA = 0x40"
definition BIT_DEV_DEV :: u8 where "BIT_DEV_DEV = 0x10"
definition CMD_READ_SECTOR :: u8 where "CMD_READ_SECTOR = 0x20"
definition CMD_WRITE_SECTOR :: u8 where "CMD_WRITE_SECTOR = 0x30"
definition CMD_IDENTIFY :: u8 where "CMD_IDENTIFY = 0xec"
definition max_lba :: u32 where "max_lba = 80 * 1024 * 1024 div 512 - 1"

record 'd ide =
  channel :: ide_channel
  hw :: 'd
  threads :: kthreads
  ram :: mem

definition select_disk :: "'d ports \<Rightarrow> ide_channel \<Rightarrow> u8 \<Rightarrow> 'd \<Rightarrow> 'd" where
  "select_disk P ch dev_no d =
     (let reg_device = BIT_DEV_MBS OR BIT_DEV_LBA;
          reg_device = (if dev_no = 1 then reg_device OR BIT_DEV_DEV else reg_device)
      in p_out P (reg_dev ch) reg_device d)"

definition select_sector :: "'d ports \<Rightarrow> ide_channel \<Rightarrow> u8 \<Rightarrow> u32 \<Rightarrow> u8 \<Rightarrow> 'd \<Rightarrow> 'd res" where
  "select_sector P ch dev_no lba sec_cnt d =
     (if \<not> lba \<le> max_lba then Inl (Assertion ''lba <= max_lba'')
      else let d = p_out P (reg_sect_cnt ch) sec_cnt d;
               d = p_out P (reg_lba_l ch) (ucast lba) d;
               d = p_out P (reg_lba_m ch) (ucast (drop_bit 8 lba)) d;
               d = p_out P (reg_lba_h ch) (ucast (drop_bit 16 lba)) d
           in Inr (p_out P (reg_dev ch) (ucast (ucast (BIT_DEV_MBS OR BIT_DEV_LBA
                      OR (if dev_no = 1 then BIT_DEV_DEV else 0)) OR drop_bit 24 lba)) d))"

definition cmd_out :: "'d ports \<Rightarrow> u8 \<Rightarrow> 'd ide \<Rightarrow> 'd ide" where
  "cmd_out P cmd s =
     (let ch = (channel s)\<lparr>expecting_intr := True\<rparr>
      in s\<lparr>channel := ch, hw := p_out P (reg_cmd ch) cmd (hw s)\<rparr>)"

definition transfer_bytes :: "u8 \<Rightarrow> u32" where
  "transfer_bytes sec_cnt = (if sec_cnt = 0 then 256 * 512 else ucast sec_cnt * 512)"

definition read_from_sector :: "'d ports \<Rightarrow> addr \<Rightarrow> u8 \<Rightarrow> 'd ide \<Rightarrow> 'd ide" where
  "read_from_sector P buf sec_cnt s =
     (let byte = transfer_bytes sec_cnt;
          (bs, d) = insw P (reg_data (channel s)) (unat (byte div 2)) (hw s)
      in s\<lparr>hw := d, ram := poke (ram s) buf bs\<rparr>)"

definition peek :: "mem \<Rightarrow> addr \<Rightarrow> nat \<Rightarrow> u8 list" where
  "peek m a n = map (\<lambda>i. m (a + of_nat i)) [0..<n]"

definition write_to_sector :: "'d ports \<Rightarrow> addr \<Rightarrow> u8 \<Rightarrow> 'd ide \<Rightarrow> 'd ide" where
  "write_to_sector P buf sec_cnt s =
     (let byte = transfer_bytes sec_cnt
      in s\<lparr>hw := outsw P (reg_data (channel s)) (peek (ram s) buf (2 * unat (byte div 2))) (hw s)\<rparr>)"

section \<open>Waiting for the device\<close>

text \<open>
  The condition of the loop reads time_limit -= (10 >= 0): the limit of 30000 goes down by one, so the
  body runs at most 29999 times. A sleep that gives up the processor ends the call, as mtime_sleep
  does not come back (theory Clock).
\<close>

fun busy_wait_loop :: "'d ports \<Rightarrow> nat \<Rightarrow> 'd ide \<Rightarrow> (bool \<times> 'd ide) res" where
  "busy_wait_loop P 0 s = Inr (False, s)"
| "busy_wait_loop P (Suc n) s =
     (let (st, d) = p_in P (reg_status (channel s)) (hw s) in
      if st AND BIT_ALT_STAT_BSY = 0 then
        let (st, d) = p_in P (reg_status (channel s)) d
        in Inr (st AND BIT_ALT_STAT_DRQ \<noteq> 0, s\<lparr>hw := d\<rparr>)
      else bindR (mtime_sleep 10 (threads s)) (\<lambda>(woke, k).
        if \<not> woke then Inl Blocked
        else busy_wait_loop P n (s\<lparr>hw := d, threads := k\<rparr>)))"

definition busy_wait :: "'d ports \<Rightarrow> 'd ide \<Rightarrow> (bool \<times> 'd ide) res" where
  "busy_wait P s = busy_wait_loop P 29999 s"

text \<open>The handler, for the channel that the interrupt number names.\<close>

definition intr_hd_handler :: "'d ports \<Rightarrow> u8 \<Rightarrow> 'd ide \<Rightarrow> 'd ide res" where
  "intr_hd_handler P irq s =
     (if \<not> (irq = 0x2e \<or> irq = 0x2f) then Inl (Assertion ''irq_no == 0x2e || irq_no == 0x2f'')
      else if irq_no (channel s) \<noteq> irq then Inl (Assertion ''channel->irq_no == irq_no'')
      else if expecting_intr (channel s) then
        bindR (sema_up (disk_done (channel s)) (threads s)) (\<lambda>(sem, k).
          Inr (s\<lparr>channel := (channel s)\<lparr>expecting_intr := False, disk_done := sem\<rparr>,
                 threads := k, hw := snd (p_in P (reg_status (channel s)) (hw s))\<rparr>))
      else Inr s)"

text \<open>sema_down(&disk_done): one pass, and the pass that the interrupt has made successful.\<close>

definition disk_down :: "'d ide \<Rightarrow> (bool \<times> 'd ide) res" where
  "disk_down s = bindR (sema_down (disk_done (channel s)) (threads s)) (\<lambda>(taken, sem, k).
     Inr (taken, s\<lparr>channel := (channel s)\<lparr>disk_done := sem\<rparr>, threads := k\<rparr>))"

definition wait_disk :: "'d ports \<Rightarrow> 'd ide \<Rightarrow> 'd ide res" where
  "wait_disk P s = bindR (intr_hd_handler P (irq_no (channel s)) (s\<lparr>hw := p_irq P (hw s)\<rparr>)) (\<lambda>s.
     bindR (disk_down s) (\<lambda>(taken, s). if taken then Inr s else Inl Blocked))"

section \<open>Reading and writing\<close>

definition channel_lock :: "'d ide \<Rightarrow> 'd ide res" where
  "channel_lock s = bindR (lock_acquire (chan_lock (channel s)) (threads s)) (\<lambda>(l, k).
     Inr (s\<lparr>channel := (channel s)\<lparr>chan_lock := l\<rparr>, threads := k\<rparr>))"

definition channel_unlock :: "'d ide \<Rightarrow> 'd ide res" where
  "channel_unlock s = bindR (lock_release (chan_lock (channel s)) (threads s)) (\<lambda>(l, k).
     Inr (s\<lparr>channel := (channel s)\<lparr>chan_lock := l\<rparr>, threads := k\<rparr>))"

definition next_secs_op :: "u8 \<Rightarrow> u32 \<Rightarrow> u32" where
  "next_secs_op sec_cnt secs_done =
     (if ucast sec_cnt - secs_done \<ge> 256 then 256 else ucast sec_cnt - secs_done)"

text \<open>The body of the loop of ide_read, and of ide_write.\<close>

definition read_step :: "'d ports \<Rightarrow> u8 \<Rightarrow> u32 \<Rightarrow> addr \<Rightarrow> u32 \<Rightarrow> u32 \<Rightarrow> 'd ide \<Rightarrow> 'd ide res" where
  "read_step P dev_no lba buf secs_done secs_op s =
     bindR (select_sector P (channel s) dev_no (lba + secs_done) (ucast secs_op) (hw s)) (\<lambda>d.
     bindR (wait_disk P (cmd_out P CMD_READ_SECTOR (s\<lparr>hw := d\<rparr>))) (\<lambda>s.
     bindR (busy_wait P s) (\<lambda>(ready, s).
       if \<not> ready then Inl (Panicked ''read sector failed'')
       else Inr (read_from_sector P (buf + secs_done * 512) (ucast secs_op) s))))"

definition write_step :: "'d ports \<Rightarrow> u8 \<Rightarrow> u32 \<Rightarrow> addr \<Rightarrow> u32 \<Rightarrow> u32 \<Rightarrow> 'd ide \<Rightarrow> 'd ide res" where
  "write_step P dev_no lba buf secs_done secs_op s =
     bindR (select_sector P (channel s) dev_no (lba + secs_done) (ucast secs_op) (hw s)) (\<lambda>d.
     bindR (busy_wait P (cmd_out P CMD_WRITE_SECTOR (s\<lparr>hw := d\<rparr>))) (\<lambda>(ready, s).
       if \<not> ready then Inl (Panicked ''write sector failed'')
       else wait_disk P (write_to_sector P (buf + secs_done * 512) (ucast secs_op) s)))"

function sector_loop :: "(u32 \<Rightarrow> u32 \<Rightarrow> 's \<Rightarrow> 's res) \<Rightarrow> u8 \<Rightarrow> u32 \<Rightarrow> 's \<Rightarrow> 's res" where
  "sector_loop step sec_cnt secs_done s =
     (if secs_done < ucast sec_cnt then
        let secs_op = next_secs_op sec_cnt secs_done in
        case step secs_done secs_op s of
          Inl e \<Rightarrow> Inl e
        | Inr s \<Rightarrow> sector_loop step sec_cnt (secs_done + secs_op) s
      else Inr s)"
  by pat_completeness auto
termination
proof (relation "measure (\<lambda>(_, sec_cnt, secs_done, _). unat (ucast sec_cnt :: u32) - unat secs_done)")
  fix step :: "u32 \<Rightarrow> u32 \<Rightarrow> 's \<Rightarrow> 's res" and sec_cnt :: u8 and secs_done secs_op :: u32 and s s' :: 's
  assume l: "secs_done < ucast sec_cnt" and o: "secs_op = next_secs_op sec_cnt secs_done"
  have c: "unat (ucast sec_cnt :: u32) < 256"
    by (simp add: unsigned_ucast_eq take_bit_nat_eq_self unat_u8_less unsigned_less [THEN order_less_le_trans])
  have d: "unat (ucast sec_cnt - secs_done :: u32) = unat (ucast sec_cnt :: u32) - unat secs_done"
    using l by (intro unat_sub_u32) simp
  have "secs_op = ucast sec_cnt - secs_done"
    using o c d by (auto simp: next_secs_op_def word_le_nat_alt)
  then show "((step, sec_cnt, secs_done + secs_op, s'), (step, sec_cnt, secs_done, s))
    \<in> measure (\<lambda>(_, sec_cnt, secs_done, _). unat (ucast sec_cnt :: u32) - unat secs_done)"
    using l by (simp add: word_less_nat_alt)
qed simp

declare sector_loop.simps [simp del]

definition ide_read :: "'d ports \<Rightarrow> u8 \<Rightarrow> u32 \<Rightarrow> addr \<Rightarrow> u8 \<Rightarrow> 'd ide \<Rightarrow> 'd ide res" where
  "ide_read P dev_no lba buf sec_cnt s =
     (if \<not> lba \<le> max_lba then Inl (Assertion ''lba <= max_lba'')
      else if \<not> sec_cnt > 0 then Inl (Assertion ''sec_cnt > 0'')
      else bindR (channel_lock s) (\<lambda>s.
           let s = s\<lparr>hw := select_disk P (channel s) dev_no (hw s)\<rparr> in
           bindR (sector_loop (read_step P dev_no lba buf) sec_cnt 0 s) channel_unlock))"

definition ide_write :: "'d ports \<Rightarrow> u8 \<Rightarrow> u32 \<Rightarrow> addr \<Rightarrow> u8 \<Rightarrow> 'd ide \<Rightarrow> 'd ide res" where
  "ide_write P dev_no lba buf sec_cnt s =
     (if \<not> lba \<le> max_lba then Inl (Assertion ''lba <= max_lba'')
      else if \<not> sec_cnt > 0 then Inl (Assertion ''sec_cnt > 0'')
      else bindR (channel_lock s) (\<lambda>s.
           let s = s\<lparr>hw := select_disk P (channel s) dev_no (hw s)\<rparr> in
           bindR (sector_loop (write_step P dev_no lba buf) sec_cnt 0 s) channel_unlock))"

section \<open>The ATA device\<close>

text \<open>The registers the driver writes, whether the device is busy, the bytes still to be read, the bytes of the
  sector being written, the sector they go to and the number of sectors still to come, what the master and
  the slave disk hold, and what they say of themselves.\<close>

record ata =
  r_cnt :: u8
  r_l :: u8
  r_m :: u8
  r_h :: u8
  r_dev :: u8
  bsy :: bool
  data_in :: "u8 list"
  data_out :: "u8 list"
  writing :: "(nat \<times> nat) option"
  disks :: "bool \<Rightarrow> nat \<Rightarrow> u8 list"
  about :: "bool \<Rightarrow> u8 list"

text \<open>No command is being executed.\<close>

definition ata_idle :: "ata \<Rightarrow> bool" where
  "ata_idle v \<longleftrightarrow> \<not> bsy v \<and> data_in v = [] \<and> data_out v = [] \<and> writing v = None"

definition ata_lba :: "ata \<Rightarrow> nat" where
  "ata_lba v = unat (r_l v) + 256 * unat (r_m v) + 65536 * unat (r_h v) + 16777216 * unat (r_dev v AND 0x0f)"

definition ata_count :: "ata \<Rightarrow> nat" where
  "ata_count v = (if r_cnt v = 0 then 256 else unat (r_cnt v))"

definition ata_slave :: "ata \<Rightarrow> bool" where
  "ata_slave v \<longleftrightarrow> r_dev v AND 0x10 \<noteq> 0"

definition sectors :: "(nat \<Rightarrow> u8 list) \<Rightarrow> nat \<Rightarrow> nat \<Rightarrow> u8 list" where
  "sectors dk l n = concat (map dk [l..<l + n])"

definition put_sectors :: "(nat \<Rightarrow> u8 list) \<Rightarrow> nat \<Rightarrow> u8 list \<Rightarrow> nat \<Rightarrow> u8 list" where
  "put_sectors dk l bs k =
     (if l \<le> k \<and> k < l + length bs div 512 then take 512 (drop (512 * (k - l)) bs) else dk k)"

text \<open>A word arrives for sector l, the first of n still to come.\<close>

definition word_written :: "u16 \<Rightarrow> nat \<Rightarrow> nat \<Rightarrow> ata \<Rightarrow> ata" where
  "word_written w l n v = (let bs = data_out v @ [ucast w, ucast (drop_bit 8 w)] in
     if length bs < 512 then v\<lparr>data_out := bs\<rparr>
     else v\<lparr>data_out := [], writing := (if n = 1 then None else Some (l + 1, n - 1)),
            disks := (disks v)(ata_slave v := (disks v (ata_slave v))(l := bs))\<rparr>)"

text \<open>
  What the standard says of a device at the ports from base on, PIO transfers. Writing a register of an idle
  device sets it. A command makes the device busy, for a time that is not said; the read command is for
  the named sectors, the identify command for the 512 bytes the disk says of itself, the write command for
  the data that follow. The interrupt comes when the device is no longer busy. Reading the status shows
  whether it is busy and, if not, whether data are to be moved; a busy device may be ready afterwards.
  While it is not busy a read of the data port gives the next word, and a write takes it; after the last
  word of a sector the device may be busy again, inside a sector it may not, and it does not become busy
  after the last word of a command that reads.
\<close>

definition ata_behaves :: "'d ports \<Rightarrow> u16 \<Rightarrow> ('d \<Rightarrow> ata) \<Rightarrow> bool" where
  "ata_behaves P base view \<longleftrightarrow>
     (\<forall>d b. ata_idle (view d) \<longrightarrow> view (p_out P (base + 2) b d) = (view d)\<lparr>r_cnt := b\<rparr>
         \<and> view (p_out P (base + 3) b d) = (view d)\<lparr>r_l := b\<rparr>
         \<and> view (p_out P (base + 4) b d) = (view d)\<lparr>r_m := b\<rparr>
         \<and> view (p_out P (base + 5) b d) = (view d)\<lparr>r_h := b\<rparr>
         \<and> view (p_out P (base + 6) b d) = (view d)\<lparr>r_dev := b\<rparr>)
     \<and> (\<forall>d. ata_idle (view d) \<longrightarrow> (\<exists>b. view (p_out P (base + 7) 0x20 d)
         = (view d)\<lparr>data_in := sectors (disks (view d) (ata_slave (view d))) (ata_lba (view d)) (ata_count (view d)), bsy := b\<rparr>))
     \<and> (\<forall>d. ata_idle (view d) \<longrightarrow> (\<exists>b. view (p_out P (base + 7) 0xec d) = (view d)\<lparr>data_in := about (view d) (ata_slave (view d)), bsy := b\<rparr>))
     \<and> (\<forall>d. ata_idle (view d) \<longrightarrow> (\<exists>b. view (p_out P (base + 7) 0x30 d) = (view d)\<lparr>writing := Some (ata_lba (view d), ata_count (view d)), bsy := b\<rparr>))
     \<and> (\<forall>d. view (p_irq P d) = (view d)\<lparr>bsy := False\<rparr>)
     \<and> (\<forall>d. (fst (p_in P (base + 7) d) AND 0x80 \<noteq> 0 \<longleftrightarrow> bsy (view d))
         \<and> (\<not> bsy (view d) \<longrightarrow> (fst (p_in P (base + 7) d) AND 0x08 \<noteq> 0 \<longleftrightarrow> data_in (view d) \<noteq> [] \<or> writing (view d) \<noteq> None))
         \<and> (view (snd (p_in P (base + 7) d)) = view d \<or> view (snd (p_in P (base + 7) d)) = (view d)\<lparr>bsy := False\<rparr>))
     \<and> (\<forall>d x y bs. \<not> bsy (view d) \<and> data_in (view d) = x # y # bs \<longrightarrow>
           ucast (fst (p_inw P base d)) = x \<and> ucast (drop_bit 8 (fst (p_inw P base d))) = y
         \<and> (view (snd (p_inw P base d)) = (view d)\<lparr>data_in := bs\<rparr>
            \<or> bs \<noteq> [] \<and> length bs mod 512 = 0 \<and> view (snd (p_inw P base d)) = (view d)\<lparr>data_in := bs, bsy := True\<rparr>))
     \<and> (\<forall>d w l n. \<not> bsy (view d) \<and> writing (view d) = Some (l, n) \<longrightarrow>
           view (p_outw P base w d) = word_written w l n (view d)
         \<or> 512 \<le> length (data_out (view d)) + 2 \<and> view (p_outw P base w d) = (word_written w l n (view d))\<lparr>bsy := True\<rparr>)"

text \<open>What the standard leaves open. A device is ready for the data of a write command at once; and it goes from
  one sector to the next without a pause in which it is busy, as an emulator may.\<close>

definition ready_to_write :: "'d ports \<Rightarrow> u16 \<Rightarrow> ('d \<Rightarrow> ata) \<Rightarrow> bool" where
  "ready_to_write P base view \<longleftrightarrow> (\<forall>d. ata_idle (view d) \<longrightarrow> \<not> bsy (view (p_out P (base + 7) 0x30 d)))"

definition no_pause :: "'d ports \<Rightarrow> u16 \<Rightarrow> ('d \<Rightarrow> ata) \<Rightarrow> bool" where
  "no_pause P base view \<longleftrightarrow>
     (\<forall>d. \<not> bsy (view d) \<and> 2 \<le> length (data_in (view d)) \<longrightarrow> \<not> bsy (view (snd (p_inw P base d))))
   \<and> (\<forall>d w. \<not> bsy (view d) \<and> writing (view d) \<noteq> None \<and> writing (view (p_outw P base w d)) \<noteq> None \<longrightarrow> \<not> bsy (view (p_outw P base w d)))"

lemma idle_upd [simp]:
  "ata_idle (v\<lparr>r_cnt := b\<rparr>) = ata_idle v" "ata_idle (v\<lparr>r_l := b\<rparr>) = ata_idle v" "ata_idle (v\<lparr>r_m := b\<rparr>) = ata_idle v"
  "ata_idle (v\<lparr>r_h := b\<rparr>) = ata_idle v" "ata_idle (v\<lparr>r_dev := b\<rparr>) = ata_idle v"
  by (simp_all add: ata_idle_def)

lemma ata_registers:
  assumes "ata_behaves P base view" "ata_idle (view d)"
  shows "view (p_out P (base + 2) b d) = (view d)\<lparr>r_cnt := b\<rparr>" "view (p_out P (base + 3) b d) = (view d)\<lparr>r_l := b\<rparr>"
    "view (p_out P (base + 4) b d) = (view d)\<lparr>r_m := b\<rparr>" "view (p_out P (base + 5) b d) = (view d)\<lparr>r_h := b\<rparr>"
    "view (p_out P (base + 6) b d) = (view d)\<lparr>r_dev := b\<rparr>"
  using assms unfolding ata_behaves_def by blast+

lemma ata_commands:
  assumes "ata_behaves P base view" "ata_idle (view d)"
  shows "\<exists>b. view (p_out P (base + 7) 0x20 d)
         = (view d)\<lparr>data_in := sectors (disks (view d) (ata_slave (view d))) (ata_lba (view d)) (ata_count (view d)), bsy := b\<rparr>"
    "\<exists>b. view (p_out P (base + 7) 0xec d) = (view d)\<lparr>data_in := about (view d) (ata_slave (view d)), bsy := b\<rparr>"
    "\<exists>b. view (p_out P (base + 7) 0x30 d) = (view d)\<lparr>writing := Some (ata_lba (view d), ata_count (view d)), bsy := b\<rparr>"
  using assms unfolding ata_behaves_def by blast+

lemma ata_irq: "ata_behaves P base view \<Longrightarrow> view (p_irq P d) = (view d)\<lparr>bsy := False\<rparr>"
  unfolding ata_behaves_def by blast

lemma ata_status:
  assumes "ata_behaves P base view"
  shows "fst (p_in P (base + 7) d) AND 0x80 \<noteq> 0 \<longleftrightarrow> bsy (view d)"
    "\<not> bsy (view d) \<Longrightarrow> fst (p_in P (base + 7) d) AND 0x08 \<noteq> 0 \<longleftrightarrow> data_in (view d) \<noteq> [] \<or> writing (view d) \<noteq> None"
    "\<not> bsy (view d) \<Longrightarrow> view (snd (p_in P (base + 7) d)) = view d"
proof -
  have "view d = (view d)\<lparr>bsy := False\<rparr>" if "\<not> bsy (view d)" using that by (cases "view d") simp
  then show "\<not> bsy (view d) \<Longrightarrow> view (snd (p_in P (base + 7) d)) = view d"
    using assms unfolding ata_behaves_def by metis
qed (use assms in \<open>unfold ata_behaves_def, blast+\<close>)

lemma ata_word_in:
  assumes "ata_behaves P base view" "\<not> bsy (view d)" "data_in (view d) = x # y # bs"
  shows "ucast (fst (p_inw P base d)) = x" "ucast (drop_bit 8 (fst (p_inw P base d))) = y"
    "view (snd (p_inw P base d)) = (view d)\<lparr>data_in := bs\<rparr>
     \<or> bs \<noteq> [] \<and> length bs mod 512 = 0 \<and> view (snd (p_inw P base d)) = (view d)\<lparr>data_in := bs, bsy := True\<rparr>"
  using assms unfolding ata_behaves_def by blast+

lemma ata_word_out:
  assumes "ata_behaves P base view" "\<not> bsy (view d)" "writing (view d) = Some (l, n)"
  shows "view (p_outw P base w d) = word_written w l n (view d)
     \<or> 512 \<le> length (data_out (view d)) + 2 \<and> view (p_outw P base w d) = (word_written w l n (view d))\<lparr>bsy := True\<rparr>"
  using assms unfolding ata_behaves_def by blast

section \<open>Transfers\<close>

text \<open>One sector, or any number from a device that does not pause.\<close>

lemma insw_reads:
  assumes a: "ata_behaves P base view" and p: "no_pause P base view \<or> length (data_in (view d)) \<le> 512"
    and "\<not> bsy (view d)" "2 * n \<le> length (data_in (view d))"
  shows "fst (insw P base n d) = take (2 * n) (data_in (view d))
     \<and> view (snd (insw P base n d)) = (view d)\<lparr>data_in := drop (2 * n) (data_in (view d))\<rparr>"
  using assms(2-4)
proof (induction n arbitrary: d)
  case (Suc n)
  obtain x y bs where v: "data_in (view d) = x # y # bs"
    using Suc.prems(3) by (cases "data_in (view d)"; cases "List.tl (data_in (view d))") auto
  let ?r = "p_inw P base d"
  note W = ata_word_in [OF a Suc.prems(2) v]
  have nb: "view (snd ?r) = (view d)\<lparr>data_in := bs\<rparr>"
  proof (rule ccontr)
    assume c: "view (snd ?r) \<noteq> (view d)\<lparr>data_in := bs\<rparr>"
    then have b: "bs \<noteq> []" "length bs mod 512 = 0" "bsy (view (snd ?r))" using W(3) by auto
    have "\<not> no_pause P base view" using b(3) Suc.prems(2) v by (auto simp: no_pause_def)
    then have "length bs < 512" "0 < length bs" using Suc.prems(1) v b(1) by auto
    then show False using b(2) by simp
  qed
  have "no_pause P base view \<or> length (data_in (view (snd ?r))) \<le> 512" "\<not> bsy (view (snd ?r))" "2 * n \<le> length (data_in (view (snd ?r)))"
    using Suc.prems v by (auto simp: nb)
  from Suc.IH [OF this] show ?case using W(1,2) v by (simp add: nb case_prod_beta Let_def)
qed simp

lemma outsw_append: "length xs = 2 * n \<Longrightarrow> outsw P port (xs @ ys) d = outsw P port ys (outsw P port xs d)"
proof (induction n arbitrary: xs d)
  case (Suc n)
  then obtain a b zs where "xs = a # b # zs" "length zs = 2 * n" by (cases xs; cases "List.tl xs") auto
  then show ?case using Suc.IH by simp
qed simp

lemma word_bytes: "ucast (word_of lo hi) = lo" "ucast (drop_bit 8 (word_of lo hi)) = hi"
  unfolding word_of_def by (rule bit_word_eqI; auto simp: bit_simps dest: bit_imp_le_length)+

lemma outsw_part:
  assumes a: "ata_behaves P base view" and "\<not> bsy (view d)" "writing (view d) = Some (l, n)" "length bs = 2 * k"
    "length (data_out (view d)) + 2 * k < 512"
  shows "view (outsw P base bs d) = (view d)\<lparr>data_out := data_out (view d) @ bs\<rparr>"
  using assms(2-5)
proof (induction k arbitrary: bs d)
  case (Suc k)
  obtain lo hi zs where bs: "bs = lo # hi # zs" "length zs = 2 * k" using Suc.prems(3) by (cases bs; cases "List.tl bs") auto
  let ?w = "word_of lo hi"
  have v: "view (p_outw P base ?w d) = (view d)\<lparr>data_out := data_out (view d) @ [lo, hi]\<rparr>"
    using ata_word_out [OF a Suc.prems(1,2), of ?w] Suc.prems(4) by (auto simp: word_written_def word_bytes Let_def)
  show ?case using Suc.IH [of "p_outw P base ?w d" zs] Suc.prems bs by (simp add: v)
qed simp

lemma outsw_sector:
  assumes a: "ata_behaves P base view" and d: "\<not> bsy (view d)" "writing (view d) = Some (l, n)" "data_out (view d) = []" "length bs = 512"
  defines "v \<equiv> (view d)\<lparr>writing := (if n = 1 then None else Some (l + 1, n - 1)),
     disks := (disks (view d))(ata_slave (view d) := (disks (view d) (ata_slave (view d)))(l := bs))\<rparr>"
  shows "\<exists>b. view (outsw P base bs d) = v\<lparr>bsy := b\<rparr> \<and> (no_pause P base view \<and> n \<noteq> 1 \<longrightarrow> \<not> b)"
proof -
  have two: "\<exists>x y. zs = [x, y]" if "length zs = 2" for zs :: "u8 list"
    using that by (cases zs; cases "List.tl zs") auto
  have "length (drop 510 bs) = 2" using d(4) by simp
  then obtain lo hi where dr: "drop 510 bs = [lo, hi]" using two by blast
  have sp: "take 510 bs @ [lo, hi] = bs" using append_take_drop_id [of 510 bs] unfolding dr .
  let ?w = "word_of lo hi"
  define e where "e = outsw P base (take 510 bs) d"
  have l: "length (take 510 bs) = 2 * 255" using d(4) by simp
  have e: "view e = (view d)\<lparr>data_out := take 510 bs\<rparr>"
    unfolding e_def using outsw_part [OF a d(1,2) l] d(3) by simp
  have o: "outsw P base bs d = p_outw P base ?w e"
    using outsw_append [OF l, of P base "[lo, hi]" d] unfolding sp e_def by simp
  have ww: "word_written ?w l n (view e) = v"
    using d sp by (cases "view d") (simp add: word_written_def e word_bytes Let_def v_def ata_slave_def)
  have ed: "\<not> bsy (view e)" "writing (view e) = Some (l, n)" using d(1,2) by (simp_all add: e)
  have w: "view (p_outw P base ?w e) = v \<or> view (p_outw P base ?w e) = v\<lparr>bsy := True\<rparr>"
    using ata_word_out [OF a ed, of ?w] unfolding ww by blast
  have v0: "v\<lparr>bsy := False\<rparr> = v" using d(1) by (simp add: v_def)
  show ?thesis
  proof (cases "bsy (view (p_outw P base ?w e))")
    case True
    have "bsy v = bsy (view d)" by (simp add: v_def)
    then have "view (p_outw P base ?w e) = v\<lparr>bsy := True\<rparr>" using w True d(1) by auto
    moreover have "\<not> (no_pause P base view \<and> n \<noteq> 1)"
    proof
      assume "no_pause P base view \<and> n \<noteq> 1"
      then have "writing (view (p_outw P base ?w e)) \<noteq> None" using w by (auto simp: v_def)
      then show False using \<open>no_pause P base view \<and> n \<noteq> 1\<close> ed True unfolding no_pause_def by auto
    qed
    ultimately show ?thesis unfolding o by blast
  next
    case False
    then have "view (p_outw P base ?w e) = v\<lparr>bsy := False\<rparr>" using w v0 by auto
    then show ?thesis unfolding o by blast
  qed
qed

lemma put_sectors_first:
  assumes "length bs = 512 * Suc m"
  shows "put_sectors (dk(l := take 512 bs)) (l + 1) (drop 512 bs) = put_sectors dk l bs"
proof
  fix k
  have n: "length bs div 512 = Suc m" "length (drop 512 bs) div 512 = m" using assms by simp_all
  show "put_sectors (dk(l := take 512 bs)) (l + 1) (drop 512 bs) k = put_sectors dk l bs k"
  proof (cases "k = l")
    case False
    have "512 * (k - (l + 1)) + 512 = 512 * (k - l)" if "l + 1 \<le> k" using that by simp
    then show ?thesis using False n by (auto simp: put_sectors_def add.commute)
  qed (simp add: put_sectors_def n)
qed

lemma written_twice:
  "(let w = v\<lparr>writing := x, disks := (disks v)(ata_slave v := A), bsy := b\<rparr>
    in w\<lparr>writing := None, disks := (disks w)(ata_slave w := put_sectors (disks w (ata_slave w)) l bs), bsy := b'\<rparr>)
   = v\<lparr>writing := None, disks := (disks v)(ata_slave v := put_sectors A l bs), bsy := b'\<rparr>"
  by (simp add: Let_def ata_slave_def)

lemma outsw_writes:
  assumes a: "ata_behaves P base view" and "no_pause P base view \<or> n = 1"
    and "\<not> bsy (view d)" "writing (view d) = Some (l, n)" "data_out (view d) = []" "length bs = 512 * n" "0 < n"
  shows "\<exists>b. view (outsw P base bs d) = (view d)\<lparr>writing := None,
     disks := (disks (view d))(ata_slave (view d) := put_sectors (disks (view d) (ata_slave (view d))) l bs), bsy := b\<rparr>"
  using assms(2-7)
proof (induction n arbitrary: l bs d)
  case (Suc n)
  let ?e = "outsw P base (take 512 bs) d"
  have t: "length (take 512 bs) = 512" "length (take 512 bs) = 2 * 256" using Suc.prems(5) by simp_all
  obtain b where e: "view ?e = (view d)\<lparr>writing := (if Suc n = 1 then None else Some (l + 1, n)),
     disks := (disks (view d))(ata_slave (view d) := (disks (view d) (ata_slave (view d)))(l := take 512 bs)), bsy := b\<rparr>"
     "no_pause P base view \<and> Suc n \<noteq> 1 \<longrightarrow> \<not> b"
    using outsw_sector [OF a Suc.prems(2-4) t(1), unfolded diff_Suc_1] by blast
  have o: "outsw P base bs d = outsw P base (drop 512 bs) ?e"
    using outsw_append [OF t(2), of P base "drop 512 bs" d] by simp
  note f = put_sectors_first [OF Suc.prems(5)]
  show ?case
  proof (cases n)
    case 0
    then have "drop 512 bs = []" using Suc.prems(5) by simp
    moreover have "put_sectors (dk(l := take 512 bs)) (l + 1) [] = dk(l := take 512 bs)" for dk
      by (rule ext) (simp add: put_sectors_def)
    ultimately have "put_sectors dk l bs = dk(l := take 512 bs)" for dk using f [of dk l] by simp
    moreover have "outsw P base bs d = ?e" using o \<open>drop 512 bs = []\<close> by simp
    ultimately show ?thesis using e(1) 0 by (intro exI [of _ b]) (simp add: fun_upd_def)
  next
    case (Suc m)
    then have np: "no_pause P base view" using Suc.prems(1) by simp
    have "\<exists>b'. view (outsw P base (drop 512 bs) ?e) = (view ?e)\<lparr>writing := None,
      disks := (disks (view ?e))(ata_slave (view ?e) := put_sectors (disks (view ?e) (ata_slave (view ?e))) (l + 1) (drop 512 bs)), bsy := b'\<rparr>"
      by (rule Suc.IH) (use np Suc Suc.prems e in auto)
    then obtain b' where "view (outsw P base (drop 512 bs) ?e) = (view ?e)\<lparr>writing := None,
      disks := (disks (view ?e))(ata_slave (view ?e) := put_sectors (disks (view ?e) (ata_slave (view ?e))) (l + 1) (drop 512 bs)), bsy := b'\<rparr>" by blast
    then show ?thesis unfolding o e(1) written_twice [unfolded Let_def] f by blast
  qed
qed simp

section \<open>The driver against the device\<close>

lemma sector_loop_once:
  assumes "0 < n"
  shows "sector_loop step n 0 s = step 0 (ucast n) s"
proof -
  have c: "unat (ucast n :: u32) = unat n"
    by (simp add: unsigned_ucast_eq take_bit_nat_eq_self unsigned_less [THEN order_less_le_trans])
  have g: "(0 :: u32) < ucast n" using assms c by (simp add: word_less_nat_alt)
  have o: "next_secs_op n 0 = ucast n"
    using c unat_u8_less [of n] by (simp add: next_secs_op_def word_le_nat_alt)
  show ?thesis using g o
    by (subst sector_loop.simps) (simp add: Let_def sector_loop.simps [of step n "ucast n"] split: sum.split)
qed

lemma lba_small: "lba \<le> max_lba \<Longrightarrow> unat lba < 163840"
  by (simp add: max_lba_def word_le_nat_alt)

lemma unat_shifts: "unat (drop_bit 8 (w :: u32)) = unat w div 256" "unat (drop_bit 16 w) = unat w div 65536"
  "unat (drop_bit 24 w) = unat w div 16777216"
  by (simp_all add: drop_bit_eq_div unat_div)

lemma bytes_of_24:
  assumes "n < 163840"
  shows "n mod 256 + 256 * (n div 256 mod 256) + 65536 * (n div 65536 mod 256) = (n :: nat)"
proof -
  define q q2 where "q = n div 256" and "q2 = n div 65536"
  have q2: "q2 = q div 256" unfolding q_def q2_def by (simp add: div_mult2_eq [symmetric])
  have lt: "q2 < 256" using assms unfolding q2_def by simp
  have "n = 256 * q + n mod 256" unfolding q_def by simp
  moreover have "q = 256 * q2 + q mod 256" unfolding q2 by simp
  moreover have "q2 mod 256 = q2" using lt by simp
  ultimately show ?thesis unfolding q_def [symmetric] q2_def [symmetric] by linarith
qed

text \<open>The five bytes that select_sector writes name the sector, the count and the disk.\<close>

lemma select_sector_view:
  assumes a: "ata_behaves P (port_base ch) view" and l: "lba \<le> max_lba" and i: "ata_idle (view d)"
  shows "\<exists>d'. select_sector P ch dev_no lba n d = Inr d' \<and> ata_lba (view d') = unat lba \<and> r_cnt (view d') = n
     \<and> ata_slave (view d') = (dev_no = 1) \<and> disks (view d') = disks (view d) \<and> ata_idle (view d')"
proof -
  note D = ata_registers [OF a]
  have hi: "drop_bit 24 lba = 0"
    using lba_small [OF l] unat_shifts(3) [of lba] by (intro iffD2 [OF u32_eq_iff]) (simp del: unat_eq_zero unat_0_iff)
  have m: "unat (ucast lba :: u8) = unat lba mod 256" "unat (ucast (drop_bit 8 lba) :: u8) = unat lba div 256 mod 256"
    "unat (ucast (drop_bit 16 lba) :: u8) = unat lba div 65536 mod 256"
    by (simp_all only: unsigned_ucast_eq take_bit_eq_mod unat_shifts) simp_all
  have e: "unat lba mod 256 + 256 * (unat lba div 256 mod 256) + 65536 * (unat lba div 65536 mod 256) = unat lba"
    using lba_small [OF l] by (rule bytes_of_24)
  show ?thesis
    using l by (simp add: select_sector_def Let_def reg_sect_cnt_def reg_lba_l_def reg_lba_m_def reg_lba_h_def reg_dev_def
        D i hi BIT_DEV_MBS_def BIT_DEV_LBA_def BIT_DEV_DEV_def ata_lba_def ata_slave_def m e)
qed

definition disk_ok :: "(nat \<Rightarrow> u8 list) \<Rightarrow> bool" where
  "disk_ok dk \<longleftrightarrow> (\<forall>k. length (dk k) = 512)"

lemma length_sectors: "disk_ok dk \<Longrightarrow> length (sectors dk l n) = 512 * n"
  by (induction n) (simp_all add: sectors_def disk_ok_def)

lemma transfer_words: "0 < n \<Longrightarrow> unat (transfer_bytes n div 2) = 256 * unat n"
proof -
  assume "0 < n"
  have c: "unat (ucast n :: u32) = unat n"
    by (simp add: unsigned_ucast_eq take_bit_nat_eq_self unsigned_less [THEN order_less_le_trans])
  have "unat (ucast n * 512 :: u32) = unat n * 512"
    using c unat_u8_less [of n] by (subst unat_mult_u32) simp_all
  then show ?thesis using \<open>0 < n\<close> by (auto simp: transfer_bytes_def unat_div)
qed

definition channel_quiet :: "ide_channel \<Rightarrow> bool" where
  "channel_quiet ch \<longleftrightarrow> disk_done ch = sema_init 0 \<and> \<not> expecting_intr ch \<and> (irq_no ch = 0x2e \<or> irq_no ch = 0x2f)"

lemma sema_up_down: "sema_up (sema_init 0) k = Inr (sema_init 1, k)" "sema_down (sema_init 1) k = Inr (True, sema_init 0, k)"
  by (simp_all add: sema_up_def sema_down_free sema_init_def set_intr_def Let_def)

lemma wait_disk_quiet:
  assumes "channel_quiet ((channel s)\<lparr>expecting_intr := False\<rparr>)" "expecting_intr (channel s)"
  shows "wait_disk P s = Inr (s\<lparr>channel := (channel s)\<lparr>expecting_intr := False\<rparr>,
           hw := snd (p_in P (reg_status (channel s)) (p_irq P (hw s)))\<rparr>)"
proof -
  have d: "disk_done (channel s) = sema_init 0" "irq_no (channel s) = 0x2e \<or> irq_no (channel s) = 0x2f"
    using assms(1) by (simp_all add: channel_quiet_def)
  have "(channel s)\<lparr>expecting_intr := False, disk_done := sema_init 0\<rparr> = (channel s)\<lparr>expecting_intr := False\<rparr>"
    using d(1) by (cases "channel s") simp
  then show ?thesis using d assms(2)
    by (simp add: wait_disk_def intr_hd_handler_def disk_down_def sema_up_down)
qed

lemma busy_wait_ready:
  assumes a: "ata_behaves P (port_base (channel s)) view" and nb: "\<not> bsy (view (hw s))"
    and r: "data_in (view (hw s)) \<noteq> [] \<or> writing (view (hw s)) \<noteq> None"
  shows "\<exists>d'. busy_wait P s = Inr (True, s\<lparr>hw := d'\<rparr>) \<and> view d' = view (hw s)"
proof -
  note D = ata_status [OF a]
  let ?p = "p_in P (port_base (channel s) + 7)"
  obtain st1 d1 where d1: "?p (hw s) = (st1, d1)" by (cases "?p (hw s)")
  obtain st2 d2 where d2: "?p d1 = (st2, d2)" by (cases "?p d1")
  have v1: "st1 AND 0x80 = 0" "view d1 = view (hw s)" using D(1,3) [of "hw s"] nb d1 by auto
  have v2: "st2 AND 0x08 \<noteq> 0" "view d2 = view (hw s)" using D(2,3) [of d1] nb r d2 v1(2) by auto
  have "busy_wait P s = Inr (True, s\<lparr>hw := d2\<rparr>)"
    using busy_wait_loop.simps(2) [of P 29998 s] d1 d2 v1(1) v2(1) unfolding busy_wait_def
    by (simp add: reg_status_def BIT_ALT_STAT_BSY_def BIT_ALT_STAT_DRQ_def)
  then show ?thesis using v2(2) by blast
qed

text \<open>A device that is busy when it is polled: the driver sleeps, and does not come back.\<close>

lemma busy_wait_busy:
  assumes a: "ata_behaves P (port_base (channel s)) view" and b: "bsy (view (hw s))"
  shows "\<not> is_ok (busy_wait P s)"
proof -
  obtain st d where d: "p_in P (port_base (channel s) + 7) (hw s) = (st, d)" by (cases "p_in P (port_base (channel s) + 7) (hw s)")
  have st: "st AND 0x80 \<noteq> 0" using ata_status(1) [OF a, of "hw s"] b d by simp
  have z: "0 < DIV_ROUND_UP (10 :: u32) mil_second_per_intr" by (rule sleep_ticks_pos) simp_all
  have "\<not> woke" if "mtime_sleep 10 (threads s) = Inr (woke, k)" for woke k
    using that z by (auto simp: mtime_sleep_def ticks_to_sleep_def bindR_Inr_iff)
  then have "\<not> is_ok (bindR (mtime_sleep 10 (threads s)) (\<lambda>(woke, k).
      if \<not> woke then Inl Blocked else busy_wait_loop P 29998 (s\<lparr>hw := d, threads := k\<rparr>)))"
    by (auto simp: is_ok_iff bindR_Inr_iff split: if_splits)
  then show ?thesis
    using busy_wait_loop.simps(2) [of P 29998 s] d st unfolding busy_wait_def by (simp add: reg_status_def BIT_ALT_STAT_BSY_def)
qed

lemma ucast_count: "ucast (ucast (n :: u8) :: u32) = n"
  by (rule bit_word_eqI) (auto simp: bit_simps)

text \<open>A command after which the device has data.\<close>

lemma command_reads:
  fixes n :: u8
  assumes a: "ata_behaves P (port_base (channel s)) view" and q: "channel_quiet (channel s)" and n: "0 < n"
    and p: "no_pause P (port_base (channel s)) view \<or> n = 1"
    and v: "view (p_out P (reg_cmd (channel s)) c (hw s)) = v\<lparr>data_in := bs, bsy := b\<rparr>" "length bs = 512 * unat n" "ata_idle v"
  shows "\<exists>s3 d4 d'. wait_disk P (cmd_out P c s) = Inr s3 \<and> busy_wait P s3 = Inr (True, s3\<lparr>hw := d4\<rparr>)
     \<and> read_from_sector P buf n (s3\<lparr>hw := d4\<rparr>) = s\<lparr>hw := d', ram := poke (ram s) buf bs\<rparr> \<and> view d' = v"
proof -
  let ?s2 = "cmd_out P c s" and ?d2 = "p_out P (reg_cmd (channel s)) c (hw s)"
  have un: "0 < unat n" using n by (simp add: word_less_nat_alt)
  then have ne: "bs \<noteq> []" using v(2) by auto
  have ch2: "channel ?s2 = (channel s)\<lparr>expecting_intr := True\<rparr>" "hw ?s2 = ?d2" by (simp_all add: cmd_out_def Let_def reg_cmd_def reg_status_def)
  have ch: "(channel s)\<lparr>expecting_intr := False\<rparr> = channel s" using q by (cases "channel s") (simp add: channel_quiet_def)
  let ?s3 = "s\<lparr>hw := snd (p_in P (port_base (channel s) + 7) (p_irq P ?d2))\<rparr>"
  have w: "wait_disk P ?s2 = Inr ?s3"
    using wait_disk_quiet [of ?s2 P] q ch by (simp add: ch2 channel_quiet_def reg_cmd_def reg_status_def cmd_out_def Let_def)
  have irq: "view (p_irq P ?d2) = v\<lparr>data_in := bs, bsy := False\<rparr>" using ata_irq [OF a] v(1) by simp
  then have hw3: "view (hw ?s3) = v\<lparr>data_in := bs, bsy := False\<rparr>" using ata_status(3) [OF a, of "p_irq P ?d2"] by simp
  obtain d4 where d4: "busy_wait P ?s3 = Inr (True, ?s3\<lparr>hw := d4\<rparr>)" "view d4 = v\<lparr>data_in := bs, bsy := False\<rparr>"
    using busy_wait_ready [of P ?s3 view] a hw3 ne by auto
  let ?r = "insw P (port_base (channel s)) (256 * unat n) d4"
  have "no_pause P (port_base (channel s)) view \<or> length (data_in (view d4)) \<le> 512" using p v(2) d4(2) by auto
  from insw_reads [OF a this, of "256 * unat n"] have r: "fst ?r = bs" "view (snd ?r) = v\<lparr>data_in := [], bsy := False\<rparr>"
    using d4(2) v(2) by simp_all
  have "v\<lparr>data_in := [], bsy := False\<rparr> = v" using v(3) by (cases v) (simp add: ata_idle_def)
  moreover have "read_from_sector P buf n (?s3\<lparr>hw := d4\<rparr>) = s\<lparr>hw := snd ?r, ram := poke (ram s) buf bs\<rparr>"
    using r(1) by (simp add: read_from_sector_def reg_data_def transfer_words [OF n] case_prod_beta Let_def)
  ultimately show ?thesis using w d4(1) r(2) by (intro exI [of _ ?s3] exI [of _ d4] exI [of _ "snd ?r"]) simp
qed

lemma read_step_reads:
  fixes n :: u8
  assumes a: "ata_behaves P (port_base (channel s)) view" and q: "channel_quiet (channel s)" and i: "ata_idle (view (hw s))"
    and p: "no_pause P (port_base (channel s)) view \<or> n = 1"
    and l: "lba \<le> max_lba" and n: "0 < n" and dk: "disk_ok (disks (view (hw s)) (dev_no = 1))"
  shows "\<exists>d'. read_step P dev_no lba buf 0 (ucast n) s
       = Inr (s\<lparr>hw := d', ram := poke (ram s) buf (sectors (disks (view (hw s)) (dev_no = 1)) (unat lba) (unat n))\<rparr>)
     \<and> disks (view d') = disks (view (hw s)) \<and> ata_idle (view d')"
proof -
  let ?bs = "sectors (disks (view (hw s)) (dev_no = 1)) (unat lba) (unat n)"
  obtain d1 where d1: "select_sector P (channel s) dev_no lba n (hw s) = Inr d1" "ata_lba (view d1) = unat lba"
    "r_cnt (view d1) = n" "ata_slave (view d1) = (dev_no = 1)" "disks (view d1) = disks (view (hw s))" "ata_idle (view d1)"
    using select_sector_view [OF a l i] by blast
  have cnt: "ata_count (view d1) = unat n" using d1(3) n by (simp add: ata_count_def)
  let ?s1 = "s\<lparr>hw := d1\<rparr>"
  obtain b where v: "view (p_out P (reg_cmd (channel ?s1)) CMD_READ_SECTOR (hw ?s1)) = (view d1)\<lparr>data_in := ?bs, bsy := b\<rparr>"
    using ata_commands(1) [OF a d1(6)] d1 cnt by (auto simp: reg_cmd_def reg_status_def CMD_READ_SECTOR_def)
  have a1: "ata_behaves P (port_base (channel ?s1)) view" "channel_quiet (channel ?s1)"
    "no_pause P (port_base (channel ?s1)) view \<or> n = 1" using a q p by simp_all
  obtain s3 d4 d' where r: "wait_disk P (cmd_out P CMD_READ_SECTOR ?s1) = Inr s3" "busy_wait P s3 = Inr (True, s3\<lparr>hw := d4\<rparr>)"
    "read_from_sector P buf n (s3\<lparr>hw := d4\<rparr>) = ?s1\<lparr>hw := d', ram := poke (ram ?s1) buf ?bs\<rparr>" "view d' = view d1"
    using command_reads [OF a1(1,2) n a1(3) v length_sectors [OF dk] d1(6), of buf] by blast
  then show ?thesis using d1(1,5,6) by (intro exI [of _ d']) (simp add: read_step_def ucast_count)
qed

lemma write_step_writes:
  fixes n :: u8
  assumes a: "ata_behaves P (port_base (channel s)) view" and q: "channel_quiet (channel s)" and i: "ata_idle (view (hw s))"
    and p: "no_pause P (port_base (channel s)) view \<or> n = 1" "ready_to_write P (port_base (channel s)) view"
    and l: "lba \<le> max_lba" and n: "0 < n"
  shows "\<exists>d'. write_step P dev_no lba buf 0 (ucast n) s = Inr (s\<lparr>hw := d'\<rparr>)
     \<and> disks (view d') = (disks (view (hw s)))(dev_no = 1 :=
         put_sectors (disks (view (hw s)) (dev_no = 1)) (unat lba) (peek (ram s) buf (512 * unat n))) \<and> ata_idle (view d')"
proof -
  let ?bs = "peek (ram s) buf (512 * unat n)"
  obtain d1 where d1: "select_sector P (channel s) dev_no lba n (hw s) = Inr d1" "ata_lba (view d1) = unat lba"
    "r_cnt (view d1) = n" "ata_slave (view d1) = (dev_no = 1)" "disks (view d1) = disks (view (hw s))" "ata_idle (view d1)"
    using select_sector_view [OF a l i] by blast
  have cnt: "ata_count (view d1) = unat n" using d1(3) n by (simp add: ata_count_def)
  have un: "0 < unat n" using n by (simp add: word_less_nat_alt)
  let ?s2 = "cmd_out P CMD_WRITE_SECTOR (s\<lparr>hw := d1\<rparr>)"
  have o: "hw ?s2 = p_out P (port_base (channel s) + 7) 0x30 d1" by (simp add: cmd_out_def Let_def reg_cmd_def reg_status_def CMD_WRITE_SECTOR_def)
  have nb: "\<not> bsy (view (hw ?s2))" unfolding o using p(2) d1(6) by (simp add: ready_to_write_def)
  obtain b0 where w0: "view (hw ?s2) = (view d1)\<lparr>writing := Some (unat lba, unat n), bsy := b0\<rparr>"
    unfolding o using ata_commands(3) [OF a d1(6)] unfolding d1(2) cnt by blast
  moreover have "\<not> b0" using nb unfolding w0 by simp
  moreover have "\<not> bsy (view d1)" using d1(6) by (simp add: ata_idle_def)
  ultimately have hw2: "view (hw ?s2) = (view d1)\<lparr>writing := Some (unat lba, unat n)\<rparr>" by simp
  have idle: "\<not> bsy (view d1)" "data_in (view d1) = []" "data_out (view d1) = []" "writing (view d1) = None" using d1(6) by (simp_all add: ata_idle_def)
  have ch2: "channel ?s2 = (channel s)\<lparr>expecting_intr := True\<rparr>" "ram ?s2 = ram s" by (simp_all add: cmd_out_def Let_def)
  obtain d3 where d3: "busy_wait P ?s2 = Inr (True, ?s2\<lparr>hw := d3\<rparr>)" "view d3 = view (hw ?s2)"
    using busy_wait_ready [of P ?s2 view] a hw2 ch2 idle by auto
  let ?d4 = "outsw P (port_base (channel s)) ?bs d3"
  have "2 * (256 * unat n) = 512 * unat n" by simp
  then have w4: "write_to_sector P buf n (?s2\<lparr>hw := d3\<rparr>) = ?s2\<lparr>hw := ?d4\<rparr>"
    using ch2 by (simp add: write_to_sector_def reg_data_def transfer_words [OF n] Let_def)
  have "no_pause P (port_base (channel s)) view \<or> unat n = 1" using p(1) by auto
  then obtain b where v4: "view ?d4 = (view d1)\<lparr>writing := None, disks := (disks (view d1))(dev_no = 1 :=
         put_sectors (disks (view d1) (dev_no = 1)) (unat lba) ?bs), bsy := b\<rparr>"
    using outsw_writes [OF a _ _ _ _ _ un, of d3 "unat lba" ?bs] d3(2) hw2 d1(4) idle by (auto simp: ata_slave_def peek_def)
  have ch: "(channel s)\<lparr>expecting_intr := False\<rparr> = channel s" using q by (cases "channel s") (simp add: channel_quiet_def)
  let ?d5 = "snd (p_in P (port_base (channel s) + 7) (p_irq P ?d4))"
  have w: "wait_disk P (?s2\<lparr>hw := ?d4\<rparr>) = Inr (s\<lparr>hw := ?d5\<rparr>)"
    using wait_disk_quiet [of "?s2\<lparr>hw := ?d4\<rparr>" P] q ch by (simp add: ch2 channel_quiet_def reg_status_def cmd_out_def Let_def)
  have "write_step P dev_no lba buf 0 (ucast n) s = Inr (s\<lparr>hw := ?d5\<rparr>)"
    using d1(1) d3(1) w4 w by (simp add: write_step_def ucast_count)
  moreover have irq: "view (p_irq P ?d4) = (view ?d4)\<lparr>bsy := False\<rparr>" by (rule ata_irq [OF a])
  then have "view ?d5 = (view ?d4)\<lparr>bsy := False\<rparr>" using ata_status(3) [OF a, of "p_irq P ?d4"] by simp
  ultimately show ?thesis using v4 d1(5) idle by (intro exI [of _ ?d5]) (simp add: ata_idle_def)
qed

lemma write_step_busy:
  assumes a: "ata_behaves P (port_base (channel s)) view" and i: "ata_idle (view (hw s))" and l: "lba \<le> max_lba"
    and b: "\<And>d. ata_idle (view d) \<Longrightarrow> bsy (view (p_out P (port_base (channel s) + 7) 0x30 d))"
  shows "\<not> is_ok (write_step P dev_no lba buf 0 n s)"
proof -
  obtain d1 where d1: "select_sector P (channel s) dev_no lba (ucast n) (hw s) = Inr d1" "ata_idle (view d1)"
    using select_sector_view [OF a l i] by blast
  let ?s2 = "cmd_out P CMD_WRITE_SECTOR (s\<lparr>hw := d1\<rparr>)"
  have s2: "hw ?s2 = p_out P (port_base (channel s) + 7) 0x30 d1" "port_base (channel ?s2) = port_base (channel s)"
    by (simp_all add: cmd_out_def Let_def reg_cmd_def reg_status_def CMD_WRITE_SECTOR_def)
  have "\<not> is_ok (busy_wait P ?s2)" by (rule busy_wait_busy [where view = view]) (use a b d1(2) s2 in simp_all)
  then show ?thesis using d1(1) by (auto simp: write_step_def is_ok_iff bindR_Inr_iff)
qed

text \<open>The channel between two operations: free, with no interrupt awaited.\<close>

definition channel_free :: "'d ide \<Rightarrow> bool" where
  "channel_free s \<longleftrightarrow> channel_quiet (channel s) \<and> chan_lock (channel s) = lock_init \<and> running_thread (threads s) \<noteq> NULL"

lemma channel_lock_free:
  assumes "channel_free s"
  shows "channel_lock s = Inr (s\<lparr>channel := (channel s)\<lparr>chan_lock := lock_held (running_thread (threads s)) 1\<rparr>\<rparr>)"
  using assms acquire_first [of "threads s"] by (simp add: channel_lock_def channel_free_def)

lemma channel_unlock_held:
  assumes "channel_free s" "threads s' = threads s"
    "channel s' = (channel s)\<lparr>chan_lock := lock_held (running_thread (threads s)) 1\<rparr>"
  shows "channel_unlock s' = Inr (s'\<lparr>channel := channel s\<rparr>)"
proof -
  have "(channel s)\<lparr>chan_lock := lock_init\<rparr> = channel s" using assms(1) by (cases "channel s") (simp add: channel_free_def)
  then show ?thesis using release_last [of "threads s"] assms(2,3) by (simp add: channel_unlock_def)
qed

lemma select_disk_view:
  assumes "ata_behaves P (port_base ch) view" "ata_idle (view d)"
  shows "disks (view (select_disk P ch dev_no d)) = disks (view d)" "ata_idle (view (select_disk P ch dev_no d))"
  using ata_registers(5) [OF assms] assms(2) by (simp_all add: select_disk_def Let_def reg_dev_def)

lemma ide_read_eq:
  fixes n :: u8
  assumes a: "ata_behaves P (port_base (channel s)) view" and q: "channel_free s" and i: "ata_idle (view (hw s))"
    and p: "no_pause P (port_base (channel s)) view \<or> n = 1"
    and l: "lba \<le> max_lba" and n: "0 < n" and dk: "disk_ok (disks (view (hw s)) (dev_no = 1))"
  shows "\<exists>d'. ide_read P dev_no lba buf n s
       = Inr (s\<lparr>hw := d', ram := poke (ram s) buf (sectors (disks (view (hw s)) (dev_no = 1)) (unat lba) (unat n))\<rparr>)
     \<and> disks (view d') = disks (view (hw s)) \<and> ata_idle (view d')"
proof -
  let ?ch = "(channel s)\<lparr>chan_lock := lock_held (running_thread (threads s)) 1\<rparr>"
  let ?s1 = "s\<lparr>channel := ?ch, hw := select_disk P ?ch dev_no (hw s)\<rparr>"
  have v: "disks (view (hw ?s1)) = disks (view (hw s))" "ata_idle (view (hw ?s1))" using select_disk_view [of P ?ch view] a i by simp_all
  obtain d' where d': "read_step P dev_no lba buf 0 (ucast n) ?s1
       = Inr (?s1\<lparr>hw := d', ram := poke (ram s) buf (sectors (disks (view (hw s)) (dev_no = 1)) (unat lba) (unat n))\<rparr>)"
     "disks (view d') = disks (view (hw s))" "ata_idle (view d')"
    using read_step_reads [of P ?s1 view n lba dev_no buf] a q p l n dk v by (auto simp: channel_free_def channel_quiet_def)
  have u: "channel_unlock (?s1\<lparr>hw := d', ram := m\<rparr>) = Inr (s\<lparr>hw := d', ram := m\<rparr>)" for m
    using channel_unlock_held [OF q, of "?s1\<lparr>hw := d', ram := m\<rparr>"] by (cases s) simp
  have "ide_read P dev_no lba buf n s
       = Inr (s\<lparr>hw := d', ram := poke (ram s) buf (sectors (disks (view (hw s)) (dev_no = 1)) (unat lba) (unat n))\<rparr>)"
    using l n d'(1) channel_lock_free [OF q] u
    by (simp add: ide_read_def sector_loop_once [OF n] Let_def)
  then show ?thesis using d'(2,3) by blast
qed

lemma ide_write_eq:
  fixes n :: u8
  assumes a: "ata_behaves P (port_base (channel s)) view" and q: "channel_free s" and i: "ata_idle (view (hw s))"
    and p: "no_pause P (port_base (channel s)) view \<or> n = 1" "ready_to_write P (port_base (channel s)) view"
    and l: "lba \<le> max_lba" and n: "0 < n"
  shows "\<exists>d'. ide_write P dev_no lba buf n s = Inr (s\<lparr>hw := d'\<rparr>)
     \<and> disks (view d') = (disks (view (hw s)))(dev_no = 1 :=
         put_sectors (disks (view (hw s)) (dev_no = 1)) (unat lba) (peek (ram s) buf (512 * unat n))) \<and> ata_idle (view d')"
proof -
  let ?ch = "(channel s)\<lparr>chan_lock := lock_held (running_thread (threads s)) 1\<rparr>"
  let ?s1 = "s\<lparr>channel := ?ch, hw := select_disk P ?ch dev_no (hw s)\<rparr>"
  have v: "disks (view (hw ?s1)) = disks (view (hw s))" "ata_idle (view (hw ?s1))" using select_disk_view [of P ?ch view] a i by simp_all
  obtain d' where d': "write_step P dev_no lba buf 0 (ucast n) ?s1 = Inr (?s1\<lparr>hw := d'\<rparr>)"
     "disks (view d') = (disks (view (hw s)))(dev_no = 1 :=
         put_sectors (disks (view (hw s)) (dev_no = 1)) (unat lba) (peek (ram s) buf (512 * unat n)))" "ata_idle (view d')"
    using write_step_writes [of P ?s1 view n lba dev_no buf] a q p l n v by (auto simp: channel_free_def channel_quiet_def)
  have u: "channel_unlock (?s1\<lparr>hw := d'\<rparr>) = Inr (s\<lparr>hw := d'\<rparr>)"
    using channel_unlock_held [OF q, of "?s1\<lparr>hw := d'\<rparr>"] by (cases s) simp
  have "ide_write P dev_no lba buf n s = Inr (s\<lparr>hw := d'\<rparr>)"
    using l n d'(1) channel_lock_free [OF q] u
    by (simp add: ide_write_def sector_loop_once [OF n] Let_def)
  then show ?thesis using d'(2,3) by blast
qed

lemma ide_write_busy:
  fixes n :: u8
  assumes a: "ata_behaves P (port_base (channel s)) view" and q: "channel_free s" and i: "ata_idle (view (hw s))"
    and b: "\<And>d. ata_idle (view d) \<Longrightarrow> bsy (view (p_out P (port_base (channel s) + 7) 0x30 d))"
    and l: "lba \<le> max_lba" and n: "0 < n"
  shows "\<not> is_ok (ide_write P dev_no lba buf n s)"
proof -
  let ?ch = "(channel s)\<lparr>chan_lock := lock_held (running_thread (threads s)) 1\<rparr>"
  let ?s1 = "s\<lparr>channel := ?ch, hw := select_disk P ?ch dev_no (hw s)\<rparr>"
  have "\<not> is_ok (write_step P dev_no lba buf 0 (ucast n) ?s1)"
    by (rule write_step_busy [where view = view]) (use a b i l select_disk_view [of P ?ch view] in simp_all)
  then show ?thesis
    using l n channel_lock_free [OF q] by (auto simp: ide_write_def sector_loop_once [OF n] Let_def is_ok_iff bindR_Inr_iff)
qed

lemma length_peek [simp]: "length (peek m a n) = n"
  by (simp add: peek_def)

lemma concat_chunks: "length bs = 512 * n \<Longrightarrow> concat (map (\<lambda>k. take 512 (drop (512 * (k - l)) bs)) [l..<l + n]) = bs"
proof (induction n arbitrary: bs)
  case (Suc n)
  let ?f = "\<lambda>bs k. take 512 (drop (512 * (k - l)) bs)"
  have eq: "map (?f bs) [l..<l + n] = map (?f (take (512 * n) bs)) [l..<l + n]"
  proof (rule map_cong [OF refl])
    fix k assume "k \<in> set [l..<l + n]"
    then have "512 * (k - l) + 512 \<le> 512 * n" by auto
    then show "?f bs k = ?f (take (512 * n) bs) k" by (simp add: drop_take min_def)
  qed
  have "concat (map (?f bs) [l..<l + n]) = take (512 * n) bs"
    unfolding eq by (rule Suc.IH) (simp add: Suc.prems)
  then show ?case using Suc.prems by simp
qed simp

lemma sectors_put: "length bs = 512 * n \<Longrightarrow> sectors (put_sectors dk l bs) l n = bs"
proof -
  assume b: "length bs = 512 * n"
  have eq: "map (put_sectors dk l bs) [l..<l + n] = map (\<lambda>k. take 512 (drop (512 * (k - l)) bs)) [l..<l + n]"
    using b by (intro map_cong) (auto simp: put_sectors_def)
  show ?thesis unfolding sectors_def eq by (rule concat_chunks [OF b])
qed

lemma disk_ok_put: "disk_ok dk \<Longrightarrow> disk_ok (put_sectors dk l bs)"
proof -
  assume dk: "disk_ok dk"
  have "length (put_sectors dk l bs k) = 512" for k
  proof (cases "l \<le> k \<and> k < l + length bs div 512")
    case True
    then have "k - l + 1 \<le> length bs div 512" by auto
    then have "(k - l + 1) * 512 \<le> length bs div 512 * 512" by (rule mult_le_mono1)
    also have "\<dots> \<le> length bs" by (rule div_times_less_eq_dividend)
    finally have "512 * (k - l) + 512 \<le> length bs" by simp
    then show ?thesis using True by (simp add: put_sectors_def)
  next
    case False
    then show ?thesis using dk by (simp only: put_sectors_def if_False disk_ok_def)
  qed
  then show ?thesis by (simp add: disk_ok_def)
qed

section \<open>A concrete device\<close>

text \<open>A device at the ports of the first channel that is busy after a command that reads, until it interrupts, and,
  as the argument says, busy or not between two sectors and after a write command; its disks hold zeros but
  for the slave's sector 5.\<close>

definition demo_ports :: "bool \<Rightarrow> ata ports" where
  "demo_ports slow = \<lparr>
     p_out = (\<lambda>port b d. if port = 0x1f2 then d\<lparr>r_cnt := b\<rparr> else if port = 0x1f3 then d\<lparr>r_l := b\<rparr>
       else if port = 0x1f4 then d\<lparr>r_m := b\<rparr> else if port = 0x1f5 then d\<lparr>r_h := b\<rparr>
       else if port = 0x1f6 then d\<lparr>r_dev := b\<rparr>
       else if port = 0x1f7 \<and> b = 0x20 then d\<lparr>data_in := sectors (disks d (ata_slave d)) (ata_lba d) (ata_count d), bsy := True\<rparr>
       else if port = 0x1f7 \<and> b = 0xec then d\<lparr>data_in := about d (ata_slave d), bsy := True\<rparr>
       else if port = 0x1f7 \<and> b = 0x30 then d\<lparr>writing := Some (ata_lba d, ata_count d), bsy := slow\<rparr> else d),
     p_in = (\<lambda>port d. (if bsy d then 0x80 else if data_in d \<noteq> [] \<or> writing d \<noteq> None then 0x48 else 0x40, d)),
     p_inw = (\<lambda>port d. case data_in d of x # y # bs \<Rightarrow>
         (word_of x y, d\<lparr>data_in := bs, bsy := (slow \<and> bs \<noteq> [] \<and> length bs mod 512 = 0)\<rparr>) | _ \<Rightarrow> (0, d)),
     p_outw = (\<lambda>port w d. case writing d of None \<Rightarrow> d
       | Some (l, n) \<Rightarrow> (word_written w l n d)\<lparr>bsy := (slow \<and> 512 \<le> length (data_out d) + 2)\<rparr>),
     p_irq = (\<lambda>d. d\<lparr>bsy := False\<rparr>)\<rparr>"

lemma word_written_bsy [simp]: "bsy (word_written w l n v) = bsy v"
  by (simp add: word_written_def Let_def)

lemma bsy_same: "bsy v = b \<Longrightarrow> v\<lparr>bsy := b\<rparr> = v"
  by (cases v) simp

lemma bsy_upd: "\<not> bsy v \<Longrightarrow> v\<lparr>bsy := b\<rparr> = v \<or> b \<and> v\<lparr>bsy := b\<rparr> = v\<lparr>bsy := True\<rparr>"
  by (cases b) (simp_all add: bsy_same)

lemma demo_ports_behave: "ata_behaves (demo_ports slow) 0x1f0 id" "ready_to_write (demo_ports False) 0x1f0 id" "no_pause (demo_ports False) 0x1f0 id"
proof -
  let ?P = "demo_ports slow"
  have i: "ucast (fst (p_inw ?P 0x1f0 d)) = x \<and> ucast (drop_bit 8 (fst (p_inw ?P 0x1f0 d))) = y
      \<and> (snd (p_inw ?P 0x1f0 d) = d\<lparr>data_in := bs\<rparr> \<or> bs \<noteq> [] \<and> length bs mod 512 = 0 \<and> snd (p_inw ?P 0x1f0 d) = d\<lparr>data_in := bs, bsy := True\<rparr>)"
    if "\<not> bsy d \<and> data_in d = x # y # bs" for d x y bs
    using that bsy_upd [of "d\<lparr>data_in := bs\<rparr>" "slow \<and> bs \<noteq> [] \<and> length bs mod 512 = 0"]
    by (simp add: demo_ports_def word_bytes) blast
  have o: "p_outw ?P 0x1f0 w d = word_written w l n d
      \<or> 512 \<le> length (data_out d) + 2 \<and> p_outw ?P 0x1f0 w d = (word_written w l n d)\<lparr>bsy := True\<rparr>"
    if "\<not> bsy d \<and> writing d = Some (l, n)" for d w l n
    using that bsy_upd [of "word_written w l n d" "slow \<and> 512 \<le> length (data_out d) + 2"]
    by (simp add: demo_ports_def) blast
  show "ata_behaves ?P 0x1f0 id"
    unfolding ata_behaves_def id_apply
  proof (intro conjI)
    show "\<forall>d x y bs. \<not> bsy d \<and> data_in d = x # y # bs \<longrightarrow> ucast (fst (p_inw ?P 0x1f0 d)) = x \<and> ucast (drop_bit 8 (fst (p_inw ?P 0x1f0 d))) = y
      \<and> (snd (p_inw ?P 0x1f0 d) = d\<lparr>data_in := bs\<rparr> \<or> bs \<noteq> [] \<and> length bs mod 512 = 0 \<and> snd (p_inw ?P 0x1f0 d) = d\<lparr>data_in := bs, bsy := True\<rparr>)"
      using i by blast
    show "\<forall>d w l n. \<not> bsy d \<and> writing d = Some (l, n) \<longrightarrow> p_outw ?P 0x1f0 w d = word_written w l n d
      \<or> 512 \<le> length (data_out d) + 2 \<and> p_outw ?P 0x1f0 w d = (word_written w l n d)\<lparr>bsy := True\<rparr>" using o by blast
  qed (auto simp: demo_ports_def)
  show "ready_to_write (demo_ports False) 0x1f0 id" by (simp add: ready_to_write_def demo_ports_def ata_idle_def)
  show "no_pause (demo_ports False) 0x1f0 id"
    unfolding no_pause_def id_apply by (auto simp: demo_ports_def split: list.splits option.splits)
qed

definition demo_ata :: ata where
  "demo_ata = \<lparr>r_cnt = 0, r_l = 0, r_m = 0, r_h = 0, r_dev = 0, bsy = False, data_in = [], data_out = [], writing = None,
     disks = (\<lambda>sl l. if sl \<and> l = 5 then replicate 512 0x61 else replicate 512 0), about = (\<lambda>sl. replicate 512 0x20)\<rparr>"

definition demo_ide :: "ata ide" where
  "demo_ide = \<lparr>channel = \<lparr>port_base = 0x1f0, irq_no = 0x2e, chan_lock = lock_init, expecting_intr = False, disk_done = sema_init 0\<rparr>,
     hw = demo_ata, threads = demo_threads, ram = (\<lambda>_. 0)\<rparr>"

lemma demo_ide_ok: "ata_behaves (demo_ports slow) (port_base (channel demo_ide)) id" "channel_free demo_ide"
  "disk_ok (disks (id (hw demo_ide)) b)" "ata_idle (id (hw demo_ide))"
  "ready_to_write (demo_ports False) (port_base (channel demo_ide)) id" "no_pause (demo_ports False) (port_base (channel demo_ide)) id"
  using demo_ports_behave
  by (simp_all add: demo_ide_def channel_free_def channel_quiet_def demo_threads_def disk_ok_def demo_ata_def ata_idle_def)

section \<open>Properties\<close>

text \<open>C23: On a free channel with an idle device that behaves as the ATA standard says, busy after the command for
  any time, ide_read returns with the n sectors from lba of the selected disk in memory at buf, touches no
  other byte and no disk, and leaves the channel free and the device idle: for one sector from every such
  device, for more from one that is not busy between the sectors, where the driver does not look.\<close>
theorem ide_read_reads:
  fixes n :: u8
  assumes a: "ata_behaves P (port_base (channel s)) view" and q: "channel_free s" and i: "ata_idle (view (hw s))"
    and p: "no_pause P (port_base (channel s)) view \<or> n = 1"
    and l: "lba \<le> max_lba" and n: "0 < n" and dk: "disk_ok (disks (view (hw s)) (dev_no = 1))"
  shows "\<exists>s'. ide_read P dev_no lba buf n s = Inr s'
     \<and> peek (ram s') buf (512 * unat n) = sectors (disks (view (hw s)) (dev_no = 1)) (unat lba) (unat n)
     \<and> (\<forall>x. x \<notin> region buf (512 * unat n) \<longrightarrow> ram s' x = ram s x)
     \<and> disks (view (hw s')) = disks (view (hw s)) \<and> ata_idle (view (hw s'))
     \<and> channel s' = channel s \<and> threads s' = threads s \<and> channel_free s'"
proof -
  let ?bs = "sectors (disks (view (hw s)) (dev_no = 1)) (unat lba) (unat n)"
  obtain d' where d': "ide_read P dev_no lba buf n s = Inr (s\<lparr>hw := d', ram := poke (ram s) buf ?bs\<rparr>)"
    "disks (view d') = disks (view (hw s))" "ata_idle (view d')" using ide_read_eq [OF assms] by blast
  have len: "length ?bs = 512 * unat n" by (rule length_sectors [OF dk])
  have "peek (poke (ram s) buf ?bs) buf (512 * unat n) = ?bs"
    using len unat_u8_less [of n] by (intro nth_equalityI) (simp_all add: peek_def poke_inside)
  moreover have "poke (ram s) buf ?bs x = ram s x" if "x \<notin> region buf (512 * unat n)" for x
    using that len by (intro poke_outside) simp
  ultimately show ?thesis using d' q by (auto simp: channel_free_def)
qed

lemma ide_read_reads_witness:
  "\<exists>s'. ide_read (demo_ports True) 1 5 0xc0200000 1 demo_ide = Inr s'
     \<and> peek (ram s') 0xc0200000 512 = sectors (disks demo_ata True) 5 1 \<and> channel_free s'"
proof -
  have l: "(5 :: u32) \<le> max_lba" "(0 :: u8) < 1" by (simp_all add: max_lba_def)
  have p: "no_pause (demo_ports True) (port_base (channel demo_ide)) id \<or> (1 :: u8) = 1" by simp
  show ?thesis
    using ide_read_reads [OF demo_ide_ok(1,2,4) p l demo_ide_ok(3), of 1 "0xc0200000"] by (auto simp: demo_ide_def)
qed



text \<open>A thread that has given a command and finds the interrupt not yet come is parked; the interrupt,
  in any state in which it is still parked, makes it ready and leaves the semaphore at 1, so that the
  thread gets through when it runs again, with the channel as if the interrupt had come first.\<close>
theorem disk_wait_wakes:
  assumes inv: "sched_inv (threads s)" and ni: "running_thread (threads s) \<noteq> idle_thread (threads s)"
    and e: "expecting_intr (channel s)" "channel_quiet ((channel s)\<lparr>expecting_intr := False\<rparr>)"
  defines "t \<equiv> running_thread (threads s)"
  shows "\<exists>s1. disk_down s = Inr (False, s1) \<and> status (tasks (threads s1) t) = TASK_BLOCKED \<and> sched_inv (threads s1)
     \<and> live (threads s1) t \<and> (\<forall>k. sched_inv k \<and> live k t \<and> status (tasks k t) = TASK_BLOCKED \<longrightarrow>
          (\<exists>s2. intr_hd_handler P (irq_no (channel s)) (s1\<lparr>threads := k\<rparr>) = Inr s2
             \<and> status (tasks (threads s2) t) = TASK_READY \<and> sched_inv (threads s2)
             \<and> (\<forall>k'. \<exists>s3. disk_down (s2\<lparr>threads := k'\<rparr>) = Inr (True, s3)
                  \<and> channel s3 = (channel s)\<lparr>expecting_intr := False\<rparr>)))"
proof -
  let ?ch = "channel s" and ?k = "(threads s)\<lparr>intr := INTR_OFF\<rparr>"
  have dd: "disk_done ?ch = sema_init 0" "irq_no ?ch = 0x2e \<or> irq_no ?ch = 0x2f"
    using e(2) by (simp_all add: channel_quiet_def)
  have mid: "sched_mid (threads s)" using inv by (simp add: sched_inv_def)
  have inv': "sched_inv ?k" using inv by (simp add: sched_inv_def sched_mid_def live_def)
  obtain k1 where k1: "thread_block TASK_BLOCKED ?k = Inr k1" "sched_inv k1"
    "same_parked (upd_task (status_update (\<lambda>_. TASK_BLOCKED)) t ?k) k1"
    using block_parked [OF inv', of TASK_BLOCKED] by (auto simp: waits_def t_def)
  have c: "live (threads s) t" unfolding t_def by (rule sched_midD(4) [OF mid])
  have st1: "status (tasks k1 t) = TASK_BLOCKED"
    using same_parkedD [OF k1(3)] c ni by (simp_all add: runnable_def live_def t_def)
  have c1: "live k1 t" using c k1(3) by (simp add: same_parked_def live_def)
  let ?sem1 = "\<lparr>svalue = 0, waiters = [general_tag t]\<rparr>"
  let ?s1 = "s\<lparr>channel := ?ch\<lparr>disk_done := ?sem1\<rparr>, threads := k1\<rparr>"
  have d1: "disk_down s = Inr (False, ?s1)"
    using k1(1) dd(1) by (simp add: disk_down_def sema_down_def sema_init_def Let_def t_def)
  have "\<exists>s2. intr_hd_handler P (irq_no ?ch) (?s1\<lparr>threads := k\<rparr>) = Inr s2
      \<and> status (tasks (threads s2) t) = TASK_READY \<and> sched_inv (threads s2)
      \<and> (\<forall>k'. \<exists>s3. disk_down (s2\<lparr>threads := k'\<rparr>) = Inr (True, s3) \<and> channel s3 = ?ch\<lparr>expecting_intr := False\<rparr>)"
    if k: "sched_inv k" "live k t" "status (tasks k t) = TASK_BLOCKED" for k
  proof -
    let ?k0 = "k\<lparr>intr := INTR_OFF\<rparr>"
    have i0: "sched_inv ?k0" "live ?k0 t" "waits (status (tasks ?k0 t))"
      using k by (simp_all add: sched_inv_def sched_mid_def live_def waits_def)
    obtain k2 where k2: "thread_unblock t ?k0 = Inr k2" "sched_inv k2" "status (tasks k2 t) = TASK_READY"
      using unblock_inv [OF i0] by blast
    have al: "page_aligned t" using c sched_midD(1) [OF mid] by blast
    have up: "sema_up ?sem1 k = Inr (sema_init 1, set_intr (intr k) k2)"
      using k2(1) al by (simp add: sema_up_def sema_init_def Let_def)
    let ?s2 = "?s1\<lparr>channel := ?ch\<lparr>expecting_intr := False, disk_done := sema_init 1\<rparr>,
      threads := set_intr (intr k) k2, hw := snd (p_in P (reg_status (?ch\<lparr>disk_done := ?sem1\<rparr>)) (hw s))\<rparr>"
    have h: "intr_hd_handler P (irq_no ?ch) (?s1\<lparr>threads := k\<rparr>) = Inr ?s2"
      using up dd(2) e(1) by (simp add: intr_hd_handler_def)
    have "\<exists>s3. disk_down (?s2\<lparr>threads := k'\<rparr>) = Inr (True, s3) \<and> channel s3 = ?ch\<lparr>expecting_intr := False\<rparr>" for k'
      using dd(1) sema_up_down(2) [of k'] by (cases "channel s") (simp add: disk_down_def)
    moreover have "sched_inv (set_intr (intr k) k2)" using k2(2) by (simp add: sched_inv_def sched_mid_def live_def)
    ultimately show ?thesis using h k2(3) by (intro exI [of _ ?s2]) simp
  qed
  then show ?thesis using d1 st1 c1 k1(2) by (intro exI [of _ ?s1]) simp
qed

lemma disk_wait_wakes_witness:
  "\<exists>s1 s2. disk_down (cmd_out (demo_ports False) 1 demo_ide) = Inr (False, s1)
     \<and> intr_hd_handler (demo_ports False) 0x2e s1 = Inr s2 \<and> status (tasks (threads s2) 0xc009e000) = TASK_READY"
proof -
  let ?s = "cmd_out (demo_ports False) 1 demo_ide"
  have t: "threads ?s = demo_threads" "expecting_intr (channel ?s)" "irq_no (channel ?s) = 0x2e"
    "channel_quiet ((channel ?s)\<lparr>expecting_intr := False\<rparr>)"
    "running_thread demo_threads = 0xc009e000" "running_thread demo_threads \<noteq> idle_thread demo_threads"
    by (simp_all add: cmd_out_def demo_ide_def channel_quiet_def demo_threads_def Let_def)
  have inv: "sched_inv (threads ?s)" using demo_inv t(1) by simp
  have r: "running_thread (threads ?s) = 0xc009e000" "running_thread (threads ?s) \<noteq> idle_thread (threads ?s)"
    using t(1,5,6) by simp_all
  obtain s1 where s1: "disk_down ?s = Inr (False, s1)" "status (tasks (threads s1) 0xc009e000) = TASK_BLOCKED"
     "sched_inv (threads s1)" "live (threads s1) 0xc009e000"
     "\<forall>k. sched_inv k \<and> live k 0xc009e000 \<and> status (tasks k 0xc009e000) = TASK_BLOCKED
       \<longrightarrow> (\<exists>s2. intr_hd_handler (demo_ports False) (irq_no (channel ?s)) (s1\<lparr>threads := k\<rparr>) = Inr s2
             \<and> status (tasks (threads s2) 0xc009e000) = TASK_READY)"
    using disk_wait_wakes [OF inv r(2) t(2,4), of "demo_ports False"] unfolding r(1) by blast
  have "s1\<lparr>threads := threads s1\<rparr> = s1" by simp
  then show ?thesis using s1(1-4) s1(5) [THEN spec, of "threads s1"] t(3) by auto
qed

end
