(* ===== verification/Sectors.thy ===== *)
theory Sectors
  imports Ide
begin

text \<open>
  Sectors as data: little-endian words in byte lists, memcpy into a buffer, and ide_read and ide_write
  as the file system uses them. \<open>dk l\<close> is the content of sector l of the disk; that ide_read and
  ide_write of device/ide.c act on it like this is what ide_read_reads and ide_write_read_roundtrip say.
\<close>

unbundle bit_operations_syntax

section \<open>Words in bytes\<close>

definition le32 :: "u8 list \<Rightarrow> nat \<Rightarrow> u32" where
  "le32 bs i = ucast (bs ! i) OR push_bit 8 (ucast (bs ! (i + 1))) OR push_bit 16 (ucast (bs ! (i + 2)))
     OR push_bit 24 (ucast (bs ! (i + 3)))"

definition le32_bytes :: "u32 \<Rightarrow> u8 list" where
  "le32_bytes w = [ucast w, ucast (drop_bit 8 w), ucast (drop_bit 16 w), ucast (drop_bit 24 w)]"

lemma length_le32_bytes [simp]: "length (le32_bytes w) = 4"
  by (simp add: le32_bytes_def)

lemma le32_le32_bytes: "le32 (le32_bytes w) 0 = w"
proof -
  have "(ucast (ucast w :: u8) :: u32) OR push_bit 8 (ucast (ucast (drop_bit 8 w) :: u8))
      OR push_bit 16 (ucast (ucast (drop_bit 16 w) :: u8)) OR push_bit 24 (ucast (ucast (drop_bit 24 w) :: u8)) = w"
    apply (rule bit_word_eqI)
    apply (auto simp: bit_simps)
    subgoal for n by (cases "n < 24") auto
    done
  then show ?thesis by (simp add: le32_def le32_bytes_def numeral_2_eq_2 numeral_3_eq_3)
qed

lemma le32_append: "i + 3 < length xs \<Longrightarrow> le32 (xs @ ys) i = le32 xs i"
  by (simp add: le32_def nth_append)

lemma le32_skip: "length xs \<le> i \<Longrightarrow> le32 (xs @ ys) i = le32 ys (i - length xs)"
proof -
  assume "length xs \<le> i"
  then obtain j where i: "i = length xs + j" using le_Suc_ex by blast
  have n: "(xs @ ys) ! (length xs + j + k) = ys ! (j + k)" for k using nth_append_length_plus [of xs ys "j + k"] by (simp add: add.assoc)
  show ?thesis unfolding le32_def i using n [of 0] n [of 1] n [of 2] n [of 3] by simp
qed

lemma le32_at: "le32 (le32_bytes w @ ys) 0 = w"
  by (subst le32_append) (simp_all add: le32_le32_bytes)

definition le32s :: "u8 list \<Rightarrow> nat \<Rightarrow> u32 list" where
  "le32s bs n = map (\<lambda>i. le32 bs (4 * i)) [0..<n]"

definition le32s_bytes :: "u32 list \<Rightarrow> u8 list" where
  "le32s_bytes ws = concat (map le32_bytes ws)"

lemma length_le32s_bytes [simp]: "length (le32s_bytes ws) = 4 * length ws"
  by (induction ws) (simp_all add: le32s_bytes_def)

lemma length_le32s [simp]: "length (le32s bs n) = n"
  by (simp add: le32s_def)

lemma le32s_nth: "i < length ws \<Longrightarrow> le32 (le32s_bytes ws @ ys) (4 * i) = ws ! i"
proof (induction ws arbitrary: i)
  case (Cons w ws)
  show ?case
  proof (cases i)
    case 0
    then show ?thesis using le32_at [of w] by (simp add: le32s_bytes_def)
  next
    case (Suc j)
    have "le32 (le32s_bytes (w # ws) @ ys) (4 * i) = le32 (le32s_bytes ws @ ys) (4 * j)"
      unfolding Suc using le32_skip [of "le32_bytes w" "4 * Suc j" "le32s_bytes ws @ ys"] by (simp add: le32s_bytes_def)
    then show ?thesis using Cons Suc by simp
  qed
qed simp

lemma le32s_roundtrip: "le32s (le32s_bytes ws @ ys) (length ws) = ws"
  by (rule nth_equalityI) (simp_all add: le32s_def le32s_nth)

section \<open>Copying into a buffer\<close>

definition put_at :: "'a list \<Rightarrow> nat \<Rightarrow> 'a list \<Rightarrow> 'a list" where
  "put_at buf off bs = take off buf @ bs @ drop (off + length bs) buf"

definition copy_to :: "u8 list \<Rightarrow> nat \<Rightarrow> u8 list \<Rightarrow> u8 list res" where
  "copy_to buf off bs = (if off + length bs \<le> length buf then Inr (put_at buf off bs) else Inl (Bad_access ''memcpy''))"

definition slice :: "'a list \<Rightarrow> nat \<Rightarrow> nat \<Rightarrow> 'a list" where
  "slice bs off n = take n (drop off bs)"

lemma length_put_at [simp]: "off + length bs \<le> length buf \<Longrightarrow> length (put_at buf off bs) = length buf"
  by (simp add: put_at_def)

lemma length_slice [simp]: "off + n \<le> length bs \<Longrightarrow> length (slice bs off n) = n"
  by (simp add: slice_def)

lemma slice_put_same: "off + length bs \<le> length buf \<Longrightarrow> slice (put_at buf off bs) off (length bs) = bs"
  by (simp add: slice_def put_at_def)

lemma nth_put_at:
  "off + length bs \<le> length buf \<Longrightarrow> i < length buf \<Longrightarrow>
    put_at buf off bs ! i = (if off \<le> i \<and> i < off + length bs then bs ! (i - off) else buf ! i)"
  by (auto simp: put_at_def nth_append)

lemma slice_put_other:
  assumes "off + length bs \<le> length buf" "p + n \<le> length buf" "p + n \<le> off \<or> off + length bs \<le> p"
  shows "slice (put_at buf off bs) p n = slice buf p n"
  using assms by (intro nth_equalityI) (auto simp: slice_def nth_put_at)

lemma put_at_put_at:
  assumes "off + length bs \<le> n" "p + n \<le> length buf"
  shows "put_at buf p (put_at (slice buf p n) off bs) = put_at buf (p + off) bs"
proof (rule nth_equalityI)
  show "length (put_at buf p (put_at (slice buf p n) off bs)) = length (put_at buf (p + off) bs)"
    using assms by simp
  fix i assume "i < length (put_at buf p (put_at (slice buf p n) off bs))"
  then have i: "i < length buf" using assms by simp
  show "put_at buf p (put_at (slice buf p n) off bs) ! i = put_at buf (p + off) bs ! i"
    using assms i by (auto simp: nth_put_at) (auto simp: slice_def)
qed

section \<open>The disk\<close>

definition disk_read :: "(nat \<Rightarrow> u8 list) \<Rightarrow> u32 \<Rightarrow> u8 \<Rightarrow> u8 list res" where
  "disk_read dk lba cnt =
     (if \<not> lba \<le> max_lba then Inl (Assertion ''lba <= max_lba'')
      else if \<not> cnt > 0 then Inl (Assertion ''sec_cnt > 0'')
      else Inr (sectors dk (unat lba) (unat cnt)))"

definition disk_write :: "(nat \<Rightarrow> u8 list) \<Rightarrow> u32 \<Rightarrow> u8 \<Rightarrow> u8 list \<Rightarrow> (nat \<Rightarrow> u8 list) res" where
  "disk_write dk lba cnt buf =
     (if \<not> lba \<le> max_lba then Inl (Assertion ''lba <= max_lba'')
      else if \<not> cnt > 0 then Inl (Assertion ''sec_cnt > 0'')
      else if length buf < 512 * unat cnt then Inl (Bad_access ''outsw'')
      else Inr (put_sectors dk (unat lba) (take (512 * unat cnt) buf)))"

lemma sectors_append: "sectors dk l (a + b) = sectors dk l a @ sectors dk (l + a) b"
proof -
  have "[l..<l + (a + b)] = [l..<l + a] @ [l + a..<l + a + b]"
    using upt_add_eq_append [of l "l + a" b] by (simp add: add.assoc)
  then show ?thesis by (simp add: sectors_def)
qed

lemma sectors_put_other:
  assumes "l + n \<le> p \<or> p + length bs div 512 \<le> l"
  shows "sectors (put_sectors dk p bs) l n = sectors dk l n"
  using assms by (auto simp: sectors_def put_sectors_def intro!: arg_cong [where f = concat])

lemma sectors_put_sub:
  assumes dk: "disk_ok dk" and n: "length bs = 512 * n" "q + n \<le> N"
  shows "sectors (put_sectors dk (l + q) bs) l N = put_at (sectors dk l N) (512 * q) bs"
proof -
  obtain r where r: "N = q + n + r" using n(2) le_Suc_ex by blast
  let ?d = "put_sectors dk (l + q) bs"
  have s: "sectors d l N = sectors d l q @ sectors d (l + q) n @ sectors d (l + q + n) r" for d
    unfolding r by (simp add: sectors_append add.assoc)
  have "sectors ?d l q = sectors dk l q" "sectors ?d (l + q + n) r = sectors dk (l + q + n) r"
    using n(1) by (simp_all add: sectors_put_other)
  then show ?thesis
    unfolding put_at_def s [of ?d] s [of dk] using n(1) dk by (simp add: sectors_put length_sectors)
qed

lemma slice_sectors:
  assumes "disk_ok dk" "q + n \<le> N"
  shows "slice (sectors dk l N) (512 * q) (512 * n) = sectors dk (l + q) n"
proof -
  obtain r where r: "N = q + n + r" using assms(2) le_Suc_ex by blast
  show ?thesis unfolding r slice_def using assms(1) by (simp add: sectors_append length_sectors add.assoc)
qed

lemma disk_ok_sector: "disk_ok dk \<Longrightarrow> length (dk k) = 512"
  by (simp add: disk_ok_def)

lemma sectors_one: "sectors dk l 1 = dk l"
  by (simp add: sectors_def)

end
