(* ===== verification/Partitions.thy ===== *)
theory Partitions
  imports Sectors Stdio Descriptors
begin

text \<open>
  device/ide.c, second part: the scan of the partition tables and the initialisation of the channels.
  A sector is read with ide_read, which by ide_read_reads gives what the disk holds: \<open>dk l\<close> is sector l.
  A chain of extended partitions is followed by recursion and may be circular, so the scan is partial;
  scan_of_layout shows that it returns, and what it finds, on a well-formed chain. The buffer of a
  sector comes from sys_malloc, which is taken to succeed; \<open>held\<close> counts the buffers not given back.
\<close>

section \<open>Sectors as data\<close>

record partition_table_entry =
  bootable :: u8
  start_head :: u8
  start_sec :: u8
  start_chs :: u8
  fs_type :: u8
  end_head :: u8
  end_sec :: u8
  end_chs :: u8
  start_lba :: u32
  sec_cnt :: u32

text \<open>Entry i of the table of a boot sector.\<close>

definition partition_table :: "u8 list \<Rightarrow> nat \<Rightarrow> partition_table_entry" where
  "partition_table bs i = (let off = 446 + 16 * i in
     \<lparr>bootable = bs ! off, start_head = bs ! (off + 1), start_sec = bs ! (off + 2), start_chs = bs ! (off + 3),
      fs_type = bs ! (off + 4), end_head = bs ! (off + 5), end_sec = bs ! (off + 6), end_chs = bs ! (off + 7),
      start_lba = le32 bs (off + 8), sec_cnt = le32 bs (off + 12)\<rparr>)"

text \<open>A disk by its channel and its number on the channel.\<close>

type_synonym disk_id = "nat \<times> nat"

record part =
  part_start :: u32
  part_size :: u32
  my_disk :: disk_id
  part_name :: "u8 list"

datatype part_ref = Prim disk_id nat | Logic disk_id nat

record scan =
  ext_lba_base :: u32
  p_no :: u8
  l_no :: u8
  prim_parts :: "disk_id \<Rightarrow> part list"
  logic_parts :: "disk_id \<Rightarrow> part list"
  partition_list :: "part_ref list"
  held :: nat

definition sector_read :: "(nat \<Rightarrow> u8 list) \<Rightarrow> u32 \<Rightarrow> u8 list res" where
  "sector_read dk lba = (if \<not> lba \<le> max_lba then Inl (Assertion ''lba <= max_lba'') else Inr (dk (unat lba)))"

section \<open>partition_scan\<close>

definition add_prim :: "disk_id \<Rightarrow> u8 list \<Rightarrow> u32 \<Rightarrow> partition_table_entry \<Rightarrow> scan \<Rightarrow> scan res" where
  "add_prim dno nm ext_lba p st =
     (if \<not> unat (p_no st) < length (prim_parts st dno) then Inl (Bad_access ''prim_parts'')
      else let i = unat (p_no st);
          q = \<lparr>part_start = ext_lba + start_lba p, part_size = sec_cnt p, my_disk = dno,
               part_name = nm @ decimal (ucast (p_no st) + 1)\<rparr>;
          st = st\<lparr>prim_parts := (prim_parts st)(dno := (prim_parts st dno)[i := q]),
                  partition_list := partition_list st @ [Prim dno i], p_no := p_no st + 1\<rparr>
      in if \<not> p_no st < 4 then Inl (Assertion ''p_no < 4'') else Inr st)"

definition add_logic :: "disk_id \<Rightarrow> u8 list \<Rightarrow> u32 \<Rightarrow> partition_table_entry \<Rightarrow> scan \<Rightarrow> scan res" where
  "add_logic dno nm ext_lba p st =
     (if \<not> unat (l_no st) < length (logic_parts st dno) then Inl (Bad_access ''logic_parts'')
      else let i = unat (l_no st);
          q = \<lparr>part_start = ext_lba + start_lba p, part_size = sec_cnt p, my_disk = dno,
               part_name = nm @ decimal (ucast (l_no st) + 5)\<rparr>
      in Inr (st\<lparr>logic_parts := (logic_parts st)(dno := (logic_parts st dno)[i := q]),
                 partition_list := partition_list st @ [Logic dno i], l_no := l_no st + 1\<rparr>))"

text \<open>The loop over the entries of the sector bs read from ext_lba; it ends with sys_free(bs), the return
  for a full table of logical partitions does not.\<close>

partial_function (option) scan_entries ::
  "(nat \<Rightarrow> u8 list) \<Rightarrow> disk_id \<Rightarrow> u8 list \<Rightarrow> u32 \<Rightarrow> u8 list \<Rightarrow> nat \<Rightarrow> scan \<Rightarrow> scan res option" where
  "scan_entries dk dno nm ext_lba bs part_idx st =
     (if \<not> part_idx < 4 then Some (Inr (st\<lparr>held := held st - 1\<rparr>))
      else let p = partition_table bs part_idx in
        if fs_type p = 0x5 then
          (let lba = (if ext_lba_base st \<noteq> 0 then start_lba p + ext_lba_base st else start_lba p);
               st = (if ext_lba_base st \<noteq> 0 then st else st\<lparr>ext_lba_base := start_lba p\<rparr>)
           in case sector_read dk lba of
                Inl e \<Rightarrow> Some (Inl e)
              | Inr bs' \<Rightarrow> Option.bind (scan_entries dk dno nm lba bs' 0 (st\<lparr>held := held st + 1\<rparr>)) (\<lambda>r.
                  case r of Inl e \<Rightarrow> Some (Inl e)
                  | Inr st \<Rightarrow> scan_entries dk dno nm ext_lba bs (part_idx + 1) st))
        else if fs_type p \<noteq> 0 then
          (if ext_lba = 0 then
             (case add_prim dno nm ext_lba p st of Inl e \<Rightarrow> Some (Inl e)
              | Inr st \<Rightarrow> scan_entries dk dno nm ext_lba bs (part_idx + 1) st)
           else
             (case add_logic dno nm ext_lba p st of Inl e \<Rightarrow> Some (Inl e)
              | Inr st \<Rightarrow> if l_no st \<ge> 8 then Some (Inr st)
                         else scan_entries dk dno nm ext_lba bs (part_idx + 1) st))
        else scan_entries dk dno nm ext_lba bs (part_idx + 1) st)"

definition partition_scan :: "(nat \<Rightarrow> u8 list) \<Rightarrow> disk_id \<Rightarrow> u8 list \<Rightarrow> u32 \<Rightarrow> scan \<Rightarrow> scan res" where
  "partition_scan dk dno nm ext_lba st =
     bindR (sector_read dk ext_lba) (\<lambda>bs.
     bindR (of_loop (scan_entries dk dno nm ext_lba bs 0 (st\<lparr>held := held st + 1\<rparr>))) id)"

section \<open>identify_disk\<close>

text \<open>The index is a byte and counts by two; dst and buf are the arrays from the pointers on.\<close>

partial_function (option) swap_loop :: "u8 list \<Rightarrow> u8 list \<Rightarrow> u32 \<Rightarrow> u8 \<Rightarrow> u8 list res option" where
  "swap_loop dst buf len idx =
     (let i = unat idx in
      if \<not> ucast idx < len then
        Some (if i < length buf then Inr (buf[i := 0]) else Inl (Bad_access ''swap_pairs_bytes''))
      else if \<not> (i + 1 < length buf \<and> i + 1 < length dst) then Some (Inl (Bad_access ''swap_pairs_bytes''))
      else swap_loop dst (buf[i + 1 := dst ! i, i := dst ! (i + 1)]) len (idx + 2))"

definition swap_pairs_bytes :: "u8 list \<Rightarrow> u8 list \<Rightarrow> u32 \<Rightarrow> u8 list res" where
  "swap_pairs_bytes dst buf len = bindR (of_loop (swap_loop dst buf len 0)) id"

text \<open>What identify_disk takes from the 512 bytes the device answers: serial number, model, sectors.\<close>

definition disk_info :: "u8 list \<Rightarrow> (u8 list \<times> u8 list \<times> u32) res" where
  "disk_info id_info =
     bindR (swap_pairs_bytes (drop 20 id_info) (replicate 64 0) 20) (\<lambda>sn.
     bindR (swap_pairs_bytes (drop 54 id_info) (replicate 64 0) 40) (\<lambda>md.
       Inr (sn, md, le32 id_info 120)))"

text \<open>id_info lies on the stack, at buf.\<close>

definition identify_disk :: "'d ports \<Rightarrow> u8 \<Rightarrow> addr \<Rightarrow> 'd ide \<Rightarrow> ((u8 list \<times> u8 list \<times> u32) \<times> 'd ide) res" where
  "identify_disk P dev_no buf s =
     (let s = s\<lparr>hw := select_disk P (channel s) dev_no (hw s)\<rparr> in
      bindR (wait_disk P (cmd_out P CMD_IDENTIFY s)) (\<lambda>s.
      bindR (busy_wait P s) (\<lambda>(ready, s).
        if \<not> ready then Inl (Panicked ''identify failed'')
        else let s = read_from_sector P buf 1 s in
             bindR (disk_info (peek (ram s) buf 512)) (\<lambda>info. Inr (info, s)))))"

section \<open>ide_init\<close>

text \<open>ident d is what disk d answers to the identify command (identify_disk_reads).\<close>

record ide_system =
  channels :: "ide_channel list"
  vecs :: vectors
  scans :: scan

definition init_channel :: "nat \<Rightarrow> ide_channel \<Rightarrow> ide_channel" where
  "init_channel channel_no ch =
     (let ch = (if channel_no = 0 then ch\<lparr>port_base := 0x1f0, irq_no := 0x20 + 14\<rparr>
                else if channel_no = 1 then ch\<lparr>port_base := 0x170, irq_no := 0x20 + 15\<rparr> else ch)
      in ch\<lparr>expecting_intr := False, chan_lock := lock_init, disk_done := sema_init 0\<rparr>)"

definition disk_name :: "nat \<Rightarrow> nat \<Rightarrow> u8 list" where
  "disk_name channel_no dev_no = [0x73, 0x64, 0x61 + of_nat (channel_no * 2 + dev_no)]"

fun init_devices :: "(disk_id \<Rightarrow> nat \<Rightarrow> u8 list) \<Rightarrow> (disk_id \<Rightarrow> u8 list) \<Rightarrow> nat \<Rightarrow> nat list \<Rightarrow> scan \<Rightarrow> scan res" where
  "init_devices dks ident channel_no [] st = Inr st"
| "init_devices dks ident channel_no (dev_no # devs) st =
     bindR (disk_info (ident (channel_no, dev_no))) (\<lambda>_.
     bindR (if dev_no \<noteq> 0 then partition_scan (dks (channel_no, dev_no)) (channel_no, dev_no) (disk_name channel_no dev_no) 0 st
            else Inr st) (\<lambda>st.
       init_devices dks ident channel_no devs (st\<lparr>p_no := 0, l_no := 0\<rparr>)))"

fun init_channels :: "(disk_id \<Rightarrow> nat \<Rightarrow> u8 list) \<Rightarrow> (disk_id \<Rightarrow> u8 list) \<Rightarrow> addr \<Rightarrow> nat list \<Rightarrow> ide_system \<Rightarrow> ide_system res" where
  "init_channels dks ident handler [] sys = Inr sys"
| "init_channels dks ident handler (channel_no # nos) sys =
     (if \<not> channel_no < length (channels sys) then Inl (Bad_access ''channels'')
      else let ch = init_channel channel_no (channels sys ! channel_no) in
        bindR (register_handler (irq_no ch) handler (vecs sys)) (\<lambda>v.
        bindR (init_devices dks ident channel_no [0, 1] (scans sys)) (\<lambda>st.
          init_channels dks ident handler nos
            (sys\<lparr>channels := (channels sys)[channel_no := ch], vecs := v, scans := st\<rparr>))))"

definition ide_init :: "u8 \<Rightarrow> (disk_id \<Rightarrow> nat \<Rightarrow> u8 list) \<Rightarrow> (disk_id \<Rightarrow> u8 list) \<Rightarrow> addr \<Rightarrow> ide_system \<Rightarrow> ide_system res" where
  "ide_init hd_cnt dks ident handler sys =
     (if \<not> hd_cnt > 0 then Inl (Assertion ''hd_cnt > 0'')
      else let channel_cnt = (ucast (DIV_ROUND_UP (ucast hd_cnt) 2) :: u8)
           in init_channels dks ident handler [0..<unat channel_cnt]
                (sys\<lparr>scans := (scans sys)\<lparr>partition_list := []\<rparr>\<rparr>))"

section \<open>identify_disk takes the strings\<close>

text \<open>The bytes in pairs, each pair turned round.\<close>

fun swapped :: "'a list \<Rightarrow> 'a list" where
  "swapped (a # b # xs) = b # a # swapped xs"
| "swapped xs = xs"

lemma swap_loop_run:
  "i + 2 * n < 256 \<Longrightarrow> unat len = i + 2 * n \<Longrightarrow> i + 2 * n \<le> length dst \<Longrightarrow> i + 2 * n < length buf
   \<Longrightarrow> swap_loop dst buf len (of_nat i)
     = Some (Inr (take i buf @ swapped (take (2 * n) (drop i dst)) @ 0 # drop (i + 2 * n + 1) buf))"
proof (induction n arbitrary: i buf)
  case 0
  then have "unat (of_nat i :: u8) = i" by (simp add: unat_of_nat_u8)
  then show ?case using 0 by (subst swap_loop.simps) (simp add: Let_def word_less_nat_alt unat_zero_extend upd_conv_take_nth_drop)
next
  case (Suc n)
  let ?buf = "buf[i + 1 := dst ! i, i := dst ! (i + 1)]"
  have u: "unat (of_nat i :: u8) = i" using Suc.prems(1) by (simp add: unat_of_nat_u8)
  have l: "ucast (of_nat i :: u8) < len" using Suc.prems(1,2) u by (simp add: word_less_nat_alt unat_zero_extend)
  have "swap_loop dst buf len (of_nat i) = swap_loop dst ?buf len (of_nat (i + 2))"
    using u l Suc.prems by (subst swap_loop.simps) (simp add: Let_def add.commute)
  also have "\<dots> = Some (Inr (take (i + 2) ?buf @ swapped (take (2 * n) (drop (i + 2) dst)) @ 0 # drop (i + 2 + 2 * n + 1) ?buf))"
    using Suc.prems by (intro Suc.IH) simp_all
  also have "take (i + 2) ?buf = take i buf @ [dst ! (i + 1), dst ! i]"
    using Suc.prems(4) by (simp add: take_Suc_conv_app_nth nth_list_update)
  also have "drop (i + 2 + 2 * n + 1) ?buf = drop (i + 2 * Suc n + 1) buf" by simp
  finally have r: "swap_loop dst buf len (of_nat i) = Some (Inr ((take i buf @ [dst ! (i + 1), dst ! i])
      @ swapped (take (2 * n) (drop (i + 2) dst)) @ 0 # drop (i + 2 * Suc n + 1) buf))" .
  have "drop i dst = dst ! i # dst ! (i + 1) # drop (i + 2) dst"
    using Suc.prems(3) by (simp add: Cons_nth_drop_Suc)
  then show ?case using r by simp
qed

lemma swap_pairs_text:
  "unat len = 2 * n \<Longrightarrow> 2 * n < 256 \<Longrightarrow> 2 * n \<le> length dst \<Longrightarrow> 2 * n < length buf
   \<Longrightarrow> swap_pairs_bytes dst buf len = Inr (swapped (take (2 * n) dst) @ 0 # drop (2 * n + 1) buf)"
  using swap_loop_run [of 0 n len dst buf] by (simp add: swap_pairs_bytes_def)

lemma disk_info_ok:
  assumes "length bs = 512"
  shows "\<exists>r. disk_info bs = Inr r"
proof -
  have u: "unat (20 :: u32) = 2 * 10" "unat (40 :: u32) = 2 * 20" by simp_all
  show ?thesis
    using swap_pairs_text [OF u(1), of "drop 20 bs" "replicate 64 0"] swap_pairs_text [OF u(2), of "drop 54 bs" "replicate 64 0"] assms
    by (simp add: disk_info_def)
qed

lemma identify_disk_eq:
  assumes a: "ata_behaves P (port_base (channel s)) view" and q: "channel_quiet (channel s)" and i: "ata_idle (view (hw s))"
    and l: "length (about (view (hw s)) (dev_no = 1)) = 512"
  defines "bs \<equiv> about (view (hw s)) (dev_no = 1)"
  shows "\<exists>d'. identify_disk P dev_no buf s
      = bindR (disk_info bs) (\<lambda>info. Inr (info, s\<lparr>hw := d', ram := poke (ram s) buf bs\<rparr>)) \<and> disks (view d') = disks (view (hw s))
     \<and> ata_idle (view d')"
proof -
  let ?d1 = "select_disk P (channel s) dev_no (hw s)"
  let ?s1 = "s\<lparr>hw := ?d1\<rparr>"
  have d1: "ata_slave (view ?d1) = (dev_no = 1)" "about (view ?d1) = about (view (hw s))" "disks (view ?d1) = disks (view (hw s))" "ata_idle (view ?d1)"
    using ata_registers(5) [OF a i] i by (simp_all add: select_disk_def reg_dev_def Let_def ata_slave_def BIT_DEV_MBS_def BIT_DEV_LBA_def BIT_DEV_DEV_def)
  obtain b where v: "view (p_out P (reg_cmd (channel ?s1)) CMD_IDENTIFY (hw ?s1)) = (view ?d1)\<lparr>data_in := bs, bsy := b\<rparr>"
    using ata_commands(2) [OF a d1(4)] d1 by (auto simp: reg_cmd_def reg_status_def CMD_IDENTIFY_def bs_def)
  have a1: "ata_behaves P (port_base (channel ?s1)) view" "channel_quiet (channel ?s1)" "0 < (1 :: u8)"
    "no_pause P (port_base (channel ?s1)) view \<or> (1 :: u8) = 1" using a q by simp_all
  have bl: "length bs = 512 * unat (1 :: u8)" using l by (simp add: bs_def)
  obtain s3 d4 d' where r: "wait_disk P (cmd_out P CMD_IDENTIFY ?s1) = Inr s3" "busy_wait P s3 = Inr (True, s3\<lparr>hw := d4\<rparr>)"
    "read_from_sector P buf 1 (s3\<lparr>hw := d4\<rparr>) = ?s1\<lparr>hw := d', ram := poke (ram ?s1) buf bs\<rparr>" "view d' = view ?d1"
    using command_reads [OF a1 v bl d1(4), of buf] by blast
  have "peek (poke (ram s) buf bs) buf 512 = bs"
    using bl by (intro nth_equalityI) (simp_all add: peek_def poke_inside)
  then have "identify_disk P dev_no buf s = bindR (disk_info bs) (\<lambda>info. Inr (info, s\<lparr>hw := d', ram := poke (ram s) buf bs\<rparr>))"
    using r(1-3) by (simp add: identify_disk_def)
  then show ?thesis using r(4) d1(3,4) by auto
qed

lemma disk_info_eq:
  assumes "length bs = 512"
  shows "disk_info bs = Inr (swapped (take 20 (drop 20 bs)) @ replicate 44 0, swapped (take 40 (drop 54 bs)) @ replicate 24 0, le32 bs 120)"
proof -
  have u: "unat (20 :: u32) = 2 * 10" "unat (40 :: u32) = 2 * 20" by simp_all
  have z: "0 # replicate 43 0 = (replicate 44 0 :: u8 list)" "0 # replicate 23 0 = (replicate 24 0 :: u8 list)"
    by (simp_all add: numeral_eq_Suc)
  show ?thesis
    using swap_pairs_text [OF u(1), of "drop 20 bs" "replicate 64 0"] swap_pairs_text [OF u(2), of "drop 54 bs" "replicate 64 0"] assms z
    by (simp add: disk_info_def)
qed

section \<open>Specification: the layout of a disk\<close>

text \<open>A chain of extended boot records from sector lba, for the logical partitions ps (start, size).\<close>

fun ebr_chain :: "(nat \<Rightarrow> u8 list) \<Rightarrow> u32 \<Rightarrow> u32 \<Rightarrow> (u32 \<times> u32) list \<Rightarrow> bool" where
  "ebr_chain dk base lba [] = False"
| "ebr_chain dk base lba ((s, c) # ps) =
     (let e = partition_table (dk (unat lba)) in
      lba \<noteq> 0 \<and> lba \<le> max_lba \<and> fs_type (e 0) \<noteq> 0 \<and> fs_type (e 0) \<noteq> 5
      \<and> lba + start_lba (e 0) = s \<and> sec_cnt (e 0) = c \<and> fs_type (e 2) = 0 \<and> fs_type (e 3) = 0
      \<and> (if ps = [] then fs_type (e 1) = 0
         else fs_type (e 1) = 5 \<and> ebr_chain dk base (start_lba (e 1) + base) ps))"

text \<open>A master boot record with the primary partitions prims, then an extended partition, when there are
  logical ones.\<close>

definition mbr_layout :: "(nat \<Rightarrow> u8 list) \<Rightarrow> (u32 \<times> u32) list \<Rightarrow> (u32 \<times> u32) list \<Rightarrow> bool" where
  "mbr_layout dk prims logs \<longleftrightarrow>
     (let e = partition_table (dk 0); k = length prims in
      (\<forall>i < k. fs_type (e i) \<noteq> 0 \<and> fs_type (e i) \<noteq> 5 \<and> prims ! i = (start_lba (e i), sec_cnt (e i)))
      \<and> (logs \<noteq> [] \<longrightarrow> k < 4 \<and> fs_type (e k) = 5 \<and> start_lba (e k) \<noteq> 0 \<and> ebr_chain dk (start_lba (e k)) (start_lba (e k)) logs)
      \<and> (\<forall>i < 4. (if logs = [] then k else k + 1) \<le> i \<longrightarrow> fs_type (e i) = 0))"

section \<open>The scan finds the layout\<close>

definition logic_one :: "disk_id \<Rightarrow> u8 list \<Rightarrow> u32 \<Rightarrow> u32 \<Rightarrow> scan \<Rightarrow> scan" where
  "logic_one dno nm s c st =
     (let i = unat (l_no st);
          q = \<lparr>part_start = s, part_size = c, my_disk = dno, part_name = nm @ decimal (ucast (l_no st) + 5)\<rparr>
      in st\<lparr>logic_parts := (logic_parts st)(dno := (logic_parts st dno)[i := q]),
           partition_list := partition_list st @ [Logic dno i], l_no := l_no st + 1\<rparr>)"

fun logic_run :: "disk_id \<Rightarrow> u8 list \<Rightarrow> (u32 \<times> u32) list \<Rightarrow> scan \<Rightarrow> scan" where
  "logic_run dno nm [] st = st"
| "logic_run dno nm ((s, c) # ps) st = logic_run dno nm ps (logic_one dno nm s c st)"

lemma logic_one_simps [simp]:
  "ext_lba_base (logic_one dno nm s c st) = ext_lba_base st" "held (logic_one dno nm s c st) = held st"
  "p_no (logic_one dno nm s c st) = p_no st" "prim_parts (logic_one dno nm s c st) = prim_parts st"
  "l_no (logic_one dno nm s c st) = l_no st + 1"
  "length (logic_parts (logic_one dno nm s c st) d) = length (logic_parts st d)"
  "logic_one dno nm s c (st\<lparr>held := h\<rparr>) = (logic_one dno nm s c st)\<lparr>held := h\<rparr>"
  by (simp_all add: logic_one_def Let_def)

lemma scan_end: "\<not> i < 4 \<Longrightarrow> scan_entries dk dno nm ext bs i st = Some (Inr (st\<lparr>held := held st - 1\<rparr>))"
  by (subst scan_entries.simps) simp

lemma scan_zero:
  "i < 4 \<Longrightarrow> fs_type (partition_table bs i) = 0 \<Longrightarrow> scan_entries dk dno nm ext bs i st = scan_entries dk dno nm ext bs (i + 1) st"
  by (subst scan_entries.simps) (simp add: Let_def)

lemma scan_zeros:
  "(\<forall>j < 4. i \<le> j \<longrightarrow> fs_type (partition_table bs j) = 0) \<Longrightarrow> i \<le> 4
   \<Longrightarrow> scan_entries dk dno nm ext bs i st = Some (Inr (st\<lparr>held := held st - 1\<rparr>))"
proof (induction "4 - i" arbitrary: i)
  case 0
  then show ?case by (simp add: scan_end)
next
  case (Suc n)
  then have "i < 4" by simp
  moreover have "scan_entries dk dno nm ext bs (i + 1) st = Some (Inr (st\<lparr>held := held st - 1\<rparr>))"
    using Suc.hyps Suc.prems by (intro Suc.hyps(1)) auto
  ultimately show ?case using Suc.prems(1) scan_zero [of i bs dk dno nm ext st] by simp
qed

lemma logic_run_simps [simp]:
  "ext_lba_base (logic_run dno nm ps st) = ext_lba_base st" "held (logic_run dno nm ps st) = held st"
  "p_no (logic_run dno nm ps st) = p_no st" "prim_parts (logic_run dno nm ps st) = prim_parts st"
  "length (logic_parts (logic_run dno nm ps st) d) = length (logic_parts st d)"
  "logic_run dno nm ps (st\<lparr>held := h\<rparr>) = (logic_run dno nm ps st)\<lparr>held := h\<rparr>"
  by (induction dno nm ps st rule: logic_run.induct) simp_all

lemma scan_chain:
  assumes "ebr_chain dk base lba ps" "ext_lba_base st = base" "base \<noteq> 0" "unat (l_no st) + length ps \<le> 8"
    "length (logic_parts st dno) = 8"
  shows "scan_entries dk dno nm lba (dk (unat lba)) 0 st
     = Some (Inr ((logic_run dno nm ps st)\<lparr>held := held st - (if unat (l_no st) + length ps = 8 then 0 else 1)\<rparr>))"
  using assms
proof (induction dk base lba ps arbitrary: st rule: ebr_chain.induct)
  case (1 dk base lba)
  then show ?case by simp
next
  case (2 dk base lba s c ps)
  let ?e = "partition_table (dk (unat lba))"
  have E: "lba \<noteq> 0" "lba \<le> max_lba" "fs_type (?e 0) \<noteq> 0" "fs_type (?e 0) \<noteq> 5" "lba + start_lba (?e 0) = s"
    "sec_cnt (?e 0) = c" "fs_type (?e 2) = 0" "fs_type (?e 3) = 0"
    "if ps = [] then fs_type (?e 1) = 0 else fs_type (?e 1) = 5 \<and> ebr_chain dk base (start_lba (?e 1) + base) ps"
    using "2.prems"(1) by (simp_all add: Let_def del: One_nat_def)
  have l8: "unat (l_no st) < 8" using "2.prems"(4) by simp
  have l1: "unat (l_no st + 1) = unat (l_no st) + 1" using l8 by (simp add: unat_word_ariths)
  define st1 where "st1 = logic_one dno nm s c st"
  have st1: "l_no st1 = l_no st + 1" "ext_lba_base st1 = base" "length (logic_parts st1 dno) = 8" "held st1 = held st"
    using "2.prems"(2,5) by (simp_all add: st1_def)
  have add: "add_logic dno nm lba (?e 0) st = Inr st1"
    using l8 "2.prems"(5) E by (simp add: add_logic_def st1_def logic_one_def Let_def)
  have run: "logic_run dno nm ((s, c) # ps) st = logic_run dno nm ps st1" by (simp add: st1_def)
  have ge: "l_no st1 \<ge> 8 \<longleftrightarrow> unat (l_no st) + 1 = 8" using l8 st1(1) l1 by (simp add: word_le_nat_alt) arith
  have first: "scan_entries dk dno nm lba (dk (unat lba)) 0 st
     = (if unat (l_no st) + 1 = 8 then Some (Inr st1) else scan_entries dk dno nm lba (dk (unat lba)) 1 st1)"
    using E add ge by (subst scan_entries.simps) (simp add: Let_def)
  show ?case
  proof (cases "ps = []")
    case True
    then have "\<forall>j < 4. 1 \<le> j \<longrightarrow> fs_type (?e j) = 0"
      using E(7-9) by (auto simp: less_Suc_eq numeral_eq_Suc)
    then have "scan_entries dk dno nm lba (dk (unat lba)) 1 st1 = Some (Inr (st1\<lparr>held := held st1 - 1\<rparr>))"
      by (intro scan_zeros) simp_all
    then show ?thesis using first run True st1(4) by simp
  next
    case False
    then have e1: "fs_type (?e 1) = 5" "ebr_chain dk base (start_lba (?e 1) + base) ps" using E(9) by simp_all
    let ?lba = "start_lba (?e 1) + base"
    have lm: "?lba \<le> max_lba" using e1(2) False by (cases ps) (auto simp: Let_def)
    have n8: "unat (l_no st) + 1 \<noteq> 8" using "2.prems"(4) False by (cases ps) auto
    define st2 where "st2 = (logic_run dno nm ps st1)\<lparr>held := held st + 1 - (if unat (l_no st1) + length ps = 8 then 0 else 1)\<rparr>"
    have "scan_entries dk dno nm ?lba (dk (unat ?lba)) 0 (st1\<lparr>held := held st1 + 1\<rparr>) = Some (Inr st2)"
      using "2.IH" [OF refl False, of "st1\<lparr>held := held st1 + 1\<rparr>"] e1(2) "2.prems"(3,4) st1 l1 by (simp add: st2_def)
    moreover have z: "\<forall>j < 4. 2 \<le> j \<longrightarrow> fs_type (?e j) = 0" using E(7,8) by (auto simp: less_Suc_eq numeral_eq_Suc)
    have "scan_entries dk dno nm lba (dk (unat lba)) 2 st2 = Some (Inr (st2\<lparr>held := held st2 - 1\<rparr>))"
      by (rule scan_zeros [OF z]) simp
    ultimately have "scan_entries dk dno nm lba (dk (unat lba)) 1 st1 = Some (Inr (st2\<lparr>held := held st2 - 1\<rparr>))"
      using e1(1) st1(2) "2.prems"(3) lm by (subst scan_entries.simps) (simp add: Let_def sector_read_def numeral_eq_Suc)
    then show ?thesis using first run n8 l1 st1(1) by (simp add: st2_def)
  qed
qed

text \<open>The same for primary partitions.\<close>

definition prim_one :: "disk_id \<Rightarrow> u8 list \<Rightarrow> u32 \<Rightarrow> u32 \<Rightarrow> scan \<Rightarrow> scan" where
  "prim_one dno nm s c st =
     (let i = unat (p_no st);
          q = \<lparr>part_start = s, part_size = c, my_disk = dno, part_name = nm @ decimal (ucast (p_no st) + 1)\<rparr>
      in st\<lparr>prim_parts := (prim_parts st)(dno := (prim_parts st dno)[i := q]),
           partition_list := partition_list st @ [Prim dno i], p_no := p_no st + 1\<rparr>)"

fun prim_run :: "disk_id \<Rightarrow> u8 list \<Rightarrow> (u32 \<times> u32) list \<Rightarrow> scan \<Rightarrow> scan" where
  "prim_run dno nm [] st = st"
| "prim_run dno nm ((s, c) # ps) st = prim_run dno nm ps (prim_one dno nm s c st)"

lemma prim_one_simps [simp]:
  "ext_lba_base (prim_one dno nm s c st) = ext_lba_base st" "held (prim_one dno nm s c st) = held st"
  "l_no (prim_one dno nm s c st) = l_no st" "logic_parts (prim_one dno nm s c st) = logic_parts st"
  "p_no (prim_one dno nm s c st) = p_no st + 1"
  "length (prim_parts (prim_one dno nm s c st) d) = length (prim_parts st d)"
  by (simp_all add: prim_one_def Let_def)

lemma prim_run_simps [simp]:
  "ext_lba_base (prim_run dno nm ps st) = ext_lba_base st" "held (prim_run dno nm ps st) = held st"
  "l_no (prim_run dno nm ps st) = l_no st" "logic_parts (prim_run dno nm ps st) = logic_parts st"
  "length (prim_parts (prim_run dno nm ps st) d) = length (prim_parts st d)"
  by (induction dno nm ps st rule: prim_run.induct) simp_all

lemma prim_run_held: "prim_run dno nm ps (st\<lparr>held := h\<rparr>) = (prim_run dno nm ps st)\<lparr>held := h\<rparr>"
proof (induction dno nm ps st rule: prim_run.induct)
  case (2 dno nm s c ps st)
  have "prim_one dno nm s c (st\<lparr>held := h\<rparr>) = (prim_one dno nm s c st)\<lparr>held := h\<rparr>"
    by (simp add: prim_one_def Let_def)
  then show ?case using 2 by simp
qed simp

lemma logic_run_base:
  "logic_run dno nm ps (st\<lparr>ext_lba_base := b\<rparr>) = (logic_run dno nm ps st)\<lparr>ext_lba_base := b\<rparr>"
proof (induction dno nm ps st rule: logic_run.induct)
  case (2 dno nm s c ps st)
  have "logic_one dno nm s c (st\<lparr>ext_lba_base := b\<rparr>) = (logic_one dno nm s c st)\<lparr>ext_lba_base := b\<rparr>"
    by (simp add: logic_one_def Let_def)
  then show ?case using 2 by simp
qed simp

lemma scan_prims:
  assumes "\<forall>j < length ps. fs_type (partition_table bs (i + j)) \<noteq> 0 \<and> fs_type (partition_table bs (i + j)) \<noteq> 5
       \<and> ps ! j = (start_lba (partition_table bs (i + j)), sec_cnt (partition_table bs (i + j)))"
    "unat (p_no st) + length ps \<le> 3" "length (prim_parts st dno) = 4" "i + length ps \<le> 4"
  shows "scan_entries dk dno nm 0 bs i st = scan_entries dk dno nm 0 bs (i + length ps) (prim_run dno nm ps st)"
  using assms
proof (induction ps arbitrary: i st)
  case Nil
  then show ?case by simp
next
  case (Cons q ps)
  obtain s c where q: "q = (s, c)" by (cases q)
  let ?e = "partition_table bs i"
  have e: "fs_type ?e \<noteq> 0" "fs_type ?e \<noteq> 5" "s = start_lba ?e" "c = sec_cnt ?e"
    using Cons.prems(1) [THEN spec, of 0] q by simp_all
  have l3: "unat (p_no st) < 3" using Cons.prems(2) by simp
  have l1: "unat (p_no st + 1) = unat (p_no st) + 1" using l3 by (simp add: unat_word_ariths)
  have "add_prim dno nm 0 ?e st = Inr (prim_one dno nm s c st)"
    using l3 l1 Cons.prems(3) e by (simp add: add_prim_def prim_one_def Let_def word_less_nat_alt)
  then have "scan_entries dk dno nm 0 bs i st = scan_entries dk dno nm 0 bs (i + 1) (prim_one dno nm s c st)"
    using Cons.prems(4) e by (subst scan_entries.simps) (simp add: Let_def)
  also have "\<dots> = scan_entries dk dno nm 0 bs (i + 1 + length ps) (prim_run dno nm ps (prim_one dno nm s c st))"
  proof (rule Cons.IH)
    show "\<forall>j < length ps. fs_type (partition_table bs (i + 1 + j)) \<noteq> 0 \<and> fs_type (partition_table bs (i + 1 + j)) \<noteq> 5
       \<and> ps ! j = (start_lba (partition_table bs (i + 1 + j)), sec_cnt (partition_table bs (i + 1 + j)))"
      using Cons.prems(1) by auto
  qed (use l1 Cons.prems(2-4) in simp_all)
  finally show ?case using q by simp
qed

text \<open>What the runs leave behind.\<close>

definition entry :: "disk_id \<Rightarrow> u8 list \<Rightarrow> u32 \<Rightarrow> u32 \<times> u32 \<Rightarrow> part" where
  "entry dno nm k p = \<lparr>part_start = fst p, part_size = snd p, my_disk = dno, part_name = nm @ decimal k\<rparr>"

lemma logic_run_leaves:
  "unat (l_no st) + length ps \<le> 8 \<Longrightarrow> length (logic_parts st dno) = 8
   \<Longrightarrow> partition_list (logic_run dno nm ps st) = partition_list st @ map (Logic dno) [unat (l_no st)..<unat (l_no st) + length ps]
     \<and> (\<forall>j < 8. logic_parts (logic_run dno nm ps st) dno ! j
          = (if unat (l_no st) \<le> j \<and> j < unat (l_no st) + length ps
             then entry dno nm (of_nat j + 5) (ps ! (j - unat (l_no st))) else logic_parts st dno ! j))"
proof (induction ps arbitrary: st)
  case Nil
  then show ?case by auto
next
  case (Cons q ps)
  obtain s c where q: "q = (s, c)" by (cases q)
  let ?n = "unat (l_no st)" and ?st = "logic_one dno nm s c st"
  have l1: "unat (l_no st + 1) = ?n + 1" using Cons.prems(1) by (simp add: unat_word_ariths)
  have u: "(ucast (l_no st) :: u32) = of_nat ?n" by simp
  have IH: "partition_list (logic_run dno nm ps ?st) = partition_list ?st @ map (Logic dno) [?n + 1..<?n + 1 + length ps]"
    "\<And>j. j < 8 \<Longrightarrow> logic_parts (logic_run dno nm ps ?st) dno ! j
       = (if ?n + 1 \<le> j \<and> j < ?n + 1 + length ps then entry dno nm (of_nat j + 5) (ps ! (j - (?n + 1)))
          else logic_parts ?st dno ! j)"
    using Cons.IH [of ?st] Cons.prems l1 by simp_all
  have a: "partition_list ?st = partition_list st @ [Logic dno ?n]" by (simp add: logic_one_def Let_def)
  have b: "logic_parts ?st dno ! j = (if j = ?n then entry dno nm (of_nat j + 5) q else logic_parts st dno ! j)" if "j < 8" for j
    using that Cons.prems(2) u q by (simp add: logic_one_def Let_def entry_def nth_list_update)
  have up: "[?n..<?n + length (q # ps)] = ?n # [?n + 1..<?n + 1 + length ps]" by (simp add: upt_rec)
  have "logic_parts (logic_run dno nm ps ?st) dno ! j
      = (if ?n \<le> j \<and> j < ?n + length (q # ps) then entry dno nm (of_nat j + 5) ((q # ps) ! (j - ?n)) else logic_parts st dno ! j)"
    if "j < 8" for j
    using IH(2) [OF that] b [OF that] by (cases "j = ?n") (auto simp: nth_Cons')
  then show ?case using IH(1) a up q by simp
qed

lemma prim_run_leaves:
  "unat (p_no st) + length ps \<le> 3 \<Longrightarrow> length (prim_parts st dno) = 4
   \<Longrightarrow> partition_list (prim_run dno nm ps st) = partition_list st @ map (Prim dno) [unat (p_no st)..<unat (p_no st) + length ps]
     \<and> (\<forall>j < 4. prim_parts (prim_run dno nm ps st) dno ! j
          = (if unat (p_no st) \<le> j \<and> j < unat (p_no st) + length ps
             then entry dno nm (of_nat j + 1) (ps ! (j - unat (p_no st))) else prim_parts st dno ! j))"
proof (induction ps arbitrary: st)
  case Nil
  then show ?case by auto
next
  case (Cons q ps)
  obtain s c where q: "q = (s, c)" by (cases q)
  let ?n = "unat (p_no st)" and ?st = "prim_one dno nm s c st"
  have l1: "unat (p_no st + 1) = ?n + 1" using Cons.prems(1) by (simp add: unat_word_ariths)
  have u: "(ucast (p_no st) :: u32) = of_nat ?n" by simp
  have IH: "partition_list (prim_run dno nm ps ?st) = partition_list ?st @ map (Prim dno) [?n + 1..<?n + 1 + length ps]"
    "\<And>j. j < 4 \<Longrightarrow> prim_parts (prim_run dno nm ps ?st) dno ! j
       = (if ?n + 1 \<le> j \<and> j < ?n + 1 + length ps then entry dno nm (of_nat j + 1) (ps ! (j - (?n + 1)))
          else prim_parts ?st dno ! j)"
    using Cons.IH [of ?st] Cons.prems l1 by simp_all
  have a: "partition_list ?st = partition_list st @ [Prim dno ?n]" by (simp add: prim_one_def Let_def)
  have b: "prim_parts ?st dno ! j = (if j = ?n then entry dno nm (of_nat j + 1) q else prim_parts st dno ! j)" if "j < 4" for j
    using that Cons.prems(2) u q by (simp add: prim_one_def Let_def entry_def nth_list_update)
  have up: "[?n..<?n + length (q # ps)] = ?n # [?n + 1..<?n + 1 + length ps]" by (simp add: upt_rec)
  have "prim_parts (prim_run dno nm ps ?st) dno ! j
      = (if ?n \<le> j \<and> j < ?n + length (q # ps) then entry dno nm (of_nat j + 1) ((q # ps) ! (j - ?n)) else prim_parts st dno ! j)"
    if "j < 4" for j
    using IH(2) [OF that] b [OF that] by (cases "j = ?n") (auto simp: nth_Cons')
  then show ?case using IH(1) a up q by simp
qed

lemma scan_layout:
  assumes m: "mbr_layout dk prims logs" and k: "length prims \<le> 3" "length logs \<le> 8"
    and st: "length (prim_parts st dno) = 4" "length (logic_parts st dno) = 8" "p_no st = 0" "l_no st = 0" "ext_lba_base st = 0"
  shows "\<exists>b. partition_scan dk dno nm 0 st
     = Inr ((logic_run dno nm logs (prim_run dno nm prims st))\<lparr>ext_lba_base := b, held := held st + (if length logs = 8 then 1 else 0)\<rparr>)"
proof -
  let ?bs = "dk 0" and ?k = "length prims" and ?S = "st\<lparr>held := held st + 1\<rparr>"
  let ?e = "partition_table ?bs"
  let ?P = "prim_run dno nm prims ?S"
  have rd: "partition_scan dk dno nm 0 st = bindR (of_loop (scan_entries dk dno nm 0 ?bs 0 ?S)) id"
    by (simp add: partition_scan_def sector_read_def)
  have "scan_entries dk dno nm 0 ?bs 0 ?S = scan_entries dk dno nm 0 ?bs (0 + ?k) ?P"
    using m k st by (intro scan_prims) (simp_all add: mbr_layout_def Let_def)
  then have sp: "scan_entries dk dno nm 0 ?bs 0 ?S = scan_entries dk dno nm 0 ?bs ?k ?P" by simp
  have P: "?P = (prim_run dno nm prims st)\<lparr>held := held st + 1\<rparr>" by (rule prim_run_held)
  show ?thesis
  proof (cases "logs = []")
    case True
    then have "\<forall>j < 4. ?k \<le> j \<longrightarrow> fs_type (?e j) = 0" using m by (simp add: mbr_layout_def Let_def)
    then have "scan_entries dk dno nm 0 ?bs ?k ?P = Some (Inr (?P\<lparr>held := held ?P - 1\<rparr>))"
      using k(1) by (intro scan_zeros) simp_all
    then show ?thesis using rd sp True P by (intro exI [of _ "ext_lba_base (prim_run dno nm prims st)"]) simp
  next
    case False
    let ?b = "start_lba (?e ?k)"
    have L: "?k < 4" "fs_type (?e ?k) = 5" "?b \<noteq> 0" "ebr_chain dk ?b ?b logs" "\<forall>j < 4. ?k + 1 \<le> j \<longrightarrow> fs_type (?e j) = 0"
      using m False by (simp_all add: mbr_layout_def Let_def)
    have lm: "?b \<le> max_lba" using L(4) False by (cases logs) (auto simp: Let_def)
    let ?C = "?P\<lparr>ext_lba_base := ?b, held := held ?P + 1\<rparr>"
    let ?h = "held ?C - (if length logs = 8 then 0 else 1)"
    let ?R = "(logic_run dno nm logs ?C)\<lparr>held := ?h\<rparr>"
    have "scan_entries dk dno nm ?b (dk (unat ?b)) 0 ?C
       = Some (Inr ((logic_run dno nm logs ?C)\<lparr>held := held ?C - (if unat (l_no ?C) + length logs = 8 then 0 else 1)\<rparr>))"
      using L(3,4) k(2) st by (intro scan_chain) simp_all
    then have c: "scan_entries dk dno nm ?b (dk (unat ?b)) 0 ?C = Some (Inr ?R)" using st(4) by simp
    have z: "scan_entries dk dno nm 0 ?bs (?k + 1) ?R = Some (Inr (?R\<lparr>held := held ?R - 1\<rparr>))"
      using L(1,5) by (intro scan_zeros) simp_all
    have "scan_entries dk dno nm 0 ?bs ?k ?P = Some (Inr (?R\<lparr>held := held ?R - 1\<rparr>))"
      using L(1,2) lm c z st(5) by (subst scan_entries.simps) (simp add: Let_def sector_read_def)
    then show ?thesis using rd sp by (intro exI [of _ ?b]) (simp add: prim_run_held logic_run_base)
  qed
qed

lemma scan_result:
  assumes "mbr_layout dk prims logs" "length prims \<le> 3" "length logs \<le> 8"
    "length (prim_parts st dno) = 4" "length (logic_parts st dno) = 8" "p_no st = 0" "l_no st = 0" "ext_lba_base st = 0"
  shows "\<exists>st'. partition_scan dk dno nm 0 st = Inr st'
     \<and> take (length prims) (prim_parts st' dno) = map (\<lambda>i. entry dno nm (of_nat i + 1) (prims ! i)) [0..<length prims]
     \<and> take (length logs) (logic_parts st' dno) = map (\<lambda>i. entry dno nm (of_nat i + 5) (logs ! i)) [0..<length logs]
     \<and> partition_list st' = partition_list st @ map (Prim dno) [0..<length prims] @ map (Logic dno) [0..<length logs]
     \<and> held st' = held st + (if length logs = 8 then 1 else 0)
     \<and> length (prim_parts st' dno) = 4 \<and> length (logic_parts st' dno) = 8
     \<and> drop (length prims) (prim_parts st' dno) = drop (length prims) (prim_parts st dno)
     \<and> drop (length logs) (logic_parts st' dno) = drop (length logs) (logic_parts st dno)"
proof -
  let ?P = "prim_run dno nm prims st"
  let ?L = "logic_run dno nm logs ?P"
  have p: "partition_list ?P = partition_list st @ map (Prim dno) [0..<length prims]"
    "\<forall>j < 4. prim_parts ?P dno ! j = (if j < length prims then entry dno nm (of_nat j + 1) (prims ! j) else prim_parts st dno ! j)"
    using prim_run_leaves [of st prims dno nm] assms(2,4,6) by simp_all
  have l: "partition_list ?L = partition_list ?P @ map (Logic dno) [0..<length logs]"
    "\<forall>j < 8. logic_parts ?L dno ! j = (if j < length logs then entry dno nm (of_nat j + 5) (logs ! j) else logic_parts ?P dno ! j)"
    using logic_run_leaves [of ?P logs dno nm] assms(3,5,7) by simp_all
  have "take (length prims) (prim_parts ?L dno) = map (\<lambda>i. entry dno nm (of_nat i + 1) (prims ! i)) [0..<length prims]"
    using p(2) assms(2,4) by (intro nth_equalityI) simp_all
  moreover have "take (length logs) (logic_parts ?L dno) = map (\<lambda>i. entry dno nm (of_nat i + 5) (logs ! i)) [0..<length logs]"
    using l(2) assms(3,5) by (intro nth_equalityI) simp_all
  moreover have "drop (length prims) (prim_parts ?L dno) = drop (length prims) (prim_parts st dno)"
    using p(2) assms(2,4) by (intro nth_equalityI) simp_all
  moreover have "drop (length logs) (logic_parts ?L dno) = drop (length logs) (logic_parts st dno)"
    using l(2) assms(3,5) by (intro nth_equalityI) simp_all
  moreover have "length (prim_parts ?L dno) = 4" "length (logic_parts ?L dno) = 8" using assms(4,5) by simp_all
  ultimately show ?thesis using scan_layout [OF assms, of nm] p(1) l(1) by auto
qed

text \<open>The second disk after ide_init.\<close>

definition scanned :: "(u32 \<times> u32) list \<Rightarrow> (u32 \<times> u32) list \<Rightarrow> scan \<Rightarrow> scan \<Rightarrow> bool" where
  "scanned prims logs st st' \<longleftrightarrow>
       take (length prims) (prim_parts st' (0, 1)) = map (\<lambda>i. entry (0, 1) [0x73, 0x64, 0x62] (of_nat i + 1) (prims ! i)) [0..<length prims]
     \<and> take (length logs) (logic_parts st' (0, 1)) = map (\<lambda>i. entry (0, 1) [0x73, 0x64, 0x62] (of_nat i + 5) (logs ! i)) [0..<length logs]
     \<and> partition_list st' = map (Prim (0, 1)) [0..<length prims] @ map (Logic (0, 1)) [0..<length logs]
     \<and> held st' = held st + (if length logs = 8 then 1 else 0)
     \<and> length (prim_parts st' (0, 1)) = 4 \<and> length (logic_parts st' (0, 1)) = 8
     \<and> drop (length prims) (prim_parts st' (0, 1)) = drop (length prims) (prim_parts st (0, 1))
     \<and> drop (length logs) (logic_parts st' (0, 1)) = drop (length logs) (logic_parts st (0, 1))"

lemma ide_init_result:
  assumes "hd_cnt = 1 \<or> hd_cnt = 2" "mbr_layout (dks (0, 1)) prims logs" "length prims \<le> 3" "length logs \<le> 8"
    "\<forall>d. length (ident d) = 512" "length (channels sys) = 2" "length (idt_table (vecs sys)) = 0x81"
    "length (prim_parts (scans sys) (0, 1)) = 4" "length (logic_parts (scans sys) (0, 1)) = 8" "ext_lba_base (scans sys) = 0"
  shows "\<exists>sys'. ide_init hd_cnt dks ident h sys = Inr sys'
     \<and> channels sys' ! 0 = init_channel 0 (channels sys ! 0) \<and> vecs sys' = (vecs sys)\<lparr>idt_table := (idt_table (vecs sys))[0x2e := h]\<rparr>
     \<and> scanned prims logs (scans sys) (scans sys')"
proof -
  let ?st = "(scans sys)\<lparr>partition_list := [], p_no := 0, l_no := 0\<rparr>"
  have i: "\<exists>r. disk_info (ident (0, 0)) = Inr r" "\<exists>r. disk_info (ident (0, 1)) = Inr r"
    using assms(5) disk_info_ok by blast+
  have nm: "disk_name 0 (Suc 0) = [0x73, 0x64, 0x62]" by (simp add: disk_name_def)
  obtain st' where st': "partition_scan (dks (0, 1)) (0, 1) [0x73, 0x64, 0x62] 0 ?st = Inr st'" "scanned prims logs (scans sys) st'"
    using scan_result [OF assms(2-4), of ?st "(0, 1)" "[0x73, 0x64, 0x62]"] assms(8-10) by (auto simp: scanned_def)
  let ?ch = "init_channel 0 (channels sys ! 0)"
  let ?sys = "sys\<lparr>channels := (channels sys)[0 := ?ch], vecs := (vecs sys)\<lparr>idt_table := (idt_table (vecs sys))[0x2e := h]\<rparr>,
      scans := st'\<lparr>p_no := 0, l_no := 0\<rparr>\<rparr>"
  have "ide_init hd_cnt dks ident h sys = init_channels dks ident h [0] (sys\<lparr>scans := (scans sys)\<lparr>partition_list := []\<rparr>\<rparr>)"
    using assms(1) by (auto simp: ide_init_def DIV_ROUND_UP_def upt_rec)
  also have "\<dots> = Inr ?sys"
    using i assms(6,7) st'(1) by (auto simp: Let_def register_handler_def init_channel_def nm)
  finally have "ide_init hd_cnt dks ident h sys = Inr ?sys" .
  moreover have "scanned prims logs (scans sys) (scans ?sys)" using st'(2) by (simp add: scanned_def)
  moreover have "channels ?sys ! 0 = ?ch" using assms(6) by simp
  ultimately show ?thesis by (intro exI [of _ ?sys]) simp
qed

section \<open>Properties\<close>

text \<open>A disk with a primary partition of 100 sectors from 63, and two logical ones.\<close>

definition demo_entry :: "u8 \<Rightarrow> u8 \<Rightarrow> u8 list" where
  "demo_entry ty lba = [0, 0, 0, 0, ty, 0, 0, 0, lba, 0, 0, 0, 100, 0, 0, 0]"

definition demo_table :: "nat \<Rightarrow> u8 list" where
  "demo_table l = replicate 446 0
     @ (if l = 0 then demo_entry 0x83 63 @ demo_entry 5 200 else if l = 200 then demo_entry 0x66 1 @ demo_entry 5 40
        else if l = 240 then demo_entry 0x66 2 @ replicate 16 0 else replicate 32 0) @ replicate 32 0 @ [0x55, 0xaa]"

definition demo_system :: ide_system where
  "demo_system = \<lparr>channels = replicate 2 \<lparr>port_base = 0, irq_no = 0, chan_lock = lock_init, expecting_intr = False, disk_done = sema_init 0\<rparr>,
     vecs = exception_init 0xc0001500,
     scans = \<lparr>ext_lba_base = 0, p_no = 0, l_no = 0, prim_parts = (\<lambda>_. replicate 4 (entry (0, 0) [] 0 (0, 0))),
       logic_parts = (\<lambda>_. replicate 8 (entry (0, 0) [] 0 (0, 0))), partition_list = [], held = 0\<rparr>\<rparr>"

text \<open>identify_disk, on a quiet channel with a device that behaves as the standard says, reads the 512 bytes the
  selected disk answers, takes the serial number (20 bytes from 20 on) and the model (40 from 54 on) with
  the bytes of each pair turned round and ends them, takes the number of sectors from byte 120 on, and
  leaves the channel, the threads and the disks as they were.\<close>
theorem identify_disk_reads:
  assumes "ata_behaves P (port_base (channel s)) view" "channel_quiet (channel s)" "ata_idle (view (hw s))" "length (about (view (hw s)) (dev_no = 1)) = 512"
  defines "bs \<equiv> about (view (hw s)) (dev_no = 1)"
  shows "\<exists>s'. identify_disk P dev_no buf s
       = Inr ((swapped (take 20 (drop 20 bs)) @ replicate 44 0, swapped (take 40 (drop 54 bs)) @ replicate 24 0, le32 bs 120), s')
     \<and> channel s' = channel s \<and> threads s' = threads s \<and> disks (view (hw s')) = disks (view (hw s))
     \<and> (\<forall>x. x \<notin> region buf 512 \<longrightarrow> ram s' x = ram s x)"
proof -
  obtain d' where d: "identify_disk P dev_no buf s = bindR (disk_info bs) (\<lambda>info. Inr (info, s\<lparr>hw := d', ram := poke (ram s) buf bs\<rparr>))"
    "disks (view d') = disks (view (hw s))"
    using identify_disk_eq [OF assms(1-4)] unfolding bs_def by blast
  have l: "length bs = 512" using assms(4) by (simp add: bs_def)
  have "poke (ram s) buf bs x = ram s x" if "x \<notin> region buf 512" for x
    using that l by (intro poke_outside) simp
  then show ?thesis using d disk_info_eq [OF l] by auto
qed

lemma identify_disk_reads_witness:
  "\<exists>s'. identify_disk (demo_ports True) 1 0xc0200000 demo_ide = Inr ((replicate 20 0x20 @ replicate 44 0, replicate 40 0x20 @ replicate 24 0, 0x20202020), s')
     \<and> channel s' = channel demo_ide"
proof -
  have d: "about (id (hw demo_ide)) b = replicate 512 0x20" for b by (simp add: demo_ide_def demo_ata_def)
  have l: "length (about (id (hw demo_ide)) ((1 :: u8) = 1)) = 512" unfolding d by simp
  have q: "channel_quiet (channel demo_ide)" using demo_ide_ok(2) by (simp add: channel_free_def)
  have sw: "swapped (replicate 20 (0x20 :: u8)) = replicate 20 0x20" "swapped (replicate 40 (0x20 :: u8)) = replicate 40 0x20"
    by (simp_all add: numeral_eq_Suc)
  have le: "le32 (replicate 512 0x20) 120 = 0x20202020" by (simp add: le32_def)
  show ?thesis
    using identify_disk_reads [OF demo_ide_ok(1) q demo_ide_ok(4) l, of True "0xc0200000"] unfolding d by (auto simp: sw le)
qed

text \<open>C25: With one or two disks, of which the second is laid out with at most three primary partitions and a
  chain of at most eight logical ones, ide_init returns with the first channel quiet at its ports and its
  interrupt, the handler registered, and the partitions of the second disk entered in the order of the
  tables, each with its first sector on the disk, its size, its disk and its name (sdb1 to sdb3, sdb5 to
  sdb12), and queued in that order. The buffers of the scan are given back, but with eight logical
  partitions the one of the last boot record.\<close>
theorem ide_init_finds_partitions:
  assumes "hd_cnt = 1 \<or> hd_cnt = 2" "mbr_layout (dks (0, 1)) prims logs" "length prims \<le> 3" "length logs \<le> 8"
    "\<forall>d. length (ident d) = 512" "length (channels sys) = 2" "length (idt_table (vecs sys)) = 0x81"
    "length (prim_parts (scans sys) (0, 1)) = 4" "length (logic_parts (scans sys) (0, 1)) = 8" "ext_lba_base (scans sys) = 0"
  shows "\<exists>sys'. ide_init hd_cnt dks ident h sys = Inr sys'
     \<and> channel_quiet (channels sys' ! 0) \<and> port_base (channels sys' ! 0) = 0x1f0 \<and> irq_no (channels sys' ! 0) = 0x2e
     \<and> chan_lock (channels sys' ! 0) = lock_init \<and> idt_table (vecs sys') = (idt_table (vecs sys))[0x2e := h]
     \<and> take (length prims) (prim_parts (scans sys') (0, 1))
         = map (\<lambda>i. entry (0, 1) [0x73, 0x64, 0x62] (of_nat i + 1) (prims ! i)) [0..<length prims]
     \<and> take (length logs) (logic_parts (scans sys') (0, 1))
         = map (\<lambda>i. entry (0, 1) [0x73, 0x64, 0x62] (of_nat i + 5) (logs ! i)) [0..<length logs]
     \<and> partition_list (scans sys') = map (Prim (0, 1)) [0..<length prims] @ map (Logic (0, 1)) [0..<length logs]
     \<and> held (scans sys') = held (scans sys) + (if length logs = 8 then 1 else 0)"
proof -
  obtain sys' where "ide_init hd_cnt dks ident h sys = Inr sys'" "channels sys' ! 0 = init_channel 0 (channels sys ! 0)"
    "vecs sys' = (vecs sys)\<lparr>idt_table := (idt_table (vecs sys))[0x2e := h]\<rparr>" "scanned prims logs (scans sys) (scans sys')"
    using ide_init_result [where dks = dks and ident = ident, OF assms] by blast
  then show ?thesis
    by (intro exI [of _ sys']) (simp add: scanned_def init_channel_def channel_quiet_def)
qed

lemma ide_init_finds_partitions_witness:
  "\<exists>sys'. ide_init 2 (\<lambda>_. demo_table) (\<lambda>_. replicate 512 0x20) 0xc0002000 demo_system = Inr sys'
     \<and> take 2 (logic_parts (scans sys') (0, 1)) = [entry (0, 1) [0x73, 0x64, 0x62] 5 (201, 100), entry (0, 1) [0x73, 0x64, 0x62] 6 (242, 100)]
     \<and> partition_list (scans sys') = [Prim (0, 1) 0, Logic (0, 1) 0, Logic (0, 1) 1]"
proof -
  have m: "mbr_layout ((\<lambda>_. demo_table) (0, 1)) [(63, 100)] [(201, 100), (242, 100)]" by code_simp
  have h: "(2 :: u8) = 1 \<or> (2 :: u8) = 2" by simp
  have d: "length (channels demo_system) = 2" "length (idt_table (vecs demo_system)) = 0x81"
    "length (prim_parts (scans demo_system) (0, 1)) = 4" "length (logic_parts (scans demo_system) (0, 1)) = 8"
    "ext_lba_base (scans demo_system) = 0"
    by (simp_all add: demo_system_def exception_init_def IDT_DESC_CNT_def Let_def)
  show ?thesis
    using ide_init_finds_partitions [where dks = "\<lambda>_. demo_table" and ident = "\<lambda>_. replicate 512 0x20" and sys = demo_system,
        OF h m _ _ _ d, of "0xc0002000"]
    by (auto simp: upt_rec numeral_2_eq_2)
qed

end
