(* ===== verification/Inode.thy ===== *)
theory Inode
  imports Partitions Bitmap
begin

text \<open>
  fs/inode.c and the state of the file system (fs/super_block.h, fs/inode.h, fs/file.h, fs/dir.h).
  The state has the sectors of the disk, the mounted partition, the inodes and directories in memory
  by address, the file table and the running thread's descriptors. sys_malloc is modelled in Malloc;
  here its answers are a stream \<open>mallocs\<close> in the state (0 when it fails), \<open>held\<close> is what has been
  handed out and not given back, and \<open>junk\<close> what a block not yet written to holds. The list of open
  inodes is the sequence of their addresses, as klist_refines_sequence allows.
\<close>

unbundle bit_operations_syntax

section \<open>The state\<close>

record super_block =
  magic :: u32
  sb_sec_cnt :: u32
  inode_cnt :: u32
  part_lba_base :: u32
  block_bitmap_lba :: u32
  block_bitmap_sects :: u32
  inode_bitmap_lba :: u32
  inode_bitmap_sects :: u32
  inode_table_lba :: u32
  inode_table_sects :: u32
  data_start_lba :: u32
  root_inode_no :: u32
  dir_entry_size :: u32

record partition = part +
  sb :: super_block
  block_bitmap :: bitmap
  inode_bitmap :: bitmap
  open_inodes :: "addr list"

record inode =
  i_no :: u32
  i_size :: u32
  i_open_cnts :: u32
  write_deny :: bool
  i_sectors :: "u32 list"

record dir =
  d_inode :: addr
  dir_pos :: u32

record open_file =
  fd_pos :: u32
  fd_flag :: u32
  fd_inode :: addr

record fs =
  disk :: "nat \<Rightarrow> u8 list"
  cur_part :: partition
  inodes :: "addr \<Rightarrow> inode"
  root_dir :: dir
  dirs :: "addr \<Rightarrow> dir"
  file_table :: "open_file list"
  fds :: "u32 list"
  mallocs :: "addr list"
  held :: "addr list"
  junk :: "u32 list"

definition kmalloc :: "fs \<Rightarrow> addr \<times> fs" where
  "kmalloc s = (case mallocs s of [] \<Rightarrow> (NULL, s)
     | a # as \<Rightarrow> (a, s\<lparr>mallocs := as, held := (if a = NULL then held s else a # held s)\<rparr>))"

definition kfree :: "addr \<Rightarrow> fs \<Rightarrow> fs res" where
  "kfree a s = (if a \<in> set (held s) then Inr (s\<lparr>held := remove1 a (held s)\<rparr>) else Inl (Bad_access ''sys_free''))"

text \<open>A block that is written to through a pointer that was not tested.\<close>

definition kmalloc_used :: "fs \<Rightarrow> (addr \<times> fs) res" where
  "kmalloc_used s = (let (a, s) = kmalloc s in if a = NULL then Inl (Bad_access ''NULL'') else Inr (a, s))"

section \<open>An inode on the disk\<close>

text \<open>struct inode is 76 bytes: i_no, i_size, i_open_cnts, write_deny with three bytes of padding, the
  thirteen pointers, and the list element.\<close>

definition sizeof_inode :: u32 where "sizeof_inode = 76"

definition inode_bytes :: "inode \<Rightarrow> u8 list" where
  "inode_bytes i = le32s_bytes [i_no i, i_size i, i_open_cnts i] @ [if write_deny i then 1 else 0, 0, 0, 0]
     @ le32s_bytes (i_sectors i) @ replicate 8 0"

definition bytes_inode :: "u8 list \<Rightarrow> inode" where
  "bytes_inode bs = \<lparr>i_no = le32 bs 0, i_size = le32 bs 4, i_open_cnts = le32 bs 8, write_deny = (bs ! 12 \<noteq> 0),
     i_sectors = le32s (drop 16 bs) 13\<rparr>"

record inode_position =
  two_sec :: bool
  sec_lba :: u32
  off_size :: u32

definition inode_locate :: "partition \<Rightarrow> u32 \<Rightarrow> inode_position res" where
  "inode_locate p inode_no =
     (if \<not> inode_no < 4096 then Inl (Assertion ''inode_no < 4096'')
      else let off_size = inode_no * sizeof_inode;
          off_sec = off_size div 512;
          off_size_in_sec = off_size mod 512;
          left_in_sec = 512 - off_size_in_sec
      in Inr \<lparr>two_sec = (left_in_sec < sizeof_inode), sec_lba = inode_table_lba (sb p) + off_sec, off_size = off_size_in_sec\<rparr>)"

text \<open>inode_sync: the number is kept in a uint8_t; the sectors are read to io_buf, of 1024 bytes, changed
  and written back.\<close>

definition inode_sync :: "addr \<Rightarrow> fs \<Rightarrow> fs res" where
  "inode_sync ip s =
     (let p = cur_part s;
          inode_no = (ucast (i_no (inodes s ip)) :: u8)
      in bindR (inode_locate p (ucast inode_no)) (\<lambda>pos.
         if \<not> sec_lba pos \<le> part_start p + part_size p then Inl (Assertion ''inode_pos.sec_lba <= part->start_lba + part->sec_cnt'')
         else let pure_inode = (inodes s ip)\<lparr>i_open_cnts := 0, write_deny := False\<rparr>;
              cnt = (if two_sec pos then 2 else 1)
          in bindR (disk_read (disk s) (sec_lba pos) cnt) (\<lambda>inode_buf.
             bindR (copy_to inode_buf (unat (off_size pos)) (inode_bytes pure_inode)) (\<lambda>inode_buf.
             bindR (disk_write (disk s) (sec_lba pos) cnt inode_buf) (\<lambda>dk.
               Inr (s\<lparr>disk := dk\<rparr>))))))"

definition set_open_inodes :: "addr list \<Rightarrow> fs \<Rightarrow> fs" where
  "set_open_inodes l s = s\<lparr>cur_part := (cur_part s)\<lparr>open_inodes := l\<rparr>\<rparr>"

definition upd_inode :: "addr \<Rightarrow> (inode \<Rightarrow> inode) \<Rightarrow> fs \<Rightarrow> fs" where
  "upd_inode a f s = s\<lparr>inodes := (inodes s)(a := f (inodes s a))\<rparr>"

text \<open>The page directory that inode_open hides while it allocates only chooses the pool of the block.\<close>

definition inode_open :: "u32 \<Rightarrow> fs \<Rightarrow> (addr \<times> fs) res" where
  "inode_open inode_no s =
     (case find (\<lambda>a. i_no (inodes s a) = inode_no) (open_inodes (cur_part s)) of
        Some a \<Rightarrow> Inr (a, upd_inode a (\<lambda>i. i\<lparr>i_open_cnts := i_open_cnts i + 1\<rparr>) s)
      | None \<Rightarrow>
          bindR (inode_locate (cur_part s) inode_no) (\<lambda>pos.
          bindR (kmalloc_used s) (\<lambda>(inode_found, s).
          bindR (kmalloc_used s) (\<lambda>(inode_buf, s).
          bindR (disk_read (disk s) (sec_lba pos) (if two_sec pos then 2 else 1)) (\<lambda>bs.
            let s = upd_inode inode_found (\<lambda>_. bytes_inode (slice bs (unat (off_size pos)) (unat sizeof_inode))) s;
                s = set_open_inodes (inode_found # open_inodes (cur_part s)) s;
                s = upd_inode inode_found (\<lambda>i. i\<lparr>i_open_cnts := 1\<rparr>) s
            in bindR (kfree inode_buf s) (\<lambda>s. Inr (inode_found, s)))))))"

definition inode_close :: "addr \<Rightarrow> fs \<Rightarrow> fs res" where
  "inode_close ip s =
     (let s = upd_inode ip (\<lambda>i. i\<lparr>i_open_cnts := i_open_cnts i - 1\<rparr>) s
      in if i_open_cnts (inodes s ip) = 0
         then kfree ip (set_open_inodes (remove1 ip (open_inodes (cur_part s))) s)
         else Inr s)"

text \<open>The index that counts the thirteen pointers is a byte, which is enough.\<close>

definition inode_init :: "u32 \<Rightarrow> inode" where
  "inode_init inode_no = \<lparr>i_no = inode_no, i_size = 0, i_open_cnts = 0, write_deny = False, i_sectors = replicate 13 0\<rparr>"

section \<open>The record and its bytes\<close>

definition inode_wf :: "inode \<Rightarrow> bool" where
  "inode_wf i \<longleftrightarrow> length (i_sectors i) = 13"

lemma length_inode_bytes: "inode_wf i \<Longrightarrow> length (inode_bytes i) = 76"
  by (simp add: inode_bytes_def inode_wf_def)

lemma inode_roundtrip:
  assumes "inode_wf i"
  shows "bytes_inode (inode_bytes i) = i"
proof -
  let ?h = "le32s_bytes [i_no i, i_size i, i_open_cnts i]"
  let ?t = "[if write_deny i then 1 else 0, 0, 0, 0] @ le32s_bytes (i_sectors i) @ replicate 8 (0 :: u8)"
  have e: "inode_bytes i = ?h @ ?t" by (simp add: inode_bytes_def)
  have n: "le32 (?h @ ?t) (4 * k) = [i_no i, i_size i, i_open_cnts i] ! k" if "k < 3" for k
    using that by (intro le32s_nth) simp
  have "drop 16 (?h @ ?t) = le32s_bytes (i_sectors i) @ replicate 8 0" by simp
  moreover have "le32s (le32s_bytes (i_sectors i) @ replicate 8 0) 13 = i_sectors i"
    using le32s_roundtrip [of "i_sectors i" "replicate 8 0"] assms by (simp add: inode_wf_def)
  moreover have "(?h @ ?t) ! 12 = (if write_deny i then 1 else 0)" by (simp add: nth_append)
  ultimately show ?thesis
    unfolding bytes_inode_def e using n [of 0] n [of 1] n [of 2] by (simp add: numeral_2_eq_2)
qed

section \<open>Locating and writing an inode\<close>

text \<open>The table of inodes as bytes, and the record of number k in it.\<close>

definition inode_table :: "super_block \<Rightarrow> (nat \<Rightarrow> u8 list) \<Rightarrow> u8 list" where
  "inode_table b dk = sectors dk (unat (inode_table_lba b)) 608"

definition disk_inode :: "super_block \<Rightarrow> (nat \<Rightarrow> u8 list) \<Rightarrow> nat \<Rightarrow> inode" where
  "disk_inode b dk k = bytes_inode (slice (inode_table b dk) (76 * k) 76)"

text \<open>The table lies on the disk and inside the partition.\<close>

definition table_fits :: "partition \<Rightarrow> bool" where
  "table_fits p \<longleftrightarrow> unat (inode_table_lba (sb p)) + 608 \<le> 163840
     \<and> unat (inode_table_lba (sb p)) + 608 \<le> unat (part_start p + part_size p)"

lemma le_max_lba: "lba \<le> max_lba \<longleftrightarrow> unat lba < 163840"
  by (auto simp: max_lba_def word_le_nat_alt)

lemma inode_locate_spec:
  assumes no: "unat no < 4096" and t: "table_fits p"
  obtains pos q n where "inode_locate p no = Inr pos" "unat (sec_lba pos) = unat (inode_table_lba (sb p)) + q"
    "n = (if two_sec pos then 2 else 1)" "q + n \<le> 608" "512 * q + unat (off_size pos) = 76 * unat no"
    "unat (off_size pos) + 76 \<le> 512 * n"
proof -
  let ?o = "76 * unat no"
  have u: "unat (no * sizeof_inode) = ?o" using no by (subst unat_mult_u32) (simp_all add: sizeof_inode_def)
  have q: "unat (no * sizeof_inode div 512) = ?o div 512" and r: "unat (no * sizeof_inode mod 512) = ?o mod 512"
    using u by (simp_all add: unat_div unat_mod)
  have le: "no * sizeof_inode mod 512 \<le> 512" using r by (simp add: word_le_nat_alt)
  have l: "unat (512 - no * sizeof_inode mod 512) = 512 - ?o mod 512"
    using unat_sub [OF le] r by simp
  define Q R where "Q = ?o div 512" and "R = ?o mod 512"
  have QR: "512 * Q + R = ?o" unfolding Q_def R_def by (rule mult_div_mod_eq)
  have R: "R < 512" unfolding R_def by (rule mod_less_divisor) simp
  define n where "n = (if 512 - R < 76 then 2 else 1 :: nat)"
  have n: "R + 76 \<le> 512 * n" "Q + n \<le> 608" using QR R no unfolding n_def by auto
  have s: "unat (inode_table_lba (sb p) + no * sizeof_inode div 512) = unat (inode_table_lba (sb p)) + Q"
    using q t n(2) unfolding Q_def [symmetric] by (subst unat_add_u32) (simp_all add: table_fits_def)
  have w: "(512 - no * sizeof_inode mod 512 < sizeof_inode) = (512 - R < 76)"
    using l by (simp add: word_less_nat_alt sizeof_inode_def R_def)
  have lt: "no < 4096" using no by (simp add: word_less_nat_alt)
  show ?thesis
    by (rule that [of "\<lparr>two_sec = (512 - R < 76), sec_lba = inode_table_lba (sb p) + no * sizeof_inode div 512,
          off_size = no * sizeof_inode mod 512\<rparr>" Q n])
      (use lt w s n QR r in \<open>simp_all add: inode_locate_def Let_def n_def R_def\<close>)
qed

text \<open>inode_sync overwrites the record of the number modulo 256 and nothing else.\<close>

lemma inode_sync_effect:
  assumes wf: "inode_wf (inodes s ip)" and t: "table_fits (cur_part s)" and dk: "disk_ok (disk s)"
  obtains d where "inode_sync ip s = Inr (s\<lparr>disk := d\<rparr>)" "disk_ok d"
    "inode_table (sb (cur_part s)) d = put_at (inode_table (sb (cur_part s)) (disk s)) (76 * (unat (i_no (inodes s ip)) mod 256))
       (inode_bytes ((inodes s ip)\<lparr>i_open_cnts := 0, write_deny := False\<rparr>))"
    "\<And>l. l < unat (inode_table_lba (sb (cur_part s))) \<or> unat (inode_table_lba (sb (cur_part s))) + 608 \<le> l \<Longrightarrow> d l = disk s l"
proof -
  let ?p = "cur_part s" and ?i = "inodes s ip" and ?T = "unat (inode_table_lba (sb (cur_part s)))"
  let ?no = "ucast (ucast (i_no ?i) :: u8) :: u32" and ?pure = "?i\<lparr>i_open_cnts := 0, write_deny := False\<rparr>"
  have no: "unat ?no = unat (i_no ?i) mod 256"
    by (simp add: unat_zero_extend) (simp add: unsigned_ucast_eq take_bit_eq_mod)
  have lt: "unat ?no < 4096" unfolding no by (rule less_le_trans [of _ 256]) simp_all
  obtain pos q n where pos: "inode_locate ?p ?no = Inr pos" "unat (sec_lba pos) = ?T + q"
    "n = (if two_sec pos then 2 else 1)" "q + n \<le> 608" "512 * q + unat (off_size pos) = 76 * unat ?no"
    "unat (off_size pos) + 76 \<le> 512 * n"
    by (rule inode_locate_spec [OF lt t])
  let ?cnt = "if two_sec pos then 2 else 1 :: u8"
  have cnt: "unat ?cnt = n" "0 < ?cnt" using pos(3) by simp_all
  have as: "sec_lba pos \<le> part_start ?p + part_size ?p" "sec_lba pos \<le> max_lba"
    using t pos(2,3,4) unfolding le_max_lba by (auto simp: table_fits_def word_le_nat_alt split: if_splits)
  let ?old = "sectors (disk s) (?T + q) n"
  have len: "length ?old = 512 * n" "length (inode_bytes ?pure) = 76"
    using length_sectors [OF dk] length_inode_bytes [of ?pure] wf by (simp_all add: inode_wf_def)
  let ?new = "put_at ?old (unat (off_size pos)) (inode_bytes ?pure)"
  have nl: "length ?new = 512 * n" using len pos(6) by simp
  let ?d = "put_sectors (disk s) (?T + q) ?new"
  have rd: "disk_read (disk s) (sec_lba pos) ?cnt = Inr ?old" using as(2) cnt pos(2) by (simp add: disk_read_def)
  have wr: "disk_write (disk s) (sec_lba pos) ?cnt ?new = Inr ?d" using as(2) cnt pos(2) nl by (simp add: disk_write_def)
  have cp: "copy_to ?old (unat (off_size pos)) (inode_bytes ?pure) = Inr ?new" using len pos(6) by (simp add: copy_to_def)
  have eq: "inode_sync ip s = Inr (s\<lparr>disk := ?d\<rparr>)"
    unfolding inode_sync_def Let_def pos(1) bindR_simps using as(1) rd cp wr by simp
  have tab: "inode_table (sb ?p) ?d = put_at (inode_table (sb ?p) (disk s)) (76 * unat ?no) (inode_bytes ?pure)"
  proof -
    let ?B = "sectors (disk s) ?T 608"
    have "inode_table (sb ?p) ?d = put_at ?B (512 * q) ?new"
      unfolding inode_table_def using sectors_put_sub [OF dk nl pos(4)] .
    also have "\<dots> = put_at ?B (512 * q + unat (off_size pos)) (inode_bytes ?pure)"
      using put_at_put_at [of "unat (off_size pos)" "inode_bytes ?pure" "512 * n" "512 * q" ?B] pos(4,6) len(2)
        length_sectors [OF dk, of ?T 608] slice_sectors [OF dk pos(4), of ?T] by simp
    finally show ?thesis unfolding inode_table_def pos(5) .
  qed
  have out: "?d l = disk s l" if "l < ?T \<or> ?T + 608 \<le> l" for l
    using that pos(4) nl by (auto simp: put_sectors_def)
  show ?thesis by (rule that [OF eq disk_ok_put [OF dk] tab [unfolded no]]) (use out in blast)
qed


lemma disk_inode_put:
  assumes "disk_ok dk" "no < 4096" "k < 4096" "length bs = 76"
    "inode_table b d = put_at (inode_table b dk) (76 * no) bs"
  shows "disk_inode b d k = (if k = no then bytes_inode bs else disk_inode b dk k)"
proof -
  have l: "length (inode_table b dk) = 76 * 4096" using length_sectors [OF assms(1)] by (simp add: inode_table_def)
  show ?thesis
  proof (cases "k = no")
    case True
    have "slice (put_at (inode_table b dk) (76 * no) bs) (76 * no) (length bs) = bs"
      using l assms(2,4) by (intro slice_put_same) simp
    then show ?thesis using True assms(4,5) by (simp add: disk_inode_def)
  next
    case False
    then have "76 * k + 76 \<le> 76 * no \<or> 76 * no + length bs \<le> 76 * k" using assms(4) by linarith
    then have "slice (put_at (inode_table b dk) (76 * no) bs) (76 * k) 76 = slice (inode_table b dk) (76 * k) 76"
      using l assms(2,3,4) by (intro slice_put_other) simp_all
    then show ?thesis using False assms(5) by (simp add: disk_inode_def)
  qed
qed

section \<open>Opening an inode\<close>

lemma inode_open_cached:
  "find (\<lambda>a. i_no (inodes s a) = no) (open_inodes (cur_part s)) = Some a
   \<Longrightarrow> inode_open no s = Inr (a, upd_inode a (\<lambda>i. i\<lparr>i_open_cnts := i_open_cnts i + 1\<rparr>) s)"
  by (simp add: inode_open_def)

lemma inode_open_loads:
  assumes no: "unat no < 4096" and t: "table_fits (cur_part s)" and dk: "disk_ok (disk s)"
    and f: "find (\<lambda>a. i_no (inodes s a) = no) (open_inodes (cur_part s)) = None"
    and m: "mallocs s = a # b # ms" "a \<noteq> 0" "b \<noteq> 0" "a \<noteq> b"
  shows "inode_open no s = Inr (a, set_open_inodes (a # open_inodes (cur_part s))
     (s\<lparr>inodes := (inodes s)(a := (disk_inode (sb (cur_part s)) (disk s) (unat no))\<lparr>i_open_cnts := 1\<rparr>),
        mallocs := ms, held := a # held s\<rparr>))"
proof -
  let ?p = "cur_part s" and ?T = "unat (inode_table_lba (sb (cur_part s)))"
  obtain pos q n where pos: "inode_locate ?p no = Inr pos" "unat (sec_lba pos) = ?T + q"
    "n = (if two_sec pos then 2 else 1)" "q + n \<le> 608" "512 * q + unat (off_size pos) = 76 * unat no"
    "unat (off_size pos) + 76 \<le> 512 * n"
    by (rule inode_locate_spec [OF no t])
  let ?bs = "sectors (disk s) (?T + q) n"
  have "sec_lba pos \<le> max_lba" using t pos(2,3,4) unfolding le_max_lba by (auto simp: table_fits_def split: if_splits)
  then have rd: "disk_read (disk s) (sec_lba pos) (if two_sec pos then 2 else 1) = Inr ?bs"
    using pos(2,3) by (simp add: disk_read_def)
  have "slice ?bs (unat (off_size pos)) 76 = slice (sectors (disk s) ?T 608) (512 * q + unat (off_size pos)) 76"
  proof -
    have "slice (slice B x m) o' 76 = slice B (x + o') 76" if "o' + 76 \<le> m" for B :: "u8 list" and x m o'
      using that by (simp add: slice_def drop_take add.commute min_def)
    then show ?thesis using slice_sectors [OF dk pos(4), of ?T] pos(6) by metis
  qed
  then have "bytes_inode (slice ?bs (unat (off_size pos)) 76) = disk_inode (sb ?p) (disk s) (unat no)"
    by (simp add: disk_inode_def inode_table_def pos(5))
  then show ?thesis
    unfolding inode_open_def f option.case pos(1) bindR_simps
    using m rd by (simp add: kmalloc_used_def kmalloc_def Let_def kfree_def upd_inode_def set_open_inodes_def sizeof_inode_def)
qed

section \<open>The list of open inodes\<close>

text \<open>Open inodes are distinct, carry distinct numbers, are open at least once, and live in blocks held.\<close>

definition opens_ok :: "fs \<Rightarrow> bool" where
  "opens_ok s \<longleftrightarrow> (let l = open_inodes (cur_part s) in
     distinct l \<and> distinct (held s) \<and> 0 \<notin> set (held s) \<and> set l \<subseteq> set (held s)
     \<and> (\<forall>a \<in> set l. \<forall>b \<in> set l. i_no (inodes s a) = i_no (inodes s b) \<longrightarrow> a = b)
     \<and> (\<forall>a \<in> set l. i_open_cnts (inodes s a) \<noteq> 0))"

text \<open>The answers of sys_malloc to come are new blocks.\<close>

definition mallocs_fresh :: "fs \<Rightarrow> bool" where
  "mallocs_fresh s \<longleftrightarrow> distinct (filter (\<lambda>a. a \<noteq> 0) (mallocs s)) \<and> set (mallocs s) \<inter> set (held s) = {}"

definition open_count :: "fs \<Rightarrow> u32 \<Rightarrow> nat" where
  "open_count s no = (case find (\<lambda>a. i_no (inodes s a) = no) (open_inodes (cur_part s)) of
     None \<Rightarrow> 0 | Some a \<Rightarrow> unat (i_open_cnts (inodes s a)))"

lemma opens_okD:
  assumes "opens_ok s" "a \<in> set (open_inodes (cur_part s))"
  shows "a \<in> set (held s)" "i_open_cnts (inodes s a) \<noteq> 0"
    "b \<in> set (open_inodes (cur_part s)) \<Longrightarrow> i_no (inodes s a) = i_no (inodes s b) \<Longrightarrow> a = b"
  using assms by (auto simp: opens_ok_def Let_def)

lemma opens_okI:
  assumes "distinct (open_inodes (cur_part s))" "distinct (held s)" "0 \<notin> set (held s)"
    "set (open_inodes (cur_part s)) \<subseteq> set (held s)"
    "\<And>a b. a \<in> set (open_inodes (cur_part s)) \<Longrightarrow> b \<in> set (open_inodes (cur_part s))
       \<Longrightarrow> i_no (inodes s a) = i_no (inodes s b) \<Longrightarrow> a = b"
    "\<And>a. a \<in> set (open_inodes (cur_part s)) \<Longrightarrow> i_open_cnts (inodes s a) \<noteq> 0"
  shows "opens_ok s"
  using assms unfolding opens_ok_def Let_def by blast

lemma opens_ok_lists:
  assumes "opens_ok s"
  shows "distinct (open_inodes (cur_part s))" "distinct (held s)" "0 \<notin> set (held s)"
    "set (open_inodes (cur_part s)) \<subseteq> set (held s)"
  using assms unfolding opens_ok_def Let_def by blast+

lemma find_open:
  assumes "\<And>b. b \<in> set l \<Longrightarrow> g b = g a \<Longrightarrow> b = a"
  shows "find (\<lambda>b. g b = g a) l = (if a \<in> set l then Some a else None)"
proof (cases "a \<in> set l")
  case True
  then obtain c where "find (\<lambda>b. g b = g a) l = Some c"
    by (cases "find (\<lambda>b. g b = g a) l") (auto simp: find_None_iff)
  moreover have "c = a" using calculation assms by (auto simp: find_Some_iff)
  ultimately show ?thesis using True by simp
next
  case False
  then show ?thesis using assms by (auto simp: find_None_iff)
qed

lemma open_count_in:
  assumes "opens_ok s" "a \<in> set (open_inodes (cur_part s))"
  shows "find (\<lambda>b. i_no (inodes s b) = i_no (inodes s a)) (open_inodes (cur_part s)) = Some a"
    "open_count s (i_no (inodes s a)) = unat (i_open_cnts (inodes s a))"
proof -
  have "find (\<lambda>b. i_no (inodes s b) = i_no (inodes s a)) (open_inodes (cur_part s))
      = (if a \<in> set (open_inodes (cur_part s)) then Some a else None)"
    by (rule find_open) (rule opens_okD(3) [OF assms(1)], use assms(2) in simp_all)
  then show "find (\<lambda>b. i_no (inodes s b) = i_no (inodes s a)) (open_inodes (cur_part s)) = Some a"
    using assms(2) by simp
  then show "open_count s (i_no (inodes s a)) = unat (i_open_cnts (inodes s a))" by (simp add: open_count_def)
qed

lemma open_count_out:
  "open_count s no = 0" if "\<forall>a \<in> set (open_inodes (cur_part s)). i_no (inodes s a) \<noteq> no"
  using that by (simp add: open_count_def find_None_iff split: option.split) (auto simp: find_Some_iff)

text \<open>A step that leaves the numbers of the open inodes, and changes the count of one.\<close>

lemma open_count_upd:
  assumes ok: "opens_ok s" "opens_ok s'" and a: "i_no (inodes s' a) = n"
    and ins: "\<And>b. b \<noteq> a \<Longrightarrow> b \<in> set (open_inodes (cur_part s')) \<longleftrightarrow> b \<in> set (open_inodes (cur_part s))"
    and same: "\<And>b. b \<noteq> a \<Longrightarrow> inodes s' b = inodes s b"
    and old: "a \<in> set (open_inodes (cur_part s)) \<Longrightarrow> i_no (inodes s a) = n"
    and cnt: "open_count s' n = c"
  shows "open_count s' = (open_count s)(n := c)"
proof
  fix m
  show "open_count s' m = ((open_count s)(n := c)) m"
  proof (cases "m = n")
    case False
    show ?thesis
    proof (cases "\<exists>b \<in> set (open_inodes (cur_part s)). i_no (inodes s b) = m")
      case True
      then obtain b where b: "b \<in> set (open_inodes (cur_part s))" "i_no (inodes s b) = m" by blast
      have ne: "b \<noteq> a" using b old False by auto
      have b': "b \<in> set (open_inodes (cur_part s'))" using ins [OF ne] b(1) by simp
      show ?thesis
        using open_count_in(2) [OF ok(1) b(1)] open_count_in(2) [OF ok(2) b'] same [OF ne] b(2) False by simp
    next
      case F: False
      have "\<forall>b \<in> set (open_inodes (cur_part s')). i_no (inodes s' b) \<noteq> m"
      proof
        fix b assume b: "b \<in> set (open_inodes (cur_part s'))"
        show "i_no (inodes s' b) \<noteq> m"
          using F b ins [of b] same [of b] a False by (cases "b = a") auto
      qed
      then show ?thesis using open_count_out [of s' m] open_count_out [of s m] F False by auto
    qed
  qed (use cnt in simp)
qed

lemma inode_open_counts:
  assumes ok: "opens_ok s" and no: "unat no < 4096" and t: "table_fits (cur_part s)" and dk: "disk_ok (disk s)"
    and own: "i_no (disk_inode (sb (cur_part s)) (disk s) (unat no)) = no"
    and m: "mallocs s = x # y # ms" "x \<noteq> 0" "y \<noteq> 0" "mallocs_fresh s"
    and max: "open_count s no < 4294967295"
  shows "\<exists>ip s'. inode_open no s = Inr (ip, s') \<and> opens_ok s' \<and> ip \<in> set (open_inodes (cur_part s'))
     \<and> i_no (inodes s' ip) = no \<and> open_count s' = (open_count s)(no := open_count s no + 1) \<and> disk s' = disk s"
proof (cases "find (\<lambda>a. i_no (inodes s a) = no) (open_inodes (cur_part s))")
  case (Some a)
  then have a: "a \<in> set (open_inodes (cur_part s))" "i_no (inodes s a) = no" by (auto simp: find_Some_iff)
  let ?s = "upd_inode a (\<lambda>i. i\<lparr>i_open_cnts := i_open_cnts i + 1\<rparr>) s"
  have c: "unat (i_open_cnts (inodes s a) + 1) = open_count s no + 1"
    using max Some by (simp add: open_count_def unat_Suc_u32)
  then have nz: "i_open_cnts (inodes s a) + 1 \<noteq> 0" by (auto simp del: unat_eq_zero unat_0_iff)
  have [simp]: "cur_part ?s = cur_part s" "held ?s = held s" "disk ?s = disk s"
    "i_no (inodes ?s b) = i_no (inodes s b)" for b by (simp_all add: upd_inode_def)
  have ok': "opens_ok ?s"
    by (rule opens_okI) (use opens_ok_lists [OF ok] opens_okD [OF ok] nz in \<open>auto simp: upd_inode_def split: if_splits\<close>)
  have "open_count ?s = (open_count s)(no := open_count s no + 1)"
  proof (rule open_count_upd [OF ok ok', where a = a])
    show "open_count ?s no = open_count s no + 1"
      using open_count_in(2) [OF ok', of a] a c by (simp add: upd_inode_def)
  qed (use a in \<open>simp_all add: upd_inode_def\<close>)
  then show ?thesis using inode_open_cached [OF Some] ok' a by auto
next
  case None
  let ?i = "(disk_inode (sb (cur_part s)) (disk s) (unat no))\<lparr>i_open_cnts := 1\<rparr>"
  let ?s = "set_open_inodes (x # open_inodes (cur_part s)) (s\<lparr>inodes := (inodes s)(x := ?i), mallocs := ms, held := x # held s\<rparr>)"
  have x: "x \<notin> set (held s)" "x \<noteq> y" using m by (auto simp: mallocs_fresh_def)
  have nx: "x \<notin> set (open_inodes (cur_part s))" using x(1) opens_okD(1) [OF ok] by blast
  have op: "inode_open no s = Inr (x, ?s)" by (rule inode_open_loads [OF no t dk None m(1-3) x(2)])
  have none: "i_no (inodes s b) \<noteq> no" if "b \<in> set (open_inodes (cur_part s))" for b
    using None that by (auto simp: find_None_iff)
  have [simp]: "open_inodes (cur_part ?s) = x # open_inodes (cur_part s)" "held ?s = x # held s" "disk ?s = disk s"
    "inodes ?s = (inodes s)(x := ?i)" by (simp_all add: set_open_inodes_def)
  have ok': "opens_ok ?s"
  proof (rule opens_okI)
    fix a b assume "a \<in> set (open_inodes (cur_part ?s))" "b \<in> set (open_inodes (cur_part ?s))"
      "i_no (inodes ?s a) = i_no (inodes ?s b)"
    then show "a = b" using opens_okD(3) [OF ok, of a b] none own by (cases "a = x"; cases "b = x") auto
  qed (use opens_ok_lists [OF ok] opens_okD(2) [OF ok] x(1) nx m(2) in \<open>auto split: if_splits\<close>)
  have "open_count ?s = (open_count s)(no := open_count s no + 1)"
  proof (rule open_count_upd [OF ok ok', where a = x])
    show "open_count ?s no = open_count s no + 1"
      using open_count_in(2) [OF ok', of x] own open_count_out [of s no] none by simp
  qed (use own nx in simp_all)
  then show ?thesis using op ok' own by auto
qed

lemma inode_close_counts:
  assumes ok: "opens_ok s" and a: "ip \<in> set (open_inodes (cur_part s))"
  shows "\<exists>s'. inode_close ip s = Inr s' \<and> opens_ok s'
     \<and> open_count s' = (open_count s)(i_no (inodes s ip) := open_count s (i_no (inodes s ip)) - 1)
     \<and> (open_count s (i_no (inodes s ip)) = 1 \<longrightarrow> ip \<notin> set (open_inodes (cur_part s')) \<and> held s' = remove1 ip (held s))
     \<and> disk s' = disk s"
proof -
  let ?n = "i_no (inodes s ip)" and ?s = "upd_inode ip (\<lambda>i. i\<lparr>i_open_cnts := i_open_cnts i - 1\<rparr>) s"
  note c = open_count_in(2) [OF ok a]
  have nz: "i_open_cnts (inodes s ip) \<noteq> 0" and h: "ip \<in> set (held s)" using opens_okD [OF ok a] by blast+
  have dec: "unat (i_open_cnts (inodes s ip) - 1) = unat (i_open_cnts (inodes s ip)) - 1"
    using nz by (subst unat_sub) (simp_all add: word_le_nat_alt unat_gt_0 Suc_le_eq)
  have d: "distinct (open_inodes (cur_part s))" "distinct (held s)" using ok by (simp_all add: opens_ok_def Let_def)
  show ?thesis
  proof (cases "i_open_cnts (inodes s ip) - 1 = 0")
    case True
    let ?t = "set_open_inodes (remove1 ip (open_inodes (cur_part s))) ?s \<lparr>held := remove1 ip (held s)\<rparr>"
    have cl: "inode_close ip s = Inr ?t"
      using True h by (simp add: inode_close_def kfree_def upd_inode_def set_open_inodes_def Let_def)
    have t: "open_inodes (cur_part ?t) = remove1 ip (open_inodes (cur_part s))" "held ?t = remove1 ip (held s)"
      "i_no (inodes ?t b) = i_no (inodes s b)" "b \<noteq> ip \<Longrightarrow> inodes ?t b = inodes s b" "disk ?t = disk s" for b
      by (simp_all add: set_open_inodes_def upd_inode_def)
    have ok': "opens_ok ?t"
    proof (rule opens_okI)
      fix a b assume "a \<in> set (open_inodes (cur_part ?t))" "b \<in> set (open_inodes (cur_part ?t))"
        "i_no (inodes ?t a) = i_no (inodes ?t b)"
      then show "a = b" using opens_okD(3) [OF ok, of a b] d(1) unfolding t by (simp add: set_remove1_eq)
    next
      fix a assume "a \<in> set (open_inodes (cur_part ?t))"
      then have a: "a \<in> set (open_inodes (cur_part s))" "a \<noteq> ip" using d(1) unfolding t by (simp_all add: set_remove1_eq)
      show "i_open_cnts (inodes ?t a) \<noteq> 0" unfolding t(4) [OF a(2)] by (rule opens_okD(2) [OF ok a(1)])
    qed (use opens_ok_lists [OF ok] d in \<open>auto simp: set_open_inodes_def upd_inode_def set_remove1_eq\<close>)
    have one: "open_count s ?n = 1" using c True by simp
    have none: "b \<in> set (open_inodes (cur_part s)) \<Longrightarrow> b \<noteq> ip \<Longrightarrow> i_no (inodes s b) \<noteq> ?n" for b
      using opens_okD(3) [OF ok a, of b] by auto
    have "open_count ?t = (open_count s)(?n := open_count s ?n - 1)"
    proof (rule open_count_upd [OF ok ok', where a = ip])
      show "open_count ?t ?n = open_count s ?n - 1"
        using one d(1) none by (subst open_count_out) (auto simp: set_open_inodes_def upd_inode_def set_remove1_eq)
    qed (use d(1) t in \<open>auto simp: set_remove1_eq\<close>)
    then show ?thesis using cl ok' t d(1) by (auto simp: set_remove1_eq)
  next
    case False
    have cl: "inode_close ip s = Inr ?s" using False by (simp add: inode_close_def upd_inode_def Let_def)
    have t: "cur_part ?s = cur_part s" "held ?s = held s" "disk ?s = disk s" "i_no (inodes ?s b) = i_no (inodes s b)"
      "b \<noteq> ip \<Longrightarrow> inodes ?s b = inodes s b" for b by (simp_all add: upd_inode_def)
    have ok': "opens_ok ?s"
      by (rule opens_okI)
        (use opens_ok_lists [OF ok] opens_okD [OF ok] False in \<open>auto simp: upd_inode_def split: if_splits\<close>)
    have more: "open_count s ?n \<noteq> 1" using c False dec by (auto simp: word_unat_eq_iff)
    have "open_count ?s = (open_count s)(?n := open_count s ?n - 1)"
    proof (rule open_count_upd [OF ok ok', where a = ip])
      show "open_count ?s ?n = open_count s ?n - 1"
        using open_count_in(2) [OF ok', of ip] a c dec by (simp add: t upd_inode_def)
    qed (use t in simp_all)
    then show ?thesis using cl ok' more t by auto
  qed
qed

section \<open>A concrete file system\<close>

text \<open>A disk of zeros, the table of inodes at sector 10, and an inode 5 in memory at 0x5000.\<close>

definition demo_sb :: super_block where
  "demo_sb = \<lparr>magic = 0x20250325, sb_sec_cnt = 2000, inode_cnt = 4096, part_lba_base = 0, block_bitmap_lba = 2,
     block_bitmap_sects = 1, inode_bitmap_lba = 3, inode_bitmap_sects = 1, inode_table_lba = 10, inode_table_sects = 608,
     data_start_lba = 700, root_inode_no = 0, dir_entry_size = 24\<rparr>"

definition demo_part :: partition where
  "demo_part = \<lparr>part_start = 0, part_size = 2000, my_disk = (0, 1), part_name = [0x73, 0x64, 0x62, 0x31], sb = demo_sb,
     block_bitmap = \<lparr>btmp_bytes_len = 512, btmp_bits = 1 # replicate 511 0\<rparr>,
     inode_bitmap = \<lparr>btmp_bytes_len = 512, btmp_bits = 1 # replicate 511 0\<rparr>, open_inodes = []\<rparr>"

definition demo_inode :: inode where
  "demo_inode = \<lparr>i_no = 5, i_size = 48, i_open_cnts = 1, write_deny = False, i_sectors = 700 # replicate 12 0\<rparr>"

definition demo_fs :: fs where
  "demo_fs = \<lparr>disk = (\<lambda>_. replicate 512 0), cur_part = demo_part, inodes = (\<lambda>_. inode_init 0)(0x5000 := demo_inode),
     root_dir = \<lparr>d_inode = 0x6000, dir_pos = 0\<rparr>, dirs = (\<lambda>_. \<lparr>d_inode = 0, dir_pos = 0\<rparr>),
     file_table = replicate 32 \<lparr>fd_pos = 0, fd_flag = 0, fd_inode = 0\<rparr>, fds = replicate 8 0xffffffff,
     mallocs = [0x1000, 0x2000, 0x3000, 0x4000], held = [0x5000, 0x6000], junk = replicate 128 0\<rparr>"

lemma demo_fs_ok: "table_fits (cur_part demo_fs)" "disk_ok (disk demo_fs)" "inode_wf (inodes demo_fs 0x5000)"
  "opens_ok demo_fs" "mallocs_fresh demo_fs"
  by (simp_all add: demo_fs_def demo_part_def demo_sb_def table_fits_def disk_ok_def inode_wf_def demo_inode_def
      opens_ok_def mallocs_fresh_def)

section \<open>Properties\<close>

text \<open>inode_sync writes the inode's record and no other: afterwards the table on the disk holds, at the
  number modulo 256, the inode with its counter and its flag cleared, every other record and every sector
  outside the table is as before. An inode numbered 256 or more is thus written over another one.\<close>
theorem inode_sync_writes:
  assumes "inode_wf (inodes s ip)" "table_fits (cur_part s)" "disk_ok (disk s)"
  shows "\<exists>d. inode_sync ip s = Inr (s\<lparr>disk := d\<rparr>) \<and> disk_ok d
     \<and> (\<forall>k < 4096. disk_inode (sb (cur_part s)) d k
          = (if k = unat (i_no (inodes s ip)) mod 256 then (inodes s ip)\<lparr>i_open_cnts := 0, write_deny := False\<rparr>
             else disk_inode (sb (cur_part s)) (disk s) k))
     \<and> (\<forall>l. l < unat (inode_table_lba (sb (cur_part s))) \<or> unat (inode_table_lba (sb (cur_part s))) + 608 \<le> l \<longrightarrow> d l = disk s l)"
proof -
  let ?b = "sb (cur_part s)" and ?pure = "(inodes s ip)\<lparr>i_open_cnts := 0, write_deny := False\<rparr>"
  let ?no = "unat (i_no (inodes s ip)) mod 256"
  obtain d where d: "inode_sync ip s = Inr (s\<lparr>disk := d\<rparr>)" "disk_ok d"
    "inode_table ?b d = put_at (inode_table ?b (disk s)) (76 * ?no) (inode_bytes ?pure)"
    "\<And>l. l < unat (inode_table_lba ?b) \<or> unat (inode_table_lba ?b) + 608 \<le> l \<Longrightarrow> d l = disk s l"
    using inode_sync_effect [OF assms] by blast
  have wf: "inode_wf ?pure" using assms(1) by (simp add: inode_wf_def)
  have lt: "?no < 4096" by (rule less_le_trans [of _ 256]) simp_all
  have "disk_inode ?b d k = (if k = ?no then ?pure else disk_inode ?b (disk s) k)" if "k < 4096" for k
    using disk_inode_put [OF assms(3) lt that length_inode_bytes [OF wf] d(3)] inode_roundtrip [OF wf] by simp
  then show ?thesis using d(1,2,4) by blast
qed

lemma inode_sync_writes_witness:
  "\<exists>d. inode_sync 0x5000 demo_fs = Inr (demo_fs\<lparr>disk := d\<rparr>)
     \<and> disk_inode demo_sb d 5 = demo_inode\<lparr>i_open_cnts := 0, write_deny := False\<rparr>
     \<and> disk_inode demo_sb d 6 = disk_inode demo_sb (\<lambda>_. replicate 512 0) 6 \<and> d 3 = replicate 512 0"
proof -
  have s: "sb (cur_part demo_fs) = demo_sb" "inodes demo_fs 0x5000 = demo_inode" "i_no demo_inode = 5"
    "disk demo_fs = (\<lambda>_. replicate 512 0)" "inode_table_lba demo_sb = 10"
    by (simp_all add: demo_fs_def demo_part_def demo_inode_def demo_sb_def)
  obtain d where d: "inode_sync 0x5000 demo_fs = Inr (demo_fs\<lparr>disk := d\<rparr>)"
    "\<forall>k < 4096. disk_inode demo_sb d k = (if k = unat (i_no demo_inode) mod 256 then demo_inode\<lparr>i_open_cnts := 0, write_deny := False\<rparr>
             else disk_inode demo_sb (\<lambda>_. replicate 512 0) k)"
    "\<forall>l. l < unat (inode_table_lba demo_sb) \<or> unat (inode_table_lba demo_sb) + 608 \<le> l \<longrightarrow> d l = replicate 512 0"
    using inode_sync_writes [OF demo_fs_ok(3,1,2)] unfolding s(1,2,4) by blast
  show ?thesis using d(1) d(2) [THEN spec, of 5] d(2) [THEN spec, of 6] d(3) [THEN spec, of 3] s(3,5) by auto
qed

text \<open>An inode numbered below 256 that is synchronised and then opened, when it is not open already,
  comes back as it was, with one opening and its flag cleared, at the head of the list of open inodes.\<close>
theorem inode_sync_open_roundtrip:
  assumes "inode_wf (inodes s ip)" "table_fits (cur_part s)" "disk_ok (disk s)" "unat (i_no (inodes s ip)) < 256"
    "\<forall>a \<in> set (open_inodes (cur_part s)). i_no (inodes s a) \<noteq> i_no (inodes s ip)"
    "mallocs s = x # y # ms" "x \<noteq> 0" "y \<noteq> 0" "x \<noteq> y"
  shows "\<exists>s' s''. inode_sync ip s = Inr s' \<and> inode_open (i_no (inodes s ip)) s' = Inr (x, s'')
     \<and> inodes s'' x = (inodes s ip)\<lparr>i_open_cnts := 1, write_deny := False\<rparr>
     \<and> open_inodes (cur_part s'') = x # open_inodes (cur_part s) \<and> held s'' = x # held s"
proof -
  let ?b = "sb (cur_part s)" and ?pure = "(inodes s ip)\<lparr>i_open_cnts := 0, write_deny := False\<rparr>"
  let ?no = "unat (i_no (inodes s ip))"
  obtain d where d: "inode_sync ip s = Inr (s\<lparr>disk := d\<rparr>)" "disk_ok d"
    "inode_table ?b d = put_at (inode_table ?b (disk s)) (76 * (?no mod 256)) (inode_bytes ?pure)"
    using inode_sync_effect [OF assms(1-3)] by blast
  have wf: "inode_wf ?pure" using assms(1) by (simp add: inode_wf_def)
  have lt: "?no mod 256 < 4096" "?no < 4096" "?no mod 256 = ?no" using assms(4) by simp_all
  have r: "disk_inode ?b d ?no = ?pure"
    using disk_inode_put [OF assms(3) lt(1,2) length_inode_bytes [OF wf] d(3)] inode_roundtrip [OF wf] lt(3) by simp
  let ?s = "s\<lparr>disk := d\<rparr>"
  have f: "find (\<lambda>a. i_no (inodes ?s a) = i_no (inodes s ip)) (open_inodes (cur_part ?s)) = None"
    using assms(5) by (simp add: find_None_iff)
  have "inode_open (i_no (inodes s ip)) ?s = Inr (x, set_open_inodes (x # open_inodes (cur_part s))
     (?s\<lparr>inodes := (inodes s)(x := ?pure\<lparr>i_open_cnts := 1\<rparr>), mallocs := ms, held := x # held s\<rparr>))"
    using inode_open_loads [of "i_no (inodes s ip)" ?s, OF lt(2) _ _ f, of x y ms] assms(2,6-9) d(2) r by simp
  then show ?thesis using d(1) by (auto simp: set_open_inodes_def)
qed

lemma inode_sync_open_roundtrip_witness:
  "\<exists>s' s''. inode_sync 0x5000 demo_fs = Inr s' \<and> inode_open 5 s' = Inr (0x1000, s'') \<and> inodes s'' 0x1000 = demo_inode"
proof -
  have s: "i_no (inodes demo_fs 0x5000) = 5" "inodes demo_fs 0x5000 = demo_inode"
    "demo_inode\<lparr>i_open_cnts := 1, write_deny := False\<rparr> = demo_inode" "open_inodes (cur_part demo_fs) = []"
    "mallocs demo_fs = [0x1000, 0x2000, 0x3000, 0x4000]"
    by (simp_all add: demo_fs_def demo_part_def demo_inode_def)
  show ?thesis
    using inode_sync_open_roundtrip [OF demo_fs_ok(3,1,2) _ _ s(5)] s(1-4) by auto
qed

text \<open>C27: The list of open inodes counts, for each number, how often it is open. Opening a number counts one
  more for it and closing an inode one less for its number, nothing for the others; the last close takes
  the inode off the list and frees it. Both keep the list's invariant, and leave the disk.\<close>
theorem open_counts:
  assumes "opens_ok s"
  shows "(unat no < 4096 \<and> table_fits (cur_part s) \<and> disk_ok (disk s) \<and> i_no (disk_inode (sb (cur_part s)) (disk s) (unat no)) = no
       \<and> mallocs s = x # y # ms \<and> x \<noteq> 0 \<and> y \<noteq> 0 \<and> mallocs_fresh s \<and> open_count s no < 4294967295 \<longrightarrow>
       (\<exists>ip s'. inode_open no s = Inr (ip, s') \<and> opens_ok s' \<and> ip \<in> set (open_inodes (cur_part s')) \<and> i_no (inodes s' ip) = no
          \<and> open_count s' = (open_count s)(no := open_count s no + 1) \<and> disk s' = disk s))
     \<and> (ip \<in> set (open_inodes (cur_part s)) \<longrightarrow>
       (\<exists>s'. inode_close ip s = Inr s' \<and> opens_ok s'
          \<and> open_count s' = (open_count s)(i_no (inodes s ip) := open_count s (i_no (inodes s ip)) - 1)
          \<and> (open_count s (i_no (inodes s ip)) = 1 \<longrightarrow> ip \<notin> set (open_inodes (cur_part s')) \<and> held s' = remove1 ip (held s))
          \<and> disk s' = disk s))"
  using inode_open_counts [OF assms] inode_close_counts [OF assms] by blast

lemma open_counts_witness:
  "\<exists>ip s' s''. inode_open 0 demo_fs = Inr (ip, s') \<and> open_count s' 0 = 1 \<and> inode_close ip s' = Inr s'' \<and> open_count s'' 0 = 0"
proof -
  have c: "open_count demo_fs 0 = 0" by (simp add: open_count_def demo_fs_def demo_part_def)
  have z: "disk_inode (sb (cur_part demo_fs)) (disk demo_fs) (unat 0) = bytes_inode (replicate 76 0)"
    by (simp add: demo_fs_def demo_part_def demo_sb_def disk_inode_def inode_table_def sectors_def slice_def
        take_map drop_map map_replicate_const)
  have own: "i_no (disk_inode (sb (cur_part demo_fs)) (disk demo_fs) (unat 0)) = 0"
    unfolding z by (simp add: bytes_inode_def le32_def)
  have m: "mallocs demo_fs = 0x1000 # 0x2000 # [0x3000, 0x4000]" by (simp add: demo_fs_def)
  have "unat (0 :: u32) < 4096 \<and> table_fits (cur_part demo_fs) \<and> disk_ok (disk demo_fs)
      \<and> i_no (disk_inode (sb (cur_part demo_fs)) (disk demo_fs) (unat 0)) = 0
      \<and> mallocs demo_fs = 0x1000 # 0x2000 # [0x3000, 0x4000] \<and> (0x1000 :: addr) \<noteq> 0 \<and> (0x2000 :: addr) \<noteq> 0
      \<and> mallocs_fresh demo_fs \<and> open_count demo_fs 0 < 4294967295"
    using demo_fs_ok own m c by simp
  from conjunct1 [OF open_counts [OF demo_fs_ok(4), where no = 0], rule_format, OF this]
  obtain ip s' where o: "inode_open 0 demo_fs = Inr (ip, s')" "opens_ok s'" "ip \<in> set (open_inodes (cur_part s'))"
    "i_no (inodes s' ip) = 0" "open_count s' = (open_count demo_fs)(0 := open_count demo_fs 0 + 1)" by blast
  have c1: "open_count s' 0 = 1" using o(5) c by simp
  obtain s'' where "inode_close ip s' = Inr s''"
    "open_count s'' = (open_count s')(i_no (inodes s' ip) := open_count s' (i_no (inodes s' ip)) - 1)"
    using conjunct2 [OF open_counts [OF o(2), where ip = ip]] o(3) by blast
  then show ?thesis using o(1,4) c1 by auto
qed

end
