(* ===== verification/Files.thy ===== *)
theory Files
  imports Inode
begin

text \<open>
  fs/file.c without file_create: slots of the file table and of the running thread's descriptors, the
  allocation of inodes and blocks in the bitmaps, and bitmap_sync, which copies the sector of the
  bitmap that holds a bit to the disk. \<open>bitmaps_synced\<close> says that disk and memory agree.
\<close>

section \<open>Slots\<close>

definition MAX_FILE_OPEN :: nat where "MAX_FILE_OPEN = 32"
definition MAX_FILES_OPEN_PER_PROC :: nat where "MAX_FILES_OPEN_PER_PROC = 8"

text \<open>The value -1 of the int functions.\<close>

abbreviation (input) FAIL :: u32 where "FAIL \<equiv> - 1"

function free_slot_loop :: "open_file list \<Rightarrow> nat \<Rightarrow> nat res" where
  "free_slot_loop ft fd_idx =
     (if fd_idx < MAX_FILE_OPEN then
        if \<not> fd_idx < length ft then Inl (Bad_access ''file_table'')
        else if fd_inode (ft ! fd_idx) = NULL then Inr fd_idx else free_slot_loop ft (fd_idx + 1)
      else Inr fd_idx)"
  by pat_completeness auto
termination by (relation "measure (\<lambda>(ft, i). MAX_FILE_OPEN - i)") auto

declare free_slot_loop.simps [simp del]

definition get_free_slot_in_global :: "fs \<Rightarrow> u32 res" where
  "get_free_slot_in_global s =
     bindR (free_slot_loop (file_table s) 3) (\<lambda>fd_idx.
       Inr (if fd_idx = MAX_FILE_OPEN then FAIL else of_nat fd_idx))"

function fd_loop :: "u32 list \<Rightarrow> nat \<Rightarrow> nat res" where
  "fd_loop tab local_fd_idx =
     (if local_fd_idx < MAX_FILES_OPEN_PER_PROC then
        if \<not> local_fd_idx < length tab then Inl (Bad_access ''fd_table'')
        else if tab ! local_fd_idx = FAIL then Inr local_fd_idx else fd_loop tab (local_fd_idx + 1)
      else Inr local_fd_idx)"
  by pat_completeness auto
termination by (relation "measure (\<lambda>(t, i). MAX_FILES_OPEN_PER_PROC - i)") auto

declare fd_loop.simps [simp del]

definition pcb_fd_install :: "u32 \<Rightarrow> fs \<Rightarrow> (u32 \<times> fs) res" where
  "pcb_fd_install global_fd_idx s =
     bindR (fd_loop (fds s) 3) (\<lambda>i.
       Inr (if i = MAX_FILES_OPEN_PER_PROC then (FAIL, s)
            else (of_nat i, s\<lparr>fds := (fds s)[i := global_fd_idx]\<rparr>)))"

section \<open>Inodes and blocks\<close>

definition set_inode_bitmap :: "bitmap \<Rightarrow> fs \<Rightarrow> fs" where
  "set_inode_bitmap bm s = s\<lparr>cur_part := (cur_part s)\<lparr>inode_bitmap := bm\<rparr>\<rparr>"

definition set_block_bitmap :: "bitmap \<Rightarrow> fs \<Rightarrow> fs" where
  "set_block_bitmap bm s = s\<lparr>cur_part := (cur_part s)\<lparr>block_bitmap := bm\<rparr>\<rparr>"

definition inode_bitmap_alloc :: "fs \<Rightarrow> (u32 \<times> fs) res" where
  "inode_bitmap_alloc s =
     bindR (bitmap_scan (inode_bitmap (cur_part s)) 1) (\<lambda>bit_idx.
       if bit_idx = FAIL then Inr (FAIL, s)
       else bindR (bitmap_set (inode_bitmap (cur_part s)) bit_idx 1) (\<lambda>bm.
         Inr (bit_idx, set_inode_bitmap bm s)))"

definition block_bitmap_alloc :: "fs \<Rightarrow> (u32 \<times> fs) res" where
  "block_bitmap_alloc s =
     bindR (bitmap_scan (block_bitmap (cur_part s)) 1) (\<lambda>bit_idx.
       if bit_idx = FAIL then Inr (FAIL, s)
       else bindR (bitmap_set (block_bitmap (cur_part s)) bit_idx 1) (\<lambda>bm.
         Inr (data_start_lba (sb (cur_part s)) + bit_idx, set_block_bitmap bm s)))"

datatype bitmap_type = INODE_BITMAP | BLOCK_BITMAP

definition bitmap_sync :: "u32 \<Rightarrow> bitmap_type \<Rightarrow> fs \<Rightarrow> fs res" where
  "bitmap_sync bit_idx btmp s =
     (let off_sec = bit_idx div 4096;
          off_size = off_sec * 512;
          p = cur_part s;
          (lba, bits) = (case btmp of
             INODE_BITMAP \<Rightarrow> (inode_bitmap_lba (sb p) + off_sec, btmp_bits (inode_bitmap p))
           | BLOCK_BITMAP \<Rightarrow> (block_bitmap_lba (sb p) + off_sec, btmp_bits (block_bitmap p)))
      in bindR (disk_write (disk s) lba 1 (drop (unat off_size) bits)) (\<lambda>dk. Inr (s\<lparr>disk := dk\<rparr>)))"

section \<open>First fit\<close>

lemma scan_one:
  assumes wf: "bm_wf bm" and k: "k < bm_size bm" "\<not> bm_bit bm k" "\<forall>j < k. bm_bit bm j"
  shows "bitmap_scan bm 1 = Inr (of_nat k)"
proof (cases rule: bitmap_scan_cases [OF wf, of 1, case_names full found])
  case full
  then show ?thesis using k by blast
next
  case (found st)
  have "st = k" using found(1-3) k by (cases st k rule: linorder_cases) auto
  then show ?thesis using found(4) by simp
qed

lemma first_free:
  assumes "\<exists>k < n. \<not> P k"
  obtains k where "k < n" "\<not> P k" "\<forall>j < k. P (j :: nat)"
proof -
  obtain i where i: "i < n" "\<not> P i" using assms by blast
  define m where "m = (LEAST i. \<not> P i)"
  have m: "\<not> P m" "m \<le> i" using LeastI [of "\<lambda>i. \<not> P i" i] Least_le [of "\<lambda>i. \<not> P i" i] i(2) unfolding m_def by blast+
  have "\<forall>j < m. P j" using not_less_Least [of _ "\<lambda>i. \<not> P i"] unfolding m_def by blast
  then show ?thesis by (rule that [OF le_less_trans [OF m(2) i(1)] m(1)])
qed

lemma bit_index:
  assumes "bm_wf bm" "k < bm_size bm"
  shows "unat (of_nat k :: u32) = k" "(of_nat k :: u32) \<noteq> FAIL"
proof -
  have b: "k < 2147483648" using assms bm_wf_size by fastforce
  then show u: "unat (of_nat k :: u32) = k" by (simp add: unat_of_nat_u32)
  show "(of_nat k :: u32) \<noteq> FAIL"
  proof
    assume "(of_nat k :: u32) = FAIL"
    then have "unat (of_nat k :: u32) = unat (- 1 :: u32)" by simp
    then show False using u b by (simp add: unsigned_minus_1_eq_mask mask_eq_exp_minus_1)
  qed
qed

lemma block_alloc_eq:
  assumes wf: "bm_wf (block_bitmap (cur_part s))"
    and k: "k < bm_size (block_bitmap (cur_part s))" "\<not> bm_bit (block_bitmap (cur_part s)) k"
      "\<forall>j < k. bm_bit (block_bitmap (cur_part s)) j"
  shows "block_bitmap_alloc s = Inr (data_start_lba (sb (cur_part s)) + of_nat k,
    set_block_bitmap (bm_upd (block_bitmap (cur_part s)) k True) s)"
  using scan_one [OF wf k] bit_index [OF wf k(1)] k(1) by (simp add: block_bitmap_alloc_def bitmap_set_eq [OF wf])

lemma inode_alloc_eq:
  assumes wf: "bm_wf (inode_bitmap (cur_part s))"
    and k: "k < bm_size (inode_bitmap (cur_part s))" "\<not> bm_bit (inode_bitmap (cur_part s)) k"
      "\<forall>j < k. bm_bit (inode_bitmap (cur_part s)) j"
  shows "inode_bitmap_alloc s = Inr (of_nat k, set_inode_bitmap (bm_upd (inode_bitmap (cur_part s)) k True) s)"
  using scan_one [OF wf k] bit_index [OF wf k(1)] k(1) by (simp add: inode_bitmap_alloc_def bitmap_set_eq [OF wf])

section \<open>The copy of a bitmap on the disk\<close>

definition copy_of :: "(nat \<Rightarrow> u8 list) \<Rightarrow> u32 \<Rightarrow> bitmap \<Rightarrow> bool" where
  "copy_of dk lba bm \<longleftrightarrow> (let N = length (btmp_bits bm) div 512 in length (btmp_bits bm) = 512 * N
     \<and> unat lba + N \<le> 163840 \<and> sectors dk (unat lba) N = btmp_bits bm)"

lemma sector_of_update:
  assumes dk: "disk_ok dk" and bs: "length bs = 512 * N" "sectors dk l N = bs" and p: "p < length bs"
  shows "sectors (put_sectors dk (l + p div 512) (slice (bs[p := v]) (512 * (p div 512)) 512)) l N = bs[p := v]"
proof -
  let ?q = "p div 512" and ?bs = "bs[p := v]"
  have q: "?q + 1 \<le> N" using p bs(1) by (simp add: div_less_iff_less_mult)
  then have len: "length (slice ?bs (512 * ?q) 512) = 512 * 1" using bs(1) by simp
  have "sectors (put_sectors dk (l + ?q) (slice ?bs (512 * ?q) 512)) l N = put_at bs (512 * ?q) (slice ?bs (512 * ?q) 512)"
    using sectors_put_sub [OF dk len q, of l] bs(2) by simp
  also have "\<dots> = ?bs"
  proof (rule nth_equalityI)
    show "length (put_at bs (512 * ?q) (slice ?bs (512 * ?q) 512)) = length ?bs" using q bs(1) by simp
    fix i assume "i < length (put_at bs (512 * ?q) (slice ?bs (512 * ?q) 512))"
    then have i: "i < length bs" using q bs(1) by simp
    have "512 * ?q \<le> p" "p < 512 * ?q + 512" using mult_div_mod_eq [of 512 p] mod_less_divisor [of 512 p] by linarith+
    then show "put_at bs (512 * ?q) (slice ?bs (512 * ?q) 512) ! i = ?bs ! i"
      using i q bs(1) by (auto simp: nth_put_at nth_list_update) (auto simp: slice_def nth_list_update)
  qed
  finally show ?thesis .
qed

lemma sync_copies:
  assumes dk: "disk_ok dk" and wf: "bm_wf bm" and c: "copy_of dk lba bm" and k: "k < bm_size bm"
    and b_def: "b = bm_upd bm k v"
  obtains d where "disk_write dk (lba + of_nat k div 4096) 1 (drop (unat (of_nat k div 4096 * 512 :: u32)) (btmp_bits b)) = Inr d"
    "disk_ok d" "copy_of d lba b" "\<And>l. l < unat lba \<or> unat lba + length (btmp_bits bm) div 512 \<le> l \<Longrightarrow> d l = dk l"
proof -
  let ?N = "length (btmp_bits bm) div 512"
  have N: "length (btmp_bits bm) = 512 * ?N" "unat lba + ?N \<le> 163840" "sectors dk (unat lba) ?N = btmp_bits bm"
    using c by (simp_all add: copy_of_def Let_def)
  define p where "p = k div 8"
  have p: "p < length (btmp_bits bm)" using k by (simp add: p_def bm_size_def div_less_iff_less_mult mult.commute)
  define w where "w = btmp_bits b ! p"
  have b: "btmp_bits b = (btmp_bits bm)[p := w]" using p by (simp add: b_def bm_upd_def p_def w_def)
  have q: "k div 4096 = p div 512" by (simp add: p_def div_mult2_eq [symmetric])
  have qN: "p div 512 < ?N" using p N(1) by (metis less_mult_imp_div_less mult.commute)
  have u: "unat (of_nat k div 4096 :: u32) = p div 512" using bit_index(1) [OF wf k] q by (simp add: unat_div)
  have u2: "unat (of_nat k div 4096 * 512 :: u32) = 512 * (p div 512)"
    using u qN N(2) by (subst unat_mult_u32) simp_all
  have u3: "unat (lba + of_nat k div 4096) = unat lba + p div 512" using u qN N(2) by (subst unat_add_u32) simp_all
  let ?bs = "slice ((btmp_bits bm)[p := w]) (512 * (p div 512)) 512"
  let ?d = "put_sectors dk (unat lba + p div 512) ?bs"
  have l: "lba + of_nat k div 4096 \<le> max_lba" unfolding le_max_lba u3 using qN N(2) by simp
  have "512 * (p div 512) + 512 \<le> length (btmp_bits bm)" using qN N(1) by simp
  then have wr: "disk_write dk (lba + of_nat k div 4096) 1 (drop (unat (of_nat k div 4096 * 512 :: u32)) (btmp_bits b)) = Inr ?d"
    using l u2 u3 b by (simp add: disk_write_def slice_def)
  have "sectors ?d (unat lba) ?N = (btmp_bits bm)[p := w]" by (rule sector_of_update [OF dk N(1,3) p])
  then have cp: "copy_of ?d lba b" using N b by (simp add: copy_of_def Let_def)
  have out: "?d l = dk l" if "l < unat lba \<or> unat lba + ?N \<le> l" for l
    using that qN by (auto simp: put_sectors_def slice_def)
  show ?thesis by (rule that [OF wr disk_ok_put [OF dk] cp]) (use out in blast)
qed

section \<open>Descriptors\<close>

lemma free_slot_loop_spec:
  "i \<le> MAX_FILE_OPEN \<Longrightarrow> length ft = MAX_FILE_OPEN \<Longrightarrow>
    \<exists>j. free_slot_loop ft i = Inr j \<and> i \<le> j \<and> j \<le> MAX_FILE_OPEN \<and> (\<forall>k. i \<le> k \<and> k < j \<longrightarrow> fd_inode (ft ! k) \<noteq> NULL)
      \<and> (j < MAX_FILE_OPEN \<longrightarrow> fd_inode (ft ! j) = NULL)"
proof (induction ft i rule: free_slot_loop.induct)
  case (1 ft i)
  show ?case
  proof (cases "i < MAX_FILE_OPEN \<and> fd_inode (ft ! i) \<noteq> NULL")
    case True
    then obtain j where j: "free_slot_loop ft (i + 1) = Inr j" "i + 1 \<le> j" "j \<le> MAX_FILE_OPEN"
      "\<forall>k. i + 1 \<le> k \<and> k < j \<longrightarrow> fd_inode (ft ! k) \<noteq> NULL" "j < MAX_FILE_OPEN \<longrightarrow> fd_inode (ft ! j) = NULL"
      using 1 by (auto simp: Suc_le_eq)
    then have "free_slot_loop ft i = Inr j" using True 1(3) by (subst free_slot_loop.simps) simp
    moreover have "\<forall>k. i \<le> k \<and> k < j \<longrightarrow> fd_inode (ft ! k) \<noteq> NULL"
      using all_from_Suc [of "\<lambda>k. fd_inode (ft ! k) \<noteq> NULL" i j] j(4) True by simp
    ultimately show ?thesis using j(2,3,5) by (intro exI [of _ j]) simp
  next
    case False
    then have "free_slot_loop ft i = Inr i" using 1(2,3) by (subst free_slot_loop.simps) auto
    then show ?thesis using False 1(2) by (intro exI [of _ i]) auto
  qed
qed

lemma fd_loop_spec:
  "i \<le> MAX_FILES_OPEN_PER_PROC \<Longrightarrow> length tab = MAX_FILES_OPEN_PER_PROC \<Longrightarrow>
    \<exists>j. fd_loop tab i = Inr j \<and> i \<le> j \<and> j \<le> MAX_FILES_OPEN_PER_PROC \<and> (\<forall>k. i \<le> k \<and> k < j \<longrightarrow> tab ! k \<noteq> FAIL)
      \<and> (j < MAX_FILES_OPEN_PER_PROC \<longrightarrow> tab ! j = FAIL)"
proof (induction tab i rule: fd_loop.induct)
  case (1 tab i)
  show ?case
  proof (cases "i < MAX_FILES_OPEN_PER_PROC \<and> tab ! i \<noteq> FAIL")
    case True
    then obtain j where j: "fd_loop tab (i + 1) = Inr j" "i + 1 \<le> j" "j \<le> MAX_FILES_OPEN_PER_PROC"
      "\<forall>k. i + 1 \<le> k \<and> k < j \<longrightarrow> tab ! k \<noteq> FAIL" "j < MAX_FILES_OPEN_PER_PROC \<longrightarrow> tab ! j = FAIL"
      using 1 by (auto simp: Suc_le_eq)
    then have "fd_loop tab i = Inr j" using True 1(3) by (subst fd_loop.simps) simp
    moreover have "\<forall>k. i \<le> k \<and> k < j \<longrightarrow> tab ! k \<noteq> FAIL"
      using all_from_Suc [of "\<lambda>k. tab ! k \<noteq> FAIL" i j] j(4) True by simp
    ultimately show ?thesis using j(2,3,5) by (intro exI [of _ j]) simp
  next
    case False
    then have "fd_loop tab i = Inr i" using 1(2,3) by (subst fd_loop.simps) auto
    then show ?thesis using False 1(2) by (intro exI [of _ i]) auto
  qed
qed

section \<open>Disk and memory agree\<close>

text \<open>ib is the inode bitmap on the disk: it differs from the one in memory while a file is being created.\<close>

definition agree :: "bitmap \<Rightarrow> fs \<Rightarrow> bool" where
  "agree ib s \<longleftrightarrow> (let p = cur_part s in disk_ok (disk s)
     \<and> bm_wf (block_bitmap p) \<and> copy_of (disk s) (block_bitmap_lba (sb p)) (block_bitmap p)
     \<and> bm_wf ib \<and> copy_of (disk s) (inode_bitmap_lba (sb p)) ib
     \<and> length (btmp_bits ib) = length (btmp_bits (inode_bitmap p))
     \<and> unat (block_bitmap_lba (sb p)) + length (btmp_bits (block_bitmap p)) div 512 \<le> unat (inode_bitmap_lba (sb p)))"

definition synced :: "fs \<Rightarrow> bool" where
  "synced s \<longleftrightarrow> agree (inode_bitmap (cur_part s)) s"

lemma copy_of_other:
  assumes "copy_of dk lba bm" "\<And>l. unat lba \<le> l \<and> l < unat lba + length (btmp_bits bm) div 512 \<Longrightarrow> d l = dk l"
  shows "copy_of d lba bm"
proof -
  have "map d [unat lba..<unat lba + length (btmp_bits bm) div 512] = map dk [unat lba..<unat lba + length (btmp_bits bm) div 512]"
    using assms(2) by (intro map_cong) auto
  then have "sectors d (unat lba) (length (btmp_bits bm) div 512) = sectors dk (unat lba) (length (btmp_bits bm) div 512)"
    by (simp only: sectors_def)
  then show ?thesis using assms(1) by (simp add: copy_of_def)
qed

lemma length_bm_upd [simp]: "length (btmp_bits (bm_upd bm k v)) = length (btmp_bits bm)"
  by (simp add: bm_upd_def)

lemma block_alloc_agree:
  assumes s: "agree ib s" and k: "k < bm_size (block_bitmap (cur_part s))" "\<not> bm_bit (block_bitmap (cur_part s)) k"
    "\<forall>j < k. bm_bit (block_bitmap (cur_part s)) j"
  obtains d where "block_bitmap_alloc s = Inr (data_start_lba (sb (cur_part s)) + of_nat k,
      set_block_bitmap (bm_upd (block_bitmap (cur_part s)) k True) s)"
    "bitmap_sync (of_nat k) BLOCK_BITMAP (set_block_bitmap (bm_upd (block_bitmap (cur_part s)) k True) s)
       = Inr ((set_block_bitmap (bm_upd (block_bitmap (cur_part s)) k True) s)\<lparr>disk := d\<rparr>)"
    "agree ib ((set_block_bitmap (bm_upd (block_bitmap (cur_part s)) k True) s)\<lparr>disk := d\<rparr>)"
    "\<And>l. l < unat (block_bitmap_lba (sb (cur_part s)))
       \<or> unat (block_bitmap_lba (sb (cur_part s))) + length (btmp_bits (block_bitmap (cur_part s))) div 512 \<le> l \<Longrightarrow> d l = disk s l"
proof -
  let ?p = "cur_part s" and ?bm = "block_bitmap (cur_part s)"
  have S: "disk_ok (disk s)" "bm_wf ?bm" "copy_of (disk s) (block_bitmap_lba (sb ?p)) ?bm"
    "bm_wf ib" "copy_of (disk s) (inode_bitmap_lba (sb ?p)) ib"
    "length (btmp_bits ib) = length (btmp_bits (inode_bitmap ?p))"
    "unat (block_bitmap_lba (sb ?p)) + length (btmp_bits ?bm) div 512 \<le> unat (inode_bitmap_lba (sb ?p))"
    using s by (simp_all add: agree_def Let_def)
  let ?b = "bm_upd ?bm k True"
  obtain d where d: "disk_write (disk s) (block_bitmap_lba (sb ?p) + of_nat k div 4096) 1
       (drop (unat (of_nat k div 4096 * 512 :: u32)) (btmp_bits ?b)) = Inr d"
    "disk_ok d" "copy_of d (block_bitmap_lba (sb ?p)) ?b"
    "\<And>l. l < unat (block_bitmap_lba (sb ?p)) \<or> unat (block_bitmap_lba (sb ?p)) + length (btmp_bits ?bm) div 512 \<le> l \<Longrightarrow> d l = disk s l"
    using sync_copies [where b = ?b and v = True, OF S(1-3) k(1) refl] by blast
  have i: "copy_of d (inode_bitmap_lba (sb ?p)) ib"
    by (rule copy_of_other [OF S(5)]) (use d(4) S(7) in auto)
  show ?thesis
    by (rule that [OF block_alloc_eq [OF S(2) k] _ _ d(4)])
      (use d(1-3) i S(2,4,6,7) in \<open>simp_all add: bitmap_sync_def set_block_bitmap_def agree_def Let_def\<close>)
qed

lemma inode_bitmap_sync_agree:
  assumes s: "agree ib s" and k: "k < bm_size ib" and m: "inode_bitmap (cur_part s) = bm_upd ib k v"
  obtains d where "bitmap_sync (of_nat k) INODE_BITMAP s = Inr (s\<lparr>disk := d\<rparr>)" "synced (s\<lparr>disk := d\<rparr>)"
    "\<And>l. l < unat (inode_bitmap_lba (sb (cur_part s)))
       \<or> unat (inode_bitmap_lba (sb (cur_part s))) + length (btmp_bits ib) div 512 \<le> l \<Longrightarrow> d l = disk s l"
proof -
  let ?p = "cur_part s"
  have S: "disk_ok (disk s)" "bm_wf ib" "copy_of (disk s) (inode_bitmap_lba (sb ?p)) ib"
    "bm_wf (block_bitmap ?p)" "copy_of (disk s) (block_bitmap_lba (sb ?p)) (block_bitmap ?p)"
    "unat (block_bitmap_lba (sb ?p)) + length (btmp_bits (block_bitmap ?p)) div 512 \<le> unat (inode_bitmap_lba (sb ?p))"
    using s by (simp_all add: agree_def Let_def)
  obtain d where d: "disk_write (disk s) (inode_bitmap_lba (sb ?p) + of_nat k div 4096) 1
       (drop (unat (of_nat k div 4096 * 512 :: u32)) (btmp_bits (bm_upd ib k v))) = Inr d"
    "disk_ok d" "copy_of d (inode_bitmap_lba (sb ?p)) (bm_upd ib k v)"
    "\<And>l. l < unat (inode_bitmap_lba (sb ?p)) \<or> unat (inode_bitmap_lba (sb ?p)) + length (btmp_bits ib) div 512 \<le> l \<Longrightarrow> d l = disk s l"
    using sync_copies [where b = "bm_upd ib k v" and v = v, OF S(1-3) k refl] by blast
  have i: "copy_of d (block_bitmap_lba (sb ?p)) (block_bitmap ?p)"
    by (rule copy_of_other [OF S(5)]) (use d(4) S(6) in auto)
  show ?thesis
    by (rule that [OF _ _ d(4)])
      (use d(1-3) i S(2,4,6) m in \<open>simp_all add: bitmap_sync_def synced_def agree_def Let_def\<close>)
qed

lemma inode_alloc_sync:
  assumes s: "synced s" and k: "k < bm_size (inode_bitmap (cur_part s))" "\<not> bm_bit (inode_bitmap (cur_part s)) k"
    "\<forall>j < k. bm_bit (inode_bitmap (cur_part s)) j"
  obtains d where "inode_bitmap_alloc s = Inr (of_nat k, set_inode_bitmap (bm_upd (inode_bitmap (cur_part s)) k True) s)"
    "bitmap_sync (of_nat k) INODE_BITMAP (set_inode_bitmap (bm_upd (inode_bitmap (cur_part s)) k True) s)
       = Inr ((set_inode_bitmap (bm_upd (inode_bitmap (cur_part s)) k True) s)\<lparr>disk := d\<rparr>)"
    "synced ((set_inode_bitmap (bm_upd (inode_bitmap (cur_part s)) k True) s)\<lparr>disk := d\<rparr>)"
proof -
  let ?b = "bm_upd (inode_bitmap (cur_part s)) k True"
  let ?s = "set_inode_bitmap ?b s"
  have a: "agree (inode_bitmap (cur_part s)) s" using s by (simp add: synced_def)
  then have "bm_wf (inode_bitmap (cur_part s))" by (simp add: agree_def Let_def)
  note al = inode_alloc_eq [OF this k]
  have a': "agree (inode_bitmap (cur_part s)) ?s" using a by (simp add: agree_def set_inode_bitmap_def Let_def)
  have m: "inode_bitmap (cur_part ?s) = ?b" by (simp add: set_inode_bitmap_def)
  show ?thesis by (rule inode_bitmap_sync_agree [OF a' k(1) m]) (rule that [OF al])
qed

section \<open>Properties\<close>

definition demo_disk :: "nat \<Rightarrow> u8 list" where
  "demo_disk l = (if l = 2 \<or> l = 3 then 1 # replicate 511 0 else replicate 512 0)"

definition demo_synced :: fs where
  "demo_synced = demo_fs\<lparr>disk := demo_disk\<rparr>"

lemma demo_synced_ok: "synced demo_synced"
  by (simp add: synced_def agree_def demo_synced_def demo_fs_def demo_part_def demo_sb_def disk_ok_def demo_disk_def
      bm_wf_def copy_of_def sectors_def Let_def)

text \<open>As long as the copies of the two bitmaps on the disk agree with those in memory, allocating a block
  or an inode hands out the first free one, marks it and nothing else, and bitmap_sync of its number
  makes the copies agree again. When none is free the kernel stops: the callers never see the -1 they
  test for.\<close>
theorem alloc_and_sync:
  assumes "synced s"
  shows "(\<forall>k. k < bm_size (block_bitmap (cur_part s)) \<and> \<not> bm_bit (block_bitmap (cur_part s)) k
         \<and> (\<forall>j < k. bm_bit (block_bitmap (cur_part s)) j) \<longrightarrow>
       (\<exists>s1 s2. block_bitmap_alloc s = Inr (data_start_lba (sb (cur_part s)) + of_nat k, s1)
          \<and> bitmap_sync (of_nat k) BLOCK_BITMAP s1 = Inr s2 \<and> synced s2
          \<and> bm_bit (block_bitmap (cur_part s2)) = (bm_bit (block_bitmap (cur_part s)))(k := True)
          \<and> inode_bitmap (cur_part s2) = inode_bitmap (cur_part s)))
     \<and> (\<forall>k. k < bm_size (inode_bitmap (cur_part s)) \<and> \<not> bm_bit (inode_bitmap (cur_part s)) k
         \<and> (\<forall>j < k. bm_bit (inode_bitmap (cur_part s)) j) \<longrightarrow>
       (\<exists>s1 s2. inode_bitmap_alloc s = Inr (of_nat k, s1)
          \<and> bitmap_sync (of_nat k) INODE_BITMAP s1 = Inr s2 \<and> synced s2
          \<and> bm_bit (inode_bitmap (cur_part s2)) = (bm_bit (inode_bitmap (cur_part s)))(k := True)
          \<and> block_bitmap (cur_part s2) = block_bitmap (cur_part s)))
     \<and> ((\<forall>j < bm_size (block_bitmap (cur_part s)). bm_bit (block_bitmap (cur_part s)) j) \<longrightarrow> \<not> is_ok (block_bitmap_alloc s))
     \<and> ((\<forall>j < bm_size (inode_bitmap (cur_part s)). bm_bit (inode_bitmap (cur_part s)) j) \<longrightarrow> \<not> is_ok (inode_bitmap_alloc s))"
proof (intro conjI allI impI)
  fix k assume k: "k < bm_size (block_bitmap (cur_part s)) \<and> \<not> bm_bit (block_bitmap (cur_part s)) k
      \<and> (\<forall>j < k. bm_bit (block_bitmap (cur_part s)) j)"
  show "\<exists>s1 s2. block_bitmap_alloc s = Inr (data_start_lba (sb (cur_part s)) + of_nat k, s1)
      \<and> bitmap_sync (of_nat k) BLOCK_BITMAP s1 = Inr s2 \<and> synced s2
      \<and> bm_bit (block_bitmap (cur_part s2)) = (bm_bit (block_bitmap (cur_part s)))(k := True)
      \<and> inode_bitmap (cur_part s2) = inode_bitmap (cur_part s)"
    by (rule block_alloc_agree [OF assms [unfolded synced_def], of k]) (use k in \<open>auto simp: set_block_bitmap_def synced_def\<close>)
next
  fix k assume k: "k < bm_size (inode_bitmap (cur_part s)) \<and> \<not> bm_bit (inode_bitmap (cur_part s)) k
      \<and> (\<forall>j < k. bm_bit (inode_bitmap (cur_part s)) j)"
  show "\<exists>s1 s2. inode_bitmap_alloc s = Inr (of_nat k, s1)
      \<and> bitmap_sync (of_nat k) INODE_BITMAP s1 = Inr s2 \<and> synced s2
      \<and> bm_bit (inode_bitmap (cur_part s2)) = (bm_bit (inode_bitmap (cur_part s)))(k := True)
      \<and> block_bitmap (cur_part s2) = block_bitmap (cur_part s)"
    by (rule inode_alloc_sync [OF assms, of k]) (use k in \<open>auto simp: set_inode_bitmap_def\<close>)
next
  have wf: "bm_wf (block_bitmap (cur_part s))" "bm_wf (inode_bitmap (cur_part s))"
    using assms by (simp_all add: synced_def agree_def Let_def)
  show "\<not> is_ok (block_bitmap_alloc s)" if "\<forall>j < bm_size (block_bitmap (cur_part s)). bm_bit (block_bitmap (cur_part s)) j"
    using that by (cases rule: bitmap_scan_cases [OF wf(1), of 1]) (auto simp: block_bitmap_alloc_def)
  show "\<not> is_ok (inode_bitmap_alloc s)" if "\<forall>j < bm_size (inode_bitmap (cur_part s)). bm_bit (inode_bitmap (cur_part s)) j"
    using that by (cases rule: bitmap_scan_cases [OF wf(2), of 1]) (auto simp: inode_bitmap_alloc_def)
qed

lemma alloc_and_sync_witness:
  "\<exists>s1 s2. block_bitmap_alloc demo_synced = Inr (701, s1) \<and> bitmap_sync 1 BLOCK_BITMAP s1 = Inr s2 \<and> synced s2"
proof -
  have "1 < bm_size (block_bitmap (cur_part demo_synced)) \<and> \<not> bm_bit (block_bitmap (cur_part demo_synced)) 1
      \<and> (\<forall>j < 1. bm_bit (block_bitmap (cur_part demo_synced)) j)"
    by (simp add: demo_synced_def demo_fs_def demo_part_def bm_size_def bm_bit_def bit_1_iff)
  from conjunct1 [OF alloc_and_sync [OF demo_synced_ok], rule_format, OF this]
  show ?thesis by (auto simp: demo_synced_def demo_fs_def demo_part_def demo_sb_def)
qed

end
