(* ===== verification/Dirs.thy ===== *)
theory Dirs
  imports Files
begin

text \<open>
  fs/dir.c: directories. An entry is the 24 bytes of struct dir_entry (16 of name, the number, the type);
  a name buffer is a list of bytes with its terminator inside. A directory's blocks are the twelve direct
  pointers and the 128 of the indirect table.
\<close>

section \<open>Entries\<close>

definition MAX_FILE_NAME_LEN :: nat where "MAX_FILE_NAME_LEN = 16"

definition FT_UNKNOWN :: u32 where "FT_UNKNOWN = 0"
definition FT_REGULAR :: u32 where "FT_REGULAR = 1"
definition FT_DIRECTORY :: u32 where "FT_DIRECTORY = 2"

definition sizeof_dir_entry :: nat where "sizeof_dir_entry = 24"

definition de_ino :: "u8 list \<Rightarrow> u32" where "de_ino e = le32 e 16"
definition de_type :: "u8 list \<Rightarrow> u32" where "de_type e = le32 e 20"

text \<open>strcmp as the callers test it, on the bytes from two places on.\<close>

fun str_equal :: "u8 list \<Rightarrow> u8 list \<Rightarrow> bool res" where
  "str_equal (a # as) (b # bs) = (if a \<noteq> b then Inr False else if a = 0 then Inr True else str_equal as bs)"
| "str_equal _ _ = Inl (Bad_access ''strcmp'')"

definition create_dir_entry :: "u8 list \<Rightarrow> u32 \<Rightarrow> u8 \<Rightarrow> u8 list \<Rightarrow> u8 list res" where
  "create_dir_entry filename inode_no file_type p_de =
     (if \<not> length filename \<le> MAX_FILE_NAME_LEN then Inl (Assertion ''strlen(filename) <= MAX_FILE_NAME_LEN'')
      else bindR (copy_to p_de 0 filename) (\<lambda>p_de.
           bindR (copy_to p_de 16 (le32_bytes inode_no)) (\<lambda>p_de.
             copy_to p_de 20 (le32_bytes (ucast file_type)))))"

section \<open>Opening and closing\<close>

datatype dir_ptr = Root_dir | Dir addr

fun the_dir :: "dir_ptr \<Rightarrow> fs \<Rightarrow> dir" where
  "the_dir Root_dir s = root_dir s"
| "the_dir (Dir a) s = dirs s a"

definition open_root_dir :: "fs \<Rightarrow> fs res" where
  "open_root_dir s =
     bindR (inode_open (root_inode_no (sb (cur_part s))) s) (\<lambda>(ip, s).
       Inr (s\<lparr>root_dir := \<lparr>d_inode = ip, dir_pos = 0\<rparr>\<rparr>))"

definition dir_open :: "u32 \<Rightarrow> fs \<Rightarrow> (dir_ptr \<times> fs) res" where
  "dir_open inode_no s =
     bindR (kmalloc_used s) (\<lambda>(pdir, s).
     bindR (inode_open inode_no s) (\<lambda>(ip, s).
       Inr (Dir pdir, s\<lparr>dirs := (dirs s)(pdir := \<lparr>d_inode = ip, dir_pos = 0\<rparr>)\<rparr>)))"

fun dir_close :: "dir_ptr \<Rightarrow> fs \<Rightarrow> fs res" where
  "dir_close Root_dir s = Inr s"
| "dir_close (Dir a) s = bindR (inode_close (d_inode (dirs s a)) s) (kfree a)"

section \<open>Searching\<close>

fun entry_loop :: "u8 list \<Rightarrow> u8 list \<Rightarrow> nat \<Rightarrow> nat \<Rightarrow> nat option res" where
  "entry_loop buf name 0 i = Inr None"
| "entry_loop buf name (Suc n) i =
     bindR (str_equal (drop (sizeof_dir_entry * i) buf) name) (\<lambda>e.
       if e then Inr (Some i) else entry_loop buf name n (i + 1))"

text \<open>The loop over the blocks; dir_e is where the entry is copied to.\<close>

fun search_blocks :: "(nat \<Rightarrow> u8 list) \<Rightarrow> nat \<Rightarrow> nat \<Rightarrow> u8 list \<Rightarrow> u8 list \<Rightarrow> u32 list \<Rightarrow> u8 list option res" where
  "search_blocks dk entry_size cnt name dir_e [] = Inr None"
| "search_blocks dk entry_size cnt name dir_e (b # bs) =
     (if b = 0 then search_blocks dk entry_size cnt name dir_e bs
      else bindR (disk_read dk b 1) (\<lambda>buf.
           bindR (entry_loop buf name cnt 0) (\<lambda>r. case r of
             Some i \<Rightarrow> if length buf < sizeof_dir_entry * i + entry_size then Inl (Bad_access ''memcpy'')
                       else bindR (copy_to dir_e 0 (slice buf (sizeof_dir_entry * i) entry_size)) (\<lambda>e. Inr (Some e))
           | None \<Rightarrow> search_blocks dk entry_size cnt name dir_e bs)))"

definition search_dir_entry :: "dir_ptr \<Rightarrow> u8 list \<Rightarrow> u8 list \<Rightarrow> fs \<Rightarrow> (u8 list option \<times> fs) res" where
  "search_dir_entry pdir name dir_e s =
     (let (all_block, s) = kmalloc s;
          ip = inodes s (d_inode (the_dir pdir s))
      in if all_block = NULL then Inr (None, s)
      else bindR (if i_sectors ip ! 12 \<noteq> 0
                  then bindR (disk_read (disk s) (i_sectors ip ! 12) 1) (\<lambda>bs. Inr (le32s bs 128))
                  else Inr (take 128 (junk s))) (\<lambda>indirect.
        bindR (kmalloc_used s) (\<lambda>(buf, s).
          let entry_size = unat (dir_entry_size (sb (cur_part s))) in
          if entry_size = 0 then Inl (Bad_access ''division by zero'')
          else bindR (search_blocks (disk s) entry_size (512 div entry_size) name dir_e (take 12 (i_sectors ip) @ indirect)) (\<lambda>r.
               bindR (kfree buf s) (\<lambda>s.
               bindR (kfree all_block s) (\<lambda>s. Inr (r, s)))))))"

section \<open>Writing an entry\<close>

text \<open>The first entry of the buffer whose type is FT_UNKNOWN.\<close>

fun unknown_loop :: "u8 list \<Rightarrow> nat \<Rightarrow> nat \<Rightarrow> nat option res" where
  "unknown_loop io_buf 0 i = Inr None"
| "unknown_loop io_buf (Suc n) i =
     (if length io_buf < sizeof_dir_entry * i + sizeof_dir_entry then Inl (Bad_access ''io_buf'')
      else if le32 io_buf (sizeof_dir_entry * i + 20) = FT_UNKNOWN then Inr (Some i) else unknown_loop io_buf n (i + 1))"

text \<open>An unused block: it is allocated and entered among the direct pointers or in the indirect table,
  whose own block is allocated with the first pointer in it. None is a return of false.\<close>

definition new_block :: "addr \<Rightarrow> nat \<Rightarrow> u32 list \<Rightarrow> fs \<Rightarrow> (u32 list option \<times> fs) res" where
  "new_block dip block_idx all_block s =
     bindR (block_bitmap_alloc s) (\<lambda>(block_lba, s).
       let start = data_start_lba (sb (cur_part s)) in
       if block_lba = FAIL then Inr (None, s)
       else if block_lba - start = FAIL then Inl (Assertion ''block_bitmap_idx != -1'')
       else bindR (bitmap_sync (block_lba - start) BLOCK_BITMAP s) (\<lambda>s.
         if block_idx < 12 then
           Inr (Some (all_block[block_idx := block_lba]),
                upd_inode dip (\<lambda>i. i\<lparr>i_sectors := (i_sectors i)[block_idx := block_lba]\<rparr>) s)
         else if block_idx = 12 then
           (let s = upd_inode dip (\<lambda>i. i\<lparr>i_sectors := (i_sectors i)[12 := block_lba]\<rparr>) s in
            bindR (block_bitmap_alloc s) (\<lambda>(block_lba, s).
              if block_lba = FAIL then
                bindR (bitmap_set (block_bitmap (cur_part s)) (i_sectors (inodes s dip) ! 12 - start) 0) (\<lambda>bm.
                  Inr (None, upd_inode dip (\<lambda>i. i\<lparr>i_sectors := (i_sectors i)[12 := 0]\<rparr>) (set_block_bitmap bm s)))
              else if block_lba - start = FAIL then Inl (Assertion ''block_bitmap_idx != -1'')
              else bindR (bitmap_sync (block_lba - start) BLOCK_BITMAP s) (\<lambda>s.
                let all_block = all_block[12 := block_lba] in
                bindR (disk_write (disk s) (i_sectors (inodes s dip) ! 12) 1 (le32s_bytes (drop 12 all_block))) (\<lambda>dk.
                  Inr (Some all_block, s\<lparr>disk := dk\<rparr>)))))
         else
           (let all_block = all_block[block_idx := block_lba] in
            bindR (disk_write (disk s) (i_sectors (inodes s dip) ! 12) 1 (le32s_bytes (drop 12 all_block))) (\<lambda>dk.
              Inr (Some all_block, s\<lparr>disk := dk\<rparr>)))))"

definition grow_dir :: "addr \<Rightarrow> fs \<Rightarrow> fs" where
  "grow_dir dip s = upd_inode dip (\<lambda>i. i\<lparr>i_size := i_size i + dir_entry_size (sb (cur_part s))\<rparr>) s"

text \<open>The search loop, with the number of blocks left; p_de is the dir_entry_size bytes to write.\<close>

fun sync_loop :: "addr \<Rightarrow> u8 list \<Rightarrow> nat \<Rightarrow> nat \<Rightarrow> u32 list \<Rightarrow> u8 list \<Rightarrow> fs \<Rightarrow> (bool \<times> fs) res" where
  "sync_loop dip p_de per_sec 0 all_block io_buf s = Inr (False, s)"
| "sync_loop dip p_de per_sec (Suc left) all_block io_buf s =
     (let block_idx = 140 - Suc left in
      if all_block ! block_idx = 0 then
        bindR (new_block dip block_idx all_block s) (\<lambda>(r, s). case r of
          None \<Rightarrow> Inr (False, s)
        | Some all_block \<Rightarrow>
            bindR (copy_to io_buf 0 (replicate 512 0)) (\<lambda>io_buf.
            bindR (copy_to io_buf 0 p_de) (\<lambda>io_buf.
            bindR (disk_write (disk s) (all_block ! block_idx) 1 io_buf) (\<lambda>dk.
              Inr (True, grow_dir dip (s\<lparr>disk := dk\<rparr>))))))
      else
        bindR (disk_read (disk s) (all_block ! block_idx) 1) (\<lambda>bs.
        bindR (copy_to io_buf 0 bs) (\<lambda>io_buf.
        bindR (unknown_loop io_buf per_sec 0) (\<lambda>r. case r of
          Some i \<Rightarrow>
            bindR (copy_to io_buf (sizeof_dir_entry * i) p_de) (\<lambda>io_buf.
            bindR (disk_write (disk s) (all_block ! block_idx) 1 io_buf) (\<lambda>dk.
              Inr (True, grow_dir dip (s\<lparr>disk := dk\<rparr>))))
        | None \<Rightarrow> sync_loop dip p_de per_sec left all_block io_buf s))))"

text \<open>block_idx counts the direct pointers as they are copied and is not set back, so the search starts
  at block 12, with 128 blocks left.\<close>

definition sync_dir_entry :: "dir_ptr \<Rightarrow> u8 list \<Rightarrow> u8 list \<Rightarrow> fs \<Rightarrow> (bool \<times> fs) res" where
  "sync_dir_entry parent_dir p_de io_buf s =
     (let dip = d_inode (the_dir parent_dir s);
          entry_size = dir_entry_size (sb (cur_part s))
      in if entry_size = 0 then Inl (Bad_access ''division by zero'')
      else if i_size (inodes s dip) mod entry_size \<noteq> 0 then Inl (Assertion ''dir_size % dir_entry_size == 0'')
      else if length p_de < unat entry_size then Inl (Bad_access ''memcpy'')
      else sync_loop dip (take (unat entry_size) p_de) (512 div unat entry_size) 128
             (take 12 (i_sectors (inodes s dip)) @ replicate 128 0) io_buf s)"

section \<open>Where a directory stands\<close>

text \<open>The data blocks lie behind the bitmaps and on the disk.\<close>

definition data_ok :: "partition \<Rightarrow> bool" where
  "data_ok p \<longleftrightarrow> unat (inode_bitmap_lba (sb p)) + length (btmp_bits (inode_bitmap p)) div 512 \<le> unat (data_start_lba (sb p))
     \<and> 0 < unat (data_start_lba (sb p)) \<and> unat (data_start_lba (sb p)) + bm_size (block_bitmap p) \<le> 163840"

text \<open>k1 and k2 are the two first free blocks.\<close>

definition two_free :: "bitmap \<Rightarrow> nat \<Rightarrow> nat \<Rightarrow> bool" where
  "two_free bm k1 k2 \<longleftrightarrow> k1 < k2 \<and> k2 < bm_size bm \<and> \<not> bm_bit bm k1 \<and> \<not> bm_bit bm k2
     \<and> (\<forall>j < k2. j \<noteq> k1 \<longrightarrow> bm_bit bm j)"

definition block_of :: "partition \<Rightarrow> nat \<Rightarrow> u32" where
  "block_of p k = data_start_lba (sb p) + of_nat k"

lemma unat_block_of:
  assumes "data_ok p" "k < bm_size (block_bitmap p)"
  shows "unat (block_of p k) = unat (data_start_lba (sb p)) + k" "block_of p k \<noteq> 0" "block_of p k \<noteq> FAIL"
    "block_of p k \<le> max_lba" "of_nat k \<noteq> FAIL"
proof -
  have b: "unat (data_start_lba (sb p)) + k < 163840" "0 < unat (data_start_lba (sb p))" using assms by (simp_all add: data_ok_def)
  then have k: "unat (of_nat k :: u32) = k" by (simp add: unat_of_nat_u32)
  show u: "unat (block_of p k) = unat (data_start_lba (sb p)) + k"
    unfolding block_of_def using b k by (subst unat_add_u32) simp_all
  show "block_of p k \<noteq> 0" using u b(2) by (auto simp del: unat_eq_zero unat_0_iff)
  have f: "unat (FAIL :: u32) = 4294967295" by (simp add: unsigned_minus_1_eq_mask mask_eq_exp_minus_1)
  show "block_of p k \<noteq> FAIL"
  proof
    assume e: "block_of p k = FAIL"
    show False using u b(1) f unfolding e by simp
  qed
  show "of_nat k \<noteq> FAIL"
  proof
    assume e: "of_nat k = FAIL"
    show False using k b(1) f unfolding e by simp
  qed
  show "block_of p k \<le> max_lba" unfolding le_max_lba u by (rule b(1))
qed

lemma agree_upd_inode [simp]: "agree ib (upd_inode a f s) = agree ib s" "synced (upd_inode a f s) = synced s"
  by (simp_all add: agree_def synced_def upd_inode_def)

lemma agree_data_write:
  assumes "agree ib s" "data_ok (cur_part s)" "unat (data_start_lba (sb (cur_part s))) \<le> l"
  shows "agree ib (s\<lparr>disk := put_sectors (disk s) l bs\<rparr>)"
proof -
  let ?p = "cur_part s" and ?d = "put_sectors (disk s) l bs"
  have S: "disk_ok (disk s)" "bm_wf (block_bitmap ?p)" "copy_of (disk s) (block_bitmap_lba (sb ?p)) (block_bitmap ?p)"
    "bm_wf ib" "copy_of (disk s) (inode_bitmap_lba (sb ?p)) ib" "length (btmp_bits ib) = length (btmp_bits (inode_bitmap ?p))"
    "unat (block_bitmap_lba (sb ?p)) + length (btmp_bits (block_bitmap ?p)) div 512 \<le> unat (inode_bitmap_lba (sb ?p))"
    using assms(1) by (simp_all add: agree_def Let_def)
  have e: "?d k = disk s k" if "k < l" for k using that by (simp add: put_sectors_def)
  have l: "unat (inode_bitmap_lba (sb ?p)) + length (btmp_bits ib) div 512 \<le> l"
    using assms(2,3) S(6) by (simp add: data_ok_def)
  have "copy_of ?d (block_bitmap_lba (sb ?p)) (block_bitmap ?p)"
    by (rule copy_of_other [OF S(3)]) (use e l S(7) in auto)
  moreover have "copy_of ?d (inode_bitmap_lba (sb ?p)) ib"
    by (rule copy_of_other [OF S(5)]) (use e l in auto)
  ultimately show ?thesis using S(2,4,6,7) disk_ok_put [OF S(1)] by (simp add: agree_def Let_def)
qed

section \<open>The first indirect block\<close>

lemma new_block_indirect:
  assumes s: "agree ib s" and da: "data_ok (cur_part s)" and f: "two_free (block_bitmap (cur_part s)) k1 k2"
    and wf: "inode_wf (inodes s dip)" and all: "length all_block = 140"
  defines "p \<equiv> cur_part s"
  defines "bm \<equiv> bm_upd (bm_upd (block_bitmap p) k1 True) k2 True"
  obtains d where "new_block dip 12 all_block s = Inr (Some (all_block[12 := block_of p k2]),
      upd_inode dip (\<lambda>i. i\<lparr>i_sectors := (i_sectors i)[12 := block_of p k1]\<rparr>) ((set_block_bitmap bm s)\<lparr>disk := d\<rparr>))"
    "agree ib ((set_block_bitmap bm s)\<lparr>disk := d\<rparr>)"
    "d (unat (block_of p k1)) = le32s_bytes (drop 12 (all_block[12 := block_of p k2]))"
    "\<And>l. unat (block_bitmap_lba (sb p)) + length (btmp_bits (block_bitmap p)) div 512 \<le> l \<Longrightarrow> l \<noteq> unat (block_of p k1) \<Longrightarrow> d l = disk s l"
proof -
  let ?b = "block_bitmap p" and ?L1 = "block_of p k1" and ?L2 = "block_of p k2" and ?D = "unat (data_start_lba (sb p))"
  have F: "k1 < k2" "k2 < bm_size ?b" "\<not> bm_bit ?b k1" "\<not> bm_bit ?b k2" "\<forall>j < k2. j \<noteq> k1 \<longrightarrow> bm_bit ?b j"
    using f by (simp_all add: two_free_def p_def)
  have k1: "k1 < bm_size ?b" using F by simp
  have da': "data_ok p" using da by (simp add: p_def)
  note u1 = unat_block_of [OF da' k1] and u2 = unat_block_of [OF da' F(2)]
  have area: "unat (block_bitmap_lba (sb p)) + length (btmp_bits ?b) div 512 \<le> ?D"
    using s da by (simp add: agree_def data_ok_def p_def Let_def)
  have b1: "\<forall>j < k1. bm_bit ?b j" using F by simp
  obtain d1 where a1: "block_bitmap_alloc s = Inr (?L1, set_block_bitmap (bm_upd ?b k1 True) s)"
    "bitmap_sync (of_nat k1) BLOCK_BITMAP (set_block_bitmap (bm_upd ?b k1 True) s)
       = Inr ((set_block_bitmap (bm_upd ?b k1 True) s)\<lparr>disk := d1\<rparr>)"
    "agree ib ((set_block_bitmap (bm_upd ?b k1 True) s)\<lparr>disk := d1\<rparr>)"
    "\<And>l. l < unat (block_bitmap_lba (sb p)) \<or> unat (block_bitmap_lba (sb p)) + length (btmp_bits ?b) div 512 \<le> l \<Longrightarrow> d1 l = disk s l"
    using block_alloc_agree [OF s, of k1, folded p_def, folded block_of_def, OF k1 F(3) b1] by blast
  let ?i = "\<lambda>i. i\<lparr>i_sectors := (i_sectors i)[12 := ?L1]\<rparr>"
  let ?s1 = "upd_inode dip ?i ((set_block_bitmap (bm_upd ?b k1 True) s)\<lparr>disk := d1\<rparr>)"
  have p1: "block_bitmap (cur_part ?s1) = bm_upd ?b k1 True" "sb (cur_part ?s1) = sb p"
    by (simp_all add: upd_inode_def set_block_bitmap_def p_def)
  have s1: "agree ib ?s1" using a1(3) by simp
  have k2: "k2 < bm_size (block_bitmap (cur_part ?s1))" "\<not> bm_bit (block_bitmap (cur_part ?s1)) k2"
    "\<forall>j < k2. bm_bit (block_bitmap (cur_part ?s1)) j"
    unfolding p1 using F k1 by simp_all
  have dk1: "disk ?s1 = d1" by (simp add: upd_inode_def)
  obtain d2 where a2: "block_bitmap_alloc ?s1 = Inr (?L2, set_block_bitmap bm ?s1)"
    "bitmap_sync (of_nat k2) BLOCK_BITMAP (set_block_bitmap bm ?s1) = Inr ((set_block_bitmap bm ?s1)\<lparr>disk := d2\<rparr>)"
    "agree ib ((set_block_bitmap bm ?s1)\<lparr>disk := d2\<rparr>)"
    "\<And>l. l < unat (block_bitmap_lba (sb p)) \<or> unat (block_bitmap_lba (sb p)) + length (btmp_bits ?b) div 512 \<le> l \<Longrightarrow> d2 l = d1 l"
    using block_alloc_agree [OF s1 k2, unfolded p1 dk1 length_bm_upd, folded block_of_def, folded bm_def] by blast
  let ?bs = "le32s_bytes (drop 12 (all_block[12 := ?L2]))"
  let ?s2 = "(set_block_bitmap bm ?s1)\<lparr>disk := d2\<rparr>"
  let ?d = "put_sectors d2 (unat ?L1) ?bs"
  have len: "length ?bs = 512" using all by simp
  have sec: "i_sectors (inodes ?s2 dip) ! 12 = ?L1"
    using wf by (simp add: upd_inode_def set_block_bitmap_def inode_wf_def)
  have wr: "disk_write (disk ?s2) (i_sectors (inodes ?s2 dip) ! 12) 1 ?bs = Inr ?d"
    unfolding sec using u1(4) len by (simp add: disk_write_def)
  have eq: "?s2\<lparr>disk := ?d\<rparr> = upd_inode dip ?i ((set_block_bitmap bm s)\<lparr>disk := ?d\<rparr>)"
    by (simp add: upd_inode_def set_block_bitmap_def)
  have st: "?L1 - data_start_lba (sb p) = of_nat k1" "?L2 - data_start_lba (sb p) = of_nat k2" by (simp_all add: block_of_def)
  have st0: "data_start_lba (sb (cur_part (set_block_bitmap (bm_upd ?b k1 True) s))) = data_start_lba (sb p)"
    by (simp add: set_block_bitmap_def p_def)
  have "new_block dip 12 all_block s = Inr (Some (all_block[12 := ?L2]), ?s2\<lparr>disk := ?d\<rparr>)"
    unfolding new_block_def a1(1) bindR_simps Let_def case_prod_conv st0
    using u1(3,5) u2(3,5) a1(2) a2(1,2) wr st by (simp add: bindR_simps)
  moreover have "?d (unat ?L1) = ?bs" using len by (simp add: put_sectors_def)
  moreover have "?d l = disk s l" if "unat (block_bitmap_lba (sb p)) + length (btmp_bits ?b) div 512 \<le> l" "l \<noteq> unat ?L1" for l
  proof -
    have "d2 l = disk s l" using that(1) a1(4) [of l] a2(4) [of l] by simp
    then show ?thesis using that(2) by (auto simp: put_sectors_def len simp del: length_le32s_bytes)
  qed
  moreover have "agree ib ((set_block_bitmap bm s)\<lparr>disk := ?d\<rparr>)"
  proof -
    have "data_ok (cur_part ?s2)" using da' by (simp add: data_ok_def upd_inode_def set_block_bitmap_def p_def bm_def)
    then have "agree ib (?s2\<lparr>disk := put_sectors (disk ?s2) (unat ?L1) ?bs\<rparr>)"
      using u1(1) by (intro agree_data_write [OF a2(3)]) (simp_all add: upd_inode_def set_block_bitmap_def p_def)
    then show ?thesis using eq by simp
  qed
  ultimately show ?thesis using that [of ?d] eq by simp
qed

section \<open>Names and entries\<close>

definition name_ok :: "u8 list \<Rightarrow> bool" where
  "name_ok n \<longleftrightarrow> n \<noteq> [] \<and> length n \<le> 15 \<and> 0 \<notin> set n"

definition entry_bytes :: "u8 list \<Rightarrow> u32 \<Rightarrow> u8 \<Rightarrow> u8 list" where
  "entry_bytes n ino ty = n @ replicate (16 - length n) 0 @ le32_bytes ino @ le32_bytes (ucast ty)"

lemma length_entry_bytes [simp]: "name_ok n \<Longrightarrow> length (entry_bytes n ino ty) = 24"
  by (simp add: entry_bytes_def name_ok_def)

lemma create_dir_entry_eq:
  assumes "name_ok n"
  shows "create_dir_entry n ino ty (replicate 24 0) = Inr (entry_bytes n ino ty)"
proof -
  have l: "length n \<le> 16" using assms by (simp add: name_ok_def)
  have r: "replicate (24 - length n) 0 = replicate (16 - length n) (0 :: u8) @ replicate 8 0"
    using l by (simp add: replicate_add [symmetric])
  have a: "put_at (replicate 24 0) 0 n = n @ replicate (16 - length n) 0 @ replicate 8 0"
    using l r by (simp add: put_at_def)
  have b: "put_at (n @ replicate (16 - length n) 0 @ replicate 8 0) 16 (le32_bytes ino)
      = n @ replicate (16 - length n) 0 @ le32_bytes ino @ replicate 4 0"
    using l by (simp add: put_at_def)
  have c: "put_at (n @ replicate (16 - length n) 0 @ le32_bytes ino @ replicate 4 0) 20 (le32_bytes (ucast ty))
      = entry_bytes n ino ty"
    using l by (simp add: put_at_def entry_bytes_def)
  show ?thesis
    unfolding create_dir_entry_def copy_to_def using l by (simp add: MAX_FILE_NAME_LEN_def a b c)
qed

lemma entry_fields: "name_ok n \<Longrightarrow> de_ino (entry_bytes n ino ty) = ino" "name_ok n \<Longrightarrow> de_type (entry_bytes n ino ty) = ucast ty"
proof -
  assume n: "name_ok n"
  let ?h = "n @ replicate (16 - length n) (0 :: u8)"
  have h: "length ?h = 16" using n by (simp add: name_ok_def)
  have e: "entry_bytes n ino ty = ?h @ le32_bytes ino @ le32_bytes (ucast ty)" by (simp add: entry_bytes_def)
  show "de_ino (entry_bytes n ino ty) = ino" unfolding de_ino_def e using h le32_skip [of ?h 16] le32_at [of ino] by simp
  have "le32 (?h @ le32_bytes ino @ le32_bytes (ucast ty)) 20 = le32 (le32_bytes ino @ le32_bytes (ucast ty)) 4"
    using h le32_skip [of ?h 20] by simp
  also have "\<dots> = ucast ty" using le32_skip [of "le32_bytes ino" 4] le32_le32_bytes [of "ucast ty"] by simp
  finally show "de_type (entry_bytes n ino ty) = ucast ty" unfolding de_type_def e .
qed

lemma str_equal_cstr: "0 \<notin> set a \<Longrightarrow> 0 \<notin> set b \<Longrightarrow> str_equal (a @ 0 # x) (b @ 0 # y) = Inr (a = b)"
proof (induction a arbitrary: b)
  case Nil
  then show ?case by (cases b) auto
next
  case (Cons c a)
  then show ?case by (cases b) auto
qed

lemma entry_loop_none:
  "(\<forall>j. i \<le> j \<and> j < i + n \<longrightarrow> str_equal (drop (24 * j) buf) name = Inr False) \<Longrightarrow> entry_loop buf name n i = Inr None"
  by (induction n arbitrary: i) (simp_all add: sizeof_dir_entry_def)

text \<open>A sector with one entry.\<close>

lemma entry_loop_single:
  assumes n: "name_ok n" and m: "name_ok m"
  shows "entry_loop (entry_bytes n ino ty @ replicate 488 0) (m @ 0 # rest) 21 0 = Inr (if m = n then Some 0 else None)"
proof -
  let ?buf = "entry_bytes n ino ty @ replicate 488 0"
  obtain k where k: "16 - length n = Suc k" using n by (cases "16 - length n") (auto simp: name_ok_def)
  have b: "?buf = n @ 0 # (replicate k 0 @ le32_bytes ino @ le32_bytes (ucast ty) @ replicate 488 0)"
    by (simp add: entry_bytes_def k)
  have first: "str_equal (drop (24 * 0) ?buf) (m @ 0 # rest) = Inr (n = m)"
    using n m str_equal_cstr [of n m] unfolding b by (simp add: name_ok_def)
  have others: "str_equal (drop (24 * j) ?buf) (m @ 0 # rest) = Inr False" if j: "1 \<le> j" "j < 21" for j
  proof -
    obtain c m' where m': "m = c # m'" "c \<noteq> 0" using m by (cases m) (auto simp: name_ok_def)
    have "drop (24 * j) ?buf = replicate (512 - 24 * j) 0" using n j by simp
    moreover obtain z where "512 - 24 * j = Suc z" using j by (cases "512 - 24 * j") auto
    ultimately show ?thesis using m' by simp
  qed
  have rest: "entry_loop ?buf (m @ 0 # rest) 20 1 = Inr None" by (rule entry_loop_none) (use others in auto)
  show ?thesis
    using entry_loop.simps(2) [of ?buf "m @ 0 # rest" 20 0] first rest
    by (simp add: sizeof_dir_entry_def del: One_nat_def entry_loop.simps)
qed

section \<open>Searching lists of blocks\<close>

lemma search_blocks_append:
  "search_blocks dk es cnt name e (xs @ ys) = bindR (search_blocks dk es cnt name e xs) (\<lambda>r. case r of
     Some d \<Rightarrow> Inr (Some d) | None \<Rightarrow> search_blocks dk es cnt name e ys)"
proof (induction xs)
  case (Cons b xs)
  show ?case
    using Cons by (cases "disk_read dk b 1") (auto simp: bindR_def split: sum.splits option.splits)
qed simp

lemma search_blocks_zeros: "(\<forall>b \<in> set bs. b = 0) \<Longrightarrow> search_blocks dk es cnt name e bs = Inr None"
  by (induction bs) simp_all

lemma search_blocks_cong:
  "(\<forall>b \<in> set bs. b \<noteq> 0 \<longrightarrow> d (unat b) = dk (unat b)) \<Longrightarrow> search_blocks d es cnt name e bs = search_blocks dk es cnt name e bs"
proof (induction bs)
  case (Cons b bs)
  then have IH: "search_blocks d es cnt name e bs = search_blocks dk es cnt name e bs" by simp
  have "b \<noteq> 0 \<Longrightarrow> disk_read d b 1 = disk_read dk b 1" using Cons.prems by (simp add: disk_read_def sectors_def)
  then show ?case by (simp add: IH)
qed simp

section \<open>A directory after sync_dir_entry\<close>

text \<open>The direct blocks of the directory are data blocks that are marked; its entries have 24 bytes.\<close>

definition dir_ready :: "fs \<Rightarrow> dir_ptr \<Rightarrow> bool" where
  "dir_ready s d \<longleftrightarrow> (let p = cur_part s; i = inodes s (d_inode (the_dir d s)) in
     dir_entry_size (sb p) = 24 \<and> inode_wf i \<and> i_size i mod 24 = 0
     \<and> (\<forall>b \<in> set (take 12 (i_sectors i)). b \<noteq> 0 \<longrightarrow>
          (\<exists>k < bm_size (block_bitmap p). b = block_of p k \<and> bm_bit (block_bitmap p) k)))"

lemma dir_ptr_state [simp]:
  "the_dir d (upd_inode a f s) = the_dir d s" "the_dir d (set_block_bitmap b s) = the_dir d s"
  "the_dir d (s\<lparr>disk := dk\<rparr>) = the_dir d s" "the_dir d (grow_dir a s) = the_dir d s"
  "the_dir d (s\<lparr>held := h\<rparr>) = the_dir d s" "the_dir d (s\<lparr>mallocs := m\<rparr>) = the_dir d s"
  by (cases d; simp add: upd_inode_def set_block_bitmap_def grow_dir_def)+

lemma sync_dir_entry_effect:
  assumes s: "agree ib s" and da: "data_ok (cur_part s)" and f: "two_free (block_bitmap (cur_part s)) k1 k2"
    and r: "dir_ready s d" and e: "length e = 24" and io: "length io_buf = 1024"
  defines "p \<equiv> cur_part s" and "ip \<equiv> d_inode (the_dir d s)"
  defines "s2 \<equiv> \<lambda>dk. upd_inode ip (\<lambda>i. i\<lparr>i_sectors := (i_sectors i)[12 := block_of p k1], i_size := i_size i + 24\<rparr>)
     ((set_block_bitmap (bm_upd (bm_upd (block_bitmap p) k1 True) k2 True) s)\<lparr>disk := dk\<rparr>)"
  obtains dk where "sync_dir_entry d e io_buf s = Inr (True, s2 dk)" "agree ib (s2 dk)"
    "dk (unat (block_of p k1)) = le32s_bytes (block_of p k2 # replicate 127 0)"
    "dk (unat (block_of p k2)) = e @ replicate 488 0"
    "\<And>l. unat (block_bitmap_lba (sb p)) + length (btmp_bits (block_bitmap p)) div 512 \<le> l \<Longrightarrow> l \<noteq> unat (block_of p k1)
       \<Longrightarrow> l \<noteq> unat (block_of p k2) \<Longrightarrow> dk l = disk s l"
proof -
  let ?i = "inodes s ip" and ?L1 = "block_of p k1" and ?L2 = "block_of p k2" and ?D = "unat (data_start_lba (sb p))"
  let ?all = "take 12 (i_sectors ?i) @ replicate 128 0"
  let ?bm = "bm_upd (bm_upd (block_bitmap p) k1 True) k2 True"
  have R: "dir_entry_size (sb p) = 24" "inode_wf ?i" "i_size ?i mod 24 = 0"
    using r by (simp_all add: dir_ready_def Let_def p_def ip_def)
  have F: "k1 < k2" "k2 < bm_size (block_bitmap p)" using f by (simp_all add: two_free_def p_def)
  have da': "data_ok p" using da by (simp add: p_def)
  note u1 = unat_block_of [OF da' less_trans [OF F]] and u2 = unat_block_of [OF da' F(2)]
  have l13: "length (i_sectors ?i) = 13" using R(2) by (simp add: inode_wf_def)
  then have all: "length ?all = 140" "?all ! 12 = 0" by (simp_all add: nth_append)
  have d12: "drop 12 (?all[12 := ?L2]) = ?L2 # replicate 127 0" "?all[12 := ?L2] ! 12 = ?L2"
    using l13 by (simp_all add: list_update_append numeral_eq_Suc nth_append)
  obtain dk where n: "new_block ip 12 ?all s = Inr (Some (?all[12 := ?L2]),
      upd_inode ip (\<lambda>i. i\<lparr>i_sectors := (i_sectors i)[12 := ?L1]\<rparr>) ((set_block_bitmap ?bm s)\<lparr>disk := dk\<rparr>))"
    "agree ib ((set_block_bitmap ?bm s)\<lparr>disk := dk\<rparr>)"
    "dk (unat ?L1) = le32s_bytes (drop 12 (?all[12 := ?L2]))"
    "\<And>l. unat (block_bitmap_lba (sb p)) + length (btmp_bits (block_bitmap p)) div 512 \<le> l \<Longrightarrow> l \<noteq> unat ?L1 \<Longrightarrow> dk l = disk s l"
    using new_block_indirect [OF s da f, of ip ?all, folded p_def, OF R(2) all(1)] by blast
  let ?s1 = "upd_inode ip (\<lambda>i. i\<lparr>i_sectors := (i_sectors i)[12 := ?L1]\<rparr>) ((set_block_bitmap ?bm s)\<lparr>disk := dk\<rparr>)"
  let ?bs = "e @ replicate 488 0"
  let ?d = "put_sectors dk (unat ?L2) ?bs"
  let ?s2 = "grow_dir ip (?s1\<lparr>disk := ?d\<rparr>)"
  have c1: "copy_to io_buf 0 (replicate 512 0) = Inr (replicate 512 0 @ drop 512 io_buf)"
    using io by (simp add: copy_to_def put_at_def)
  have c2: "copy_to (replicate 512 0 @ drop 512 io_buf) 0 e = Inr (e @ replicate 488 0 @ drop 512 io_buf)"
    using io e by (simp add: copy_to_def put_at_def)
  have dk1: "disk ?s1 = dk" by (simp add: upd_inode_def)
  have w: "disk_write (disk ?s1) ?L2 1 (e @ replicate 488 0 @ drop 512 io_buf) = Inr ?d"
    unfolding dk1 using u2(4) e by (simp add: disk_write_def)
  have "sync_loop ip e 21 (Suc 127) ?all io_buf s = Inr (True, ?s2)"
    unfolding sync_loop.simps Let_def using all(2) n(1) d12(2) c1 c2 w by simp
  then have sy: "sync_dir_entry d e io_buf s = Inr (True, ?s2)"
    unfolding sync_dir_entry_def Let_def using R e by (simp add: p_def ip_def)
  have cp: "cur_part ?s1 = p\<lparr>block_bitmap := ?bm\<rparr>" by (simp add: upd_inode_def set_block_bitmap_def p_def)
  have s1: "agree ib ?s1" using n(2) by simp
  have "agree ib (?s1\<lparr>disk := put_sectors (disk ?s1) (unat ?L2) ?bs\<rparr>)"
    using da' u2(1) by (intro agree_data_write [OF s1]) (simp_all add: cp data_ok_def)
  then have sy2: "agree ib ?s2" unfolding dk1 by (simp add: grow_dir_def)
  have len: "length ?bs = 512" using e by simp
  have at2: "?d (unat ?L2) = ?bs" using len by (simp add: put_sectors_def)
  have ne: "unat ?L1 \<noteq> unat ?L2" using u1(1) u2(1) F(1) by simp
  have oth: "?d l = dk l" if "l \<noteq> unat ?L2" for l
    using that len by (auto simp: put_sectors_def)
  have eq: "?s2 = s2 ?d"
    using R(1) by (simp add: s2_def grow_dir_def upd_inode_def set_block_bitmap_def p_def)
  show ?thesis
    by (rule that [OF sy [unfolded eq] sy2 [unfolded eq] _ at2]) (use oth [OF ne] n(3,4) d12(1) oth in simp_all)
qed

lemma search_after_sync:
  assumes s': "i_sectors (inodes s' (d_inode (the_dir d s'))) = sec[12 := L1]" "length sec = 13" "L1 \<noteq> 0" "L1 \<le> max_lba"
    and L2: "L2 \<noteq> 0" "L2 \<le> max_lba" and dk: "disk s' (unat L1) = le32s_bytes (L2 # replicate 127 0)"
      "disk s' (unat L2) = entry_bytes n ino ty @ replicate 488 0"
    and n: "name_ok n" and m: "name_ok m" and es: "dir_entry_size (sb (cur_part s')) = 24" and e: "length e = 24"
    and direct: "search_blocks (disk s') 24 21 (m @ 0 # rest) e (take 12 sec) = Inr None"
    and al: "mallocs s' = x # y # ms" "x \<noteq> 0" "y \<noteq> 0"
  shows "search_dir_entry d (m @ 0 # rest) e s' = Inr (if m = n then Some (entry_bytes n ino ty) else None, s'\<lparr>mallocs := ms\<rparr>)"
proof -
  let ?nm = "m @ 0 # rest"
  have ind: "le32s (le32s_bytes (L2 # replicate 127 0)) 128 = L2 # replicate 127 0"
    using le32s_roundtrip [of "L2 # replicate 127 0" "[]"] by simp
  have rd: "disk_read (disk s') L1 1 = Inr (le32s_bytes (L2 # replicate 127 0))"
    "disk_read (disk s') L2 1 = Inr (entry_bytes n ino ty @ replicate 488 0)"
    using s'(4) L2(2) dk by (simp_all add: disk_read_def sectors_def)
  have sl: "slice (entry_bytes n ino ty @ replicate 488 0) 0 24 = entry_bytes n ino ty"
    using n by (simp add: slice_def)
  have cp: "copy_to e 0 (entry_bytes n ino ty) = Inr (entry_bytes n ino ty)"
    using n e by (simp add: copy_to_def put_at_def)
  have rest: "search_blocks (disk s') 24 21 ?nm e (L2 # replicate 127 0)
      = Inr (if m = n then Some (entry_bytes n ino ty) else None)"
    using L2(1) rd(2) entry_loop_single [OF n m, of ino ty rest] sl cp n
      search_blocks_zeros [of "replicate 127 0" "disk s'" 24 21 ?nm e]
    by (simp add: sizeof_dir_entry_def)
  have t12: "take 12 (sec[12 := L1]) = take 12 sec" "sec[12 := L1] ! 12 = L1" using s'(2) by simp_all
  have sb: "search_blocks (disk s') 24 21 ?nm e (take 12 (sec[12 := L1]) @ (L2 # replicate 127 0))
      = Inr (if m = n then Some (entry_bytes n ino ty) else None)"
    unfolding t12(1) search_blocks_append direct using rest by simp
  let ?S = "s'\<lparr>mallocs := ms, held := y # x # held s'\<rparr>"
  have k: "kmalloc s' = (x, s'\<lparr>mallocs := y # ms, held := x # held s'\<rparr>)"
    "kmalloc_used (s'\<lparr>mallocs := y # ms, held := x # held s'\<rparr>) = Inr (y, ?S)"
    using al by (simp_all add: kmalloc_def kmalloc_used_def)
  have fr: "kfree y ?S = Inr (s'\<lparr>mallocs := ms, held := x # held s'\<rparr>)"
    "kfree x (s'\<lparr>mallocs := ms, held := x # held s'\<rparr>) = Inr (s'\<lparr>mallocs := ms\<rparr>)"
    by (simp_all add: kfree_def)
  have td: "the_dir d (s'\<lparr>mallocs := y # ms, held := x # held s'\<rparr>) = the_dir d s'" by (cases d) simp_all
  show ?thesis
    unfolding search_dir_entry_def k(1) Let_def case_prod_conv td
    using s'(1,3) t12(2) rd(1) ind k(2) es sb fr al(2) by simp
qed

section \<open>Properties\<close>

lemma demo_dir: "data_ok (cur_part demo_synced)" "two_free (block_bitmap (cur_part demo_synced)) 1 2" "dir_ready demo_synced Root_dir"
  "mallocs demo_synced = [0x1000, 0x2000, 0x3000, 0x4000]" "i_sectors (inodes demo_synced (d_inode (the_dir Root_dir demo_synced))) = replicate 13 0"
proof -
  have w: "block_bitmap (cur_part demo_synced) = \<lparr>btmp_bytes_len = 512, btmp_bits = 1 # replicate 511 0\<rparr>"
    by (simp add: demo_synced_def demo_fs_def demo_part_def)
  have z: "bm_bit \<lparr>btmp_bytes_len = 512, btmp_bits = 1 # replicate 511 0\<rparr> k = (k = 0)" if "k < 3" for k
    using that by (auto simp: bm_bit_def bit_1_iff)
  show "two_free (block_bitmap (cur_part demo_synced)) 1 2"
    unfolding w two_free_def using z by (auto simp: bm_size_def)
  show "data_ok (cur_part demo_synced)" "dir_ready demo_synced Root_dir" "mallocs demo_synced = [0x1000, 0x2000, 0x3000, 0x4000]"
    "i_sectors (inodes demo_synced (d_inode (the_dir Root_dir demo_synced))) = replicate 13 0"
    by (simp_all add: data_ok_def dir_ready_def demo_synced_def demo_fs_def demo_part_def demo_sb_def bm_size_def
        inode_wf_def inode_init_def)
qed

text \<open>C26: What a directory holds after sync_dir_entry: the entry written, found under its name with its number
  and type, and of the others only those in the direct blocks. For every name not in the direct blocks,
  search_dir_entry now finds exactly the new entry: whatever was entered before through the indirect
  table is lost, because the search for a free entry starts at block 12, which is taken to be unused, so
  each call allocates a new table and a new block. Bitmaps and disk stay in agreement.\<close>
theorem dir_after_sync:
  assumes "synced s" "data_ok (cur_part s)" "two_free (block_bitmap (cur_part s)) k1 k2" "dir_ready s d" "name_ok n"
    "create_dir_entry n ino ty (replicate 24 0) = Inr p_de" "length io_buf = 1024" "mallocs s = x # y # ms" "x \<noteq> 0" "y \<noteq> 0"
  shows "\<exists>s'. sync_dir_entry d p_de io_buf s = Inr (True, s') \<and> synced s' \<and> de_ino p_de = ino \<and> de_type p_de = ucast ty
     \<and> (\<forall>m rest e. name_ok m \<and> length e = 24
          \<and> search_blocks (disk s) 24 21 (m @ 0 # rest) e (take 12 (i_sectors (inodes s (d_inode (the_dir d s))))) = Inr None
        \<longrightarrow> search_dir_entry d (m @ 0 # rest) e s' = Inr (if m = n then Some p_de else None, s'\<lparr>mallocs := ms\<rparr>))"
proof -
  let ?p = "cur_part s" and ?ip = "d_inode (the_dir d s)"
  have pe: "p_de = entry_bytes n ino ty" using assms(6) create_dir_entry_eq [OF assms(5)] by simp
  have e: "length p_de = 24" unfolding pe using assms(5) by simp
  let ?s2 = "\<lambda>dk. upd_inode ?ip (\<lambda>i. i\<lparr>i_sectors := (i_sectors i)[12 := block_of ?p k1], i_size := i_size i + 24\<rparr>)
     ((set_block_bitmap (bm_upd (bm_upd (block_bitmap ?p) k1 True) k2 True) s)\<lparr>disk := dk\<rparr>)"
  obtain dk where S: "sync_dir_entry d p_de io_buf s = Inr (True, ?s2 dk)" "agree (inode_bitmap ?p) (?s2 dk)"
    "dk (unat (block_of ?p k1)) = le32s_bytes (block_of ?p k2 # replicate 127 0)"
    "dk (unat (block_of ?p k2)) = p_de @ replicate 488 0"
    "\<And>l. unat (block_bitmap_lba (sb ?p)) + length (btmp_bits (block_bitmap ?p)) div 512 \<le> l \<Longrightarrow> l \<noteq> unat (block_of ?p k1)
       \<Longrightarrow> l \<noteq> unat (block_of ?p k2) \<Longrightarrow> dk l = disk s l"
    using sync_dir_entry_effect [OF assms(1) [unfolded synced_def] assms(2-4) e assms(7)] by blast
  define s' where "s' = ?s2 dk"
  note so = S(1) [folded s'_def]
  have s': "sb (cur_part s') = sb ?p" "mallocs s' = mallocs s" "disk s' = dk"
    "i_sectors (inodes s' ?ip) = (i_sectors (inodes s ?ip))[12 := block_of ?p k1]" "inode_bitmap (cur_part s') = inode_bitmap ?p"
    by (simp_all add: s'_def upd_inode_def set_block_bitmap_def)
  have td: "the_dir d s' = the_dir d s" by (simp add: s'_def)
  have sy: "synced s'" unfolding synced_def s'(5) by (rule S(2) [folded s'_def])
  have F: "k1 < k2" "k2 < bm_size (block_bitmap ?p)" "\<not> bm_bit (block_bitmap ?p) k1" "\<not> bm_bit (block_bitmap ?p) k2"
    using assms(3) by (simp_all add: two_free_def)
  note u1 = unat_block_of [OF assms(2) less_trans [OF F(1,2)]] and u2 = unat_block_of [OF assms(2) F(2)]
  have R: "dir_entry_size (sb ?p) = 24" "length (i_sectors (inodes s ?ip)) = 13"
    "\<forall>b \<in> set (take 12 (i_sectors (inodes s ?ip))). b \<noteq> 0 \<longrightarrow>
        (\<exists>k < bm_size (block_bitmap ?p). b = block_of ?p k \<and> bm_bit (block_bitmap ?p) k)"
    using assms(4) by (simp_all add: dir_ready_def inode_wf_def Let_def)
  have same: "dk (unat b) = disk s (unat b)" if b: "b \<in> set (take 12 (i_sectors (inodes s ?ip)))" "b \<noteq> 0" for b
  proof -
    obtain k where k: "k < bm_size (block_bitmap ?p)" "b = block_of ?p k" "bm_bit (block_bitmap ?p) k" using R(3) b by blast
    have "k \<noteq> k1" "k \<noteq> k2" using k(3) F(3,4) by auto
    moreover have "unat (block_bitmap_lba (sb ?p)) + length (btmp_bits (block_bitmap ?p)) div 512 \<le> unat (data_start_lba (sb ?p))"
      using assms(1,2) by (simp add: synced_def agree_def data_ok_def Let_def)
    ultimately show ?thesis using S(5) [of "unat b"] u1(1) u2(1) unat_block_of(1) [OF assms(2) k(1)] k(2) by simp
  qed
  have "search_dir_entry d (m @ 0 # rest) e s' = Inr (if m = n then Some p_de else None, s'\<lparr>mallocs := ms\<rparr>)"
    if m: "name_ok m" "length e = 24" "search_blocks (disk s) 24 21 (m @ 0 # rest) e (take 12 (i_sectors (inodes s ?ip))) = Inr None"
    for m rest e
  proof -
    have dir: "search_blocks (dk) 24 21 (m @ 0 # rest) e (take 12 (i_sectors (inodes s ?ip))) = Inr None"
      using search_blocks_cong [of "take 12 (i_sectors (inodes s ?ip))" "dk" "disk s"] same m(3) by simp
    have sec: "i_sectors (inodes s' (d_inode (the_dir d s'))) = (i_sectors (inodes s ?ip))[12 := block_of ?p k1]"
      unfolding td by (rule s'(4))
    have es: "dir_entry_size (sb (cur_part s')) = 24" unfolding s'(1) by (rule R(1))
    show ?thesis
      unfolding pe
      by (rule search_after_sync [OF sec R(2) u1(2,4) u2(2,4) S(3) [folded s'(3)] S(4) [unfolded pe, folded s'(3)] assms(5) m(1) es m(2)
            dir [folded s'(3)] s'(2) [unfolded assms(8)] assms(9,10)])
  qed
  then show ?thesis using so sy entry_fields [OF assms(5)] unfolding pe by blast
qed

lemma dir_after_sync_witness:
  "\<exists>p_de s'. create_dir_entry [0x61] 5 1 (replicate 24 0) = Inr p_de \<and> sync_dir_entry Root_dir p_de (replicate 1024 0) demo_synced = Inr (True, s')
     \<and> search_dir_entry Root_dir [0x61, 0] (replicate 24 0) s' = Inr (Some p_de, s'\<lparr>mallocs := [0x3000, 0x4000]\<rparr>)
     \<and> search_dir_entry Root_dir [0x62, 0] (replicate 24 0) s' = Inr (None, s'\<lparr>mallocs := [0x3000, 0x4000]\<rparr>)"
proof -
  have n: "name_ok [0x61]" "name_ok [0x62]" by (simp_all add: name_ok_def)
  note c = create_dir_entry_eq [OF n(1), of 5 1]
  obtain s' where s': "sync_dir_entry Root_dir (entry_bytes [0x61] 5 1) (replicate 1024 0) demo_synced = Inr (True, s')"
    "\<forall>m rest e. name_ok m \<and> length e = 24
          \<and> search_blocks (disk demo_synced) 24 21 (m @ 0 # rest) e (take 12 (replicate 13 0)) = Inr None
        \<longrightarrow> search_dir_entry Root_dir (m @ 0 # rest) e s'
            = Inr (if m = [0x61] then Some (entry_bytes [0x61] 5 1) else None, s'\<lparr>mallocs := [0x3000, 0x4000]\<rparr>)"
    using dir_after_sync [OF demo_synced_ok demo_dir(1-3) n(1) c _ demo_dir(4), of "replicate 1024 0"] unfolding demo_dir(5) by auto
  have z: "search_blocks (disk demo_synced) 24 21 (m @ 0 # rest) e (take 12 (replicate 13 0)) = Inr None" for m rest e
    by (rule search_blocks_zeros) simp
  have f: "search_dir_entry Root_dir (m @ 0 # []) (replicate 24 0) s'
      = Inr (if m = [0x61] then Some (entry_bytes [0x61] 5 1) else None, s'\<lparr>mallocs := [0x3000, 0x4000]\<rparr>)" if "name_ok m" for m
  proof -
    have "name_ok m \<and> length (replicate 24 (0 :: u8)) = 24
        \<and> search_blocks (disk demo_synced) 24 21 (m @ 0 # []) (replicate 24 0) (take 12 (replicate 13 0)) = Inr None"
      using that z [of m "[]" "replicate 24 0"] by simp
    then show ?thesis using s'(2) by blast
  qed
  show ?thesis using c s'(1) f [OF n(1)] f [OF n(2)] by simp
qed

end
