(* ===== verification/Format.thy ===== *)
theory Format
  imports Dirs
begin

text \<open>
  fs/fs.c, first part: partition_format, mount_partition and filesys_init. The disk is the sectors of the
  file disk. Every sys_malloc takes its answer from \<open>mallocs\<close>, as in the rest of the file system: what the
  code does with NULL (panic, or a write through it) is part of the model, and which answers the heap gives
  is not. What a block holds when it is allocated is an argument.
\<close>

unbundle bit_operations_syntax

section \<open>The super block\<close>

definition sb_words :: "super_block \<Rightarrow> u32 list" where
  "sb_words b = [magic b, sb_sec_cnt b, inode_cnt b, part_lba_base b, block_bitmap_lba b, block_bitmap_sects b,
     inode_bitmap_lba b, inode_bitmap_sects b, inode_table_lba b, inode_table_sects b, data_start_lba b, root_inode_no b,
     dir_entry_size b]"

definition words_sb :: "u32 list \<Rightarrow> super_block" where
  "words_sb w = \<lparr>magic = w ! 0, sb_sec_cnt = w ! 1, inode_cnt = w ! 2, part_lba_base = w ! 3, block_bitmap_lba = w ! 4,
     block_bitmap_sects = w ! 5, inode_bitmap_lba = w ! 6, inode_bitmap_sects = w ! 7, inode_table_lba = w ! 8,
     inode_table_sects = w ! 9, data_start_lba = w ! 10, root_inode_no = w ! 11, dir_entry_size = w ! 12\<rparr>"

section \<open>partition_format\<close>

definition SECTOR_SIZE :: u32 where "SECTOR_SIZE = 512"
definition BITS_PER_SECTOR :: u32 where "BITS_PER_SECTOR = 4096"
definition MAX_FILES_PER_PART :: u32 where "MAX_FILES_PER_PART = 4096"

definition format_bits :: "u32 \<Rightarrow> u32" where
  "format_bits nsec =
     (let inode_bitmap_sects = DIV_ROUND_UP MAX_FILES_PER_PART BITS_PER_SECTOR;
          inode_table_sects = DIV_ROUND_UP (sizeof_inode * MAX_FILES_PER_PART) SECTOR_SIZE;
          used_sects = 1 + 1 + inode_bitmap_sects + inode_table_sects;
          free_sects = nsec - used_sects
      in free_sects - DIV_ROUND_UP free_sects BITS_PER_SECTOR)"

definition format_sb :: "u32 \<Rightarrow> u32 \<Rightarrow> super_block" where
  "format_sb start nsec =
     (let inode_bitmap_sects = DIV_ROUND_UP MAX_FILES_PER_PART BITS_PER_SECTOR;
          inode_table_sects = DIV_ROUND_UP (sizeof_inode * MAX_FILES_PER_PART) SECTOR_SIZE;
          block_bitmap_sects = DIV_ROUND_UP (format_bits nsec) BITS_PER_SECTOR;
          block_bitmap_lba = start + 2;
          inode_bitmap_lba = block_bitmap_lba + block_bitmap_sects;
          inode_table_lba = inode_bitmap_lba + inode_bitmap_sects
      in \<lparr>magic = 0x20250325, sb_sec_cnt = nsec, inode_cnt = MAX_FILES_PER_PART, part_lba_base = start,
          block_bitmap_lba = block_bitmap_lba, block_bitmap_sects = block_bitmap_sects,
          inode_bitmap_lba = inode_bitmap_lba, inode_bitmap_sects = inode_bitmap_sects,
          inode_table_lba = inode_table_lba, inode_table_sects = inode_table_sects,
          data_start_lba = inode_table_lba + inode_table_sects, root_inode_no = 0, dir_entry_size = 24\<rparr>)"

text \<open>The size of the buffer: the largest of the three parts.\<close>

definition format_buf_size :: "super_block \<Rightarrow> u32" where
  "format_buf_size b =
     (let n = (if block_bitmap_sects b \<ge> inode_bitmap_sects b then block_bitmap_sects b else inode_bitmap_sects b);
          n = (if n \<ge> inode_table_sects b then n else inode_table_sects b)
      in n * SECTOR_SIZE)"

text \<open>buf[byte] is cleared from bit 0 to bit last_bit, counting on a byte.\<close>

fun clear_bits :: "nat \<Rightarrow> u8 \<Rightarrow> u8" where
  "clear_bits 0 b = b AND NOT (push_bit 0 1)"
| "clear_bits (Suc last_bit) b = clear_bits last_bit b AND NOT (push_bit (Suc last_bit) 1)"

definition format_block_bitmap :: "u32 \<Rightarrow> u8 list \<Rightarrow> u8 list res" where
  "format_block_bitmap bit_len buf =
     (if buf = [] then Inl (Bad_access ''buf'')
      else let buf = buf[0 := buf ! 0 OR 0x01];
          last_byte = unat (bit_len div 8);
          last_bit = unat (ucast (bit_len mod 8) :: u8);
          last_size = unat (SECTOR_SIZE - (bit_len div 8) mod SECTOR_SIZE)
      in bindR (copy_to buf last_byte (replicate last_size 0xff)) (\<lambda>buf.
           Inr (buf[last_byte := clear_bits last_bit (buf ! last_byte)])))"

definition root_inode :: "super_block \<Rightarrow> inode" where
  "root_inode b = \<lparr>i_no = 0, i_size = dir_entry_size b * 2, i_open_cnts = 0, write_deny = False,
     i_sectors = data_start_lba b # replicate 12 0\<rparr>"

definition root_entries :: "u8 list" where
  "root_entries = ([0x2e] @ replicate 15 0 @ le32_bytes 0 @ le32_bytes FT_DIRECTORY)
     @ ([0x2e, 0x2e] @ replicate 14 0 @ le32_bytes 0 @ le32_bytes FT_DIRECTORY)"

text \<open>The writes, in the order of the code: the super block, of which pad is the rest on the stack; then, with buf
  what the allocated buffer holds, the bitmaps, the inodes and the root directory.\<close>

definition write_super :: "part \<Rightarrow> u8 list \<Rightarrow> (nat \<Rightarrow> u8 list) \<Rightarrow> (nat \<Rightarrow> u8 list) res" where
  "write_super p pad dk = disk_write dk (part_start p + 1) 1 (le32s_bytes (sb_words (format_sb (part_start p) (part_size p))) @ pad)"

definition write_tables :: "part \<Rightarrow> u8 list \<Rightarrow> (nat \<Rightarrow> u8 list) \<Rightarrow> (nat \<Rightarrow> u8 list) res" where
  "write_tables p buf dk =
     (let b = format_sb (part_start p) (part_size p);
          zero = replicate (unat (format_buf_size b)) 0
      in bindR (format_block_bitmap (format_bits (part_size p)) buf) (\<lambda>buf.
         bindR (disk_write dk (block_bitmap_lba b) (ucast (block_bitmap_sects b)) buf) (\<lambda>dk.
         bindR (copy_to buf 0 zero) (\<lambda>buf.
         bindR (disk_write dk (inode_bitmap_lba b) (ucast (inode_bitmap_sects b)) (buf[0 := buf ! 0 OR 0x1])) (\<lambda>dk.
         bindR (copy_to buf 0 zero) (\<lambda>buf.
         bindR (copy_to buf 0 (inode_bytes (root_inode b))) (\<lambda>buf.
         bindR (disk_write dk (inode_table_lba b) (ucast (inode_table_sects b)) buf) (\<lambda>dk.
         bindR (copy_to buf 0 zero) (\<lambda>buf.
         bindR (copy_to buf 0 root_entries) (\<lambda>buf.
           disk_write dk (data_start_lba b) 1 buf))))))))))"

text \<open>The buffer is asked for between the two and used without a test.\<close>

definition partition_format :: "part \<Rightarrow> u8 list \<Rightarrow> u8 list \<Rightarrow> fs \<Rightarrow> fs res" where
  "partition_format p pad buf s =
     bindR (write_super p pad (disk s)) (\<lambda>dk.
     bindR (kmalloc_used (s\<lparr>disk := dk\<rparr>)) (\<lambda>(a, s).
     bindR (write_tables p buf (disk s)) (\<lambda>dk. kfree a (s\<lparr>disk := dk\<rparr>))))"

section \<open>mount_partition and filesys_init\<close>

text \<open>Four blocks: a buffer, which is not tested and never given back, the super block and the two bitmaps. The
  length of the inode bitmap is computed from the number of sectors of the block bitmap.\<close>

definition mount_partition :: "u8 list \<Rightarrow> part \<Rightarrow> fs \<Rightarrow> (partition option \<times> fs) res" where
  "mount_partition name p s =
     (if part_name p \<noteq> name then Inr (None, s)
      else let (sb_buf, s) = kmalloc s; (sb_at, s) = kmalloc s in
        if sb_at = NULL then Inl (Panicked ''alloc memory failed!'')
        else if sb_buf = NULL then Inl (Bad_access ''sb_buf'')
        else bindR (disk_read (disk s) (part_start p + 1) 1) (\<lambda>bs.
        let b = words_sb (le32s bs 13); (blocks_at, s) = kmalloc s in
        if blocks_at = NULL then Inl (Panicked ''alloc memory failed!'')
        else bindR (disk_read (disk s) (block_bitmap_lba b) (ucast (block_bitmap_sects b))) (\<lambda>blocks.
        let (inos_at, s) = kmalloc s in
        if inos_at = NULL then Inl (Panicked ''alloc memory failed!'')
        else bindR (disk_read (disk s) (inode_bitmap_lba b) (ucast (inode_bitmap_sects b))) (\<lambda>inos.
          Inr (Some \<lparr>part_start = part_start p, part_size = part_size p, my_disk = my_disk p, part_name = part_name p,
            sb = b,
            block_bitmap = \<lparr>btmp_bytes_len = block_bitmap_sects b * SECTOR_SIZE, btmp_bits = blocks\<rparr>,
            inode_bitmap = \<lparr>btmp_bytes_len = block_bitmap_sects b * SECTOR_SIZE, btmp_bits = inos\<rparr>,
            open_inodes = []\<rparr>, s)))))"

text \<open>list_traversal stops at the first partition that is mounted.\<close>

fun mount_first :: "u8 list \<Rightarrow> part list \<Rightarrow> fs \<Rightarrow> (partition option \<times> fs) res" where
  "mount_first name [] s = Inr (None, s)"
| "mount_first name (p # ps) s =
     bindR (mount_partition name p s) (\<lambda>(r, s). case r of Some m \<Rightarrow> Inr (Some m, s) | None \<Rightarrow> mount_first name ps s)"

text \<open>The loop over the twelve partitions of a disk. pads and bufs are what the stack and the heap hold when
  partition_format is called for a partition.\<close>

fun format_loop :: "(nat \<Rightarrow> u8 list) \<Rightarrow> (nat \<Rightarrow> u8 list) \<Rightarrow> nat \<Rightarrow> nat \<Rightarrow> part list \<Rightarrow> fs \<Rightarrow> fs res" where
  "format_loop pads bufs 0 part_idx parts s = Inr s"
| "format_loop pads bufs (Suc left) part_idx parts s =
     (let p = parts ! part_idx in
      bindR (if part_size p \<noteq> 0
             then bindR (disk_read (disk s) (part_start p + 1) 1) (\<lambda>sb_buf.
               if le32 sb_buf 0 = 0x20250325 then Inr s else partition_format p (pads part_idx) (bufs part_idx) s)
             else Inr s)
        (format_loop pads bufs left (part_idx + 1) parts))"

text \<open>The loop over the channels, each with the partitions of its second disk. part_idx is 0 before the first
  channel and not set back: it is 12 when the next one is looked at, whose loop does nothing.\<close>

fun channel_loop :: "(nat \<Rightarrow> u8 list) \<Rightarrow> (nat \<Rightarrow> u8 list) \<Rightarrow> nat \<Rightarrow> part list list \<Rightarrow> fs \<Rightarrow> fs res" where
  "channel_loop pads bufs part_idx [] s = Inr s"
| "channel_loop pads bufs part_idx (parts # chans) s =
     bindR (format_loop pads bufs (12 - part_idx) part_idx parts s) (channel_loop pads bufs 12 chans)"

definition default_part :: "u8 list" where "default_part = [0x73, 0x64, 0x62, 0x31]"

text \<open>chans are, for each channel, the four primary and the eight logical partitions of its second disk, queued
  the partitions in partition_list.\<close>

definition filesys_init :: "(nat \<Rightarrow> u8 list) \<Rightarrow> (nat \<Rightarrow> u8 list) \<Rightarrow> part list list \<Rightarrow> part list \<Rightarrow> fs \<Rightarrow> fs res" where
  "filesys_init pads bufs chans queued s =
     (let (sb_buf, s) = kmalloc s in
      if sb_buf = NULL then Inl (Panicked ''alloc memory failed!'')
      else bindR (channel_loop pads bufs 0 chans s) (\<lambda>s.
     bindR (kfree sb_buf s) (\<lambda>s.
     bindR (mount_first default_part queued s) (\<lambda>(r, s). case r of
       None \<Rightarrow> Inl (Bad_access ''cur_part'')
     | Some p \<Rightarrow>
         bindR (open_root_dir (s\<lparr>cur_part := p\<rparr>)) (\<lambda>s.
           Inr (s\<lparr>file_table := map (\<lambda>f. f\<lparr>fd_inode := NULL\<rparr>) (file_table s)\<rparr>))))))"

lemma later_channels: "channel_loop pads bufs 12 chans s = Inr s"
  by (induction chans) simp_all

text \<open>What partition_format does when it gets its buffer, and when it does not.\<close>

definition format_disk :: "part \<Rightarrow> u8 list \<Rightarrow> u8 list \<Rightarrow> (nat \<Rightarrow> u8 list) \<Rightarrow> (nat \<Rightarrow> u8 list) res" where
  "format_disk p pad buf dk = bindR (write_super p pad dk) (write_tables p buf)"

lemma kmalloc_used_ok: "mallocs s = a # ms \<Longrightarrow> a \<noteq> NULL \<Longrightarrow> kmalloc_used s = Inr (a, s\<lparr>mallocs := ms, held := a # held s\<rparr>)"
  by (simp add: kmalloc_used_def kmalloc_def)

lemma partition_format_ok:
  assumes "format_disk p pad buf (disk s) = Inr dk" "mallocs s = a # ms" "a \<noteq> NULL"
  shows "partition_format p pad buf s = Inr (s\<lparr>disk := dk, mallocs := ms\<rparr>)"
proof -
  obtain d where d: "write_super p pad (disk s) = Inr d" "write_tables p buf d = Inr dk"
    using assms(1) by (auto simp: format_disk_def bindR_Inr_iff)
  have "kmalloc_used (s\<lparr>disk := d\<rparr>) = Inr (a, s\<lparr>disk := d, mallocs := ms, held := a # held s\<rparr>)"
    using kmalloc_used_ok [of "s\<lparr>disk := d\<rparr>" a ms] assms(2,3) by simp
  then show ?thesis using d by (simp add: partition_format_def kfree_def)
qed

lemma partition_format_NULL:
  "mallocs s = NULL # ms \<or> mallocs s = [] \<Longrightarrow> \<not> is_ok (partition_format p pad buf s)"
  by (auto simp: partition_format_def kmalloc_used_def kmalloc_def is_ok_iff bindR_Inr_iff)

text \<open>What mount_partition makes of the disk when it gets its blocks.\<close>

definition mounted :: "part \<Rightarrow> (nat \<Rightarrow> u8 list) \<Rightarrow> partition res" where
  "mounted p dk =
     bindR (disk_read dk (part_start p + 1) 1) (\<lambda>bs.
        let b = words_sb (le32s bs 13) in
        bindR (disk_read dk (block_bitmap_lba b) (ucast (block_bitmap_sects b))) (\<lambda>blocks.
        bindR (disk_read dk (inode_bitmap_lba b) (ucast (inode_bitmap_sects b))) (\<lambda>inos.
          Inr \<lparr>part_start = part_start p, part_size = part_size p, my_disk = my_disk p, part_name = part_name p,
            sb = b,
            block_bitmap = \<lparr>btmp_bytes_len = block_bitmap_sects b * SECTOR_SIZE, btmp_bits = blocks\<rparr>,
            inode_bitmap = \<lparr>btmp_bytes_len = block_bitmap_sects b * SECTOR_SIZE, btmp_bits = inos\<rparr>,
            open_inodes = []\<rparr>)))"

lemma mount_partition_ok:
  assumes "mounted p (disk s) = Inr m" "mallocs s = a # b # c # d # ms" "0 \<notin> set [a, b, c, d]"
  shows "mount_partition (part_name p) p s = Inr (Some m, s\<lparr>mallocs := ms, held := d # c # b # a # held s\<rparr>)"
  using assms by (auto simp: mount_partition_def mounted_def kmalloc_def Let_def bindR_Inr_iff)

section \<open>The numbers of the layout\<close>

lemma unat_DIV_ROUND_UP:
  assumes "unat x + 4095 < 4294967296"
  shows "unat (DIV_ROUND_UP x 4096) = (unat x + 4095) div 4096"
proof -
  have e: "x + 4096 - 1 = x + 4095" by simp
  have "unat (x + 4095) = unat x + 4095" using assms by (subst unat_add_u32) simp_all
  then show ?thesis unfolding DIV_ROUND_UP_def e by (simp only: unat_div) simp
qed

definition n_bits :: "nat \<Rightarrow> nat" where
  "n_bits n = (n - 611) - ((n - 611) + 4095) div 4096"

definition n_sects :: "nat \<Rightarrow> nat" where
  "n_sects n = (n_bits n + 4095) div 4096"

lemma n_bounds:
  assumes "620 \<le> n" "n \<le> 163840"
  shows "8 \<le> n_bits n" "n_bits n \<le> 163229" "1 \<le> n_sects n" "n_sects n \<le> 40" "n_sects n + 611 < n"
    "n_bits n \<le> 4096 * n_sects n"
  using assms unfolding n_sects_def n_bits_def by linarith+

lemma const_sects: "DIV_ROUND_UP MAX_FILES_PER_PART BITS_PER_SECTOR = 1"
  "DIV_ROUND_UP (sizeof_inode * MAX_FILES_PER_PART) SECTOR_SIZE = 608"
  by (simp_all add: DIV_ROUND_UP_def MAX_FILES_PER_PART_def BITS_PER_SECTOR_def sizeof_inode_def SECTOR_SIZE_def)

lemma unat_format_bits:
  assumes "620 \<le> unat nsec" "unat nsec \<le> 163840"
  shows "unat (format_bits nsec) = n_bits (unat nsec)"
proof -
  let ?F = "nsec - 611"
  have le: "(611 :: u32) \<le> nsec" using assms(1) by (simp add: word_le_nat_alt)
  have F: "unat ?F = unat nsec - 611" using unat_sub [OF le] by simp
  have D: "unat (DIV_ROUND_UP ?F 4096) = (unat nsec - 611 + 4095) div 4096"
    using unat_DIV_ROUND_UP [of ?F] F assms by simp
  have le2: "DIV_ROUND_UP ?F 4096 \<le> ?F" unfolding word_le_nat_alt D F using assms by linarith
  have "format_bits nsec = ?F - DIV_ROUND_UP ?F 4096"
    unfolding format_bits_def Let_def const_sects by (simp add: BITS_PER_SECTOR_def)
  then show ?thesis using unat_sub [OF le2] F D by (simp add: n_bits_def)
qed

lemma format_sb_numbers:
  assumes "620 \<le> unat nsec" "unat start + unat nsec \<le> 163840"
  defines "b \<equiv> format_sb start nsec" and "n \<equiv> n_sects (unat nsec)" and "S \<equiv> unat start"
  shows "unat (block_bitmap_lba b) = S + 2" "unat (block_bitmap_sects b) = n" "unat (inode_bitmap_lba b) = S + 2 + n"
    "unat (inode_table_lba b) = S + 3 + n" "unat (data_start_lba b) = S + 611 + n"
    "inode_bitmap_sects b = 1" "inode_table_sects b = 608" "unat (format_buf_size b) = 311296"
proof -
  have N: "unat nsec \<le> 163840" using assms(2) by simp
  note B = n_bounds [OF assms(1) N] and u = unat_format_bits [OF assms(1) N]
  have s: "unat (DIV_ROUND_UP (format_bits nsec) BITS_PER_SECTOR) = n"
    unfolding BITS_PER_SECTOR_def n_def n_sects_def u [symmetric] using u B(2) by (intro unat_DIV_ROUND_UP) simp
  have S: "S + 611 + n < 163840" using assms(2) B(5) by (simp add: S_def n_def)
  note d = b_def format_sb_def Let_def const_sects
  show bb: "unat (block_bitmap_lba b) = S + 2" unfolding d using S by (simp add: unat_add_u32 S_def)
  show bs: "unat (block_bitmap_sects b) = n" unfolding d using s by simp
  have ib: "inode_bitmap_lba b = block_bitmap_lba b + block_bitmap_sects b" "inode_table_lba b = inode_bitmap_lba b + 1"
    "data_start_lba b = inode_table_lba b + 608" unfolding d by simp_all
  show i: "unat (inode_bitmap_lba b) = S + 2 + n" unfolding ib(1) using S bb bs by (subst unat_add_u32) simp_all
  show t: "unat (inode_table_lba b) = S + 3 + n" unfolding ib(2) using S i by (subst unat_Suc_u32) simp_all
  show "unat (data_start_lba b) = S + 611 + n" unfolding ib(3) using S t by (subst unat_add_u32) simp_all
  show one: "inode_bitmap_sects b = 1" and tab: "inode_table_sects b = 608" unfolding d by simp_all
  have "block_bitmap_sects b \<ge> 1" "\<not> block_bitmap_sects b \<ge> 608 \<or> block_bitmap_sects b = 608" "608 \<ge> block_bitmap_sects b"
    using bs B(3,4) by (simp_all add: word_le_nat_alt n_def)
  then show "unat (format_buf_size b) = 311296" by (simp add: format_buf_size_def Let_def one tab SECTOR_SIZE_def)
qed

section \<open>The bits of the block bitmap\<close>

lemma bit_clear_bits: "bit (clear_bits n b) i = (bit b i \<and> n < i)"
  by (induction n) (auto simp: bit_simps less_Suc_eq dest: bit_imp_le_length)

lemma format_block_bitmap_bits:
  assumes bits: "8 \<le> unat bl" "unat bl \<le> 163229"
  obtains bs where "format_block_bitmap bl (replicate 311296 0) = Inr bs" "length bs = 311296"
    "\<And>k. k < 4096 * ((unat bl + 4095) div 4096) \<Longrightarrow> bit (bs ! (k div 8)) (k mod 8) = (k = 0 \<or> unat bl < k)"
proof -
  define B lb r where "B = unat bl" and "lb = B div 8" and "r = B mod 8"
  have u: "unat (bl div 8) = lb" "unat (ucast (bl mod 8) :: u8) = r"
  proof -
    show "unat (bl div 8) = lb" by (simp add: unat_div lb_def B_def)
    have m: "unat (bl mod 8) = r" by (simp add: unat_mod r_def B_def)
    have "r < 256" unfolding r_def by (rule less_le_trans [of _ 8]) simp_all
    then show "unat (ucast (bl mod 8) :: u8) = r" using m by (simp add: unsigned_ucast_eq take_bit_nat_eq_self)
  qed
  define ls where "ls = 512 - lb mod 512"
  have m512: "lb mod 512 < 512" by (rule mod_less_divisor) simp
  have "unat (SECTOR_SIZE - bl div 8 mod SECTOR_SIZE) = ls"
  proof -
    have m: "unat (bl div 8 mod 512) = lb mod 512" using u(1) by (simp add: unat_mod)
    have "bl div 8 mod 512 \<le> 512" unfolding word_le_nat_alt m using m512 by simp
    from unat_sub [OF this] show ?thesis using m by (simp add: SECTOR_SIZE_def ls_def)
  qed
  note ul = u this
  have lb: "1 \<le> lb" "lb \<le> 20403" using bits unfolding lb_def B_def by linarith+
  have ls: "1 \<le> ls" "ls \<le> 512" using m512 by (simp_all add: ls_def)
  have Br: "8 * lb + r = B" "r < 8" by (simp_all add: lb_def r_def)
  let ?b0 = "(replicate 311296 (0 :: u8))[0 := 1]"
  let ?b1 = "put_at ?b0 lb (replicate ls 0xff)"
  let ?b2 = "?b1[lb := clear_bits r (?b1 ! lb)]"
  have fits: "lb + length (replicate ls (0xff :: u8)) \<le> length ?b0" using lb ls by simp
  have eq: "format_block_bitmap bl (replicate 311296 0) = Inr ?b2"
    using fits unfolding format_block_bitmap_def Let_def ul copy_to_def by simp
  have len: "length ?b2 = 311296" using fits by simp
  have byte: "?b2 ! j = (if j = 0 then 1 else if j < lb then 0 else if j = lb then clear_bits r 0xff else if j < lb + ls then 0xff else 0)"
    if j: "j < 311296" for j
    using j lb ls by (simp add: nth_list_update nth_put_at [OF fits])
  have "bit (?b2 ! (k div 8)) (k mod 8) = (k = 0 \<or> B < k)" if k: "k < 4096 * ((B + 4095) div 4096)" for k
  proof -
    define j i where "j = k div 8" and "i = k mod 8"
    have ji: "8 * j + i = k" "i < 8" by (simp_all add: j_def i_def)
    have big: "4096 * ((B + 4095) div 4096) \<le> 167936" using bits unfolding B_def by linarith
    have jl: "j < 311296" using ji k big by linarith
    have ff: "bit (0xff :: u8) i" using ji(2) byte_eq_ff [of "0xff"] by blast
    have sector: "j < lb + ls" if "lb \<le> j"
    proof -
      define q s where "q = lb div 512" and "s = lb mod 512"
      have qs: "512 * q + s = lb" "s < 512" unfolding q_def s_def by simp_all
      have "s \<le> 511" using qs(2) by simp
      then have "B + 4095 < (q + 2) * 4096" using Br qs(1) by simp
      then have "(B + 4095) div 4096 < q + 2" by (rule less_mult_imp_div_less)
      then have "(B + 4095) div 4096 \<le> q + 1" by simp
      then have "k < 4096 * (q + 1)" by (intro less_le_trans [OF k] mult_le_mono2)
      then have "j < 512 * (q + 1)" using ji by linarith
      then show ?thesis using qs by (simp add: ls_def s_def)
    qed
    have "bit (?b2 ! j) i = (k = 0 \<or> B < k)"
    proof (cases "j < lb")
      case True
      then have "\<not> B < k" using ji Br by linarith
      moreover have "k = 0 \<longleftrightarrow> j = 0 \<and> i = 0" using ji by auto
      ultimately show ?thesis using True unfolding byte [OF jl] by (simp add: bit_1_iff)
    next
      case F: False
      show ?thesis
      proof (cases "j = lb")
        case True
        have "B < k \<longleftrightarrow> r < i" using True ji Br by linarith
        moreover have "k \<noteq> 0" using True ji lb by linarith
        ultimately show ?thesis using True lb ff unfolding byte [OF jl] by (simp add: bit_clear_bits)
      next
        case False
        then have "B < k" using F ji Br by linarith
        then show ?thesis using F False lb ff sector unfolding byte [OF jl] by simp
      qed
    qed
    then show ?thesis by (simp add: j_def i_def)
  qed
  then show ?thesis using that [OF eq len] by (simp add: B_def)
qed

section \<open>The disk after partition_format\<close>

lemma disk_write_eq:
  "unat lba < 163840 \<Longrightarrow> unat cnt = c \<Longrightarrow> 0 < c \<Longrightarrow> 512 * c \<le> length buf
   \<Longrightarrow> disk_write dk lba cnt buf = Inr (put_sectors dk (unat lba) (take (512 * c) buf))"
  by (auto simp: disk_write_def le_max_lba word_less_nat_alt)

lemma disk_read_eq:
  "unat lba < 163840 \<Longrightarrow> unat cnt = c \<Longrightarrow> 0 < c \<Longrightarrow> disk_read dk lba cnt = Inr (sectors dk (unat lba) c)"
  by (auto simp: disk_read_def le_max_lba word_less_nat_alt)

lemma length_sb_words [simp]: "length (sb_words b) = 13"
  by (simp add: sb_words_def)

lemma words_sb_words: "words_sb (sb_words b) = b"
  by (simp add: words_sb_def sb_words_def)

lemma length_root [simp]: "length (inode_bytes (root_inode b)) = 76" "length root_entries = 48"
  by (simp_all add: length_inode_bytes inode_wf_def root_inode_def root_entries_def)

lemma partition_format_effect:
  assumes N: "620 \<le> unat (part_size p)" "unat (part_start p) + unat (part_size p) \<le> 163840" and pad: "length pad = 460"
  defines "b \<equiv> format_sb (part_start p) (part_size p)" and "n \<equiv> n_sects (unat (part_size p))" and "S \<equiv> unat (part_start p)"
  obtains bs where "length bs = 512 * n"
    "\<And>k. k < 4096 * n \<Longrightarrow> bit (bs ! (k div 8)) (k mod 8) = (k = 0 \<or> unat (format_bits (part_size p)) < k)"
    "format_disk p pad (replicate 311296 0) dk = Inr (
       put_sectors (put_sectors (put_sectors (put_sectors (put_sectors dk (S + 1) (le32s_bytes (sb_words b) @ pad))
         (S + 2) bs) (S + 2 + n) (1 # replicate 511 0)) (S + 3 + n) (inode_bytes (root_inode b) @ replicate (512 * 96 - 76) 0))
         (S + 611 + n) (root_entries @ replicate 464 0))"
proof -
  have sz: "unat (part_size p) \<le> 163840" using N(2) by simp
  note B = n_bounds [OF N(1) sz] and fb = unat_format_bits [OF N(1) sz]
  have num: "unat (block_bitmap_lba b) = S + 2" "unat (block_bitmap_sects b) = n" "unat (inode_bitmap_lba b) = S + 2 + n"
    "unat (inode_table_lba b) = S + 3 + n" "unat (data_start_lba b) = S + 611 + n"
    "inode_bitmap_sects b = 1" "inode_table_sects b = 608" "unat (format_buf_size b) = 311296"
    unfolding b_def n_def S_def by (rule format_sb_numbers [OF N])+
  obtain full where full: "format_block_bitmap (format_bits (part_size p)) (replicate 311296 0) = Inr full" "length full = 311296"
    "\<And>k. k < 4096 * n \<Longrightarrow> bit (full ! (k div 8)) (k mod 8) = (k = 0 \<or> unat (format_bits (part_size p)) < k)"
    using format_block_bitmap_bits [of "format_bits (part_size p)"] B(1,2) unfolding n_def n_sects_def fb by blast
  have n: "1 \<le> n" "n \<le> 40" "S + n + 611 < 163840" using B(3-5) N(2) by (simp_all add: n_def S_def)
  have cnt: "unat (ucast (block_bitmap_sects b) :: u8) = n" "unat (ucast (608 :: u32) :: u8) = 96"
  proof -
    show "unat (ucast (block_bitmap_sects b) :: u8) = n"
      using num(2) n(2) by (simp add: unsigned_ucast_eq take_bit_nat_eq_self)
    show "unat (ucast (608 :: u32) :: u8) = 96" by simp
  qed
  have s1: "unat (part_start p + 1) = S + 1" using n(3) by (subst unat_Suc_u32) (simp_all add: S_def)
  let ?bs = "take (512 * n) full" and ?z = "replicate 311296 (0 :: u8)"
  let ?sb = "le32s_bytes (sb_words b) @ pad"
  let ?d1 = "put_sectors dk (S + 1) ?sb"
  let ?d2 = "put_sectors ?d1 (S + 2) ?bs"
  let ?d3 = "put_sectors ?d2 (S + 2 + n) (1 # replicate 511 0)"
  let ?tab = "inode_bytes (root_inode b) @ replicate (512 * 96 - 76) 0"
  let ?d4 = "put_sectors ?d3 (S + 3 + n) ?tab"
  have w1: "disk_write dk (part_start p + 1) 1 ?sb = Inr ?d1"
    using disk_write_eq [of "part_start p + 1" 1 1 ?sb dk] n(3) s1 pad by simp
  have w2: "disk_write ?d1 (block_bitmap_lba b) (ucast (block_bitmap_sects b)) full = Inr ?d2"
    using disk_write_eq [of "block_bitmap_lba b" "ucast (block_bitmap_sects b)" n full ?d1] cnt(1) num(1) n full(2) by simp
  have z1: "copy_to full 0 ?z = Inr ?z" using full(2) by (simp add: copy_to_def put_at_def)
  have zc: "?z = 0 # replicate 311295 0" using replicate_Suc [of 311295 "0 :: u8"] by simp
  have i1: "?z[0 := ?z ! 0 OR 0x1] = 1 # replicate 311295 0" unfolding zc by simp
  have i2: "take 512 (1 # replicate 311295 (0 :: u8)) = 1 # replicate 511 0" by (simp add: take_Cons')
  have w3: "disk_write ?d2 (inode_bitmap_lba b) (ucast (inode_bitmap_sects b)) (1 # replicate 311295 0) = Inr ?d3"
    using disk_write_eq [of "inode_bitmap_lba b" 1 1 "1 # replicate 311295 0" ?d2] num(3,6) n i2 by simp
  have z2: "copy_to ?z 0 ?z = Inr ?z" by (simp add: copy_to_def put_at_def)
  have z2': "copy_to (1 # replicate 311295 0) 0 ?z = Inr ?z" by (simp add: copy_to_def put_at_def)
  let ?tb = "inode_bytes (root_inode b) @ replicate (311296 - 76) 0"
  have c3: "copy_to ?z 0 (inode_bytes (root_inode b)) = Inr ?tb"
    by (simp add: copy_to_def put_at_def)
  have w4: "disk_write ?d3 (inode_table_lba b) (ucast (inode_table_sects b)) ?tb = Inr ?d4"
    using disk_write_eq [of "inode_table_lba b" "ucast (608 :: u32)" 96 ?tb ?d3] num(4,7) n cnt(2) by simp
  have z3: "copy_to ?tb 0 ?z = Inr ?z" by (simp add: copy_to_def put_at_def)
  let ?rb = "root_entries @ replicate (311296 - 48) 0"
  have c4: "copy_to ?z 0 root_entries = Inr ?rb" by (simp add: copy_to_def put_at_def)
  have w5: "disk_write ?d4 (data_start_lba b) 1 ?rb = Inr (put_sectors ?d4 (S + 611 + n) (root_entries @ replicate 464 0))"
    using disk_write_eq [of "data_start_lba b" 1 1 ?rb ?d4] num(5) n by simp
  have eq: "format_disk p pad (replicate 311296 0) dk = Inr (put_sectors ?d4 (S + 611 + n) (root_entries @ replicate 464 0))"
    unfolding format_disk_def write_super_def write_tables_def b_def [symmetric] Let_def num(8) w1 bindR_simps full(1) w2 w3 w4 w5 z1 z2 z2' z3 i1 c3 c4 bindR_simps
    by (rule refl)
  have bits: "bit (?bs ! (k div 8)) (k mod 8) = (k = 0 \<or> unat (format_bits (part_size p)) < k)" if k: "k < 4096 * n" for k
  proof -
    have "k div 8 < 512 * n" using k by (simp add: less_mult_imp_div_less)
    then show ?thesis using full(3) [OF k] by simp
  qed
  have len: "length ?bs = 512 * n" using full(2) n(2) by simp
  show ?thesis by (rule that [OF len bits eq])
qed

section \<open>Properties\<close>

lemma sectors_put': "length bs = 512 * n \<Longrightarrow> l = l' \<Longrightarrow> sectors (put_sectors dk l bs) l' n = bs"
  by (simp add: sectors_put)

lemma sectors_put_above: "l + n \<le> p \<Longrightarrow> sectors (put_sectors dk p bs) l n = sectors dk l n"
  by (rule sectors_put_other) simp

lemma format_mounts:
  assumes "disk_ok dk" "620 \<le> unat (part_size p)" "unat (part_start p) + unat (part_size p) \<le> 163840" "length pad = 460"
  shows "\<exists>dk' m. format_disk p pad (replicate 311296 0) dk = Inr dk' \<and> mounted p dk' = Inr m
     \<and> disk_ok dk' \<and> sb m = format_sb (part_start p) (part_size p) \<and> open_inodes m = [] \<and> bm_wf (block_bitmap m)
     \<and> (\<forall>k < bm_size (block_bitmap m). bm_bit (block_bitmap m) k \<longleftrightarrow> k = 0 \<or> unat (format_bits (part_size p)) < k)
     \<and> (\<forall>k < 4096. bm_bit (inode_bitmap m) k \<longleftrightarrow> k = 0)
     \<and> disk_inode (sb m) dk' 0 = root_inode (sb m) \<and> dk' (unat (data_start_lba (sb m))) = root_entries @ replicate 464 0
     \<and> part_start m = part_start p \<and> part_size m = part_size p
     \<and> length (btmp_bits (block_bitmap m)) = 512 * n_sects (unat (part_size p))
     \<and> sectors dk' (unat (block_bitmap_lba (sb m))) (n_sects (unat (part_size p))) = btmp_bits (block_bitmap m)
     \<and> btmp_bits (inode_bitmap m) = 1 # replicate 511 0
     \<and> unat (btmp_bytes_len (inode_bitmap m)) = 512 * n_sects (unat (part_size p))
     \<and> sectors dk' (unat (inode_bitmap_lba (sb m))) 1 = btmp_bits (inode_bitmap m)"
proof -
  define b n S where "b = format_sb (part_start p) (part_size p)" and "n = n_sects (unat (part_size p))" and "S = unat (part_start p)"
  have sz: "unat (part_size p) \<le> 163840" using assms(3) by simp
  note B = n_bounds [OF assms(2) sz]
  have num: "unat (block_bitmap_lba b) = S + 2" "unat (block_bitmap_sects b) = n" "unat (inode_bitmap_lba b) = S + 2 + n"
    "unat (inode_table_lba b) = S + 3 + n" "unat (data_start_lba b) = S + 611 + n" "inode_bitmap_sects b = 1"
    unfolding b_def n_def S_def by (rule format_sb_numbers [OF assms(2,3)])+
  have n: "1 \<le> n" "n \<le> 40" "S + n + 611 < 163840" using B(3-5) assms(3) by (simp_all add: n_def S_def)
  obtain bs where bs: "length bs = 512 * n"
    "\<And>k. k < 4096 * n \<Longrightarrow> bit (bs ! (k div 8)) (k mod 8) = (k = 0 \<or> unat (format_bits (part_size p)) < k)"
    "format_disk p pad (replicate 311296 0) dk = Inr (
       put_sectors (put_sectors (put_sectors (put_sectors (put_sectors dk (S + 1) (le32s_bytes (sb_words b) @ pad))
         (S + 2) bs) (S + 2 + n) (1 # replicate 511 0)) (S + 3 + n) (inode_bytes (root_inode b) @ replicate (512 * 96 - 76) 0))
         (S + 611 + n) (root_entries @ replicate 464 0))"
    using partition_format_effect [OF assms(2-4), of dk, folded b_def n_def S_def] by blast
  let ?sb = "le32s_bytes (sb_words b) @ pad" and ?ib = "1 # replicate 511 (0 :: u8)"
  let ?tab = "inode_bytes (root_inode b) @ replicate (512 * 96 - 76) 0" and ?root = "root_entries @ replicate 464 0"
  let ?d1 = "put_sectors dk (S + 1) ?sb"
  let ?d2 = "put_sectors ?d1 (S + 2) bs"
  let ?d3 = "put_sectors ?d2 (S + 2 + n) ?ib"
  let ?d4 = "put_sectors ?d3 (S + 3 + n) ?tab"
  let ?d = "put_sectors ?d4 (S + 611 + n) ?root"
  have len: "length ?sb = 512" "length ?ib = 512" "length ?tab = 512 * 96" "length ?root = 512" using assms(4) by simp_all
  have ok: "disk_ok ?d" by (intro disk_ok_put assms(1))
  have r1: "sectors ?d (S + 1) 1 = ?sb"
    by (subst sectors_put_above, use n in linarith)+ (rule sectors_put', use len in simp_all)
  have r2: "sectors ?d (S + 2) n = bs"
    by (subst sectors_put_above, use n in linarith)+ (rule sectors_put [OF bs(1)])
  have r3: "sectors ?d (S + 2 + n) 1 = ?ib"
    by (subst sectors_put_above, use n in linarith)+ (rule sectors_put', simp_all)
  have r4: "sectors ?d (S + 3 + n) 96 = ?tab"
    by (subst sectors_put_above, use n in linarith)+ (rule sectors_put', use len in simp_all)
  have r5: "?d (S + 611 + n) = ?root" using len(4) by (simp add: put_sectors_def)
  have w: "words_sb (le32s ?sb 13) = b"
    using le32s_roundtrip [of "sb_words b" pad] by (simp add: words_sb_words)
  have s1: "unat (part_start p + 1) = S + 1" using n(3) by (subst unat_Suc_u32) (simp_all add: S_def)
  have c: "unat (ucast (block_bitmap_sects b) :: u8) = n" using num(2) n(2) by (simp add: unsigned_ucast_eq take_bit_nat_eq_self)
  have m1: "disk_read ?d (part_start p + 1) 1 = Inr ?sb"
    using disk_read_eq [of "part_start p + 1" 1 1 ?d] s1 n(3) r1 by simp
  have m2: "disk_read ?d (block_bitmap_lba b) (ucast (block_bitmap_sects b)) = Inr bs"
    using disk_read_eq [of "block_bitmap_lba b" "ucast (block_bitmap_sects b)" n ?d] c num(1) n r2 by simp
  have m3: "disk_read ?d (inode_bitmap_lba b) (ucast (inode_bitmap_sects b)) = Inr ?ib"
    using disk_read_eq [of "inode_bitmap_lba b" 1 1 ?d] num(3,6) n r3 by simp
  let ?m = "\<lparr>part_start = part_start p, part_size = part_size p, my_disk = my_disk p, part_name = part_name p, sb = b,
     block_bitmap = \<lparr>btmp_bytes_len = block_bitmap_sects b * SECTOR_SIZE, btmp_bits = bs\<rparr>,
     inode_bitmap = \<lparr>btmp_bytes_len = block_bitmap_sects b * SECTOR_SIZE, btmp_bits = ?ib\<rparr>, open_inodes = []\<rparr>"
  have mount: "mounted p ?d = Inr ?m"
    unfolding mounted_def m1 bindR_simps Let_def w m2 m3 by simp
  have "unat (block_bitmap_sects b * SECTOR_SIZE) = n * 512"
    using num(2) n(2) by (subst unat_mult_u32) (simp_all add: SECTOR_SIZE_def)
  then have wf: "bm_wf (block_bitmap ?m)" "unat (btmp_bytes_len (inode_bitmap ?m)) = 512 * n" using bs(1) n(2) by (simp_all add: bm_wf_def)
  have bits: "\<forall>k < bm_size (block_bitmap ?m). bm_bit (block_bitmap ?m) k \<longleftrightarrow> k = 0 \<or> unat (format_bits (part_size p)) < k"
    using bs(1,2) by (simp add: bm_size_def bm_bit_def)
  have ibits: "\<forall>k < 4096. bm_bit (inode_bitmap ?m) k \<longleftrightarrow> k = 0"
  proof (intro allI impI)
    fix k :: nat assume "k < 4096"
    then have k: "k div 8 < 512" by (simp add: less_mult_imp_div_less)
    show "bm_bit (inode_bitmap ?m) k \<longleftrightarrow> k = 0"
    proof (cases "k div 8")
      case 0
      then have "k < 8" by (simp add: div_eq_0_iff)
      then show ?thesis by (simp add: bm_bit_def bit_1_iff)
    next
      case (Suc j)
      then have "k \<noteq> 0" "\<not> k < 8" using k by auto
      then show ?thesis using k Suc by (simp add: bm_bit_def)
    qed
  qed
  have "sectors ?d (S + 3 + n) (96 + 512) = ?tab @ sectors ?d (S + 3 + n + 96) 512" unfolding sectors_append r4 by (rule refl)
  then have "slice (inode_table b ?d) 0 76 = inode_bytes (root_inode b)"
    unfolding inode_table_def num(4) slice_def by simp
  then have root: "disk_inode b ?d 0 = root_inode b"
    using inode_roundtrip [of "root_inode b"] by (simp add: disk_inode_def inode_wf_def root_inode_def)
  have b': "sb ?m = b" "open_inodes ?m = []" "part_start ?m = part_start p" "part_size ?m = part_size p"
    "btmp_bits (block_bitmap ?m) = bs" "btmp_bits (inode_bitmap ?m) = ?ib" by simp_all
  show ?thesis
    by (intro exI [of _ ?d] exI [of _ ?m] conjI)
      (use bs(1,3) mount ok wf bits ibits root r5 num(1,3,5) r2 r3 in \<open>simp_all only: b' b_def [symmetric] n_def [symmetric]\<close>)
qed

text \<open>Formatting a partition of at least 620 sectors and mounting it, with five answers of sys_malloc that are not
  NULL, gives back the super block as computed, an inode bitmap with inode 0 taken, a root inode with the
  first data block, in which the entries for . and .. stand, and a block bitmap in which block 0 and the
  blocks above the number of blocks are taken. The block of that very number, one past the last, is free:
  the loop that clears the last byte goes one bit too far. Without the first block the code writes through
  NULL.\<close>
theorem format_then_mount:
  assumes "disk_ok (disk s)" "620 \<le> unat (part_size p)" "unat (part_start p) + unat (part_size p) \<le> 163840" "length pad = 460"
    and "mallocs s = f # a # b # c # d # ms" "0 \<notin> set [a, b, c, d]"
  shows "if f = NULL then \<not> is_ok (partition_format p pad (replicate 311296 0) s)
     else \<exists>s' m. partition_format p pad (replicate 311296 0) s = Inr s'
     \<and> mount_partition (part_name p) p s' = Inr (Some m, s'\<lparr>mallocs := ms, held := d # c # b # a # held s\<rparr>)
     \<and> disk_ok (disk s') \<and> sb m = format_sb (part_start p) (part_size p) \<and> open_inodes m = [] \<and> bm_wf (block_bitmap m)
     \<and> (\<forall>k < bm_size (block_bitmap m). bm_bit (block_bitmap m) k \<longleftrightarrow> k = 0 \<or> unat (format_bits (part_size p)) < k)
     \<and> (\<forall>k < 4096. bm_bit (inode_bitmap m) k \<longleftrightarrow> k = 0)
     \<and> disk_inode (sb m) (disk s') 0 = root_inode (sb m) \<and> disk s' (unat (data_start_lba (sb m))) = root_entries @ replicate 464 0"
proof (cases "f = NULL")
  case True
  then show ?thesis using partition_format_NULL [of s] assms(5) by simp
next
  case False
  obtain dk m where m: "format_disk p pad (replicate 311296 0) (disk s) = Inr dk" "mounted p dk = Inr m" "disk_ok dk"
    "sb m = format_sb (part_start p) (part_size p)" "open_inodes m = []" "bm_wf (block_bitmap m)"
    "\<forall>k < bm_size (block_bitmap m). bm_bit (block_bitmap m) k \<longleftrightarrow> k = 0 \<or> unat (format_bits (part_size p)) < k"
    "\<forall>k < 4096. bm_bit (inode_bitmap m) k \<longleftrightarrow> k = 0"
    "disk_inode (sb m) dk 0 = root_inode (sb m)" "dk (unat (data_start_lba (sb m))) = root_entries @ replicate 464 0"
    using format_mounts [OF assms(1-4)] by blast
  let ?s = "s\<lparr>disk := dk, mallocs := a # b # c # d # ms\<rparr>"
  have "partition_format p pad (replicate 311296 0) s = Inr ?s" by (rule partition_format_ok [OF m(1) assms(5) False])
  moreover have "mount_partition (part_name p) p ?s = Inr (Some m, ?s\<lparr>mallocs := ms, held := d # c # b # a # held s\<rparr>)"
    using mount_partition_ok [of p ?s m a b c d ms] m(2) assms(6) by simp
  ultimately show ?thesis using False m(3-10) by auto
qed

end
