(* ===== verification/Open.thy ===== *)
theory Open
  imports Format
begin

text \<open>
  file_create of fs/file.c, and the paths and sys_open of fs/fs.c. A pointer into a string is the list of
  the bytes from there on, with the terminator inside; the name buffers of 16 bytes and the searched path
  of 512 bytes are byte lists, and a write past their end is a bad access.
\<close>

section \<open>file_create\<close>

definition memset0 :: "u8 list \<Rightarrow> u8 list" where "memset0 bs = replicate (length bs) 0"

definition rollback2 :: "addr \<Rightarrow> u32 \<Rightarrow> fs \<Rightarrow> fs res" where
  "rollback2 new_file_inode ino s =
     bindR (kfree new_file_inode s) (\<lambda>s.
     bindR (bitmap_set (inode_bitmap (cur_part s)) ino 0) (\<lambda>bm. Inr (set_inode_bitmap bm s)))"

definition file_create :: "dir_ptr \<Rightarrow> u8 list \<Rightarrow> u8 \<Rightarrow> fs \<Rightarrow> (u32 \<times> fs) res" where
  "file_create parent_dir filename flag s =
     (let (io_buf, s) = kmalloc s in
      if io_buf = NULL then Inr (FAIL, s)
      else bindR (inode_bitmap_alloc s) (\<lambda>(ino, s).
        if ino = FAIL then Inr (FAIL, s)
        else let (ip, s) = kmalloc s in
        if ip = NULL then
          bindR (bitmap_set (inode_bitmap (cur_part s)) ino 0) (\<lambda>bm.
          bindR (kfree io_buf (set_inode_bitmap bm s)) (\<lambda>s. Inr (FAIL, s)))
        else let s = upd_inode ip (\<lambda>_. inode_init ino) s in
        bindR (get_free_slot_in_global s) (\<lambda>fd_idx.
        if fd_idx = FAIL then
          bindR (rollback2 ip ino s) (\<lambda>s. bindR (kfree io_buf s) (\<lambda>s. Inr (FAIL, s)))
        else let s = s\<lparr>file_table := (file_table s)[unat fd_idx := \<lparr>fd_pos = 0, fd_flag = FT_REGULAR, fd_inode = ip\<rparr>]\<rparr>;
                 s = upd_inode ip (\<lambda>i. i\<lparr>write_deny := False\<rparr>) s
        in bindR (create_dir_entry filename ino (ucast FT_REGULAR) (replicate 24 0)) (\<lambda>entry.
        bindR (sync_dir_entry parent_dir entry (take 1024 (concat (map le32_bytes (junk s)) @ replicate 1024 0)) s) (\<lambda>(ok, s).
        if \<not> ok then
          let s = s\<lparr>file_table := (file_table s)[unat fd_idx := \<lparr>fd_pos = 0, fd_flag = 0, fd_inode = NULL\<rparr>]\<rparr> in
          bindR (rollback2 ip ino s) (\<lambda>s. bindR (kfree io_buf s) (\<lambda>s. Inr (FAIL, s)))
        else
          bindR (inode_sync (d_inode (the_dir parent_dir s)) s) (\<lambda>s.
          bindR (inode_sync ip s) (\<lambda>s.
          bindR (bitmap_sync ino INODE_BITMAP s) (\<lambda>s.
          let s = set_open_inodes (ip # open_inodes (cur_part s)) s;
              s = upd_inode ip (\<lambda>i. i\<lparr>i_open_cnts := 1\<rparr>) s
          in bindR (kfree io_buf s) (pcb_fd_install fd_idx)))))))))"

section \<open>Paths\<close>

definition slash :: u8 where "slash = 0x2f"

fun skip_slashes :: "u8 list \<Rightarrow> u8 list res" where
  "skip_slashes (c # cs) = (if c = slash then skip_slashes cs else Inr (c # cs))"
| "skip_slashes [] = Inl (Bad_access ''pathname'')"

text \<open>The copy into the buffer from position i on.\<close>

fun copy_name :: "u8 list \<Rightarrow> u8 list \<Rightarrow> nat \<Rightarrow> (u8 list \<times> u8 list) res" where
  "copy_name (c # cs) name_store i =
     (if c \<noteq> slash \<and> c \<noteq> 0 then
        if i < length name_store then copy_name cs (name_store[i := c]) (i + 1) else Inl (Bad_access ''name_store'')
      else Inr (c # cs, name_store))"
| "copy_name [] name_store i = Inl (Bad_access ''pathname'')"

text \<open>The rest of the path, None for NULL, and the buffer.\<close>

definition path_paser :: "u8 list \<Rightarrow> u8 list \<Rightarrow> (u8 list option \<times> u8 list) res" where
  "path_paser pathname name_store =
     bindR (if take 1 pathname = [slash] then skip_slashes pathname else Inr pathname) (\<lambda>pathname.
     bindR (copy_name pathname name_store 0) (\<lambda>(pathname, name_store).
       Inr (if take 1 pathname = [0] then None else Some pathname, name_store)))"

partial_function (option) depth_loop :: "u8 list option \<Rightarrow> u8 list \<Rightarrow> u32 \<Rightarrow> u32 res option" where
  "depth_loop p name dep =
     (if name ! 0 = 0 then Some (Inr dep)
      else case p of
        None \<Rightarrow> depth_loop None (memset0 name) (dep + 1)
      | Some q \<Rightarrow> (case path_paser q (memset0 name) of
          Inl e \<Rightarrow> Some (Inl e)
        | Inr (p, name) \<Rightarrow> depth_loop p name (dep + 1)))"

text \<open>name is what the 16 bytes of the array hold on entry.\<close>

definition path_depth_cnt :: "u8 list \<Rightarrow> u8 list \<Rightarrow> u32 res" where
  "path_depth_cnt pathname name =
     bindR (path_paser pathname name) (\<lambda>(p, name). bindR (of_loop (depth_loop p name 0)) id)"

section \<open>search_file\<close>

record path_search_record =
  searched_path :: "u8 list"
  parent_dir :: dir_ptr
  file_type :: u32

text \<open>strcat on a buffer: the characters of src, without its terminator.\<close>

definition cstring :: "u8 list \<Rightarrow> u8 list res" where
  "cstring bs = (if 0 \<in> set bs then Inr (takeWhile (\<lambda>c. c \<noteq> 0) bs) else Inl (Bad_access ''string''))"

definition buf_strcat :: "u8 list \<Rightarrow> u8 list \<Rightarrow> u8 list res" where
  "buf_strcat dst src =
     bindR (cstring dst) (\<lambda>d. bindR (cstring src) (\<lambda>c. copy_to dst (length d) c))"

partial_function (option) search_loop ::
  "u8 list option \<Rightarrow> u8 list \<Rightarrow> u8 list \<Rightarrow> dir_ptr \<Rightarrow> u32 \<Rightarrow> path_search_record \<Rightarrow> fs \<Rightarrow> ((u32 \<times> path_search_record \<times> fs) res) option" where
  "search_loop sub_path name dir_e pdir parent_inode_no r s =
     (if name ! 0 = 0 then
        Some (bindR (dir_close (parent_dir r) s) (\<lambda>s.
              bindR (dir_open parent_inode_no s) (\<lambda>(d, s).
                Inr (de_ino dir_e, r\<lparr>parent_dir := d, file_type := FT_DIRECTORY\<rparr>, s))))
      else
        (case bindR (buf_strcat (searched_path r) [slash, 0]) (\<lambda>p.
              bindR (buf_strcat p name) (\<lambda>p.
              bindR (search_dir_entry pdir name dir_e s) (\<lambda>(f, s). Inr (r\<lparr>searched_path := p\<rparr>, f, s)))) of
           Inl e \<Rightarrow> Some (Inl e)
         | Inr (r, None, s) \<Rightarrow> Some (Inr (FAIL, r, s))
         | Inr (r, Some dir_e, s) \<Rightarrow>
             (case (case sub_path of None \<Rightarrow> Inr (None, memset0 name) | Some q \<Rightarrow> path_paser q (memset0 name)) of
                Inl e \<Rightarrow> Some (Inl e)
              | Inr (sub_path, name) \<Rightarrow>
                  if de_type dir_e = FT_DIRECTORY then
                    (case bindR (dir_close pdir s) (\<lambda>s'. dir_open (de_ino dir_e) s') of
                       Inl e \<Rightarrow> Some (Inl e)
                     | Inr (d, s') \<Rightarrow>
                         search_loop sub_path name dir_e d (i_no (inodes s (d_inode (the_dir pdir s)))) (r\<lparr>parent_dir := d\<rparr>) s')
                  else if de_type dir_e = FT_REGULAR then Some (Inr (de_ino dir_e, r\<lparr>file_type := FT_REGULAR\<rparr>, s))
                  else search_loop sub_path name dir_e pdir parent_inode_no r s)))"

text \<open>dir_e is the entry on the stack, not yet written to.\<close>

definition search_file :: "u8 list \<Rightarrow> u8 list \<Rightarrow> path_search_record \<Rightarrow> fs \<Rightarrow> (u32 \<times> path_search_record \<times> fs) res" where
  "search_file pathname dir_e r s =
     bindR (cstring pathname) (\<lambda>path.
       if path = [slash] \<or> path = [slash, 0x2e] \<or> path = [slash, 0x2e, 0x2e] then
         Inr (0, r\<lparr>file_type := FT_DIRECTORY, parent_dir := Root_dir, searched_path := (searched_path r)[0 := 0]\<rparr>, s)
       else if \<not> length path < 512 then Inl (Assertion ''path_len < MAX_PATH_LEN'')
       else bindR (path_paser pathname (replicate MAX_FILE_NAME_LEN 0)) (\<lambda>(sub_path, name).
         bindR (of_loop (search_loop sub_path name dir_e Root_dir 0 (r\<lparr>parent_dir := Root_dir, file_type := FT_UNKNOWN\<rparr>) s)) id))"

section \<open>sys_open\<close>

definition O_CREAT :: u8 where "O_CREAT = 4"

text \<open>strrchr as sys_open uses it: what follows the last slash.\<close>

definition after_last_slash :: "u8 list \<Rightarrow> u8 list" where
  "after_last_slash p = rev (takeWhile (\<lambda>c. c \<noteq> slash) (rev p))"

text \<open>The stack: dir_e for search_file, and what the name array of path_depth_cnt holds on each of its calls.\<close>

definition sys_open :: "u8 list \<Rightarrow> u8 list \<Rightarrow> u8 list \<Rightarrow> u8 list \<Rightarrow> u8 \<Rightarrow> fs \<Rightarrow> (u32 \<times> fs) res" where
  "sys_open dir_e name1 name2 pathname flags s =
     bindR (cstring pathname) (\<lambda>path.
       if path = [] then Inl (Bad_access ''pathname'')
       else if last path = slash then Inr (FAIL, s)
       else if \<not> flags \<le> 7 then Inl (Assertion ''flags <= 7'')
       else bindR (path_depth_cnt pathname name1) (\<lambda>pathname_depth.
       bindR (search_file pathname dir_e \<lparr>searched_path = replicate 512 0, parent_dir = Root_dir, file_type = 0\<rparr> s) (\<lambda>(ino, r, s).
       if file_type r = FT_DIRECTORY then bindR (dir_close (parent_dir r) s) (\<lambda>s. Inr (FAIL, s))
       else bindR (path_depth_cnt (searched_path r) name2) (\<lambda>search_depth.
         if search_depth \<noteq> pathname_depth then bindR (dir_close (parent_dir r) s) (\<lambda>s. Inr (FAIL, s))
         else if ino = FAIL \<and> flags AND O_CREAT = 0 then bindR (dir_close (parent_dir r) s) (\<lambda>s. Inr (FAIL, s))
         else if ino \<noteq> FAIL \<and> flags AND O_CREAT \<noteq> 0 then bindR (dir_close (parent_dir r) s) (\<lambda>s. Inr (FAIL, s))
         else if flags AND O_CREAT = O_CREAT then
           if slash \<notin> set path then Inl (Bad_access ''strrchr'')
           else bindR (file_create (parent_dir r) (after_last_slash path) flags s) (\<lambda>(fd, s).
           bindR (dir_close (parent_dir r) s) (\<lambda>s. Inr (fd, s)))
         else Inr (FAIL, s)))))"

section \<open>The components of a path\<close>

function components :: "u8 list \<Rightarrow> u8 list list" where
  "components p = (let q = dropWhile (\<lambda>c. c = slash) p in
     if q = [] then [] else takeWhile (\<lambda>c. c \<noteq> slash) q # components (dropWhile (\<lambda>c. c \<noteq> slash) q))"
  by pat_completeness auto
termination
proof (relation "measure length")
  fix p q :: "u8 list"
  assume q: "q = dropWhile (\<lambda>c. c = slash) p" "q \<noteq> []"
  then have "List.hd q \<noteq> slash" using hd_dropWhile [of "\<lambda>c. c = slash" p] by blast
  then have "length (dropWhile (\<lambda>c. c \<noteq> slash) q) < length q"
    using q(2) length_dropWhile_le [of "\<lambda>c. c \<noteq> slash" "List.tl q"] by (cases q) simp_all
  also have "\<dots> \<le> length p" unfolding q(1) by (rule length_dropWhile_le)
  finally show "(dropWhile (\<lambda>c. c \<noteq> slash) q, p) \<in> measure length" by simp
qed simp

declare components.simps [simp del]

definition first_name :: "u8 list \<Rightarrow> u8 list" where
  "first_name p = takeWhile (\<lambda>c. c \<noteq> slash) (dropWhile (\<lambda>c. c = slash) p)"

definition after_name :: "u8 list \<Rightarrow> u8 list" where
  "after_name p = dropWhile (\<lambda>c. c \<noteq> slash) (dropWhile (\<lambda>c. c = slash) p)"

lemma first_name_nonempty: "dropWhile (\<lambda>c. c = slash) p \<noteq> [] \<Longrightarrow> first_name p \<noteq> []"
  using hd_dropWhile [of "\<lambda>c. c = slash" p] by (cases "dropWhile (\<lambda>c. c = slash) p") (auto simp: first_name_def)

lemma components_eq: "components p = (if first_name p = [] then [] else first_name p # components (after_name p))"
proof (cases "dropWhile (\<lambda>c. c = slash) p = []")
  case True
  then have "first_name p = []" unfolding first_name_def by (simp only: takeWhile.simps)
  moreover have "components p = []" unfolding components.simps [of p] Let_def True by simp
  ultimately show ?thesis by simp
next
  case False
  then show ?thesis
    unfolding components.simps [of p] Let_def first_name_def [symmetric] after_name_def [symmetric]
    using first_name_nonempty [OF False] by (simp only: if_False)
qed

lemma after_name_nil: "first_name p = [] \<Longrightarrow> after_name p = []"
proof -
  assume "first_name p = []"
  then have "dropWhile (\<lambda>c. c = slash) p = []" using first_name_nonempty [of p] by blast
  then show ?thesis unfolding after_name_def by (simp only: dropWhile.simps)
qed

lemma set_first_name: "set (first_name p) \<subseteq> set p" "set (after_name p) \<subseteq> set p"
  by (auto simp: first_name_def after_name_def dest!: set_takeWhileD set_dropWhileD)

lemma length_after_name: "first_name p \<noteq> [] \<Longrightarrow> length (after_name p) < length p"
proof -
  assume n: "first_name p \<noteq> []"
  let ?q = "dropWhile (\<lambda>c. c = slash) p"
  have "length (first_name p) + length (after_name p) = length ?q"
    using length_append [of "first_name p" "after_name p"] by (simp only: first_name_def after_name_def takeWhile_dropWhile_id)
  moreover have "length ?q \<le> length p" by (rule length_dropWhile_le)
  moreover have "0 < length (first_name p)" using n by simp
  ultimately show ?thesis by linarith
qed

section \<open>path_paser takes the first one\<close>

lemma skip_slashes_eq: "skip_slashes (p @ 0 # z) = Inr (dropWhile (\<lambda>c. c = slash) p @ 0 # z)"
  by (induction p) (simp_all add: slash_def)

lemma copy_name_eq:
  "0 \<notin> set p \<Longrightarrow> copy_name (p @ 0 # z) buf i =
     (if i + length (takeWhile (\<lambda>c. c \<noteq> slash) p) \<le> length buf \<or> takeWhile (\<lambda>c. c \<noteq> slash) p = []
      then Inr (dropWhile (\<lambda>c. c \<noteq> slash) p @ 0 # z, take i buf @ takeWhile (\<lambda>c. c \<noteq> slash) p @ drop (i + length (takeWhile (\<lambda>c. c \<noteq> slash) p)) buf)
      else Inl (Bad_access ''name_store''))"
proof (induction p arbitrary: buf i)
  case Nil
  then show ?case by simp
next
  case (Cons c p)
  show ?case
  proof (cases "c = slash")
    case True
    then show ?thesis by simp
  next
    case False
    then show ?thesis
      using Cons.IH [of "buf[i := c]" "i + 1"] Cons.prems
      by (cases "i < length buf") (auto simp: take_Suc_conv_app_nth drop_update_cancel)
  qed
qed

lemma path_paser_eq:
  assumes "0 \<notin> set p"
  shows "path_paser (p @ 0 # z) buf =
     (if length (first_name p) \<le> length buf
      then Inr (if after_name p = [] then None else Some (after_name p @ 0 # z), put_at buf 0 (first_name p))
      else Inl (Bad_access ''name_store''))"
proof -
  let ?q = "dropWhile (\<lambda>c. c = slash) p"
  have s: "(if take 1 (p @ 0 # z) = [slash] then skip_slashes (p @ 0 # z) else Inr (p @ 0 # z)) = Inr (?q @ 0 # z)"
    by (cases p) (auto simp: skip_slashes_eq slash_def)
  have q: "0 \<notin> set ?q" using assms by (auto dest: set_dropWhileD)
  have t: "take 1 (after_name p @ 0 # z) = [0] \<longleftrightarrow> after_name p = []"
    using set_first_name(2) [of p] assms by (cases "after_name p") auto
  show ?thesis
    unfolding path_paser_def s bindR_simps copy_name_eq [OF q] first_name_def [symmetric] after_name_def [symmetric]
    using t by (simp add: put_at_def)
qed

section \<open>path_depth_cnt counts them\<close>

lemma depth_none: "name ! 0 \<noteq> 0 \<Longrightarrow> name \<noteq> [] \<Longrightarrow> depth_loop None name d = Some (Inr (d + 1))"
  by (subst depth_loop.simps, simp, subst depth_loop.simps) (cases name; simp add: memset0_def)

lemma depth_step:
  assumes "name ! 0 \<noteq> 0" "length name = 16" "0 \<notin> set p"
  shows "depth_loop (Some (p @ 0 # z)) name d =
     (if length (first_name p) \<le> 16
      then depth_loop (if after_name p = [] then None else Some (after_name p @ 0 # z)) (put_at (replicate 16 0) 0 (first_name p)) (d + 1)
      else Some (Inl (Bad_access ''name_store'')))"
  using assms path_paser_eq [OF assms(3), of z "replicate 16 0"] by (subst depth_loop.simps) (simp add: memset0_def)

lemma put_first_name: "0 \<notin> set p \<Longrightarrow> length (first_name p) \<le> 16 \<Longrightarrow>
  length (put_at (replicate 16 0) 0 (first_name p)) = 16
  \<and> (put_at (replicate 16 0) 0 (first_name p) ! 0 = (0 :: u8) \<longleftrightarrow> first_name p = [])"
  using set_first_name(1) [of p] by (cases "first_name p") (auto simp: put_at_def)

lemma depth_run:
  "name ! 0 \<noteq> 0 \<Longrightarrow> length name = 16 \<Longrightarrow> 0 \<notin> set p \<Longrightarrow>
    depth_loop (Some (p @ 0 # z)) name d =
      (if \<forall>c \<in> set (components p). length c \<le> 16 then Some (Inr (d + 1 + of_nat (length (components p))))
       else Some (Inl (Bad_access ''name_store'')))"
proof (induction "length p" arbitrary: p name d rule: less_induct)
  case less
  let ?n = "first_name p" and ?r = "after_name p"
  show ?case
  proof (cases "?n = []")
    case True
    then have c: "components p = []" by (subst components_eq) simp
    have r: "?r = []" by (rule after_name_nil [OF True])
    have "depth_loop None (put_at (replicate 16 0) 0 []) (d + 1) = Some (Inr (d + 1))"
      by (subst depth_loop.simps) (simp add: put_at_def)
    then show ?thesis using depth_step [OF less.prems, of z d] True r c by simp
  next
    case False
    then have c: "components p = ?n # components ?r" by (subst components_eq) simp
    show ?thesis
    proof (cases "length ?n \<le> 16")
      case F: False
      then show ?thesis using depth_step [OF less.prems, of z d] c by simp
    next
      case T: True
      let ?name = "put_at (replicate 16 0) 0 ?n"
      have nm: "length ?name = 16" "?name ! 0 \<noteq> 0" using put_first_name [OF less.prems(3) T] False by simp_all
      show ?thesis
      proof (cases "?r = []")
        case True
        then have "components ?r = []" by (subst components_eq) (simp add: first_name_def)
        moreover have "depth_loop None ?name (d + 1) = Some (Inr (d + 1 + 1))" using nm by (intro depth_none) auto
        ultimately show ?thesis using depth_step [OF less.prems, of z d] T True c by simp
      next
        case R: False
        have "0 \<notin> set ?r" using set_first_name(2) [of p] less.prems(3) by blast
        then show ?thesis
          using less.hyps [OF length_after_name [OF False] nm(2,1), of "d + 1"] depth_step [OF less.prems, of z d] T R c
          by (simp add: algebra_simps)
      qed
    qed
  qed
qed

lemma path_depth_eq:
  assumes "0 \<notin> set p" "length name = 16"
  shows "path_depth_cnt (p @ 0 # z) name =
    (if \<exists>c \<in> set (components p). 16 < length c then Inl (Bad_access ''name_store'')
     else Inr (if components p = [] then (if name ! 0 = 0 then 0 else 1) else of_nat (length (components p))))"
proof -
  let ?n = "first_name p" and ?r = "after_name p"
  have pp: "path_paser (p @ 0 # z) name =
     (if length ?n \<le> 16 then Inr (if ?r = [] then None else Some (?r @ 0 # z), put_at name 0 ?n) else Inl (Bad_access ''name_store''))"
    using path_paser_eq [OF assms(1), of z name] assms(2) by simp
  show ?thesis
  proof (cases "?n = []")
    case True
    then have c: "components p = []" by (subst components_eq) simp
    have r: "?r = []" by (rule after_name_nil [OF True])
    have "depth_loop None name 0 = Some (Inr (if name ! 0 = 0 then 0 else 1))"
    proof (cases "name ! 0 = 0")
      case True
      then show ?thesis by (subst depth_loop.simps) simp
    next
      case False
      moreover have "name \<noteq> []" using assms(2) by auto
      ultimately show ?thesis using depth_none [of name 0] by simp
    qed
    then show ?thesis using pp True r c by (simp add: path_depth_cnt_def put_at_def)
  next
    case False
    then have c: "components p = ?n # components ?r" by (subst components_eq) simp
    show ?thesis
    proof (cases "length ?n \<le> 16")
      case F: False
      then show ?thesis using pp c by (simp add: path_depth_cnt_def)
    next
      case T: True
      have nm: "length (put_at name 0 ?n) = 16" "put_at name 0 ?n ! 0 \<noteq> 0"
        using T False set_first_name(1) [of p] assms by (cases ?n; auto simp: put_at_def)+
      show ?thesis
      proof (cases "?r = []")
        case True
        then have "components ?r = []" by (subst components_eq) (simp add: first_name_def)
        moreover have "depth_loop None (put_at name 0 ?n) 0 = Some (Inr (0 + 1))" using nm by (intro depth_none) auto
        ultimately show ?thesis using pp T True c by (simp add: path_depth_cnt_def)
      next
        case R: False
        have "0 \<notin> set ?r" using set_first_name(2) [of p] assms(1) by blast
        then show ?thesis
          using depth_run [OF nm(2,1), of ?r z 0] pp T R c by (auto simp: path_depth_cnt_def not_le)
      qed
    qed
  qed
qed

section \<open>Properties\<close>

text \<open>C30: There are three cases. For a path with a name whose names all have at most 16 characters path_depth_cnt
  returns, and the number it returns is that of the names between the slashes, wherever slashes are doubled or
  end the path. For a path of slashes only it returns too, but the answer depends on what the buffer held: it
  is 1 when its first byte is not 0. A path with a longer name is copied past the end of the buffer of 16
  bytes: a bad access.\<close>
theorem path_depth_counts:
  assumes "0 \<notin> set p" "length name = 16"
  shows "path_depth_cnt (p @ 0 # z) name =
    (if \<exists>c \<in> set (components p). 16 < length c then Inl (Bad_access ''name_store'')
     else Inr (if components p = [] then (if name ! 0 = 0 then 0 else 1) else of_nat (length (components p))))"
  by (rule path_depth_eq [OF assms])

lemma path_depth_counts_witness:
  "path_depth_cnt [0x2f, 0x61, 0x2f, 0x2f, 0x62, 0] (replicate 16 0x20) = Inr 2
   \<and> path_depth_cnt [0x2f, 0] (replicate 16 0x20) = Inr 1"
proof -
  have c: "components [0x2f, 0x61, 0x2f, 0x2f, 0x62] = [[0x61], [0x62]]" "components [0x2f] = []" by code_simp+
  have z: "0 \<notin> set [0x2f, 0x61, 0x2f, 0x2f, 0x62 :: u8]" "0 \<notin> set [0x2f :: u8]" "length (replicate 16 (0x20 :: u8)) = 16" by simp_all
  show ?thesis
    using path_depth_counts [OF z(1,3), of "[]"] path_depth_counts [OF z(2,3), of "[]"] c by simp
qed

lemma bm_upd_back:
  assumes "k < bm_size bm" "\<not> bm_bit bm k"
  shows "bm_upd (bm_upd bm k True) k False = bm"
proof -
  let ?b = "btmp_bits bm ! (k div 8)"
  have l: "k div 8 < length (btmp_bits bm)" using assms(1) by (simp add: bm_size_def less_mult_imp_div_less mult.commute)
  have nb: "\<not> bit ?b (k mod 8)" using assms(2) by (simp add: bm_bit_def)
  have "unset_bit (k mod 8) (set_bit (k mod 8) ?b) = ?b"
    using nb by (intro bit_word_eqI) (auto simp: bit_simps)
  then have "btmp_bits (bm_upd (bm_upd bm k True) k False) = btmp_bits bm"
    using l by (simp add: bm_upd_def)
  then show ?thesis by (simp add: bm_upd_def)
qed

text \<open>C31: When no slot of the file table is free, file_create returns -1 and gives back what it has taken: the
  inode's bit is clear again, both blocks of memory are freed, and the disk, the file table, the open
  inodes and the descriptors are as before.\<close>
theorem file_create_rolls_back:
  assumes wf: "bm_wf (inode_bitmap (cur_part s))" and free: "\<exists>k < bm_size (inode_bitmap (cur_part s)). \<not> bm_bit (inode_bitmap (cur_part s)) k"
    and full: "length (file_table s) = 32" "\<forall>i. 3 \<le> i \<and> i < 32 \<longrightarrow> fd_inode (file_table s ! i) \<noteq> NULL"
    and m: "mallocs s = x # y # ms" "x \<noteq> 0" "y \<noteq> 0"
  shows "\<exists>i. file_create d n flag s = Inr (FAIL, s\<lparr>mallocs := ms, inodes := (inodes s)(y := i)\<rparr>)"
proof -
  let ?bm = "inode_bitmap (cur_part s)"
  obtain k where k: "k < bm_size ?bm" "\<not> bm_bit ?bm k" "\<forall>j < k. bm_bit ?bm j" using first_free [OF free] by blast
  let ?b = "bm_upd ?bm k True"
  let ?s1 = "s\<lparr>mallocs := y # ms, held := x # held s\<rparr>"
  let ?s2 = "set_inode_bitmap ?b ?s1"
  let ?s3 = "?s2\<lparr>mallocs := ms, held := y # x # held s\<rparr>"
  let ?s4 = "upd_inode y (\<lambda>_. inode_init (of_nat k)) ?s3"
  have p1: "inode_bitmap (cur_part ?s1) = ?bm" by simp
  have al: "inode_bitmap_alloc ?s1 = Inr (of_nat k, ?s2)"
    using inode_alloc_eq [of ?s1 k, unfolded p1, OF wf k] by simp
  note nf = bit_index [OF wf k(1)]
  have km: "kmalloc s = (x, ?s1)" "kmalloc ?s2 = (y, ?s3)" using m by (simp_all add: kmalloc_def set_inode_bitmap_def)
  have ft: "file_table ?s4 = file_table s" by (simp add: upd_inode_def set_inode_bitmap_def)
  obtain j where "free_slot_loop (file_table s) 3 = Inr j" "3 \<le> j" "j \<le> MAX_FILE_OPEN"
    "j < MAX_FILE_OPEN \<longrightarrow> fd_inode (file_table s ! j) = NULL"
    using free_slot_loop_spec [of 3 "file_table s"] full(1) by (auto simp: MAX_FILE_OPEN_def)
  then have "free_slot_loop (file_table s) 3 = Inr 32" using full(2) by (cases "j < 32") (auto simp: MAX_FILE_OPEN_def)
  then have sl: "get_free_slot_in_global ?s4 = Inr FAIL"
    unfolding get_free_slot_in_global_def ft by (simp add: MAX_FILE_OPEN_def)
  have cp: "inode_bitmap (cur_part ?s4) = ?b" "held ?s4 = y # x # held s"
    by (simp_all add: upd_inode_def set_inode_bitmap_def)
  have wfb: "bm_wf ?b" using wf by simp
  have unset: "bitmap_set ?b (of_nat k) 0 = Inr ?bm"
    using bitmap_set_eq [OF wfb, of "of_nat k" 0] k(1) nf(1) bm_upd_back [OF k(1,2)] by simp
  have rb: "rollback2 y (of_nat k) ?s4 = Inr (set_inode_bitmap ?bm (?s4\<lparr>held := x # held s\<rparr>))"
    using unset cp by (simp add: rollback2_def kfree_def)
  have fr: "kfree x (set_inode_bitmap ?bm (?s4\<lparr>held := x # held s\<rparr>)) = Inr (set_inode_bitmap ?bm (?s4\<lparr>held := held s\<rparr>))"
    by (simp add: kfree_def set_inode_bitmap_def upd_inode_def)
  have undo: "set_inode_bitmap ?bm (?s4\<lparr>held := held s\<rparr>) = s\<lparr>mallocs := ms, inodes := (inodes s)(y := inode_init (of_nat k))\<rparr>"
    by (simp add: set_inode_bitmap_def upd_inode_def)
  have "file_create d n flag s = Inr (FAIL, set_inode_bitmap ?bm (?s4\<lparr>held := held s\<rparr>))"
    unfolding file_create_def km(1) Let_def case_prod_conv al bindR_simps km(2) sl rb fr
    using m(2,3) nf(2) by (simp only: bindR_simps case_prod_conv km al sl rb fr if_False if_True refl simp_thms)
  then show ?thesis unfolding undo by blast
qed

lemma file_create_rolls_back_witness:
  "\<exists>i. file_create Root_dir [0x61] 4 (demo_synced\<lparr>file_table := replicate 32 \<lparr>fd_pos = 0, fd_flag = 1, fd_inode = 0x5000\<rparr>\<rparr>)
     = Inr (FAIL, demo_synced\<lparr>file_table := replicate 32 \<lparr>fd_pos = 0, fd_flag = 1, fd_inode = 0x5000\<rparr>, mallocs := [0x3000, 0x4000],
         inodes := (inodes demo_synced)(0x2000 := i)\<rparr>)"
proof -
  let ?s = "demo_synced\<lparr>file_table := replicate 32 \<lparr>fd_pos = 0, fd_flag = 1, fd_inode = 0x5000\<rparr>\<rparr>"
  have b: "inode_bitmap (cur_part ?s) = \<lparr>btmp_bytes_len = 512, btmp_bits = 1 # replicate 511 0\<rparr>"
    by (simp add: demo_synced_def demo_fs_def demo_part_def)
  have wf: "bm_wf (inode_bitmap (cur_part ?s))" unfolding b by (simp add: bm_wf_def)
  have fr: "\<exists>k < bm_size (inode_bitmap (cur_part ?s)). \<not> bm_bit (inode_bitmap (cur_part ?s)) k"
    unfolding b by (intro exI [of _ 1]) (simp add: bm_size_def bm_bit_def bit_1_iff)
  have m: "mallocs ?s = 0x1000 # 0x2000 # [0x3000, 0x4000]" by (simp add: demo_synced_def demo_fs_def)
  show ?thesis using file_create_rolls_back [OF wf fr _ _ m, of Root_dir "[0x61]" 4] by simp
qed

end
