(* ===== verification/Create.thy ===== *)
theory Create
  imports Open
begin

text \<open>
  What file_create and sys_open do when they succeed, on a mounted partition: the entry, the two inodes and
  the two bitmaps on the disk, the slot, the descriptor and the open inode in memory.
\<close>

section \<open>Inodes of a mounted partition\<close>

text \<open>Bitmaps, inode table and data lie one behind the other.\<close>

definition part_ok :: "partition \<Rightarrow> bool" where
  "part_ok p \<longleftrightarrow> data_ok p \<and> table_fits p
     \<and> unat (inode_bitmap_lba (sb p)) + length (btmp_bits (inode_bitmap p)) div 512 \<le> unat (inode_table_lba (sb p))
     \<and> unat (inode_table_lba (sb p)) + 608 \<le> unat (data_start_lba (sb p))"

definition on_disk :: "inode \<Rightarrow> inode" where
  "on_disk i = i\<lparr>i_open_cnts := 0, write_deny := False\<rparr>"

lemma inode_sync_agree:
  assumes s: "agree ib s" and p: "part_ok (cur_part s)" and wf: "inode_wf (inodes s ip)" and no: "unat (i_no (inodes s ip)) < 256"
  obtains d where "inode_sync ip s = Inr (s\<lparr>disk := d\<rparr>)" "agree ib (s\<lparr>disk := d\<rparr>)"
    "\<And>k. k < 4096 \<Longrightarrow> disk_inode (sb (cur_part s)) d k
       = (if k = unat (i_no (inodes s ip)) then on_disk (inodes s ip) else disk_inode (sb (cur_part s)) (disk s) k)"
    "\<And>l. unat (data_start_lba (sb (cur_part s))) \<le> l \<Longrightarrow> d l = disk s l"
proof -
  let ?p = "cur_part s" and ?i = "inodes s ip"
  have S: "disk_ok (disk s)" "bm_wf (block_bitmap ?p)" "copy_of (disk s) (block_bitmap_lba (sb ?p)) (block_bitmap ?p)"
    "bm_wf ib" "copy_of (disk s) (inode_bitmap_lba (sb ?p)) ib" "length (btmp_bits ib) = length (btmp_bits (inode_bitmap ?p))"
    "unat (block_bitmap_lba (sb ?p)) + length (btmp_bits (block_bitmap ?p)) div 512 \<le> unat (inode_bitmap_lba (sb ?p))"
    using s by (simp_all add: agree_def Let_def)
  have P: "table_fits ?p" "unat (inode_bitmap_lba (sb ?p)) + length (btmp_bits (inode_bitmap ?p)) div 512 \<le> unat (inode_table_lba (sb ?p))"
    "unat (inode_table_lba (sb ?p)) + 608 \<le> unat (data_start_lba (sb ?p))"
    using p by (simp_all add: part_ok_def)
  obtain d where d: "inode_sync ip s = Inr (s\<lparr>disk := d\<rparr>)" "disk_ok d"
    "inode_table (sb ?p) d = put_at (inode_table (sb ?p) (disk s)) (76 * (unat (i_no ?i) mod 256)) (inode_bytes (?i\<lparr>i_open_cnts := 0, write_deny := False\<rparr>))"
    "\<And>l. l < unat (inode_table_lba (sb ?p)) \<or> unat (inode_table_lba (sb ?p)) + 608 \<le> l \<Longrightarrow> d l = disk s l"
    using inode_sync_effect [OF wf P(1) S(1)] by blast
  have c1: "copy_of d (block_bitmap_lba (sb ?p)) (block_bitmap ?p)"
    by (rule copy_of_other [OF S(3)]) (use d(4) S(7) P(2) in auto)
  have c2: "copy_of d (inode_bitmap_lba (sb ?p)) ib"
    by (rule copy_of_other [OF S(5)]) (use d(4) S(6) P(2) in auto)
  have wf': "inode_wf (on_disk ?i)" using wf by (simp add: inode_wf_def on_disk_def)
  have m: "unat (i_no ?i) mod 256 = unat (i_no ?i)" using no by simp
  have "disk_inode (sb ?p) d k = (if k = unat (i_no ?i) then on_disk ?i else disk_inode (sb ?p) (disk s) k)" if "k < 4096" for k
    using disk_inode_put [OF S(1) _ that length_inode_bytes [OF wf'] d(3) [folded on_disk_def, unfolded m]] no inode_roundtrip [OF wf'] by simp
  moreover have "agree ib (s\<lparr>disk := d\<rparr>)" using S c1 c2 d(2) by (simp add: agree_def Let_def)
  ultimately show ?thesis using that [OF d(1)] d(4) P(3) by simp
qed

lemma disk_inode_cong:
  assumes "\<And>l. unat (inode_table_lba b) \<le> l \<Longrightarrow> l < unat (inode_table_lba b) + 608 \<Longrightarrow> d l = dk l"
  shows "disk_inode b d k = disk_inode b dk k"
proof -
  have "map d [unat (inode_table_lba b)..<unat (inode_table_lba b) + 608] = map dk [unat (inode_table_lba b)..<unat (inode_table_lba b) + 608]"
    using assms by (intro map_cong) auto
  then show ?thesis by (simp only: disk_inode_def inode_table_def sectors_def)
qed

section \<open>file_create\<close>

definition grown_dir :: "fs \<Rightarrow> nat \<Rightarrow> inode \<Rightarrow> inode" where
  "grown_dir s k1 i = i\<lparr>i_sectors := (i_sectors i)[12 := block_of (cur_part s) k1], i_size := i_size i + 24\<rparr>"

text \<open>The state behind a file_create that takes the slot i, the descriptor f, the inode j and the blocks k1
  and k2, with its inode at y.\<close>

definition created :: "dir_ptr \<Rightarrow> addr \<Rightarrow> nat \<Rightarrow> nat \<Rightarrow> nat \<Rightarrow> nat \<Rightarrow> nat \<Rightarrow> addr list \<Rightarrow> (nat \<Rightarrow> u8 list) \<Rightarrow> fs \<Rightarrow> fs" where
  "created d y i f j k1 k2 ms dk s = s\<lparr>disk := dk,
     cur_part := (cur_part s)\<lparr>block_bitmap := bm_upd (bm_upd (block_bitmap (cur_part s)) k1 True) k2 True,
       inode_bitmap := bm_upd (inode_bitmap (cur_part s)) j True, open_inodes := y # open_inodes (cur_part s)\<rparr>,
     inodes := (inodes s)(d_inode (the_dir d s) := grown_dir s k1 (inodes s (d_inode (the_dir d s))),
                          y := (inode_init (of_nat j))\<lparr>i_open_cnts := 1\<rparr>),
     file_table := (file_table s)[i := \<lparr>fd_pos = 0, fd_flag = FT_REGULAR, fd_inode = y\<rparr>],
     fds := (fds s)[f := of_nat i], mallocs := ms, held := y # held s\<rparr>"

text \<open>What the creation needs: a free slot, a free descriptor, a free inode below 256, two free blocks, two
  blocks of memory, and a directory whose inode is not the block that is given to the file's.\<close>

definition room_to_create :: "dir_ptr \<Rightarrow> addr \<Rightarrow> nat \<Rightarrow> nat \<Rightarrow> nat \<Rightarrow> nat \<Rightarrow> nat \<Rightarrow> addr list \<Rightarrow> fs \<Rightarrow> bool" where
  "room_to_create d y i f j k1 k2 ms s \<longleftrightarrow>
     (\<exists>x. mallocs s = x # y # ms \<and> x \<noteq> 0 \<and> y \<noteq> 0 \<and> x \<noteq> y) \<and> y \<noteq> d_inode (the_dir d s)
     \<and> free_slot_loop (file_table s) 3 = Inr i \<and> i < MAX_FILE_OPEN \<and> fd_loop (fds s) 3 = Inr f \<and> f < MAX_FILES_OPEN_PER_PROC
     \<and> j < bm_size (inode_bitmap (cur_part s)) \<and> \<not> bm_bit (inode_bitmap (cur_part s)) j
     \<and> (\<forall>n < j. bm_bit (inode_bitmap (cur_part s)) n) \<and> j < 256 \<and> two_free (block_bitmap (cur_part s)) k1 k2
     \<and> unat (i_no (inodes s (d_inode (the_dir d s)))) < 256 \<and> unat (i_no (inodes s (d_inode (the_dir d s)))) \<noteq> j"

lemma file_create_effect:
  assumes s: "synced s" and p: "part_ok (cur_part s)" and dr: "dir_ready s d" and n: "name_ok n"
    and rm: "room_to_create d y i f j k1 k2 ms s"
  obtains dk where "file_create d n flag s = Inr (of_nat f, created d y i f j k1 k2 ms dk s)" "synced (created d y i f j k1 k2 ms dk s)"
    "dk (unat (block_of (cur_part s) k1)) = le32s_bytes (block_of (cur_part s) k2 # replicate 127 0)"
    "dk (unat (block_of (cur_part s) k2)) = entry_bytes n (of_nat j) 1 @ replicate 488 0"
    "\<And>k. k < bm_size (block_bitmap (cur_part s)) \<Longrightarrow> k \<noteq> k1 \<Longrightarrow> k \<noteq> k2 \<Longrightarrow>
       dk (unat (block_of (cur_part s) k)) = disk s (unat (block_of (cur_part s) k))"
    "\<And>k. k < 4096 \<Longrightarrow> disk_inode (sb (cur_part s)) dk k
       = (if k = j then inode_init (of_nat j)
          else if k = unat (i_no (inodes s (d_inode (the_dir d s)))) then on_disk (grown_dir s k1 (inodes s (d_inode (the_dir d s))))
          else disk_inode (sb (cur_part s)) (disk s) k)"
proof -
  let ?p = "cur_part s" and ?dip = "d_inode (the_dir d s)" and ?ib = "inode_bitmap (cur_part s)"
  let ?ib' = "bm_upd ?ib j True" and ?bb' = "bm_upd (bm_upd (block_bitmap ?p) k1 True) k2 True"
  let ?io = "\<lambda>s. take 1024 (concat (map le32_bytes (junk s)) @ replicate 1024 0)"
  obtain x where x: "mallocs s = x # y # ms" "x \<noteq> 0" "y \<noteq> 0" "x \<noteq> y" using rm by (auto simp: room_to_create_def)
  have R: "y \<noteq> ?dip" "free_slot_loop (file_table s) 3 = Inr i" "i < MAX_FILE_OPEN" "fd_loop (fds s) 3 = Inr f" "f < MAX_FILES_OPEN_PER_PROC"
    "j < bm_size ?ib" "\<not> bm_bit ?ib j" "\<forall>n < j. bm_bit ?ib n" "j < 256" "two_free (block_bitmap ?p) k1 k2"
    "unat (i_no (inodes s ?dip)) < 256" "unat (i_no (inodes s ?dip)) \<noteq> j"
    using rm by (simp_all add: room_to_create_def)
  have ag: "agree ?ib s" using s by (simp add: synced_def)
  then have wf: "bm_wf ?ib" by (simp add: agree_def Let_def)
  note jw = bit_index [OF wf R(6)]
  have iw: "unat (of_nat i :: u32) = i" using R(3) by (simp add: MAX_FILE_OPEN_def unat_of_nat_u32)
  have inf: "(of_nat i :: u32) \<noteq> FAIL"
  proof
    assume "(of_nat i :: u32) = FAIL"
    then have "unat (of_nat i :: u32) = unat (- 1 :: u32)" by simp
    then show False using iw R(3) by (simp add: unsigned_minus_1_eq_mask mask_eq_exp_minus_1 MAX_FILE_OPEN_def)
  qed
  define s1 where "s1 = s\<lparr>mallocs := y # ms, held := x # held s\<rparr>"
  define s2 where "s2 = set_inode_bitmap ?ib' s1"
  define s3 where "s3 = s2\<lparr>mallocs := ms, held := y # x # held s\<rparr>"
  define t where "t = s\<lparr>cur_part := ?p\<lparr>inode_bitmap := ?ib'\<rparr>, inodes := (inodes s)(y := inode_init (of_nat j)),
     file_table := (file_table s)[i := \<lparr>fd_pos = 0, fd_flag = FT_REGULAR, fd_inode = y\<rparr>], mallocs := ms, held := y # x # held s\<rparr>"
  have km: "kmalloc s = (x, s1)" "kmalloc s2 = (y, s3)"
    using x by (simp_all add: kmalloc_def s1_def s2_def s3_def set_inode_bitmap_def)
  have al: "inode_bitmap_alloc s1 = Inr (of_nat j, s2)"
    using inode_alloc_eq [of s1 j] wf R(6-8) by (simp add: s1_def s2_def)
  define s4 where "s4 = upd_inode y (\<lambda>_. inode_init (of_nat j)) s3"
  have sl: "get_free_slot_in_global s4 = Inr (of_nat i)"
    using R(2,3) by (simp add: get_free_slot_in_global_def s4_def s3_def s2_def s1_def upd_inode_def set_inode_bitmap_def)
  have t: "upd_inode y (\<lambda>i. i\<lparr>write_deny := False\<rparr>)
      (s4\<lparr>file_table := (file_table s4)[unat (of_nat i :: u32) := \<lparr>fd_pos = 0, fd_flag = FT_REGULAR, fd_inode = y\<rparr>]\<rparr>) = t"
    by (simp add: s4_def s3_def s2_def s1_def t_def upd_inode_def set_inode_bitmap_def inode_init_def iw)
  have ce: "create_dir_entry n (of_nat j) (ucast FT_REGULAR) (replicate 24 0) = Inr (entry_bytes n (of_nat j) 1)"
    using create_dir_entry_eq [OF n] by (simp add: FT_REGULAR_def)
  have td: "the_dir d t = the_dir d s" by (cases d) (simp_all add: t_def)
  have T: "cur_part t = ?p\<lparr>inode_bitmap := ?ib'\<rparr>" "inodes t ?dip = inodes s ?dip" "disk t = disk s"
    "block_bitmap (cur_part t) = block_bitmap ?p" "sb (cur_part t) = sb ?p"
    using R(1) by (simp_all add: t_def)
  have at: "agree ?ib t" using ag by (simp add: agree_def T Let_def)
  have pt: "part_ok (cur_part t)" using p by (simp add: part_ok_def data_ok_def table_fits_def T(1))
  have drt: "dir_ready t d" using dr unfolding dir_ready_def td T(2,4,5) block_of_def Let_def .
  have bl: "block_of (cur_part t) k = block_of ?p k" for k by (simp add: block_of_def T(5))
  have dat: "data_ok (cur_part t)" using pt by (simp add: part_ok_def)
  have fr: "two_free (block_bitmap (cur_part t)) k1 k2" using R(10) by (simp only: T(4))
  have le: "length (entry_bytes n (of_nat j) 1) = 24" using n by simp
  have io: "length (?io t) = 1024" by simp
  obtain d1 where sy: "sync_dir_entry d (entry_bytes n (of_nat j) 1) (?io t) t = Inr (True,
      upd_inode ?dip (grown_dir s k1) ((set_block_bitmap ?bb' t)\<lparr>disk := d1\<rparr>))"
    "agree ?ib (upd_inode ?dip (grown_dir s k1) ((set_block_bitmap ?bb' t)\<lparr>disk := d1\<rparr>))"
    "d1 (unat (block_of ?p k1)) = le32s_bytes (block_of ?p k2 # replicate 127 0)"
    "d1 (unat (block_of ?p k2)) = entry_bytes n (of_nat j) 1 @ replicate 488 0"
    "\<And>l. unat (block_bitmap_lba (sb ?p)) + length (btmp_bits (block_bitmap ?p)) div 512 \<le> l \<Longrightarrow> l \<noteq> unat (block_of ?p k1)
       \<Longrightarrow> l \<noteq> unat (block_of ?p k2) \<Longrightarrow> d1 l = disk s l"
    using sync_dir_entry_effect [OF at dat fr drt le io, unfolded T(3-5) bl td] unfolding grown_dir_def [abs_def] by blast
  define t2 where "t2 = upd_inode ?dip (grown_dir s k1) ((set_block_bitmap ?bb' t)\<lparr>disk := d1\<rparr>)"
  have I: "inodes t2 ?dip = grown_dir s k1 (inodes s ?dip)" "inodes t2 y = inode_init (of_nat j)"
    using R(1) by (simp_all add: t2_def t_def upd_inode_def set_block_bitmap_def)
  have C: "cur_part t2 = ?p\<lparr>inode_bitmap := ?ib', block_bitmap := ?bb'\<rparr>" "sb (cur_part t2) = sb ?p" "disk t2 = d1" "held t2 = y # x # held s"
    by (simp_all add: t2_def t_def upd_inode_def set_block_bitmap_def)
  have td2: "the_dir d t2 = the_dir d s" unfolding t2_def by (simp add: td)
  have p2: "part_ok (cur_part t2)" using p by (simp add: part_ok_def data_ok_def table_fits_def C(1))
  have a2: "agree ?ib t2" using sy(2) by (simp add: t2_def)
  have ng: "i_no (grown_dir s k1 q) = i_no q" for q by (simp add: grown_dir_def)
  have w2: "inode_wf (inodes t2 ?dip)"
    using dr by (simp_all add: I grown_dir_def inode_wf_def dir_ready_def Let_def)
  obtain d2 where s2: "inode_sync ?dip t2 = Inr (t2\<lparr>disk := d2\<rparr>)" "agree ?ib (t2\<lparr>disk := d2\<rparr>)"
    "\<And>k. k < 4096 \<Longrightarrow> disk_inode (sb ?p) d2 k
       = (if k = unat (i_no (inodes s ?dip)) then on_disk (grown_dir s k1 (inodes s ?dip)) else disk_inode (sb ?p) d1 k)"
    "\<And>l. unat (data_start_lba (sb ?p)) \<le> l \<Longrightarrow> d2 l = d1 l"
    using inode_sync_agree [OF a2 p2 w2(1), unfolded C(2,3) I(1) ng, OF R(11)] by blast
  let ?t3 = "t2\<lparr>disk := d2\<rparr>"
  have y3: "inode_wf (inodes ?t3 y)" by (simp add: I inode_wf_def inode_init_def)
  have nj: "unat (i_no (inode_init (of_nat j))) = j" using jw(1) by (simp add: inode_init_def)
  have p3: "part_ok (cur_part ?t3)" using p2 by simp
  have c3: "sb (cur_part ?t3) = sb ?p" "disk ?t3 = d2" "inodes ?t3 y = inode_init (of_nat j)" using C(2) I(2) by simp_all
  obtain d3 where s3: "inode_sync y ?t3 = Inr (?t3\<lparr>disk := d3\<rparr>)" "agree ?ib (?t3\<lparr>disk := d3\<rparr>)"
    "\<And>k. k < 4096 \<Longrightarrow> disk_inode (sb ?p) d3 k = (if k = j then on_disk (inode_init (of_nat j)) else disk_inode (sb ?p) d2 k)"
    "\<And>l. unat (data_start_lba (sb ?p)) \<le> l \<Longrightarrow> d3 l = d2 l"
    using inode_sync_agree [OF s2(2) p3 y3, unfolded c3 nj, OF R(9)] by blast
  have t4: "?t3\<lparr>disk := d3\<rparr> = t2\<lparr>disk := d3\<rparr>" by simp
  have m4: "inode_bitmap (cur_part (t2\<lparr>disk := d3\<rparr>)) = bm_upd ?ib j True" by (simp add: C(1))
  have c4: "sb (cur_part (t2\<lparr>disk := d3\<rparr>)) = sb ?p" "disk (t2\<lparr>disk := d3\<rparr>) = d3" "t2\<lparr>disk := d3\<rparr>\<lparr>disk := d\<rparr> = t2\<lparr>disk := d\<rparr>" for d
    using C(2) by simp_all
  obtain d4 where s4: "bitmap_sync (of_nat j) INODE_BITMAP (t2\<lparr>disk := d3\<rparr>) = Inr (t2\<lparr>disk := d4\<rparr>)" "synced (t2\<lparr>disk := d4\<rparr>)"
    "\<And>l. l < unat (inode_bitmap_lba (sb ?p)) \<or> unat (inode_bitmap_lba (sb ?p)) + length (btmp_bits ?ib) div 512 \<le> l \<Longrightarrow> d4 l = d3 l"
    using inode_bitmap_sync_agree [OF s3(2) [unfolded t4] R(6) m4, unfolded c4] by blast
  have geo: "unat (block_bitmap_lba (sb ?p)) + length (btmp_bits (block_bitmap ?p)) div 512 \<le> unat (inode_bitmap_lba (sb ?p))"
    "unat (inode_bitmap_lba (sb ?p)) + length (btmp_bits ?ib) div 512 \<le> unat (inode_table_lba (sb ?p))"
    "unat (inode_table_lba (sb ?p)) + 608 \<le> unat (data_start_lba (sb ?p))" "data_ok ?p"
    using ag p by (simp_all add: agree_def part_ok_def Let_def)
  have F: "k1 < k2" "k2 < bm_size (block_bitmap ?p)" using R(10) by (simp_all add: two_free_def)
  note u1 = unat_block_of [OF geo(4) less_trans [OF F]] and u2 = unat_block_of [OF geo(4) F(2)]
  have data: "d4 l = d1 l" if "unat (data_start_lba (sb ?p)) \<le> l" for l
    using that s2(4) [OF that] s3(4) [OF that] s4(3) [of l] geo(2,3) by simp
  have tab: "disk_inode (sb ?p) d4 k = disk_inode (sb ?p) d3 k" "disk_inode (sb ?p) d1 k = disk_inode (sb ?p) (disk s) k" for k
    by (rule disk_inode_cong; use s4(3) sy(5) geo u1(1) u2(1) in auto)+
  let ?u = "upd_inode y (\<lambda>i. i\<lparr>i_open_cnts := 1\<rparr>) (set_open_inodes (y # open_inodes ?p) (t2\<lparr>disk := d4\<rparr>))"
  have kf: "kfree x ?u = Inr (?u\<lparr>held := y # held s\<rparr>)"
    using x(4) by (simp add: kfree_def upd_inode_def set_open_inodes_def C(4))
  have fin: "pcb_fd_install (of_nat i) (?u\<lparr>held := y # held s\<rparr>) = Inr (of_nat f, created d y i f j k1 k2 ms d4 s)"
    using R(1,4,5) by (simp add: pcb_fd_install_def created_def t2_def t_def upd_inode_def set_open_inodes_def set_block_bitmap_def
        grown_dir_def fun_upd_twist)
  have oi: "open_inodes (cur_part (t2\<lparr>disk := d4\<rparr>)) = open_inodes ?p" by (simp add: C(1))
  note steps = km al sl s4_def [symmetric] t ce sy(1) [folded t2_def] td2 s2(1) s3(1) t4 s4(1) oi kf fin
  have run: "file_create d n flag s = Inr (of_nat f, created d y i f j k1 k2 ms d4 s)"
    unfolding file_create_def km(1) Let_def case_prod_conv
    using x(2,3) jw(2) inf
    by (simp only: bindR_simps case_prod_conv steps if_False if_True refl simp_thms)
  have sy': "synced (created d y i f j k1 k2 ms d4 s)"
    using s4(2) by (simp add: synced_def agree_def created_def t2_def t_def upd_inode_def set_block_bitmap_def Let_def)
  show ?thesis
  proof (rule that [OF run sy'])
    show "d4 (unat (block_of ?p k1)) = le32s_bytes (block_of ?p k2 # replicate 127 0)"
      "d4 (unat (block_of ?p k2)) = entry_bytes n (of_nat j) 1 @ replicate 488 0"
      using data u1(1) u2(1) sy(3,4) by simp_all
    show "d4 (unat (block_of ?p k)) = disk s (unat (block_of ?p k))" if "k < bm_size (block_bitmap ?p)" "k \<noteq> k1" "k \<noteq> k2" for k
      using that data sy(5) [of "unat (block_of ?p k)"] unat_block_of(1) [OF geo(4) that(1)] u1(1) u2(1) geo(1-3) by simp
    show "disk_inode (sb ?p) d4 k = (if k = j then inode_init (of_nat j)
        else if k = unat (i_no (inodes s ?dip)) then on_disk (grown_dir s k1 (inodes s ?dip)) else disk_inode (sb ?p) (disk s) k)"
      if "k < 4096" for k
      using that s2(3) s3(3) tab by (simp add: on_disk_def inode_init_def)
  qed
qed

section \<open>What a search finds afterwards\<close>

definition padded :: "u8 list \<Rightarrow> u8 list" where
  "padded n = n @ replicate (16 - length n) 0"

lemma padded_nul: "name_ok n \<Longrightarrow> padded n = n @ 0 # replicate (15 - length n) 0"
proof -
  assume "name_ok n"
  then have "length n \<le> 15" by (simp add: name_ok_def)
  then have "16 - length n = Suc (15 - length n)" by arith
  then show ?thesis by (simp only: padded_def replicate_Suc)
qed

text \<open>The direct blocks of the directory hold no entry of that name.\<close>

definition direct_lacks :: "dir_ptr \<Rightarrow> u8 list \<Rightarrow> fs \<Rightarrow> bool" where
  "direct_lacks d m s \<longleftrightarrow>
     (\<forall>e. search_blocks (disk s) 24 21 (padded m) e (take 12 (i_sectors (inodes s (d_inode (the_dir d s))))) = Inr None)"

lemma direct_same:
  assumes dr: "dir_ready s d" and s: "synced s" and da: "data_ok (cur_part s)" and f: "two_free (block_bitmap (cur_part s)) k1 k2"
    and dk: "\<And>k. k < bm_size (block_bitmap (cur_part s)) \<Longrightarrow> k \<noteq> k1 \<Longrightarrow> k \<noteq> k2 \<Longrightarrow>
       dk (unat (block_of (cur_part s) k)) = disk s (unat (block_of (cur_part s) k))"
  shows "search_blocks dk es cnt nm e (take 12 (i_sectors (inodes s (d_inode (the_dir d s)))))
    = search_blocks (disk s) es cnt nm e (take 12 (i_sectors (inodes s (d_inode (the_dir d s)))))"
proof (rule search_blocks_cong, intro ballI impI)
  fix b assume b: "b \<in> set (take 12 (i_sectors (inodes s (d_inode (the_dir d s)))))" "b \<noteq> 0"
  then obtain k where k: "k < bm_size (block_bitmap (cur_part s))" "b = block_of (cur_part s) k" "bm_bit (block_bitmap (cur_part s)) k"
    using dr by (auto simp: dir_ready_def Let_def)
  then have "k \<noteq> k1" "k \<noteq> k2" using f by (auto simp: two_free_def)
  then show "dk (unat b) = disk s (unat b)" using dk [OF k(1)] k(2) by simp
qed

lemma created_keeps:
  assumes "room_to_create d y i f j k1 k2 ms s"
  shows "the_dir a (created d y i f j k1 k2 ms dk s) = the_dir a s"
    "inodes (created d y i f j k1 k2 ms dk s) (d_inode (the_dir d s)) = grown_dir s k1 (inodes s (d_inode (the_dir d s)))"
    "sb (cur_part (created d y i f j k1 k2 ms dk s)) = sb (cur_part s)" "disk (created d y i f j k1 k2 ms dk s) = dk"
    "mallocs (created d y i f j k1 k2 ms dk s) = ms"
proof -
  have "y \<noteq> d_inode (the_dir d s)" using assms unfolding room_to_create_def by blast
  then show "inodes (created d y i f j k1 k2 ms dk s) (d_inode (the_dir d s)) = grown_dir s k1 (inodes s (d_inode (the_dir d s)))"
    by (simp add: created_def)
  show "the_dir a (created d y i f j k1 k2 ms dk s) = the_dir a s" by (cases a) (simp_all add: created_def)
qed (simp_all add: created_def)

lemma created_lacks:
  assumes dr: "dir_ready s d" and s: "synced s" and p: "part_ok (cur_part s)"
    and rm: "room_to_create d y i f j k1 k2 ms s" and lk: "direct_lacks d m s"
    and dk: "\<And>k. k < bm_size (block_bitmap (cur_part s)) \<Longrightarrow> k \<noteq> k1 \<Longrightarrow> k \<noteq> k2 \<Longrightarrow>
         dk (unat (block_of (cur_part s) k)) = disk s (unat (block_of (cur_part s) k))"
  shows "direct_lacks d m (created d y i f j k1 k2 ms dk s)"
proof -
  have da: "data_ok (cur_part s)" using p by (simp add: part_ok_def)
  have f: "two_free (block_bitmap (cur_part s)) k1 k2" using rm by (simp add: room_to_create_def)
  have l: "length (i_sectors (inodes s (d_inode (the_dir d s)))) = 13" using dr by (simp add: dir_ready_def inode_wf_def Let_def)
  note K = created_keeps [OF rm, where dk = dk]
  show ?thesis
    using lk l unfolding direct_lacks_def K(1,2,4) by (simp add: grown_dir_def direct_same [OF dr s da f dk])
qed

lemma created_search:
  assumes dr: "dir_ready s d" and s: "synced s" and p: "part_ok (cur_part s)" and n: "name_ok n" and m: "name_ok m"
    and rm: "room_to_create d y i f j k1 k2 ms s" and lk: "direct_lacks d m s" and ms: "ms = a # b # ms'" "a \<noteq> 0" "b \<noteq> 0"
    and dk: "dk (unat (block_of (cur_part s) k1)) = le32s_bytes (block_of (cur_part s) k2 # replicate 127 0)"
      "dk (unat (block_of (cur_part s) k2)) = entry_bytes n (of_nat j) 1 @ replicate 488 0"
      "\<And>k. k < bm_size (block_bitmap (cur_part s)) \<Longrightarrow> k \<noteq> k1 \<Longrightarrow> k \<noteq> k2 \<Longrightarrow>
         dk (unat (block_of (cur_part s) k)) = disk s (unat (block_of (cur_part s) k))"
  defines "s' \<equiv> created d y i f j k1 k2 ms dk s"
  shows "length e = 24 \<Longrightarrow> search_dir_entry d (padded m) e s'
      = Inr (if m = n then Some (entry_bytes n (of_nat j) 1) else None, s'\<lparr>mallocs := ms'\<rparr>)"
proof -
  let ?p = "cur_part s" and ?dip = "d_inode (the_dir d s)"
  have da: "data_ok ?p" using p by (simp add: part_ok_def)
  have f: "two_free (block_bitmap ?p) k1 k2" using rm by (simp add: room_to_create_def)
  have F: "k1 < k2" "k2 < bm_size (block_bitmap ?p)" using f by (simp_all add: two_free_def)
  note u1 = unat_block_of [OF da less_trans [OF F]] and u2 = unat_block_of [OF da F(2)]
  note K = created_keeps [OF rm, where dk = dk, folded s'_def]
  have R: "dir_entry_size (sb ?p) = 24" "length (i_sectors (inodes s ?dip)) = 13"
    using dr by (simp_all add: dir_ready_def inode_wf_def Let_def)
  have dir: "search_blocks (disk s') 24 21 (padded m) e (take 12 (i_sectors (inodes s ?dip))) = Inr None" for e
    using direct_same [OF dr s da f dk(3)] lk K(4) by (simp add: direct_lacks_def)
  have sec: "i_sectors (inodes s' (d_inode (the_dir d s'))) = (i_sectors (inodes s ?dip))[12 := block_of ?p k1]"
    unfolding K(1) by (simp add: K(2) grown_dir_def)
  show "search_dir_entry d (padded m) e s'
      = Inr (if m = n then Some (entry_bytes n (of_nat j) 1) else None, s'\<lparr>mallocs := ms'\<rparr>)" if e: "length e = 24"
    unfolding padded_nul [OF m]
    by (rule search_after_sync [OF sec R(2) u1(2,4) u2(2,4) dk(1) [folded K(4)] dk(2) [folded K(4)] n m
          R(1) [folded K(3)] e dir [unfolded padded_nul [OF m]] K(5) [unfolded ms(1)] ms(2,3)])
qed

text \<open>A directory without an indirect table, searched where the heap happens to hold zeros.\<close>

lemma search_fresh:
  assumes "i_sectors (inodes s (d_inode (the_dir d s))) ! 12 = 0" "\<forall>b \<in> set (take 128 (junk s)). b = 0" "direct_lacks d n s"
    "mallocs s = x # y # ms" "x \<noteq> 0" "y \<noteq> 0" "dir_entry_size (sb (cur_part s)) = 24"
  shows "search_dir_entry d (padded n) e s = Inr (None, s\<lparr>mallocs := ms\<rparr>)"
proof -
  let ?sec = "i_sectors (inodes s (d_inode (the_dir d s)))"
  have sb: "search_blocks (disk s) 24 21 (padded n) e (take 12 ?sec @ take 128 (junk s)) = Inr None"
    using assms(3) search_blocks_zeros [OF assms(2)] by (simp add: search_blocks_append direct_lacks_def)
  let ?S = "s\<lparr>mallocs := ms, held := y # x # held s\<rparr>"
  have k: "kmalloc s = (x, s\<lparr>mallocs := y # ms, held := x # held s\<rparr>)"
    "kmalloc_used (s\<lparr>mallocs := y # ms, held := x # held s\<rparr>) = Inr (y, ?S)"
    using assms(4-6) by (simp_all add: kmalloc_def kmalloc_used_def)
  have fr: "kfree y ?S = Inr (s\<lparr>mallocs := ms, held := x # held s\<rparr>)"
    "kfree x (s\<lparr>mallocs := ms, held := x # held s\<rparr>) = Inr (s\<lparr>mallocs := ms\<rparr>)"
    by (simp_all add: kfree_def)
  have td: "the_dir d (s\<lparr>mallocs := y # ms, held := x # held s\<rparr>) = the_dir d s" by (cases d) simp_all
  show ?thesis
    unfolding search_dir_entry_def k(1) Let_def case_prod_conv td using assms(1,5,7) k(2) sb fr by simp
qed

section \<open>sys_open\<close>


lemma cstring_of: "0 \<notin> set p \<Longrightarrow> cstring (p @ 0 # z) = Inr p"
proof -
  have "0 \<notin> set p \<Longrightarrow> takeWhile (\<lambda>c. c \<noteq> 0) (p @ 0 # z) = p" by (induction p) auto
  then show "0 \<notin> set p \<Longrightarrow> cstring (p @ 0 # z) = Inr p" by (simp add: cstring_def)
qed

text \<open>A name for a file in the root directory.\<close>

definition plain_name :: "u8 list \<Rightarrow> bool" where
  "plain_name n \<longleftrightarrow> name_ok n \<and> slash \<notin> set n \<and> n \<noteq> [0x2e] \<and> n \<noteq> [0x2e, 0x2e]"

lemma plain_path:
  assumes "plain_name n"
  shows "first_name (slash # n) = n" "after_name (slash # n) = []" "components (slash # n) = [n]"
    "cstring (slash # n @ 0 # z) = Inr (slash # n)" "after_last_slash (slash # n) = n" "last (slash # n) \<noteq> slash" "0 \<notin> set (slash # n)"
proof -
  have N: "n \<noteq> []" "0 \<notin> set n" "slash \<notin> set n" using assms by (simp_all add: plain_name_def name_ok_def)
  have dw: "dropWhile (\<lambda>c. c = slash) n = n" using N(1,3) by (cases n) auto
  have tw: "takeWhile (\<lambda>c. c \<noteq> slash) n = n" "dropWhile (\<lambda>c. c \<noteq> slash) n = []"
    using N(3) by (auto intro: takeWhile_eq_all_conv [THEN iffD2])
  show f: "first_name (slash # n) = n" "after_name (slash # n) = []" by (simp_all add: first_name_def after_name_def dw tw)
  show "components (slash # n) = [n]"
    using N(1) f components_eq [of "slash # n"] components_eq [of "[]"] by (simp add: first_name_def)
  have s0: "slash \<noteq> 0" by (simp add: slash_def)
  show "0 \<notin> set (slash # n)" using N(2) s0 by simp
  show "cstring (slash # n @ 0 # z) = Inr (slash # n)"
    using cstring_of [of "slash # n" z] N(2) s0 by simp
  have "rev (slash # n) = rev n @ [slash]" by simp
  moreover have "takeWhile (\<lambda>c. c \<noteq> slash) (rev n @ [slash]) = rev n" using N(3) by (subst takeWhile_append2) auto
  ultimately show "after_last_slash (slash # n) = n" by (simp add: after_last_slash_def)
  show "last (slash # n) \<noteq> slash" using N(1,3) by (auto dest: last_in_set)
qed

lemma search_file_absent:
  assumes n: "plain_name n" and se: "search_dir_entry Root_dir (padded n) dir_e s = Inr (None, s')"
  shows "search_file (slash # n @ 0 # z) dir_e \<lparr>searched_path = replicate 512 0, parent_dir = Root_dir, file_type = ft\<rparr> s
    = Inr (FAIL, \<lparr>searched_path = slash # n @ replicate (511 - length n) 0, parent_dir = Root_dir, file_type = FT_UNKNOWN\<rparr>, s')"
proof -
  note P = plain_path [OF n]
  have N: "n \<noteq> []" "length n \<le> 15" "0 \<notin> set n" using n by (simp_all add: plain_name_def name_ok_def)
  have pp: "path_paser (slash # n @ 0 # z) (replicate MAX_FILE_NAME_LEN 0) = Inr (None, padded n)"
    using path_paser_eq [OF P(7), of z "replicate MAX_FILE_NAME_LEN 0"] P(1,2) N(2)
    by (simp add: MAX_FILE_NAME_LEN_def put_at_def padded_def)
  have c1: "buf_strcat (replicate 512 0) [slash, 0] = Inr (slash # replicate 511 0)"
    by (simp add: buf_strcat_def cstring_def slash_def copy_to_def put_at_def)
  have s0: "slash \<noteq> 0" by (simp add: slash_def)
  have k: "replicate 511 (0 :: u8) = 0 # replicate 510 0" by (simp add: numeral_eq_Suc)
  have c2: "buf_strcat (slash # replicate 511 0) (padded n) = Inr (slash # n @ replicate (511 - length n) 0)"
  proof -
    have "cstring (slash # replicate 511 0) = Inr [slash]" unfolding k using s0 by (simp add: cstring_def)
    moreover have "cstring (padded n) = Inr n"
    proof -
      obtain q where "16 - length n = Suc q" using N(2) by (cases "16 - length n") auto
      then show ?thesis using cstring_of [OF N(3)] by (simp add: padded_def)
    qed
    ultimately show ?thesis using N(2) by (simp add: buf_strcat_def copy_to_def put_at_def)
  qed
  have nz: "padded n ! 0 \<noteq> 0" using N by (cases n) (auto simp: padded_def)
  have cs: "cstring (slash # n @ 0 # z) = Inr (slash # n)" by (rule P(4))
  have ne: "\<not> (slash # n = [slash] \<or> slash # n = [slash, 0x2e] \<or> slash # n = [slash, 0x2e, 0x2e])" "length (slash # n) < 512"
    using n N by (auto simp: plain_name_def)
  show ?thesis
    unfolding search_file_def cs bindR_simps if_not_P [OF ne(1)] pp case_prod_conv using ne(2)
    by (subst search_loop.simps) (simp add: nz c1 c2 se of_loop_def)
qed

lemma sys_open_create_effect:
  assumes n: "plain_name n" and se: "search_dir_entry Root_dir (padded n) dir_e s = Inr (None, s1)"
    and fl: "flags \<le> 7" "flags AND O_CREAT = O_CREAT" and nm: "length name1 = 16" "length name2 = 16"
    and fc: "file_create Root_dir n flags s1 = Inr (fd, s2)"
  shows "sys_open dir_e name1 name2 (slash # n @ 0 # z) flags s = Inr (fd, s2)"
proof -
  note P = plain_path [OF n]
  have N: "length n \<le> 15" using n by (simp add: plain_name_def name_ok_def)
  have d1: "path_depth_cnt (slash # n @ 0 # y) nam = Inr 1" if "length nam = 16" for y nam
    using path_depth_eq [OF P(7) that, of y] P(3) N by simp
  have z: "slash # n @ replicate (511 - length n) 0 = slash # n @ 0 # replicate (510 - length n) 0"
    using N by (cases "511 - length n") auto
  have fu: "FT_UNKNOWN \<noteq> FT_DIRECTORY" by (simp add: FT_UNKNOWN_def FT_DIRECTORY_def)
  have o: "O_CREAT \<noteq> 0" by (simp add: O_CREAT_def)
  show ?thesis
    unfolding sys_open_def P(4) bindR_simps
    using P(5,6) fl o fu d1 [OF nm(1), of z] d1 [OF nm(2), of "replicate (510 - length n) 0"] search_file_absent [OF n se, of z] fc
    by (simp add: z)
qed

lemma mallocs_irrelevant [simp]:
  "synced (s\<lparr>mallocs := m\<rparr>) = synced s" "dir_ready (s\<lparr>mallocs := m\<rparr>) d = dir_ready s d" "direct_lacks d n (s\<lparr>mallocs := m\<rparr>) = direct_lacks d n s"
  by (simp_all add: synced_def agree_def dir_ready_def direct_lacks_def)

section \<open>Properties\<close>

text \<open>C9: sys_open with O_CREAT of a name that the root directory lacks creates the file: with a free slot, a free
  descriptor, a free inode below 256 and two free blocks it returns the descriptor, which leads through the
  slot to the new inode, open once. Inode, root directory and both bitmaps are on the disk as in memory.
  Of the names that are not in its direct blocks the root directory then holds the new one only: its
  entries in an earlier indirect table are lost.\<close>
theorem sys_open_creates:
  assumes "synced s" "part_ok (cur_part s)" "dir_ready s Root_dir" "plain_name n" "flags \<le> 7" "flags AND O_CREAT = O_CREAT"
    "length name1 = 16" "length name2 = 16" "search_dir_entry Root_dir (padded n) dir_e s = Inr (None, s\<lparr>mallocs := m\<rparr>)"
    "room_to_create Root_dir y i f j k1 k2 ms (s\<lparr>mallocs := m\<rparr>)"
  defines "dip \<equiv> d_inode (root_dir s)"
  shows "\<exists>s'. sys_open dir_e name1 name2 (slash # n @ 0 # z) flags s = Inr (of_nat f, s') \<and> synced s'
     \<and> fds s' = (fds s)[f := of_nat i] \<and> file_table s' = (file_table s)[i := \<lparr>fd_pos = 0, fd_flag = FT_REGULAR, fd_inode = y\<rparr>]
     \<and> open_inodes (cur_part s') = y # open_inodes (cur_part s) \<and> inodes s' y = (inode_init (of_nat j))\<lparr>i_open_cnts := 1\<rparr>
     \<and> i_size (inodes s' dip) = i_size (inodes s dip) + 24
     \<and> bm_bit (inode_bitmap (cur_part s')) = (bm_bit (inode_bitmap (cur_part s)))(j := True)
     \<and> bm_bit (block_bitmap (cur_part s')) = (bm_bit (block_bitmap (cur_part s)))(k1 := True, k2 := True)
     \<and> disk_inode (sb (cur_part s)) (disk s') j = inode_init (of_nat j)
     \<and> disk_inode (sb (cur_part s)) (disk s') (unat (i_no (inodes s dip))) = on_disk (inodes s' dip)
     \<and> (\<forall>q e a b ms'. name_ok q \<and> length e = 24 \<and> direct_lacks Root_dir q s \<and> ms = a # b # ms' \<and> a \<noteq> 0 \<and> b \<noteq> 0 \<longrightarrow>
          search_dir_entry Root_dir (padded q) e s'
            = Inr (if q = n then Some (entry_bytes n (of_nat j) 1) else None, s'\<lparr>mallocs := ms'\<rparr>))"
proof -
  let ?s = "s\<lparr>mallocs := m\<rparr>"
  have S: "synced ?s" "part_ok (cur_part ?s)" "dir_ready ?s Root_dir" "name_ok n" using assms(1-4) by (simp_all add: plain_name_def)
  obtain dk where dk: "file_create Root_dir n flags ?s = Inr (of_nat f, created Root_dir y i f j k1 k2 ms dk ?s)"
    "synced (created Root_dir y i f j k1 k2 ms dk ?s)"
    "dk (unat (block_of (cur_part ?s) k1)) = le32s_bytes (block_of (cur_part ?s) k2 # replicate 127 0)"
    "dk (unat (block_of (cur_part ?s) k2)) = entry_bytes n (of_nat j) 1 @ replicate 488 0"
    "\<And>k. k < bm_size (block_bitmap (cur_part ?s)) \<Longrightarrow> k \<noteq> k1 \<Longrightarrow> k \<noteq> k2 \<Longrightarrow>
       dk (unat (block_of (cur_part ?s) k)) = disk ?s (unat (block_of (cur_part ?s) k))"
    "\<And>k. k < 4096 \<Longrightarrow> disk_inode (sb (cur_part ?s)) dk k
       = (if k = j then inode_init (of_nat j)
          else if k = unat (i_no (inodes ?s (d_inode (the_dir Root_dir ?s)))) then on_disk (grown_dir ?s k1 (inodes ?s (d_inode (the_dir Root_dir ?s))))
          else disk_inode (sb (cur_part ?s)) (disk ?s) k)"
    by (rule file_create_effect [OF S assms(10), where flag = flags]) (rule that)
  let ?s' = "created Root_dir y i f j k1 k2 ms dk ?s"
  note K = created_keeps [OF assms(10), where dk = dk]
  have so: "sys_open dir_e name1 name2 (slash # n @ 0 # z) flags s = Inr (of_nat f, ?s')"
    by (rule sys_open_create_effect [OF assms(4,9,5-8) dk(1)])
  have B: "j < bm_size (inode_bitmap (cur_part s))" "k1 < k2" "k2 < bm_size (block_bitmap (cur_part s))" "j < 256"
    "unat (i_no (inodes s dip)) < 256" "unat (i_no (inodes s dip)) \<noteq> j" "y \<noteq> dip"
    using assms(10) by (simp_all add: room_to_create_def two_free_def dip_def)
  have wf: "bm_wf (inode_bitmap (cur_part s))" "bm_wf (block_bitmap (cur_part s))" using assms(1) by (simp_all add: synced_def agree_def Let_def)
  have "inodes ?s' dip = grown_dir ?s k1 (inodes s dip)" using K(2) by (simp add: dip_def)
  then have g: "on_disk (inodes ?s' dip) = on_disk (grown_dir ?s k1 (inodes s dip))" "i_size (inodes ?s' dip) = i_size (inodes s dip) + 24"
    by (simp_all add: grown_dir_def)
  have D: "disk_inode (sb (cur_part s)) dk j = inode_init (of_nat j)"
    "disk_inode (sb (cur_part s)) dk (unat (i_no (inodes s dip))) = on_disk (inodes ?s' dip)"
    unfolding g using dk(6) [of j] dk(6) [of "unat (i_no (inodes s dip))"] B(4-6) by (simp_all add: dip_def)
  have "search_dir_entry Root_dir (padded q) e ?s'
      = Inr (if q = n then Some (entry_bytes n (of_nat j) 1) else None, ?s'\<lparr>mallocs := ms'\<rparr>)"
    if "name_ok q \<and> length e = 24 \<and> direct_lacks Root_dir q s \<and> ms = a # b # ms' \<and> a \<noteq> 0 \<and> b \<noteq> 0" for q e a b ms'
    using created_search [OF S(3,1,2,4) _ assms(10) _ _ _ _ dk(3-5), of q a b ms' e] that by simp
  moreover have "bm_bit (inode_bitmap (cur_part ?s')) = (bm_bit (inode_bitmap (cur_part s)))(j := True)"
    "bm_bit (block_bitmap (cur_part ?s')) = (bm_bit (block_bitmap (cur_part s)))(k1 := True, k2 := True)"
    using B(1-3) wf by (auto simp: created_def)
  ultimately show ?thesis
    using so dk(2) D g(2) K(4) by (intro exI [of _ ?s']) (simp add: created_def)
qed

lemma sys_open_creates_witness:
  "\<exists>s'. sys_open (replicate 24 0) (replicate 16 0) (replicate 16 0) [slash, 0x61, 0] O_CREAT demo_synced = Inr (3, s')
     \<and> file_table s' ! 3 = \<lparr>fd_pos = 0, fd_flag = FT_REGULAR, fd_inode = 0x4000\<rparr>
     \<and> disk_inode (sb (cur_part demo_synced)) (disk s') 1 = inode_init 1"
proof -
  let ?s = "demo_synced"
  have D: "inodes ?s 0x6000 = inode_init 0" "root_dir ?s = \<lparr>d_inode = 0x6000, dir_pos = 0\<rparr>" "junk ?s = replicate 128 0"
    "cur_part ?s = demo_part" "file_table ?s = replicate 32 \<lparr>fd_pos = 0, fd_flag = 0, fd_inode = 0\<rparr>" "fds ?s = replicate 8 0xffffffff"
    by (simp_all add: demo_synced_def demo_fs_def)
  have p: "part_ok (cur_part ?s)"
    using demo_dir(1) by (simp add: part_ok_def D(4) table_fits_def demo_part_def demo_sb_def)
  have n: "plain_name [0x61]" by (simp add: plain_name_def name_ok_def slash_def)
  have fl: "O_CREAT \<le> 7" "O_CREAT AND O_CREAT = O_CREAT" "length (replicate 16 (0 :: u8)) = 16" by (simp_all add: O_CREAT_def)
  have lk: "direct_lacks Root_dir [0x61] ?s"
    by (simp add: direct_lacks_def D inode_init_def search_blocks_zeros)
  have se: "search_dir_entry Root_dir (padded [0x61]) (replicate 24 0) ?s = Inr (None, ?s\<lparr>mallocs := [0x3000, 0x4000]\<rparr>)"
    by (rule search_fresh [OF _ _ lk demo_dir(4)]) (simp_all add: D inode_init_def demo_part_def demo_sb_def)
  have ib: "inode_bitmap (cur_part ?s) = \<lparr>btmp_bytes_len = 512, btmp_bits = 1 # replicate 511 0\<rparr>" by (simp add: D demo_part_def)
  have sl: "free_slot_loop (file_table ?s) 3 = Inr 3"
    unfolding D(5) by (subst free_slot_loop.simps) (simp add: MAX_FILE_OPEN_def)
  have m1: "(0xffffffff :: u32) = - 1" by simp
  have fd: "fd_loop (fds ?s) 3 = Inr 3"
    unfolding D(6) m1 by (subst fd_loop.simps) (simp add: MAX_FILES_OPEN_PER_PROC_def)
  have rm: "room_to_create Root_dir 0x4000 3 3 1 1 2 [] (?s\<lparr>mallocs := [0x3000, 0x4000]\<rparr>)"
    using demo_dir(2) sl fd
    by (simp add: room_to_create_def ib D(1,2) inode_init_def bm_size_def bm_bit_def bit_1_iff MAX_FILE_OPEN_def MAX_FILES_OPEN_PER_PROC_def)
  obtain s' where s': "sys_open (replicate 24 0) (replicate 16 0) (replicate 16 0) (slash # [0x61] @ 0 # []) O_CREAT ?s = Inr (of_nat 3, s')"
    "file_table s' = (file_table ?s)[3 := \<lparr>fd_pos = 0, fd_flag = FT_REGULAR, fd_inode = 0x4000\<rparr>]"
    "disk_inode (sb (cur_part ?s)) (disk s') 1 = inode_init (of_nat 1)"
    using sys_open_creates [OF demo_synced_ok p demo_dir(3) n fl(1,2,3,3) se rm, of "[]"] by blast
  show ?thesis using s' by (intro exI [of _ s']) (simp add: D(5))
qed

end
