(* ===== verification/Mount.thy ===== *)
theory Mount
  imports Create
begin

text \<open>
  From filesys_init to the first files: a disk with one partition that is not yet formatted is formatted,
  mounted and its root directory opened, and the two calls of sys_open in kernel/main.c follow.
\<close>

section \<open>The root directory of a new file system\<close>

definition rootfs :: "part \<Rightarrow> fs \<Rightarrow> bool" where
  "rootfs p s \<longleftrightarrow> synced s \<and> part_ok (cur_part s) \<and> dir_ready s Root_dir
     \<and> sb (cur_part s) = format_sb (part_start p) (part_size p)
     \<and> inodes s (d_inode (root_dir s)) = (root_inode (sb (cur_part s)))\<lparr>i_open_cnts := 1\<rparr>
     \<and> open_inodes (cur_part s) = [d_inode (root_dir s)]
     \<and> bm_size (block_bitmap (cur_part s)) = 4096
     \<and> (\<forall>k < 4096. bm_bit (block_bitmap (cur_part s)) k \<longleftrightarrow> k = 0 \<or> unat (format_bits (part_size p)) < k)
     \<and> (\<forall>k < 4096. bm_bit (inode_bitmap (cur_part s)) k \<longleftrightarrow> k = 0) \<and> bm_size (inode_bitmap (cur_part s)) = 4096
     \<and> disk s (unat (data_start_lba (sb (cur_part s)))) = root_entries @ replicate 464 0"

lemma synced_mounted:
  assumes p: "620 \<le> unat (part_size p)" "unat (part_size p) \<le> 4707" "unat (part_start p) + 4708 \<le> 163840"
    and dk: "disk_ok dk'" and m: "sb m = format_sb (part_start p) (part_size p)" "bm_wf (block_bitmap m)"
      "part_start m = part_start p" "part_size m = part_size p"
      "length (btmp_bits (block_bitmap m)) = 512 * n_sects (unat (part_size p))"
      "sectors dk' (unat (block_bitmap_lba (sb m))) (n_sects (unat (part_size p))) = btmp_bits (block_bitmap m)"
      "btmp_bits (inode_bitmap m) = 1 # replicate 511 0"
      "unat (btmp_bytes_len (inode_bitmap m)) = 512 * n_sects (unat (part_size p))"
      "sectors dk' (unat (inode_bitmap_lba (sb m))) 1 = btmp_bits (inode_bitmap m)"
    and s: "cur_part s = m\<lparr>open_inodes := l\<rparr>" "disk s = dk'"
  shows "synced s" "part_ok (cur_part s)" "n_sects (unat (part_size p)) = 1"
proof -
  have sz: "unat (part_start p) + unat (part_size p) \<le> 163840" using p by simp
  have n1: "n_sects (unat (part_size p)) = 1"
    using p(1,2) unfolding n_sects_def n_bits_def by linarith
  note num = format_sb_numbers [OF p(1) sz, folded m(1), unfolded n1]
  have wf: "bm_wf (inode_bitmap m)" using m(7,8) n1 by (simp add: bm_wf_def)
  show "n_sects (unat (part_size p)) = 1" by (rule n1)
  show "synced s"
    using dk m wf num n1 p s by (simp add: synced_def agree_def copy_of_def Let_def)
  have e: "unat (part_start p + part_size p) = unat (part_start p) + unat (part_size p)"
    using sz by (intro unat_add_u32) simp
  have "bm_size (block_bitmap m) = 4096" using m(5) n1 by (simp add: bm_size_def)
  then show "part_ok (cur_part s)"
    using p num m(3,4,7) s e n1 by (simp add: part_ok_def data_ok_def table_fits_def)
qed

lemma format_loop_rest:
  "(\<forall>i. idx \<le> i \<and> i < idx + n \<longrightarrow> part_size (parts ! i) = 0) \<Longrightarrow> format_loop pads bufs n idx parts s = Inr s"
  by (induction n arbitrary: idx) simp_all

lemma format_sb_fields: "dir_entry_size (format_sb a b) = 24" "root_inode_no (format_sb a b) = 0"
  by (simp_all add: format_sb_def Let_def)

definition one_partition :: "part \<Rightarrow> part list \<Rightarrow> (nat \<Rightarrow> u8 list) \<Rightarrow> bool" where
  "one_partition p parts dk \<longleftrightarrow> disk_ok dk \<and> 620 \<le> unat (part_size p) \<and> unat (part_size p) \<le> 4707 \<and> unat (part_start p) + 4708 \<le> 163840
     \<and> part_name p = default_part \<and> parts ! 0 = p \<and> (\<forall>i. 1 \<le> i \<and> i < 12 \<longrightarrow> part_size (parts ! i) = 0)
     \<and> le32 (dk (unat (part_start p) + 1)) 0 \<noteq> 0x20250325"

text \<open>Eight blocks are asked for: the buffer of filesys_init, that of partition_format, four for the mounted
  partition, and two for the inode of the root directory.\<close>

lemma filesys_init_fresh:
  assumes one: "one_partition p parts (disk s)" and pad: "length (pads 0) = 460" and buf: "bufs 0 = replicate 311296 0"
    and m: "mallocs s = [g, f, m1, m2, m3, m4, a, b] @ ms" "0 \<notin> set [g, f, m1, m2, m3, m4, a, b]" "a \<noteq> b"
  obtains s' where "filesys_init pads bufs (parts # chans) [p] s = Inr s'" "rootfs p s'" "d_inode (root_dir s') = a" "mallocs s' = ms"
    "fds s' = fds s" "junk s' = junk s" "file_table s' = map (\<lambda>f. f\<lparr>fd_inode := NULL\<rparr>) (file_table s)"
proof -
  have O: "disk_ok (disk s)" "620 \<le> unat (part_size p)" "unat (part_size p) \<le> 4707" "unat (part_start p) + 4708 \<le> 163840"
    "part_name p = default_part" "parts ! 0 = p" "\<forall>i. 1 \<le> i \<and> i < 12 \<longrightarrow> part_size (parts ! i) = 0"
    "le32 (disk s (unat (part_start p) + 1)) 0 \<noteq> 0x20250325"
    using one by (simp_all add: one_partition_def)
  have sz: "unat (part_start p) + unat (part_size p) \<le> 163840" using O by simp
  obtain dk m where F: "format_disk p (pads 0) (replicate 311296 0) (disk s) = Inr dk" "mounted p dk = Inr m"
    "disk_ok dk" "sb m = format_sb (part_start p) (part_size p)" "open_inodes m = []" "bm_wf (block_bitmap m)"
    "\<forall>k < bm_size (block_bitmap m). bm_bit (block_bitmap m) k \<longleftrightarrow> k = 0 \<or> unat (format_bits (part_size p)) < k"
    "\<forall>k < 4096. bm_bit (inode_bitmap m) k \<longleftrightarrow> k = 0" "disk_inode (sb m) dk 0 = root_inode (sb m)"
    "dk (unat (data_start_lba (sb m))) = root_entries @ replicate 464 0" "part_start m = part_start p" "part_size m = part_size p"
    "length (btmp_bits (block_bitmap m)) = 512 * n_sects (unat (part_size p))"
    "sectors dk (unat (block_bitmap_lba (sb m))) (n_sects (unat (part_size p))) = btmp_bits (block_bitmap m)"
    "btmp_bits (inode_bitmap m) = 1 # replicate 511 0" "unat (btmp_bytes_len (inode_bitmap m)) = 512 * n_sects (unat (part_size p))"
    "sectors dk (unat (inode_bitmap_lba (sb m))) 1 = btmp_bits (inode_bitmap m)"
    using format_mounts [OF O(1,2) sz pad] by blast
  have s1: "unat (part_start p + 1) = unat (part_start p) + 1" using O(4) by (intro unat_Suc_u32) simp
  have rd: "disk_read (disk s) (part_start p + 1) 1 = Inr (disk s (unat (part_start p) + 1))"
    using disk_read_eq [of "part_start p + 1" 1 1 "disk s"] s1 O(4) by (simp add: sectors_def)
  have ps: "part_size p \<noteq> 0" using O(2) by auto
  have z: "g \<noteq> 0" "f \<noteq> 0" "0 \<notin> set [m1, m2, m3, m4]" "a \<noteq> 0" "b \<noteq> 0" using m(2) by auto
  let ?s0 = "s\<lparr>mallocs := [f, m1, m2, m3, m4, a, b] @ ms, held := g # held s\<rparr>"
  let ?s1 = "?s0\<lparr>disk := dk, mallocs := [m1, m2, m3, m4, a, b] @ ms\<rparr>"
  have g: "kmalloc s = (g, ?s0)" using m(1) z(1) by (simp add: kmalloc_def)
  have fl: "channel_loop pads bufs 0 (parts # chans) ?s0 = Inr ?s1"
  proof -
    have pf: "partition_format p (pads 0) (bufs 0) ?s0 = Inr ?s1"
      using partition_format_ok [of p "pads 0" "replicate 311296 0" ?s0 dk f "[m1, m2, m3, m4, a, b] @ ms"] F(1) z(2) buf by simp
    have "format_loop pads bufs (Suc 11) 0 parts ?s0 = format_loop pads bufs 11 1 parts ?s1"
      unfolding format_loop.simps Let_def O(6) using ps rd O(8) pf by simp
    also have "\<dots> = Inr ?s1" by (rule format_loop_rest) (use O(7) in simp)
    finally have "format_loop pads bufs (Suc 11) 0 parts ?s0 = Inr ?s1" .
    moreover have "12 - 0 = Suc 11" by simp
    ultimately show ?thesis unfolding channel_loop.simps by (simp only: bindR_simps later_channels)
  qed
  let ?s2 = "?s1\<lparr>held := held s\<rparr>"
  have fr: "kfree g ?s1 = Inr ?s2" by (simp add: kfree_def)
  let ?s3 = "?s2\<lparr>mallocs := [a, b] @ ms, held := m4 # m3 # m2 # m1 # held s\<rparr>"
  have mf: "mount_first default_part [p] ?s2 = Inr (Some m, ?s3)"
    using mount_partition_ok [of p ?s2 m m1 m2 m3 m4 "[a, b] @ ms"] F(2) z(3) O(5) by simp
  let ?s = "?s3\<lparr>cur_part := m\<rparr>"
  have tf: "table_fits (cur_part ?s)"
    using synced_mounted(2) [OF O(2-4) F(3,4,6,11-17), of ?s "[]"] F(5) by (simp add: part_ok_def)
  have z0: "unat (0 :: u32) < 4096" by simp
  let ?i = "(root_inode (sb m))\<lparr>i_open_cnts := 1\<rparr>"
  let ?r = "?s\<lparr>inodes := (inodes s)(a := ?i), mallocs := ms, held := a # held ?s, cur_part := m\<lparr>open_inodes := [a]\<rparr>, root_dir := \<lparr>d_inode = a, dir_pos = 0\<rparr>\<rparr>"
  have op: "inode_open 0 ?s = Inr (a, set_open_inodes [a] (?s\<lparr>inodes := (inodes s)(a := ?i), mallocs := ms, held := a # held ?s\<rparr>))"
    using inode_open_loads [OF z0 tf, of a b ms] F(3,5,9) z(4,5) m(3) by simp
  have rt: "open_root_dir ?s = Inr ?r"
    using op by (simp add: open_root_dir_def F(4) format_sb_fields set_open_inodes_def)
  let ?s' = "?r\<lparr>file_table := map (\<lambda>f. f\<lparr>fd_inode := NULL\<rparr>) (file_table s)\<rparr>"
  have run: "filesys_init pads bufs (parts # chans) [p] s = Inr ?s'"
    unfolding filesys_init_def g Let_def case_prod_conv using z(1) by (simp only: fl fr mf bindR_simps case_prod_conv option.case rt if_False) simp
  note sm = synced_mounted [OF O(2-4) F(3,4,6,11-17), of ?s' "[a]"]
  have sy: "synced ?s'" "part_ok (cur_part ?s')" "n_sects (unat (part_size p)) = 1" using sm by simp_all
  have b0: "block_of m 0 = data_start_lba (sb m)" by (simp add: block_of_def)
  have bz: "bm_size (block_bitmap m) = 4096" "bm_size (inode_bitmap m) = 4096" using F(13,15) sy(3) by (simp_all add: bm_size_def)
  have "dir_ready ?s' Root_dir"
  proof -
    have "\<exists>k < bm_size (block_bitmap m). data_start_lba (sb m) = block_of m k \<and> bm_bit (block_bitmap m) k"
      using F(7) bz b0 by (intro exI [of _ 0]) simp
    then show ?thesis
      by (auto simp: dir_ready_def root_inode_def inode_wf_def format_sb_fields F(4) Let_def block_of_def split: if_splits)
  qed
  then have "rootfs p ?s'" using sy bz F by (simp add: rootfs_def)
  then show ?thesis by (rule that [OF run]) simp_all
qed

section \<open>Creating in the root directory\<close>

lemma root_block_lacks:
  assumes n: "plain_name n"
  shows "entry_loop (root_entries @ replicate 464 0) (padded n) 21 0 = Inr None"
proof (rule entry_loop_none, intro allI impI)
  fix j assume j: "0 \<le> j \<and> j < 0 + (21 :: nat)"
  have ok: "name_ok n" "n \<noteq> [0x2e]" "n \<noteq> [0x2e, 0x2e]" using n by (simp_all add: plain_name_def)
  note pn = padded_nul [OF ok(1)]
  have N: "n \<noteq> []" "0 \<notin> set n" using ok(1) by (simp_all add: name_ok_def)
  let ?buf = "root_entries @ replicate 464 0"
  have b: "?buf = [0x2e] @ 0 # (replicate 14 0 @ le32_bytes 0 @ le32_bytes FT_DIRECTORY
      @ [0x2e, 0x2e] @ replicate 14 0 @ le32_bytes 0 @ le32_bytes FT_DIRECTORY @ replicate 464 0)"
    by (simp add: root_entries_def numeral_eq_Suc)
  have b1: "drop 24 ?buf = [0x2e, 0x2e] @ 0 # (replicate 13 0 @ le32_bytes 0 @ le32_bytes FT_DIRECTORY @ replicate 464 0)"
    by (simp add: root_entries_def numeral_eq_Suc)
  consider "j = 0" | "j = 1" | "2 \<le> j" by linarith
  then show "str_equal (drop (24 * j) ?buf) (padded n) = Inr False"
  proof cases
    case 1
    show ?thesis unfolding 1 pn mult_0_right drop_0 b using str_equal_cstr [of "[0x2e]" n] N(2) ok(2) by simp
  next
    case 2
    show ?thesis unfolding 2 pn mult_1_right b1 using str_equal_cstr [of "[0x2e, 0x2e]" n] N(2) ok(3) by simp
  next
    case 3
    have "drop (24 * j) ?buf = replicate (512 - 24 * j) 0" using 3 by simp
    moreover obtain z where "512 - 24 * j = Suc z" using j by (cases "512 - 24 * j") auto
    ultimately show ?thesis using N by (cases n) (auto simp: padded_def)
  qed
qed

lemma rootfs_lacks:
  assumes "rootfs p s" "plain_name n"
  shows "direct_lacks Root_dir n s"
proof -
  let ?D = "data_start_lba (sb (cur_part s))"
  have i: "take 12 (i_sectors (inodes s (d_inode (root_dir s)))) = ?D # replicate 11 0"
    using assms(1) by (simp add: rootfs_def root_inode_def)
  have d: "data_ok (cur_part s)" "bm_size (block_bitmap (cur_part s)) = 4096" "disk s (unat ?D) = root_entries @ replicate 464 0"
    using assms(1) unfolding rootfs_def part_ok_def by blast+
  have l: "?D \<noteq> 0" "?D \<le> max_lba" using d(1,2) unfolding le_max_lba by (auto simp: data_ok_def)
  have "search_blocks (disk s) 24 21 (padded n) e (replicate 11 0) = Inr None" for e by (rule search_blocks_zeros) simp
  then show ?thesis
    using root_block_lacks [OF assms(2)] l d(3) by (simp add: direct_lacks_def i disk_read_def sectors_def)
qed

lemma created_ready:
  assumes p: "part_ok (cur_part s)" and dr: "dir_ready s d" and rm: "room_to_create d y i f j k1 k2 ms s"
    and sz: "unat (i_size (inodes s (d_inode (the_dir d s)))) + 24 < 4294967296"
  shows "part_ok (cur_part (created d y i f j k1 k2 ms dk s))" "dir_ready (created d y i f j k1 k2 ms dk s) d"
    "block_of (cur_part (created d y i f j k1 k2 ms dk s)) = block_of (cur_part s)"
proof -
  let ?s = "created d y i f j k1 k2 ms dk s" and ?i = "inodes s (d_inode (the_dir d s))"
  note K = created_keeps [OF rm, where dk = dk]
  show b: "block_of (cur_part ?s) = block_of (cur_part s)" by (simp add: block_of_def [abs_def] K(3))
  show "part_ok (cur_part ?s)"
    using p by (simp add: part_ok_def data_ok_def table_fits_def created_def)
  have R: "dir_entry_size (sb (cur_part s)) = 24" "inode_wf ?i" "i_size ?i mod 24 = 0"
    "\<forall>b \<in> set (take 12 (i_sectors ?i)). b \<noteq> 0 \<longrightarrow> (\<exists>k < bm_size (block_bitmap (cur_part s)). b = block_of (cur_part s) k \<and> bm_bit (block_bitmap (cur_part s)) k)"
    using dr by (simp_all add: dir_ready_def Let_def)
  have "unat (i_size ?i) mod 24 = 0" using R(3) by (simp add: u32_eq_iff unat_mod)
  then have "unat (i_size ?i + 24) mod 24 = 0" using sz by (subst unat_add_u32) simp_all
  then have m: "(i_size ?i + 24) mod 24 = 0" by (simp add: u32_eq_iff unat_mod)
  have F: "k1 < bm_size (block_bitmap (cur_part s))" "k2 < bm_size (block_bitmap (cur_part s))"
    using rm unfolding room_to_create_def two_free_def by auto
  have bits: "bm_size (block_bitmap (cur_part ?s)) = bm_size (block_bitmap (cur_part s))"
    "bm_bit (block_bitmap (cur_part s)) k \<Longrightarrow> bm_bit (block_bitmap (cur_part ?s)) k" for k
    using F by (simp_all add: created_def)
  have "take 12 (i_sectors (grown_dir s k1 ?i)) = take 12 (i_sectors ?i)" "inode_wf (grown_dir s k1 ?i)" "i_size (grown_dir s k1 ?i) = i_size ?i + 24"
    using R(2) by (simp_all add: grown_dir_def inode_wf_def)
  then show "dir_ready ?s d"
    unfolding dir_ready_def Let_def K(1,2,3) b bits(1) using R(1,4) m bits(2) by metis
qed

section \<open>The calls of main\<close>

definition file1 :: "u8 list" where "file1 = [0x66, 0x69, 0x6c, 0x65, 0x31]"
definition hongbai :: "u8 list" where "hongbai = [0x68, 0x6f, 0x6e, 0x67, 0x62, 0x61, 0x69]"

text \<open>sys_open("/file1", O_CREAT) and sys_open("/hongbai", O_CREAT); e1, a1, b1 and e2, a2, b2 are what the stack
  holds in the two calls.\<close>

definition main_files :: "u8 list \<times> u8 list \<times> u8 list \<Rightarrow> u8 list \<times> u8 list \<times> u8 list \<Rightarrow> fs \<Rightarrow> ((u32 \<times> u32) \<times> fs) res" where
  "main_files st1 st2 s = (case st1 of (e1, a1, b1) \<Rightarrow> case st2 of (e2, a2, b2) \<Rightarrow>
     bindR (sys_open e1 a1 b1 (slash # file1 @ [0]) O_CREAT s) (\<lambda>(fd1, s).
     bindR (sys_open e2 a2 b2 (slash # hongbai @ [0]) O_CREAT s) (\<lambda>(fd2, s).
       Inr ((fd1, fd2), s))))"

lemma main_names: "plain_name file1" "plain_name hongbai" "file1 \<noteq> hongbai"
  by (simp_all add: plain_name_def name_ok_def file1_def hongbai_def slash_def)

lemma free_slot_at:
  assumes "length ft = 32" "i \<le> j" "j < 32" "fd_inode (ft ! j) = NULL" "\<forall>k. i \<le> k \<and> k < j \<longrightarrow> fd_inode (ft ! k) \<noteq> NULL"
  shows "free_slot_loop ft i = Inr j"
proof -
  obtain q where q: "free_slot_loop ft i = Inr q" "i \<le> q" "\<forall>k. i \<le> k \<and> k < q \<longrightarrow> fd_inode (ft ! k) \<noteq> NULL" "q \<le> 32"
    "q < 32 \<longrightarrow> fd_inode (ft ! q) = NULL"
    using free_slot_loop_spec [of i ft] assms(1-3) by (auto simp: MAX_FILE_OPEN_def)
  have "q = j" using q(2-5) assms(2-5) by (cases q j rule: linorder_cases) auto
  then show ?thesis using q(1) by simp
qed

lemma fd_at:
  assumes "length tab = 8" "i \<le> j" "j < 8" "tab ! j = - 1" "\<forall>k. i \<le> k \<and> k < j \<longrightarrow> tab ! k \<noteq> - 1"
  shows "fd_loop tab i = Inr j"
proof -
  obtain q where q: "fd_loop tab i = Inr q" "i \<le> q" "\<forall>k. i \<le> k \<and> k < q \<longrightarrow> tab ! k \<noteq> - 1" "q \<le> 8" "q < 8 \<longrightarrow> tab ! q = - 1"
    using fd_loop_spec [of i tab] assms(1-3) by (auto simp: MAX_FILES_OPEN_PER_PROC_def)
  have "q = j" using q(2-5) assms(2-5) by (cases q j rule: linorder_cases) auto
  then show ?thesis using q(1) by simp
qed

text \<open>One call of sys_open for a name that is not there, from a ready root directory to a ready one.\<close>

lemma open_step:
  assumes s: "synced s" "part_ok (cur_part s)" "dir_ready s Root_dir" and n: "plain_name n"
    and nm: "length name1 = 16" "length name2 = 16"
    and se: "search_dir_entry Root_dir (padded n) e s = Inr (None, s\<lparr>mallocs := m\<rparr>)"
    and rm: "room_to_create Root_dir y i f j k1 k2 ms (s\<lparr>mallocs := m\<rparr>)"
    and sz: "unat (i_size (inodes s (d_inode (root_dir s)))) + 24 < 4294967296"
  obtains dk where "sys_open e name1 name2 (slash # n @ [0]) O_CREAT s = Inr (of_nat f, created Root_dir y i f j k1 k2 ms dk (s\<lparr>mallocs := m\<rparr>))"
    "synced (created Root_dir y i f j k1 k2 ms dk (s\<lparr>mallocs := m\<rparr>))"
    "part_ok (cur_part (created Root_dir y i f j k1 k2 ms dk (s\<lparr>mallocs := m\<rparr>)))"
    "dir_ready (created Root_dir y i f j k1 k2 ms dk (s\<lparr>mallocs := m\<rparr>)) Root_dir"
    "\<And>q. name_ok q \<Longrightarrow> direct_lacks Root_dir q s \<Longrightarrow>
       direct_lacks Root_dir q (created Root_dir y i f j k1 k2 ms dk (s\<lparr>mallocs := m\<rparr>))"
    "\<And>q e a b ms'. name_ok q \<Longrightarrow> direct_lacks Root_dir q s \<Longrightarrow> length e = 24 \<Longrightarrow> ms = a # b # ms' \<Longrightarrow> a \<noteq> 0 \<Longrightarrow> b \<noteq> 0 \<Longrightarrow>
       search_dir_entry Root_dir (padded q) e (created Root_dir y i f j k1 k2 ms dk (s\<lparr>mallocs := m\<rparr>))
         = Inr (if q = n then Some (entry_bytes n (of_nat j) 1) else None, (created Root_dir y i f j k1 k2 ms dk (s\<lparr>mallocs := m\<rparr>))\<lparr>mallocs := ms'\<rparr>)"
    "\<And>k. k < 4096 \<Longrightarrow> disk_inode (sb (cur_part s)) dk k
       = (if k = j then inode_init (of_nat j)
          else if k = unat (i_no (inodes s (d_inode (root_dir s)))) then on_disk (grown_dir s k1 (inodes s (d_inode (root_dir s))))
          else disk_inode (sb (cur_part s)) (disk s) k)"
proof -
  let ?s = "s\<lparr>mallocs := m\<rparr>"
  have S: "synced ?s" "part_ok (cur_part ?s)" "dir_ready ?s Root_dir" "name_ok n" using s n by (simp_all add: plain_name_def)
  obtain dk where dk: "file_create Root_dir n O_CREAT ?s = Inr (of_nat f, created Root_dir y i f j k1 k2 ms dk ?s)"
    "synced (created Root_dir y i f j k1 k2 ms dk ?s)"
    "dk (unat (block_of (cur_part ?s) k1)) = le32s_bytes (block_of (cur_part ?s) k2 # replicate 127 0)"
    "dk (unat (block_of (cur_part ?s) k2)) = entry_bytes n (of_nat j) 1 @ replicate 488 0"
    "\<And>k. k < bm_size (block_bitmap (cur_part ?s)) \<Longrightarrow> k \<noteq> k1 \<Longrightarrow> k \<noteq> k2 \<Longrightarrow>
       dk (unat (block_of (cur_part ?s) k)) = disk ?s (unat (block_of (cur_part ?s) k))"
    "\<And>k. k < 4096 \<Longrightarrow> disk_inode (sb (cur_part ?s)) dk k
       = (if k = j then inode_init (of_nat j)
          else if k = unat (i_no (inodes ?s (d_inode (the_dir Root_dir ?s)))) then on_disk (grown_dir ?s k1 (inodes ?s (d_inode (the_dir Root_dir ?s))))
          else disk_inode (sb (cur_part ?s)) (disk ?s) k)"
    by (rule file_create_effect [OF S rm, where flag = O_CREAT]) (rule that)
  have fl: "O_CREAT \<le> 7" "O_CREAT AND O_CREAT = O_CREAT" by (simp_all add: O_CREAT_def)
  have so: "sys_open e name1 name2 (slash # n @ [0]) O_CREAT s = Inr (of_nat f, created Root_dir y i f j k1 k2 ms dk ?s)"
    by (rule sys_open_create_effect [OF n se fl nm dk(1)])
  have z: "unat (i_size (inodes ?s (d_inode (the_dir Root_dir ?s)))) + 24 < 4294967296" using sz by simp
  note R = created_ready [OF S(2,3) rm z, of dk]
  note cs = created_search [OF S(3,1,2,4) _ rm _ _ _ _ dk(3-5)]
  show ?thesis
  proof (rule that [OF so dk(2) R(1,2)])
    fix q :: "u8 list" assume q: "name_ok q" "direct_lacks Root_dir q s"
    then have lk: "direct_lacks Root_dir q ?s" by simp
    show "direct_lacks Root_dir q (created Root_dir y i f j k1 k2 ms dk ?s)"
      by (rule created_lacks [OF S(3,1,2) rm lk dk(5)])
  qed (use cs dk(6) in \<open>auto simp: grown_dir_def block_of_def\<close>)
qed

section \<open>A root directory with files\<close>

text \<open>n files were created in the new root directory, whose inode is at a, and are open.\<close>

definition with_files :: "part \<Rightarrow> nat \<Rightarrow> addr \<Rightarrow> fs \<Rightarrow> bool" where
  "with_files p n a s \<longleftrightarrow> synced s \<and> part_ok (cur_part s) \<and> dir_ready s Root_dir \<and> d_inode (root_dir s) = a
     \<and> sb (cur_part s) = format_sb (part_start p) (part_size p)
     \<and> i_no (inodes s a) = 0 \<and> unat (i_size (inodes s a)) = 48 + 24 * n
     \<and> bm_size (block_bitmap (cur_part s)) = 4096 \<and> bm_size (inode_bitmap (cur_part s)) = 4096
     \<and> (\<forall>k \<le> 8. bm_bit (block_bitmap (cur_part s)) k \<longleftrightarrow> k \<le> 2 * n)
     \<and> (\<forall>k < 4096. bm_bit (inode_bitmap (cur_part s)) k \<longleftrightarrow> k \<le> n)
     \<and> length (file_table s) = 32 \<and> (\<forall>k. 3 \<le> k \<and> k < 32 \<longrightarrow> (fd_inode (file_table s ! k) = NULL \<longleftrightarrow> 3 + n \<le> k))
     \<and> length (fds s) = 8 \<and> (\<forall>k. 3 \<le> k \<and> k < 8 \<longrightarrow> (fds s ! k = - 1 \<longleftrightarrow> 3 + n \<le> k))"

lemma rootfs_with_files:
  assumes "rootfs p s" "d_inode (root_dir s) = a" "620 \<le> unat (part_size p)" "unat (part_size p) \<le> 4707"
    "length (file_table s) = 32" "\<forall>k < 32. fd_inode (file_table s ! k) = NULL" "fds s = [0, 1, 2] @ replicate 5 (- 1)"
  shows "with_files p 0 a s"
proof -
  have "8 \<le> unat (format_bits (part_size p))"
    using unat_format_bits [of "part_size p"] n_bounds(1) [of "unat (part_size p)"] assms(3,4) by simp
  moreover have "\<forall>k. 3 \<le> k \<and> k < 8 \<longrightarrow> fds s ! k = - 1"
  proof (intro allI impI)
    fix k :: nat assume "3 \<le> k \<and> k < 8"
    then have "k - 3 < 5" "fds s ! k = replicate 5 (- 1) ! (k - 3)" by (simp_all only: assms(7) nth_append) auto
    then show "fds s ! k = - 1" by simp
  qed
  moreover have "length (fds s) = 8" by (simp add: assms(7))
  ultimately show ?thesis
    using assms(1-6) by (auto simp: rootfs_def with_files_def root_inode_def format_sb_fields)
qed

lemma with_files_room:
  assumes w: "with_files p n a s" and n: "n < 4" and m: "y \<noteq> 0" "i \<noteq> 0" "y \<noteq> i" "i \<noteq> a"
  shows "room_to_create Root_dir i (n + 3) (n + 3) (n + 1) (2 * n + 1) (2 * n + 2) ms (s\<lparr>mallocs := y # i # ms\<rparr>)"
proof -
  note W = w [unfolded with_files_def]
  have "free_slot_loop (file_table s) 3 = Inr (n + 3)" "fd_loop (fds s) 3 = Inr (n + 3)"
    using W n by (auto intro!: free_slot_at fd_at)
  moreover have "two_free (block_bitmap (cur_part s)) (2 * n + 1) (2 * n + 2)" using W n by (auto simp: two_free_def)
  ultimately show ?thesis
    using W n m by (simp add: room_to_create_def MAX_FILE_OPEN_def MAX_FILES_OPEN_PER_PROC_def)
qed

lemma created_with_files:
  assumes w: "with_files p n a s" and n: "n < 4" and m: "i \<noteq> 0" "i \<noteq> a"
    and k: "synced s'" "part_ok (cur_part s')" "dir_ready s' Root_dir"
      "s' = created Root_dir i (n + 3) (n + 3) (n + 1) (2 * n + 1) (2 * n + 2) ms dk (s\<lparr>mallocs := y # i # ms\<rparr>)"
  shows "with_files p (n + 1) a s'"
proof -
  note W = w [unfolded with_files_def]
  have wf: "bm_wf (block_bitmap (cur_part s))" "bm_wf (inode_bitmap (cur_part s))" using W by (simp_all add: synced_def agree_def Let_def)
  have e: "dir_entry_size (sb (cur_part s)) = 24" using W by (simp add: format_sb_fields)
  have i: "inodes s' a = grown_dir s (2 * n + 1) (inodes s a)" "root_dir s' = root_dir s" "sb (cur_part s') = sb (cur_part s)"
    using W m by (simp_all add: k(4) created_def grown_dir_def block_of_def)
  have "unat (i_size (inodes s' a)) = 48 + 24 * (n + 1)"
    using W n by (simp add: i grown_dir_def unat_add_u32)
  moreover have "\<forall>k \<le> 8. bm_bit (block_bitmap (cur_part s')) k \<longleftrightarrow> k \<le> 2 * (n + 1)"
    using W wf n by (auto simp: k(4) created_def)
  moreover have "\<forall>k < 4096. bm_bit (inode_bitmap (cur_part s')) k \<longleftrightarrow> k \<le> n + 1"
    using W wf n by (auto simp: k(4) created_def)
  moreover have "\<forall>k. 3 \<le> k \<and> k < 32 \<longrightarrow> (fd_inode (file_table s' ! k) = NULL \<longleftrightarrow> 3 + (n + 1) \<le> k)"
  proof (intro allI impI)
    fix l assume "3 \<le> l \<and> l < (32 :: nat)"
    then show "fd_inode (file_table s' ! l) = NULL \<longleftrightarrow> 3 + (n + 1) \<le> l"
      using W m(1) n by (cases "l = n + 3") (auto simp: k(4) created_def nth_list_update)
  qed
  moreover have "(of_nat (n + 3) :: u32) \<noteq> - 1"
  proof
    assume "(of_nat (n + 3) :: u32) = - 1"
    then have "unat (of_nat (n + 3) :: u32) = unat (- 1 :: u32)" by (rule arg_cong)
    moreover have "unat (of_nat (n + 3) :: u32) = n + 3" using n by (intro unat_of_nat_u32) simp
    ultimately show False using n by (simp add: unsigned_minus_1_eq_mask mask_eq_exp_minus_1)
  qed
  then have "\<forall>k. 3 \<le> k \<and> k < 8 \<longrightarrow> (fds s' ! k = - 1 \<longleftrightarrow> 3 + (n + 1) \<le> k)"
  proof (intro allI impI)
    fix l assume l: "3 \<le> l \<and> l < (8 :: nat)" and v: "(of_nat (n + 3) :: u32) \<noteq> - 1"
    have f: "fds s' = (fds s)[n + 3 := of_nat (n + 3)]" by (simp add: k(4) created_def)
    show "fds s' ! l = - 1 \<longleftrightarrow> 3 + (n + 1) \<le> l"
    proof (cases "l = n + 3")
      case True
      then have "fds s' ! l = of_nat (n + 3)" unfolding f using W n by simp
      then have "fds s' ! l \<noteq> - 1" using v by (simp only: not_False_eq_True)
      moreover have "\<not> 3 + (n + 1) \<le> l" using True by simp
      ultimately show ?thesis by blast
    next
      case False
      then have "fds s' ! l = fds s ! l" unfolding f by simp
      then show ?thesis using W l False by auto
    qed
  qed
  ultimately show ?thesis
    using W k(1-3) i by (simp add: with_files_def k(4) created_def grown_dir_def)
qed

text \<open>The next file.\<close>

lemma open_next:
  assumes w: "with_files p n a s" and n: "n < 4" and q: "plain_name q" and m: "y \<noteq> 0" "i \<noteq> 0" "y \<noteq> i" "i \<noteq> a"
    and nm: "length name1 = 16" "length name2 = 16"
    and se: "search_dir_entry Root_dir (padded q) e s = Inr (None, s\<lparr>mallocs := y # i # ms\<rparr>)"
  obtains s' where "sys_open e name1 name2 (slash # q @ [0]) O_CREAT s = Inr (of_nat (n + 3), s')" "with_files p (n + 1) a s'"
    "mallocs s' = ms" "open_inodes (cur_part s') = i # open_inodes (cur_part s)" "fds s' = (fds s)[n + 3 := of_nat (n + 3)]"
    "\<And>q. name_ok q \<Longrightarrow> direct_lacks Root_dir q s \<Longrightarrow> direct_lacks Root_dir q s'"
    "\<And>r e a b ms'. name_ok r \<Longrightarrow> direct_lacks Root_dir r s \<Longrightarrow> length e = 24 \<Longrightarrow> ms = a # b # ms' \<Longrightarrow> a \<noteq> 0 \<Longrightarrow> b \<noteq> 0 \<Longrightarrow>
       search_dir_entry Root_dir (padded r) e s' = Inr (if r = q then Some (entry_bytes q (of_nat (n + 1)) 1) else None, s'\<lparr>mallocs := ms'\<rparr>)"
    "\<And>k. 0 < k \<Longrightarrow> k < 4096 \<Longrightarrow> disk_inode (sb (cur_part s')) (disk s') k
       = (if k = n + 1 then inode_init (of_nat k) else disk_inode (sb (cur_part s)) (disk s) k)"
proof -
  note W = w [unfolded with_files_def]
  have S: "synced s" "part_ok (cur_part s)" "dir_ready s Root_dir" using W by blast+
  have z: "unat (i_size (inodes s (d_inode (root_dir s)))) + 24 < 4294967296" using W n by simp
  let ?C = "\<lambda>dk. created Root_dir i (n + 3) (n + 3) (n + 1) (2 * n + 1) (2 * n + 2) ms dk (s\<lparr>mallocs := y # i # ms\<rparr>)"
  show ?thesis
  proof (rule open_step [OF S q nm se with_files_room [OF w n m, of ms] z])
    fix dk assume D: "sys_open e name1 name2 (slash # q @ [0]) O_CREAT s = Inr (of_nat (n + 3), ?C dk)"
      "synced (?C dk)" "part_ok (cur_part (?C dk))" "dir_ready (?C dk) Root_dir"
      "\<And>q. name_ok q \<Longrightarrow> direct_lacks Root_dir q s \<Longrightarrow> direct_lacks Root_dir q (?C dk)"
      "\<And>r e a b ms'. name_ok r \<Longrightarrow> direct_lacks Root_dir r s \<Longrightarrow> length e = 24 \<Longrightarrow> ms = a # b # ms' \<Longrightarrow> a \<noteq> 0 \<Longrightarrow> b \<noteq> 0 \<Longrightarrow>
         search_dir_entry Root_dir (padded r) e (?C dk)
           = Inr (if r = q then Some (entry_bytes q (of_nat (n + 1)) 1) else None, (?C dk)\<lparr>mallocs := ms'\<rparr>)"
      "\<And>k. k < 4096 \<Longrightarrow> disk_inode (sb (cur_part s)) dk k
       = (if k = n + 1 then inode_init (of_nat (n + 1))
          else if k = unat (i_no (inodes s (d_inode (root_dir s)))) then on_disk (grown_dir s (2 * n + 1) (inodes s (d_inode (root_dir s))))
          else disk_inode (sb (cur_part s)) (disk s) k)"
    have c: "sb (cur_part (?C dk)) = sb (cur_part s)" "disk (?C dk) = dk" "mallocs (?C dk) = ms" "open_inodes (cur_part (?C dk)) = i # open_inodes (cur_part s)"
      "fds (?C dk) = (fds s)[n + 3 := of_nat (n + 3)]"
      by (simp_all add: created_def)
    show thesis
    proof (rule that [OF D(1) created_with_files [OF w n m(2,4) D(2-4) refl] c(3-5) D(5,6)])
      fix k :: nat assume k: "0 < k" "k < 4096"
      show "disk_inode (sb (cur_part (?C dk))) (disk (?C dk)) k
        = (if k = n + 1 then inode_init (of_nat k) else disk_inode (sb (cur_part s)) (disk s) k)"
        unfolding c(1,2) using D(7) [OF k(2)] W k(1) by simp
    qed
  qed
qed

text \<open>The two calls of main on a new file system.\<close>

lemma main_files_run:
  assumes f: "rootfs p s1" "d_inode (root_dir s1) = a" "mallocs s1 = [x1, x2, y1, i1, x3, x4, y2, i2, x5, x6] @ ms"
      "\<forall>q \<in> set (take 128 (junk s1)). q = 0" "fds s1 = [0, 1, 2] @ replicate 5 (- 1)"
      "length (file_table s1) = 32" "\<forall>k < 32. fd_inode (file_table s1 ! k) = NULL" "620 \<le> unat (part_size p)" "unat (part_size p) \<le> 4707"
    and m: "0 \<notin> set [x1, x2, y1, i1, x3, x4, y2, i2, x5, x6]" "y1 \<noteq> i1" "y2 \<noteq> i2" "distinct [a, i1, i2]"
    and b: "length a1 = 16" "length b1 = 16" "length e2 = 24" "length a2 = 16" "length b2 = 16"
  shows "\<exists>s2. main_files (e1, a1, b1) (e2, a2, b2) s1 = Inr ((3, 4), s2) \<and> synced s2 \<and> fds s2 = [0, 1, 2, 3, 4] @ replicate 3 (- 1)
     \<and> open_inodes (cur_part s2) = [i2, i1, a]
     \<and> (\<forall>k \<in> {1, 2}. disk_inode (sb (cur_part s1)) (disk s2) k = inode_init (of_nat k))
     \<and> (\<forall>e. length e = 24 \<longrightarrow>
          search_dir_entry Root_dir (padded hongbai) e s2 = Inr (Some (entry_bytes hongbai 2 1), s2\<lparr>mallocs := ms\<rparr>)
        \<and> search_dir_entry Root_dir (padded file1) e s2 = Inr (None, s2\<lparr>mallocs := ms\<rparr>))"
proof -
  have nz: "x1 \<noteq> 0" "x2 \<noteq> 0" "y1 \<noteq> 0" "i1 \<noteq> 0" "x3 \<noteq> 0" "x4 \<noteq> 0" "y2 \<noteq> 0" "i2 \<noteq> 0" "x5 \<noteq> 0" "x6 \<noteq> 0"
    "i1 \<noteq> a" "i2 \<noteq> a" using m(1,4) by auto
  have w1: "with_files p 0 a s1"
    by (rule rootfs_with_files [OF f(1,2,8,9,6,7,5)])
  have i: "i_sectors (inodes s1 (d_inode (root_dir s1))) ! 12 = 0" "dir_entry_size (sb (cur_part s1)) = 24" "open_inodes (cur_part s1) = [a]"
    using f(1,2) by (simp_all add: rootfs_def root_inode_def format_sb_fields)
  have nok: "name_ok file1" "name_ok hongbai" using main_names by (simp_all add: plain_name_def)
  have lk: "direct_lacks Root_dir file1 s1" "direct_lacks Root_dir hongbai s1" using rootfs_lacks [OF f(1)] main_names by simp_all
  have se1: "search_dir_entry Root_dir (padded file1) e1 s1 = Inr (None, s1\<lparr>mallocs := y1 # i1 # ([x3, x4, y2, i2, x5, x6] @ ms)\<rparr>)"
    by (rule search_fresh [OF _ _ lk(1) _ nz(1,2) i(2)]) (use f(3,4) i(1) in simp_all)
  obtain t1 where O1: "sys_open e1 a1 b1 (slash # file1 @ [0]) O_CREAT s1 = Inr (of_nat (0 + 3), t1)" "with_files p (0 + 1) a t1"
    "mallocs t1 = [x3, x4, y2, i2, x5, x6] @ ms" "open_inodes (cur_part t1) = i1 # open_inodes (cur_part s1)"
    "fds t1 = (fds s1)[0 + 3 := of_nat (0 + 3)]"
    "\<And>q. name_ok q \<Longrightarrow> direct_lacks Root_dir q s1 \<Longrightarrow> direct_lacks Root_dir q t1"
    "\<And>r e a b ms'. name_ok r \<Longrightarrow> direct_lacks Root_dir r s1 \<Longrightarrow> length e = 24 \<Longrightarrow> [x3, x4, y2, i2, x5, x6] @ ms = a # b # ms' \<Longrightarrow> a \<noteq> 0 \<Longrightarrow> b \<noteq> 0 \<Longrightarrow>
       search_dir_entry Root_dir (padded r) e t1 = Inr (if r = file1 then Some (entry_bytes file1 (of_nat (0 + 1)) 1) else None, t1\<lparr>mallocs := ms'\<rparr>)"
    "\<And>k. 0 < k \<Longrightarrow> k < 4096 \<Longrightarrow> disk_inode (sb (cur_part t1)) (disk t1) k
       = (if k = 0 + 1 then inode_init (of_nat k) else disk_inode (sb (cur_part s1)) (disk s1) k)"
    by (rule open_next [OF w1 _ main_names(1) nz(3,4) m(2) nz(11) b(1,2) se1]) (simp, rule that)
  have se2: "search_dir_entry Root_dir (padded hongbai) e2 t1 = Inr (None, t1\<lparr>mallocs := y2 # i2 # ([x5, x6] @ ms)\<rparr>)"
    using O1(7) [OF nok(2) lk(2) b(3), of x3 x4] nz main_names(3) by auto
  obtain t2 where O2: "sys_open e2 a2 b2 (slash # hongbai @ [0]) O_CREAT t1 = Inr (of_nat (0 + 1 + 3), t2)" "with_files p (0 + 1 + 1) a t2"
    "mallocs t2 = [x5, x6] @ ms" "open_inodes (cur_part t2) = i2 # open_inodes (cur_part t1)"
    "fds t2 = (fds t1)[0 + 1 + 3 := of_nat (0 + 1 + 3)]"
    "\<And>q. name_ok q \<Longrightarrow> direct_lacks Root_dir q t1 \<Longrightarrow> direct_lacks Root_dir q t2"
    "\<And>r e a b ms'. name_ok r \<Longrightarrow> direct_lacks Root_dir r t1 \<Longrightarrow> length e = 24 \<Longrightarrow> [x5, x6] @ ms = a # b # ms' \<Longrightarrow> a \<noteq> 0 \<Longrightarrow> b \<noteq> 0 \<Longrightarrow>
       search_dir_entry Root_dir (padded r) e t2 = Inr (if r = hongbai then Some (entry_bytes hongbai (of_nat (0 + 1 + 1)) 1) else None, t2\<lparr>mallocs := ms'\<rparr>)"
    "\<And>k. 0 < k \<Longrightarrow> k < 4096 \<Longrightarrow> disk_inode (sb (cur_part t2)) (disk t2) k
       = (if k = 0 + 1 + 1 then inode_init (of_nat k) else disk_inode (sb (cur_part t1)) (disk t1) k)"
    by (rule open_next [OF O1(2) _ main_names(2) nz(7,8) m(3) nz(12) b(4,5) se2]) (simp, rule that)
  have "main_files (e1, a1, b1) (e2, a2, b2) s1 = Inr ((3, 4), t2)" using O1(1) O2(1) by (simp add: main_files_def)
  moreover have "sb (cur_part t2) = sb (cur_part s1)" "synced t2" using O2(2) f(1) by (simp_all add: with_files_def rootfs_def)
  moreover have "disk_inode (sb (cur_part t2)) (disk t2) 1 = inode_init 1" "disk_inode (sb (cur_part t2)) (disk t2) 2 = inode_init 2"
    using O2(8) [of 1] O2(8) [of 2] O1(8) [of 1] by simp_all
  moreover have "search_dir_entry Root_dir (padded hongbai) e t2 = Inr (Some (entry_bytes hongbai 2 1), t2\<lparr>mallocs := ms\<rparr>)"
    "search_dir_entry Root_dir (padded file1) e t2 = Inr (None, t2\<lparr>mallocs := ms\<rparr>)" if "length e = 24" for e
    using O2(7) [OF nok(2) O1(6) [OF nok(2) lk(2)] that, of x5 x6 ms] O2(7) [OF nok(1) O1(6) [OF nok(1) lk(1)] that, of x5 x6 ms]
      nz main_names(3) by auto
  moreover have "fds t2 = [0, 1, 2, 3, 4] @ replicate 3 (- 1)"
    unfolding O2(5) O1(5) f(5) by (simp add: numeral_eq_Suc)
  ultimately show ?thesis
    using O1(4) O2(4) i(3) by (intro exI [of _ t2]) auto
qed

end
