(* ===== verification/Kernel_Pages.thy ===== *)
theory Kernel_Pages
  imports Malloc
begin

text \<open>
  get_kernel_pages of kernel/memory.c for its callers: which pages they get, what else of the state stays,
  and how much room is left after several calls.
\<close>

section \<open>What page allocation leaves alone\<close>

definition keeps :: "memory \<Rightarrow> memory \<Rightarrow> bool" where
  "keeps m m' \<longleftrightarrow> tasks m' = tasks m \<and> thread_ready_list m' = thread_ready_list m \<and> thread_all_list m' = thread_all_list m
     \<and> running_thread m' = running_thread m \<and> idle_thread m' = idle_thread m \<and> main_thread m' = main_thread m
     \<and> intr m' = intr m \<and> next_pid m' = next_pid m \<and> total_ticks m' = total_ticks m \<and> cr3 m' = cr3 m
     \<and> tss_esp0 m' = tss_esp0 m \<and> k_block_descs m' = k_block_descs m \<and> u_block_desc m' = u_block_desc m
     \<and> arenas m' = arenas m \<and> bytes m' = bytes m \<and> userprog_vaddr m' = userprog_vaddr m \<and> plock (kernel_pool m') = plock (kernel_pool m) \<and> plock (user_pool m') = plock (user_pool m)"

lemma keeps_refl [simp]: "keeps m m"
  by (simp add: keeps_def)

lemma keeps_trans: "keeps a b \<Longrightarrow> keeps b c \<Longrightarrow> keeps a c"
  by (simp add: keeps_def)

lemma keepsD:
  assumes "keeps m m'"
  shows "tasks m' = tasks m" "thread_ready_list m' = thread_ready_list m" "thread_all_list m' = thread_all_list m"
    "running_thread m' = running_thread m" "idle_thread m' = idle_thread m" "main_thread m' = main_thread m"
    "intr m' = intr m" "next_pid m' = next_pid m" "u_block_desc m' = u_block_desc m"
    "userprog_vaddr m' = userprog_vaddr m" "bytes m' = bytes m"
  using assms by (simp_all add: keeps_def)

lemma keeps_simps [simp]:
  "keeps m (set_vaddr_bitmap PF_KERNEL bm m)" "keeps m (m\<lparr>ptab := pt\<rparr>)"
  by (simp_all add: keeps_def set_vaddr_bitmap_def)

lemma keeps_pool: "plock q = plock (mem_pool pf m) \<Longrightarrow> keeps m (set_mem_pool pf q m)"
  by (cases pf) (simp_all add: keeps_def set_mem_pool_def mem_pool_def)

lemma page_table_add_keeps: "page_table_add va f m = Inr m' \<Longrightarrow> keeps m m'"
  by (auto simp: page_table_add_def Let_def bindR_Inr_iff keeps_def palloc_lock split: if_splits)

lemma malloc_page_loop_keeps: "malloc_page_loop pf n va m = Inr (ok, m') \<Longrightarrow> keeps m m'"
proof (induction n arbitrary: va m)
  case 0
  then show ?case by simp
next
  case (Suc n)
  obtain a q where p: "palloc (mem_pool pf m) = Inr (a, q)" using Suc.prems by (auto simp: bindR_Inr_iff)
  let ?m1 = "set_mem_pool pf q m"
  have m1: "keeps m ?m1" by (rule keeps_pool [OF palloc_lock [OF p]])
  show ?case
  proof (cases "a = NULL")
    case True
    then show ?thesis using Suc.prems p m1 by auto
  next
    case False
    then obtain m2 where "page_table_add va a ?m1 = Inr m2" "malloc_page_loop pf n (va + PG_SIZE) m2 = Inr (ok, m')"
      using Suc.prems p by (auto simp: bindR_Inr_iff)
    then show ?thesis using Suc.IH page_table_add_keeps keeps_trans m1 by meson
  qed
qed

lemma malloc_page_keeps:
  assumes "malloc_page PF_KERNEL n m = Inr (va, m')"
  shows "keeps m m'"
proof -
  obtain v m1 where v: "vaddr_get PF_KERNEL n m = Inr (v, m1)"
    "(if v = NULL then Inr (NULL, m1) else bindR (malloc_page_loop PF_KERNEL (unat n) v m1) (\<lambda>(ok, s).
          Inr (if ok then v else NULL, s))) = Inr (va, m')"
    using assms by (auto simp: malloc_page_def bindR_Inr_iff split: if_splits)
  have m1: "keeps m m1"
    using v(1) by (auto simp: vaddr_get_def Let_def bindR_Inr_iff split: if_splits)
  show ?thesis
  proof (cases "v = NULL")
    case True
    then show ?thesis using v(2) m1 by simp
  next
    case False
    then obtain ok where "malloc_page_loop PF_KERNEL (unat n) v m1 = Inr (ok, m')"
      using v(2) by (auto simp: bindR_Inr_iff)
    then show ?thesis using malloc_page_loop_keeps m1 keeps_trans by meson
  qed
qed

section \<open>Pages of the kernel\<close>

text \<open>n free pages in a row from r on, and as many free frames.\<close>

definition room :: "nat \<Rightarrow> nat \<Rightarrow> memory \<Rightarrow> bool" where
  "room r n m \<longleftrightarrow> vfree_run PF_KERNEL m r n \<and> n \<le> free_frames PF_KERNEL m"

definition kernel_page :: "memory \<Rightarrow> nat \<Rightarrow> addr" where
  "kernel_page m = vpage PF_KERNEL m"

definition page_taken :: "memory \<Rightarrow> nat \<Rightarrow> bool" where
  "page_taken m i \<longleftrightarrow> i < vpages PF_KERNEL m \<and> vused PF_KERNEL m i"

definition got_pages :: "memory \<Rightarrow> nat \<Rightarrow> nat \<Rightarrow> memory \<Rightarrow> bool" where
  "got_pages m k j m' \<longleftrightarrow> space_ok PF_KERNEL m' \<and> keeps m (m'\<lparr>bytes := bytes m\<rparr>)
     \<and> kernel_page m' = kernel_page m \<and> vpages PF_KERNEL m' = vpages PF_KERNEL m
     \<and> vaddr_start (kernel_vaddr m') = vaddr_start (kernel_vaddr m)
     \<and> vfree_run PF_KERNEL m k j \<and> (\<forall>i. page_taken m' i \<longleftrightarrow> page_taken m i \<or> k \<le> i \<and> i < k + j)
     \<and> bytes m' = (\<lambda>a. if a \<in> region (kernel_page m k) (4096 * j) then 0 else bytes m a)
     \<and> (\<forall>w. ptab m' (pde_ptr w) = ptab m (pde_ptr w))
     \<and> (\<forall>i < j. page_aligned (addr_v2p (ptab m') (kernel_page m (k + i))))"

lemma bytes_pools [simp]:
  "vaddr_pool pf (m\<lparr>bytes := b\<rparr>) = vaddr_pool pf m" "mem_pool pf (m\<lparr>bytes := b\<rparr>) = mem_pool pf m"
  by (cases pf; simp add: vaddr_pool_def mem_pool_def)+

lemma bytes_pages [simp]:
  "vpages pf (m\<lparr>bytes := b\<rparr>) = vpages pf m" "vused pf (m\<lparr>bytes := b\<rparr>) = vused pf m" "vpage pf (m\<lparr>bytes := b\<rparr>) = vpage pf m"
  "page_used pf (m\<lparr>bytes := b\<rparr>) = page_used pf m" "pool_pages pf (m\<lparr>bytes := b\<rparr>) = pool_pages pf m"
  "page_index pf (m\<lparr>bytes := b\<rparr>) = page_index pf m"
  by (simp_all add: vpages_def vused_def vpage_def page_used_def pool_pages_def page_index_def fun_eq_iff)

lemma bytes_irrelevant [simp]:
  "vfree_run pf (m\<lparr>bytes := b\<rparr>) = vfree_run pf m" "free_frames pf (m\<lparr>bytes := b\<rparr>) = free_frames pf m"
  "frame_of pf (m\<lparr>bytes := b\<rparr>) = frame_of pf m"
  by (simp_all add: vfree_run_def free_frames_def frame_of_def fun_eq_iff)

lemma bytes_ptab: "ptab (m\<lparr>bytes := b\<rparr>) = ptab m"
  by simp

lemma bytes_mapping [simp]: "mapping_ok pf (m\<lparr>bytes := b\<rparr>) = mapping_ok pf m"
  by (simp only: mapping_ok_def bytes_pages bytes_irrelevant bytes_ptab)

lemma bytes_space [simp]: "space_ok pf (m\<lparr>bytes := b\<rparr>) = space_ok pf m"
  unfolding space_ok_def pools_ok_def vrange_ok_def bytes_mapping bytes_pages bytes_pools by simp

lemma least_run:
  assumes "vfree_run pf m r n" "0 < j" "j \<le> n"
  shows "\<exists>k \<le> r. vfree_run pf m k j \<and> (\<forall>k'. vfree_run pf m k' j \<longrightarrow> k \<le> k')"
proof -
  have r: "vfree_run pf m r j" using assms by (auto simp: vfree_run_def)
  let ?k = "LEAST k. vfree_run pf m k j"
  have "vfree_run pf m ?k j" by (rule LeastI [of _ r], rule r)
  moreover have "?k \<le> k'" if "vfree_run pf m k' j" for k'
    using that by (rule Least_le [where P = "\<lambda>k. vfree_run pf m k j"])
  moreover from this have "?k \<le> r" using r .
  ultimately show ?thesis by blast
qed

lemma get_kernel_pages_room:
  assumes ok: "space_ok PF_KERNEL m" and rm: "room r n m" and j: "0 < j" "j \<le> n" "j < 3840"
  shows "\<exists>k m'. get_kernel_pages (of_nat j) m = Inr (kernel_page m k, m') \<and> got_pages m k j m' \<and> room (r + j) (n - j) m'
     \<and> k + j \<le> vpages PF_KERNEL m"
proof -
  have uj: "unat (of_nat j :: u32) = j" using j(3) by (intro unat_of_nat_u32) simp
  obtain k where k: "k \<le> r" "vfree_run PF_KERNEL m k j" "\<forall>k'. vfree_run PF_KERNEL m k' j \<longrightarrow> k \<le> k'"
    using least_run [of PF_KERNEL m r n j] rm j by (auto simp: room_def)
  have lt: "of_nat j < (3840 :: u32)" using j(3) uj by (simp add: word_less_nat_alt)
  have fr: "j \<le> free_frames PF_KERNEL m" using rm j by (simp add: room_def)
  obtain m1 fs where m1: "malloc_page PF_KERNEL (of_nat j) m = Inr (vpage PF_KERNEL m k, m1)" "length fs = j"
    "pools_ok m1" "vrange_ok PF_KERNEL m1" "mapped_state PF_KERNEL m k fs m1"
    using malloc_page_maps [OF ok _ lt, unfolded uj, of k] j(1) k fr by blast
  have vr: "vrange_ok PF_KERNEL m" using ok by (simp add: space_ok_def)
  have kn: "k + length fs \<le> vpages PF_KERNEL m" using k(2) m1(2) by (simp add: vfree_run_def)
  then have kv: "k < vpages PF_KERNEL m" using j(1) m1(2) by simp
  have nn: "vpage PF_KERNEL m k \<noteq> NULL" by (rule vpage_nonnull [OF vr kv])
  note M = m1(5) [unfolded mapped_state_def m1(2)]
  let ?b = "\<lambda>a. if a \<in> region (kernel_page m k) (4096 * j) then 0 else bytes m1 a"
  have "unat (of_nat j * PG_SIZE :: u32) = 4096 * j" using j(3) uj by (subst unat_mult_u32) (simp_all add: PG_SIZE_def)
  then have ms: "memset_bytes (vpage PF_KERNEL m k) 0 (of_nat j * PG_SIZE) m1 = Inr (m1\<lparr>bytes := ?b\<rparr>)"
    using nn by (simp add: memset_bytes_def memset_def memset_loop_eq kernel_page_def)
  have g: "get_kernel_pages (of_nat j) m = Inr (kernel_page m k, m1\<lparr>bytes := ?b\<rparr>)"
    using m1(1) nn ms by (simp add: get_kernel_pages_def kernel_page_def)
  have K: "keeps m m1" by (rule malloc_page_keeps [OF m1(1)])
  have st: "vaddr_start (vaddr_pool PF_KERNEL m1) = vaddr_start (vaddr_pool PF_KERNEL m)" using M by blast
  have vp: "vpages PF_KERNEL m1 = vpages PF_KERNEL m" using M by blast
  have vg: "vpage PF_KERNEL m1 = vpage PF_KERNEL m" using st by (simp add: vpage_def fun_eq_iff)
  have vu: "vused PF_KERNEL m1 i \<longleftrightarrow> (k \<le> i \<and> i < k + j) \<or> vused PF_KERNEL m i" for i using M by blast
  have sp: "space_ok PF_KERNEL m1" using mapped_state_space [OF ok _ m1(3,4,5)] k(2) m1(2) by simp
  have pt: "page_taken (m1\<lparr>bytes := ?b\<rparr>) i \<longleftrightarrow> page_taken m i \<or> k \<le> i \<and> i < k + j" for i
    using kn m1(2) by (auto simp: page_taken_def vp vu)
  have pd: "ptab m1 (pde_ptr w) = ptab m (pde_ptr w)" for w by (rule mapped_pde [OF vr m1(5) kn])
  have al: "page_aligned (addr_v2p (ptab m1) (kernel_page m (k + i)))" if "i < j" for i
    using mapped_frame_new(2) [OF vr m1(5) kn, of i] that m1(2,5)
    by (auto simp: frame_of_def vg kernel_page_def mapped_state_def)
  have got: "got_pages m k j (m1\<lparr>bytes := ?b\<rparr>)"
    using K sp vg vp st pt k(2) pd al
    by (auto simp: got_pages_def kernel_page_def keeps_def vaddr_pool_def fun_eq_iff)
  have f1: "vfree_run PF_KERNEL m1 (r + j) (n - j)"
    unfolding vfree_run_def
  proof (intro conjI allI impI)
    show "r + j + (n - j) \<le> vpages PF_KERNEL m1" using rm j vp by (simp add: room_def vfree_run_def)
    fix i assume i: "i < n - j"
    have "\<not> vused PF_KERNEL m (r + (j + i))" using rm i by (simp add: room_def vfree_run_def)
    then show "\<not> vused PF_KERNEL m1 (r + j + i)" using vu [of "r + j + i"] k(1) by (simp add: add.assoc)
  qed
  have f2: "n - j \<le> free_frames PF_KERNEL m1"
  proof -
    let ?F = "{i. i < pool_pages PF_KERNEL m \<and> \<not> page_used PF_KERNEL m i}"
    let ?I = "page_index PF_KERNEL m ` set fs"
    have "{i. i < pool_pages PF_KERNEL m1 \<and> \<not> page_used PF_KERNEL m1 i} = ?F - ?I" using M by auto
    moreover have "?I \<subseteq> ?F" using M by auto
    moreover have "card ?I = j" using M m1(2) distinct_card [of "map (page_index PF_KERNEL m) fs"] by simp
    moreover have "finite ?F" by simp
    ultimately have "free_frames PF_KERNEL m1 = free_frames PF_KERNEL m - j"
      unfolding free_frames_def using card_Diff_subset [of ?I ?F] finite_subset [of ?I ?F] by simp
    then show ?thesis using rm by (simp add: room_def diff_le_mono)
  qed
  have "room (r + j) (n - j) (m1\<lparr>bytes := ?b\<rparr>)" using f1 f2 by (simp add: room_def)
  then show ?thesis using g got kn m1(2) by blast
qed

end
