(* ===== verification/Tasks.thy ===== *)
theory Tasks
  imports Kernel_Pages
begin

text \<open>
  The creation of threads (thread/thread.c). The state is the memory with the lock of the pids and the two
  kinds of frame that lie on kernel stacks, as typed objects at their addresses. A name is the list of its
  characters. What the entry code of thread/switch.S does with a new stack is \<open>switch_in\<close>. The addresses
  of kernel_thread, idle and start_process, which the linker chooses, are a parameter. \<open>proc_inv\<close> is the
  invariant: the scheduler's, a consistent kernel space, each PCB on a page of its own, pids that count.
\<close>

section \<open>Frames and state\<close>

record thread_stack =
  ts_ebp :: u32
  ts_ebx :: u32
  ts_edi :: u32
  ts_esi :: u32
  ts_eip :: addr
  unused_retaddr :: u32
  function_ptr :: addr
  func_arg :: u32

record intr_stack =
  vec_no :: u32
  is_edi :: u32
  is_esi :: u32
  is_ebp :: u32
  esp_dummy :: u32
  is_ebx :: u32
  is_edx :: u32
  is_ecx :: u32
  is_eax :: u32
  is_gs :: u32
  is_fs :: u32
  is_es :: u32
  is_ds :: u32
  err_code :: u32
  is_eip :: addr
  is_cs :: u32
  is_eflags :: u32
  is_esp :: addr
  is_ss :: u32

definition sizeof_intr_stack :: u32 where "sizeof_intr_stack = 76"
definition sizeof_thread_stack :: u32 where "sizeof_thread_stack = 32"

record code =
  kernel_thread_at :: addr
  idle_at :: addr
  start_process_at :: addr

record procs =
  mm :: memory
  pid_lock :: lock
  tstacks :: "addr \<Rightarrow> thread_stack"
  istacks :: "addr \<Rightarrow> intr_stack"

definition upd_pcb :: "(task_struct \<Rightarrow> task_struct) \<Rightarrow> addr \<Rightarrow> procs \<Rightarrow> procs" where
  "upd_pcb f t p = p\<lparr>mm := upd_task f t (mm p)\<rparr>"

section \<open>Threads\<close>

text \<open>allocate_pid is two steps: next_pid is counted up under the lock, and read when the lock has been released.
  Between the two another task may run when interrupts are on.\<close>

definition count_pid :: "procs \<Rightarrow> procs res" where
  "count_pid p =
     bindR (lock_acquire (pid_lock p) (mm p)) (\<lambda>(l, m).
     bindR (lock_release l (m\<lparr>next_pid := next_pid m + 1\<rparr>)) (\<lambda>(l, m).
       Inr (p\<lparr>mm := m, pid_lock := l\<rparr>)))"

definition read_pid :: "procs \<Rightarrow> u16" where
  "read_pid p = next_pid (mm p)"

definition allocate_pid :: "procs \<Rightarrow> (u16 \<times> procs) res" where
  "allocate_pid p = bindR (count_pid p) (\<lambda>p. Inr (read_pid p, p))"

text \<open>self_kstack is a pointer to 32-bit words: the sizes count words.\<close>

definition thread_create :: "code \<Rightarrow> addr \<Rightarrow> addr \<Rightarrow> u32 \<Rightarrow> procs \<Rightarrow> procs" where
  "thread_create c pthread function arg p =
     (let p = upd_pcb (\<lambda>t. t\<lparr>self_kstack := self_kstack t - 4 * sizeof_intr_stack\<rparr>) pthread p;
          p = upd_pcb (\<lambda>t. t\<lparr>self_kstack := self_kstack t - 4 * sizeof_thread_stack\<rparr>) pthread p;
          kthread_stack = self_kstack (tasks (mm p) pthread)
      in p\<lparr>tstacks := (tstacks p)(kthread_stack := (tstacks p kthread_stack)\<lparr>
           ts_eip := kernel_thread_at c, function_ptr := function, func_arg := arg,
           ts_ebp := 0, ts_ebx := 0, ts_esi := 0, ts_edi := 0\<rparr>)\<rparr>)"

text \<open>memset of the whole PCB.\<close>

definition zero_task :: task_struct where
  "zero_task = \<lparr>self_kstack = 0, pid = 0, status = TASK_RUNNING, priority = 0, ticks = 0, elapsed_ticks = 0,
     pname = replicate 16 0, fd_table = replicate 8 0, pgdir = NULL, stack_magic = 0\<rparr>"

definition clear_pcb :: "addr \<Rightarrow> procs \<Rightarrow> procs" where
  "clear_pcb pthread p = (let m = upd_task (\<lambda>_. zero_task) pthread (mm p) in p\<lparr>mm := m\<lparr>
     userprog_vaddr := (userprog_vaddr m)(pthread := \<lparr>vaddr_bitmap = \<lparr>btmp_bytes_len = 0, btmp_bits = []\<rparr>, vaddr_start = 0\<rparr>),
     u_block_desc := (u_block_desc m)(pthread := replicate DESC_CNT \<lparr>block_size = 0, block_per_arena = 0, free_list = []\<rparr>)\<rparr>\<rparr>)"

function fd_fill :: "nat \<Rightarrow> u32 list \<Rightarrow> u32 list" where
  "fd_fill fd_idx fds = (if fd_idx < 8 then fd_fill (fd_idx + 1) (fds[fd_idx := - 1]) else fds)"
  by pat_completeness auto
termination by (relation "measure (\<lambda>(fd_idx, _). 8 - fd_idx)") auto

declare fd_fill.simps [simp del]

definition init_thread :: "addr \<Rightarrow> u8 list \<Rightarrow> u32 \<Rightarrow> procs \<Rightarrow> procs res" where
  "init_thread pthread name prio p =
     (if pthread = NULL then Inl (Bad_access ''pthread'')
      else bindR (allocate_pid (clear_pcb pthread p)) (\<lambda>(id, p).
        let p = upd_pcb (pid_update (\<lambda>_. id)) pthread p in
        if \<not> length name < 16 then Inl (Bad_access ''pthread->name'')
        else let p = upd_pcb (pname_update (\<lambda>old. name @ 0 # drop (length name + 1) old)) pthread p;
                 p = upd_pcb (status_update (\<lambda>_. if pthread = main_thread (mm p) then TASK_RUNNING else TASK_READY)) pthread p
        in Inr (upd_pcb (\<lambda>t. t\<lparr>self_kstack := pthread + PG_SIZE, fd_table := fd_fill 3 ((fd_table t)[0 := 0, 1 := 1, 2 := 2]),
             priority := ucast prio, ticks := ucast prio, elapsed_ticks := 0, pgdir := NULL,
             stack_magic := 0x20250325\<rparr>) pthread p)))"

text \<open>The task enters the two lists.\<close>

definition enlist_all :: "addr \<Rightarrow> memory \<Rightarrow> memory res" where
  "enlist_all thread m =
     (if all_list_tag thread \<in> set (thread_all_list m)
      then Inl (Assertion ''!elem_find(&thread_all_list, &thread->all_list_tag)'')
      else Inr (m\<lparr>thread_all_list := thread_all_list m @ [all_list_tag thread]\<rparr>))"

definition enlist :: "addr \<Rightarrow> memory \<Rightarrow> memory res" where
  "enlist thread m =
     (if general_tag thread \<in> set (thread_ready_list m)
      then Inl (Assertion ''!elem_find(&thread_ready_list, &thread->general_tag)'')
      else enlist_all thread (m\<lparr>thread_ready_list := thread_ready_list m @ [general_tag thread]\<rparr>))"

definition on_mm :: "(memory \<Rightarrow> memory res) \<Rightarrow> procs \<Rightarrow> procs res" where
  "on_mm f p = bindR (f (mm p)) (\<lambda>m. Inr (p\<lparr>mm := m\<rparr>))"

definition thread_start :: "code \<Rightarrow> u8 list \<Rightarrow> u32 \<Rightarrow> addr \<Rightarrow> u32 \<Rightarrow> procs \<Rightarrow> (addr \<times> procs) res" where
  "thread_start c name prio function arg p =
     bindR (get_kernel_pages 1 (mm p)) (\<lambda>(thread, m).
     bindR (init_thread thread name prio (p\<lparr>mm := m\<rparr>)) (\<lambda>p.
     bindR (on_mm (enlist thread) (thread_create c thread function arg p)) (\<lambda>p.
       Inr (thread, p))))"

definition make_main_thread :: "procs \<Rightarrow> procs res" where
  "make_main_thread p =
     (let t = running_thread (mm p); p = p\<lparr>mm := (mm p)\<lparr>main_thread := t\<rparr>\<rparr>
      in bindR (init_thread t [0x6d, 0x61, 0x69, 0x6e] 31 p) (on_mm (enlist_all t)))"

definition thread_init :: "code \<Rightarrow> procs \<Rightarrow> procs res" where
  "thread_init c p =
     (let p = p\<lparr>mm := (mm p)\<lparr>thread_ready_list := [], thread_all_list := []\<rparr>, pid_lock := lock_init\<rparr>
      in bindR (make_main_thread p) (\<lambda>p.
         bindR (thread_start c [0x69, 0x64, 0x6c, 0x65] 10 (idle_at c) NULL p) (\<lambda>(t, p).
           Inr (p\<lparr>mm := (mm p)\<lparr>idle_thread := t\<rparr>\<rparr>))))"

text \<open>The body of idle: up to the switch, and what runs when idle is woken (then it halts until the next interrupt).\<close>

definition idle :: "'a kthreads_scheme \<Rightarrow> 'a kthreads_scheme res" where
  "idle s = thread_block TASK_BLOCKED s"

definition idle_woken :: "intr_status \<Rightarrow> 'a kthreads_scheme \<Rightarrow> 'a kthreads_scheme" where
  "idle_woken old_status s = (set_intr old_status s)\<lparr>intr := INTR_ON\<rparr>"

text \<open>kernel_thread turns interrupts on and calls: the function and its argument.\<close>

definition kernel_thread :: "addr \<Rightarrow> u32 \<Rightarrow> 'a kthreads_scheme \<Rightarrow> (addr \<times> u32) \<times> 'a kthreads_scheme" where
  "kernel_thread function arg s = ((function, arg), s\<lparr>intr := snd (intr_enable (intr s))\<rparr>)"

text \<open>The second half of switch_to: four pops and a return. Behind the return address that ret takes lie
  the return address and the arguments of the function entered.\<close>

record entry =
  e_ebp :: u32
  e_ebx :: u32
  e_edi :: u32
  e_esi :: u32
  e_eip :: addr
  e_esp :: addr
  e_args :: "u32 \<times> u32"

definition switch_in :: "addr \<Rightarrow> procs \<Rightarrow> entry" where
  "switch_in nxt p = (let esp = self_kstack (tasks (mm p) nxt); f = tstacks p esp in
     \<lparr>e_ebp = ts_ebp f, e_ebx = ts_ebx f, e_edi = ts_edi f, e_esi = ts_esi f, e_eip = ts_eip f,
      e_esp = esp + 20, e_args = (function_ptr f, func_arg f)\<rparr>)"

section \<open>A new task\<close>

definition new_task :: "addr \<Rightarrow> u8 list \<Rightarrow> u32 \<Rightarrow> u16 \<Rightarrow> thread_status \<Rightarrow> task_struct" where
  "new_task t name prio n st = \<lparr>self_kstack = t + PG_SIZE, pid = n, status = st, priority = ucast prio, ticks = ucast prio,
     elapsed_ticks = 0, pname = name @ replicate (16 - length name) 0, fd_table = [0, 1, 2, -1, -1, -1, -1, -1],
     pgdir = NULL, stack_magic = 0x20250325\<rparr>"

definition with_task :: "addr \<Rightarrow> task_struct \<Rightarrow> memory \<Rightarrow> memory" where
  "with_task t T m = m\<lparr>tasks := (tasks m)(t := T), next_pid := next_pid m + 1,
     userprog_vaddr := (userprog_vaddr m)(t := \<lparr>vaddr_bitmap = \<lparr>btmp_bytes_len = 0, btmp_bits = []\<rparr>, vaddr_start = 0\<rparr>),
     u_block_desc := (u_block_desc m)(t := replicate DESC_CNT \<lparr>block_size = 0, block_per_arena = 0, free_list = []\<rparr>)\<rparr>"

lemma with_task_simps [simp]:
  "tasks (with_task t T m) = (tasks m)(t := T)" "next_pid (with_task t T m) = next_pid m + 1"
  "thread_ready_list (with_task t T m) = thread_ready_list m" "thread_all_list (with_task t T m) = thread_all_list m"
  "running_thread (with_task t T m) = running_thread m" "idle_thread (with_task t T m) = idle_thread m"
  "main_thread (with_task t T m) = main_thread m" "intr (with_task t T m) = intr m" "ptab (with_task t T m) = ptab m"
  "bytes (with_task t T m) = bytes m" "kernel_vaddr (with_task t T m) = kernel_vaddr m"
  by (simp_all add: with_task_def)

lemma count_pid_free:
  assumes "pid_lock p = lock_init" "running_thread (mm p) \<noteq> NULL"
  shows "count_pid p = Inr (p\<lparr>mm := (mm p)\<lparr>next_pid := next_pid (mm p) + 1\<rparr>\<rparr>)"
proof -
  let ?m = "(mm p)\<lparr>next_pid := next_pid (mm p) + 1\<rparr>"
  have "lock_release (lock_held (running_thread (mm p)) 1) ?m = Inr (lock_init, ?m)" using release_last [of ?m] by simp
  then show ?thesis using assms acquire_first [of "mm p"] by (simp add: count_pid_def)
qed

lemma allocate_pid_free:
  assumes "pid_lock p = lock_init" "running_thread (mm p) \<noteq> NULL"
  shows "allocate_pid p = Inr (next_pid (mm p) + 1, p\<lparr>mm := (mm p)\<lparr>next_pid := next_pid (mm p) + 1\<rparr>\<rparr>)"
  using count_pid_free [OF assms] by (simp add: allocate_pid_def read_pid_def)

text \<open>The task t is the one that runs.\<close>

definition run_by :: "addr \<Rightarrow> procs \<Rightarrow> procs" where
  "run_by t p = p\<lparr>mm := (mm p)\<lparr>running_thread := t\<rparr>\<rparr>"

text \<open>When a is interrupted between the two steps and b runs both of its own, a and b read the same pid.\<close>

lemma pids_coincide:
  assumes "pid_lock p = lock_init" "a \<noteq> NULL" "b \<noteq> NULL"
  shows "\<exists>p1 p2. count_pid (run_by a p) = Inr p1 \<and> count_pid (run_by b p1) = Inr p2 \<and> read_pid (run_by b p2) = read_pid (run_by a p2)
     \<and> allocate_pid (run_by b p1) = Inr (read_pid (run_by a p2), p2)"
proof -
  let ?p1 = "(run_by a p)\<lparr>mm := (mm (run_by a p))\<lparr>next_pid := next_pid (mm p) + 1\<rparr>\<rparr>"
  have 1: "count_pid (run_by a p) = Inr ?p1" using count_pid_free [of "run_by a p"] assms by (simp add: run_by_def)
  have l: "pid_lock (run_by b ?p1) = lock_init" "running_thread (mm (run_by b ?p1)) \<noteq> NULL" using assms by (simp_all add: run_by_def)
  show ?thesis
    using 1 count_pid_free [OF l] allocate_pid_free [OF l] by (simp add: read_pid_def run_by_def)
qed

lemma fd_filled: "fd_fill 3 ((replicate 8 0)[0 := 0, 1 := 1, 2 := 2]) = [0, 1, 2, -1, -1, -1, -1, -1]"
  by (simp add: fd_fill.simps numeral_eq_Suc)

lemma drop_name: "length name < 16 \<Longrightarrow> name @ 0 # drop (length name + 1) (replicate 16 0) = name @ replicate (16 - length name) 0"
proof -
  assume "length name < 16"
  then have "16 - length name = Suc (16 - (length name + 1))" by simp
  then show ?thesis by simp
qed

lemma init_thread_eq:
  assumes "t \<noteq> NULL" "length name < 16" "pid_lock p = lock_init" "running_thread (mm p) \<noteq> NULL"
  shows "init_thread t name prio p = Inr (p\<lparr>mm := with_task t (new_task t name prio (next_pid (mm p) + 1)
     (if t = main_thread (mm p) then TASK_RUNNING else TASK_READY)) (mm p)\<rparr>)"
proof -
  have a: "allocate_pid (clear_pcb t p) = Inr (next_pid (mm p) + 1, (clear_pcb t p)\<lparr>mm := (mm (clear_pcb t p))\<lparr>next_pid := next_pid (mm p) + 1\<rparr>\<rparr>)"
    using allocate_pid_free [of "clear_pcb t p"] assms(3,4) by (simp add: clear_pcb_def Let_def upd_task_def)
  show ?thesis
    unfolding init_thread_def a bindR_simps case_prod_conv
    using assms(1,2) drop_name [OF assms(2)]
    by (simp add: Let_def upd_pcb_def clear_pcb_def with_task_def new_task_def zero_task_def fd_filled fd_filled [unfolded One_nat_def] upd_task_def)
qed

lemma thread_create_eq:
  assumes "self_kstack (tasks (mm p) t) = t + PG_SIZE"
  shows "thread_create c t f arg p = p\<lparr>mm := upd_task (self_kstack_update (\<lambda>_. t + 3664)) t (mm p),
     tstacks := (tstacks p)(t + 3664 := \<lparr>ts_ebp = 0, ts_ebx = 0, ts_edi = 0, ts_esi = 0, ts_eip = kernel_thread_at c,
       unused_retaddr = unused_retaddr (tstacks p (t + 3664)), function_ptr = f, func_arg = arg\<rparr>)\<rparr>"
proof -
  have k: "t + PG_SIZE - 4 * sizeof_intr_stack - 4 * sizeof_thread_stack = t + 3664"
    by (simp add: PG_SIZE_def sizeof_intr_stack_def sizeof_thread_stack_def)
  have fr: "F\<lparr>ts_eip := a, function_ptr := f, func_arg := arg, ts_ebp := 0, ts_ebx := 0, ts_esi := 0, ts_edi := 0\<rparr>
      = \<lparr>ts_ebp = 0, ts_ebx = 0, ts_edi = 0, ts_esi = 0, ts_eip = a, unused_retaddr = unused_retaddr F, function_ptr = f, func_arg = arg\<rparr>"
    for F :: thread_stack and a by (cases F) simp
  have e: "upd_pcb (\<lambda>t. t\<lparr>self_kstack := self_kstack t - 4 * sizeof_thread_stack\<rparr>) t
      (upd_pcb (\<lambda>t. t\<lparr>self_kstack := self_kstack t - 4 * sizeof_intr_stack\<rparr>) t p)
     = p\<lparr>mm := upd_task (self_kstack_update (\<lambda>_. t + 3664)) t (mm p)\<rparr>"
    using assms by (simp add: upd_pcb_def upd_task_def k)
  have s: "self_kstack (tasks (mm (p\<lparr>mm := upd_task (self_kstack_update (\<lambda>_. t + 3664)) t (mm p)\<rparr>)) t) = t + 3664"
    by simp
  show ?thesis unfolding thread_create_def Let_def e s fr by simp
qed

section \<open>The invariant of the tasks\<close>

definition task_list :: "memory \<Rightarrow> addr list" where
  "task_list m = map (\<lambda>tag. tag - 76) (thread_all_list m)"

text \<open>Each PCB lies on a page of its own, main's below the heap; the pids count the tasks.\<close>

definition pcbs_ok :: "memory \<Rightarrow> bool" where
  "pcbs_ok m \<longleftrightarrow> distinct (task_list m) \<and> next_pid m = of_nat (length (task_list m))
     \<and> (\<forall>i < length (task_list m). pid (tasks m (task_list m ! i)) = of_nat (i + 1))
     \<and> (\<forall>t \<in> set (task_list m). t = main_thread m \<or> (\<exists>i. page_taken m i \<and> t = kernel_page m i))
     \<and> main_thread m < K_HEAP_START"

definition proc_inv :: "procs \<Rightarrow> bool" where
  "proc_inv p \<longleftrightarrow> sched_inv (mm p) \<and> space_ok PF_KERNEL (mm p) \<and> vaddr_start (kernel_vaddr (mm p)) = K_HEAP_START
     \<and> pcbs_ok (mm p) \<and> pid_lock p = lock_init"

lemma live_task_list: "live m t \<longleftrightarrow> t \<in> set (task_list m)"
proof -
  have "all_list_tag t = tag \<longleftrightarrow> t = tag - 76" for tag by (simp add: all_list_tag_def add_eq_word)
  then show ?thesis unfolding live_def task_list_def set_map image_iff by metis
qed

lemma kernel_page_facts:
  assumes "space_ok PF_KERNEL m" "i < vpages PF_KERNEL m"
  shows "page_aligned (kernel_page m i)" "kernel_page m i \<noteq> NULL"
    "j < vpages PF_KERNEL m \<Longrightarrow> kernel_page m i = kernel_page m j \<longleftrightarrow> i = j"
    "unat (kernel_page m i) = unat (vaddr_start (kernel_vaddr m)) + 4096 * i" "unat (kernel_page m i) + 4096 \<le> 4290772992"
proof -
  have vr: "vrange_ok PF_KERNEL m" using assms(1) by (simp add: space_ok_def)
  show "page_aligned (kernel_page m i)" "kernel_page m i \<noteq> NULL"
    using vpage_aligned [OF vr assms(2)] vpage_nonnull [OF vr assms(2)] by (simp_all add: kernel_page_def)
  show u: "unat (kernel_page m i) = unat (vaddr_start (kernel_vaddr m)) + 4096 * i"
    using unat_vpage [OF vr assms(2)] by (simp add: kernel_page_def vaddr_pool_def)
  have "unat (vaddr_start (kernel_vaddr m)) + 4096 * vpages PF_KERNEL m \<le> 4290772992"
    using vr by (simp add: vrange_ok_def vaddr_pool_def)
  then show "unat (kernel_page m i) + 4096 \<le> 4290772992" using u assms(2) by simp
  show "kernel_page m i = kernel_page m j \<longleftrightarrow> i = j" if "j < vpages PF_KERNEL m"
    using vpage_inj [OF vr assms(2) that] by (auto simp: kernel_page_def)
qed

lemma fresh_page:
  assumes s: "space_ok PF_KERNEL m" "vaddr_start (kernel_vaddr m) = K_HEAP_START" and pcb: "pcbs_ok m"
    and k: "k < vpages PF_KERNEL m" "\<not> page_taken m k"
  shows "\<not> live m (kernel_page m k)" "kernel_page m k \<noteq> main_thread m"
proof -
  note F = kernel_page_facts [OF s(1) k(1)]
  have "unat (main_thread m) < unat K_HEAP_START" using pcb by (simp add: pcbs_ok_def word_less_nat_alt)
  then show ne: "kernel_page m k \<noteq> main_thread m" using F(4) s(2) by auto
  have "kernel_page m k \<noteq> kernel_page m i" if "page_taken m i" for i
    using F(3) [of i] that k(2) by (auto simp: page_taken_def)
  then show "\<not> live m (kernel_page m k)" using pcb ne by (auto simp: live_task_list pcbs_ok_def)
qed

text \<open>m' is m with the task T at t in both lists.\<close>

definition born :: "addr \<Rightarrow> task_struct \<Rightarrow> memory \<Rightarrow> memory \<Rightarrow> bool" where
  "born t T m m' \<longleftrightarrow> tasks m' = (tasks m)(t := T) \<and> thread_ready_list m' = thread_ready_list m @ [general_tag t]
     \<and> thread_all_list m' = thread_all_list m @ [all_list_tag t] \<and> running_thread m' = running_thread m
     \<and> idle_thread m' = idle_thread m \<and> main_thread m' = main_thread m \<and> next_pid m' = next_pid m + 1"

lemma all_list_tag_inj [simp]: "all_list_tag a = all_list_tag b \<longleftrightarrow> a = b"
  by (simp add: all_list_tag_def)

lemma born_live: "born t T m m' \<Longrightarrow> live m' u \<longleftrightarrow> live m u \<or> u = t"
  by (auto simp: born_def live_def)

lemma born_sched:
  assumes inv: "sched_inv m" and b: "born t T m m'" and t: "page_aligned t" "t \<noteq> NULL" "\<not> live m t"
    and T: "status T = TASK_READY" "stack_magic T = 0x20250325"
  shows "sched_inv m'"
proof -
  have mid: "sched_mid m" and r: "status (tasks m (running_thread m)) = TASK_RUNNING" using inv by (auto simp: sched_inv_def)
  note M = sched_midD [OF mid] and B = b [unfolded born_def] and L = born_live [OF b]
  have nt: "general_tag t \<notin> set (thread_ready_list m)" using M(7) [of "general_tag t"] t(3) by auto
  have ne: "running_thread m \<noteq> t" "idle_thread m \<noteq> t" using M(4,5) t(3) by auto
  have "sched_mid m'"
  proof (rule sched_midI, goal_cases)
    case (1 u)
    then show ?case using M(1-3) [of u] t(1,2) T B L [of u] by auto
  next
    case 2
    then show ?case using M(4) B L by simp
  next
    case 3
    then show ?case using M(5) B L by simp
  next
    case 4
    then show ?case using M(6) nt B by simp
  next
    case (5 tag)
    then show ?case using M(7) [of tag] B L by auto
  next
    case (6 u)
    then show ?case using M(8) [of u] nt T B L [of u] t(3) by auto
  next
    case (7 u)
    then show ?case using M(9) [of u] T B L [of u] by (auto split: if_splits)
  next
    case 8
    then show ?case using M(10) B ne by simp
  qed
  then show ?thesis using r B ne by (simp add: sched_inv_def)
qed

lemma task_list_born: "born t T m m' \<Longrightarrow> task_list m' = task_list m @ [t]"
  by (simp add: born_def task_list_def all_list_tag_def)

lemma born_pcbs:
  assumes pcb: "pcbs_ok m" and b: "born t T m m'" and t: "\<not> live m t" "t = kernel_page m' k" "page_taken m' k"
    and n: "pid T = next_pid m + 1" and pages: "kernel_page m' = kernel_page m" "\<And>i. page_taken m i \<Longrightarrow> page_taken m' i"
  shows "pcbs_ok m'"
proof -
  note B = b [unfolded born_def] and L = task_list_born [OF b] and P = pcb [unfolded pcbs_ok_def]
  have nt: "t \<notin> set (task_list m)" using t(1) by (simp add: live_task_list)
  have ps: "pid (tasks m' (task_list m' ! i)) = of_nat (i + 1)" if i: "i < length (task_list m')" for i
  proof (cases "i < length (task_list m)")
    case True
    then have "task_list m ! i \<noteq> t" using nt nth_mem by blast
    then show ?thesis using P B L True by (simp add: nth_append)
  next
    case False
    then have "i = length (task_list m)" using i L by simp
    then show ?thesis using P B L n by simp
  qed
  have "u = main_thread m' \<or> (\<exists>i. page_taken m' i \<and> u = kernel_page m' i)" if "u \<in> set (task_list m')" for u
  proof (cases "u = t")
    case True
    then show ?thesis using t(2,3) by blast
  next
    case False
    then have "u \<in> set (task_list m)" using that L by simp
    then have "u = main_thread m \<or> (\<exists>i. page_taken m i \<and> u = kernel_page m i)" using P by blast
    then show ?thesis using B pages by metis
  qed
  moreover have "distinct (task_list m')" "next_pid m' = of_nat (length (task_list m'))" "main_thread m' < K_HEAP_START"
    using P B L nt by simp_all
  ultimately show ?thesis using ps unfolding pcbs_ok_def by blast
qed

section \<open>thread_start\<close>

definition same_space :: "memory \<Rightarrow> memory \<Rightarrow> bool" where
  "same_space m m' \<longleftrightarrow> ptab m' = ptab m \<and> kernel_pool m' = kernel_pool m \<and> user_pool m' = user_pool m
     \<and> kernel_vaddr m' = kernel_vaddr m"

lemma same_spaceD:
  assumes "same_space m m'"
  shows "space_ok PF_KERNEL m' = space_ok PF_KERNEL m" "page_taken m' = page_taken m" "kernel_page m' = kernel_page m"
    "room r n m' = room r n m" "vpages PF_KERNEL m' = vpages PF_KERNEL m"
proof -
  note S = assms [unfolded same_space_def]
  have P: "vaddr_pool PF_KERNEL m' = vaddr_pool PF_KERNEL m" "mem_pool PF_KERNEL m' = mem_pool PF_KERNEL m"
    using S by (simp_all add: vaddr_pool_def mem_pool_def)
  have F: "vpages PF_KERNEL m' = vpages PF_KERNEL m" "vused PF_KERNEL m' = vused PF_KERNEL m" "vpage PF_KERNEL m' = vpage PF_KERNEL m"
    "page_used PF_KERNEL m' = page_used PF_KERNEL m" "pool_pages PF_KERNEL m' = pool_pages PF_KERNEL m"
    "page_index PF_KERNEL m' = page_index PF_KERNEL m"
    by (simp_all add: vpages_def vused_def vpage_def page_used_def pool_pages_def page_index_def fun_eq_iff P)
  have pt: "ptab m' = ptab m" using S by simp
  have fr: "frame_of PF_KERNEL m' = frame_of PF_KERNEL m" by (rule ext) (simp only: frame_of_def F pt)
  have "pools_ok m' = pools_ok m" using S by (simp add: pools_ok_def)
  moreover have "vrange_ok PF_KERNEL m' = vrange_ok PF_KERNEL m" unfolding vrange_ok_def F P by simp
  moreover have "mapping_ok PF_KERNEL m' = mapping_ok PF_KERNEL m" unfolding mapping_ok_def F fr pt by (rule refl)
  ultimately show "space_ok PF_KERNEL m' = space_ok PF_KERNEL m" by (simp add: space_ok_def)
  show "page_taken m' = page_taken m" "kernel_page m' = kernel_page m" "vpages PF_KERNEL m' = vpages PF_KERNEL m"
    by (simp_all add: page_taken_def kernel_page_def F fun_eq_iff)
  show "room r n m' = room r n m" by (simp add: room_def vfree_run_def free_frames_def F)
qed

lemma got_pagesD:
  assumes "got_pages m k j m'"
  shows "space_ok PF_KERNEL m'" "tasks m' = tasks m" "thread_ready_list m' = thread_ready_list m"
    "thread_all_list m' = thread_all_list m" "running_thread m' = running_thread m" "idle_thread m' = idle_thread m"
    "main_thread m' = main_thread m" "intr m' = intr m" "next_pid m' = next_pid m" "u_block_desc m' = u_block_desc m"
    "userprog_vaddr m' = userprog_vaddr m" "kernel_page m' = kernel_page m" "vpages PF_KERNEL m' = vpages PF_KERNEL m"
    "vaddr_start (kernel_vaddr m') = vaddr_start (kernel_vaddr m)" "vfree_run PF_KERNEL m k j"
    "page_taken m' i \<longleftrightarrow> page_taken m i \<or> k \<le> i \<and> i < k + j" "ptab m' (pde_ptr w) = ptab m (pde_ptr w)"
    "i < j \<Longrightarrow> page_aligned (addr_v2p (ptab m') (kernel_page m (k + i)))"
    "bytes m' = (\<lambda>a. if a \<in> region (kernel_page m k) (4096 * j) then 0 else bytes m a)"
    "thread_all_list m' = thread_all_list m"
proof -
  note G = assms [unfolded got_pages_def]
  have K: "keeps m (m'\<lparr>bytes := bytes m\<rparr>)" using G by blast
  show "tasks m' = tasks m" "thread_ready_list m' = thread_ready_list m"
    "thread_all_list m' = thread_all_list m" "running_thread m' = running_thread m" "idle_thread m' = idle_thread m"
    "main_thread m' = main_thread m" "intr m' = intr m" "next_pid m' = next_pid m" "u_block_desc m' = u_block_desc m"
    "userprog_vaddr m' = userprog_vaddr m" "thread_all_list m' = thread_all_list m"
    using keepsD [OF K] by simp_all
  show "space_ok PF_KERNEL m'" "kernel_page m' = kernel_page m" "vpages PF_KERNEL m' = vpages PF_KERNEL m"
    "vaddr_start (kernel_vaddr m') = vaddr_start (kernel_vaddr m)" "vfree_run PF_KERNEL m k j"
    "page_taken m' i \<longleftrightarrow> page_taken m i \<or> k \<le> i \<and> i < k + j" "ptab m' (pde_ptr w) = ptab m (pde_ptr w)"
    "i < j \<Longrightarrow> page_aligned (addr_v2p (ptab m') (kernel_page m (k + i)))"
    "bytes m' = (\<lambda>a. if a \<in> region (kernel_page m k) (4096 * j) then 0 else bytes m a)"
    using G by blast+
qed

definition born_task :: "addr \<Rightarrow> u8 list \<Rightarrow> u32 \<Rightarrow> u16 \<Rightarrow> task_struct" where
  "born_task t name prio n = (new_task t name prio n TASK_READY)\<lparr>self_kstack := t + 3664\<rparr>"

definition first_frame :: "code \<Rightarrow> addr \<Rightarrow> u32 \<Rightarrow> u32 \<Rightarrow> thread_stack" where
  "first_frame c f arg u = \<lparr>ts_ebp = 0, ts_ebx = 0, ts_edi = 0, ts_esi = 0, ts_eip = kernel_thread_at c,
     unused_retaddr = u, function_ptr = f, func_arg = arg\<rparr>"

lemma birth_eq:
  assumes t: "t \<noteq> NULL" "t \<noteq> main_thread (mm p)" "length name < 16" and l: "pid_lock p = lock_init" "running_thread (mm p) \<noteq> NULL"
  shows "bindR (init_thread t name prio p) (\<lambda>p. Inr (thread_create c t f arg p))
    = Inr (p\<lparr>mm := with_task t (born_task t name prio (next_pid (mm p) + 1)) (mm p),
         tstacks := (tstacks p)(t + 3664 := first_frame c f arg (unused_retaddr (tstacks p (t + 3664))))\<rparr>)"
proof -
  let ?p = "p\<lparr>mm := with_task t (new_task t name prio (next_pid (mm p) + 1) TASK_READY) (mm p)\<rparr>"
  have i: "init_thread t name prio p = Inr ?p" using init_thread_eq [OF t(1,3) l] t(2) by simp
  have k: "self_kstack (tasks (mm ?p) t) = t + PG_SIZE" by (simp add: new_task_def)
  have u: "upd_task (self_kstack_update (\<lambda>_. t + 3664)) t (with_task t T m) = with_task t (T\<lparr>self_kstack := t + 3664\<rparr>) m" for T m
    by (simp add: with_task_def upd_task_def)
  show ?thesis using thread_create_eq [OF k, of c f arg] unfolding i
    by (simp add: u born_task_def first_frame_def)
qed

text \<open>All of the invariant but the scheduler's.\<close>

definition pages_inv :: "procs \<Rightarrow> bool" where
  "pages_inv p \<longleftrightarrow> space_ok PF_KERNEL (mm p) \<and> vaddr_start (kernel_vaddr (mm p)) = K_HEAP_START
     \<and> pcbs_ok (mm p) \<and> pid_lock p = lock_init"

lemma proc_inv_iff: "proc_inv p \<longleftrightarrow> sched_inv (mm p) \<and> pages_inv p"
  by (auto simp: proc_inv_def pages_inv_def)

definition thread_born :: "code \<Rightarrow> u8 list \<Rightarrow> u32 \<Rightarrow> addr \<Rightarrow> u32 \<Rightarrow> nat \<Rightarrow> procs \<Rightarrow> procs \<Rightarrow> bool" where
  "thread_born c name prio f arg k p p' \<longleftrightarrow> (let t = kernel_page (mm p) k in
     page_aligned t \<and> t \<noteq> NULL \<and> \<not> live (mm p) t
     \<and> born t (born_task t name prio (next_pid (mm p) + 1)) (mm p) (mm p') \<and> intr (mm p') = intr (mm p)
     \<and> tstacks p' (t + 3664) = first_frame c f arg (unused_retaddr (tstacks p (t + 3664))))"

lemma thread_start_runs:
  assumes inv: "pages_inv p" and rn: "running_thread (mm p) \<noteq> NULL"
    and ready: "\<And>tag. tag \<in> set (thread_ready_list (mm p)) \<Longrightarrow> \<exists>t. live (mm p) t \<and> tag = general_tag t"
    and rm: "room r n (mm p)" "0 < n" and nm: "length name < 16"
  shows "\<exists>k p'. thread_start c name prio f arg p = Inr (kernel_page (mm p) k, p')
     \<and> thread_born c name prio f arg k p p' \<and> pages_inv p' \<and> room (r + 1) (n - 1) (mm p')"
proof -
  note I = inv [unfolded pages_inv_def]
  obtain k m where k: "get_kernel_pages 1 (mm p) = Inr (kernel_page (mm p) k, m)" "got_pages (mm p) k 1 m"
    "room (r + 1) (n - 1) m" "k + 1 \<le> vpages PF_KERNEL (mm p)"
    using get_kernel_pages_room [of "mm p" r n 1] I rm by auto
  let ?t = "kernel_page (mm p) k"
  note G = got_pagesD [OF k(2)]
  have kv: "k < vpages PF_KERNEL (mm p)" "\<not> page_taken (mm p) k"
    using k(4) G(15) by (auto simp: page_taken_def vfree_run_def)
  have t: "page_aligned ?t" "?t \<noteq> NULL" using kernel_page_facts [OF _ kv(1)] I by blast+
  have fresh: "\<not> live (mm p) ?t" "?t \<noteq> main_thread (mm p)" using fresh_page [of "mm p" k] I kv by blast+
  let ?T = "born_task ?t name prio (next_pid (mm p) + 1)"
  let ?m = "(with_task ?t ?T m)\<lparr>thread_ready_list := thread_ready_list m @ [general_tag ?t], thread_all_list := thread_all_list m @ [all_list_tag ?t]\<rparr>"
  let ?st = "(tstacks p)(?t + 3664 := first_frame c f arg (unused_retaddr (tstacks p (?t + 3664))))"
  let ?p1 = "p\<lparr>mm := m\<rparr>"
  have nr: "general_tag ?t \<notin> set (thread_ready_list m)" "all_list_tag ?t \<notin> set (thread_all_list m)"
    using ready [of "general_tag ?t"] fresh(1) G(3,4) by (auto simp: live_def)
  have b: "bindR (init_thread ?t name prio ?p1) (\<lambda>p. Inr (thread_create c ?t f arg p))
      = Inr (p\<lparr>mm := with_task ?t ?T m, tstacks := ?st\<rparr>)"
    using birth_eq [of ?t ?p1 name prio c f arg] t(2) fresh(2) nm I rn G(5,7,9) by simp
  then obtain p2 where p2: "init_thread ?t name prio ?p1 = Inr p2" "thread_create c ?t f arg p2 = p\<lparr>mm := with_task ?t ?T m, tstacks := ?st\<rparr>"
    by (auto simp: bindR_Inr_iff)
  have e: "on_mm (enlist ?t) (p\<lparr>mm := with_task ?t ?T m, tstacks := ?st\<rparr>) = Inr (p\<lparr>mm := ?m, tstacks := ?st\<rparr>)"
    using nr by (simp add: on_mm_def enlist_def enlist_all_def)
  have run: "thread_start c name prio f arg p = Inr (?t, p\<lparr>mm := ?m, tstacks := ?st\<rparr>)"
    unfolding thread_start_def k(1) bindR_simps case_prod_conv p2 e by simp
  have sp: "same_space m ?m" by (simp add: same_space_def with_task_def)
  note S = same_spaceD [OF sp]
  have born: "born ?t ?T (mm p) ?m" using G by (simp add: born_def)
  have pcbs: "pcbs_ok ?m"
  proof (rule born_pcbs [OF _ born fresh(1)])
    show "page_taken ?m k" using S(2) G(16) [of k] by simp
  qed (use I S G in \<open>simp_all add: born_task_def new_task_def\<close>)
  have "pages_inv (p\<lparr>mm := ?m, tstacks := ?st\<rparr>)"
    using pcbs S(1) G(1,14) I by (simp add: pages_inv_def)
  moreover have "room (r + 1) (n - 1) ?m" using S(4) k(3) by blast
  moreover have "thread_born c name prio f arg k p (p\<lparr>mm := ?m, tstacks := ?st\<rparr>)"
    using t fresh(1) born G(8) by (simp add: thread_born_def)
  ultimately show ?thesis using run by (intro exI [of _ k] exI [of _ "p\<lparr>mm := ?m, tstacks := ?st\<rparr>"]) simp
qed

lemma thread_born_sched:
  assumes "sched_inv (mm p)" "thread_born c name prio f arg k p p'"
  shows "sched_inv (mm p')"
proof -
  let ?t = "kernel_page (mm p) k"
  have b: "born ?t (born_task ?t name prio (next_pid (mm p) + 1)) (mm p) (mm p')" "page_aligned ?t" "?t \<noteq> NULL" "\<not> live (mm p) ?t"
    using assms(2) by (simp_all add: thread_born_def Let_def)
  show ?thesis
    by (rule born_sched [OF assms(1) b]) (simp_all add: born_task_def new_task_def)
qed

section \<open>thread_init\<close>

definition booted :: "procs \<Rightarrow> bool" where
  "booted p \<longleftrightarrow> page_aligned (running_thread (mm p)) \<and> running_thread (mm p) \<noteq> NULL \<and> running_thread (mm p) < K_HEAP_START
     \<and> space_ok PF_KERNEL (mm p) \<and> vaddr_start (kernel_vaddr (mm p)) = K_HEAP_START \<and> next_pid (mm p) = 0"

lemma make_main_thread_runs:
  assumes b: "booted p" and e: "thread_ready_list (mm p) = []" "thread_all_list (mm p) = []" "pid_lock p = lock_init"
  defines "t \<equiv> running_thread (mm p)"
  shows "\<exists>p'. make_main_thread p = Inr p' \<and> pages_inv p' \<and> same_space (mm p) (mm p') \<and> running_thread (mm p') = t \<and> main_thread (mm p') = t
     \<and> task_list (mm p') = [t] \<and> thread_ready_list (mm p') = [] \<and> intr (mm p') = intr (mm p)
     \<and> tasks (mm p') t = new_task t [0x6d, 0x61, 0x69, 0x6e] 31 1 TASK_RUNNING"
proof -
  note B = b [unfolded booted_def, folded t_def]
  let ?p = "p\<lparr>mm := (mm p)\<lparr>main_thread := t\<rparr>\<rparr>"
  let ?T = "new_task t [0x6d, 0x61, 0x69, 0x6e] 31 1 TASK_RUNNING"
  let ?m = "(with_task t ?T (mm ?p))\<lparr>thread_all_list := [all_list_tag t]\<rparr>"
  have i: "init_thread t [0x6d, 0x61, 0x69, 0x6e] 31 ?p = Inr (p\<lparr>mm := with_task t ?T (mm ?p)\<rparr>)"
    using init_thread_eq [of t "[0x6d, 0x61, 0x69, 0x6e]" ?p 31] B e(3) by (simp add: t_def)
  have run: "make_main_thread p = Inr (p\<lparr>mm := ?m\<rparr>)"
    unfolding make_main_thread_def Let_def t_def [symmetric] i bindR_simps
    using e by (simp add: on_mm_def enlist_all_def)
  have sp: "same_space (mm p) ?m" by (simp add: same_space_def with_task_def)
  note S = same_spaceD [OF sp]
  have tl: "task_list ?m = [t]" by (simp add: task_list_def all_list_tag_def)
  have "pcbs_ok ?m" unfolding pcbs_ok_def tl using B by (simp add: new_task_def)
  then have "pages_inv (p\<lparr>mm := ?m\<rparr>)" using B S(1) e(3) by (simp add: pages_inv_def)
  then show ?thesis using run sp tl e(1) t_def by (intro exI [of _ "p\<lparr>mm := ?m\<rparr>"]) simp
qed

lemma thread_init_runs:
  assumes b: "booted p" and rm: "room r n (mm p)" "0 < n"
  shows "\<exists>k p'. thread_init c p = Inr p' \<and> proc_inv p' \<and> room (r + 1) (n - 1) (mm p')
     \<and> task_list (mm p') = [main_thread (mm p'), idle_thread (mm p')]
     \<and> running_thread (mm p') = running_thread (mm p) \<and> main_thread (mm p') = running_thread (mm p)
     \<and> idle_thread (mm p') = kernel_page (mm p) k \<and> thread_ready_list (mm p') = [general_tag (idle_thread (mm p'))]
     \<and> intr (mm p') = intr (mm p) \<and> fd_table (tasks (mm p') (running_thread (mm p))) = [0, 1, 2] @ replicate 5 (- 1)"
proof -
  let ?t = "running_thread (mm p)"
  let ?p = "p\<lparr>mm := (mm p)\<lparr>thread_ready_list := [], thread_all_list := []\<rparr>, pid_lock := lock_init\<rparr>"
  have sp0: "same_space (mm p) (mm ?p)" by (simp add: same_space_def)
  have "booted ?p" using b same_spaceD(1) [OF sp0] by (simp add: booted_def)
  from make_main_thread_runs [OF this]
  obtain p1 where p1: "make_main_thread ?p = Inr p1" "pages_inv p1" "same_space (mm ?p) (mm p1)" "running_thread (mm p1) = ?t" "main_thread (mm p1) = ?t"
    "task_list (mm p1) = [?t]" "thread_ready_list (mm p1) = []" "intr (mm p1) = intr (mm p)"
    "tasks (mm p1) ?t = new_task ?t [0x6d, 0x61, 0x69, 0x6e] 31 1 TASK_RUNNING" by auto
  have sp: "same_space (mm p) (mm p1)" using sp0 p1(3) by (simp add: same_space_def)
  note S = same_spaceD [OF sp]
  have tn: "?t \<noteq> NULL" "page_aligned ?t" using b by (simp_all add: booted_def)
  have rm1: "room r n (mm p1)" using S(4) rm by blast
  have rn1: "running_thread (mm p1) \<noteq> NULL" using p1(4) tn(1) by simp
  have rd1: "tag \<in> set (thread_ready_list (mm p1)) \<Longrightarrow> \<exists>t. live (mm p1) t \<and> tag = general_tag t" for tag using p1(7) by simp
  have nm: "length [0x69, 0x64, 0x6c, 0x65 :: u8] < 16" by simp
  obtain k p2 where p2: "thread_start c [0x69, 0x64, 0x6c, 0x65] 10 (idle_at c) NULL p1 = Inr (kernel_page (mm p1) k, p2)"
    "thread_born c [0x69, 0x64, 0x6c, 0x65] 10 (idle_at c) NULL k p1 p2" "pages_inv p2" "room (r + 1) (n - 1) (mm p2)"
    using thread_start_runs [OF p1(2) rn1 rd1 rm1 rm(2) nm] by blast
  let ?i = "kernel_page (mm p1) k"
  let ?p' = "p2\<lparr>mm := (mm p2)\<lparr>idle_thread := ?i\<rparr>\<rparr>"
  have run: "thread_init c p = Inr ?p'"
    unfolding thread_init_def Let_def p1(1) bindR_simps p2(1) case_prod_conv by simp
  have born: "born ?i (born_task ?i [0x69, 0x64, 0x6c, 0x65] 10 (next_pid (mm p1) + 1)) (mm p1) (mm p2)"
    and i: "page_aligned ?i" "?i \<noteq> NULL" "\<not> live (mm p1) ?i" "intr (mm p2) = intr (mm p1)"
    using p2(2) by (simp_all add: thread_born_def Let_def)
  note B = born [unfolded born_def]
  have tl: "task_list (mm ?p') = [?t, ?i]" using task_list_born [OF born] p1(6) by (simp add: task_list_def)
  have ne: "?i \<noteq> ?t" using i(3) p1(6) by (auto simp: live_task_list)
  have sp2: "same_space (mm p2) (mm ?p')" by (simp add: same_space_def)
  note S2 = same_spaceD [OF sp2]
  have "task_list (mm ?p') = task_list (mm p2)" by (simp add: task_list_def)
  then have "pcbs_ok (mm ?p')" using p2(3) S2(2,3) by (simp add: pages_inv_def pcbs_ok_def)
  then have pages: "pages_inv ?p'" using p2(3) S2(1) by (simp add: pages_inv_def)
  have L: "live (mm ?p') u \<longleftrightarrow> u = ?t \<or> u = ?i" for u using tl by (auto simp: live_task_list)
  have T: "tasks (mm ?p') ?t = new_task ?t [0x6d, 0x61, 0x69, 0x6e] 31 1 TASK_RUNNING"
    "tasks (mm ?p') ?i = born_task ?i [0x69, 0x64, 0x6c, 0x65] 10 (next_pid (mm p1) + 1)" using B ne p1(9) by simp_all
  have F: "running_thread (mm ?p') = ?t" "thread_ready_list (mm ?p') = [general_tag ?i]" "idle_thread (mm ?p') = ?i" "main_thread (mm ?p') = ?t"
    using B p1 by simp_all
  have "sched_mid (mm ?p')"
  proof (rule sched_midI, goal_cases)
    case (1 u)
    then show ?case using L [of u] T tn i by (auto simp: new_task_def born_task_def)
  next
    case (6 u)
    then show ?case using L [of u] T F ne by (auto simp: new_task_def born_task_def)
  next
    case (7 u)
    then show ?case using L [of u] T F by (auto simp: new_task_def born_task_def)
  next
    case 8
    then show ?case unfolding F T(2) by (simp add: new_task_def born_task_def)
  next
    case (5 tag)
    then show ?case using L F by auto
  next
    case 2
    then show ?case using L F(1) by blast
  next
    case 3
    then show ?case using L F(3) by blast
  next
    case 4
    then show ?case unfolding F by simp
  qed
  then have "sched_inv (mm ?p')" using T(1) F(1) by (simp add: sched_inv_def new_task_def)
  then have "proc_inv ?p'" using pages by (simp add: proc_inv_iff)
  moreover have "room (r + 1) (n - 1) (mm ?p')" using S2(4) p2(4) by blast
  moreover have "fd_table (tasks (mm ?p') ?t) = [0, 1, 2] @ replicate 5 (- 1)"
    unfolding T(1) by (simp add: new_task_def numeral_eq_Suc)
  ultimately show ?thesis using run tl F i(4) p1(8) S(3)
    by (intro exI [of _ k] exI [of _ ?p']) simp
qed

section \<open>Scheduling\<close>

definition stays :: "memory \<Rightarrow> memory \<Rightarrow> bool" where
  "stays m m' \<longleftrightarrow> same_space m m' \<and> thread_all_list m' = thread_all_list m \<and> main_thread m' = main_thread m
     \<and> idle_thread m' = idle_thread m \<and> next_pid m' = next_pid m \<and> (\<forall>t. pid (tasks m' t) = pid (tasks m t))"

lemma stays_trans: "stays a b \<Longrightarrow> stays b d \<Longrightarrow> stays a d"
  by (simp add: stays_def same_space_def)

lemma stays_simps [simp]:
  "stays m m" "stays m (m\<lparr>intr := v\<rparr>)" "stays m (set_intr v m)" "stays m (m\<lparr>total_ticks := n\<rparr>)"
  "(\<And>x. pid (f x) = pid x) \<Longrightarrow> stays m (upd_task f t m)"
  by (simp_all add: stays_def same_space_def set_intr_def upd_task_def)

lemma unblock_stays: "thread_unblock t m = Inr m' \<Longrightarrow> stays m m'"
  by (auto simp: thread_unblock_def Let_def stays_def same_space_def set_intr_def upd_task_def split: if_splits)

lemma schedule_stays:
  assumes "schedule m = Inr m'"
  shows "stays m m'"
proof -
  let ?wake = "\<lambda>m. if thread_ready_list m = [] then thread_unblock (idle_thread m) m else Inr m"
  have "bindR (requeue_running (running_thread m) m) (\<lambda>m. bindR (?wake m) switch_to_first) = Inr m'"
    using assms unfolding schedule_def by (cases "intr m") simp_all
  then obtain a where a: "requeue_running (running_thread m) m = Inr a" and "bindR (?wake a) switch_to_first = Inr m'"
    by (rule bindR_InrE)
  then obtain b where b: "?wake a = Inr b" and d: "switch_to_first b = Inr m'"
    by (elim bindR_InrE)
  have "stays m a" using a by (auto simp: requeue_running_def Let_def stays_def same_space_def upd_task_def split: if_splits)
  moreover have "stays a b" using b unblock_stays by (auto split: if_splits)
  moreover have "stays b m'"
  proof (cases "thread_ready_list b")
    case Nil
    then show ?thesis using d by (simp add: switch_to_first_def)
  next
    case (Cons tag rest)
    let ?t = "pcb_of_tag tag"
    let ?b = "upd_task (status_update (\<lambda>_. TASK_RUNNING)) ?t (b\<lparr>thread_ready_list := rest\<rparr>)"
    obtain e where e: "process_activate ?t ?b = Inr e" "m' = e\<lparr>running_thread := ?t\<rparr>"
      using d Cons by (auto simp: switch_to_first_def Let_def bindR_Inr_iff)
    then have "?t \<noteq> NULL" by (auto simp: process_activate_def)
    then have "m' = ?b\<lparr>cr3 := cr3 e, tss_esp0 := tss_esp0 e, running_thread := ?t\<rparr>"
      using e process_activate_eq [of ?t ?b] by auto
    then show ?thesis by (simp add: stays_def same_space_def upd_task_def)
  qed
  ultimately show ?thesis using stays_trans by blast
qed

lemma sched_event_stays:
  assumes "sched_event e m = Inr m'"
  shows "stays m m'"
proof (cases e)
  case Timer
  let ?c = "running_thread m"
  let ?m = "upd_task (\<lambda>t. t\<lparr>elapsed_ticks := elapsed_ticks t + 1\<rparr>) ?c (m\<lparr>intr := INTR_OFF\<rparr>)\<lparr>total_ticks := total_ticks m + 1\<rparr>"
  have s: "stays m ?m" by (simp add: stays_def same_space_def upd_task_def)
  have "schedule ?m = Inr m' \<or> m' = upd_task (\<lambda>t. t\<lparr>ticks := ticks t - 1\<rparr>) ?c ?m"
    using assms Timer by (auto simp: sched_event_def intr_timer_handler_def Let_def upd_task_def split: if_splits)
  then show ?thesis
  proof
    assume "schedule ?m = Inr m'"
    then show ?thesis using schedule_stays stays_trans [OF s] by blast
  next
    assume "m' = upd_task (\<lambda>t. t\<lparr>ticks := ticks t - 1\<rparr>) ?c ?m"
    then show ?thesis using stays_trans [OF s] by simp
  qed
next
  case (Block stat)
  let ?m = "upd_task (status_update (\<lambda>_. stat)) (running_thread m) (m\<lparr>intr := INTR_OFF\<rparr>)"
  have "schedule ?m = Inr m'" using assms Block by (simp add: sched_event_def thread_block_def Let_def split: if_splits)
  moreover have "stays m ?m" by (simp add: stays_def same_space_def upd_task_def)
  ultimately show ?thesis using schedule_stays stays_trans by blast
next
  case (Unblock t)
  then show ?thesis using assms unblock_stays by (simp add: sched_event_def)
next
  case Yield
  let ?m = "upd_task (status_update (\<lambda>_. TASK_READY)) (running_thread m) (m\<lparr>intr := INTR_OFF\<rparr>)"
  have "schedule ?m = Inr m'" using assms Yield by (simp add: sched_event_def thread_yield_def Let_def split: if_splits)
  moreover have "stays m ?m" by (simp add: stays_def same_space_def upd_task_def)
  ultimately show ?thesis using schedule_stays stays_trans by blast
qed

lemma stays_pages:
  assumes "pages_inv p" "stays (mm p) m"
  shows "pages_inv (p\<lparr>mm := m\<rparr>)"
proof -
  have s: "same_space (mm p) m" and F: "thread_all_list m = thread_all_list (mm p)" "main_thread m = main_thread (mm p)"
    "next_pid m = next_pid (mm p)" "\<And>t. pid (tasks m t) = pid (tasks (mm p) t)"
    using assms(2) by (simp_all add: stays_def)
  note S = same_spaceD [OF s]
  have "task_list m = task_list (mm p)" using F(1) by (simp add: task_list_def)
  then have "pcbs_ok m = pcbs_ok (mm p)" by (simp add: pcbs_ok_def F(2-) S)
  moreover have "kernel_vaddr m = kernel_vaddr (mm p)" using s by (simp add: same_space_def)
  ultimately show ?thesis using assms(1) S(1) by (simp add: pages_inv_def)
qed

section \<open>A concrete start\<close>

definition demo_code :: code where
  "demo_code = \<lparr>kernel_thread_at = 0xc0001000, idle_at = 0xc0001100, start_process_at = 0xc0001200\<rparr>"

definition demo_boot :: procs where
  "demo_boot = \<lparr>mm = demo_memory\<lparr>next_pid := 0\<rparr>, pid_lock = lock_init,
     tstacks = (\<lambda>_. \<lparr>ts_ebp = 0, ts_ebx = 0, ts_edi = 0, ts_esi = 0, ts_eip = 0, unused_retaddr = 0, function_ptr = 0, func_arg = 0\<rparr>),
     istacks = (\<lambda>_. \<lparr>vec_no = 0, is_edi = 0, is_esi = 0, is_ebp = 0, esp_dummy = 0, is_ebx = 0, is_edx = 0, is_ecx = 0,
       is_eax = 0, is_gs = 0, is_fs = 0, is_es = 0, is_ds = 0, err_code = 0, is_eip = 0, is_cs = 0, is_eflags = 0, is_esp = 0, is_ss = 0\<rparr>)\<rparr>"

lemma demo_booted: "booted demo_boot" "room 0 3 (mm demo_boot)"
proof -
  have s: "same_space demo_memory (mm demo_boot)" by (simp add: same_space_def demo_boot_def)
  have "room 0 3 demo_memory" using demo_room by (simp add: room_def)
  then show "room 0 3 (mm demo_boot)" using same_spaceD(4) [OF s] by simp
  have "running_thread demo_memory = 0xc009e000" "vaddr_start (kernel_vaddr demo_memory) = K_HEAP_START"
    by (simp_all add: demo_memory_def demo_threads_def kthreads.defs memory.defs K_HEAP_START_def)
  then show "booted demo_boot"
    using same_spaceD(1) [OF s] demo_space by (simp add: booted_def demo_boot_def page_aligned_def K_HEAP_START_def)
qed

section \<open>Properties\<close>

text \<open>C33: thread_init, run on the first stack with a consistent kernel space that has a free page, returns and
  establishes the invariant the scheduler needs: the code that runs is the task main, idle is the one ready
  task, on a page of its own, and they have the pids 1 and 2.\<close>
theorem thread_init_establishes:
  assumes "booted p" "room r n (mm p)" "0 < n"
  shows "\<exists>p' idle. thread_init c p = Inr p' \<and> proc_inv p' \<and> idle_thread (mm p') = idle
     \<and> main_thread (mm p') = running_thread (mm p) \<and> running_thread (mm p') = running_thread (mm p)
     \<and> task_list (mm p') = [running_thread (mm p), idle] \<and> thread_ready_list (mm p') = [general_tag idle]
     \<and> pid (tasks (mm p') (running_thread (mm p))) = 1 \<and> pid (tasks (mm p') idle) = 2"
proof -
  obtain k p' where p': "thread_init c p = Inr p'" "proc_inv p'" "task_list (mm p') = [main_thread (mm p'), idle_thread (mm p')]"
    "running_thread (mm p') = running_thread (mm p)" "main_thread (mm p') = running_thread (mm p)"
    "thread_ready_list (mm p') = [general_tag (idle_thread (mm p'))]"
    using thread_init_runs [OF assms] by blast
  have "\<forall>i < 2. pid (tasks (mm p') ([main_thread (mm p'), idle_thread (mm p')] ! i)) = of_nat (i + 1)"
    using p'(2,3) by (simp add: proc_inv_def pcbs_ok_def numeral_2_eq_2)
  then have "pid (tasks (mm p') (main_thread (mm p'))) = 1" "pid (tasks (mm p') (idle_thread (mm p'))) = 2"
    by (auto dest: spec [of _ 0] spec [of _ 1])
  then show ?thesis using p' by auto
qed

lemma thread_init_establishes_witness:
  "\<exists>p' idle. thread_init demo_code demo_boot = Inr p' \<and> proc_inv p' \<and> task_list (mm p') = [0xc009e000, idle]"
proof -
  have "running_thread (mm demo_boot) = 0xc009e000"
    by (simp add: demo_boot_def demo_memory_def demo_threads_def kthreads.defs memory.defs)
  then show ?thesis using thread_init_establishes [OF demo_booted, of demo_code] by auto
qed

text \<open>C32: thread_start, with a free page of the kernel space, makes a task on a fresh page, ready behind the
  others, with the next pid, its name and its time slice; no other task changes and the invariant holds
  again. When switch_to first enters it, it returns into kernel_thread with the function and its argument
  as arguments, on a stack inside the page, above the PCB and below the room for an interrupt frame.\<close>
theorem thread_start_spec:
  assumes "proc_inv p" "room r n (mm p)" "0 < n" "length name < 16"
  shows "\<exists>t p'. thread_start c name prio f arg p = Inr (t, p') \<and> proc_inv p' \<and> \<not> live (mm p) t
     \<and> task_list (mm p') = task_list (mm p) @ [t] \<and> thread_ready_list (mm p') = thread_ready_list (mm p) @ [general_tag t]
     \<and> (\<forall>u. u \<noteq> t \<longrightarrow> tasks (mm p') u = tasks (mm p) u)
     \<and> status (tasks (mm p') t) = TASK_READY \<and> pid (tasks (mm p') t) = of_nat (length (task_list (mm p')))
     \<and> pname (tasks (mm p') t) = name @ replicate (16 - length name) 0 \<and> ticks (tasks (mm p') t) = ucast prio
     \<and> pgdir (tasks (mm p') t) = NULL
     \<and> e_eip (switch_in t p') = kernel_thread_at c \<and> e_args (switch_in t p') = (f, arg)
     \<and> unat t + 272 \<le> unat (e_esp (switch_in t p')) \<and> unat (e_esp (switch_in t p')) + 12 + 304 \<le> unat t + 4096"
proof -
  note I = assms(1) [unfolded proc_inv_iff]
  have mid: "sched_mid (mm p)" using I by (simp add: sched_inv_def)
  have rn: "running_thread (mm p) \<noteq> NULL" using sched_midD(2,4) [OF mid] by blast
  have pi: "pages_inv p" using I by blast
  obtain k p' where p': "thread_start c name prio f arg p = Inr (kernel_page (mm p) k, p')"
    "thread_born c name prio f arg k p p'" "pages_inv p'"
    using thread_start_runs [OF pi rn sched_midD(7) [OF mid] assms(2-4)] by blast
  let ?t = "kernel_page (mm p) k"
  have T: "page_aligned ?t" "\<not> live (mm p) ?t" "born ?t (born_task ?t name prio (next_pid (mm p) + 1)) (mm p) (mm p')"
    "tstacks p' (?t + 3664) = first_frame c f arg (unused_retaddr (tstacks p (?t + 3664)))"
    using p'(2) by (simp_all add: thread_born_def Let_def)
  note B = T(3) [unfolded born_def]
  have inv: "proc_inv p'" using thread_born_sched [OF _ p'(2)] I p'(3) by (simp add: proc_inv_iff)
  have "next_pid (mm p') = of_nat (length (task_list (mm p')))" using p'(3) by (simp add: pages_inv_def pcbs_ok_def)
  then have n: "next_pid (mm p) + 1 = of_nat (length (task_list (mm p')))" using B by simp
  have sw: "switch_in ?t p' = \<lparr>e_ebp = 0, e_ebx = 0, e_edi = 0, e_esi = 0, e_eip = kernel_thread_at c, e_esp = ?t + 3664 + 20, e_args = (f, arg)\<rparr>"
    using B T(4) by (simp add: switch_in_def born_task_def first_frame_def Let_def)
  have "unat ?t = 4096 * page_of ?t" using T(1) mult_div_mod_eq [of 4096 "unat ?t"] by (simp add: page_of_def aligned_unat)
  moreover have "page_of ?t < 1048576" using unat_u32_less [of ?t] by (simp add: page_of_def)
  ultimately have "unat ?t + 4096 \<le> 4294967296" by simp
  then have "unat (?t + 3684) = unat ?t + 3684" by (subst unat_add_u32) simp_all
  moreover have "?t + 3664 + 20 = ?t + 3684" by simp
  ultimately have "unat (e_esp (switch_in ?t p')) = unat ?t + 3684" unfolding sw entry.simps by metis
  then have "unat ?t + 272 \<le> unat (e_esp (switch_in ?t p'))" "unat (e_esp (switch_in ?t p')) + 12 + 304 \<le> unat ?t + 4096"
    by linarith+
  moreover have "e_eip (switch_in ?t p') = kernel_thread_at c" "e_args (switch_in ?t p') = (f, arg)" by (simp_all add: sw)
  ultimately show ?thesis
    using p'(1) inv T(2) B n task_list_born [OF T(3)]
    by (intro exI [of _ ?t] exI [of _ p']) (simp add: born_task_def new_task_def)
qed

lemma thread_start_spec_witness:
  "\<exists>p t p'. thread_init demo_code demo_boot = Inr p \<and> thread_start demo_code [0x61] 31 0xc0002000 5 p = Inr (t, p')
     \<and> proc_inv p' \<and> e_args (switch_in t p') = (0xc0002000, 5)"
proof -
  obtain k p where p: "thread_init demo_code demo_boot = Inr p" "proc_inv p" "room 1 2 (mm p)"
    using thread_init_runs [OF demo_booted, of demo_code] by auto
  have z: "0 < (2 :: nat)" "length [0x61 :: u8] < 16" by simp_all
  from thread_start_spec [OF p(2,3) z, of demo_code 31 "0xc0002000" 5] show ?thesis using p(1) by blast
qed

end
