(* ===== verification/Process.thy ===== *)
theory Process
  imports Tasks Stdio Descriptors Sectors
begin

text \<open>
  The creation of processes (userprog/process.c), on the state of theory Tasks. The table \<open>ptab\<close> is the
  window on the directory in use: its kernel half is the same in every directory, its user half is that
  of the running task.
\<close>

section \<open>Processes\<close>

definition USER_STACK3_VADDR :: addr where "USER_STACK3_VADDR = 0xc0000000 - 0x1000"
definition USER_VADDR_START :: addr where "USER_VADDR_START = 0x8048000"
definition default_prio :: u32 where "default_prio = 31"
definition EFLAGS_MBS :: u32 where "EFLAGS_MBS = push_bit 1 1"
definition EFLAGS_IF_1 :: u32 where "EFLAGS_IF_1 = push_bit 9 1"
definition EFLAGS_IOPL_0 :: u32 where "EFLAGS_IOPL_0 = push_bit 12 0"

text \<open>Memory as memcpy reads it: from 0xffc00000 on lie the page tables.\<close>

definition view :: "memory \<Rightarrow> mem" where
  "view m a = (if 0xffc00000 \<le> a then ucast (drop_bit (8 * unat (a mod 4)) (ptab m (a - a mod 4))) else bytes m a)"

definition put_word :: "mem \<Rightarrow> addr \<Rightarrow> u32 \<Rightarrow> mem" where
  "put_word b a w = poke b a (le32_bytes w)"

text \<open>A destination in the page tables would change ptab: it is not one.\<close>

definition memcpy_from_tables :: "addr \<Rightarrow> addr \<Rightarrow> u32 \<Rightarrow> memory \<Rightarrow> memory res" where
  "memcpy_from_tables dst src sz m =
     (if \<not> unat dst + unat sz \<le> 0xffc00000 then Inl (Bad_access ''memcpy'')
      else bindR (memcpy (view m) dst src sz) (\<lambda>v. Inr (m\<lparr>bytes := (\<lambda>a. if 0xffc00000 \<le> a then bytes m a else v a)\<rparr>)))"

definition create_page_dir :: "memory \<Rightarrow> (addr \<times> memory) res" where
  "create_page_dir m =
     bindR (get_kernel_pages 1 m) (\<lambda>(page_dir_vaddr, m).
       if page_dir_vaddr = NULL then Inr (NULL, m)
       else bindR (memcpy_from_tables (page_dir_vaddr + 0x300 * 4) (0xfffff000 + 0x300 * 4) 1024 m) (\<lambda>m.
         let new_page_dir_phy_addr = addr_v2p (ptab m) page_dir_vaddr
         in Inr (page_dir_vaddr, m\<lparr>bytes := put_word (bytes m) (page_dir_vaddr + 4 * 1023)
              (new_page_dir_phy_addr OR PG_US_U OR PG_RW_W OR PG_P_1)\<rparr>)))"

definition create_user_vaddr_bitmap :: "addr \<Rightarrow> memory \<Rightarrow> memory res" where
  "create_user_vaddr_bitmap user_prog m =
     (let bytes_len = (0xc0000000 - USER_VADDR_START) div PG_SIZE div 8;
          bitmap_pg_cnt = DIV_ROUND_UP bytes_len PG_SIZE
      in bindR (get_kernel_pages bitmap_pg_cnt m) (\<lambda>(bits, m).
        if bits = NULL then Inl (Bad_access ''btmp_bits'')
        else bindR (bitmap_init (bitmap_on (bytes m) bits bytes_len)) (\<lambda>bm.
          Inr (m\<lparr>userprog_vaddr := (userprog_vaddr m)(user_prog := \<lparr>vaddr_bitmap = bm, vaddr_start = USER_VADDR_START\<rparr>)\<rparr>))))"

definition process_execute :: "code \<Rightarrow> addr \<Rightarrow> u8 list \<Rightarrow> procs \<Rightarrow> procs res" where
  "process_execute c filename name p =
     bindR (get_kernel_pages 1 (mm p)) (\<lambda>(thread, m).
     bindR (init_thread thread name default_prio (p\<lparr>mm := m\<rparr>)) (\<lambda>p.
     bindR (on_mm (create_user_vaddr_bitmap thread) p) (\<lambda>p.
     let p = thread_create c thread (start_process_at c) filename p in
     bindR (create_page_dir (mm p)) (\<lambda>(dir, m).
     let p = upd_pcb (pgdir_update (\<lambda>_. dir)) thread (p\<lparr>mm := m\<rparr>);
         p = p\<lparr>mm := (mm p)\<lparr>u_block_desc := (u_block_desc (mm p))(thread := block_init)\<rparr>\<rparr>;
         old_status = intr (mm p);
         p = p\<lparr>mm := (mm p)\<lparr>intr := snd (intr_disable (intr (mm p)))\<rparr>\<rparr>
     in bindR (on_mm (enlist thread) p) (\<lambda>p. Inr (p\<lparr>mm := set_intr old_status (mm p)\<rparr>))))))"

text \<open>start_process, run by the new process itself; the address of the frame is what esp is set to before
  the jump to intr_exit.\<close>

definition start_process :: "addr \<Rightarrow> procs \<Rightarrow> (addr \<times> procs) res" where
  "start_process filename p =
     (let cur = running_thread (mm p);
          p = upd_pcb (\<lambda>t. t\<lparr>self_kstack := self_kstack t + 4 * sizeof_thread_stack\<rparr>) cur p;
          proc_stack = self_kstack (tasks (mm p) cur);
          f = (istacks p proc_stack)\<lparr>is_edi := 0, is_esi := 0, is_ebp := 0, esp_dummy := 0, is_ebx := 0, is_edx := 0,
            is_ecx := 0, is_eax := 0, is_gs := 0, is_ds := SELECTOR_U_DATA, is_es := SELECTOR_U_DATA,
            is_fs := SELECTOR_U_DATA, is_eip := filename, is_cs := SELECTOR_U_CODE,
            is_eflags := EFLAGS_IOPL_0 OR EFLAGS_MBS OR EFLAGS_IF_1\<rparr>
      in bindR (get_a_page PF_USER USER_STACK3_VADDR (mm p)) (\<lambda>(va, m).
           Inr (proc_stack, p\<lparr>mm := m, istacks := (istacks p)(proc_stack :=
             f\<lparr>is_esp := va + PG_SIZE, is_ss := SELECTOR_U_DATA\<rparr>)\<rparr>)))"

section \<open>Words in memory\<close>

lemma mem_word_bytes:
  assumes "\<And>k. k < 4 \<Longrightarrow> f (w + of_nat k) = le32_bytes W ! k"
  shows "mem_word f w = W"
proof -
  have "mem_word f w = le32 (le32_bytes W) 0"
    using assms [of 0] assms [of 1] assms [of 2] assms [of 3]
    by (simp add: mem_word_def le32_def numeral_2_eq_2 numeral_3_eq_3)
  then show ?thesis by (simp add: le32_le32_bytes)
qed

lemma le32_bytes_nth: "k < 4 \<Longrightarrow> le32_bytes W ! k = ucast (drop_bit (8 * k) W)"
proof -
  assume "k < 4"
  then have "k = 0 \<or> k = 1 \<or> k = 2 \<or> k = 3" by linarith
  then show ?thesis by (auto simp: le32_bytes_def numeral_3_eq_3 numeral_2_eq_2)
qed

lemma table_word_facts:
  assumes "j < 1024"
  defines "w \<equiv> (0xfffff000 :: addr) + 4 * of_nat j"
  shows "unat w = 4294963200 + 4 * j" "w = pde_ptr (of_nat (j * 4194304))"
proof -
  have u: "unat (4 * of_nat j :: addr) = 4 * j" using assms(1) by (subst unat_mult_u32) (simp_all add: unat_of_nat_u32)
  show w: "unat w = 4294963200 + 4 * j" unfolding w_def using assms(1) u by (subst unat_add_u32) simp_all
  have v: "unat (of_nat (j * 4194304) :: addr) = j * 4194304" using assms(1) by (intro unat_of_nat_u32) simp
  have "unat (pde_ptr (of_nat (j * 4194304))) = 4294963200 + 4 * j" unfolding pde_ptr_eq v by simp
  then show "w = pde_ptr (of_nat (j * 4194304))" using w by (simp only: u32_eq_iff)
qed

lemma view_table:
  assumes j: "j < 1024" and k: "k < 4"
  shows "view m (0xfffff000 + of_nat (4 * j + k)) = le32_bytes (ptab m (0xfffff000 + 4 * of_nat j)) ! k"
proof -
  let ?w = "0xfffff000 + 4 * of_nat j :: addr" and ?a = "0xfffff000 + of_nat (4 * j + k) :: addr"
  note w = table_word_facts(1) [OF j]
  have aw: "?a = ?w + of_nat k" by (simp add: add.assoc)
  have uk: "unat (of_nat k :: addr) = k" using k by (intro unat_of_nat_u32) simp
  have a: "unat ?a = 4294963200 + 4 * j + k" unfolding aw using w uk j k by (subst unat_add_u32) simp_all
  have "(4294963200 + 4 * j + k) mod 4 = k" using k by presburger
  then have m: "unat (?a mod 4) = k" using a by (simp add: unat_mod)
  then have "?a mod 4 = of_nat k" using uk by (simp only: u32_eq_iff)
  then have b: "?a - ?a mod 4 = ?w" using aw by simp
  have "0xffc00000 \<le> ?a" using a by (simp add: word_le_nat_alt)
  then have "view m ?a = ucast (drop_bit (8 * k) (ptab m ?w))" unfolding view_def b m by simp
  then show ?thesis using le32_bytes_nth [OF k] by metis
qed

section \<open>create_page_dir\<close>

definition dir_entry :: "memory \<Rightarrow> addr \<Rightarrow> nat \<Rightarrow> u32" where
  "dir_entry m dir j = mem_word (bytes m) (dir + of_nat (4 * j))"

text \<open>What the new directory has to hold: nothing below 3 GB, the kernel's entries of the directory in use above, itself last.\<close>

definition dir_spec :: "ptab \<Rightarrow> addr \<Rightarrow> nat \<Rightarrow> u32" where
  "dir_spec pt phys j = (if j < 768 then 0 else if j < 1023 then pt (0xfffff000 + 4 * of_nat j) else phys OR 7)"

lemma of_nat_add4: "d + of_nat (4 * j) + of_nat k = d + (of_nat (4 * j + k) :: addr)"
  by (simp add: add.assoc)

lemma dir_words:
  fixes W :: u32
  assumes d: "unat d + 4096 \<le> 4290772992" "d \<noteq> NULL"
    and z0: "\<forall>i < 4096. bytes m (d + of_nat i) = 0"
    and c: "memcpy_from_tables (d + 0x300 * 4) (0xfffff000 + 0x300 * 4) 1024 m = Inr m1"
  defines "b \<equiv> put_word (bytes m1) (d + 4 * 1023) W"
  shows "j < 1024 \<Longrightarrow> mem_word b (d + of_nat (4 * j)) = (if j < 768 then 0 else if j < 1023 then ptab m (0xfffff000 + 4 * of_nat j) else W)"
    "\<And>a. a \<notin> region d 4096 \<Longrightarrow> b a = bytes m a" "m1 = m\<lparr>bytes := bytes m1\<rparr>"
proof -
  have z: "bytes m (d + of_nat i) = 0" if "i < 4096" for i using z0 that by blast
  have src: "(0xfffff000 + 0x300 * 4 :: addr) = 0xfffffc00" by simp
  have dst: "d + 0x300 * 4 = d + of_nat 3072" by simp
  let ?dst = "d + of_nat 3072"
  have ud: "unat (d + of_nat i) = unat d + i" if "i < 4096" for i
    using d(1) that by (subst unat_add_u32) (simp_all add: unat_of_nat_u32)
  have dn: "?dst \<noteq> NULL"
  proof
    assume "?dst = NULL"
    then have "unat ?dst = 0" by simp
    then show False using ud [of 3072] by simp
  qed
  have "unat ?dst + unat (1024 :: u32) \<le> 0xffc00000" using ud [of 3072] d(1) by simp
  then have m1: "m1 = m\<lparr>bytes := (\<lambda>a. if 0xffc00000 \<le> a then bytes m a else memcpy_loop (view m) ?dst 0xfffffc00 1024 a)\<rparr>"
    using c dn unfolding memcpy_from_tables_def src dst memcpy_def by (simp split: if_splits del: of_nat_numeral)
  then show "m1 = m\<lparr>bytes := bytes m1\<rparr>" by simp
  have disj: "?dst + of_nat i \<noteq> 0xfffffc00 + of_nat j" if "i < j" "j < 1024" for i j
  proof
    assume e: "?dst + of_nat i = 0xfffffc00 + of_nat j"
    have e2: "?dst + of_nat i = d + of_nat (3072 + i)" by (simp add: add.assoc)
    have "unat (?dst + of_nat i) = unat d + (3072 + i)" unfolding e2 using that by (intro ud) simp
    moreover have "unat (0xfffffc00 + of_nat j :: addr) = 4294966272 + j" using that by (subst unat_add_u32) (simp_all add: unat_of_nat_u32)
    ultimately have "unat d + (3072 + i) = 4294966272 + j" unfolding e by simp
    then show False using d(1) that by simp
  qed
  have low: "\<not> 0xffc00000 \<le> d + of_nat i" if "i < 4096" for i
    using ud [OF that] d(1) that by (simp add: word_le_nat_alt)
  have hi: "bytes m1 (d + of_nat (3072 + i)) = view m (0xfffffc00 + of_nat i)" if "i < 1024" for i
  proof -
    have e: "d + of_nat (3072 + i) = ?dst + of_nat i" by (simp add: add.assoc)
    have "3072 + i < 4096" using that by simp
    from low [OF this] have "\<not> 0xffc00000 \<le> ?dst + of_nat i" unfolding e .
    moreover have "memcpy_loop (view m) ?dst 0xfffffc00 1024 (?dst + of_nat i) = view m (0xfffffc00 + of_nat i)"
      using disj that by (intro memcpy_loop_copies) simp_all
    ultimately show ?thesis unfolding m1 e by simp
  qed
  have off: "d + of_nat i \<notin> region ?dst 1024" if "i < 3072" for i
  proof
    assume "d + of_nat i \<in> region ?dst 1024"
    then obtain l where l: "l < 1024" "d + of_nat i = ?dst + of_nat l" by (auto simp: region_def)
    then have "unat (d + of_nat i) = unat (d + of_nat (3072 + l))" by (simp add: add.assoc)
    then show False using ud [of i] ud [of "3072 + l"] l(1) that by simp
  qed
  have lo: "bytes m1 (d + of_nat i) = 0" if "i < 3072" for i
    using z [of i] that low [of i] memcpy_loop_outside [OF off [OF that], of "view m" "0xfffffc00"] unfolding m1 by (simp add: view_def)
  have last: "d + 4 * 1023 = d + of_nat 4092" by simp
  have bl: "b (d + of_nat (4092 + k)) = le32_bytes W ! k" if "k < 4" for k
    unfolding b_def put_word_def last using poke_inside [of k "le32_bytes W" "bytes m1" "d + of_nat 4092"] that
    by (simp add: add.assoc)
  have out: "d + of_nat i \<notin> region (d + of_nat 4092) 4" if "i < 4092" for i
  proof
    assume "d + of_nat i \<in> region (d + of_nat 4092) 4"
    then obtain l where l: "l < 4" "d + of_nat i = d + of_nat 4092 + of_nat l" by (auto simp: region_def)
    then have "unat (d + of_nat i) = unat (d + of_nat (4092 + l))" by (simp add: add.assoc)
    then show False using ud [of i] ud [of "4092 + l"] l(1) that by simp
  qed
  have bo: "b (d + of_nat i) = bytes m1 (d + of_nat i)" if "i < 4092" for i
    unfolding b_def put_word_def last using out [OF that] by (intro poke_outside) simp
  show "mem_word b (d + of_nat (4 * j)) = (if j < 768 then 0 else if j < 1023 then ptab m (0xfffff000 + 4 * of_nat j) else W)" if j: "j < 1024"
  proof (rule mem_word_bytes)
    fix k :: nat assume k: "k < 4"
    consider "j < 768" | "768 \<le> j" "j < 1023" | "j = 1023" using j by linarith
    then show "b (d + of_nat (4 * j) + of_nat k) = le32_bytes (if j < 768 then 0 else if j < 1023 then ptab m (0xfffff000 + 4 * of_nat j) else W) ! k"
    proof cases
      case 1
      then have "b (d + of_nat (4 * j + k)) = 0" using k bo [of "4 * j + k"] lo [of "4 * j + k"] by simp
      then show ?thesis using 1 le32_bytes_nth [OF k, of 0] unfolding of_nat_add4 by simp
    next
      case 2
      have "4 * j + k = 3072 + (4 * (j - 768) + k)" using 2 by simp
      then have "b (d + of_nat (4 * j + k)) = view m (0xfffffc00 + of_nat (4 * (j - 768) + k))"
        using 2 k bo [of "4 * j + k"] hi [of "4 * (j - 768) + k"] by simp
      moreover have "(0xfffffc00 :: addr) + of_nat (4 * (j - 768) + k) = 0xfffff000 + of_nat (4 * j + k)"
      proof -
        have "(of_nat (4 * j + k) :: addr) = of_nat 3072 + of_nat (4 * (j - 768) + k)"
          unfolding of_nat_add [symmetric] using 2 by simp
        then show ?thesis by simp
      qed
      ultimately show ?thesis using view_table [of j k m] 2 k unfolding of_nat_add4 by simp
    next
      case 3
      then have "4 * j + k = 4092 + k" by simp
      then show ?thesis using bl [OF k] 3 unfolding of_nat_add4 by simp
    qed
  qed
  show "b a = bytes m a" if "a \<notin> region d 4096" for a
  proof -
    have "region d 4096 = region d 3072 \<union> region ?dst 1024" using region_append [of d 3072 1024] by simp
    then have a: "a \<notin> region ?dst 1024" using that by blast
    have "region d 4096 = region d 4092 \<union> region (d + of_nat 4092) 4" using region_append [of d 4092 4] by simp
    then have "a \<notin> region (d + of_nat 4092) 4" using that by blast
    then have "b a = bytes m1 a" unfolding b_def put_word_def last by (intro poke_outside) simp
    then show ?thesis using memcpy_loop_outside [OF a, of "view m" "0xfffffc00"] unfolding m1 by (simp add: view_def)
  qed
qed

text \<open>m' has more pages than m; the tasks, the lists and the running task are the same.\<close>

definition grown :: "memory \<Rightarrow> memory \<Rightarrow> bool" where
  "grown m m' \<longleftrightarrow> space_ok PF_KERNEL m' \<and> kernel_page m' = kernel_page m \<and> vpages PF_KERNEL m' = vpages PF_KERNEL m
     \<and> vaddr_start (kernel_vaddr m') = vaddr_start (kernel_vaddr m) \<and> (\<forall>i. page_taken m i \<longrightarrow> page_taken m' i)
     \<and> (\<forall>w. ptab m' (pde_ptr w) = ptab m (pde_ptr w)) \<and> tasks m' = tasks m \<and> thread_ready_list m' = thread_ready_list m
     \<and> thread_all_list m' = thread_all_list m \<and> running_thread m' = running_thread m \<and> idle_thread m' = idle_thread m
     \<and> main_thread m' = main_thread m \<and> intr m' = intr m \<and> next_pid m' = next_pid m"

lemma grown_trans: "grown a b \<Longrightarrow> grown b d \<Longrightarrow> grown a d"
  by (simp add: grown_def)

lemma got_grown:
  assumes "got_pages m k j m'"
  shows "grown m m'"
proof -
  note G = got_pagesD [OF assms]
  show ?thesis unfolding grown_def using G(1-9,12-14) by (simp add: G(16,17))
qed

lemma grown_bytes: "grown m m' \<Longrightarrow> grown m (m'\<lparr>bytes := b\<rparr>)" "grown m m' \<Longrightarrow> grown m (m'\<lparr>userprog_vaddr := u\<rparr>)"
proof -
  have s: "same_space m' (m'\<lparr>bytes := b\<rparr>)" "same_space m' (m'\<lparr>userprog_vaddr := u\<rparr>)" by (simp_all add: same_space_def)
  note S = same_spaceD [OF s(1)] same_spaceD [OF s(2)]
  show "grown m m' \<Longrightarrow> grown m (m'\<lparr>bytes := b\<rparr>)" "grown m m' \<Longrightarrow> grown m (m'\<lparr>userprog_vaddr := u\<rparr>)"
    unfolding grown_def S by simp_all
qed

lemma room_bytes: "room r n (m\<lparr>bytes := b\<rparr>) = room r n m" "room r n (m\<lparr>userprog_vaddr := u\<rparr>) = room r n m"
  by (rule same_spaceD, simp add: same_space_def)+

lemma create_page_dir_runs:
  assumes ok: "space_ok PF_KERNEL m" and rm: "room r n m" "0 < n"
  shows "\<exists>k m'. create_page_dir m = Inr (kernel_page m k, m') \<and> grown m m' \<and> room (r + 1) (n - 1) m'
     \<and> k < vpages PF_KERNEL m \<and> \<not> page_taken m k \<and> u_block_desc m' = u_block_desc m \<and> userprog_vaddr m' = userprog_vaddr m
     \<and> page_aligned (addr_v2p (ptab m') (kernel_page m k))
     \<and> (\<forall>j < 1024. dir_entry m' (kernel_page m k) j = dir_spec (ptab m) (addr_v2p (ptab m') (kernel_page m k)) j)"
proof -
  obtain k m1 where k: "get_kernel_pages 1 m = Inr (kernel_page m k, m1)" "got_pages m k 1 m1"
    "room (r + 1) (n - 1) m1" "k + 1 \<le> vpages PF_KERNEL m"
    using get_kernel_pages_room [of m r n 1] ok rm by auto
  let ?d = "kernel_page m k"
  note G = got_pagesD [OF k(2)]
  have kv: "k < vpages PF_KERNEL m" "\<not> page_taken m k"
    using k(4) G(15) by (auto simp: page_taken_def vfree_run_def)
  note F = kernel_page_facts [OF ok kv(1)]
  have z: "\<forall>i < 4096. bytes m1 (?d + of_nat i) = 0"
    using G(19) region_memI [of _ 4096 ?d] by simp
  have ud: "unat (?d + 0x300 * 4) = unat ?d + 3072" using F(5) by (subst unat_add_u32) simp_all
  have dn: "?d + 0x300 * 4 \<noteq> NULL"
  proof
    assume "?d + 0x300 * 4 = NULL"
    then show False using ud by simp
  qed
  have "\<exists>m2. memcpy_from_tables (?d + 0x300 * 4) (0xfffff000 + 0x300 * 4) 1024 m1 = Inr m2"
    using F(5) ud dn by (simp add: memcpy_from_tables_def memcpy_def)
  then obtain m2 where m2: "memcpy_from_tables (?d + 0x300 * 4) (0xfffff000 + 0x300 * 4) 1024 m1 = Inr m2" by blast
  let ?phys = "addr_v2p (ptab m2) ?d"
  let ?W = "?phys OR PG_US_U OR PG_RW_W OR PG_P_1"
  let ?b = "put_word (bytes m2) (?d + 4 * 1023) ?W"
  note D = dir_words [OF F(5,2) z m2]
  have run: "create_page_dir m = Inr (?d, m2\<lparr>bytes := ?b\<rparr>)"
    unfolding create_page_dir_def k(1) bindR_simps case_prod_conv using F(2) m2 by (simp add: Let_def)
  have m2b: "m2\<lparr>bytes := ?b\<rparr> = m1\<lparr>bytes := ?b\<rparr>" using arg_cong [OF D(3), of "\<lambda>m. m\<lparr>bytes := ?b\<rparr>"] by simp
  have pt: "ptab m2 = ptab m1" using arg_cong [OF D(3), of ptab] by simp
  have phys: "page_aligned (addr_v2p (ptab m1) ?d)" using G(18) [of 0] by simp
  have W: "?W = addr_v2p (ptab m1) ?d OR 7"
    by (simp add: pt PG_US_U_def PG_RW_W_def PG_P_1_def or.assoc)
  have ent: "dir_entry (m1\<lparr>bytes := ?b\<rparr>) ?d j = dir_spec (ptab m) (addr_v2p (ptab m1) ?d) j" if j: "j < 1024" for j
  proof -
    have "ptab m1 (0xfffff000 + 4 * of_nat j) = ptab m (0xfffff000 + 4 * of_nat j)"
      using G(17) table_word_facts(2) [OF j] by simp
    then show ?thesis using D(1) [OF j, of ?W] unfolding dir_entry_def dir_spec_def W by simp
  qed
  have "grown m (m1\<lparr>bytes := ?b\<rparr>)" by (rule grown_bytes [OF got_grown [OF k(2)]])
  moreover have "room (r + 1) (n - 1) (m1\<lparr>bytes := ?b\<rparr>)" using k(3) room_bytes by simp
  ultimately show ?thesis using run kv phys ent G(10,11) unfolding m2b
    by (intro exI [of _ k] exI [of _ "m1\<lparr>bytes := ?b\<rparr>"]) simp
qed

text \<open>The bitmap of the 753592 pages from 0x8048000 to 3 GB, on 23 pages of the kernel.\<close>

definition user_space :: virtual_addr where
  "user_space = \<lparr>vaddr_bitmap = \<lparr>btmp_bytes_len = 94199, btmp_bits = replicate 94199 0\<rparr>, vaddr_start = 0x8048000\<rparr>"

lemma create_user_vaddr_bitmap_runs:
  assumes ok: "space_ok PF_KERNEL m" and rm: "room r n m" "23 \<le> n"
  shows "\<exists>m'. create_user_vaddr_bitmap t m = Inr m' \<and> grown m m' \<and> room (r + 23) (n - 23) m'
     \<and> u_block_desc m' = u_block_desc m \<and> userprog_vaddr m' = (userprog_vaddr m)(t := user_space)"
proof -
  obtain k m1 where k: "get_kernel_pages (of_nat 23) m = Inr (kernel_page m k, m1)" "got_pages m k 23 m1"
    "room (r + 23) (n - 23) m1" "k + 23 \<le> vpages PF_KERNEL m"
    using get_kernel_pages_room [OF ok rm(1) _ rm(2)] by auto
  note G = got_pagesD [OF k(2)]
  have "kernel_page m k \<noteq> NULL" using kernel_page_facts(2) [OF ok] k(4) by simp
  moreover have l: "(0xc0000000 - USER_VADDR_START) div PG_SIZE div 8 = 94199" "DIV_ROUND_UP 94199 PG_SIZE = 23"
    by (simp_all add: USER_VADDR_START_def PG_SIZE_def DIV_ROUND_UP_def)
  ultimately have "create_user_vaddr_bitmap t m = Inr (m1\<lparr>userprog_vaddr := (userprog_vaddr m1)(t := user_space)\<rparr>)"
    using k(1) unfolding create_user_vaddr_bitmap_def l Let_def
    by (simp add: bitmap_init_on user_space_def USER_VADDR_START_def)
  then show ?thesis using grown_bytes(2) [OF got_grown [OF k(2)]] k(3) room_bytes(2) G(10,11) by auto
qed

section \<open>process_execute\<close>

definition process_born :: "code \<Rightarrow> addr \<Rightarrow> u8 list \<Rightarrow> nat \<Rightarrow> nat \<Rightarrow> procs \<Rightarrow> procs \<Rightarrow> bool" where
  "process_born c filename name k kd p p' \<longleftrightarrow> (let t = kernel_page (mm p) k; dir = kernel_page (mm p) kd in
     page_aligned t \<and> t \<noteq> NULL \<and> \<not> live (mm p) t \<and> page_aligned dir \<and> dir \<noteq> NULL \<and> dir \<noteq> t
     \<and> born t ((born_task t name default_prio (next_pid (mm p) + 1))\<lparr>pgdir := dir\<rparr>) (mm p) (mm p') \<and> intr (mm p') = intr (mm p)
     \<and> userprog_vaddr (mm p') t = user_space \<and> u_block_desc (mm p') t = block_init
     \<and> page_aligned (addr_v2p (ptab (mm p')) dir)
     \<and> (\<forall>j < 1024. dir_entry (mm p') dir j = dir_spec (ptab (mm p)) (addr_v2p (ptab (mm p')) dir) j)
     \<and> tstacks p' (t + 3664) = first_frame c (start_process_at c) filename (unused_retaddr (tstacks p (t + 3664))))"

lemma dir_spec_cong: "(\<And>w. pt (pde_ptr w) = pt' (pde_ptr w)) \<Longrightarrow> j < 1024 \<Longrightarrow> dir_spec pt a j = dir_spec pt' a j"
  using table_word_facts(2) [of j] by (simp add: dir_spec_def)

lemma upd_task_space: "same_space m (upd_task f t m)"
  by (simp add: same_space_def upd_task_def)

lemma process_execute_runs:
  assumes inv: "proc_inv p" and rm: "room r n (mm p)" "25 \<le> n" and nm: "length name < 16"
  shows "\<exists>k kd p'. process_execute c filename name p = Inr p' \<and> process_born c filename name k kd p p'
     \<and> pages_inv p' \<and> room (r + 25) (n - 25) (mm p')"
proof -
  let ?m0 = "mm p"
  note I = inv [unfolded proc_inv_iff pages_inv_def]
  have mid: "sched_mid ?m0" using I by (simp add: sched_inv_def)
  have rn: "running_thread ?m0 \<noteq> NULL" using sched_midD(2,4) [OF mid] by blast
  obtain k m1 where k: "get_kernel_pages 1 ?m0 = Inr (kernel_page ?m0 k, m1)" "got_pages ?m0 k 1 m1"
    "room (r + 1) (n - 1) m1" "k + 1 \<le> vpages PF_KERNEL ?m0"
    using get_kernel_pages_room [of ?m0 r n 1] I rm by auto
  let ?t = "kernel_page ?m0 k"
  note G1 = got_grown [OF k(2), unfolded grown_def]
  have kv: "k < vpages PF_KERNEL ?m0" "\<not> page_taken ?m0 k"
    using k(4) got_pagesD(15) [OF k(2)] by (auto simp: page_taken_def vfree_run_def)
  have t: "page_aligned ?t" "?t \<noteq> NULL" using kernel_page_facts [OF _ kv(1)] I by blast+
  have fresh: "\<not> live ?m0 ?t" "?t \<noteq> main_thread ?m0" using fresh_page [of ?m0 k] I kv by blast+
  have kt: "page_taken m1 k" using got_pagesD(16) [OF k(2), of k] by simp
  \<comment> \<open>init_thread\<close>
  let ?T = "new_task ?t name default_prio (next_pid ?m0 + 1) TASK_READY"
  let ?m2 = "with_task ?t ?T m1"
  have i: "init_thread ?t name default_prio (p\<lparr>mm := m1\<rparr>) = Inr (p\<lparr>mm := ?m2\<rparr>)"
    using init_thread_eq [of ?t name "p\<lparr>mm := m1\<rparr>" default_prio] t(2) fresh(2) nm I rn G1 by simp
  have s2: "same_space m1 ?m2" by (simp add: same_space_def with_task_def)
  note S2 = same_spaceD [OF s2]
  \<comment> \<open>create_user_vaddr_bitmap\<close>
  have ok2: "space_ok PF_KERNEL ?m2" using S2(1) G1 by blast
  have rm2: "room (r + 1) (n - 1) ?m2" using S2(4) k(3) by blast
  have n23: "23 \<le> n - 1" using rm(2) by simp
  obtain m3 where m3: "create_user_vaddr_bitmap ?t ?m2 = Inr m3" "grown ?m2 m3" "room (r + 1 + 23) (n - 1 - 23) m3"
    "u_block_desc m3 = u_block_desc ?m2" "userprog_vaddr m3 = (userprog_vaddr ?m2)(?t := user_space)"
    using create_user_vaddr_bitmap_runs [OF ok2 rm2 n23] by blast
  note G3 = m3(2) [unfolded grown_def]
  have o3: "on_mm (create_user_vaddr_bitmap ?t) (p\<lparr>mm := ?m2\<rparr>) = Inr (p\<lparr>mm := m3\<rparr>)" using m3(1) by (simp add: on_mm_def)
  \<comment> \<open>thread_create\<close>
  let ?m4 = "upd_task (self_kstack_update (\<lambda>_. ?t + 3664)) ?t m3"
  let ?st = "(tstacks p)(?t + 3664 := first_frame c (start_process_at c) filename (unused_retaddr (tstacks p (?t + 3664))))"
  have "self_kstack (tasks (mm (p\<lparr>mm := m3\<rparr>)) ?t) = ?t + PG_SIZE" using G3 by (simp add: new_task_def)
  from thread_create_eq [OF this, of c "start_process_at c" filename]
  have tc: "thread_create c ?t (start_process_at c) filename (p\<lparr>mm := m3\<rparr>) = p\<lparr>mm := ?m4, tstacks := ?st\<rparr>"
    by (simp add: first_frame_def)
  note s4 = upd_task_space [of m3 "self_kstack_update (\<lambda>_. ?t + 3664)" ?t]
  note S4 = same_spaceD [OF s4]
  \<comment> \<open>create_page_dir\<close>
  have ok4: "space_ok PF_KERNEL ?m4" using S4(1) G3 by blast
  have rm4: "room (r + 1 + 23) (n - 1 - 23) ?m4" using S4(4) m3(3) by blast
  have n1: "0 < n - 1 - 23" using rm(2) by simp
  obtain kd m5 where m5: "create_page_dir ?m4 = Inr (kernel_page ?m4 kd, m5)" "grown ?m4 m5"
    "room (r + 1 + 23 + 1) (n - 1 - 23 - 1) m5" "kd < vpages PF_KERNEL ?m4" "\<not> page_taken ?m4 kd"
    "u_block_desc m5 = u_block_desc ?m4" "userprog_vaddr m5 = userprog_vaddr ?m4"
    "page_aligned (addr_v2p (ptab m5) (kernel_page ?m4 kd))"
    "\<forall>j < 1024. dir_entry m5 (kernel_page ?m4 kd) j = dir_spec (ptab ?m4) (addr_v2p (ptab m5) (kernel_page ?m4 kd)) j"
    using create_page_dir_runs [OF ok4 rm4 n1] by blast
  note G5 = m5(2) [unfolded grown_def]
  have kp: "kernel_page ?m4 = kernel_page ?m0" "kernel_page m5 = kernel_page ?m0" using S4(3) G3 S2(3) G1 G5 by simp_all
  let ?dir = "kernel_page ?m0 kd"
  have taken: "page_taken ?m0 j \<Longrightarrow> page_taken m5 j" "page_taken ?m4 k" "page_taken m5 k" for j
    using G1 S2(2) G3 S4(2) G5 kt by auto
  have dn: "page_aligned ?dir" "?dir \<noteq> NULL" using kernel_page_facts(1,2) [OF ok4 m5(4)] kp by simp_all
  have kdk: "?dir \<noteq> ?t"
  proof
    assume "?dir = ?t"
    moreover have kv4: "k < vpages PF_KERNEL ?m4" using taken(2) by (simp add: page_taken_def)
    ultimately have "kd = k" using kernel_page_facts(3) [OF ok4 m5(4) kv4, unfolded kp] by blast
    then show False using taken(2) m5(5) by simp
  qed
  have pde: "ptab ?m4 (pde_ptr w) = ptab ?m0 (pde_ptr w)" for w using G1 G3 by (simp add: with_task_def)
  \<comment> \<open>the two lists\<close>
  let ?T' = "(born_task ?t name default_prio (next_pid ?m0 + 1))\<lparr>pgdir := ?dir\<rparr>"
  let ?m6 = "(upd_task (pgdir_update (\<lambda>_. ?dir)) ?t m5)\<lparr>u_block_desc := (u_block_desc m5)(?t := block_init)\<rparr>"
  let ?m7 = "?m6\<lparr>intr := INTR_OFF, thread_ready_list := thread_ready_list ?m0 @ [general_tag ?t], thread_all_list := thread_all_list ?m0 @ [all_list_tag ?t]\<rparr>"
  let ?m8 = "set_intr (intr ?m0) ?m7"
  have nr: "general_tag ?t \<notin> set (thread_ready_list ?m0)" "all_list_tag ?t \<notin> set (thread_all_list ?m0)"
    using sched_midD(7) [OF mid, of "general_tag ?t"] fresh(1) by (auto simp: live_def)
  have n4: "next_pid ?m4 = next_pid m3" by (simp add: upd_task_def)
  have l5: "thread_ready_list m5 = thread_ready_list ?m0" "thread_all_list m5 = thread_all_list ?m0" "intr m5 = intr ?m0"
    "tasks m5 = (tasks ?m0)(?t := ?T\<lparr>self_kstack := ?t + 3664\<rparr>)" "next_pid m5 = next_pid ?m0 + 1"
    "running_thread m5 = running_thread ?m0" "idle_thread m5 = idle_thread ?m0" "main_thread m5 = main_thread ?m0"
    using G5 G3 G1 by (simp_all add: n4)
  let ?p = "p\<lparr>mm := ?m8, tstacks := ?st\<rparr>"
  have ub: "u_block_desc (upd_task f ?t m5) = u_block_desc m5" for f by (simp add: upd_task_def)
  have n5: "next_pid (upd_task f ?t m5) = next_pid m5" for f by (simp add: upd_task_def)
  have mm4: "mm (p\<lparr>mm := ?m4, tstacks := ?st\<rparr>) = ?m4" by simp
  have run: "process_execute c filename name p = Inr ?p"
    unfolding process_execute_def k(1) bindR_simps case_prod_conv i o3 Let_def tc mm4 m5(1)
    using nr l5 ub by (simp add: upd_pcb_def on_mm_def enlist_def enlist_all_def kp)
  have s8: "same_space m5 ?m8" by (simp add: same_space_def set_intr_def upd_task_def)
  note S8 = same_spaceD [OF s8]
  have tk: "tasks ?m8 = (tasks ?m0)(?t := ?T')" using l5 by (simp add: born_task_def)
  have born: "born ?t ?T' ?m0 ?m8" using l5 tk n5 by (simp add: born_def set_intr_def)
  have pcbs: "pcbs_ok ?m8"
  proof (rule born_pcbs [OF _ born fresh(1)])
    show "?t = kernel_page ?m8 k" "kernel_page ?m8 = kernel_page ?m0" using S8(3) kp by simp_all
    show "page_taken ?m8 k" "\<And>i. page_taken ?m0 i \<Longrightarrow> page_taken ?m8 i" using S8(2) taken by simp_all
    show "pid ?T' = next_pid ?m0 + 1" by (simp add: born_task_def new_task_def)
  qed (use I in blast)
  have pt8: "ptab ?m8 = ptab m5" "kernel_vaddr ?m8 = kernel_vaddr m5" using s8 by (simp_all add: same_space_def)
  have vs: "vaddr_start (kernel_vaddr ?m8) = K_HEAP_START"
    using I G1 G3 G5 s2 s4 unfolding pt8(2) by (simp add: same_space_def)
  have pages: "pages_inv ?p" using pcbs S8(1) G5 vs I by (simp add: pages_inv_def)
  have rm8: "room (r + 25) (n - 25) ?m8" using S8(4) m5(3) by (simp add: numeral_eq_Suc)
  have uv: "userprog_vaddr ?m8 ?t = user_space" "u_block_desc ?m8 ?t = block_init" "bytes ?m8 = bytes m5"
    using m5(7) m3(5) by (simp_all add: set_intr_def upd_task_def)
  have de: "\<forall>j < 1024. dir_entry ?m8 ?dir j = dir_spec (ptab ?m0) (addr_v2p (ptab ?m8) ?dir) j"
    using m5(9) dir_spec_cong [of "ptab ?m4" "ptab ?m0", OF pde] unfolding dir_entry_def uv(3) pt8(1) kp by simp
  have "process_born c filename name k kd p ?p"
    unfolding process_born_def Let_def
    using t fresh(1) dn kdk born uv de m5(8) by (simp add: pt8 kp)
  then show ?thesis using run pages rm8 by (intro exI [of _ k] exI [of _ kd] exI [of _ ?p]) simp
qed

section \<open>start_process\<close>

lemma palloc_room:
  assumes ok: "pool_ok q" and i: "i < bm_size (pool_bitmap q)" "\<not> bm_bit (pool_bitmap q) i"
  shows "\<exists>j < bm_size (pool_bitmap q). \<not> bm_bit (pool_bitmap q) j \<and> palloc q = Inr (frame q j, take_page q j)"
proof -
  let ?j = "LEAST j. \<not> bm_bit (pool_bitmap q) j"
  have "\<not> bm_bit (pool_bitmap q) ?j" using i(2) by (rule LeastI)
  moreover have "?j < bm_size (pool_bitmap q)" using Least_le [of "\<lambda>j. \<not> bm_bit (pool_bitmap q) j", OF i(2)] i(1) by simp
  moreover have "\<forall>l < ?j. bm_bit (pool_bitmap q) l" using not_less_Least by blast
  ultimately show ?thesis using palloc_cases [OF ok] by blast
qed

lemma free_page: "0 < free_frames pf m \<Longrightarrow> \<exists>i < bm_size (pool_bitmap (mem_pool pf m)). \<not> bm_bit (pool_bitmap (mem_pool pf m)) i"
  using card_gt_0_iff [of "{i. i < pool_pages pf m \<and> \<not> page_used pf m i}"]
  by (auto simp: free_frames_def pool_pages_def page_used_def)

text \<open>The stack page of a new process, whose directory has no table for it yet.\<close>

lemma stack_page:
  assumes "pools_ok m" and lk: "plock (user_pool m) = lock_init" "running_thread m \<noteq> NULL"
    and pd: "pgdir (tasks m (running_thread m)) \<noteq> NULL" and uv: "userprog_vaddr m (running_thread m) = user_space"
    and fr: "0 < free_frames PF_USER m" "0 < free_frames PF_KERNEL m" and np: "\<not> present (ptab m (pde_ptr USER_STACK3_VADDR))"
  shows "\<exists>m' j. get_a_page PF_USER USER_STACK3_VADDR m = Inr (USER_STACK3_VADDR, m')
     \<and> j < pool_pages PF_USER m \<and> \<not> page_used PF_USER m j \<and> addr_v2p (ptab m') USER_STACK3_VADDR = frame (user_pool m) j
     \<and> present (ptab m' (pde_ptr USER_STACK3_VADDR)) \<and> present (ptab m' (pte_ptr USER_STACK3_VADDR))
     \<and> page_used PF_USER m' j \<and> plock (user_pool m') = lock_init \<and> tasks m' = tasks m \<and> running_thread m' = running_thread m"
proof -
  let ?t = "running_thread m" and ?va = USER_STACK3_VADDR
  define up where "up = (user_pool m)\<lparr>plock := lock_held ?t 1\<rparr>"
  define m1 where "m1 = m\<lparr>user_pool := up\<rparr>"
  have l: "pool_lock PF_USER m = Inr m1"
    using pool_lock_free [of PF_USER m] lk by (simp add: mem_pool_def set_mem_pool_def m1_def up_def)
  have po: "pool_ok (kernel_pool m)" "pool_ok up" using assms(1) by (simp_all add: pools_ok_def pool_ok_def up_def)
  have ub: "pool_bitmap up = pool_bitmap (user_pool m)" "frame up = frame (user_pool m)" by (simp_all add: up_def frame_def fun_eq_iff)
  obtain j where j: "j < bm_size (pool_bitmap (user_pool m))" "\<not> bm_bit (pool_bitmap (user_pool m)) j"
    "palloc up = Inr (frame (user_pool m) j, take_page up j)"
    using palloc_room [OF po(2)] free_page [OF fr(1)] by (auto simp: mem_pool_def ub)
  obtain kj where kj: "kj < bm_size (pool_bitmap (kernel_pool m))" "palloc (kernel_pool m) = Inr (frame (kernel_pool m) kj, take_page (kernel_pool m) kj)"
    using palloc_room [OF po(1)] free_page [OF fr(2)] by (auto simp: mem_pool_def)
  have vp: "vaddr_pool PF_USER m1 = user_space" using uv by (simp add: vaddr_pool_def m1_def)
  have b: "(?va - vaddr_start user_space) div PG_SIZE = 753591" by (simp add: user_space_def USER_STACK3_VADDR_def PG_SIZE_def)
  have "bm_wf (vaddr_bitmap user_space)" "753591 < bm_size (vaddr_bitmap user_space)"
    by (simp_all add: bm_wf_def bm_size_def user_space_def)
  then obtain bm where bm: "bitmap_set (vaddr_bitmap user_space) 753591 1 = Inr bm"
    using bitmap_set_eq [of "vaddr_bitmap user_space" 753591 1] by simp
  define m1b where "m1b = set_vaddr_bitmap PF_USER bm m1"
  define m2 where "m2 = set_mem_pool PF_USER (take_page up j) m1b"
  have fn: "frame (user_pool m) j \<noteq> NULL" "page_aligned (frame (user_pool m) j)"
    using frame_ne_NULL [of up j] frame_aligned [of up j] po(2) j(1) by (simp_all add: ub)
  have f2: "ptab m2 = ptab m" "kernel_pool m2 = kernel_pool m" "tasks m2 = tasks m" "running_thread m2 = ?t" "user_pool m2 = take_page up j"
    by (simp_all add: m2_def m1b_def m1_def set_mem_pool_def set_vaddr_bitmap_def)
  define pt where "pt = zero_page ((ptab m)(pde_ptr ?va := pg_entry (frame (kernel_pool m) kj))) (pte_ptr ?va AND 0xfffff000)"
  have ptrs: "pde_ptr ?va = 0xfffffbfc" "pte_ptr ?va = 0xffeffffc"
    by (simp_all add: USER_STACK3_VADDR_def pde_ptr_def pte_ptr_def PDE_INDEX_def PTE_INDEX_def)
  have zp: "\<not> present (pt (pte_ptr ?va))" by (simp add: pt_def zero_page_def present_def)
  have pe: "pt (pde_ptr ?va) = pg_entry (frame (kernel_pool m) kj)" unfolding pt_def ptrs by (simp add: zero_page_def)
  define m3 where "m3 = m2\<lparr>kernel_pool := take_page (kernel_pool m) kj, ptab := pt(pte_ptr ?va := pg_entry (frame (user_pool m) j))\<rparr>"
  have add: "page_table_add ?va (frame (user_pool m) j) m2 = Inr m3"
    unfolding page_table_add_def f2 kj(2) bindR_simps case_prod_conv Let_def pt_def [symmetric]
    using np zp by (simp add: m3_def)
  have f3: "tasks m3 = tasks m" "running_thread m3 = ?t" "user_pool m3 = take_page up j"
    "ptab m3 = pt(pte_ptr ?va := pg_entry (frame (user_pool m) j))" by (simp_all add: m3_def f2)
  have lk3: "plock (mem_pool PF_USER m3) = lock_held (running_thread m3) 1"
    unfolding mem_pool_def f3 by (simp add: up_def)
  define m4 where "m4 = set_mem_pool PF_USER ((mem_pool PF_USER m3)\<lparr>plock := lock_init\<rparr>) m3"
  have ul: "pool_unlock PF_USER m3 = Inr m4" unfolding m4_def by (rule pool_unlock_held [OF lk3])
  have f4: "tasks m4 = tasks m" "running_thread m4 = ?t" "plock (user_pool m4) = lock_init" "ptab m4 = ptab m3"
    "pool_bitmap (user_pool m4) = pool_bitmap (take_page up j)"
    by (simp_all add: m4_def set_mem_pool_def f3 mem_pool_def)
  have pd1: "pgdir (tasks m1 (running_thread m1)) \<noteq> NULL" using pd by (simp add: m1_def)
  have mp1: "mem_pool PF_USER m1 = up" by (simp add: mem_pool_def m1_def)
  have m2': "set_mem_pool PF_USER (take_page up j) (set_vaddr_bitmap PF_USER bm m1) = m2" by (simp add: m2_def m1b_def)
  have run: "get_a_page PF_USER ?va m = Inr (?va, m4)"
    unfolding get_a_page_def l bindR_simps Let_def vp b
    using pd1 by (simp add: bm mp1 m2' j(3) fn(1) add ul)
  have nw: "?va AND 0xfff = 0" by (simp add: USER_STACK3_VADDR_def)
  have "addr_v2p (ptab m4) ?va = frame (user_pool m) j"
    unfolding f4 f3 using addr_v2p_mapped [OF fn(2), of _ ?va] nw by simp
  moreover have "present (ptab m4 (pde_ptr ?va))" unfolding f4 f3 using pe by (simp add: ptrs pg_entry_present)
  moreover have "present (ptab m4 (pte_ptr ?va))" unfolding f4 f3 by (simp add: pg_entry_present)
  moreover have "page_used PF_USER m4 j" using j(1) by (simp add: page_used_def mem_pool_def f4 take_page_def ub)
  ultimately show ?thesis using run j(1,2) f4(1-3)
    by (intro exI [of _ m4] exI [of _ j]) (simp add: pool_pages_def page_used_def mem_pool_def)
qed

section \<open>The kernel as a machine that creates tasks and schedules them\<close>

text \<open>
  A step that is one call of a function of many statements is a step of the kernel only where nothing comes
  between the statements. thread_start and process_execute may be interrupted when interrupts are on, and
  what they then do is not this machine's (see pids_coincide): the running task calls them with interrupts
  off, as init_all does. The timer comes when interrupts are on; its handler, thread_block and thread_unblock
  run with interrupts off. Flag is the running task turning interrupts on or off, or returning to them.
\<close>

inductive kernel_step :: "code \<Rightarrow> procs \<Rightarrow> procs \<Rightarrow> bool" for c where
  Tick: "intr (mm p) = INTR_ON \<Longrightarrow> sched_event Timer (mm p) = Inr m \<Longrightarrow> kernel_step c p (p\<lparr>mm := m\<rparr>)"
| Event: "e \<noteq> Timer \<Longrightarrow> event_ok e (mm p) \<Longrightarrow> sched_event e (mm p) = Inr m \<Longrightarrow> kernel_step c p (p\<lparr>mm := m\<rparr>)"
| Flag: "kernel_step c p (p\<lparr>mm := (mm p)\<lparr>intr := v\<rparr>\<rparr>)"
| Start: "intr (mm p) = INTR_OFF \<Longrightarrow> room r n (mm p) \<Longrightarrow> 0 < n \<Longrightarrow> length name < 16
    \<Longrightarrow> thread_start c name prio f arg p = Inr (t, p') \<Longrightarrow> kernel_step c p p'"
| Execute: "intr (mm p) = INTR_OFF \<Longrightarrow> room r n (mm p) \<Longrightarrow> 25 \<le> n \<Longrightarrow> length name < 16
    \<Longrightarrow> process_execute c f name p = Inr p' \<Longrightarrow> kernel_step c p p'"

definition kernel_start :: "code \<Rightarrow> procs \<Rightarrow> bool" where
  "kernel_start c p \<longleftrightarrow> (\<exists>p0 r n. booted p0 \<and> room r n (mm p0) \<and> 0 < n \<and> thread_init c p0 = Inr p)"

lemma process_born_sched:
  assumes "sched_inv (mm p)" "process_born c f name k kd p p'"
  shows "sched_inv (mm p')"
proof -
  let ?t = "kernel_page (mm p) k" and ?dir = "kernel_page (mm p) kd"
  have b: "born ?t ((born_task ?t name default_prio (next_pid (mm p) + 1))\<lparr>pgdir := ?dir\<rparr>) (mm p) (mm p')" "page_aligned ?t" "?t \<noteq> NULL" "\<not> live (mm p) ?t"
    using assms(2) by (simp_all add: process_born_def Let_def)
  show ?thesis by (rule born_sched [OF assms(1) b]) (simp_all add: born_task_def new_task_def)
qed

lemma proc_inv_event:
  assumes "proc_inv p" "event_ok e (mm p)" "sched_event e (mm p) = Inr m"
  shows "proc_inv (p\<lparr>mm := m\<rparr>)"
proof -
  have I: "sched_inv (mm p)" "pages_inv p" using assms(1) by (simp_all add: proc_inv_iff)
  have "sched_inv m" using sched_event_inv [OF I(1) assms(2)] assms(3) by auto
  then show ?thesis using stays_pages [OF I(2) sched_event_stays [OF assms(3)]] by (simp add: proc_inv_iff)
qed

lemma proc_inv_flag:
  assumes "proc_inv p"
  shows "proc_inv (p\<lparr>mm := (mm p)\<lparr>intr := v\<rparr>\<rparr>)"
proof -
  let ?q = "p\<lparr>mm := (mm p)\<lparr>intr := v\<rparr>\<rparr>"
  have "same_space (mm p) (mm ?q)" by (simp add: same_space_def)
  note S = same_spaceD [OF this]
  have L: "live (mm ?q) = live (mm p)" "task_list (mm ?q) = task_list (mm p)" by (simp_all add: live_def [abs_def] task_list_def)
  show ?thesis
    using assms unfolding proc_inv_def pcbs_ok_def sched_inv_def sched_mid_def L S by simp
qed

lemma thread_start_ok:
  assumes "proc_inv p" "room r n (mm p)" "0 < n" "length name < 16"
  shows "\<exists>t p'. thread_start c name prio f arg p = Inr (t, p') \<and> proc_inv p' \<and> task_list (mm p') = task_list (mm p) @ [t]"
proof -
  have I: "sched_inv (mm p)" "pages_inv p" using assms(1) by (simp_all add: proc_inv_iff)
  have mid: "sched_mid (mm p)" using I by (simp add: sched_inv_def)
  have rn: "running_thread (mm p) \<noteq> NULL" using sched_midD(2,4) [OF mid] by blast
  obtain k p' where p': "thread_start c name prio f arg p = Inr (kernel_page (mm p) k, p')" "thread_born c name prio f arg k p p'" "pages_inv p'"
    using thread_start_runs [OF I(2) rn sched_midD(7) [OF mid] assms(2-4), of c prio f arg] by auto
  have "born (kernel_page (mm p) k) (born_task (kernel_page (mm p) k) name prio (next_pid (mm p) + 1)) (mm p) (mm p')"
    using p'(2) by (simp add: thread_born_def Let_def)
  from task_list_born [OF this] show ?thesis using p'(1,3) thread_born_sched [OF I(1) p'(2)] by (simp add: proc_inv_iff)
qed

lemma proc_inv_start:
  "proc_inv p \<Longrightarrow> room r n (mm p) \<Longrightarrow> 0 < n \<Longrightarrow> length name < 16 \<Longrightarrow> thread_start c name prio f arg p = Inr (t, p') \<Longrightarrow> proc_inv p'"
  using thread_start_ok [of p r n name c prio f arg] by auto

lemma proc_inv_execute:
  assumes "proc_inv p" "room r n (mm p)" "25 \<le> n" "length name < 16" "process_execute c f name p = Inr p'"
  shows "proc_inv p'"
proof -
  have I: "sched_inv (mm p)" using assms(1) by (simp add: proc_inv_iff)
  obtain k kd where "process_born c f name k kd p p'" "pages_inv p'"
    using process_execute_runs [OF assms(1-4), of c f] assms(5) by auto
  then show ?thesis using process_born_sched [OF I] by (simp add: proc_inv_iff)
qed

lemma proc_inv_init:
  assumes "kernel_start c p"
  shows "proc_inv p"
proof -
  obtain p0 r n where p0: "booted p0" "room r n (mm p0)" "0 < n" "thread_init c p0 = Inr p"
    using assms unfolding kernel_start_def by blast
  obtain p' where "thread_init c p0 = Inr p'" "proc_inv p'" using thread_init_runs [OF p0(1-3), of c] by blast
  then show ?thesis using p0(4) by simp
qed

interpretation kernel: safe_system "kernel_start c" "kernel_step c" proc_inv for c
proof unfold_locales
  show "proc_inv p" if "kernel_start c p" for p by (rule proc_inv_init [OF that])
  show "proc_inv p'" if "proc_inv p" "kernel_step c p p'" for p p'
    using that(2,1) by cases (auto intro: proc_inv_event [of _ Timer] proc_inv_event proc_inv_flag proc_inv_start proc_inv_execute simp: event_ok_def)
qed

lemma pcbs_apart:
  assumes "proc_inv p"
  shows "length (task_list (mm p)) < 65536 \<Longrightarrow> inj_on (\<lambda>t. pid (tasks (mm p) t)) {t. live (mm p) t}"
    "live (mm p) t \<Longrightarrow> live (mm p) u \<Longrightarrow> page_of t = page_of u \<Longrightarrow> t = u"
proof -
  let ?l = "task_list (mm p)"
  have P: "\<forall>i < length ?l. pid (tasks (mm p) (?l ! i)) = of_nat (i + 1)" using assms by (simp add: proc_inv_def pcbs_ok_def)
  show "inj_on (\<lambda>t. pid (tasks (mm p) t)) {t. live (mm p) t}" if n: "length ?l < 65536"
  proof (rule inj_onI)
    fix t u assume "t \<in> {t. live (mm p) t}" "u \<in> {t. live (mm p) t}" and e: "pid (tasks (mm p) t) = pid (tasks (mm p) u)"
    then obtain i j where ij: "i < length ?l" "j < length ?l" "t = ?l ! i" "u = ?l ! j"
      by (auto simp: live_task_list in_set_conv_nth)
    then have "(of_nat (i + 1) :: u16) = of_nat (j + 1)" using P e by simp
    then have e: "unat (of_nat (i + 1) :: u16) = unat (of_nat (j + 1) :: u16)" by (rule arg_cong)
    have u: "unat (of_nat (x + 1) :: u16) = x + 1" if "x < length ?l" for x
      using that n by (simp add: unat_of_nat del: of_nat_add of_nat_Suc)
    have "i = j" using e u [OF ij(1)] u [OF ij(2)] by linarith
    then show "t = u" using ij by simp
  qed
  show "t = u" if "live (mm p) t" "live (mm p) u" "page_of t = page_of u"
  proof -
    have mid: "sched_mid (mm p)" using assms by (simp add: proc_inv_def sched_inv_def)
    have "page_aligned t" "page_aligned u" using sched_midD(1) [OF mid] that by blast+
    then show ?thesis using page_base_eq_iff [of t u] that(3) by (simp add: aligned_mask)
  qed
qed

section \<open>A larger memory\<close>

definition demo_bitmap32 :: bitmap where
  "demo_bitmap32 = \<lparr>btmp_bytes_len = 4, btmp_bits = replicate 4 0\<rparr>"

definition demo_memory32 :: memory where
  "demo_memory32 = demo_memory\<lparr>next_pid := 0,
     kernel_pool := \<lparr>pool_bitmap = demo_bitmap32, bitmap_at = 0xc009a000, plock = lock_init, phy_addr_start = 0x200000, pool_size = 0x20000\<rparr>,
     user_pool := \<lparr>pool_bitmap = demo_bitmap32, bitmap_at = 0xc009a004, plock = lock_init, phy_addr_start = 0x220000, pool_size = 0x20000\<rparr>,
     kernel_vaddr := \<lparr>vaddr_bitmap = demo_bitmap32, vaddr_start = 0xc0100000\<rparr>\<rparr>"

definition demo_boot32 :: procs where
  "demo_boot32 = demo_boot\<lparr>mm := demo_memory32\<rparr>"

lemma demo_bm32: "bm_wf demo_bitmap32" "bm_size demo_bitmap32 = 32" "i < 32 \<Longrightarrow> \<not> bm_bit demo_bitmap32 i"
proof -
  show "bm_wf demo_bitmap32" "bm_size demo_bitmap32 = 32" by (simp_all add: bm_wf_def bm_size_def demo_bitmap32_def)
  assume "i < 32"
  then have "i div 8 < 4" by simp
  then show "\<not> bm_bit demo_bitmap32 i" by (simp add: bm_bit_def demo_bitmap32_def)
qed

lemma demo_fields32:
  "ptab demo_memory32 = (\<lambda>a. if 0xfffff000 \<le> a then 1 else 0)" "running_thread demo_memory32 = 0xc009e000"
  "vpages PF_KERNEL demo_memory32 = 32" "i < 32 \<Longrightarrow> \<not> vused PF_KERNEL demo_memory32 i"
  "vaddr_start (vaddr_pool PF_KERNEL demo_memory32) = 0xc0100000"
  by (simp_all add: demo_memory32_def demo_memory_def demo_threads_def kthreads.defs memory.defs vpages_def vused_def vaddr_pool_def demo_bm32)

lemma demo_space32: "space_ok PF_KERNEL demo_memory32" "pools_ok demo_memory32"
proof -
  show p: "pools_ok demo_memory32" by (simp add: pools_ok_def demo_memory32_def pool_ok_def demo_bm32 page_aligned_def)
  have vr: "vrange_ok PF_KERNEL demo_memory32"
    by (simp add: vrange_ok_def demo_memory32_def demo_bm32 page_aligned_def vpages_def vaddr_pool_def mem_pool_def)
  have "0xfffff000 \<le> pde_ptr w" for w by (simp add: word_le_nat_alt pde_ptr_eq)
  moreover have "\<not> 0xfffff000 \<le> pte_ptr (vpage PF_KERNEL demo_memory32 i)" if "i < 32" for i
  proof -
    have "page_of (vpage PF_KERNEL demo_memory32 i) = 0xc0100 + i"
      using page_of_vpage [OF vr, of i] that by (simp add: demo_fields32 page_of_def [of "0xc0100000"])
    then show ?thesis using that by (simp add: word_le_nat_alt pte_ptr_eq)
  qed
  ultimately have "mapping_ok PF_KERNEL demo_memory32"
    by (simp add: mapping_ok_def demo_fields32 present_def)
  then show "space_ok PF_KERNEL demo_memory32" using p vr by (simp add: space_ok_def)
qed

lemma demo_booted32: "booted demo_boot32" "room 0 32 (mm demo_boot32)"
proof -
  have "{i. i < pool_pages PF_KERNEL demo_memory32 \<and> \<not> page_used PF_KERNEL demo_memory32 i} = {..<32}"
    using demo_bm32 by (auto simp: pool_pages_def page_used_def mem_pool_def demo_memory32_def)
  then have "32 \<le> free_frames PF_KERNEL demo_memory32" by (simp add: free_frames_def)
  moreover have "vfree_run PF_KERNEL demo_memory32 0 32"
    using demo_fields32(4) by (simp add: vfree_run_def demo_fields32(3))
  ultimately show "room 0 32 (mm demo_boot32)" by (simp add: room_def demo_boot32_def)
  show "booted demo_boot32" using demo_space32 demo_fields32(2,5)
    by (simp add: booted_def demo_boot32_def page_aligned_def K_HEAP_START_def vaddr_pool_def) (simp add: demo_memory32_def)
qed

section \<open>Properties\<close>

text \<open>C6: Whatever ticks, blocks, wake-ups, new threads and new processes follow thread_init, where tasks are
  created with interrupts off and there are pages for them: exactly one task runs, no two tasks have their
  PCB and kernel stack on the same page, the pids of up to 65535 tasks differ, no event of the scheduler
  stops the kernel, and with interrupts off and a free page thread_start returns. With interrupts on the
  pids need not differ: a task a that is interrupted in allocate_pid after it has released the lock, while a
  task b allocates a pid, reads the pid b got.\<close>
theorem kernel_tasks_safe:
  assumes "reach (kernel_start c) (kernel_step c) p"
  shows "(\<exists>!t. live (mm p) t \<and> status (tasks (mm p) t) = TASK_RUNNING)
     \<and> (\<forall>t u. live (mm p) t \<and> live (mm p) u \<and> t \<noteq> u \<longrightarrow> page_of t \<noteq> page_of u)
     \<and> (length (task_list (mm p)) < 65536 \<longrightarrow> inj_on (\<lambda>t. pid (tasks (mm p) t)) {t. live (mm p) t})
     \<and> (\<forall>e. event_ok e (mm p) \<longrightarrow> is_ok (sched_event e (mm p)))
     \<and> (\<forall>r n name prio f arg. room r n (mm p) \<and> 0 < n \<and> length name < 16 \<longrightarrow> is_ok (thread_start c name prio f arg p))
     \<and> (\<forall>a b. a \<noteq> NULL \<and> b \<noteq> NULL \<longrightarrow> (\<exists>p1 p2 id. count_pid (run_by a p) = Inr p1
          \<and> allocate_pid (run_by b p1) = Inr (id, p2) \<and> read_pid (run_by a p2) = id))"
proof -
  have inv: "proc_inv p" by (rule kernel.reach_inv [OF assms])
  then have s: "sched_inv (mm p)" by (simp add: proc_inv_def)
  then have mid: "sched_mid (mm p)" "status (tasks (mm p) (running_thread (mm p))) = TASK_RUNNING" by (simp_all add: sched_inv_def)
  have "\<exists>!t. live (mm p) t \<and> status (tasks (mm p) t) = TASK_RUNNING"
    using sched_midD(4,9) [OF mid(1)] mid(2) by blast
  moreover have "is_ok (sched_event e (mm p))" if "event_ok e (mm p)" for e
    using sched_event_inv [OF s that] by (auto simp: is_ok_iff)
  moreover have "is_ok (thread_start c name prio f arg p)" if "room r n (mm p)" "0 < n" "length name < 16" for r n name prio f arg
    using thread_start_ok [OF inv that, of c prio f arg] by (auto simp: is_ok_iff)
  moreover have "\<exists>p1 p2 id. count_pid (run_by a p) = Inr p1 \<and> allocate_pid (run_by b p1) = Inr (id, p2) \<and> read_pid (run_by a p2) = id"
    if "a \<noteq> NULL" "b \<noteq> NULL" for a b
    using pids_coincide [OF _ that, of p] inv by (auto simp: proc_inv_def)
  ultimately show ?thesis using pcbs_apart [OF inv] by blast
qed

lemma kernel_tasks_safe_witness:
  "\<exists>p p'. thread_init demo_code demo_boot = Inr p \<and> kernel_step demo_code p p' \<and> length (task_list (mm p')) = 3
     \<and> inj_on (\<lambda>t. pid (tasks (mm p') t)) {t. live (mm p') t}"
proof -
  obtain k p where p: "thread_init demo_code demo_boot = Inr p" "proc_inv p" "room 1 2 (mm p)" "task_list (mm p) = [main_thread (mm p), idle_thread (mm p)]"
    "intr (mm p) = intr (mm demo_boot)"
    using thread_init_runs [OF demo_booted, of demo_code] by auto
  have off: "intr (mm p) = INTR_OFF" unfolding p(5) by (simp add: demo_boot_def demo_memory_def demo_threads_def kthreads.defs memory.defs)
  have z: "0 < (2 :: nat)" "0 < (3 :: nat)" "length [0x61 :: u8] < 16" by simp_all
  obtain t p' where p': "thread_start demo_code [0x61] 31 0xc0002000 5 p = Inr (t, p')" "task_list (mm p') = task_list (mm p) @ [t]"
    using thread_start_ok [OF p(2,3) z(1,3), of demo_code 31 "0xc0002000" 5] by blast
  have st: "kernel_step demo_code p p'" by (rule Start [OF off p(3) z(1,3) p'(1)])
  have "kernel_start demo_code p" unfolding kernel_start_def using demo_booted z(2) p(1) by blast
  then have "reach (kernel_start demo_code) (kernel_step demo_code) p'" using st by (blast intro: reach_init reach_step)
  moreover have n: "length (task_list (mm p')) = 3" using p'(2) p(4) by simp
  ultimately have "inj_on (\<lambda>t. pid (tasks (mm p') t)) {t. live (mm p') t}"
    using kernel_tasks_safe [of demo_code p'] by simp
  then show ?thesis using p(1) st n by blast
qed

text \<open>C10: process_execute, with 25 free pages of the kernel, makes a ready task with the next pid, behind the
  others in both lists. Its user space is the 753592 pages from 0x8048000 to 3 GB, all free; its heap
  descriptors are initialised. Its page directory maps nothing below 3 GB, has the kernel's entries above,
  and its last entry is the frame of the directory itself. When first entered the task runs
  start_process on the program. The interrupt flag is as before and the invariant holds again.\<close>
theorem process_execute_spec:
  assumes "proc_inv p" "room r n (mm p)" "25 \<le> n" "length name < 16"
  shows "\<exists>t p'. process_execute c filename name p = Inr p' \<and> proc_inv p' \<and> \<not> live (mm p) t
     \<and> task_list (mm p') = task_list (mm p) @ [t] \<and> thread_ready_list (mm p') = thread_ready_list (mm p) @ [general_tag t]
     \<and> (\<forall>u. u \<noteq> t \<longrightarrow> tasks (mm p') u = tasks (mm p) u) \<and> status (tasks (mm p') t) = TASK_READY
     \<and> pid (tasks (mm p') t) = of_nat (length (task_list (mm p'))) \<and> intr (mm p') = intr (mm p)
     \<and> vaddr_start (userprog_vaddr (mm p') t) = 0x8048000 \<and> bm_size (vaddr_bitmap (userprog_vaddr (mm p') t)) = 753592
     \<and> (\<forall>i < 753592. \<not> bm_bit (vaddr_bitmap (userprog_vaddr (mm p') t)) i) \<and> u_block_desc (mm p') t = block_init
     \<and> e_eip (switch_in t p') = kernel_thread_at c \<and> e_args (switch_in t p') = (start_process_at c, filename)
     \<and> (let dir = pgdir (tasks (mm p') t); f = addr_v2p (ptab (mm p')) dir in
         dir \<noteq> NULL \<and> page_aligned f \<and> (\<forall>j < 1024. dir_entry (mm p') dir j =
           (if j < 768 then 0 else if j < 1023 then ptab (mm p) (0xfffff000 + 4 * of_nat j) else f OR 7)))"
proof -
  obtain k kd p' where p': "process_execute c filename name p = Inr p'" "process_born c filename name k kd p p'" "pages_inv p'"
    using process_execute_runs [OF assms] by blast
  let ?t = "kernel_page (mm p) k" and ?dir = "kernel_page (mm p) kd"
  have T: "page_aligned ?t" "\<not> live (mm p) ?t" "?dir \<noteq> NULL"
    "born ?t ((born_task ?t name default_prio (next_pid (mm p) + 1))\<lparr>pgdir := ?dir\<rparr>) (mm p) (mm p')" "intr (mm p') = intr (mm p)"
    "userprog_vaddr (mm p') ?t = user_space" "u_block_desc (mm p') ?t = block_init" "page_aligned (addr_v2p (ptab (mm p')) ?dir)"
    "\<forall>j < 1024. dir_entry (mm p') ?dir j = dir_spec (ptab (mm p)) (addr_v2p (ptab (mm p')) ?dir) j"
    "tstacks p' (?t + 3664) = first_frame c (start_process_at c) filename (unused_retaddr (tstacks p (?t + 3664)))"
    using p'(2) by (simp_all add: process_born_def Let_def)
  note B = T(4) [unfolded born_def]
  have inv: "proc_inv p'" using process_born_sched [OF _ p'(2)] assms(1) p'(3) by (simp add: proc_inv_iff)
  have "next_pid (mm p') = of_nat (length (task_list (mm p')))" using p'(3) by (simp add: pages_inv_def pcbs_ok_def)
  then have n: "next_pid (mm p) + 1 = of_nat (length (task_list (mm p')))" using B by simp
  have tt: "tasks (mm p') ?t = (born_task ?t name default_prio (next_pid (mm p) + 1))\<lparr>pgdir := ?dir\<rparr>" using B by simp
  have f: "status (tasks (mm p') ?t) = TASK_READY" "pid (tasks (mm p') ?t) = of_nat (length (task_list (mm p')))"
    "pgdir (tasks (mm p') ?t) = ?dir" "self_kstack (tasks (mm p') ?t) = ?t + 3664"
    unfolding tt n by (simp_all add: born_task_def new_task_def)
  have sw: "e_eip (switch_in ?t p') = kernel_thread_at c" "e_args (switch_in ?t p') = (start_process_at c, filename)"
    using T(10) f(4) by (simp_all add: switch_in_def first_frame_def Let_def)
  have bm: "vaddr_start user_space = 0x8048000" "bm_size (vaddr_bitmap user_space) = 753592"
    "\<forall>i < 753592. \<not> bm_bit (vaddr_bitmap user_space) i"
    by (auto simp: user_space_def bm_size_def bm_bit_def)
  have oth: "\<forall>u. u \<noteq> ?t \<longrightarrow> tasks (mm p') u = tasks (mm p) u" "thread_ready_list (mm p') = thread_ready_list (mm p) @ [general_tag ?t]"
    using B by simp_all
  show ?thesis
    unfolding dir_spec_def [symmetric]
    by (rule exI [of _ ?t], rule exI [of _ p'], unfold Let_def f(3) T(6))
       (use p'(1) inv T(2,3,5,7,8,9) task_list_born [OF T(4)] oth f(1,2) sw bm in blast)
qed

lemma process_execute_spec_witness:
  "\<exists>p t p'. thread_init demo_code demo_boot32 = Inr p \<and> process_execute demo_code 0x8048000 [0x75] p = Inr p' \<and> proc_inv p'
     \<and> task_list (mm p') = task_list (mm p) @ [t] \<and> e_args (switch_in t p') = (0xc0001200, 0x8048000)"
proof -
  obtain k p where p: "thread_init demo_code demo_boot32 = Inr p" "proc_inv p" "room 1 31 (mm p)"
    using thread_init_runs [OF demo_booted32, of demo_code] by auto
  have z: "25 \<le> (31 :: nat)" "length [0x75 :: u8] < 16" by simp_all
  have s: "start_process_at demo_code = 0xc0001200" by (simp add: demo_code_def)
  from process_execute_spec [OF p(2,3) z, of demo_code "0x8048000"] show ?thesis using p(1) unfolding s by blast
qed

text \<open>start_process, run by a process for the first time: the frame it returns to user mode with.\<close>

lemma start_process_frame:
  assumes "pools_ok (mm p)" "plock (user_pool (mm p)) = lock_init"
    and t: "t = running_thread (mm p)" "page_aligned t" "t \<noteq> NULL" "self_kstack (tasks (mm p) t) = t + 3664" "pgdir (tasks (mm p) t) \<noteq> NULL"
    and uv: "userprog_vaddr (mm p) t = user_space"
    and fr: "0 < free_frames PF_USER (mm p)" "0 < free_frames PF_KERNEL (mm p)" and np: "\<not> present (ptab (mm p) (pde_ptr USER_STACK3_VADDR))"
  shows "\<exists>p'. start_process filename p = Inr (t + 3792, p') \<and> unat (t + 3792) + 76 \<le> unat t + 4096
     \<and> (let f = istacks p' (t + 3792) in is_eip f = filename \<and> is_cs f = SELECTOR_U_CODE \<and> is_ss f = SELECTOR_U_DATA
          \<and> is_ds f = SELECTOR_U_DATA \<and> is_es f = SELECTOR_U_DATA \<and> is_fs f = SELECTOR_U_DATA \<and> is_gs f = 0
          \<and> is_esp f = 0xc0000000 \<and> bit (is_eflags f) 9 \<and> \<not> bit (is_eflags f) 12 \<and> \<not> bit (is_eflags f) 13
          \<and> is_eax f = 0 \<and> is_ebx f = 0 \<and> is_ecx f = 0 \<and> is_edx f = 0 \<and> is_esi f = 0 \<and> is_edi f = 0 \<and> is_ebp f = 0)
     \<and> present (ptab (mm p') (pde_ptr USER_STACK3_VADDR)) \<and> present (ptab (mm p') (pte_ptr USER_STACK3_VADDR))
     \<and> (\<exists>j < pool_pages PF_USER (mm p). \<not> page_used PF_USER (mm p) j \<and> page_used PF_USER (mm p') j
          \<and> addr_v2p (ptab (mm p')) USER_STACK3_VADDR = frame (user_pool (mm p)) j)"
proof -
  let ?m = "upd_task (\<lambda>t. t\<lparr>self_kstack := self_kstack t + 4 * sizeof_thread_stack\<rparr>) t (mm p)"
  have k: "self_kstack (tasks ?m t) = t + 3792" using t(4) by (simp add: sizeof_thread_stack_def)
  have P: "pools_ok ?m" "plock (user_pool ?m) = lock_init" "running_thread ?m \<noteq> NULL" "pgdir (tasks ?m (running_thread ?m)) \<noteq> NULL"
    "userprog_vaddr ?m (running_thread ?m) = user_space" "ptab ?m = ptab (mm p)"
    using assms(1,2) t uv by (simp_all add: upd_task_def pools_ok_def)
  have Q: "mem_pool pf ?m = mem_pool pf (mm p)" for pf by (cases pf) (simp_all add: mem_pool_def upd_task_def)
  have U: "free_frames pf ?m = free_frames pf (mm p)" "pool_pages pf ?m = pool_pages pf (mm p)" "page_used pf ?m = page_used pf (mm p)" for pf
    by (simp_all add: free_frames_def pool_pages_def page_used_def Q)
  have up: "user_pool ?m = user_pool (mm p)" by (simp add: upd_task_def)
  obtain m' j where m': "get_a_page PF_USER USER_STACK3_VADDR ?m = Inr (USER_STACK3_VADDR, m')" "j < pool_pages PF_USER (mm p)"
    "\<not> page_used PF_USER (mm p) j" "addr_v2p (ptab m') USER_STACK3_VADDR = frame (user_pool (mm p)) j"
    "present (ptab m' (pde_ptr USER_STACK3_VADDR))" "present (ptab m' (pte_ptr USER_STACK3_VADDR))" "page_used PF_USER m' j"
    using stack_page [of ?m] P fr np unfolding U up P(6) by blast
  have mt: "upd_pcb (\<lambda>t. t\<lparr>self_kstack := self_kstack t + 4 * sizeof_thread_stack\<rparr>) t p = p\<lparr>mm := ?m\<rparr>" by (simp add: upd_pcb_def)
  have run: "\<exists>p'. start_process filename p = Inr (t + 3792, p') \<and> mm p' = m'
     \<and> istacks p' (t + 3792) = (istacks p (t + 3792))\<lparr>is_edi := 0, is_esi := 0, is_ebp := 0, esp_dummy := 0, is_ebx := 0, is_edx := 0,
            is_ecx := 0, is_eax := 0, is_gs := 0, is_ds := SELECTOR_U_DATA, is_es := SELECTOR_U_DATA,
            is_fs := SELECTOR_U_DATA, is_eip := filename, is_cs := SELECTOR_U_CODE,
            is_eflags := EFLAGS_IOPL_0 OR EFLAGS_MBS OR EFLAGS_IF_1, is_esp := USER_STACK3_VADDR + PG_SIZE, is_ss := SELECTOR_U_DATA\<rparr>"
    unfolding start_process_def Let_def t(1) [symmetric] mt procs.simps
    using m'(1) k by simp
  then obtain p' where p': "start_process filename p = Inr (t + 3792, p')" "mm p' = m'"
     "istacks p' (t + 3792) = (istacks p (t + 3792))\<lparr>is_edi := 0, is_esi := 0, is_ebp := 0, esp_dummy := 0, is_ebx := 0, is_edx := 0,
            is_ecx := 0, is_eax := 0, is_gs := 0, is_ds := SELECTOR_U_DATA, is_es := SELECTOR_U_DATA,
            is_fs := SELECTOR_U_DATA, is_eip := filename, is_cs := SELECTOR_U_CODE,
            is_eflags := EFLAGS_IOPL_0 OR EFLAGS_MBS OR EFLAGS_IF_1, is_esp := USER_STACK3_VADDR + PG_SIZE, is_ss := SELECTOR_U_DATA\<rparr>"
    by blast
  have fl: "EFLAGS_IOPL_0 OR EFLAGS_MBS OR EFLAGS_IF_1 = 0x202" "USER_STACK3_VADDR + PG_SIZE = 0xc0000000"
    by (simp_all add: EFLAGS_IOPL_0_def EFLAGS_MBS_def EFLAGS_IF_1_def USER_STACK3_VADDR_def PG_SIZE_def)
  have bits: "bit (0x202 :: u32) 9" "\<not> bit (0x202 :: u32) 12" "\<not> bit (0x202 :: u32) 13" by simp_all
  have "unat t = 4096 * page_of t" using t(2) mult_div_mod_eq [of 4096 "unat t"] by (simp add: page_of_def aligned_unat)
  moreover have "page_of t < 1048576" using unat_u32_less [of t] by (simp add: page_of_def)
  ultimately have "unat t + 4096 \<le> 4294967296" by simp
  then have "unat (t + 3792) = unat t + 3792" by (subst unat_add_u32) simp_all
  then show ?thesis
    using p'(1) m'(2-7) bits unfolding p'(2) [symmetric]
    by (intro exI [of _ p']) (auto simp: p'(3) fl)
qed

definition demo_process :: procs where
  "demo_process = demo_boot32\<lparr>mm := upd_task (\<lambda>t. t\<lparr>self_kstack := 0xc009ee50, pgdir := 0xc0101000\<rparr>) 0xc009e000
     (demo_memory32\<lparr>userprog_vaddr := (\<lambda>_. user_space), ptab := (\<lambda>_. 0)\<rparr>)\<rparr>"

lemma demo_process_ready:
  "pools_ok (mm demo_process)" "plock (user_pool (mm demo_process)) = lock_init" "0xc009e000 = running_thread (mm demo_process)"
  "self_kstack (tasks (mm demo_process) 0xc009e000) = 0xc009e000 + 3664" "pgdir (tasks (mm demo_process) 0xc009e000) \<noteq> NULL"
  "userprog_vaddr (mm demo_process) 0xc009e000 = user_space" "0 < free_frames pf (mm demo_process)"
  "\<not> present (ptab (mm demo_process) (pde_ptr USER_STACK3_VADDR))"
proof -
  let ?m = "mm demo_process"
  have F: "user_pool ?m = user_pool demo_memory32" "kernel_pool ?m = kernel_pool demo_memory32" "running_thread ?m = 0xc009e000"
    "userprog_vaddr ?m = (\<lambda>_. user_space)" "ptab ?m = (\<lambda>_. 0)" "self_kstack (tasks ?m 0xc009e000) = 0xc009ee50" "pgdir (tasks ?m 0xc009e000) = 0xc0101000"
    using demo_fields32(2) by (simp_all add: demo_process_def upd_task_def)
  show "pools_ok ?m" using demo_space32(2) by (simp add: pools_ok_def F)
  have "{i. i < pool_pages pf ?m \<and> \<not> page_used pf ?m i} = {..<32}"
    using demo_bm32 by (cases pf) (auto simp: pool_pages_def page_used_def mem_pool_def F demo_memory32_def)
  then show "0 < free_frames pf ?m" by (simp add: free_frames_def)
  show "plock (user_pool ?m) = lock_init" by (simp add: F demo_memory32_def)
qed (use demo_fields32(2) in \<open>simp_all add: demo_process_def upd_task_def present_def\<close>)

end
