(* ===== verification/Syscall.thy ===== *)
theory Syscall
  imports Process
begin

text \<open>
  System calls: the table of userprog/syscall-init.c, the entry syscall_handler of kernel/kernel.S, the stubs
  of lib/user/syscall.c and printf of lib/stdio.c. The state is the memory with the console and the table;
  behind the table lie whatever words the linker put there. Where the functions of the kernel lie, and what
  the code at any other address does when it is called, is the parameter \<open>c :: sys_code\<close>.
  A stub leaves in ebx, ecx and edx what it has no argument for; \<open>regs\<close> is what they hold.
\<close>

section \<open>The kernel's side\<close>

record usys =
  um :: memory
  ucons :: console
  syscall_table :: "addr list"
  behind_table :: "nat \<Rightarrow> addr"

type_synonym args = "u32 \<times> u32 \<times> u32"

record sys_code =
  sys_getpid_at :: addr
  sys_wirte_at :: addr
  sys_malloc_at :: addr
  sys_free_at :: addr
  elsewhere :: "addr \<Rightarrow> args \<Rightarrow> usys \<Rightarrow> (u32 option \<times> usys) res"

definition syscall_nr :: nat where "syscall_nr = 32"

definition SYS_GETPID :: u32 where "SYS_GETPID = 0"
definition SYS_WRITE :: u32 where "SYS_WRITE = 1"
definition SYS_MALLOC :: u32 where "SYS_MALLOC = 2"
definition SYS_FREE :: u32 where "SYS_FREE = 3"

text \<open>pid is an int16_t: it is extended with its sign.\<close>

definition sys_getpid :: "memory \<Rightarrow> u32" where
  "sys_getpid m = scast (pid (tasks m (running_thread m)))"

definition sys_wirte :: "addr \<Rightarrow> usys \<Rightarrow> (u32 \<times> usys) res" where
  "sys_wirte str s =
     bindR (console_put_str (bytes (um s)) str (ucons s) (um s)) (\<lambda>(c, m).
     bindR (strlen (bytes m) str) (\<lambda>n. Inr (n, s\<lparr>ucons := c, um := m\<rparr>)))"

definition syscall_init :: "sys_code \<Rightarrow> usys \<Rightarrow> usys" where
  "syscall_init c s = s\<lparr>syscall_table := (syscall_table s)[unat SYS_GETPID := sys_getpid_at c, unat SYS_WRITE := sys_wirte_at c,
     unat SYS_MALLOC := sys_malloc_at c, unat SYS_FREE := sys_free_at c]\<rparr>"

text \<open>A call of the address a, with the three registers as the arguments on the stack; the result is what eax
  holds, None for a function that returns nothing.\<close>

definition call_at :: "sys_code \<Rightarrow> addr \<Rightarrow> args \<Rightarrow> usys \<Rightarrow> (u32 option \<times> usys) res" where
  "call_at c a args s =
     (if a = sys_getpid_at c then Inr (Some (sys_getpid (um s)), s)
      else if a = sys_wirte_at c then bindR (sys_wirte (fst args) s) (\<lambda>(n, s). Inr (Some n, s))
      else if a = sys_malloc_at c then bindR (sys_malloc (fst args) (um s)) (\<lambda>(r, m). Inr (Some r, s\<lparr>um := m\<rparr>))
      else if a = sys_free_at c then bindR (sys_free (fst args) (um s)) (\<lambda>m. Inr (None, s\<lparr>um := m\<rparr>))
      else elsewhere c a args s)"

text \<open>The word at syscall_table+EAX*4, where the sum has 32 bits: the multiple of 4 is the index modulo 2 to the
  30. There is no test of eax and none of the word.\<close>

definition table_word :: "usys \<Rightarrow> u32 \<Rightarrow> addr" where
  "table_word s eax = (let i = unat (eax * 4) div 4 in
     if i < length (syscall_table s) then syscall_table s ! i else behind_table s (i - length (syscall_table s)))"

definition syscall_handler :: "sys_code \<Rightarrow> u32 \<Rightarrow> args \<Rightarrow> usys \<Rightarrow> (u32 option \<times> usys) res" where
  "syscall_handler c eax args s = call_at c (table_word s eax) args s"

section \<open>The user's side\<close>

definition syscall0 :: "sys_code \<Rightarrow> args \<Rightarrow> u32 \<Rightarrow> usys \<Rightarrow> (u32 option \<times> usys) res" where
  "syscall0 c regs number s = syscall_handler c number regs s"

definition syscall1 :: "sys_code \<Rightarrow> args \<Rightarrow> u32 \<Rightarrow> u32 \<Rightarrow> usys \<Rightarrow> (u32 option \<times> usys) res" where
  "syscall1 c regs number arg1 s = (case regs of (_, ecx, edx) \<Rightarrow> syscall_handler c number (arg1, ecx, edx) s)"

definition syscall2 :: "sys_code \<Rightarrow> args \<Rightarrow> u32 \<Rightarrow> u32 \<Rightarrow> u32 \<Rightarrow> usys \<Rightarrow> (u32 option \<times> usys) res" where
  "syscall2 c regs number arg1 arg2 s = (case regs of (_, _, edx) \<Rightarrow> syscall_handler c number (arg1, arg2, edx) s)"

definition syscall3 :: "sys_code \<Rightarrow> u32 \<Rightarrow> u32 \<Rightarrow> u32 \<Rightarrow> u32 \<Rightarrow> usys \<Rightarrow> (u32 option \<times> usys) res" where
  "syscall3 c number arg1 arg2 arg3 s = syscall_handler c number (arg1, arg2, arg3) s"

definition getpid :: "sys_code \<Rightarrow> args \<Rightarrow> usys \<Rightarrow> (u32 option \<times> usys) res" where
  "getpid c regs s = syscall0 c regs SYS_GETPID s"

definition write_call :: "sys_code \<Rightarrow> args \<Rightarrow> addr \<Rightarrow> usys \<Rightarrow> (u32 option \<times> usys) res" where
  "write_call c regs str s = syscall1 c regs SYS_WRITE str s"

definition malloc :: "sys_code \<Rightarrow> args \<Rightarrow> u32 \<Rightarrow> usys \<Rightarrow> (u32 option \<times> usys) res" where
  "malloc c regs sz s = syscall1 c regs SYS_MALLOC sz s"

definition free :: "sys_code \<Rightarrow> args \<Rightarrow> addr \<Rightarrow> usys \<Rightarrow> usys res" where
  "free c regs ptr s = bindR (syscall1 c regs SYS_FREE ptr s) (\<lambda>(_, s). Inr s)"

text \<open>buf lies on the stack of the caller; format_at is the address of the parameter format.\<close>

definition printf :: "sys_code \<Rightarrow> args \<Rightarrow> addr \<Rightarrow> addr \<Rightarrow> addr \<Rightarrow> usys \<Rightarrow> (u32 option \<times> usys) res" where
  "printf c regs buf format format_at s =
     (let b = memset_loop (bytes (um s)) buf 0 1024 in
      bindR (vsprintf b buf format format_at) (\<lambda>(_, b). write_call c regs buf (s\<lparr>um := (um s)\<lparr>bytes := b\<rparr>\<rparr>)))"

section \<open>Properties\<close>

text \<open>Functions have addresses of their own, and none lies at 0.\<close>

definition linked :: "sys_code \<Rightarrow> bool" where
  "linked c \<longleftrightarrow> distinct [NULL, sys_getpid_at c, sys_wirte_at c, sys_malloc_at c, sys_free_at c]"

definition syscalls_ready :: "sys_code \<Rightarrow> usys \<Rightarrow> bool" where
  "syscalls_ready c s \<longleftrightarrow> linked c
     \<and> syscall_table s = [sys_getpid_at c, sys_wirte_at c, sys_malloc_at c, sys_free_at c] @ replicate 28 NULL"

lemma syscall_init_ready: "linked c \<Longrightarrow> syscall_table s = replicate syscall_nr NULL \<Longrightarrow> syscalls_ready c (syscall_init c s)"
proof -
  assume l: "linked c" and t: "syscall_table s = replicate syscall_nr NULL"
  have n: "unat SYS_GETPID = 0" "unat SYS_WRITE = 1" "unat SYS_MALLOC = 2" "unat SYS_FREE = 3"
    by (simp_all add: SYS_GETPID_def SYS_WRITE_def SYS_MALLOC_def SYS_FREE_def)
  have e: "syscall_nr = Suc (Suc (Suc (Suc 28)))" by (simp add: syscall_nr_def)
  have "replicate syscall_nr NULL = NULL # NULL # NULL # NULL # replicate 28 NULL"
    unfolding e replicate.simps(2) by (rule refl)
  then show ?thesis using l t unfolding syscalls_ready_def syscall_init_def n by (simp add: numeral_2_eq_2 numeral_3_eq_3)
qed

lemma table_index: "unat (n * 4 :: u32) div 4 = unat n mod 2 ^ 30"
proof -
  have "unat (n * 4) = (unat n * 4) mod 2 ^ 32" by (simp add: unat_word_ariths)
  also have "\<dots> = (unat n mod 2 ^ 30) * 4" using mod_mult_mult2 [of "unat n" 4 "2 ^ 30"] by simp
  finally show ?thesis by simp
qed

lemma table_words:
  assumes "syscalls_ready c s"
  shows "table_word s SYS_GETPID = sys_getpid_at c" "table_word s SYS_WRITE = sys_wirte_at c"
    "table_word s SYS_MALLOC = sys_malloc_at c" "table_word s SYS_FREE = sys_free_at c"
    "unat n mod 2 ^ 30 < 4 \<Longrightarrow> table_word s n = [sys_getpid_at c, sys_wirte_at c, sys_malloc_at c, sys_free_at c] ! (unat n mod 2 ^ 30)"
    "4 \<le> unat n mod 2 ^ 30 \<Longrightarrow> unat n mod 2 ^ 30 < 32 \<Longrightarrow> table_word s n = NULL"
    "32 \<le> unat n mod 2 ^ 30 \<Longrightarrow> table_word s n = behind_table s (unat n mod 2 ^ 30 - 32)"
proof -
  have t: "syscall_table s = [sys_getpid_at c, sys_wirte_at c, sys_malloc_at c, sys_free_at c] @ replicate 28 NULL"
    using assms by (simp add: syscalls_ready_def)
  show "table_word s SYS_GETPID = sys_getpid_at c" "table_word s SYS_WRITE = sys_wirte_at c"
    "table_word s SYS_MALLOC = sys_malloc_at c" "table_word s SYS_FREE = sys_free_at c"
    by (simp_all add: table_word_def t SYS_GETPID_def SYS_WRITE_def SYS_MALLOC_def SYS_FREE_def)
  define i where "i = unat n mod 2 ^ 30"
  have w: "table_word s n = (if i < 32 then syscall_table s ! i else behind_table s (i - 32))"
    unfolding table_word_def Let_def table_index i_def [symmetric] by (simp add: t)
  show "table_word s n = [sys_getpid_at c, sys_wirte_at c, sys_malloc_at c, sys_free_at c] ! (unat n mod 2 ^ 30)" if "unat n mod 2 ^ 30 < 4"
    using that unfolding i_def [symmetric] w t by (simp only: nth_append list.size) simp
  show "table_word s n = NULL" if "4 \<le> unat n mod 2 ^ 30" "unat n mod 2 ^ 30 < 32"
    using that unfolding i_def [symmetric] w t by (simp add: nth_append)
  show "table_word s n = behind_table s (unat n mod 2 ^ 30 - 32)" if "32 \<le> unat n mod 2 ^ 30"
    using that unfolding i_def [symmetric] w by simp
qed

lemma calls:
  assumes "linked c"
  shows "call_at c (sys_getpid_at c) args s = Inr (Some (sys_getpid (um s)), s)"
    "call_at c (sys_wirte_at c) args s = bindR (sys_wirte (fst args) s) (\<lambda>(n, s). Inr (Some n, s))"
    "call_at c (sys_malloc_at c) args s = bindR (sys_malloc (fst args) (um s)) (\<lambda>(r, m). Inr (Some r, s\<lparr>um := m\<rparr>))"
    "call_at c (sys_free_at c) args s = bindR (sys_free (fst args) (um s)) (\<lambda>m. Inr (None, s\<lparr>um := m\<rparr>))"
    "call_at c NULL args s = elsewhere c NULL args s"
  using assms by (auto simp: call_at_def linked_def)

lemma write_string:
  assumes "syscalls_ready c s" "cstr (bytes (um s)) str cs" "str \<noteq> NULL" "console_lock (ucons s) = lock_init" "running_thread (um s) \<noteq> NULL"
  shows "write_call c regs str s = Inr (Some (of_nat (length cs)), s\<lparr>ucons := (ucons s)\<lparr>screen := screen (ucons s) @ cs\<rparr>\<rparr>)"
proof -
  have "strlen (bytes (um s)) str = Inr (of_nat (length cs))" using strlen_cstr [OF assms(2,3)] by simp
  moreover have "linked c" using assms(1) by (simp add: syscalls_ready_def)
  ultimately show ?thesis
    using console_put_str_free [OF assms(2,4,5)]
    by (cases regs) (simp add: write_call_def syscall1_def syscall_handler_def table_words [OF assms(1)] calls sys_wirte_def)
qed

text \<open>C34: After syscall_init a user program reaches the four functions of the kernel with the four numbers,
  whatever the unused registers hold: getpid gives the pid of the running task, write prints a string on a
  free console and returns its length, malloc and free act as sys_malloc and sys_free do for the running
  task. The number is not checked, and only its low 30 bits count: with the same low bits it is the same
  call, from 4 to 31 the kernel calls address 0, and from 32 on it calls whatever address the word behind
  the table holds.\<close>
theorem system_calls_dispatch:
  assumes "linked c" "syscall_table s0 = replicate syscall_nr NULL"
  defines "s \<equiv> syscall_init c s0"
  shows "getpid c regs s = Inr (Some (scast (pid (tasks (um s) (running_thread (um s))))), s)
    \<and> (cstr (bytes (um s)) str cs \<and> str \<noteq> NULL \<and> console_lock (ucons s) = lock_init \<and> running_thread (um s) \<noteq> NULL \<longrightarrow>
        write_call c regs str s = Inr (Some (of_nat (length cs)), s\<lparr>ucons := (ucons s)\<lparr>screen := screen (ucons s) @ cs\<rparr>\<rparr>))
    \<and> malloc c regs sz s = bindR (sys_malloc sz (um s)) (\<lambda>(a, m). Inr (Some a, s\<lparr>um := m\<rparr>))
    \<and> free c regs ptr s = bindR (sys_free ptr (um s)) (\<lambda>m. Inr (s\<lparr>um := m\<rparr>))
    \<and> (let i = unat n mod 2 ^ 30 in
         (i < 4 \<longrightarrow> syscall3 c n a1 a2 a3 s = syscall3 c (of_nat i) a1 a2 a3 s)
       \<and> (4 \<le> i \<and> i < 32 \<longrightarrow> syscall3 c n a1 a2 a3 s = elsewhere c NULL (a1, a2, a3) s)
       \<and> (32 \<le> i \<longrightarrow> syscall3 c n a1 a2 a3 s = call_at c (behind_table s (i - 32)) (a1, a2, a3) s))"
proof -
  have r: "syscalls_ready c s" unfolding s_def by (rule syscall_init_ready [OF assms(1,2)])
  note T = table_words [OF r] and C = calls [OF assms(1)]
  have "getpid c regs s = Inr (Some (sys_getpid (um s)), s)" by (simp add: getpid_def syscall0_def syscall_handler_def T C)
  moreover have "malloc c regs sz s = bindR (sys_malloc sz (um s)) (\<lambda>(a, m). Inr (Some a, s\<lparr>um := m\<rparr>))"
    by (cases regs) (simp add: malloc_def syscall1_def syscall_handler_def T C)
  moreover have "free c regs ptr s = bindR (sys_free ptr (um s)) (\<lambda>m. Inr (s\<lparr>um := m\<rparr>))"
    by (cases regs; cases "sys_free ptr (um s)") (simp_all add: free_def syscall1_def syscall_handler_def T C)
  moreover have "syscall3 c n a1 a2 a3 s = syscall3 c (of_nat (unat n mod 2 ^ 30)) a1 a2 a3 s"
  proof -
    have "unat (of_nat (unat n mod 2 ^ 30) :: u32) = unat n mod 2 ^ 30" by (intro unat_of_nat_u32) simp
    then have "unat (of_nat (unat n mod 2 ^ 30) * 4 :: u32) div 4 = unat (n * 4) div 4" by (simp only: table_index mod_mod_trivial)
    then show ?thesis by (simp only: syscall3_def syscall_handler_def table_word_def)
  qed
  moreover have "4 \<le> unat n mod 2 ^ 30 \<Longrightarrow> unat n mod 2 ^ 30 < 32 \<Longrightarrow> syscall3 c n a1 a2 a3 s = elsewhere c NULL (a1, a2, a3) s"
    "32 \<le> unat n mod 2 ^ 30 \<Longrightarrow> syscall3 c n a1 a2 a3 s = call_at c (behind_table s (unat n mod 2 ^ 30 - 32)) (a1, a2, a3) s"
    by (simp_all only: syscall3_def syscall_handler_def T C)
  ultimately show ?thesis using write_string [OF r] by (simp add: sys_getpid_def Let_def)
qed

definition demo_sys_code :: sys_code where
  "demo_sys_code = \<lparr>sys_getpid_at = 0xc0003000, sys_wirte_at = 0xc0003010, sys_malloc_at = 0xc0003020, sys_free_at = 0xc0003030,
     elsewhere = (\<lambda>a args s. Inl (Bad_access ''call''))\<rparr>"

definition demo_usys :: usys where
  "demo_usys = \<lparr>um = demo_memory\<lparr>bytes := demo_call\<rparr>, ucons = console_init [], syscall_table = replicate syscall_nr NULL,
     behind_table = (\<lambda>_. 0xc0003000)\<rparr>"

lemma demo_usys_fields:
  "syscall_table demo_usys = replicate syscall_nr NULL" "um (syscall_init demo_sys_code demo_usys) = demo_memory\<lparr>bytes := demo_call\<rparr>"
  "ucons (syscall_init demo_sys_code demo_usys) = console_init []" "bytes (demo_memory\<lparr>bytes := demo_call\<rparr>) = demo_call"
  "running_thread (demo_memory\<lparr>bytes := demo_call\<rparr>) = 0xc009e000" "console_lock (console_init []) = lock_init"
  "pid (tasks demo_memory 0xc009e000) = 1" "running_thread demo_memory = 0xc009e000" "linked demo_sys_code"
  "elsewhere demo_sys_code a args s = Inl (Bad_access ''call'')" "behind_table (syscall_init demo_sys_code demo_usys) i = sys_getpid_at demo_sys_code"
  by (simp_all add: demo_usys_def syscall_init_def console_init_def demo_memory_def demo_threads_def demo_task_def kthreads.defs memory.defs
      linked_def demo_sys_code_def)

lemma system_calls_dispatch_witness:
  "getpid demo_sys_code (7, 8, 9) (syscall_init demo_sys_code demo_usys) = Inr (Some 1, syscall_init demo_sys_code demo_usys)
   \<and> (\<exists>s'. write_call demo_sys_code (7, 8, 9) 0x3000 (syscall_init demo_sys_code demo_usys) = Inr (Some 2, s') \<and> screen (ucons s') = [0x6f, 0x6b])
   \<and> syscall3 demo_sys_code 4 1 2 3 (syscall_init demo_sys_code demo_usys) = Inl (Bad_access ''call'')"
proof -
  have c: "cstr demo_call 0x3000 [0x6f, 0x6b]" by (simp add: demo_call_def)
  note F = demo_usys_fields
  have i: "unat (4 :: u32) mod 2 ^ 30 = 4" by simp
  show ?thesis
    using system_calls_dispatch [OF F(9,1), where regs = "(7, 8, 9)" and str = "0x3000" and cs = "[0x6f, 0x6b]" and sz = 0 and ptr = 0 and n = 4
        and ?a1.0 = 1 and ?a2.0 = 2 and ?a3.0 = 3, unfolded i] c
    by (simp add: F(2-8,10) console_init_def)
qed

text \<open>printf, called by a task when the console is free, with a format it knows whose text has fewer than 1024
  characters: it prints that text, returns its length, and writes no memory but its own buffer.\<close>
theorem printf_writes:
  assumes f: "render strs fs args = Some out" "cstr (bytes (um s)) fmt fs" "region fmt (Suc (length fs)) \<subseteq> P"
    and a: "args_at (bytes (um s)) P ap args" "strings_at (bytes (um s)) P strs"
    and b: "region buf 1024 \<inter> P = {}" "0 \<in> P" "length out < 1024" "0 \<notin> set out"
    and k: "console_lock (ucons s) = lock_init" "running_thread (um s) \<noteq> NULL" "syscalls_ready c s"
  shows "\<exists>m'. printf c regs buf fmt ap s = Inr (Some (of_nat (length out)),
       s\<lparr>um := (um s)\<lparr>bytes := m'\<rparr>, ucons := (ucons s)\<lparr>screen := screen (ucons s) @ out\<rparr>\<rparr>)
     \<and> (\<forall>a. a \<notin> region buf 1024 \<longrightarrow> m' a = bytes (um s) a)"
proof -
  obtain m' where m': "vsprintf (memset_loop (bytes (um s)) buf 0 1024) buf fmt ap = Inr (of_nat (length out), m')" "cstr m' buf out"
    "buf \<noteq> NULL" "\<forall>a. a \<notin> region buf 1024 \<longrightarrow> m' a = bytes (um s) a"
    using vsprintf_cleared [OF f a b] by blast
  let ?s = "s\<lparr>um := (um s)\<lparr>bytes := m'\<rparr>\<rparr>"
  have "syscalls_ready c ?s" using k(3) by (simp add: syscalls_ready_def)
  then have "write_call c regs buf ?s = Inr (Some (of_nat (length out)), ?s\<lparr>ucons := (ucons s)\<lparr>screen := screen (ucons s) @ out\<rparr>\<rparr>)"
    using write_string [of c ?s buf out regs] m'(2,3) k(1,2) by simp
  then show ?thesis using m'(1,4) by (intro exI [of _ m']) (simp add: printf_def Let_def)
qed

lemma printf_writes_witness:
  "\<exists>s'. printf demo_sys_code (0, 0, 0) 0x4000 0x1000 0x2000 (syscall_init demo_sys_code demo_usys) = Inr (Some 4, s') \<and> screen (ucons s') = [0x37, 0x3d, 0x6f, 0x6b]"
proof -
  let ?s = "syscall_init demo_sys_code demo_usys"
  note F = demo_usys_fields
  have r: "region 0x4000 1024 \<inter> demo_area = {}"
  proof -
    have "\<not> 0x4000 + of_nat i < (0x4000 :: addr)" if "i < 1024" for i
    proof -
      have "unat (0x4000 + of_nat i :: addr) = 0x4000 + i" using that by (subst unat_add_u32) (simp_all add: unat_of_nat_u32)
      then show ?thesis by (simp add: word_less_nat_alt)
    qed
    then show ?thesis by (auto simp: region_def demo_area_def)
  qed
  have b: "bytes (um ?s) = demo_call" by (simp add: F)
  have z: "length [0x37, 0x3d, 0x6f, 0x6b :: u8] < 1024" "0 \<notin> set [0x37, 0x3d, 0x6f, 0x6b :: u8]"
    "console_lock (ucons ?s) = lock_init" "running_thread (um ?s) \<noteq> NULL" by (simp_all add: F)
  show ?thesis
    using printf_writes [of _ _ _ _ ?s, unfolded b, OF demo_call_ok(1-5) r demo_call_ok(6) z syscall_init_ready [OF F(9,1)], of "(0, 0, 0)"]
    by (auto simp: F console_init_def)
qed

end
