(* ===== verification/Loader.thy ===== *)
theory Loader
  imports Kernel_Pages
begin

text \<open>
  setup_page of root/loader.S: the page directory and the first page table, written into physical memory
  before paging is on, and the two-level walk the processor does afterwards. The page table the other
  theories keep as the window of the recursive entry is what the walk gives for the tables set up here.
\<close>

unbundle bit_operations_syntax

section \<open>setup_page\<close>

text \<open>Physical memory as words at the addresses divisible by four.\<close>

type_synonym phys = "addr \<Rightarrow> u32"

definition PAGE_DIR_TABLE_POS :: addr where "PAGE_DIR_TABLE_POS = 0x100000"

definition clear_page_dir :: "phys \<Rightarrow> phys" where
  "clear_page_dir m = (\<lambda>a. if a AND 0xfffff000 = PAGE_DIR_TABLE_POS then 0 else m a)"

text \<open>The two loops write ecx entries from number esi of the table at ebx on, each for the page that follows.\<close>

fun fill_entries :: "addr \<Rightarrow> nat \<Rightarrow> u32 \<Rightarrow> u32 \<Rightarrow> phys \<Rightarrow> phys" where
  "fill_entries ebx 0 esi e m = m"
| "fill_entries ebx (Suc ecx) esi e m = fill_entries ebx ecx (esi + 1) (e + 0x1000) (m(ebx + esi * 4 := e))"

definition setup_page :: "phys \<Rightarrow> phys" where
  "setup_page m =
     (let m = clear_page_dir m;
          eax = PAGE_DIR_TABLE_POS + 0x1000;
          ebx = eax;
          eax = eax OR PG_US_U OR PG_RW_W OR PG_P_1;
          m = m(PAGE_DIR_TABLE_POS + 0x0 := eax);
          m = m(PAGE_DIR_TABLE_POS + 0xc00 := eax);
          eax = eax - 0x1000;
          m = m(PAGE_DIR_TABLE_POS + 4092 := eax);
          m = fill_entries ebx 256 0 (PG_US_U OR PG_RW_W OR PG_P_1) m;
          eax = (PAGE_DIR_TABLE_POS + 0x2000) OR PG_US_U OR PG_RW_W OR PG_P_1
      in fill_entries PAGE_DIR_TABLE_POS 254 769 eax m)"

section \<open>The walk of the processor\<close>

definition walk :: "phys \<Rightarrow> addr \<Rightarrow> addr \<Rightarrow> addr option" where
  "walk m base va =
     (let pde = m (base + PDE_INDEX va * 4) in
      if \<not> present pde then None
      else let pte = m ((pde AND 0xfffff000) + PTE_INDEX va * 4) in
        if \<not> present pte then None else Some ((pte AND 0xfffff000) + (va AND 0xfff)))"

definition window :: "phys \<Rightarrow> addr \<Rightarrow> ptab" where
  "window m base a = (case walk m base a of None \<Rightarrow> 0 | Some pa \<Rightarrow> m pa)"

section \<open>The tables the loader leaves\<close>

lemma fill_entries_at:
  assumes "unat ebx + 4 * (unat esi + n) \<le> 4294967296"
  shows "fill_entries ebx n esi e m a =
    (if unat ebx + 4 * unat esi \<le> unat a \<and> unat a < unat ebx + 4 * (unat esi + n) \<and> (unat a - unat ebx) mod 4 = 0
     then e + of_nat ((unat a - unat ebx) div 4 - unat esi) * 0x1000 else m a)"
  using assms
proof (induction n arbitrary: esi e m)
  case (Suc n)
  have b: "unat esi < 1073741824" using Suc.prems by presburger
  have w: "unat (ebx + esi * 4) = unat ebx + 4 * unat esi"
  proof -
    have "unat (esi * 4) = unat esi * 4" using b by (subst unat_mult_u32) simp_all
    then show ?thesis using Suc.prems by (subst unat_add_u32) simp_all
  qed
  have s: "unat (esi + 1) = unat esi + 1" using b by (intro unat_Suc_u32) simp
  have ih: "fill_entries ebx n (esi + 1) (e + 0x1000) (m(ebx + esi * 4 := e)) a =
    (if unat ebx + 4 * (unat esi + 1) \<le> unat a \<and> unat a < unat ebx + 4 * (unat esi + 1 + n) \<and> (unat a - unat ebx) mod 4 = 0
     then e + 0x1000 + of_nat ((unat a - unat ebx) div 4 - (unat esi + 1)) * 0x1000 else (m(ebx + esi * 4 := e)) a)"
    using Suc.IH [of "esi + 1"] Suc.prems s by simp
  show ?case
  proof (cases "unat a = unat ebx + 4 * unat esi")
    case True
    then have "a = ebx + esi * 4" using w by (simp add: u32_eq_iff)
    then show ?thesis using True ih by simp
  next
    case False
    then have ne: "a \<noteq> ebx + esi * 4" using w by auto
    show ?thesis
    proof (cases "unat ebx + 4 * (unat esi + 1) \<le> unat a \<and> unat a < unat ebx + 4 * (unat esi + 1 + n) \<and> (unat a - unat ebx) mod 4 = 0")
      case True
      then obtain k where "unat a - unat ebx = 4 * k" by (auto simp: dvd_def mod_eq_0_iff_dvd)
      moreover have "unat ebx \<le> unat a" using True by simp
      ultimately have k: "unat a = unat ebx + 4 * k" by simp
      then have "unat esi + 1 \<le> k" using True by simp
      then have "k - unat esi = Suc (k - (unat esi + 1))" by simp
      then show ?thesis using True ih k by (simp add: algebra_simps)
    next
      case f: False
      have g: "\<not> (unat ebx + 4 * unat esi \<le> unat a \<and> unat a < unat ebx + 4 * (unat esi + Suc n) \<and> (unat a - unat ebx) mod 4 = 0)"
        using f False by presburger
      show ?thesis using ne unfolding fill_entries.simps ih if_not_P [OF f] if_not_P [OF g] by simp
    qed
  qed
qed auto

text \<open>Entry i of the directory; tables 768 to 1022 are the kernel half.\<close>

definition dir_entry :: "nat \<Rightarrow> u32" where
  "dir_entry i = (if i = 0 then 0x101007 else if 768 \<le> i \<and> i \<le> 1022 then 0x101007 + of_nat (i - 768) * 0x1000
     else if i = 1023 then 0x100007 else 0)"

lemma setup_page_entries:
  "setup_page m = fill_entries 0x100000 254 769 0x102007 (fill_entries 0x101000 256 0 7
     ((clear_page_dir m)(0x100000 := 0x101007, 0x100c00 := 0x101007, 0x100ffc := 0x100007)))"
  by (simp add: setup_page_def Let_def PAGE_DIR_TABLE_POS_def PG_US_U_def PG_RW_W_def PG_P_1_def del: fill_entries.simps)

lemma setup_page_dir:
  assumes "unat a = 0x100000 + 4 * i" "i < 1024"
  shows "setup_page m a = dir_entry i"
proof -
  have c: "clear_page_dir m a = 0"
  proof -
    have "page_of a = page_of PAGE_DIR_TABLE_POS" using assms by (simp add: page_of_def PAGE_DIR_TABLE_POS_def)
    then have "a AND 0xfffff000 = PAGE_DIR_TABLE_POS AND 0xfffff000" by (simp only: page_base_eq_iff)
    then show ?thesis by (simp add: clear_page_dir_def PAGE_DIR_TABLE_POS_def)
  qed
  have e: "a = 0x100000 \<longleftrightarrow> i = 0" "a = 0x100c00 \<longleftrightarrow> i = 768" "a = 0x100ffc \<longleftrightarrow> i = 1023"
    using assms by (simp_all add: u32_eq_iff)
  show ?thesis
    unfolding setup_page_entries using assms c
    by (subst fill_entries_at; simp; subst fill_entries_at; simp add: e dir_entry_def)
qed

lemma setup_page_first:
  assumes "unat a = 0x101000 + 4 * j" "j < 1024"
  shows "setup_page m a = (if j < 256 then 7 + of_nat j * 0x1000 else m a)"
proof -
  have c: "clear_page_dir m a = m a"
  proof -
    have "page_of a \<noteq> page_of PAGE_DIR_TABLE_POS" using assms by (simp add: page_of_def PAGE_DIR_TABLE_POS_def)
    then have "a AND 0xfffff000 \<noteq> PAGE_DIR_TABLE_POS AND 0xfffff000" by (simp only: page_base_eq_iff not_False_eq_True)
    then show ?thesis by (simp add: clear_page_dir_def PAGE_DIR_TABLE_POS_def)
  qed
  have e: "a \<noteq> 0x100000" "a \<noteq> 0x100c00" "a \<noteq> 0x100ffc" using assms by (auto simp: u32_eq_iff)
  show ?thesis
    unfolding setup_page_entries using assms c e
    by (simp add: fill_entries_at)
qed

lemma setup_page_above:
  assumes "0x102000 \<le> unat a"
  shows "setup_page m a = m a"
proof -
  have "page_of a \<noteq> page_of PAGE_DIR_TABLE_POS" using assms by (simp add: page_of_def PAGE_DIR_TABLE_POS_def)
  then have "a AND 0xfffff000 \<noteq> PAGE_DIR_TABLE_POS AND 0xfffff000" by (simp only: page_base_eq_iff not_False_eq_True)
  then have c: "clear_page_dir m a = m a" by (simp add: clear_page_dir_def PAGE_DIR_TABLE_POS_def)
  have e: "a \<noteq> 0x100000" "a \<noteq> 0x100c00" "a \<noteq> 0x100ffc" using assms by auto
  show ?thesis
    unfolding setup_page_entries using assms c e
    by (simp add: fill_entries_at)
qed

section \<open>The window is the walk\<close>

lemma unat_PDE_INDEX: "unat (PDE_INDEX v) = unat v div 4194304"
proof -
  have "PDE_INDEX v = drop_bit 22 v"
    unfolding PDE_INDEX_def by (rule bit_word_eqI) (simp only: page_mask_bit bit_drop_bit_eq o_def, auto)
  then show ?thesis by (simp add: drop_bit_eq_div unat_div)
qed

lemma unat_PTE_INDEX: "unat (PTE_INDEX v) = page_of v mod 1024"
proof -
  have "PTE_INDEX v = take_bit 10 (drop_bit 12 v)"
    unfolding PTE_INDEX_def
    by (rule bit_word_eqI) (simp only: page_mask_bit bit_drop_bit_eq bit_take_bit_iff o_def, auto)
  moreover have "unat (drop_bit 12 v) = page_of v" by (simp add: page_of_def drop_bit_eq_div unat_div)
  moreover have "unat (take_bit 10 (drop_bit 12 v)) = unat (drop_bit 12 v) mod 1024"
    by (simp only: unsigned_take_bit_eq) (simp add: take_bit_eq_mod)
  ultimately show ?thesis by (simp only:)
qed

lemma window_index:
  "PDE_INDEX (pte_ptr v) = 1023" "PTE_INDEX (pte_ptr v) = PDE_INDEX v" "pte_ptr v AND 0xfff = PTE_INDEX v * 4"
proof -
  have p: "page_of v < 1048576" using unat_u32_less [of v] by (simp add: page_of_def)
  show "PDE_INDEX (pte_ptr v) = 1023" using p by (simp add: u32_eq_iff unat_PDE_INDEX pte_ptr_eq)
  have q: "(1047552 + q) mod 1024 = q" if "q < 1024" for q :: nat
    using that mod_mult_self1 [of q 1023 1024] by (simp add: add.commute)
  have "unat (PTE_INDEX (pte_ptr v)) = (1047552 + page_of v div 1024) mod 1024"
  proof -
    have "(4290772992 + 4 * n) div 4096 = 1047552 + n div 1024" for n :: nat
      using div_mult_self1 [of 4096 "4 * n" 1047552] div_mult_mult1 [of 4 n 1024] by simp
    then show ?thesis unfolding unat_PTE_INDEX page_of_def [of "pte_ptr v"] pte_ptr_eq by (simp only:)
  qed
  also have "\<dots> = page_of v div 1024" by (rule q) (use p in simp)
  also have "\<dots> = unat (PDE_INDEX v)" unfolding unat_PDE_INDEX by (simp add: page_of_def div_mult2_eq [symmetric])
  finally have "unat (PTE_INDEX (pte_ptr v)) = unat (PDE_INDEX v)" .
  then show "PTE_INDEX (pte_ptr v) = PDE_INDEX v" by (simp only: u32_eq_iff)
  have "unat (PTE_INDEX v * 4) = unat (PTE_INDEX v) * 4" by (subst unat_mult_u32) (simp_all add: unat_PTE_INDEX)
  moreover have "unat (pte_ptr v) mod 4096 = 4 * (page_of v mod 1024)"
    unfolding pte_ptr_eq using mod_mult_self1 [of "4 * page_of v" 1047552 4096] mult_mod_right [of 4 "page_of v" 1024]
    by (simp add: add.commute)
  ultimately show "pte_ptr v AND 0xfff = PTE_INDEX v * 4" by (simp add: u32_eq_iff unat_page_off unat_PTE_INDEX)
qed

definition self_mapped :: "phys \<Rightarrow> addr \<Rightarrow> bool" where
  "self_mapped m base \<longleftrightarrow> present (m (base + 1023 * 4)) \<and> m (base + 1023 * 4) AND 0xfffff000 = base"

lemma window_pte:
  assumes "self_mapped m base"
  shows "window m base (pte_ptr v) = (let pde = m (base + PDE_INDEX v * 4) in
     if present pde then m ((pde AND 0xfffff000) + PTE_INDEX v * 4) else 0)"
  using assms by (simp add: window_def walk_def window_index self_mapped_def Let_def)

lemma window_pde:
  assumes "self_mapped m base"
  shows "window m base (pde_ptr v) = m (base + PDE_INDEX v * 4)"
  using assms unfolding pde_ptr_recursive window_pte [OF assms] by (simp add: window_index self_mapped_def Let_def)

lemma window_walks:
  assumes "self_mapped m base"
  shows "walk m base v = (if present (window m base (pde_ptr v)) \<and> present (window m base (pte_ptr v))
     then Some (addr_v2p (window m base) v) else None)"
  unfolding window_pde [OF assms] addr_v2p_def window_pte [OF assms]
  by (simp add: walk_def Let_def)

section \<open>The kernel half\<close>

text \<open>setup_page clears the directory and not the tables: that the entries above the first megabyte are
  absent is due to memory that held zeros.\<close>

definition tables_zero :: "phys \<Rightarrow> bool" where
  "tables_zero m \<longleftrightarrow> (\<forall>a. 0x101000 \<le> unat a \<longrightarrow> unat a < 0x200000 \<longrightarrow> m a = 0)"

definition loader_ptab :: "phys \<Rightarrow> ptab" where
  "loader_ptab m = window (setup_page m) PAGE_DIR_TABLE_POS"

lemma dir_address: "unat (PAGE_DIR_TABLE_POS + PDE_INDEX v * 4) = 0x100000 + 4 * (unat v div 4194304)"
proof -
  have "unat v div 4194304 < 1024" using unat_u32_less [of v] by simp
  moreover have "unat (PDE_INDEX v * 4) = unat (PDE_INDEX v) * 4" by (subst unat_mult_u32) (use calculation in \<open>simp_all add: unat_PDE_INDEX\<close>)
  ultimately show ?thesis by (subst unat_add_u32) (simp_all add: unat_PDE_INDEX PAGE_DIR_TABLE_POS_def)
qed

lemma loader_self_mapped: "self_mapped (setup_page m) PAGE_DIR_TABLE_POS"
proof -
  have "setup_page m 0x100ffc = dir_entry 1023" by (rule setup_page_dir) simp_all
  then show ?thesis by (simp add: self_mapped_def PAGE_DIR_TABLE_POS_def dir_entry_def present_def)
qed

lemma loader_pde: "loader_ptab m (pde_ptr v) = dir_entry (unat v div 4194304)"
  unfolding loader_ptab_def window_pde [OF loader_self_mapped]
  by (rule setup_page_dir [OF dir_address]) (use unat_u32_less [of v] in simp)

lemma kernel_entry:
  assumes "768 \<le> i" "i \<le> 1022"
  shows "present (dir_entry i)" "unat (dir_entry i AND 0xfffff000) = 0x101000 + 4096 * (i - 768)"
proof -
  have d: "dir_entry i = 0x101007 + of_nat (i - 768) * 0x1000" using assms by (simp add: dir_entry_def)
  have n: "unat (of_nat (i - 768) :: u32) = i - 768" using assms by (intro unat_of_nat_u32) simp
  define w where "w = (of_nat (i - 768) :: u32)"
  have w: "unat w = i - 768" using n by (simp only: w_def)
  have "unat (w * 0x1000) = (i - 768) * 4096" using assms by (subst unat_mult_u32) (simp_all add: w)
  then have u: "unat (dir_entry i) = 0x101007 + 4096 * (i - 768)"
    unfolding d w_def [symmetric] using assms by (subst unat_add_u32) simp_all
  then have "bit (unat (dir_entry i)) 0" by (simp add: bit_0)
  then show "present (dir_entry i)" by (simp add: present_bit bit_unsigned_iff del: bit_0)
  show "unat (dir_entry i AND 0xfffff000) = 0x101000 + 4096 * (i - 768)"
    unfolding unat_page_base by (simp add: page_of_def u)
qed

lemma loader_pte:
  assumes "768 \<le> unat v div 4194304" "unat v div 4194304 \<le> 1022"
  shows "\<exists>a. loader_ptab m (pte_ptr v) = setup_page m a
     \<and> unat a = 0x101000 + 4 * (page_of v - 0xc0000)"
proof -
  let ?i = "unat v div 4194304"
  note K = kernel_entry [OF assms]
  let ?a = "(dir_entry ?i AND 0xfffff000) + PTE_INDEX v * 4"
  have l: "page_of v mod 1024 < 1024" by simp
  have m4: "unat (PTE_INDEX v * 4) = unat (PTE_INDEX v) * 4" by (subst unat_mult_u32) (simp_all add: unat_PTE_INDEX)
  have "unat ?a = 0x101000 + 4096 * (?i - 768) + 4 * (page_of v mod 1024)"
    by (subst unat_add_u32) (use assms l in \<open>simp_all add: K m4 unat_PTE_INDEX\<close>)
  moreover have "?i = page_of v div 1024" by (simp add: page_of_def div_mult2_eq [symmetric])
  moreover have "4096 * (q div 1024 - 768) + 4 * (q mod 1024) = 4 * (q - 0xc0000)" if "768 \<le> q div 1024" for q :: nat
  proof -
    have "4 * q = 4096 * (q div 1024) + 4 * (q mod 1024)" using div_mult_mod_eq [of q 1024] by linarith
    then show ?thesis using that by simp
  qed
  ultimately have "unat ?a = 0x101000 + 4 * (page_of v - 0xc0000)" using assms(1) by simp
  moreover have "loader_ptab m (pte_ptr v) = setup_page m ?a"
    using K(1) setup_page_dir [OF dir_address, of v m] unat_u32_less [of v]
    unfolding loader_ptab_def window_pte [OF loader_self_mapped] by (simp add: Let_def)
  ultimately show ?thesis by blast
qed

lemma loader_first_megabyte:
  assumes "unat v mod 0xc0000000 < 0x100000"
  shows "walk (setup_page m) PAGE_DIR_TABLE_POS v = Some (of_nat (unat v mod 0xc0000000))"
proof -
  let ?j = "(unat v mod 0xc0000000) div 4096"
  have j: "?j < 256" using assms by (simp add: less_mult_imp_div_less)
  have v: "unat v = unat v mod 0xc0000000 \<or> unat v = 0xc0000000 + unat v mod 0xc0000000"
  proof -
    have "unat v div 0xc0000000 < 2" using unat_u32_less [of v] by (simp add: less_mult_imp_div_less)
    then have "unat v div 0xc0000000 = 0 \<or> unat v div 0xc0000000 = 1" by linarith
    then show ?thesis
    proof
      assume "unat v div 0xc0000000 = 0"
      then show ?thesis by (simp add: div_eq_0_iff)
    next
      assume "unat v div 0xc0000000 = 1"
      then have "unat v = 1 * 0xc0000000 + unat v mod 0xc0000000" using div_mult_mod_eq [of "unat v" "0xc0000000"] by simp
      then show ?thesis unfolding mult_1 by (rule disjI2)
    qed
  qed
  have i: "unat v div 4194304 = 0 \<or> unat v div 4194304 = 768"
  proof (rule disjE [OF v])
    assume "unat v = unat v mod 0xc0000000"
    then show ?thesis using assms by (simp add: div_eq_0_iff)
  next
    assume u: "unat v = 0xc0000000 + unat v mod 0xc0000000"
    have "(0xc0000000 + r) div 4194304 = 768 + r div 4194304" for r :: nat
      using div_mult_self1 [of 4194304 r 768] by (simp add: add.commute)
    then have "unat v div 4194304 = 768 + (unat v mod 0xc0000000) div 4194304" using u by metis
    moreover have "(unat v mod 0xc0000000) div 4194304 = 0" using assms by (simp add: div_eq_0_iff)
    ultimately show ?thesis by simp
  qed
  have p: "page_of v mod 1024 = ?j"
  proof (rule disjE [OF v])
    assume "unat v = unat v mod 0xc0000000"
    then have "page_of v = ?j" by (simp add: page_of_def)
    then show ?thesis using j by simp
  next
    assume u: "unat v = 0xc0000000 + unat v mod 0xc0000000"
    have "(0xc0000000 + r) div 4096 = r div 4096 + 1024 * 768" for r :: nat
      using div_mult_self1 [of 4096 r "0xc0000"] by (simp add: add.commute)
    then have "page_of v = ?j + 1024 * 768" using u unfolding page_of_def by metis
    then show ?thesis using mod_mult_self2 [of ?j 1024 768] j by simp
  qed
  have d: "setup_page m (PAGE_DIR_TABLE_POS + PDE_INDEX v * 4) = 0x101007"
    using setup_page_dir [OF dir_address, of v m] i unat_u32_less [of v] by (auto simp: dir_entry_def)
  let ?a = "0x101000 + PTE_INDEX v * 4"
  have "unat (PTE_INDEX v * 4) = unat (PTE_INDEX v) * 4" by (subst unat_mult_u32) (use j in \<open>simp_all add: unat_PTE_INDEX p\<close>)
  then have "unat ?a = 0x101000 + 4 * ?j" using j by (subst unat_add_u32) (simp_all add: unat_PTE_INDEX p)
  then have e: "setup_page m ?a = 7 + of_nat ?j * 0x1000" using setup_page_first [of ?a ?j m] j by simp
  have "unat (of_nat ?j * 0x1000 :: u32) = ?j * 4096"
    using j by (subst unat_mult_u32) (simp_all add: unat_of_nat_u32)
  then have ue: "unat (7 + of_nat ?j * 0x1000 :: u32) = 7 + 4096 * ?j" using j by (subst unat_add_u32) simp_all
  have pr: "present (7 + of_nat ?j * 0x1000)"
  proof -
    have "bit (unat (7 + of_nat ?j * 0x1000 :: u32)) 0" unfolding ue by (simp add: bit_0)
    then show ?thesis by (simp add: present_bit bit_unsigned_iff del: bit_0)
  qed
  have off: "unat v mod 4096 = (unat v mod 0xc0000000) mod 4096" by (rule mod_mod_cancel [symmetric]) simp
  have "unat ((7 + of_nat ?j * 0x1000 :: u32) AND 0xfffff000) = 4096 * ?j" unfolding unat_page_base page_of_def ue by simp
  moreover have "unat (v AND 0xfff) = (unat v mod 0xc0000000) mod 4096" unfolding unat_page_off by (rule off)
  ultimately have "unat (((7 + of_nat ?j * 0x1000) AND 0xfffff000) + (v AND 0xfff)) = unat v mod 0xc0000000"
    using j mult_div_mod_eq [of 4096 "unat v mod 0xc0000000"] by (subst unat_add_u32) simp_all
  then have "((7 + of_nat ?j * 0x1000) AND 0xfffff000) + (v AND 0xfff) = of_nat (unat v mod 0xc0000000)"
    using assms by (simp only: u32_eq_iff) (simp add: unat_of_nat_u32)
  moreover have "present 0x101007" "(0x101007 :: u32) AND 0xfffff000 = 0x101000" by (simp_all add: present_def)
  ultimately show ?thesis using d e pr by (simp add: walk_def)
qed

section \<open>Properties\<close>

text \<open>C35: After setup_page the processor's walk takes the first megabyte of virtual memory and the one from
  0xc0000000 on to the first megabyte of physical memory; and for every virtual address the entries the
  kernel reads through the last entry of the directory (pde_ptr, pte_ptr) decide as the walk does, with
  the frame of addr_v2p.\<close>
theorem loader_maps_kernel:
  "(unat v mod 0xc0000000 < 0x100000 \<longrightarrow> walk (setup_page m) PAGE_DIR_TABLE_POS v = Some (of_nat (unat v mod 0xc0000000)))
   \<and> walk (setup_page m) PAGE_DIR_TABLE_POS v
      = (if present (loader_ptab m (pde_ptr v)) \<and> present (loader_ptab m (pte_ptr v)) then Some (addr_v2p (loader_ptab m) v) else None)"
  using loader_first_megabyte window_walks [OF loader_self_mapped] by (simp add: loader_ptab_def)

lemma loader_maps_kernel_witness:
  "walk (setup_page (\<lambda>_. 0)) PAGE_DIR_TABLE_POS 0xc00b8123 = Some 0xb8123 \<and> walk (setup_page (\<lambda>_. 0)) PAGE_DIR_TABLE_POS 0xb8123 = Some 0xb8123"
  using loader_maps_kernel [of "0xc00b8123" "\<lambda>_. 0"] loader_maps_kernel [of "0xb8123" "\<lambda>_. 0"] by simp

end
