(* ===== verification/Boot.thy ===== *)
theory Boot
  imports Loader Syscall Mount Keyboard
begin

text \<open>
  The start of the kernel: init_all of kernel/init.c runs the initialisation of every part in its order, on
  one state that holds the states of all of them, and main of kernel/main.c follows up to its endless loop.
  \<open>init_core\<close> is init_all up to syscall_init: it asks for no block of the heap, and the lemmas lead from the
  page table of root/loader.S over mem_init and thread_init to the invariants of the kernel's parts. Behind
  it come ide_init and filesys_init, which ask sys_malloc for their buffers; there the answers are the
  argument \<open>mallocs\<close> and not those of the heap in the same state, and a command to a disk is done at once.
  What is said of these two and of main is said for answers that are not NULL. The text these functions
  print is left out.
\<close>

section \<open>The kernel's state\<close>

text \<open>The addresses the linker chose.\<close>

record image =
  code_at :: code
  entry_table :: "nat \<Rightarrow> addr"
  syscall_entry :: addr
  general_handler :: addr
  idt_place :: addr
  tss_place :: addr
  timer_at :: addr
  keyboard_at :: addr
  hd_at :: addr
  sys_at :: sys_code
  behind_calls :: "nat \<Rightarrow> addr"

text \<open>What the BIOS and the loader left at 0x475 and 0xb00, the disks with what they answer to an identify
  command, and what the memory of the buffers holds.\<close>

record env =
  total_mem :: u32
  hd_cnt :: u8
  disks :: "disk_id \<Rightarrow> nat \<Rightarrow> u8 list"
  ident :: "disk_id \<Rightarrow> u8 list"
  key_junk :: "u8 list"
  pad_junk :: "nat \<Rightarrow> u8 list"
  heap_junk :: "nat \<Rightarrow> u8 list"

record kernel =
  ps :: procs
  gates :: "gate_desc list"
  idtr :: "64 word"
  port_log :: "port_write list"
  tss_seg :: tss
  gdt :: "addr \<Rightarrow> gdt_desc"
  gdtr :: "64 word"
  task_reg :: u16
  con :: console
  keys :: kbd
  calls :: "addr list"
  drives :: ide_system
  files :: fs

definition set_vecs :: "vectors \<Rightarrow> kernel \<Rightarrow> kernel" where
  "set_vecs v k = k\<lparr>drives := (drives k)\<lparr>vecs := v\<rparr>\<rparr>"

definition handler_for :: "u8 \<Rightarrow> addr \<Rightarrow> kernel \<Rightarrow> kernel res" where
  "handler_for n f k = bindR (register_handler n f (vecs (drives k))) (\<lambda>v. Inr (set_vecs v k))"

section \<open>init_all\<close>

definition init_idt :: "image \<Rightarrow> kernel \<Rightarrow> kernel" where
  "init_idt im k = (case idt_init (entry_table im) (syscall_entry im) (general_handler im) (idt_place im) of
     (g, v, w, r) \<Rightarrow> (set_vecs v k)\<lparr>gates := g, port_log := port_log k @ w, idtr := r\<rparr>)"

definition init_timer :: "image \<Rightarrow> kernel \<Rightarrow> kernel res" where
  "init_timer im k = (case timer_init of (w, n) \<Rightarrow> handler_for n (timer_at im) (k\<lparr>port_log := port_log k @ w\<rparr>))"

definition init_tss :: "image \<Rightarrow> kernel \<Rightarrow> kernel" where
  "init_tss im k = (case tss_init (tss_place im) (gdt k) of (t, g, r, tr) \<Rightarrow> k\<lparr>tss_seg := t, gdt := g, gdtr := r, task_reg := tr\<rparr>)"

definition init_syscalls :: "image \<Rightarrow> kernel \<Rightarrow> kernel" where
  "init_syscalls im k = k\<lparr>calls := syscall_table (syscall_init (sys_at im)
     \<lparr>um = mm (ps k), ucons = con k, syscall_table = calls k, behind_table = behind_calls im\<rparr>)\<rparr>"

definition init_core :: "image \<Rightarrow> env \<Rightarrow> kernel \<Rightarrow> kernel res" where
  "init_core im e k =
     (let k = init_idt im k in
      bindR (mem_init (total_mem e) (mm (ps k))) (\<lambda>m. let k = k\<lparr>ps := (ps k)\<lparr>mm := m\<rparr>\<rparr> in
      bindR (init_timer im k) (\<lambda>k.
      bindR (thread_init (code_at im) (ps k)) (\<lambda>p. let k = k\<lparr>ps := p, con := console_init (screen (con k)), keys := keyboard_init (key_junk e)\<rparr> in
      bindR (handler_for 0x21 (keyboard_at im) k) (\<lambda>k. Inr (init_syscalls im (init_tss im k)))))))"

fun part_at :: "scan \<Rightarrow> part_ref \<Rightarrow> part" where
  "part_at st (Prim d i) = prim_parts st d ! i"
| "part_at st (Logic d i) = logic_parts st d ! i"

definition init_files :: "env \<Rightarrow> kernel \<Rightarrow> kernel res" where
  "init_files e k = (let st = scans (drives k); channel_cnt = (ucast (DIV_ROUND_UP (ucast (hd_cnt e)) 2) :: u8) in
     bindR (filesys_init (pad_junk e) (heap_junk e) (map (\<lambda>c. prim_parts st (c, 1) @ logic_parts st (c, 1)) [0..<unat channel_cnt])
         (map (part_at st) (partition_list st)) ((files k)\<lparr>disk := disks e (0, 1)\<rparr>)) (\<lambda>s. Inr (k\<lparr>files := s\<rparr>)))"

definition init_all :: "image \<Rightarrow> env \<Rightarrow> kernel \<Rightarrow> kernel res" where
  "init_all im e k =
     bindR (init_core im e k) (\<lambda>k.
     bindR (ide_init (hd_cnt e) (disks e) (ident e) (hd_at im) (drives k)) (\<lambda>d.
       init_files e (k\<lparr>drives := d\<rparr>)))"

section \<open>main\<close>

text \<open>The files of the running task are those in its PCB. st1 and st2 are what the stack holds in the calls.\<close>

definition put_fds :: "u32 list \<Rightarrow> procs \<Rightarrow> procs" where
  "put_fds v p = upd_pcb (\<lambda>t. t\<lparr>fd_table := v\<rparr>) (running_thread (mm p)) p"

definition kernel_main :: "image \<Rightarrow> env \<Rightarrow> u8 list \<times> u8 list \<times> u8 list \<Rightarrow> u8 list \<times> u8 list \<times> u8 list \<Rightarrow> kernel \<Rightarrow> ((u32 \<times> u32) \<times> kernel) res" where
  "kernel_main im e st1 st2 k =
     bindR (init_all im e k) (\<lambda>k.
       let m = (mm (ps k))\<lparr>intr := snd (intr_enable (intr (mm (ps k))))\<rparr>; p = (ps k)\<lparr>mm := m\<rparr> in
       bindR (main_files st1 st2 ((files k)\<lparr>fds := fd_table (tasks m (running_thread m))\<rparr>)) (\<lambda>(r, s).
         Inr (r, k\<lparr>files := s, ps := put_fds (fds s) p\<rparr>)))"

section \<open>Memory at the start\<close>

lemma heap_page_unmapped:
  assumes z: "tables_zero m" and i: "i < 32768"
  shows "present (loader_ptab m (pde_ptr (page_at K_HEAP_START i)))" "\<not> present (loader_ptab m (pte_ptr (page_at K_HEAP_START i)))"
proof -
  let ?v = "page_at K_HEAP_START i"
  have u: "unat ?v = 0xc0100000 + 4096 * i" using i by (subst unat_page_at) (simp_all add: K_HEAP_START_def)
  have d: "768 \<le> unat ?v div 4194304" "unat ?v div 4194304 \<le> 1022"
  proof -
    have "768 * 4194304 \<le> unat ?v" "unat ?v < 1023 * 4194304" unfolding u using i by simp_all
    then show "768 \<le> unat ?v div 4194304" "unat ?v div 4194304 \<le> 1022"
      using div_le_mono [of "768 * 4194304" "unat ?v" 4194304] less_mult_imp_div_less [of "unat ?v" 1023 4194304] by simp_all
  qed
  show "present (loader_ptab m (pde_ptr ?v))" unfolding loader_pde by (rule kernel_entry(1) [OF d])
  have p: "page_of ?v = 0xc0100 + i" unfolding page_of_def u using div_mult_self1 [of 4096 "0xc0100000" i] by (simp add: add.commute mult.commute)
  obtain a where a: "loader_ptab m (pte_ptr ?v) = setup_page m a" "unat a = 0x101000 + 4 * (page_of ?v - 0xc0000)"
    using loader_pte [OF d] by blast
  have ua: "unat a = 0x101000 + 4 * (256 + i)" using a(2) p by simp
  have "setup_page m a = m a"
  proof (cases "256 + i < 1024")
    case True
    then show ?thesis using setup_page_first [OF ua] by simp
  next
    case False
    then show ?thesis using ua by (intro setup_page_above) simp
  qed
  moreover have "m a = 0" using z ua i by (simp add: tables_zero_def)
  ultimately show "\<not> present (loader_ptab m (pte_ptr ?v))" using a(1) by (simp add: present_def)
qed

lemma mem_init_booted:
  assumes mem: "0x200000 \<le> all_mem" "16 \<le> counted_pages all_mem" and z: "tables_zero phys" "ptab (mm p) = loader_ptab phys"
    and t: "page_aligned (running_thread (mm p))" "running_thread (mm p) \<noteq> NULL" "running_thread (mm p) < K_HEAP_START" "next_pid (mm p) = 0"
  defines "n \<equiv> 8 * (counted_pages all_mem div 16)"
  shows "\<exists>m. mem_init all_mem (mm p) = Inr m \<and> booted (p\<lparr>mm := m\<rparr>) \<and> room 0 n m \<and> 0 < n \<and> k_block_descs m = block_init
     \<and> running_thread m = running_thread (mm p) \<and> intr m = intr (mm p)"
proof -
  obtain s where s: "mem_pool_init all_mem (mm p) = Inr s" "pools_ok s" "\<forall>pf. \<forall>i < pool_pages pf s. \<not> page_used pf s i"
    "\<forall>i < vpages PF_KERNEL s. \<not> vused PF_KERNEL s i" "vpages PF_KERNEL s = pool_pages PF_KERNEL s"
    "pool_pages PF_KERNEL s = 8 * (counted_pages all_mem div 16)" "vrange_ok PF_KERNEL s" "vaddr_start (kernel_vaddr s) = K_HEAP_START"
    "s = (mm p)\<lparr>kernel_pool := kernel_pool s, user_pool := user_pool s, kernel_vaddr := kernel_vaddr s\<rparr>"
    using mem_pool_init_pools [OF mem(1), of "mm p"] by blast
  have keep: "ptab s = loader_ptab phys" "running_thread s = running_thread (mm p)" "next_pid s = 0" "intr s = intr (mm p)"
    by (subst s(9); simp add: z t)+
  have n: "0 < pool_pages PF_KERNEL s" "pool_pages PF_KERNEL s < 32768"
  proof -
    have "counted_pages all_mem < 65536" by (simp add: counted_pages_def)
    then have "counted_pages all_mem div 16 < 4096" by (simp add: less_mult_imp_div_less)
    then show "0 < pool_pages PF_KERNEL s" "pool_pages PF_KERNEL s < 32768" unfolding s(6) using mem(2) by (simp_all add: div_greater_zero_iff)
  qed
  have vp: "vpage PF_KERNEL s i = page_at K_HEAP_START i" for i using s(8) by (simp add: vpage_def vaddr_pool_def)
  have "mapping_ok PF_KERNEL s"
    unfolding mapping_ok_def vp keep(1) using s(4,5) n(2) heap_page_unmapped [OF z(1)] by auto
  then have sp: "space_ok PF_KERNEL s" using s(2,7) by (simp add: space_ok_def)
  have "{i. i < pool_pages PF_KERNEL s \<and> \<not> page_used PF_KERNEL s i} = {0..<pool_pages PF_KERNEL s}" using s(3) by auto
  then have rm: "room 0 (pool_pages PF_KERNEL s) s" using s(4,5) by (simp add: room_def vfree_run_def free_frames_def)
  let ?m = "s\<lparr>k_block_descs := block_init\<rparr>"
  have ss: "same_space s ?m" by (simp add: same_space_def)
  note S = same_spaceD [OF ss]
  have "booted (p\<lparr>mm := ?m\<rparr>)" using t keep sp S(1) s(8) by (simp add: booted_def)
  moreover have "room 0 (pool_pages PF_KERNEL s) ?m" using rm S(4) by blast
  ultimately show ?thesis using n(1) s(1,6) keep n_def by (intro exI [of _ ?m]) (simp add: mem_init_def)
qed

lemma proc_inv_fds:
  assumes "proc_inv p"
  shows "proc_inv (put_fds v (p\<lparr>mm := (mm p)\<lparr>intr := i\<rparr>\<rparr>))"
proof -
  let ?q = "put_fds v (p\<lparr>mm := (mm p)\<lparr>intr := i\<rparr>\<rparr>)"
  have ss: "same_space (mm p) (mm ?q)" by (simp add: same_space_def put_fds_def upd_pcb_def upd_task_def)
  note S = same_spaceD [OF ss]
  have E: "thread_all_list (mm ?q) = thread_all_list (mm p)" "thread_ready_list (mm ?q) = thread_ready_list (mm p)"
    "running_thread (mm ?q) = running_thread (mm p)" "idle_thread (mm ?q) = idle_thread (mm p)" "main_thread (mm ?q) = main_thread (mm p)"
    "next_pid (mm ?q) = next_pid (mm p)" "kernel_vaddr (mm ?q) = kernel_vaddr (mm p)" "pid_lock ?q = pid_lock p"
    "status (tasks (mm ?q) t) = status (tasks (mm p) t)" "pid (tasks (mm ?q) t) = pid (tasks (mm p) t)"
    "stack_magic (tasks (mm ?q) t) = stack_magic (tasks (mm p) t)" for t
    by (simp_all add: put_fds_def upd_pcb_def upd_task_def)
  have L: "live (mm ?q) = live (mm p)" "task_list (mm ?q) = task_list (mm p)" by (simp_all add: live_def [abs_def] task_list_def E)
  show ?thesis
    using assms unfolding proc_inv_def pcbs_ok_def sched_inv_def sched_mid_def L E S .
qed

section \<open>From power on to the endless loop\<close>

text \<open>The state in which main is entered: the page table setup_page left, the first stack, and variables that
  are zero.\<close>

definition power_on :: "phys \<Rightarrow> kernel \<Rightarrow> bool" where
  "power_on phys k \<longleftrightarrow> tables_zero phys \<and> ptab (mm (ps k)) = loader_ptab phys
     \<and> running_thread (mm (ps k)) = 0xc009e000 \<and> next_pid (mm (ps k)) = 0 \<and> calls k = replicate syscall_nr NULL"

definition drives_off :: "kernel \<Rightarrow> bool" where
  "drives_off k \<longleftrightarrow> length (channels (drives k)) = 2 \<and> ext_lba_base (scans (drives k)) = 0
     \<and> length (prim_parts (scans (drives k)) (0, 1)) = 4 \<and> length (logic_parts (scans (drives k)) (0, 1)) = 8
     \<and> (\<forall>q \<in> set (prim_parts (scans (drives k)) (0, 1)) \<union> set (logic_parts (scans (drives k)) (0, 1)). part_size q = 0)
     \<and> length (file_table (files k)) = 32"

text \<open>Sixteen counted pages, half of them the kernel's, and a second disk with one primary partition, of n sectors
  from b on, that has no file system.\<close>

definition fresh_pc :: "env \<Rightarrow> u32 \<Rightarrow> u32 \<Rightarrow> bool" where
  "fresh_pc e b n \<longleftrightarrow> 0x200000 \<le> total_mem e \<and> 16 \<le> counted_pages (total_mem e) \<and> (hd_cnt e = 1 \<or> hd_cnt e = 2)
     \<and> (\<forall>d. length (ident e d) = 512) \<and> length (pad_junk e 0) = 460 \<and> heap_junk e 0 = replicate 311296 0
     \<and> disk_ok (disks e (0, 1)) \<and> mbr_layout (disks e (0, 1)) [(b, n)] []
     \<and> 620 \<le> unat n \<and> unat n \<le> 4707 \<and> unat b + 4708 \<le> 163840 \<and> le32 (disks e (0, 1) (unat b + 1)) 0 \<noteq> 0x20250325"

definition sdb1 :: "u32 \<Rightarrow> u32 \<Rightarrow> part" where
  "sdb1 b n = \<lparr>part_start = b, part_size = n, my_disk = (0, 1), part_name = default_part\<rparr>"

lemma scanned_one:
  assumes "scanned [(b, n)] [] st st'" "\<forall>q \<in> set (prim_parts st (0, 1)) \<union> set (logic_parts st (0, 1)). part_size q = 0"
  shows "map (part_at st') (partition_list st') = [sdb1 b n]" "(prim_parts st' (0, 1) @ logic_parts st' (0, 1)) ! 0 = sdb1 b n"
    "\<forall>i. 1 \<le> i \<and> i < 12 \<longrightarrow> part_size ((prim_parts st' (0, 1) @ logic_parts st' (0, 1)) ! i) = 0"
proof -
  have e: "entry (0, 1) [0x73, 0x64, 0x62] (of_nat 0 + 1) (b, n) = sdb1 b n"
    by (simp add: entry_def sdb1_def default_part_def decimal_def) (subst digits.simps, simp add: digit_char_def)
  obtain q qs where q: "prim_parts st' (0, 1) = q # qs" using assms(1) by (cases "prim_parts st' (0, 1)") (simp_all add: scanned_def)
  have c: "length (prim_parts st' (0, 1)) = 4" "length (logic_parts st' (0, 1)) = 8" "logic_parts st' (0, 1) = logic_parts st (0, 1)"
    using assms(1) unfolding scanned_def by (blast, blast, simp)
  have l: "length qs = 3" "length (logic_parts st (0, 1)) = 8" using c(1) [unfolded q] c(2) [unfolded c(3)] by simp_all
  have S: "q = sdb1 b n" "qs = drop 1 (prim_parts st (0, 1))" "logic_parts st' (0, 1) = logic_parts st (0, 1)"
    "partition_list st' = [Prim (0, 1) 0]"
    using assms(1) q e by (simp_all add: scanned_def)
  show "map (part_at st') (partition_list st') = [sdb1 b n]" "(prim_parts st' (0, 1) @ logic_parts st' (0, 1)) ! 0 = sdb1 b n"
    using S q by simp_all
  show "\<forall>i. 1 \<le> i \<and> i < 12 \<longrightarrow> part_size ((prim_parts st' (0, 1) @ logic_parts st' (0, 1)) ! i) = 0"
  proof (intro allI impI)
    fix i assume i: "1 \<le> i \<and> i < (12 :: nat)"
    have "(prim_parts st' (0, 1) @ logic_parts st' (0, 1)) ! i = (qs @ logic_parts st (0, 1)) ! (i - 1)"
      unfolding q S(3) append_Cons using i by (simp only: nth_Cons') simp
    moreover have "(qs @ logic_parts st (0, 1)) ! (i - 1) \<in> set (qs @ logic_parts st (0, 1))"
      using i l by (intro nth_mem) (simp, arith)
    moreover have "set (qs @ logic_parts st (0, 1)) \<subseteq> set (prim_parts st (0, 1)) \<union> set (logic_parts st (0, 1))"
      unfolding S(2) by (auto dest: in_set_dropD)
    ultimately show "part_size ((prim_parts st' (0, 1) @ logic_parts st' (0, 1)) ! i) = 0" using assms(2) by auto
  qed
qed

lemma rootfs_fds: "rootfs p (s\<lparr>fds := v\<rparr>) = rootfs p s"
  by (simp add: rootfs_def synced_def agree_def dir_ready_def)

text \<open>Up to syscall_init.\<close>

definition core_ready :: "image \<Rightarrow> env \<Rightarrow> kernel \<Rightarrow> kernel \<Rightarrow> bool" where
  "core_ready im e k k' \<longleftrightarrow> proc_inv (ps k') \<and> kernel_start (code_at im) (ps k')
     \<and> room 1 (8 * (counted_pages (total_mem e) div 16) - 1) (mm (ps k'))
     \<and> (\<exists>idle. task_list (mm (ps k')) = [0xc009e000, idle])
     \<and> running_thread (mm (ps k')) = 0xc009e000 \<and> intr (mm (ps k')) = intr (mm (ps k))
     \<and> fd_table (tasks (mm (ps k')) 0xc009e000) = [0, 1, 2] @ replicate 5 (- 1)
     \<and> gates k' = idt_desc_init (entry_table im) (syscall_entry im)
     \<and> idt_table (vecs (drives k')) = (replicate 0x81 (general_handler im))[0x20 := timer_at im, 0x21 := keyboard_at im]
     \<and> port_log k' = port_log k @ pic_init @ fst timer_init
     \<and> (tss_seg k', gdt k', gdtr k', task_reg k') = tss_init (tss_place im) (gdt k)
     \<and> syscalls_ready (sys_at im) \<lparr>um = mm (ps k'), ucons = con k', syscall_table = calls k', behind_table = behind_calls im\<rparr>
     \<and> con k' = console_init (screen (con k)) \<and> keys k' = keyboard_init (key_junk e)
     \<and> files k' = files k \<and> channels (drives k') = channels (drives k) \<and> scans (drives k') = scans (drives k)"

lemma init_core_runs:
  assumes k: "power_on phys k" and e: "0x200000 \<le> total_mem e" "16 \<le> counted_pages (total_mem e)" and lk: "linked (sys_at im)"
  shows "\<exists>k'. init_core im e k = Inr k' \<and> core_ready im e k k'"
proof -
  note K = k [unfolded power_on_def]
  let ?m = "mm (ps k)" and ?t = "0xc009e000 :: addr" and ?n = "8 * (counted_pages (total_mem e) div 16)"
  obtain m1 where m1: "mem_init (total_mem e) ?m = Inr m1" "booted ((ps k)\<lparr>mm := m1\<rparr>)" "room 0 ?n m1" "0 < ?n" "running_thread m1 = ?t" "intr m1 = intr ?m"
  proof -
    have "page_aligned (running_thread ?m)" "running_thread ?m \<noteq> NULL" "running_thread ?m < K_HEAP_START"
      using K by (simp_all add: page_aligned_def K_HEAP_START_def)
    then show ?thesis using that mem_init_booted [of "total_mem e" phys "ps k"] K e by auto
  qed
  let ?p1 = "(ps k)\<lparr>mm := m1\<rparr>"
  have rm: "room 0 ?n (mm ?p1)" using m1(3) by simp
  obtain p where p: "thread_init (code_at im) ?p1 = Inr p" "proc_inv p" "task_list (mm p) = [main_thread (mm p), idle_thread (mm p)]"
    "running_thread (mm p) = ?t" "main_thread (mm p) = ?t" "fd_table (tasks (mm p) ?t) = [0, 1, 2] @ replicate 5 (- 1)"
    "room 1 (?n - 1) (mm p)" "intr (mm p) = intr ?m"
    using thread_init_runs [OF m1(2) rm m1(4), of "code_at im"] m1(5,6) by auto
  have ks: "kernel_start (code_at im) p" unfolding kernel_start_def using m1(2,4) rm p(1) by blast
  let ?v = "exception_init (general_handler im)"
  let ?d = "(drives k)\<lparr>vecs := ?v\<lparr>idt_table := (idt_table ?v)[0x20 := timer_at im, 0x21 := keyboard_at im]\<rparr>\<rparr>"
  have lv: "idt_table ?v = replicate 0x81 (general_handler im)" by (simp add: exception_init_def Let_def IDT_DESC_CNT_def)
  let ?k1 = "(init_idt im k)\<lparr>ps := ?p1, port_log := port_log (init_idt im k) @ fst timer_init, drives := (drives k)\<lparr>vecs := ?v\<lparr>idt_table := (idt_table ?v)[0x20 := timer_at im]\<rparr>\<rparr>\<rparr>"
  let ?k2 = "?k1\<lparr>ps := p, con := console_init (screen (con k)), keys := keyboard_init (key_junk e), drives := ?d\<rparr>"
  let ?k3 = "init_syscalls im (init_tss im ?k2)"
  have I: "ps (init_idt im k) = ps k" "drives (init_idt im k) = (drives k)\<lparr>vecs := ?v\<rparr>" "con (init_idt im k) = con k" "files (init_idt im k) = files k"
    "calls (init_idt im k) = calls k" "gates (init_idt im k) = idt_desc_init (entry_table im) (syscall_entry im)"
    "port_log (init_idt im k) = port_log k @ pic_init" "gdt (init_idt im k) = gdt k"
    by (simp_all add: init_idt_def idt_init_def set_vecs_def)
  have A: "ps (init_syscalls im (init_tss im q)) = ps q" "drives (init_syscalls im (init_tss im q)) = drives q"
    "files (init_syscalls im (init_tss im q)) = files q" "con (init_syscalls im (init_tss im q)) = con q"
    "keys (init_syscalls im (init_tss im q)) = keys q" "gates (init_syscalls im (init_tss im q)) = gates q"
    "port_log (init_syscalls im (init_tss im q)) = port_log q"
    "(tss_seg (init_syscalls im (init_tss im q)), gdt (init_syscalls im (init_tss im q)), gdtr (init_syscalls im (init_tss im q)),
      task_reg (init_syscalls im (init_tss im q))) = tss_init (tss_place im) (gdt q)" for q
    by (simp_all add: init_syscalls_def init_tss_def split: prod.splits)
  have t: "init_timer im ((init_idt im k)\<lparr>ps := ?p1\<rparr>) = Inr ?k1"
    by (simp add: init_timer_def timer_init_def handler_for_def register_handler_def set_vecs_def I lv)
  have h: "handler_for 0x21 (keyboard_at im) (?k1\<lparr>ps := p, con := console_init (screen (con ?k1)), keys := keyboard_init (key_junk e)\<rparr>) = Inr ?k2"
    by (simp add: handler_for_def register_handler_def set_vecs_def I lv)
  have run: "init_core im e k = Inr ?k3"
    unfolding init_core_def Let_def I(1) m1(1) bindR_simps t using p(1) h by simp
  have "calls ?k3 = syscall_table (syscall_init (sys_at im) \<lparr>um = mm p, ucons = con ?k3, syscall_table = calls k, behind_table = behind_calls im\<rparr>)"
    by (simp add: init_syscalls_def init_tss_def I split: prod.splits)
  then have "syscalls_ready (sys_at im) \<lparr>um = mm (ps ?k3), ucons = con ?k3, syscall_table = calls ?k3, behind_table = behind_calls im\<rparr>"
    using syscall_init_ready [OF lk, of "\<lparr>um = mm p, ucons = con ?k3, syscall_table = calls k, behind_table = behind_calls im\<rparr>"] K
    by (simp add: syscalls_ready_def)
  moreover have "\<exists>idle. task_list (mm (ps ?k3)) = [?t, idle]" using p(3,5) by (simp add: A)
  ultimately have "core_ready im e k ?k3"
    unfolding core_ready_def using p(2,4,6-8) ks lv by (simp add: A I)
  then show ?thesis using run by blast
qed

lemma init_all_runs:
  assumes k: "power_on phys k" "drives_off k" "linked (sys_at im)" and e: "fresh_pc e b n"
    and m: "mallocs (files k) = [g, f, m1, m2, m3, m4, x, y] @ ms" "0 \<notin> set [g, f, m1, m2, m3, m4, x, y]" "x \<noteq> y"
  shows "\<exists>k0 k'. core_ready im e k k0 \<and> init_all im e k = Inr k' \<and> ps k' = ps k0 \<and> calls k' = calls k0
     \<and> idt_table (vecs (drives k')) = (idt_table (vecs (drives k0)))[0x2e := hd_at im]
     \<and> rootfs (sdb1 b n) (files k') \<and> d_inode (root_dir (files k')) = x \<and> mallocs (files k') = ms \<and> junk (files k') = junk (files k)
     \<and> file_table (files k') = map (\<lambda>f. f\<lparr>fd_inode := NULL\<rparr>) (file_table (files k))"
proof -
  note D = k(2) [unfolded drives_off_def] and E = e [unfolded fresh_pc_def]
  obtain k0 where k0: "init_core im e k = Inr k0" "core_ready im e k k0" using init_core_runs [OF k(1) _ _ k(3)] E by blast
  note C = k0(2) [unfolded core_ready_def]
  have lv: "length (idt_table (vecs (drives k0))) = 0x81" using C by simp
  obtain d where d: "ide_init (hd_cnt e) (disks e) (ident e) (hd_at im) (drives k0) = Inr d" "scanned [(b, n)] [] (scans (drives k)) (scans d)"
    "vecs d = (vecs (drives k0))\<lparr>idt_table := (idt_table (vecs (drives k0)))[0x2e := hd_at im]\<rparr>"
    using ide_init_result [of "hd_cnt e" "disks e" "[(b, n)]" "[]" "ident e" "drives k0" "hd_at im"] C D E lv by auto
  note one = scanned_one [OF d(2)]
  let ?parts = "prim_parts (scans d) (0, 1) @ logic_parts (scans d) (0, 1)" and ?f = "(files k)\<lparr>disk := disks e (0, 1)\<rparr>"
  have pt: "one_partition (sdb1 b n) ?parts (disk ?f)" using one D E by (simp add: one_partition_def sdb1_def)
  have mf: "mallocs ?f = [g, f, m1, m2, m3, m4, x, y] @ ms" using m(1) by simp
  obtain s where s: "filesys_init (pad_junk e) (heap_junk e) (?parts # []) [sdb1 b n] ?f = Inr s" "rootfs (sdb1 b n) s" "d_inode (root_dir s) = x"
    "mallocs s = ms" "junk s = junk ?f" "file_table s = map (\<lambda>f. f\<lparr>fd_inode := NULL\<rparr>) (file_table ?f)"
    by (rule filesys_init_fresh [where pads = "pad_junk e" and bufs = "heap_junk e" and chans = "[]", OF pt _ _ mf m(2,3)]) (use E that in auto)
  have ch: "unat (ucast (DIV_ROUND_UP (ucast (hd_cnt e) :: u32) 2) :: u8) = 1"
    using E by (auto simp: DIV_ROUND_UP_def)
  have f: "init_files e (k0\<lparr>drives := d\<rparr>) = Inr (k0\<lparr>drives := d, files := s\<rparr>)"
    using s(1) one(1) D C by (simp add: init_files_def Let_def ch)
  have run: "init_all im e k = Inr (k0\<lparr>drives := d, files := s\<rparr>)"
    unfolding init_all_def k0(1) bindR_simps d(1) by (rule f)
  then show ?thesis using k0(2) d(3) s by (intro exI [of _ k0] exI [of _ "k0\<lparr>drives := d, files := s\<rparr>"]) simp
qed

section \<open>Properties\<close>

text \<open>C5: From power on, with the page table of the loader and memory of which at least sixteen pages are
  counted, init_all gets through idt_init, mem_init, timer_init, thread_init, console_init, keyboard_init,
  tss_init and syscall_init, whatever the rest of the state holds. Then main and idle are the tasks, main
  runs with interrupts as before and has the three standard descriptors, and the invariant of tasks, pages
  and pids holds: it is a state from which the kernel of C6 starts. Of the kernel's half of the counted
  pages all but the one for idle are free and lie behind each other. The gates are those of kernel.S, the
  handlers of timer and keyboard are entered and every other vector has the general one; the controllers
  and the counter have been programmed in this order; the TSS and its descriptor are loaded; the system
  calls are the four of the kernel; the console is free and the keyboard's ring is empty. The disks and the
  files have not been touched.\<close>
theorem kernel_core_starts:
  assumes "power_on phys k" "0x200000 \<le> total_mem e" "16 \<le> counted_pages (total_mem e)" "linked (sys_at im)"
  shows "\<exists>k' idle. init_core im e k = Inr k' \<and> proc_inv (ps k') \<and> kernel_start (code_at im) (ps k')
     \<and> task_list (mm (ps k')) = [0xc009e000, idle] \<and> running_thread (mm (ps k')) = 0xc009e000
     \<and> intr (mm (ps k')) = intr (mm (ps k)) \<and> fd_table (tasks (mm (ps k')) 0xc009e000) = [0, 1, 2] @ replicate 5 (- 1)
     \<and> room 1 (8 * (counted_pages (total_mem e) div 16) - 1) (mm (ps k'))
     \<and> gates k' = idt_desc_init (entry_table im) (syscall_entry im)
     \<and> idt_table (vecs (drives k')) = (replicate 0x81 (general_handler im))[0x20 := timer_at im, 0x21 := keyboard_at im]
     \<and> port_log k' = port_log k @ pic_init @ fst timer_init
     \<and> (tss_seg k', gdt k', gdtr k', task_reg k') = tss_init (tss_place im) (gdt k)
     \<and> calls k' = [sys_getpid_at (sys_at im), sys_wirte_at (sys_at im), sys_malloc_at (sys_at im), sys_free_at (sys_at im)] @ replicate 28 NULL
     \<and> con k' = console_init (screen (con k)) \<and> keys k' = keyboard_init (key_junk e)
     \<and> files k' = files k \<and> channels (drives k') = channels (drives k) \<and> scans (drives k') = scans (drives k)"
proof -
  obtain k' where k': "init_core im e k = Inr k'" "core_ready im e k k'" using init_core_runs [OF assms] by blast
  note C = k'(2) [unfolded core_ready_def syscalls_ready_def, simplified]
  obtain idle where "task_list (mm (ps k')) = [0xc009e000, idle]" using C by blast
  then show ?thesis using k'(1) C by (intro exI [of _ k'] exI [of _ idle]) simp
qed

text \<open>main behind init_all, for answers of sys_malloc that are not NULL (whether the heap of this kernel gives
  them is not said: formatting asks for 311296 bytes, for which a machine with sixteen counted pages has no
  room, and then the code writes through NULL), with a second disk that has one unformatted partition and
  answers at once: main reaches its endless loop. Then interrupts are on; the PCB of main holds the
  descriptors 3 and 4; bitmaps agree on disk and in memory and the inodes 1 and 2 are on the disk. But the
  root directory finds /hongbai only: the entry of /file1 is lost. (The answers of sys_malloc may repeat
  freed blocks, and the block in which a search gathers the pointers holds zeros.)\<close>
theorem main_runs:
  assumes "power_on phys k" "drives_off k" "linked (sys_at im)" "fresh_pc e b n"
    "mallocs (files k) = [g, f, m1, m2, m3, m4, a, z, x1, x2, y1, i1, x3, x4, y2, i2, x5, x6] @ ms"
    "0 \<notin> set [g, f, m1, m2, m3, m4, a, z, x1, x2, y1, i1, x3, x4, y2, i2, x5, x6]"
    "a \<noteq> z" "y1 \<noteq> i1" "y2 \<noteq> i2" "distinct [a, i1, i2]" "\<forall>q \<in> set (take 128 (junk (files k))). q = 0"
    "length a1 = 16" "length b1 = 16" "length e2 = 24" "length a2 = 16" "length b2 = 16"
  shows "\<exists>k' idle. kernel_main im e (e1, a1, b1) (e2, a2, b2) k = Inr ((3, 4), k')
     \<and> intr (mm (ps k')) = INTR_ON \<and> proc_inv (ps k') \<and> task_list (mm (ps k')) = [0xc009e000, idle]
     \<and> idt_table (vecs (drives k')) = (replicate 0x81 (general_handler im))[0x20 := timer_at im, 0x21 := keyboard_at im, 0x2e := hd_at im]
     \<and> fd_table (tasks (mm (ps k')) 0xc009e000) = [0, 1, 2, 3, 4, - 1, - 1, - 1]
     \<and> synced (files k') \<and> open_inodes (cur_part (files k')) = [i2, i1, a]
     \<and> (\<forall>j \<in> {1, 2}. disk_inode (format_sb b n) (disk (files k')) j = inode_init (of_nat j))
     \<and> (\<forall>e. length e = 24 \<longrightarrow>
          search_dir_entry Root_dir (padded hongbai) e (files k') = Inr (Some (entry_bytes hongbai 2 1), (files k')\<lparr>mallocs := ms\<rparr>)
        \<and> search_dir_entry Root_dir (padded file1) e (files k') = Inr (None, (files k')\<lparr>mallocs := ms\<rparr>))"
proof -
  have nz: "0 \<notin> set [g, f, m1, m2, m3, m4, a, z]" "0 \<notin> set [x1, x2, y1, i1, x3, x4, y2, i2, x5, x6]" using assms(6) by simp_all
  have m0: "mallocs (files k) = [g, f, m1, m2, m3, m4, a, z] @ ([x1, x2, y1, i1, x3, x4, y2, i2, x5, x6] @ ms)" using assms(5) by simp
  obtain k0 k1 where k1: "core_ready im e k k0" "init_all im e k = Inr k1" "ps k1 = ps k0"
    "idt_table (vecs (drives k1)) = (idt_table (vecs (drives k0)))[0x2e := hd_at im]"
    "rootfs (sdb1 b n) (files k1)" "d_inode (root_dir (files k1)) = a" "mallocs (files k1) = [x1, x2, y1, i1, x3, x4, y2, i2, x5, x6] @ ms"
    "junk (files k1) = junk (files k)" "file_table (files k1) = map (\<lambda>f. f\<lparr>fd_inode := NULL\<rparr>) (file_table (files k))"
    using init_all_runs [OF assms(1-4) m0 nz(1) assms(7)] by blast
  note C = k1(1) [unfolded core_ready_def]
  have c: "proc_inv (ps k1)" "running_thread (mm (ps k1)) = 0xc009e000" "fd_table (tasks (mm (ps k1)) 0xc009e000) = [0, 1, 2] @ replicate 5 (- 1)"
    using C k1(3) by simp_all
  obtain idle where tl: "task_list (mm (ps k1)) = [0xc009e000, idle]" using C k1(3) by auto
  have vt: "idt_table (vecs (drives k1)) = (replicate 0x81 (general_handler im))[0x20 := timer_at im, 0x21 := keyboard_at im, 0x2e := hd_at im]"
    using C k1(4) by simp
  let ?m = "(mm (ps k1))\<lparr>intr := INTR_ON\<rparr>"
  let ?s = "(files k1)\<lparr>fds := [0, 1, 2] @ replicate 5 (- 1)\<rparr>"
  have h: "rootfs (sdb1 b n) ?s" "d_inode (root_dir ?s) = a" "mallocs ?s = [x1, x2, y1, i1, x3, x4, y2, i2, x5, x6] @ ms"
    "\<forall>q \<in> set (take 128 (junk ?s)). q = 0" "fds ?s = [0, 1, 2] @ replicate 5 (- 1)" "length (file_table ?s) = 32"
    "\<forall>j < 32. fd_inode (file_table ?s ! j) = NULL" "620 \<le> unat (part_size (sdb1 b n))" "unat (part_size (sdb1 b n)) \<le> 4707"
    using k1(5-9) assms(2,4,11) by (simp_all add: rootfs_fds drives_off_def fresh_pc_def sdb1_def)
  obtain s2 where s2: "main_files (e1, a1, b1) (e2, a2, b2) ?s = Inr ((3, 4), s2)" "synced s2" "fds s2 = [0, 1, 2, 3, 4] @ replicate 3 (- 1)"
    "open_inodes (cur_part s2) = [i2, i1, a]" "\<forall>j \<in> {1, 2}. disk_inode (sb (cur_part ?s)) (disk s2) j = inode_init (of_nat j)"
    "\<forall>e. length e = 24 \<longrightarrow>
          search_dir_entry Root_dir (padded hongbai) e s2 = Inr (Some (entry_bytes hongbai 2 1), s2\<lparr>mallocs := ms\<rparr>)
        \<and> search_dir_entry Root_dir (padded file1) e s2 = Inr (None, s2\<lparr>mallocs := ms\<rparr>)"
    using main_files_run [OF h nz(2) assms(8-10,12-16), of e1] by blast
  have sbs: "sb (cur_part ?s) = format_sb b n" using k1(5) by (simp add: rootfs_def sdb1_def)
  have on: "snd (intr_enable v) = INTR_ON" for v by (cases v) (simp_all add: intr_enable_def)
  let ?k = "k1\<lparr>files := s2, ps := put_fds (fds s2) ((ps k1)\<lparr>mm := ?m\<rparr>)\<rparr>"
  have run: "kernel_main im e (e1, a1, b1) (e2, a2, b2) k = Inr ((3, 4), ?k)"
    using k1(2) c(2,3) s2(1) by (simp add: kernel_main_def on)
  have "task_list (mm (ps ?k)) = task_list (mm (ps k1))" "intr (mm (ps ?k)) = INTR_ON"
    by (simp_all add: task_list_def put_fds_def upd_pcb_def upd_task_def)
  moreover have "fd_table (tasks (mm (ps ?k)) 0xc009e000) = [0, 1, 2, 3, 4, - 1, - 1, - 1]"
    using c(2) s2(3) by (simp add: put_fds_def upd_pcb_def upd_task_def numeral_3_eq_3)
  moreover have "proc_inv (ps ?k)" using proc_inv_fds [OF c(1)] by simp
  ultimately show ?thesis using run tl vt s2(2,4-6) [unfolded sbs] by (intro exI [of _ ?k] exI [of _ idle]) simp
qed

definition blank_disk :: "nat \<Rightarrow> u8 list" where
  "blank_disk l = (if l = 0 then replicate 446 0 @ [0, 0, 0, 0, 0x83, 0, 0, 0, 63, 0, 0, 0, 0, 8, 0, 0] @ replicate 48 0 @ [0x55, 0xaa]
     else replicate 512 0)"

definition demo_pc :: env where
  "demo_pc = \<lparr>total_mem = 0x2000000, hd_cnt = 2, disks = (\<lambda>_. blank_disk),
     ident = (\<lambda>_. replicate 512 0x20), key_junk = replicate 64 0, pad_junk = (\<lambda>_. replicate 460 0), heap_junk = (\<lambda>_. replicate 311296 0)\<rparr>"

definition demo_off :: kernel where
  "demo_off = \<lparr>ps = demo_boot\<lparr>mm := (mm demo_boot)\<lparr>ptab := loader_ptab (\<lambda>_. 0)\<rparr>\<rparr>, gates = [], idtr = 0, port_log = [],
     tss_seg = \<lparr>ss0 = 0, esp0 = 0, io_base = 0\<rparr>, gdt = (\<lambda>_. make_gdt_desc 0 0 0 0), gdtr = 0, task_reg = 0, con = console_init [],
     keys = keyboard_init (replicate 64 0), calls = replicate syscall_nr NULL, drives = demo_system,
     files = demo_fs\<lparr>mallocs := [0x10, 0x20, 0x30, 0x40, 0x50, 0x60, 0x1000, 0x2000, 0x3000, 0x4000, 0x5000, 0x6000, 0x3000, 0x4000, 0x7000, 0x8000, 0x3000, 0x4000]\<rparr>\<rparr>"

definition demo_image :: image where
  "demo_image = \<lparr>code_at = demo_code, entry_table = (\<lambda>i. 0xc0001500 + of_nat i * 16), syscall_entry = 0xc0001ab0, general_handler = 0xc0002000,
     idt_place = 0xc0010000, tss_place = 0xc0011000, timer_at = 0xc0002100, keyboard_at = 0xc0002200, hd_at = 0xc0002300,
     sys_at = demo_sys_code, behind_calls = (\<lambda>_. 0)\<rparr>"

lemma demo_pc_fresh: "fresh_pc demo_pc 63 2048"
proof -
  have b: "disks demo_pc (0, 1) = blank_disk" by (simp add: demo_pc_def)
  have m: "mbr_layout (disks demo_pc (0, 1)) [(63, 2048)] []" unfolding b by code_simp
  have d: "disk_ok (disks demo_pc (0, 1))" "disks demo_pc (0, 1) 64 = replicate 512 0" unfolding b by (simp_all add: disk_ok_def blank_disk_def)
  have c: "counted_pages 0x2000000 = 7680" by (simp add: counted_pages_def)
  have f: "total_mem demo_pc = 0x2000000" "hd_cnt demo_pc = 2" "length (pad_junk demo_pc 0) = 460" "heap_junk demo_pc 0 = replicate 311296 0"
    "length (ident demo_pc d) = 512" for d
    by (simp_all add: demo_pc_def)
  have "le32 (disks demo_pc (0, 1) (unat (63 :: u32) + 1)) 0 \<noteq> 0x20250325"
  proof -
    have "unat (63 :: u32) + 1 = 64" by simp
    then show ?thesis unfolding d(2) by (simp only: d(2)) (simp add: le32_def)
  qed
  then show ?thesis
    unfolding fresh_pc_def f c by (intro conjI m d(1) f(3-5) allI) simp_all
qed

lemma demo_off_ready: "power_on (\<lambda>_. 0) demo_off" "drives_off demo_off" "linked (sys_at demo_image)"
proof -
  have "running_thread (mm demo_boot) = 0xc009e000" "next_pid (mm demo_boot) = 0"
    by (simp_all add: demo_boot_def demo_memory_def demo_threads_def kthreads.defs memory.defs)
  then show "power_on (\<lambda>_. 0) demo_off" by (simp add: power_on_def demo_off_def tables_zero_def)
  show "drives_off demo_off" by (simp add: drives_off_def demo_off_def demo_system_def entry_def demo_fs_def)
  show "linked (sys_at demo_image)" using demo_usys_fields(9) by (simp add: demo_image_def)
qed

lemma kernel_core_starts_witness:
  "\<exists>k' idle. init_core demo_image demo_pc demo_off = Inr k' \<and> proc_inv (ps k') \<and> task_list (mm (ps k')) = [0xc009e000, idle]
     \<and> room 1 3839 (mm (ps k'))"
proof -
  have c: "counted_pages (total_mem demo_pc) = 7680" by (simp add: counted_pages_def demo_pc_def)
  have h: "0x200000 \<le> total_mem demo_pc" "16 \<le> counted_pages (total_mem demo_pc)" unfolding c by (simp_all add: demo_pc_def)
  have n: "8 * (counted_pages (total_mem demo_pc) div 16) - 1 = 3839" unfolding c by simp
  show ?thesis using kernel_core_starts [OF demo_off_ready(1) h demo_off_ready(3)] unfolding n by blast
qed

lemma main_runs_witness:
  "\<exists>k'. kernel_main demo_image demo_pc (replicate 24 0, replicate 16 0, replicate 16 0) (replicate 24 0, replicate 16 0, replicate 16 0) demo_off = Inr ((3, 4), k')
     \<and> proc_inv (ps k') \<and> open_inodes (cur_part (files k')) = [0x8000, 0x6000, 0x1000]
     \<and> search_dir_entry Root_dir (padded file1) (replicate 24 0) (files k') = Inr (None, (files k')\<lparr>mallocs := []\<rparr>)"
proof -
  have m: "mallocs (files demo_off) = [0x10, 0x20, 0x30, 0x40, 0x50, 0x60, 0x1000, 0x2000, 0x3000, 0x4000, 0x5000, 0x6000, 0x3000, 0x4000, 0x7000, 0x8000, 0x3000, 0x4000] @ []"
    "0 \<notin> set [0x10, 0x20, 0x30, 0x40, 0x50, 0x60, 0x1000, 0x2000, 0x3000, 0x4000, 0x5000, 0x6000, 0x3000, 0x4000, 0x7000, 0x8000, 0x3000, 0x4000 :: u32]"
    "\<forall>q \<in> set (take 128 (junk (files demo_off))). q = 0"
    "(0x1000 :: addr) \<noteq> 0x2000" "(0x5000 :: addr) \<noteq> 0x6000" "(0x7000 :: addr) \<noteq> 0x8000" "distinct [0x1000, 0x6000, 0x8000 :: addr]"
    by (simp_all add: demo_off_def demo_fs_def)
  have z: "length (replicate 16 (0 :: u8)) = 16" "length (replicate 24 (0 :: u8)) = 24" by simp_all
  show ?thesis
    using main_runs [OF demo_off_ready demo_pc_fresh m(1,2,4-7,3) z(1) z(1) z(2) z(1) z(1), of "replicate 24 0"] z(2) by blast
qed

end
