(* ===== verification/Asm.thy ===== *)
theory Asm
  imports Descriptors
begin

text \<open>
  The processor as the assembly sources use it: registers, segment registers, flags, the words of the
  stacks, the writes to ports. A piece of code is a list of instructions; a call runs the function found
  in memory, which is a parameter. Delivery of an interrupt and iretd are what the processor does
  through a gate of idt. \<open>stack_at\<close> says which words lie from an address upwards; every instruction that
  moves esp is a step on that list. \<open>returns_to\<close> is the C calling convention.
\<close>

section \<open>The processor\<close>

datatype reg = EAX | ECX | EDX | EBX | ESP | EBP | ESI | EDI
datatype sreg = CS | SS | DS | ES | FS | GS

record cpu =
  gpr :: "reg \<Rightarrow> u32"
  seg :: "sreg \<Rightarrow> u16"
  eip :: addr
  eflags :: u32
  words :: "addr \<Rightarrow> u32"
  port_log :: "port_write list"

definition set_reg :: "reg \<Rightarrow> u32 \<Rightarrow> cpu \<Rightarrow> cpu" where
  "set_reg r v c = c\<lparr>gpr := (gpr c)(r := v)\<rparr>"

definition set_seg :: "sreg \<Rightarrow> u16 \<Rightarrow> cpu \<Rightarrow> cpu" where
  "set_seg s v c = c\<lparr>seg := (seg c)(s := v)\<rparr>"

definition set_word :: "addr \<Rightarrow> u32 \<Rightarrow> cpu \<Rightarrow> cpu" where
  "set_word a v c = c\<lparr>words := (words c)(a := v)\<rparr>"

definition push :: "u32 \<Rightarrow> cpu \<Rightarrow> cpu" where
  "push v c = set_word (gpr c ESP - 4) v (set_reg ESP (gpr c ESP - 4) c)"

definition top :: "cpu \<Rightarrow> u32" where
  "top c = words c (gpr c ESP)"

definition drop_top :: "cpu \<Rightarrow> cpu" where
  "drop_top c = set_reg ESP (gpr c ESP + 4) c"

text \<open>The arithmetic flags of an addition: carry, parity, auxiliary carry, zero, sign, overflow.\<close>

definition put_flag :: "nat \<Rightarrow> bool \<Rightarrow> u32 \<Rightarrow> u32" where
  "put_flag n b f = (if b then set_bit n f else unset_bit n f)"

definition add_flags :: "u32 \<Rightarrow> u32 \<Rightarrow> u32 \<Rightarrow> u32" where
  "add_flags a b f =
     (let s = a + b;
          parity = even (length (List.filter (\<lambda>i. bit s i) [0..<8]))
      in put_flag 0 (s < a) (put_flag 2 parity (put_flag 4 (bit (a XOR b XOR s) 4)
         (put_flag 6 (s = 0) (put_flag 7 (bit s 31)
         (put_flag 11 (bit a 31 = bit b 31 \<and> bit s 31 \<noteq> bit a 31) f))))))"

section \<open>Instructions\<close>

datatype instr =
    Nop
  | Push_imm u32
  | Push reg
  | Push_seg sreg
  | Pop reg
  | Pop_seg sreg
  | Pushad
  | Popad
  | Load reg reg u32         \<comment> \<open>mov r, [b + off]\<close>
  | Store reg u32 reg        \<comment> \<open>mov [b + off], r\<close>
  | Add_imm reg u32
  | Mov_al u8
  | Out_al u16
  | Call_at addr addr        \<comment> \<open>call [a], with the address behind the call\<close>
  | Call_indexed addr reg addr \<comment> \<open>call [a + 4 * r]\<close>
  | Ret
  | Iretd

text \<open>The privilege is that of the selector in cs. iretd clears a data segment register whose segment the
  new privilege may not use; the GDT has two segments of privilege 3, at 5 and 6 (userprog/tss.c).\<close>

definition rpl :: "u16 \<Rightarrow> u16" where "rpl s = s AND 3"

definition user_segment :: "u16 \<Rightarrow> bool" where
  "user_segment s \<longleftrightarrow> drop_bit 2 s = 10 \<or> drop_bit 2 s = 12"

definition outer_seg :: "u16 \<Rightarrow> u16" where
  "outer_seg s = (if user_segment s then s else 0)"

definition pushad :: "cpu \<Rightarrow> cpu" where
  "pushad c = fold push [gpr c EAX, gpr c ECX, gpr c EDX, gpr c EBX, gpr c ESP, gpr c EBP, gpr c ESI, gpr c EDI] c"

definition pop :: "reg \<Rightarrow> cpu \<Rightarrow> cpu" where
  "pop r c = set_reg r (top c) (drop_top c)"

text \<open>popad reads the place of esp and drops it.\<close>

definition popad :: "cpu \<Rightarrow> cpu" where
  "popad c = pop EAX (pop ECX (pop EDX (pop EBX (drop_top (pop EBP (pop ESI (pop EDI c)))))))"

definition iretd :: "cpu \<Rightarrow> cpu" where
  "iretd c =
     (let ip = top c; c1 = drop_top c; sel = ucast (top c1); c2 = drop_top c1; fl = top c2; c3 = drop_top c2;
          d = (set_seg CS sel c3)\<lparr>eip := ip, eflags := fl\<rparr>
      in if rpl (seg c CS) < rpl sel
         then let sp = top c3; ss = ucast (top (drop_top c3))
              in set_reg ESP sp (d\<lparr>seg := (\<lambda>s. outer_seg (seg c s))(CS := sel, SS := ss)\<rparr>)
         else d)"

fun exec :: "(addr \<Rightarrow> cpu \<Rightarrow> cpu) \<Rightarrow> instr \<Rightarrow> cpu \<Rightarrow> cpu" where
  "exec h Nop c = c"
| "exec h (Push_imm v) c = push v c"
| "exec h (Push r) c = push (gpr c r) c"
| "exec h (Push_seg s) c = push (ucast (seg c s)) c"
| "exec h (Pop r) c = pop r c"
| "exec h (Pop_seg s) c = drop_top (set_seg s (ucast (top c)) c)"
| "exec h Pushad c = pushad c"
| "exec h Popad c = popad c"
| "exec h (Load r b off) c = set_reg r (words c (gpr c b + off)) c"
| "exec h (Store b off r) c = set_word (gpr c b + off) (gpr c r) c"
| "exec h (Add_imm r v) c = (set_reg r (gpr c r + v) c)\<lparr>eflags := add_flags (gpr c r) v (eflags c)\<rparr>"
| "exec h (Mov_al v) c = set_reg EAX ((gpr c EAX AND 0xffffff00) OR ucast v) c"
| "exec h (Out_al p) c = c\<lparr>port_log := port_log c @ [(p, ucast (gpr c EAX))]\<rparr>"
| "exec h (Call_at a r) c = h (words c a) (push r c)"
| "exec h (Call_indexed a x r) c = h (words c (a + 4 * gpr c x)) (push r c)"
| "exec h Ret c = (drop_top c)\<lparr>eip := top c\<rparr>"
| "exec h Iretd c = iretd c"

definition run :: "(addr \<Rightarrow> cpu \<Rightarrow> cpu) \<Rightarrow> instr list \<Rightarrow> cpu \<Rightarrow> cpu" where
  "run h is = fold (exec h) is"

section \<open>Interrupts\<close>

text \<open>Delivery through an interrupt gate: from a lower privilege the stack is the one the TSS names; IF, TF,
  NT, RF and VM are cleared. eip is the address to come back to.\<close>

definition deliver :: "tss \<Rightarrow> gate_desc \<Rightarrow> u32 option \<Rightarrow> cpu \<Rightarrow> cpu" where
  "deliver t g err c =
     (let d = (if rpl (selector g) < rpl (seg c CS)
               then fold push [ucast (seg c SS), gpr c ESP] (set_seg SS (ucast (ss0 t)) (set_reg ESP (esp0 t) c)) else c);
          e = fold push ([eflags c, ucast (seg c CS), eip c] @ (case err of None \<Rightarrow> [] | Some v \<Rightarrow> [v])) d
      in (set_seg CS (selector g) e)\<lparr>eip := gate_offset g, eflags := eflags c AND NOT 0x34300\<rparr>)"

section \<open>A call of set_cursor from C\<close>

text \<open>The end of set_cursor in lib/kernel/print.S, behind the port writes. put_char and cls_screen come here after
  a pushad. A C function has pushed the argument and the return address only: popad takes the two and six
  more words of the caller's frame, and ret goes to whatever word the caller had eight words further up.\<close>

definition set_cursor_end :: "instr list" where
  "set_cursor_end = [Popad, Ret]"

lemma set_cursor_from_C:
  assumes "gpr c ESP = a"
  shows "eip (run h set_cursor_end c) = words c (a + 32)" "gpr (run h set_cursor_end c) ESP = a + 36"
    "gpr (run h set_cursor_end c) EDI = words c a" "gpr (run h set_cursor_end c) ESI = words c (a + 4)"
  using assms by (simp_all add: run_def set_cursor_end_def popad_def pop_def drop_top_def top_def set_reg_def add.assoc)

section \<open>What C reads of the processor\<close>

definition EFLAGS_IF :: u32 where "EFLAGS_IF = 0x00000200"

definition intr_get_status :: "cpu \<Rightarrow> intr_status" where
  "intr_get_status c = (if eflags c AND EFLAGS_IF \<noteq> 0 then INTR_ON else INTR_OFF)"

text \<open>running_thread: the page of the stack pointer.\<close>

definition thread_of_stack :: "cpu \<Rightarrow> addr" where
  "thread_of_stack c = gpr c ESP AND 0xfffff000"

lemma intr_get_status_bit: "intr_get_status c = INTR_ON \<longleftrightarrow> bit (eflags c) 9"
proof -
  have "x AND 0x200 \<noteq> 0 \<longleftrightarrow> bit x 9" for x :: u32
    using bit_iff_and_push_bit_not_eq_0 [of x 9] by simp
  then show ?thesis by (simp add: intr_get_status_def EFLAGS_IF_def)
qed

section \<open>The stack as a list\<close>

fun stack_at :: "(addr \<Rightarrow> u32) \<Rightarrow> addr \<Rightarrow> u32 list \<Rightarrow> bool" where
  "stack_at w a [] \<longleftrightarrow> True"
| "stack_at w a (v # vs) \<longleftrightarrow> w a = v \<and> stack_at w (a + 4) vs"

abbreviation stack :: "cpu \<Rightarrow> u32 list \<Rightarrow> bool" where
  "stack c vs \<equiv> stack_at (words c) (gpr c ESP) vs"

named_theorems asm \<open>effects of the basic operations on the fields of the processor\<close>

lemma cpu_fields [asm]:
  "gpr (set_reg r v c) = (gpr c)(r := v)" "seg (set_reg r v c) = seg c" "eip (set_reg r v c) = eip c"
  "eflags (set_reg r v c) = eflags c" "words (set_reg r v c) = words c" "port_log (set_reg r v c) = port_log c"
  "gpr (set_seg s u c) = gpr c" "seg (set_seg s u c) = (seg c)(s := u)" "eip (set_seg s u c) = eip c"
  "eflags (set_seg s u c) = eflags c" "words (set_seg s u c) = words c" "port_log (set_seg s u c) = port_log c"
  "gpr (set_word a v c) = gpr c" "seg (set_word a v c) = seg c" "eip (set_word a v c) = eip c"
  "eflags (set_word a v c) = eflags c" "words (set_word a v c) = (words c)(a := v)" "port_log (set_word a v c) = port_log c"
  by (simp_all add: set_reg_def set_seg_def set_word_def)

lemma push_fields [asm]:
  "gpr (push v c) = (gpr c)(ESP := gpr c ESP - 4)" "seg (push v c) = seg c" "eip (push v c) = eip c"
  "eflags (push v c) = eflags c" "port_log (push v c) = port_log c"
  by (simp_all add: push_def asm)

lemma drop_top_fields [asm]:
  "gpr (drop_top c) = (gpr c)(ESP := gpr c ESP + 4)" "seg (drop_top c) = seg c" "eip (drop_top c) = eip c"
  "eflags (drop_top c) = eflags c" "words (drop_top c) = words c" "port_log (drop_top c) = port_log c"
  by (simp_all add: drop_top_def asm)

lemma stack_at_nth: "stack_at w a vs \<longleftrightarrow> (\<forall>i < length vs. w (a + 4 * of_nat i) = vs ! i)"
proof (induction vs arbitrary: a)
  case (Cons v vs)
  have e: "a + 4 + 4 * of_nat i = a + 4 * of_nat (Suc i)" for i by simp
  show ?case by (auto simp: Cons.IH e less_Suc_eq_0_disj simp del: of_nat_Suc)
qed simp

lemma stack_at_append: "stack_at w a (us @ vs) \<longleftrightarrow> stack_at w a us \<and> stack_at w (a + 4 * of_nat (length us)) vs"
  by (induction us arbitrary: a) (auto simp: algebra_simps)

lemma stack_below: "4 * of_nat i + 4 \<noteq> (0 :: addr)" if "i < 1000000" for i :: nat
proof -
  have "unat (of_nat (4 * i + 4) :: addr) = 4 * i + 4" using that by (intro unat_of_nat_u32) simp
  then show ?thesis by (metis add_is_0 of_nat_add of_nat_mult of_nat_numeral unsigned_0 zero_neq_numeral)
qed

lemma stack_at_write: "stack_at w (a + 4) vs \<Longrightarrow> length vs < 1000000 \<Longrightarrow> stack_at (w(a := v)) (a + 4) vs"
proof -
  assume s: "stack_at w (a + 4) vs" "length vs < 1000000"
  have "a + 4 + 4 * of_nat i \<noteq> a" if "i < length vs" for i
    using stack_below [of i] that s(2) by (simp add: add.assoc add.commute [of 4])
  then show ?thesis using s(1) unfolding stack_at_nth by simp
qed

lemma stack_push:
  assumes "stack c vs" "length vs < 1000000"
  shows "stack (push v c) (v # vs)"
  using stack_at_write [of "words c" "gpr c ESP - 4" vs v] assms by (simp add: push_def asm)

lemma stack_pushes: "stack c vs \<Longrightarrow> length us + length vs < 1000000 \<Longrightarrow> stack (fold push us c) (rev us @ vs)"
proof (induction us arbitrary: c vs)
  case (Cons u us)
  from Cons.IH [OF stack_push [OF Cons.prems(1), of u]] Cons.prems(2) show ?case by simp
qed simp

lemma pushes_fields [asm]:
  "seg (fold push us c) = seg c" "eip (fold push us c) = eip c" "eflags (fold push us c) = eflags c"
  "port_log (fold push us c) = port_log c"
  by (induction us arbitrary: c) (simp_all add: asm)

lemma pushes_gpr [asm]: "gpr (fold push us c) = (gpr c)(ESP := gpr c ESP - 4 * of_nat (length us))"
  by (induction us arbitrary: c) (simp_all add: asm fun_upd_def fun_eq_iff algebra_simps)

lemma stack_pop:
  assumes "stack c (v # vs)"
  shows "top c = v" "stack (drop_top c) vs"
  using assms by (simp_all add: top_def asm)

lemma pushad_stack:
  assumes "stack c vs" "length vs < 900000"
  shows "stack (pushad c) ([gpr c EDI, gpr c ESI, gpr c EBP, gpr c ESP, gpr c EBX, gpr c EDX, gpr c ECX, gpr c EAX] @ vs)"
  using stack_pushes [OF assms(1), of "[gpr c EAX, gpr c ECX, gpr c EDX, gpr c EBX, gpr c ESP, gpr c EBP, gpr c ESI, gpr c EDI]"] assms(2)
  unfolding pushad_def by simp

lemma pushad_fields [asm]:
  "gpr (pushad c) = (gpr c)(ESP := gpr c ESP - 32)" "seg (pushad c) = seg c" "eip (pushad c) = eip c"
  "eflags (pushad c) = eflags c" "port_log (pushad c) = port_log c"
  by (simp_all add: pushad_def asm fun_upd_def fun_eq_iff)

lemma pop_fields [asm]:
  "seg (pop r c) = seg c" "eip (pop r c) = eip c" "eflags (pop r c) = eflags c" "words (pop r c) = words c" "port_log (pop r c) = port_log c"
  by (simp_all add: pop_def asm)

lemma popad_fields [asm]:
  "seg (popad c) = seg c" "eip (popad c) = eip c" "eflags (popad c) = eflags c" "words (popad c) = words c" "port_log (popad c) = port_log c"
  by (simp_all add: popad_def asm)

lemma popad_stack:
  assumes "stack c (di # si # bp # x # bx # dx # cx # ax # vs)"
  shows "gpr (popad c) = (\<lambda>r. case r of EAX \<Rightarrow> ax | ECX \<Rightarrow> cx | EDX \<Rightarrow> dx | EBX \<Rightarrow> bx | ESP \<Rightarrow> gpr c ESP + 32
      | EBP \<Rightarrow> bp | ESI \<Rightarrow> si | EDI \<Rightarrow> di)" "stack (popad c) vs"
  using assms by (auto simp: popad_def pop_def top_def asm fun_eq_iff add.assoc split: reg.splits)

lemma run_simps [simp]: "run h [] c = c" "run h (i # is) c = run h is (exec h i c)" "run h (is @ js) c = run h js (run h is c)"
  by (simp_all add: run_def)

lemma stack_at_upd:
  assumes "stack_at w a vs" "i < length vs" "length vs < 1000000"
  shows "stack_at (w(a + 4 * of_nat i := v)) a (vs[i := v])"
proof -
  have "a + 4 * of_nat j = a + 4 * of_nat i \<longleftrightarrow> j = i" if "j < length vs" for j
  proof -
    have "unat (of_nat (4 * k) :: addr) = 4 * k" if "k < length vs" for k
      using that assms(3) by (intro unat_of_nat_u32) simp
    from this [OF that] this [OF assms(2)] show ?thesis by (metis add_left_cancel mult_left_cancel of_nat_mult of_nat_numeral zero_neq_numeral)
  qed
  then show ?thesis using assms(1,2) unfolding stack_at_nth by (simp add: nth_list_update)
qed

section \<open>The C calling convention\<close>

text \<open>A C function called with n words of arguments comes back behind the call with the stack, the code and
  stack segments and the four registers it has to keep as they were; the words vs above its arguments are
  those of its callers.\<close>

definition returns_to :: "nat \<Rightarrow> u32 list \<Rightarrow> (cpu \<Rightarrow> cpu) \<Rightarrow> cpu \<Rightarrow> bool" where
  "returns_to n vs f c \<longleftrightarrow> eip (f c) = top c \<and> gpr (f c) ESP = gpr c ESP + 4
     \<and> (\<forall>r \<in> {EBX, EBP, ESI, EDI}. gpr (f c) r = gpr c r) \<and> seg (f c) CS = seg c CS \<and> seg (f c) SS = seg c SS
     \<and> stack_at (words (f c)) (gpr c ESP + 4 + 4 * of_nat n) vs"

lemma returns_toD:
  assumes "returns_to n vs f c"
  shows "gpr (f c) ESP = gpr c ESP + 4" "seg (f c) CS = seg c CS" "seg (f c) SS = seg c SS"
    "stack_at (words (f c)) (gpr c ESP + 4 + 4 * of_nat n) vs" "eip (f c) = top c"
    "gpr (f c) EBX = gpr c EBX" "gpr (f c) EBP = gpr c EBP" "gpr (f c) ESI = gpr c ESI" "gpr (f c) EDI = gpr c EDI"
  using assms by (simp_all add: returns_to_def)

end
