(* ===== verification/Switch.thy ===== *)
theory Switch
  imports Asm Tasks
begin

text \<open>
  thread/switch.S. switch_to saves four registers and esp of the task that gives up the processor and takes
  those of the next one from its stack; the word at the address of a PCB is its self_kstack. For the
  task that gives up the processor the call is one that comes back as any C function does, when the task is next
  switched to; a new task is entered at what thread_create wrote, as \<open>switch_in\<close> of Tasks says.
\<close>

section \<open>The code\<close>

definition switch_to :: "instr list" where
  "switch_to = [Push ESI, Push EDI, Push EBX, Push EBP, Load EAX ESP 20, Store EAX 0 ESP, Load EAX ESP 24, Load ESP EAX 0,
     Pop EBP, Pop EBX, Pop EDI, Pop ESI, Ret]"

definition thread_stack_words :: "thread_stack \<Rightarrow> u32 list" where
  "thread_stack_words f = [ts_ebp f, ts_ebx f, ts_edi f, ts_esi f, ts_eip f, unused_retaddr f, function_ptr f, func_arg f]"

text \<open>n words from lo on lie in the page of a task, behind the first word of its PCB.\<close>

definition on_kstack :: "addr \<Rightarrow> addr \<Rightarrow> nat \<Rightarrow> bool" where
  "on_kstack t lo n \<longleftrightarrow> page_aligned t \<and> unat t + 4 \<le> unat lo \<and> unat lo + 4 * n \<le> unat t + 4096"

section \<open>Pages\<close>

lemma aligned_below: "page_aligned t \<Longrightarrow> unat t + 4096 \<le> 4294967296"
proof -
  assume "page_aligned t"
  then have "unat t = 4096 * (unat t div 4096)" using mult_div_mod_eq [of 4096 "unat t"] by (simp add: aligned_unat)
  moreover have "unat t div 4096 < 1048576" using unat_u32_less [of t] by simp
  ultimately show ?thesis by simp
qed

lemma on_kstack_nth:
  assumes "on_kstack t lo n" "i < n"
  shows "unat (lo + 4 * of_nat i) = unat lo + 4 * i"
proof -
  have "unat lo + 4 * i < 4294967296" using assms aligned_below [of t] by (simp add: on_kstack_def)
  moreover from this have "unat (of_nat (4 * i) :: u32) = 4 * i" by (intro unat_of_nat_u32) simp
  ultimately show ?thesis using unat_add_u32 [of lo "of_nat (4 * i)"] by simp
qed

lemma on_kstack_page:
  assumes "on_kstack t lo n" "i < n"
  shows "page_of (lo + 4 * of_nat i) = page_of t" "lo + 4 * of_nat i \<noteq> t"
proof -
  have u: "unat (lo + 4 * of_nat i) = unat lo + 4 * i" by (rule on_kstack_nth [OF assms])
  have "unat t = 4096 * (unat t div 4096)" using assms(1) mult_div_mod_eq [of 4096 "unat t"] by (simp add: on_kstack_def aligned_unat)
  then show "page_of (lo + 4 * of_nat i) = page_of t" using assms unfolding page_of_def u on_kstack_def by (simp add: div_nat_eqI)
  show "lo + 4 * of_nat i \<noteq> t" using u assms(1) by (auto simp: on_kstack_def)
qed

lemma on_kstack_apart:
  assumes "on_kstack t lo n" "on_kstack s lo' k" "s \<noteq> t" "i < n" "j < k"
  shows "lo + 4 * of_nat i \<noteq> lo' + 4 * of_nat j" "lo + 4 * of_nat i \<noteq> s" "s \<noteq> lo + 4 * of_nat i"
proof -
  have p: "page_of t \<noteq> page_of s"
    using assms(1-3) mult_div_mod_eq [of 4096 "unat t"] mult_div_mod_eq [of 4096 "unat s"]
    by (auto simp: on_kstack_def aligned_unat page_of_def u32_eq_iff)
  then show "lo + 4 * of_nat i \<noteq> lo' + 4 * of_nat j" using on_kstack_page(1) [OF assms(1,4)] on_kstack_page(1) [OF assms(2,5)] by metis
  show "lo + 4 * of_nat i \<noteq> s" "s \<noteq> lo + 4 * of_nat i" using on_kstack_page(1) [OF assms(1,4)] p by metis+
qed

lemma stack_at_cong:
  assumes "stack_at w a vs" "\<And>i. i < length vs \<Longrightarrow> w' (a + 4 * of_nat i) = w (a + 4 * of_nat i)"
  shows "stack_at w' a vs"
  using assms by (simp add: stack_at_nth)

section \<open>One switch\<close>

definition saved :: "cpu \<Rightarrow> u32 list" where
  "saved c = [gpr c EBP, gpr c EBX, gpr c EDI, gpr c ESI]"

definition after_pushes :: "cpu \<Rightarrow> cpu" where
  "after_pushes c = fold push [gpr c ESI, gpr c EDI, gpr c EBX, gpr c EBP] c"

lemma after_pushes_stack: "stack c vs \<Longrightarrow> length vs < 2000 \<Longrightarrow> stack (after_pushes c) (saved c @ vs)"
  using stack_pushes [of c vs "[gpr c ESI, gpr c EDI, gpr c EBX, gpr c EBP]"] by (simp add: after_pushes_def saved_def)

lemma after_pushes_gpr: "gpr (after_pushes c) = (gpr c)(ESP := gpr c ESP - 16)" "seg (after_pushes c) = seg c"
  by (simp_all add: after_pushes_def asm)

lemma push_words: "words (push v c) = (words c)(gpr c ESP - 4 := v)"
  by (simp add: push_def asm)

lemma pushes_elsewhere:
  "(\<And>i. i < length us \<Longrightarrow> a \<noteq> gpr c ESP - 4 * of_nat (length us) + 4 * of_nat i) \<Longrightarrow> words (fold push us c) a = words c a"
proof (induction us arbitrary: c)
  case (Cons u us)
  have "words (fold push us (push u c)) a = words (push u c) a"
  proof (rule Cons.IH)
    fix i assume "i < length us"
    then show "a \<noteq> gpr (push u c) ESP - 4 * of_nat (length us) + 4 * of_nat i"
      using Cons.prems [of i] by (simp add: asm algebra_simps)
  qed
  moreover have "a \<noteq> gpr c ESP - 4" using Cons.prems [of "length us"] by simp
  ultimately show ?case by (simp add: push_words)
qed simp

lemma switch_run:
  assumes "stack c (r # cur # nxt # vs)" "length vs < 1500"
  defines "w \<equiv> (words (after_pushes c))(cur := gpr c ESP - 16)"
  assumes cur: "gpr c ESP - 16 + 24 \<noteq> cur"
    and nxt: "stack_at w (w nxt) (bp # bx # di # si # ip # us)"
  shows "words (run h switch_to c) = w" "eip (run h switch_to c) = ip" "seg (run h switch_to c) = seg c"
    "gpr (run h switch_to c) = (gpr c)(EAX := nxt, EBP := bp, EBX := bx, EDI := di, ESI := si, ESP := w nxt + 20)"
    "stack (run h switch_to c) us"
proof -
  have s: "stack (after_pushes c) (saved c @ [r, cur, nxt] @ vs)" using after_pushes_stack [OF assms(1)] assms(2) by simp
  let ?p = "gpr c ESP - 16"
  have l: "words (after_pushes c) (?p + 20) = cur" "words (after_pushes c) (?p + 24) = nxt"
    using s by (simp_all add: saved_def after_pushes_gpr add.commute)
  let ?e = "set_reg ESP (w nxt) (set_reg EAX nxt (set_word cur ?p (set_reg EAX cur (after_pushes c))))"
  have 1: "run h [Push ESI, Push EDI, Push EBX, Push EBP] c = after_pushes c" by (simp add: after_pushes_def asm)
  have 2: "run h [Load EAX ESP 20, Store EAX 0 ESP, Load EAX ESP 24, Load ESP EAX 0] (after_pushes c) = ?e"
    using l cur by (simp add: asm after_pushes_gpr w_def)
  have 3: "switch_to = [Push ESI, Push EDI, Push EBX, Push EBP] @ [Load EAX ESP 20, Store EAX 0 ESP, Load EAX ESP 24, Load ESP EAX 0]
      @ [Pop EBP, Pop EBX, Pop EDI, Pop ESI, Ret]" by (simp add: switch_to_def)
  obtain e where e: "e = ?e" by blast
  have run: "run h switch_to c = run h [Pop EBP, Pop EBX, Pop EDI, Pop ESI, Ret] e"
    unfolding 3 run_simps(3) 1 2 e by (rule refl)
  have E: "words e = w" "seg e = seg c" "gpr e = (gpr c)(EAX := nxt, ESP := w nxt)"
    by (simp_all add: e asm w_def after_pushes_gpr fun_eq_iff)
  show "words (run h switch_to c) = w" "eip (run h switch_to c) = ip" "seg (run h switch_to c) = seg c"
    "gpr (run h switch_to c) = (gpr c)(EAX := nxt, EBP := bp, EBX := bx, EDI := di, ESI := si, ESP := w nxt + 20)"
    "stack (run h switch_to c) us"
    unfolding run using nxt by (auto simp: pop_def top_def asm E fun_eq_iff add.assoc)
qed

text \<open>Whatever lies behind the next self_kstack, switch_to writes the four registers and the word at cur.\<close>

lemma switch_words:
  assumes "stack c (r # cur # nxt # vs)" "length vs < 1500" "gpr c ESP - 16 + 24 \<noteq> cur"
  shows "words (run h switch_to c) = (words (after_pushes c))(cur := gpr c ESP - 16)" "seg (run h switch_to c) = seg c"
proof -
  let ?w = "(words (after_pushes c))(cur := gpr c ESP - 16)"
  let ?a = "?w nxt"
  have "stack_at ?w ?a (?w ?a # ?w (?a + 4) # ?w (?a + 4 + 4) # ?w (?a + 4 + 4 + 4) # ?w (?a + 4 + 4 + 4 + 4) # [])"
    by (simp only: stack_at.simps simp_thms)
  from switch_run [OF assms this] show "words (run h switch_to c) = ?w" "seg (run h switch_to c) = seg c" by blast+
qed

lemma own_stack:
  assumes "stack c (r # cur # nxt # vs)" "on_kstack cur (gpr c ESP - 16) (length vs + 7)"
  shows "gpr c ESP - 16 + 24 \<noteq> cur" "length vs < 1500"
    "stack_at ((words (after_pushes c))(cur := gpr c ESP - 16)) (gpr c ESP - 16) (saved c @ r # cur # nxt # vs)"
proof -
  show l: "length vs < 1500" using assms(2) by (simp add: on_kstack_def)
  show "gpr c ESP - 16 + 24 \<noteq> cur" using on_kstack_page(2) [OF assms(2), of 6] by simp
  have "stack (after_pushes c) (saved c @ r # cur # nxt # vs)" using after_pushes_stack [OF assms(1)] l by simp
  then have "stack_at (words (after_pushes c)) (gpr c ESP - 16) (saved c @ r # cur # nxt # vs)" by (simp add: after_pushes_gpr)
  then show "stack_at ((words (after_pushes c))(cur := gpr c ESP - 16)) (gpr c ESP - 16) (saved c @ r # cur # nxt # vs)"
  proof (rule stack_at_cong)
    fix i assume "i < length (saved c @ r # cur # nxt # vs)"
    then have "gpr c ESP - 16 + 4 * of_nat i \<noteq> cur" by (intro on_kstack_page(2) [OF assms(2)]) (simp add: saved_def)
    then show "((words (after_pushes c))(cur := gpr c ESP - 16)) (gpr c ESP - 16 + 4 * of_nat i) = words (after_pushes c) (gpr c ESP - 16 + 4 * of_nat i)"
      by simp
  qed
qed

text \<open>A switch on the stack of the task y leaves the stack of another task alone.\<close>

lemma other_stack:
  assumes "on_kstack y (gpr c ESP - 16) (length us + 7)" "on_kstack t lo n" "y \<noteq> t" "i < n"
  shows "((words (after_pushes c))(y := v)) (lo + 4 * of_nat i) = words c (lo + 4 * of_nat i)"
proof -
  have "words (after_pushes c) (lo + 4 * of_nat i) = words c (lo + 4 * of_nat i)"
    unfolding after_pushes_def
  proof (rule pushes_elsewhere)
    fix j assume "j < length [gpr c ESI, gpr c EDI, gpr c EBX, gpr c EBP]"
    then show "lo + 4 * of_nat i \<noteq> gpr c ESP - 4 * of_nat (length [gpr c ESI, gpr c EDI, gpr c EBX, gpr c EBP]) + 4 * of_nat j"
      using on_kstack_apart(1) [OF assms(2,1,3,4), of j] by simp
  qed
  moreover have "lo + 4 * of_nat i \<noteq> y" using on_kstack_apart(2) [OF assms(2,1,3,4), of 0] by simp
  ultimately show ?thesis by simp
qed

lemma other_pcb:
  assumes "on_kstack y (gpr c ESP - 16) (length us + 7)" "page_aligned t" "y \<noteq> t"
  shows "((words (after_pushes c))(y := v)) t = words c t"
proof -
  have "words (after_pushes c) t = words c t"
    unfolding after_pushes_def
  proof (rule pushes_elsewhere)
    fix j assume "j < length [gpr c ESI, gpr c EDI, gpr c EBX, gpr c EBP]"
    then have "page_of (gpr c ESP - 16 + 4 * of_nat j) = page_of y" using on_kstack_page(1) [OF assms(1), of j] by simp
    moreover have "page_of t \<noteq> page_of y"
      using assms page_base_eq_iff [of t y] by (auto simp: on_kstack_def aligned_mask)
    ultimately show "t \<noteq> gpr c ESP - 4 * of_nat (length [gpr c ESI, gpr c EDI, gpr c EBX, gpr c EBP]) + 4 * of_nat j" by auto
  qed
  then show ?thesis using assms(3) by simp
qed

section \<open>Away and back\<close>

text \<open>C8: A task that calls switch_to leaves esp in its PCB and its registers on its own stack. When another
  task later calls switch_to to come back, and in between nobody wrote this stack and this word of the PCB,
  the call returns in the first task exactly as the calling convention demands of a C function: ebx, esi, edi,
  ebp, esp and the return address are those of the call, the callers' words on the stack are kept, and
  running_thread names the task again.\<close>
theorem switch_away_and_back:
  fixes c c2 :: cpu and h :: "addr \<Rightarrow> cpu \<Rightarrow> cpu"
  defines "c1 \<equiv> run h switch_to c" and "c3 \<equiv> run h switch_to c2" and "lo \<equiv> gpr c ESP - 16"
  assumes A: "stack c (r # cur # nxt # vs)" "on_kstack cur lo (length vs + 7)"
    and B: "stack c2 (r2 # y # cur # us)" "on_kstack y (gpr c2 ESP - 16) (length us + 7)" "y \<noteq> cur"
    and keep: "words c2 cur = words c1 cur" "\<forall>i < length vs + 7. words c2 (lo + 4 * of_nat i) = words c1 (lo + 4 * of_nat i)"
    and sg: "seg c2 CS = seg c CS" "seg c2 SS = seg c SS"
  shows "words c1 cur = lo \<and> words c3 y = gpr c2 ESP - 16 \<and> returns_to 2 vs (\<lambda>_. c3) c \<and> thread_of_stack c3 = cur"
proof -
  note a = own_stack [OF A [unfolded lo_def], folded lo_def]
  note b = own_stack [OF B(1,2)]
  have w1: "words c1 = (words (after_pushes c))(cur := lo)"
    using switch_words(1) [OF A(1) a(2) a(1) [unfolded lo_def]] by (simp add: c1_def lo_def)
  let ?w = "(words (after_pushes c2))(y := gpr c2 ESP - 16)"
  have k: "?w (lo + 4 * of_nat i) = words c1 (lo + 4 * of_nat i)" if "i < length vs + 7" for i
    using other_stack [OF B(2) A(2) B(3) that] keep(2) that by simp
  have wc: "?w cur = lo" using other_pcb [OF B(2) _ B(3)] A(2) keep(1) by (simp add: on_kstack_def w1)
  have "stack_at (words c1) lo (saved c @ r # cur # nxt # vs)" using a(3) by (simp add: w1)
  then have "stack_at ?w lo (saved c @ r # cur # nxt # vs)" by (rule stack_at_cong) (rule k, simp add: saved_def)
  then have st: "stack_at ?w (?w cur) (gpr c EBP # gpr c EBX # gpr c EDI # gpr c ESI # r # cur # nxt # vs)"
    unfolding wc by (simp add: saved_def)
  note R = switch_run [OF B(1) b(2) b(1) st, where h = h, folded c3_def]
  have e: "?w cur + 20 = gpr c ESP + 4" unfolding wc by (simp add: lo_def)
  have g: "gpr c3 ESP = gpr c ESP + 4" using R(4) [unfolded e] by simp
  have l: "gpr c ESP + 4 = lo + 20" by (simp add: lo_def)
  have "page_of (lo + 20) = page_of cur" using on_kstack_page(1) [OF A(2), of 5] by simp
  then have "page_of (gpr c ESP + 4) = page_of cur" unfolding l .
  then have "thread_of_stack c3 = cur"
    using g A(2) page_base_eq_iff [of "gpr c ESP + 4" cur] by (simp add: thread_of_stack_def on_kstack_def aligned_mask)
  moreover have "returns_to 2 vs (\<lambda>_. c3) c"
    using R(2,3,5) R(4) [unfolded e] A(1) sg g by (simp add: returns_to_def top_def add.assoc)
  moreover have "words c1 cur = lo" "words c3 y = gpr c2 ESP - 16" by (simp_all add: w1 R(1))
  ultimately show ?thesis by blast
qed

section \<open>A new task\<close>

text \<open>C37: The first switch to a task enters it as Tasks models it: if memory holds, at self_kstack, the frame
  thread_create wrote, switch_to returns to the eip of the frame with its registers and the function
  and the argument behind a return address that is never used, on the stack of the new task, which running_thread names;
  the esp of the old one is in its PCB.\<close>
theorem switch_enters_task:
  fixes c :: cpu and p :: procs and nxt :: addr and h :: "addr \<Rightarrow> cpu \<Rightarrow> cpu"
  defines "c1 \<equiv> run h switch_to c" and "e \<equiv> switch_in nxt p" and "sp \<equiv> self_kstack (tasks (mm p) nxt)"
  assumes A: "stack c (r # cur # nxt # vs)" "on_kstack cur (gpr c ESP - 16) (length vs + 7)"
    and N: "words c nxt = sp" "nxt \<noteq> cur" "stack_at (words c) sp (thread_stack_words (tstacks p sp))" "on_kstack nxt sp 8"
  shows "gpr c1 EBP = e_ebp e \<and> gpr c1 EBX = e_ebx e \<and> gpr c1 EDI = e_edi e \<and> gpr c1 ESI = e_esi e \<and> gpr c1 ESP = e_esp e
    \<and> eip c1 = e_eip e \<and> stack c1 [unused_retaddr (tstacks p sp), fst (e_args e), snd (e_args e)]
    \<and> thread_of_stack c1 = nxt \<and> words c1 cur = gpr c ESP - 16"
proof -
  note a = own_stack [OF A]
  let ?w = "(words (after_pushes c))(cur := gpr c ESP - 16)"
  have sp: "?w nxt = sp" using other_pcb [OF A(2) _ N(2) [symmetric]] N(1,4) by (simp add: on_kstack_def)
  have "stack_at ?w sp (thread_stack_words (tstacks p sp))"
    by (rule stack_at_cong [OF N(3)]) (rule other_stack [OF A(2) N(4) N(2) [symmetric]], simp add: thread_stack_words_def)
  then have st: "stack_at ?w (?w nxt) (ts_ebp (tstacks p sp) # ts_ebx (tstacks p sp) # ts_edi (tstacks p sp) # ts_esi (tstacks p sp)
      # ts_eip (tstacks p sp) # [unused_retaddr (tstacks p sp), function_ptr (tstacks p sp), func_arg (tstacks p sp)])"
    unfolding sp by (simp add: thread_stack_words_def)
  note R = switch_run [OF A(1) a(2,1) st, where h = h, folded c1_def, unfolded sp]
  have "page_of (sp + 20) = page_of nxt" using on_kstack_page(1) [OF N(4), of 5] by simp
  then have "thread_of_stack c1 = nxt"
    using R(4) N(4) page_base_eq_iff [of "sp + 20" nxt] by (simp add: thread_of_stack_def on_kstack_def aligned_mask)
  moreover have "words c1 cur = gpr c ESP - 16" by (simp add: R(1))
  ultimately show ?thesis using R(2,4,5) by (simp add: e_def switch_in_def sp_def [symmetric] Let_def)
qed

section \<open>Witnesses\<close>

text \<open>The main thread calls switch_to for a task whose page is 0xc0101000.\<close>

definition demo_frame :: thread_stack where
  "demo_frame = \<lparr>ts_ebp = 0, ts_ebx = 0, ts_edi = 0, ts_esi = 0, ts_eip = 0xc0001000, unused_retaddr = 7, function_ptr = 0xc0001200, func_arg = 42\<rparr>"

definition demo_caller :: cpu where
  "demo_caller = \<lparr>gpr = (\<lambda>r. 5)(ESP := 0xc009ef00, EBX := 11, EBP := 12, ESI := 13, EDI := 14), seg = (\<lambda>_. 0x10)(CS := 8), eip = 0xc0002000,
     eflags = 2, words = (\<lambda>a. 0)(0xc009ef00 := 0xc0001800, 0xc009ef04 := 0xc009e000, 0xc009ef08 := 0xc0101000,
       0xc0101000 := 0xc0101e50, 0xc0101e60 := 0xc0001000, 0xc0101e64 := 7, 0xc0101e68 := 0xc0001200, 0xc0101e6c := 42), port_log = []\<rparr>"

definition demo_two :: procs where
  "demo_two = demo_boot\<lparr>mm := upd_task (self_kstack_update (\<lambda>_. 0xc0101e50)) 0xc0101000 (mm demo_boot), tstacks := (\<lambda>_. demo_frame)\<rparr>"

lemma demo_caller_stack:
  "stack demo_caller [0xc0001800, 0xc009e000, 0xc0101000]" "on_kstack 0xc009e000 (gpr demo_caller ESP - 16) 7"
  by (simp_all add: demo_caller_def on_kstack_def page_aligned_def)

definition no_calls :: "addr \<Rightarrow> cpu \<Rightarrow> cpu" where "no_calls a c = c"

lemma switch_enters_task_witness:
  "gpr (run no_calls switch_to demo_caller) ESP = 0xc0101e64 \<and> eip (run no_calls switch_to demo_caller) = 0xc0001000
    \<and> stack (run no_calls switch_to demo_caller) [7, 0xc0001200, 42] \<and> thread_of_stack (run no_calls switch_to demo_caller) = 0xc0101000"
proof -
  have k: "self_kstack (tasks (mm demo_two) 0xc0101000) = 0xc0101e50" "tstacks demo_two 0xc0101e50 = demo_frame"
    by (simp_all add: demo_two_def upd_task_def)
  have w: "words demo_caller 0xc0101000 = 0xc0101e50" "(0xc0101000 :: addr) \<noteq> 0xc009e000" "on_kstack 0xc0101000 0xc0101e50 8"
    "stack_at (words demo_caller) 0xc0101e50 (thread_stack_words demo_frame)"
    by (simp_all add: demo_caller_def on_kstack_def page_aligned_def demo_frame_def thread_stack_words_def)
  have l: "on_kstack 0xc009e000 (gpr demo_caller ESP - 16) (length ([] :: u32 list) + 7)" using demo_caller_stack(2) by simp
  have "switch_in 0xc0101000 demo_two = \<lparr>e_ebp = 0, e_ebx = 0, e_edi = 0, e_esi = 0, e_eip = 0xc0001000, e_esp = 0xc0101e64, e_args = (0xc0001200, 42)\<rparr>"
    by (simp add: switch_in_def k demo_frame_def Let_def)
  then show ?thesis
    using switch_enters_task [where p = demo_two and h = no_calls, OF demo_caller_stack(1) l, unfolded k, OF w(1,2,4,3)]
    by (elim conjE, intro conjI) (simp_all add: demo_frame_def)
qed

lemma switch_away_and_back_witness:
  "\<exists>c2. gpr c2 EBX = 9 \<and> gpr (run no_calls switch_to c2) EBX = 11 \<and> gpr (run no_calls switch_to c2) ESP = 0xc009ef04 \<and> eip (run no_calls switch_to c2) = 0xc0001800
     \<and> thread_of_stack (run no_calls switch_to c2) = 0xc009e000"
proof -
  let ?c1 = "run no_calls switch_to demo_caller"
  let ?c2 = "demo_caller\<lparr>gpr := (\<lambda>_. 9)(ESP := 0xc0101f00),
    words := (words ?c1)(0xc0101f00 := 0xc0001900, 0xc0101f04 := 0xc0101000, 0xc0101f08 := 0xc009e000)\<rparr>"
  have l: "on_kstack 0xc009e000 (gpr demo_caller ESP - 16) (length ([] :: u32 list) + 7)" using demo_caller_stack(2) by simp
  have b: "stack ?c2 [0xc0001900, 0xc0101000, 0xc009e000]" "on_kstack 0xc0101000 (gpr ?c2 ESP - 16) (length ([] :: u32 list) + 7)"
    "(0xc0101000 :: addr) \<noteq> 0xc009e000" "words ?c2 0xc009e000 = words ?c1 0xc009e000" "seg ?c2 CS = seg demo_caller CS" "seg ?c2 SS = seg demo_caller SS"
    by (simp_all add: on_kstack_def page_aligned_def)
  have o: "on_kstack 0xc009e000 0xc009eef0 7" "on_kstack 0xc0101000 0xc0101f00 3" by (simp_all add: on_kstack_def page_aligned_def)
  have "\<forall>i < 7. words ?c2 (0xc009eef0 + 4 * of_nat i) = words ?c1 (0xc009eef0 + 4 * of_nat i)"
    using on_kstack_apart(1) [OF o b(3), where j = 0] on_kstack_apart(1) [OF o b(3), where j = 1] on_kstack_apart(1) [OF o b(3), where j = 2] by simp
  then have "\<forall>i < length ([] :: u32 list) + 7. words ?c2 (gpr demo_caller ESP - 16 + 4 * of_nat i) = words ?c1 (gpr demo_caller ESP - 16 + 4 * of_nat i)"
    by (simp add: demo_caller_def)
  from switch_away_and_back [OF demo_caller_stack(1) l b(1-4) this b(5,6)]
  have "returns_to 2 [] (\<lambda>_. run no_calls switch_to ?c2) demo_caller" "thread_of_stack (run no_calls switch_to ?c2) = 0xc009e000" by blast+
  moreover from returns_toD [OF this(1)]
  have "gpr (run no_calls switch_to ?c2) EBX = 11" "gpr (run no_calls switch_to ?c2) ESP = 0xc009ef04" "eip (run no_calls switch_to ?c2) = 0xc0001800"
    by (simp_all add: demo_caller_def top_def)
  moreover have "gpr ?c2 EBX = 9" by simp
  ultimately show ?thesis by blast
qed

end
