(* ===== verification/Entry.thy ===== *)
theory Entry
  imports Asm Syscall
begin

text \<open>
  The interrupt entries of kernel/kernel.S: the code the macro VECTOR makes for each of the vectors 0 to
  0x2f, the way back intr_exit, and the entry of the system calls. \<open>frame_words\<close> lays out the structure
  intr_stack of thread/thread.h, lowest address first. The C function that an entry calls is a parameter that keeps the
  calling convention.
\<close>

section \<open>The code\<close>

definition intr_exit :: "instr list" where
  "intr_exit = [Add_imm ESP 4, Popad, Pop_seg GS, Pop_seg FS, Pop_seg ES, Pop_seg DS, Add_imm ESP 4, Iretd]"

text \<open>The second argument of VECTOR: nothing where the processor pushes an error code, else a zero.\<close>

definition has_error_code :: "u32 \<Rightarrow> bool" where
  "has_error_code v \<longleftrightarrow> v \<in> {0x8, 0xa, 0xb, 0xc, 0xd, 0xe, 0x11, 0x1e}"

definition save_context :: "instr list" where
  "save_context = [Push_seg DS, Push_seg ES, Push_seg FS, Push_seg GS, Pushad]"

definition end_of_interrupt :: "instr list" where
  "end_of_interrupt = [Mov_al 0x20, Out_al 0xa0, Out_al 0x20]"

text \<open>Up to the call, and as a whole; handlers is the address of idt_table, back the one behind the call.\<close>

definition vector_prologue :: "u32 \<Rightarrow> instr list" where
  "vector_prologue v = [if has_error_code v then Nop else Push_imm 0] @ save_context @ end_of_interrupt @ [Push_imm v]"

definition intr_entry :: "addr \<Rightarrow> addr \<Rightarrow> u32 \<Rightarrow> instr list" where
  "intr_entry handlers return_at v = vector_prologue v @ [Call_at (handlers + v * 4) return_at] @ intr_exit"

definition syscall_prologue :: "instr list" where
  "syscall_prologue = [Push_imm 0] @ save_context @ [Push_imm 0x80, Push EDX, Push ECX, Push EBX]"

definition syscall_entry_code :: "addr \<Rightarrow> addr \<Rightarrow> instr list" where
  "syscall_entry_code table return_at =
     syscall_prologue @ [Call_indexed table EAX return_at, Add_imm ESP 12, Store ESP 32 EAX] @ intr_exit"

section \<open>The frame\<close>

definition frame_words :: "intr_stack \<Rightarrow> u32 list" where
  "frame_words f = [vec_no f, is_edi f, is_esi f, is_ebp f, esp_dummy f, is_ebx f, is_edx f, is_ecx f, is_eax f,
     is_gs f, is_fs f, is_es f, is_ds f, err_code f, is_eip f, is_cs f, is_eflags f, is_esp f, is_ss f]"

text \<open>The frame of an interrupted state; dummy is what pushad finds in esp. Without a change of privilege the
  processor does not push the last two words and the stack of the interrupted code, vs, follows.\<close>

definition frame_of :: "u32 \<Rightarrow> u32 \<Rightarrow> u32 \<Rightarrow> cpu \<Rightarrow> intr_stack" where
  "frame_of v e dummy c = \<lparr>vec_no = v, is_edi = gpr c EDI, is_esi = gpr c ESI, is_ebp = gpr c EBP, esp_dummy = dummy,
     is_ebx = gpr c EBX, is_edx = gpr c EDX, is_ecx = gpr c ECX, is_eax = gpr c EAX, is_gs = ucast (seg c GS),
     is_fs = ucast (seg c FS), is_es = ucast (seg c ES), is_ds = ucast (seg c DS), err_code = e, is_eip = eip c,
     is_cs = ucast (seg c CS), is_eflags = eflags c, is_esp = gpr c ESP, is_ss = ucast (seg c SS)\<rparr>"

definition frame_on :: "bool \<Rightarrow> intr_stack \<Rightarrow> u32 list \<Rightarrow> u32 list" where
  "frame_on outer f vs = (if outer then frame_words f else take 17 (frame_words f) @ vs)"

definition frame_gpr :: "intr_stack \<Rightarrow> addr \<Rightarrow> reg \<Rightarrow> u32" where
  "frame_gpr f sp = (\<lambda>r. case r of EAX \<Rightarrow> is_eax f | ECX \<Rightarrow> is_ecx f | EDX \<Rightarrow> is_edx f | EBX \<Rightarrow> is_ebx f | ESP \<Rightarrow> sp
     | EBP \<Rightarrow> is_ebp f | ESI \<Rightarrow> is_esi f | EDI \<Rightarrow> is_edi f)"

definition frame_seg :: "(u16 \<Rightarrow> u16) \<Rightarrow> intr_stack \<Rightarrow> u16 \<Rightarrow> sreg \<Rightarrow> u16" where
  "frame_seg F f stk = (\<lambda>s. case s of CS \<Rightarrow> ucast (is_cs f) | SS \<Rightarrow> stk | DS \<Rightarrow> F (ucast (is_ds f)) | ES \<Rightarrow> F (ucast (is_es f))
     | FS \<Rightarrow> F (ucast (is_fs f)) | GS \<Rightarrow> F (ucast (is_gs f)))"

section \<open>The way back\<close>

lemma seg_word [asm]: "(ucast (ucast (s :: u16) :: u32) :: u16) = s"
  by (intro bit_word_eqI) (simp add: bit_simps)

lemma intr_exit_state:
  assumes "stack c (take 17 (frame_words f) @ us)"
  shows "\<exists>d. run h intr_exit c = iretd d \<and> stack d ([is_eip f, is_cs f, is_eflags f] @ us) \<and> gpr d = frame_gpr f (gpr c ESP + 56)
    \<and> seg d = (seg c)(GS := ucast (is_gs f), FS := ucast (is_fs f), ES := ucast (is_es f), DS := ucast (is_ds f))
    \<and> words d = words c \<and> port_log d = port_log c"
proof -
  let ?c1 = "exec h (Add_imm ESP 4) c"
  have s: "stack ?c1 (is_edi f # is_esi f # is_ebp f # esp_dummy f # is_ebx f # is_edx f # is_ecx f # is_eax f
      # [is_gs f, is_fs f, is_es f, is_ds f, err_code f, is_eip f, is_cs f, is_eflags f] @ us)"
    using assms by (simp add: frame_words_def asm)
  note p = popad_stack [OF s]
  let ?d = "run h [Pop_seg GS, Pop_seg FS, Pop_seg ES, Pop_seg DS, Add_imm ESP 4] (popad ?c1)"
  have "run h intr_exit c = iretd ?d" by (simp add: intr_exit_def)
  moreover have "stack ?d ([is_eip f, is_cs f, is_eflags f] @ us)"
    using p(2) by (simp add: asm p(1) add.assoc)
  moreover have "gpr ?d = frame_gpr f (gpr c ESP + 56)"
    using p by (simp add: asm frame_gpr_def fun_eq_iff add.assoc split: reg.splits)
  moreover have "seg ?d = (seg c)(GS := ucast (is_gs f), FS := ucast (is_fs f), ES := ucast (is_es f), DS := ucast (is_ds f))"
    using p(2) by (simp add: asm p(1) top_def add.assoc)
  moreover have "words ?d = words c" "port_log ?d = port_log c" by (simp_all add: asm)
  ultimately show ?thesis by blast
qed

lemma intr_exit_same:
  assumes "stack c (frame_on False f vs)" "\<not> rpl (seg c CS) < rpl (ucast (is_cs f))"
  shows "run h intr_exit c = c\<lparr>gpr := frame_gpr f (gpr c ESP + 68), seg := frame_seg id f (seg c SS), eip := is_eip f, eflags := is_eflags f\<rparr>"
proof -
  obtain d where d: "run h intr_exit c = iretd d" "stack d ([is_eip f, is_cs f, is_eflags f] @ vs)" "gpr d = frame_gpr f (gpr c ESP + 56)"
    "seg d = (seg c)(GS := ucast (is_gs f), FS := ucast (is_fs f), ES := ucast (is_es f), DS := ucast (is_ds f))"
    "words d = words c" "port_log d = port_log c"
    using intr_exit_state [of c f vs h] assms(1) by (auto simp: frame_on_def)
  show ?thesis
    using d(2) assms(2) unfolding d(1) iretd_def Let_def
    by (intro cpu.equality) (auto simp: asm top_def d(3-6) frame_gpr_def frame_seg_def fun_eq_iff add.assoc split: reg.splits sreg.splits)
qed

lemma intr_exit_outer:
  assumes "stack c (frame_on True f vs)" "rpl (seg c CS) < rpl (ucast (is_cs f))"
  shows "run h intr_exit c = c\<lparr>gpr := frame_gpr f (is_esp f), seg := frame_seg outer_seg f (ucast (is_ss f)), eip := is_eip f, eflags := is_eflags f\<rparr>"
proof -
  have "frame_words f = take 17 (frame_words f) @ [is_esp f, is_ss f]" by (simp add: frame_words_def)
  then obtain d where d: "run h intr_exit c = iretd d" "stack d ([is_eip f, is_cs f, is_eflags f] @ [is_esp f, is_ss f])"
    "gpr d = frame_gpr f (gpr c ESP + 56)"
    "seg d = (seg c)(GS := ucast (is_gs f), FS := ucast (is_fs f), ES := ucast (is_es f), DS := ucast (is_ds f))"
    "words d = words c" "port_log d = port_log c"
    using intr_exit_state [of c f "[is_esp f, is_ss f]" h] assms(1) by (auto simp: frame_on_def)
  show ?thesis
    using d(2) assms(2) unfolding d(1) iretd_def Let_def
    by (intro cpu.equality) (auto simp: asm top_def d(3-6) frame_gpr_def frame_seg_def fun_eq_iff add.assoc split: reg.splits sreg.splits)
qed

section \<open>The way in\<close>

definition from_outer :: "gate_desc \<Rightarrow> cpu \<Rightarrow> bool" where
  "from_outer g c \<longleftrightarrow> rpl (selector g) < rpl (seg c CS)"

definition error_word :: "u32 option \<Rightarrow> u32" where
  "error_word err = (case err of None \<Rightarrow> 0 | Some e \<Rightarrow> e)"

lemma deliver_state:
  assumes "\<not> from_outer g c \<longrightarrow> stack c vs" "length vs < 1000"
  shows "stack (deliver t g err c) ((case err of None \<Rightarrow> [] | Some e \<Rightarrow> [e])
      @ [eip c, ucast (seg c CS), eflags c] @ (if from_outer g c then [gpr c ESP, ucast (seg c SS)] else vs))"
    "\<forall>r. r \<noteq> ESP \<longrightarrow> gpr (deliver t g err c) r = gpr c r" "eip (deliver t g err c) = gate_offset g"
    "eflags (deliver t g err c) = eflags c AND NOT 0x34300" "port_log (deliver t g err c) = port_log c"
    "seg (deliver t g err c) = (seg c)(CS := selector g, SS := if from_outer g c then ucast (ss0 t) else seg c SS)"
    "\<not> from_outer g c \<Longrightarrow> gpr (deliver t g err c) ESP = gpr c ESP - (case err of None \<Rightarrow> 12 | Some e \<Rightarrow> 16)"
proof -
  let ?d = "if from_outer g c then fold push [ucast (seg c SS), gpr c ESP] (set_seg SS (ucast (ss0 t)) (set_reg ESP (esp0 t) c)) else c"
  have d: "stack ?d (if from_outer g c then [gpr c ESP, ucast (seg c SS)] else vs)"
    using assms(1) stack_pushes [of "set_seg SS (ucast (ss0 t)) (set_reg ESP (esp0 t) c)" "[]" "[ucast (seg c SS), gpr c ESP]"]
    by auto
  show "stack (deliver t g err c) ((case err of None \<Rightarrow> [] | Some e \<Rightarrow> [e])
      @ [eip c, ucast (seg c CS), eflags c] @ (if from_outer g c then [gpr c ESP, ucast (seg c SS)] else vs))"
  proof -
    let ?us = "[eflags c, ucast (seg c CS), eip c] @ (case err of None \<Rightarrow> [] | Some v \<Rightarrow> [v])"
    have "words (deliver t g err c) = words (fold push ?us ?d)" "gpr (deliver t g err c) = gpr (fold push ?us ?d)"
      unfolding deliver_def from_outer_def [symmetric] Let_def by (simp_all add: cpu_fields)
    moreover have "stack (fold push ?us ?d) (rev ?us @ (if from_outer g c then [gpr c ESP, ucast (seg c SS)] else vs))"
      using assms(2) by (intro stack_pushes [OF d]) (simp split: option.splits)
    moreover have "rev ?us = (case err of None \<Rightarrow> [] | Some e \<Rightarrow> [e]) @ [eip c, ucast (seg c CS), eflags c]"
      by (simp split: option.splits)
    ultimately show ?thesis by (simp only: append_assoc)
  qed
qed (auto simp: deliver_def Let_def from_outer_def [symmetric] asm fun_eq_iff split: option.splits)

lemma save_context_state:
  assumes "stack c (e # vs)" "length vs < 2000"
  shows "stack (run h save_context c) ([gpr c EDI, gpr c ESI, gpr c EBP, gpr c ESP - 16, gpr c EBX, gpr c EDX, gpr c ECX, gpr c EAX,
      ucast (seg c GS), ucast (seg c FS), ucast (seg c ES), ucast (seg c DS), e] @ vs)"
    "gpr (run h save_context c) = (gpr c)(ESP := gpr c ESP - 48)" "seg (run h save_context c) = seg c" "eip (run h save_context c) = eip c"
    "eflags (run h save_context c) = eflags c" "port_log (run h save_context c) = port_log c"
proof -
  let ?d = "fold push [ucast (seg c DS), ucast (seg c ES), ucast (seg c FS), ucast (seg c GS)] c"
  have r: "run h save_context c = pushad ?d" by (simp add: save_context_def asm)
  have "stack ?d ([ucast (seg c GS), ucast (seg c FS), ucast (seg c ES), ucast (seg c DS)] @ e # vs)"
    using stack_pushes [OF assms(1), of "[ucast (seg c DS), ucast (seg c ES), ucast (seg c FS), ucast (seg c GS)]"] assms(2) by simp
  from pushad_stack [OF this] assms(2)
  show "stack (run h save_context c) ([gpr c EDI, gpr c ESI, gpr c EBP, gpr c ESP - 16, gpr c EBX, gpr c EDX, gpr c ECX, gpr c EAX,
      ucast (seg c GS), ucast (seg c FS), ucast (seg c ES), ucast (seg c DS), e] @ vs)"
    unfolding r by (simp add: asm)
qed (simp_all add: save_context_def asm fun_eq_iff)

lemma end_of_interrupt_state:
  "stack (run h end_of_interrupt c) vs = stack c vs" "r \<noteq> EAX \<Longrightarrow> gpr (run h end_of_interrupt c) r = gpr c r"
  "seg (run h end_of_interrupt c) = seg c" "eip (run h end_of_interrupt c) = eip c" "eflags (run h end_of_interrupt c) = eflags c"
  "port_log (run h end_of_interrupt c) = port_log c @ [(0xa0, 0x20), (0x20, 0x20)]"
proof -
  have "(ucast ((x AND 0xffffff00) OR 0x20 :: u32) :: u8) = 0x20" for x :: u32
    by (intro bit_word_eqI) (auto simp: bit_simps less_Suc_eq numeral_eq_Suc)
  then show "port_log (run h end_of_interrupt c) = port_log c @ [(0xa0, 0x20), (0x20, 0x20)]"
    by (simp add: end_of_interrupt_def asm)
qed (simp_all add: end_of_interrupt_def asm)

lemma vector_prologue_state:
  fixes h t
  assumes "\<not> from_outer g c \<longrightarrow> stack c vs" "length vs < 1000" "has_error_code v \<longleftrightarrow> err \<noteq> None"
  defines "b \<equiv> run h (vector_prologue v) (deliver t g err c)"
  shows "stack b (frame_on (from_outer g c) (frame_of v (error_word err) (gpr b ESP + 36) c) vs)"
    "\<forall>r. r \<noteq> ESP \<and> r \<noteq> EAX \<longrightarrow> gpr b r = gpr c r" "eip b = gate_offset g" "eflags b = eflags c AND NOT 0x34300"
    "port_log b = port_log c @ [(0xa0, 0x20), (0x20, 0x20)]"
    "seg b = (seg c)(CS := selector g, SS := if from_outer g c then ucast (ss0 t) else seg c SS)"
    "\<not> from_outer g c \<Longrightarrow> gpr b ESP = gpr c ESP - 68"
proof -
  let ?d = "deliver t g err c"
  let ?us = "[eip c, ucast (seg c CS), eflags c] @ (if from_outer g c then [gpr c ESP, ucast (seg c SS)] else vs)"
  note D = deliver_state [OF assms(1,2), where t = t and err = err]
  obtain e where ee: "e = run h [if has_error_code v then Nop else Push_imm 0] ?d" by blast
  have e: "stack e (error_word err # ?us)"
    using D(1) stack_push [of ?d ?us 0] assms(2,3) unfolding ee by (cases err) (auto simp: error_word_def)
  have E: "\<forall>r. r \<noteq> ESP \<longrightarrow> gpr e r = gpr c r" "seg e = seg ?d" "eip e = eip ?d" "eflags e = eflags ?d" "port_log e = port_log ?d"
    "\<not> from_outer g c \<Longrightarrow> gpr e ESP = gpr c ESP - 16"
    using D(2,7) assms(3) unfolding ee by (auto simp: asm split: option.splits)
  have us: "length ?us < 2000" using assms(2) by simp
  note S = save_context_state [OF e us]
  let ?s = "run h save_context e"
  let ?i = "run h end_of_interrupt ?s"
  have b: "b = push v ?i" by (simp add: b_def vector_prologue_def ee)
  note F = end_of_interrupt_state [where c = ?s and h = h]
  have sp: "gpr b ESP + 36 = gpr e ESP - 16" using F(2) [of ESP] S(2) by (simp add: b asm)
  have i: "stack ?i ([gpr e EDI, gpr e ESI, gpr e EBP, gpr e ESP - 16, gpr e EBX, gpr e EDX, gpr e ECX, gpr e EAX,
      ucast (seg e GS), ucast (seg e FS), ucast (seg e ES), ucast (seg e DS), error_word err] @ ?us)"
    using S(1) unfolding F(1) .
  have sg: "ucast (seg e s) = ucast (seg c s)" if "s \<in> {GS, FS, ES, DS}" for s using that by (auto simp: E(2) D(6))
  have "v # ([gpr e EDI, gpr e ESI, gpr e EBP, gpr e ESP - 16, gpr e EBX, gpr e EDX, gpr e ECX, gpr e EAX,
      ucast (seg e GS), ucast (seg e FS), ucast (seg e ES), ucast (seg e DS), error_word err] @ ?us)
    = frame_on (from_outer g c) (frame_of v (error_word err) (gpr b ESP + 36) c) vs"
    using E(1) unfolding sp by (simp add: frame_on_def frame_of_def frame_words_def E(2) D(6))
  then show "stack b (frame_on (from_outer g c) (frame_of v (error_word err) (gpr b ESP + 36) c) vs)"
    using stack_push [OF i, of v] us unfolding b by (simp only:) simp
  show "\<forall>r. r \<noteq> ESP \<and> r \<noteq> EAX \<longrightarrow> gpr b r = gpr c r" using E(1) S(2) F(2) by (simp add: b asm)
  show "eip b = gate_offset g" "eflags b = eflags c AND NOT 0x34300" "port_log b = port_log c @ [(0xa0, 0x20), (0x20, 0x20)]"
    "seg b = (seg c)(CS := selector g, SS := if from_outer g c then ucast (ss0 t) else seg c SS)"
    unfolding b push_fields F(3-6) S(3-6) E(2-5) D(3-6) by (rule refl)+
  show "gpr b ESP = gpr c ESP - 68" if "\<not> from_outer g c" using F(2) [of ESP] S(2) E(6) [OF that] by (simp add: b asm)
qed

lemma resume_same:
  assumes "\<not> from_outer g c" "stack d (frame_on False (frame_of v e x c) vs)" "seg d CS = selector g" "seg d SS = seg c SS"
    "gpr d ESP = gpr c ESP - 68"
  shows "run h intr_exit d = c\<lparr>words := words d, port_log := port_log d\<rparr>"
proof -
  have "\<not> rpl (seg d CS) < rpl (ucast (is_cs (frame_of v e x c)))" using assms(1,3) by (simp add: from_outer_def frame_of_def asm)
  from intr_exit_same [OF assms(2) this, of h] show ?thesis
    by (intro cpu.equality) (simp_all add: assms(4,5) frame_of_def frame_gpr_def frame_seg_def fun_eq_iff asm split: reg.splits sreg.splits)
qed

definition user_segments :: "cpu \<Rightarrow> bool" where
  "user_segments c \<longleftrightarrow> (\<forall>s \<in> {DS, ES, FS, GS}. seg c s = 0 \<or> user_segment (seg c s))"

lemma outer_seg_user: "user_segments c \<Longrightarrow> s \<in> {DS, ES, FS, GS} \<Longrightarrow> outer_seg (seg c s) = seg c s"
  by (auto simp: user_segments_def outer_seg_def)

lemma resume_outer:
  assumes "from_outer g c" "user_segments c" "stack d (frame_on True (frame_of v e x c) vs)" "seg d CS = selector g"
  shows "run h intr_exit d = c\<lparr>words := words d, port_log := port_log d\<rparr>"
proof -
  have "rpl (seg d CS) < rpl (ucast (is_cs (frame_of v e x c)))" using assms(1,4) by (simp add: from_outer_def frame_of_def asm)
  from intr_exit_outer [OF assms(3) this, of h] show ?thesis
    by (intro cpu.equality) (simp_all add: outer_seg_user [OF assms(2)] frame_of_def frame_gpr_def frame_seg_def fun_eq_iff asm split: reg.splits sreg.splits)
qed

lemma resume:
  assumes "stack d (frame_on (from_outer g c) (frame_of v e x c) vs)" "seg d CS = selector g" "from_outer g c \<Longrightarrow> user_segments c"
    "\<not> from_outer g c \<Longrightarrow> seg d SS = seg c SS \<and> gpr d ESP = gpr c ESP - 68"
  shows "run h intr_exit d = c\<lparr>words := words d, port_log := port_log d\<rparr>"
  using resume_same [of g c d v e x vs h] resume_outer [of g c d v e x vs h] assms by (cases "from_outer g c") auto

section \<open>Interrupts\<close>

definition user_mode :: "cpu \<Rightarrow> bool" where
  "user_mode c \<longleftrightarrow> rpl (seg c CS) \<noteq> 0"

lemma kernel_gate:
  assumes "selector g = SELECTOR_K_CODE"
  shows "from_outer g c \<longleftrightarrow> user_mode c"
proof -
  have "rpl (selector g) = 0" by (simp add: assms rpl_def SELECTOR_K_CODE_def)
  then show ?thesis by (simp add: from_outer_def user_mode_def word_neq_0_conv)
qed

lemma idt_gate:
  "v < 0x80 \<Longrightarrow> idt_desc_init entry_table syscall_at ! v = make_idt_desc IDT_DESC_ATTR_DPL0 (entry_table v)"
  "idt_desc_init entry_table syscall_at ! 0x80 = make_idt_desc IDT_DESC_ATTR_DPL3 syscall_at"
  by (simp_all add: idt_desc_init_def Let_def IDT_DESC_CNT_def)

lemma made_gate: "selector (make_idt_desc a e) = SELECTOR_K_CODE" "gate_offset (make_idt_desc a e) = e"
  by (simp add: make_idt_desc_def) (rule gate_offset_make)

lemma frame_split:
  "frame_on o' f vs = [vec_no f, is_edi f, is_esi f, is_ebp f, esp_dummy f, is_ebx f, is_edx f, is_ecx f] @ [is_eax f] @ drop 9 (frame_on o' f vs)"
  "frame_on False f vs = take 17 (frame_words f) @ vs" "length (take 17 (frame_words f)) = 17"
  by (simp_all add: frame_on_def frame_words_def)

lemma frame_tail: "stack_at w (a + 4) (tl (frame_on o' f vs)) \<Longrightarrow> stack_at w a (frame_on o' (f\<lparr>vec_no := w a\<rparr>) vs)"
  by (simp add: frame_on_def frame_words_def split: if_splits)

lemma frame_below: "stack_at w a (frame_on False f vs) \<Longrightarrow> stack_at w (a + 68) vs"
  unfolding frame_split(2) stack_at_append frame_split(3) by simp

lemma interrupts_masked: "eflags b = x AND NOT 0x34300 \<Longrightarrow> intr_get_status b = INTR_OFF"
  using intr_get_status_bit [of b] by (cases "intr_get_status b") (simp_all add: bit_simps)

text \<open>C7: An interrupt or exception on any of the vectors 0 to 0x2f, in user mode or in the kernel, with or
  without an error code, reaches the entry of its vector; the C handler is called with the vector as its
  argument, with interrupts off, on a stack that holds the interrupted context as the structure
  intr_stack, after one end-of-interrupt command to each controller. When the handler comes back as the
  calling convention demands, every register, segment register and flag, eip and esp of the interrupted
  code are as before; and in the kernel its stack is.\<close>
theorem interrupt_transparent:
  fixes t :: tss and h :: "addr \<Rightarrow> cpu \<Rightarrow> cpu" and entry_table :: "nat \<Rightarrow> addr" and syscall_at handlers r :: addr and v :: u32 and err :: "u32 option" and c :: cpu
  defines "g \<equiv> idt_desc_init entry_table syscall_at ! unat v"
  defines "b \<equiv> run h (vector_prologue v) (deliver t g err c)"
  defines "f \<equiv> frame_of v (error_word err) (gpr b ESP + 36) c"
  defines "d \<equiv> h (words b (handlers + v * 4)) (push r b)"
  assumes v: "unat v < 0x30" "has_error_code v \<longleftrightarrow> err \<noteq> None"
    and c: "user_mode c \<longrightarrow> user_segments c" "\<not> user_mode c \<longrightarrow> stack c vs" "length vs < 1000"
    and h: "returns_to 1 (tl (frame_on (user_mode c) f vs)) (h (words b (handlers + v * 4))) (push r b)"
  shows "eip (deliver t g err c) = entry_table (unat v)
    \<and> stack (push r b) (r # frame_on (user_mode c) f vs) \<and> intr_get_status b = INTR_OFF \<and> port_log b = port_log c @ [(0xa0, 0x20), (0x20, 0x20)]
    \<and> run h (intr_entry handlers r v) (deliver t g err c) = c\<lparr>words := words d, port_log := port_log d\<rparr>
    \<and> (\<not> user_mode c \<longrightarrow> stack_at (words d) (gpr c ESP) vs)"
proof -
  have g: "g = make_idt_desc IDT_DESC_ATTR_DPL0 (entry_table (unat v))" using v(1) unfolding g_def by (intro idt_gate) simp
  then have u: "from_outer g c \<longleftrightarrow> user_mode c" by (intro kernel_gate) (simp add: made_gate)
  note B = vector_prologue_state [where g = g and c = c and vs = vs and v = v and err = err and h = h and t = t, folded b_def, folded f_def, unfolded u, OF c(2,3) v(2)]
  note R = returns_toD [OF h, folded d_def]
  have d: "gpr d ESP = gpr b ESP" "seg d CS = selector g" "seg d SS = seg b SS" using R(1-3) B(6) by (simp_all add: asm)
  let ?f = "f\<lparr>vec_no := words d (gpr d ESP)\<rparr>"
  have ff: "?f = frame_of (words d (gpr d ESP)) (error_word err) (gpr b ESP + 36) c" by (simp add: f_def frame_of_def)
  have "stack_at (words d) (gpr b ESP + 4) (tl (frame_on (user_mode c) f vs))" using R(4) by (simp add: asm)
  then have s: "stack d (frame_on (from_outer g c) ?f vs)" unfolding d(1) u by (rule frame_tail)
  have "run h intr_exit d = c\<lparr>words := words d, port_log := port_log d\<rparr>"
    using resume [OF s [unfolded ff] d(2)] c(1) B(6,7) d(1,3) unfolding u by simp
  moreover have "run h (intr_entry handlers r v) (deliver t g err c) = run h intr_exit d"
    by (simp add: intr_entry_def d_def b_def)
  moreover have "stack_at (words d) (gpr c ESP) vs" if k: "\<not> user_mode c"
  proof -
    have "stack d (frame_on False ?f vs)" using s k unfolding u by simp
    from frame_below [OF this] B(7) [OF k] d(1) show ?thesis by simp
  qed
  moreover have "stack (push r b) (r # frame_on (user_mode c) f vs)"
    by (rule stack_push [OF B(1)]) (use c(3) in \<open>simp add: frame_on_def frame_words_def\<close>)
  moreover have "eip (deliver t g err c) = entry_table (unat v)"
    using deliver_state(3) [where g = g and c = c and vs = vs, unfolded u, OF c(2,3)] unfolding g made_gate by simp
  ultimately show ?thesis using B(5) interrupts_masked [OF B(4)] by simp
qed

section \<open>System calls\<close>

lemma syscall_prologue_state:
  fixes h t
  assumes "\<not> from_outer g c \<longrightarrow> stack c vs" "length vs < 1000"
  defines "b \<equiv> run h syscall_prologue (deliver t g None c)"
  shows "stack b ([gpr c EBX, gpr c ECX, gpr c EDX] @ frame_on (from_outer g c) (frame_of 0x80 0 (gpr b ESP + 48) c) vs)"
    "\<forall>r. r \<noteq> ESP \<longrightarrow> gpr b r = gpr c r" "eflags b = eflags c AND NOT 0x34300" "port_log b = port_log c"
    "seg b = (seg c)(CS := selector g, SS := if from_outer g c then ucast (ss0 t) else seg c SS)"
    "\<not> from_outer g c \<Longrightarrow> gpr b ESP = gpr c ESP - 80"
proof -
  let ?d = "deliver t g None c"
  let ?us = "[eip c, ucast (seg c CS), eflags c] @ (if from_outer g c then [gpr c ESP, ucast (seg c SS)] else vs)"
  note D = deliver_state [OF assms(1,2), where t = t and err = None]
  obtain e where ee: "e = push 0 ?d" by blast
  have e: "stack e (0 # ?us)" using D(1) stack_push [of ?d ?us 0] assms(2) by (simp add: ee)
  have E: "\<forall>r. r \<noteq> ESP \<longrightarrow> gpr e r = gpr c r" "seg e = seg ?d" "eip e = eip ?d" "eflags e = eflags ?d" "port_log e = port_log ?d"
    "\<not> from_outer g c \<Longrightarrow> gpr e ESP = gpr c ESP - 16"
    using D(2,7) unfolding ee by (auto simp: asm)
  have us: "length ?us < 2000" using assms(2) by simp
  note S = save_context_state [OF e us]
  obtain k where kk: "k = run h save_context e" by blast
  note S = S [where h = h, folded kk]
  have r: "gpr k r = gpr c r" if "r \<noteq> ESP" for r using S(2) E(1) that by simp
  have b: "b = fold push [0x80, gpr c EDX, gpr c ECX, gpr c EBX] k"
    using r by (simp add: b_def syscall_prologue_def ee [symmetric] kk [symmetric] asm)
  have sp: "gpr b ESP + 48 = gpr e ESP - 16" using S(2) by (simp add: b asm)
  have "[0x80, gpr e EDI, gpr e ESI, gpr e EBP, gpr e ESP - 16, gpr e EBX, gpr e EDX, gpr e ECX, gpr e EAX,
      ucast (seg e GS), ucast (seg e FS), ucast (seg e ES), ucast (seg e DS), 0] @ ?us
    = frame_on (from_outer g c) (frame_of 0x80 0 (gpr b ESP + 48) c) vs"
    using E(1) unfolding sp by (simp add: frame_on_def frame_of_def frame_words_def E(2) D(6))
  moreover have "stack b (rev [0x80, gpr c EDX, gpr c ECX, gpr c EBX] @ [gpr e EDI, gpr e ESI, gpr e EBP, gpr e ESP - 16, gpr e EBX, gpr e EDX,
      gpr e ECX, gpr e EAX, ucast (seg e GS), ucast (seg e FS), ucast (seg e ES), ucast (seg e DS), 0] @ ?us)"
    unfolding b by (rule stack_pushes [OF S(1)]) (use us in simp)
  ultimately show "stack b ([gpr c EBX, gpr c ECX, gpr c EDX] @ frame_on (from_outer g c) (frame_of 0x80 0 (gpr b ESP + 48) c) vs)"
    by simp
  show "\<forall>r. r \<noteq> ESP \<longrightarrow> gpr b r = gpr c r" using r by (simp add: b asm)
  show "eflags b = eflags c AND NOT 0x34300" "port_log b = port_log c"
    "seg b = (seg c)(CS := selector g, SS := if from_outer g c then ucast (ss0 t) else seg c SS)"
    unfolding b pushes_fields S(3-6) E(2-5) D(3-6) by (rule refl)+
  show "gpr b ESP = gpr c ESP - 80" if "\<not> from_outer g c" using S(2) E(6) [OF that] by (simp add: b asm)
qed

lemma frame_eax: "(frame_on o' f vs)[8 := x] = frame_on o' (f\<lparr>is_eax := x\<rparr>) vs"
  by (simp add: frame_on_def frame_words_def numeral_eq_Suc)

text \<open>C36: A system call through the gate of vector 0x80 reaches syscall_handler, which calls the function that
  syscall_table holds at eax with ebx, ecx and edx as its arguments; when the function comes back as the
  calling convention demands, the caller goes on behind its int instruction with the result in eax and
  every other register, segment register and flag as before. No end-of-interrupt command is sent.\<close>
theorem system_call_changes_eax:
  fixes t :: tss and h :: "addr \<Rightarrow> cpu \<Rightarrow> cpu" and entry_table :: "nat \<Rightarrow> addr" and syscall_at table r :: addr and c :: cpu
  defines "g \<equiv> idt_desc_init entry_table syscall_at ! 0x80"
  defines "b \<equiv> run h syscall_prologue (deliver t g None c)"
  defines "f \<equiv> frame_of 0x80 0 (gpr b ESP + 48) c"
  defines "d \<equiv> h (words b (table + 4 * gpr c EAX)) (push r b)"
  assumes c: "user_mode c \<longrightarrow> user_segments c" "\<not> user_mode c \<longrightarrow> stack c vs" "length vs < 1000"
    and h: "returns_to 3 (frame_on (user_mode c) f vs) (h (words b (table + 4 * gpr c EAX))) (push r b)"
  shows "eip (deliver t g None c) = syscall_at \<and> dpl (attribute g) = 3
    \<and> stack (push r b) ([r, gpr c EBX, gpr c ECX, gpr c EDX] @ frame_on (user_mode c) f vs) \<and> port_log b = port_log c
    \<and> run h (syscall_entry_code table r) (deliver t g None c)
        = c\<lparr>gpr := (gpr c)(EAX := gpr d EAX), words := (words d)(gpr b ESP + 44 := gpr d EAX), port_log := port_log d\<rparr>"
proof -
  have g: "g = make_idt_desc IDT_DESC_ATTR_DPL3 syscall_at" unfolding g_def by (rule idt_gate)
  then have u: "from_outer g c \<longleftrightarrow> user_mode c" by (intro kernel_gate) (simp add: made_gate)
  note B = syscall_prologue_state [where g = g and c = c and vs = vs and h = h and t = t, folded b_def, folded f_def, unfolded u, OF c(2,3)]
  note R = returns_toD [OF h, folded d_def]
  have d: "gpr d ESP = gpr b ESP" "seg d CS = selector g" "seg d SS = seg b SS" using R(1-3) B(5) by (simp_all add: asm)
  let ?F = "frame_on (user_mode c) f vs"
  have len: "8 < length ?F" "length ?F < 1000000" "length ?F < 2000" using c(3) by (simp_all add: frame_on_def frame_words_def)
  have "stack_at (words d) (gpr b ESP + 12) ?F" using R(4) by (simp add: asm)
  from stack_at_upd [OF this len(1,2), of "gpr d EAX"]
  have s: "stack_at ((words d)(gpr b ESP + 44 := gpr d EAX)) (gpr b ESP + 12) (frame_on (user_mode c) (f\<lparr>is_eax := gpr d EAX\<rparr>) vs)"
    unfolding frame_eax by (simp add: add.assoc)
  obtain e where e: "e = run h [Add_imm ESP 12, Store ESP 32 EAX] d" by blast
  have E: "words e = (words d)(gpr b ESP + 44 := gpr d EAX)" "gpr e ESP = gpr b ESP + 12" "seg e = seg d" "port_log e = port_log d"
    by (simp_all add: e d(1) asm add.assoc)
  let ?c = "c\<lparr>gpr := (gpr c)(EAX := gpr d EAX)\<rparr>"
  have u': "from_outer g ?c \<longleftrightarrow> user_mode c" "user_segments ?c \<longleftrightarrow> user_segments c" using u by (simp_all add: from_outer_def user_segments_def)
  have fe: "f\<lparr>is_eax := gpr d EAX\<rparr> = frame_of 0x80 0 (gpr b ESP + 48) ?c" by (simp add: f_def frame_of_def)
  have "stack e (frame_on (from_outer g ?c) (frame_of 0x80 0 (gpr b ESP + 48) ?c) vs)" using s unfolding E(1,2) u' fe by simp
  from resume [OF this] d(2,3) B(5,6) c(1) E
  have "run h intr_exit e = ?c\<lparr>words := words e, port_log := port_log e\<rparr>" unfolding u' by simp
  moreover have "run h (syscall_entry_code table r) (deliver t g None c) = run h intr_exit e"
    using B(2) by (simp add: syscall_entry_code_def e d_def b_def [symmetric])
  moreover have "stack (push r b) (r # [gpr c EBX, gpr c ECX, gpr c EDX] @ ?F)"
    by (rule stack_push [OF B(1)]) (use len in simp)
  moreover have "eip (deliver t g None c) = syscall_at"
    using deliver_state(3) [where g = g and c = c and vs = vs, unfolded u, OF c(2,3)] unfolding g made_gate by simp
  moreover have "dpl (attribute g) = 3" by (simp add: g make_idt_desc_def dpl_def IDT_DESC_ATTR_DPL3_def)
  ultimately show ?thesis using B(4) E by simp
qed

section \<open>Entering user mode\<close>

lemma frame_fields:
  "gpr (c\<lparr>gpr := x, seg := y, eip := i, eflags := e\<rparr>) = x" "seg (c\<lparr>gpr := x, seg := y, eip := i, eflags := e\<rparr>) = y"
  "eip (c\<lparr>gpr := x, seg := y, eip := i, eflags := e\<rparr>) = i" "eflags (c\<lparr>gpr := x, seg := y, eip := i, eflags := e\<rparr>) = e"
  by simp_all

lemma user_selectors:
  "(ucast SELECTOR_U_CODE :: u16) = 0x2b" "(ucast SELECTOR_U_DATA :: u16) = 0x33" "user_segment 0x33" "outer_seg 0x33 = 0x33" "outer_seg 0 = 0"
  "rpl 0x2b = 3" "rpl SELECTOR_K_CODE = 0"
  by (simp_all add: SELECTOR_U_CODE_def SELECTOR_U_DATA_def user_segment_def outer_seg_def rpl_def SELECTOR_K_CODE_def drop_bit_eq_div)

text \<open>C38: start_process, run by a process for the first time (its stack pointer still where thread_create left
  it), builds a frame in the room thread_create kept at the top of the page; the jump to intr_exit with
  that frame as the stack enters the program in user mode: the user segments, the program as eip,
  interrupts on, no I/O privilege, every register but esp cleared and a stack that ends at 3 GB, whose
  page is mapped to a frame of the user pool that was free.\<close>
theorem start_process_reaches_user:
  assumes "pools_ok (mm p)" "plock (user_pool (mm p)) = lock_init"
    and t: "t = running_thread (mm p)" "page_aligned t" "t \<noteq> NULL" "self_kstack (tasks (mm p) t) = t + 3664" "pgdir (tasks (mm p) t) \<noteq> NULL"
    and uv: "userprog_vaddr (mm p) t = user_space"
    and fr: "0 < free_frames PF_USER (mm p)" "0 < free_frames PF_KERNEL (mm p)" and np: "\<not> present (ptab (mm p) (pde_ptr USER_STACK3_VADDR))"
  shows "\<exists>p'. start_process filename p = Inr (t + 3792, p') \<and> unat (t + 3792) + 76 \<le> unat t + 4096
     \<and> (\<forall>c h. gpr c ESP = t + 3792 \<and> seg c CS = SELECTOR_K_CODE \<and> stack c (frame_words (istacks p' (t + 3792))) \<longrightarrow>
         (let u = run h intr_exit c in user_mode u \<and> eip u = filename \<and> gpr u = (\<lambda>_. 0)(ESP := 0xc0000000)
           \<and> seg u = (\<lambda>_. 0x33)(CS := 0x2b, GS := 0) \<and> bit (eflags u) 9 \<and> \<not> bit (eflags u) 12 \<and> \<not> bit (eflags u) 13))
     \<and> present (ptab (mm p') (pde_ptr USER_STACK3_VADDR)) \<and> present (ptab (mm p') (pte_ptr USER_STACK3_VADDR))
     \<and> (\<exists>j < pool_pages PF_USER (mm p). \<not> page_used PF_USER (mm p) j \<and> page_used PF_USER (mm p') j
          \<and> addr_v2p (ptab (mm p')) USER_STACK3_VADDR = frame (user_pool (mm p)) j)"
proof -
  obtain p' where p': "start_process filename p = Inr (t + 3792, p')" "unat (t + 3792) + 76 \<le> unat t + 4096"
    and F: "let f = istacks p' (t + 3792) in is_eip f = filename \<and> is_cs f = SELECTOR_U_CODE \<and> is_ss f = SELECTOR_U_DATA
          \<and> is_ds f = SELECTOR_U_DATA \<and> is_es f = SELECTOR_U_DATA \<and> is_fs f = SELECTOR_U_DATA \<and> is_gs f = 0
          \<and> is_esp f = 0xc0000000 \<and> bit (is_eflags f) 9 \<and> \<not> bit (is_eflags f) 12 \<and> \<not> bit (is_eflags f) 13
          \<and> is_eax f = 0 \<and> is_ebx f = 0 \<and> is_ecx f = 0 \<and> is_edx f = 0 \<and> is_esi f = 0 \<and> is_edi f = 0 \<and> is_ebp f = 0"
    and m: "present (ptab (mm p') (pde_ptr USER_STACK3_VADDR))" "present (ptab (mm p') (pte_ptr USER_STACK3_VADDR))"
      "\<exists>j < pool_pages PF_USER (mm p). \<not> page_used PF_USER (mm p) j \<and> page_used PF_USER (mm p') j
          \<and> addr_v2p (ptab (mm p')) USER_STACK3_VADDR = frame (user_pool (mm p)) j"
    using start_process_frame [OF assms(1,2) t uv fr np] by blast
  let ?f = "istacks p' (t + 3792)"
  have "let u = run h intr_exit c in user_mode u \<and> eip u = filename \<and> gpr u = (\<lambda>_. 0)(ESP := 0xc0000000)
      \<and> seg u = (\<lambda>_. 0x33)(CS := 0x2b, GS := 0) \<and> bit (eflags u) 9 \<and> \<not> bit (eflags u) 12 \<and> \<not> bit (eflags u) 13"
    if c: "gpr c ESP = t + 3792" "seg c CS = SELECTOR_K_CODE" and s: "stack c (frame_words ?f)" for c h
  proof -
    note f = F [unfolded Let_def]
    have r: "rpl (seg c CS) < rpl (ucast (is_cs ?f))" using f c(2) by (simp add: user_selectors)
    have "gpr (run h intr_exit c) = frame_gpr ?f 0xc0000000" "seg (run h intr_exit c) = frame_seg outer_seg ?f 0x33"
      "eip (run h intr_exit c) = filename" "eflags (run h intr_exit c) = is_eflags ?f"
      using intr_exit_outer [of c ?f "[]" h, OF _ r] s f by (simp_all add: frame_on_def user_selectors)
    then show ?thesis using f
      by (simp add: Let_def user_mode_def frame_gpr_def frame_seg_def user_selectors fun_eq_iff split: reg.splits sreg.splits)
  qed
  then show ?thesis using p' m by blast
qed

section \<open>Witnesses\<close>

text \<open>A program stopped in user mode, an empty kernel stack, and a handler that uses eax, sets gs as put_char does,
  writes a port and returns.\<close>

definition demo_user :: cpu where
  "demo_user = \<lparr>gpr = (\<lambda>r. 5)(ESP := 0xbffffff0, EAX := 2), seg = (\<lambda>_. 0x33)(CS := 0x2b, GS := 0), eip = 0x8048123, eflags = 0x202,
     words = (\<lambda>_. 0), port_log = []\<rparr>"

definition demo_tss :: tss where "demo_tss = \<lparr>ss0 = 0x10, esp0 = 0xc0101000, io_base = 108\<rparr>"

definition demo_handler :: "addr \<Rightarrow> cpu \<Rightarrow> cpu" where
  "demo_handler a c = (set_seg GS 0x18 (set_reg EAX 7 (drop_top c)))\<lparr>eip := top c, port_log := port_log c @ [(0x3d4, 1)]\<rparr>"

lemma demo_handler_returns: "stack c (us @ vs) \<Longrightarrow> length us = Suc n \<Longrightarrow> returns_to n vs (demo_handler a) c"
  by (simp add: returns_to_def demo_handler_def asm top_def stack_at_append algebra_simps)

lemma demo_user_fields:
  "user_mode demo_user" "user_segments demo_user" "port_log demo_user = []"
  by (simp_all add: demo_user_def user_mode_def user_segments_def user_segment_def rpl_def drop_bit_eq_div)

lemma interrupt_transparent_witness:
  "\<exists>w. run demo_handler (intr_entry 0xc0012000 0xc0001c00 0x20)
     (deliver demo_tss (idt_desc_init (\<lambda>i. 0xc0001b00 + of_nat i * 32) 0xc0001ab0 ! 0x20) None demo_user)
   = demo_user\<lparr>words := w, port_log := [(0xa0, 0x20), (0x20, 0x20), (0x3d4, 1)]\<rparr>"
proof -
  let ?g = "idt_desc_init (\<lambda>i. 0xc0001b00 + of_nat i * 32) 0xc0001ab0 ! 0x20"
  let ?b = "run demo_handler (vector_prologue 0x20) (deliver demo_tss ?g None demo_user)"
  let ?f = "frame_of 0x20 (error_word None) (gpr ?b ESP + 36) demo_user"
  have u: "from_outer ?g demo_user" using kernel_gate [of ?g] demo_user_fields(1) by (simp add: idt_gate made_gate)
  have e: "has_error_code 0x20 \<longleftrightarrow> (None :: u32 option) \<noteq> None" by (simp add: has_error_code_def)
  have n: "unat (0x20 :: u32) = 0x20" by simp
  note B = vector_prologue_state [where g = ?g and c = demo_user and vs = "[]" and v = "0x20" and err = None and h = demo_handler and t = demo_tss, OF _ _ e]
  have s: "stack ?b (vec_no ?f # tl (frame_on True ?f []))" using B(1) u by (simp add: frame_on_def frame_words_def)
  have "stack (push 0xc0001c00 ?b) ([0xc0001c00, vec_no ?f] @ tl (frame_on True ?f []))"
    using stack_push [OF s] by (simp add: frame_on_def frame_words_def)
  from demo_handler_returns [OF this, of 1]
  have "returns_to 1 (tl (frame_on (user_mode demo_user) ?f [])) (demo_handler (words ?b (0xc0012000 + 0x20 * 4))) (push 0xc0001c00 ?b)"
    by (simp add: demo_user_fields)
  from interrupt_transparent [where v = "0x20" and t = demo_tss and h = demo_handler and c = demo_user and vs = "[]", unfolded n, OF _ e _ _ _ this]
    demo_user_fields B(5) u
  show ?thesis by (auto simp: demo_handler_def asm)
qed

lemma system_call_changes_eax_witness:
  "\<exists>w. run demo_handler (syscall_entry_code 0xc0012400 0xc0001c00)
     (deliver demo_tss (idt_desc_init (\<lambda>i. 0xc0001b00 + of_nat i * 32) 0xc0001ab0 ! 0x80) None demo_user)
   = demo_user\<lparr>gpr := (gpr demo_user)(EAX := 7), words := w, port_log := [(0x3d4, 1)]\<rparr>"
proof -
  let ?g = "idt_desc_init (\<lambda>i. 0xc0001b00 + of_nat i * 32) 0xc0001ab0 ! 0x80"
  let ?b = "run demo_handler syscall_prologue (deliver demo_tss ?g None demo_user)"
  let ?f = "frame_of 0x80 0 (gpr ?b ESP + 48) demo_user"
  have u: "from_outer ?g demo_user" using kernel_gate [of ?g] demo_user_fields(1) by (simp add: idt_gate made_gate)
  note B = syscall_prologue_state [where g = ?g and c = demo_user and vs = "[]" and h = demo_handler and t = demo_tss]
  have s: "stack ?b ([gpr demo_user EBX, gpr demo_user ECX, gpr demo_user EDX] @ frame_on True ?f [])" using B(1) u by simp
  have "stack (push 0xc0001c00 ?b) ([0xc0001c00, gpr demo_user EBX, gpr demo_user ECX, gpr demo_user EDX] @ frame_on True ?f [])"
    using stack_push [OF s] by (simp add: frame_on_def frame_words_def)
  from demo_handler_returns [OF this, of 3]
  have "returns_to 3 (frame_on (user_mode demo_user) ?f []) (demo_handler (words ?b (0xc0012400 + 4 * gpr demo_user EAX))) (push 0xc0001c00 ?b)"
    by (simp add: demo_user_fields)
  from system_call_changes_eax [where t = demo_tss and h = demo_handler and c = demo_user and vs = "[]", OF _ _ _ this]
    demo_user_fields B(4) u
  show ?thesis by (auto simp: demo_handler_def asm)
qed

lemma start_process_reaches_user_witness:
  "\<exists>p' c. start_process 0x8048000 demo_process = Inr (0xc009eed0, p') \<and> stack c (frame_words (istacks p' 0xc009eed0))
     \<and> user_mode (run demo_handler intr_exit c) \<and> eip (run demo_handler intr_exit c) = 0x8048000
     \<and> gpr (run demo_handler intr_exit c) = (\<lambda>_. 0)(ESP := 0xc0000000)"
proof -
  have a: "page_aligned 0xc009e000" "(0xc009e000 :: addr) \<noteq> NULL" "(0xc009e000 :: addr) + 3792 = 0xc009eed0" by (simp_all add: page_aligned_def)
  obtain p' where p': "start_process 0x8048000 demo_process = Inr (0xc009eed0, p')"
    and u: "\<forall>c h. gpr c ESP = 0xc009eed0 \<and> seg c CS = SELECTOR_K_CODE \<and> stack c (frame_words (istacks p' 0xc009eed0)) \<longrightarrow>
      user_mode (run h intr_exit c) \<and> eip (run h intr_exit c) = 0x8048000 \<and> gpr (run h intr_exit c) = (\<lambda>_. 0)(ESP := 0xc0000000)"
    using start_process_reaches_user [where filename = "0x8048000", OF demo_process_ready(1-3) a(1,2) demo_process_ready(4-6) demo_process_ready(7) demo_process_ready(7,8)]
    unfolding a(3) Let_def by blast
  let ?k = "set_seg CS SELECTOR_K_CODE (set_reg ESP (0xc009eed0 + 76) demo_user)"
  let ?w = "frame_words (istacks p' 0xc009eed0)"
  let ?c = "fold push (rev ?w) ?k"
  have "stack ?c ?w" using stack_pushes [of ?k "[]" "rev ?w"] by (simp add: frame_words_def)
  moreover have "gpr ?c ESP = 0xc009eed0" "seg ?c CS = SELECTOR_K_CODE" unfolding pushes_gpr pushes_fields by (simp_all add: asm frame_words_def)
  ultimately show ?thesis using p' u by blast
qed

end
