(* ===== verification/Screen.thy ===== *)
theory Screen
  imports Stdio
begin

text \<open>
  lib/kernel/print.S on the text screen: the bytes of video memory behind gs, the two registers of the
  controller that hold the cursor, and the code of put_char, put_str, put_int and cls_screen with its
  16-bit registers, signed jumps and loops. The specification is a screen of 2000 cells with a position;
  \<open>cells\<close> and \<open>cursor\<close> abstract to it. Stdio keeps the characters put so far; \<open>displays\<close> relates the two.
\<close>

section \<open>The code\<close>

record vga =
  video :: "u16 \<Rightarrow> u8"
  crtc :: "u8 \<Rightarrow> u8"

text \<open>The cursor through the index register 0x3d4 and the data register 0x3d5. The code at set_cursor is where
  put_char and cls_screen end, with the position in bx; that it ends in popad and is no function for C is
  in theory Asm.\<close>

definition get_cursor :: "vga \<Rightarrow> u16" where
  "get_cursor v = push_bit 8 (ucast (crtc v 0x0e)) OR ucast (crtc v 0x0f)"

definition set_cursor :: "u16 \<Rightarrow> vga \<Rightarrow> vga" where
  "set_cursor bx v = v\<lparr>crtc := (crtc v)(0x0e := ucast (drop_bit 8 bx), 0x0f := ucast bx)\<rparr>"

definition put_cell :: "u16 \<Rightarrow> u8 \<Rightarrow> vga \<Rightarrow> vga" where
  "put_cell off ch v = v\<lparr>video := (video v)(off := ch, off + 1 := 0x07)\<rparr>"

text \<open>rep movsd, four bytes at a time, and the loop that stores the word 0x0720.\<close>

fun movsd_loop :: "nat \<Rightarrow> u16 \<Rightarrow> u16 \<Rightarrow> vga \<Rightarrow> vga" where
  "movsd_loop 0 si di v = v"
| "movsd_loop (Suc ecx) si di v = movsd_loop ecx (si + 4) (di + 4)
     (v\<lparr>video := (video v)(di := video v si, di + 1 := video v (si + 1), di + 2 := video v (si + 2), di + 3 := video v (si + 3))\<rparr>)"

fun blank_loop :: "nat \<Rightarrow> u16 \<Rightarrow> vga \<Rightarrow> vga" where
  "blank_loop 0 bx v = v"
| "blank_loop (Suc ecx) bx v = blank_loop ecx (bx + 2) (put_cell bx 0x20 v)"

definition roll_screen :: "vga \<Rightarrow> vga" where
  "roll_screen v = set_cursor 1920 (blank_loop 80 3840 (movsd_loop 960 160 0 v))"

text \<open>A carriage return and a line feed both go to the start of the next row; jl compares with sign.\<close>

definition line_feed :: "u16 \<Rightarrow> vga \<Rightarrow> vga" where
  "line_feed bx v = (let bx = bx - bx mod 80 + 80 in if bx <s 2000 then set_cursor bx v else roll_screen v)"

definition put_char_vga :: "u8 \<Rightarrow> vga \<Rightarrow> vga" where
  "put_char_vga cl v =
     (let bx = get_cursor v in
      if cl = 0x0d \<or> cl = 0x0a then line_feed bx v
      else if cl = 0x08 then let off = push_bit 1 (bx - 1) in set_cursor (drop_bit 1 (off + 1)) (put_cell off 0x20 v)
      else let off = push_bit 1 bx; bx = drop_bit 1 (off + 1) + 1; v = put_cell off cl v in
           if bx <s 2000 then set_cursor bx v else line_feed bx v)"

partial_function (option) put_str_vga :: "mem \<Rightarrow> addr \<Rightarrow> vga \<Rightarrow> vga option" where
  "put_str_vga m ebx v = (if m ebx = 0 then Some v else put_str_vga m (ebx + 1) (put_char_vga (m ebx) v))"

definition cls_screen :: "vga \<Rightarrow> vga" where
  "cls_screen v = set_cursor 0 (blank_loop (80 * 25) 0 v)"

text \<open>put_int: eight digits into the buffer from the last place on, the leading zeros skipped, the rest put.\<close>

definition hex_char :: "u32 \<Rightarrow> u8" where
  "hex_char edx = (if 9 <s edx then ucast (edx - 10 + 0x41) else ucast (edx + 0x30))"

fun digits_loop :: "nat \<Rightarrow> u32 \<Rightarrow> u8 list \<Rightarrow> u8 list" where
  "digits_loop 0 eax buf = buf"
| "digits_loop (Suc edi) eax buf = digits_loop edi (drop_bit 4 eax) (buf[edi := hex_char (eax AND 0x0000000f)])"

text \<open>The result is the character to put first and where it stands; at 8 all were zeros.\<close>

function skip_prefix_0 :: "nat \<Rightarrow> u8 list \<Rightarrow> u8 \<times> nat" where
  "skip_prefix_0 edi buf = (if 8 \<le> edi then (0x30, edi) else if buf ! edi = 0x30 then skip_prefix_0 (edi + 1) buf else (buf ! edi, edi))"
  by pat_completeness auto
termination by (relation "measure (\<lambda>(edi, _). 8 - edi)") auto

function put_each_num :: "nat \<Rightarrow> u8 \<Rightarrow> u8 list \<Rightarrow> vga \<Rightarrow> vga" where
  "put_each_num edi cl buf v = (let v = put_char_vga cl v in if edi + 1 < 8 then put_each_num (edi + 1) (buf ! (edi + 1)) buf v else v)"
  by pat_completeness auto
termination by (relation "measure (\<lambda>(edi, _). 8 - edi)") auto

definition put_int_vga :: "u32 \<Rightarrow> vga \<Rightarrow> vga" where
  "put_int_vga num v =
     (let buf = digits_loop 8 num (replicate 8 0); (cl, edi) = skip_prefix_0 0 buf in put_each_num edi cl buf v)"

section \<open>The screen it implements\<close>

definition cursor :: "vga \<Rightarrow> nat" where "cursor v = unat (get_cursor v)"

definition cells :: "vga \<Rightarrow> (u8 \<times> u8) list" where
  "cells v = map (\<lambda>i. (video v (of_nat (2 * i)), video v (of_nat (2 * i + 1)))) [0..<2000]"

type_synonym display = "(u8 \<times> u8) list \<times> nat"

definition next_row :: "display \<Rightarrow> display" where
  "next_row d = (case d of (cs, pos) \<Rightarrow>
     if pos div 80 < 24 then (cs, (pos div 80 + 1) * 80) else (drop 80 cs @ replicate 80 (0x20, 0x07), 24 * 80))"

definition show_char :: "u8 \<Rightarrow> display \<Rightarrow> display" where
  "show_char ch d = (case d of (cs, pos) \<Rightarrow>
     if ch = 0x0d \<or> ch = 0x0a then next_row d
     else if ch = 0x08 then (cs[pos - 1 := (0x20, 0x07)], pos - 1)
     else if pos + 1 < 2000 then (cs[pos := (ch, 0x07)], pos + 1)
     else next_row (cs[pos := (ch, 0x07)], pos))"

definition empty_display :: display where
  "empty_display = (replicate 2000 (0x20, 0x07), 0)"

definition display_of :: "vga \<Rightarrow> display" where
  "display_of v = (cells v, cursor v)"


section \<open>Words of 16 bits\<close>

lemma of_nat_u16_eq: "a < 65536 \<Longrightarrow> b < 65536 \<Longrightarrow> (of_nat a :: u16) = of_nat b \<longleftrightarrow> a = b"
  by (simp add: word_unat_eq_iff unat_of_nat take_bit_nat_eq_self)

lemma unat_of_nat_u16: "n < 65536 \<Longrightarrow> unat (of_nat n :: u16) = n"
  by (simp add: unat_of_nat take_bit_nat_eq_self)

lemma below_2000: "n < 32768 \<Longrightarrow> (of_nat n :: u16) <s 2000 \<longleftrightarrow> n < 2000"
proof -
  assume n: "n < 32768"
  have "sint (of_nat n :: u16) = int n"
    using n by (simp add: sint_uint unsigned_of_nat take_bit_nat_eq_self signed_take_bit_int_eq_self)
  moreover have "sint (2000 :: u16) = 2000" by simp
  ultimately show ?thesis by (simp add: word_sless_alt)
qed

lemma twice_u16: "n < 32768 \<Longrightarrow> push_bit 1 (of_nat n :: u16) = of_nat (2 * n)"
  by (simp add: push_bit_eq_mult mult.commute)

lemma half_u16: "n < 32768 \<Longrightarrow> drop_bit 1 (of_nat (2 * n) + 1 :: u16) = of_nat n"
proof -
  assume n: "n < 32768"
  have e: "of_nat (2 * n) + 1 = (of_nat (2 * n + 1) :: u16)" by simp
  have "unat (drop_bit 1 (of_nat (2 * n + 1) :: u16)) = (2 * n + 1) div 2"
    unfolding unsigned_drop_bit_eq using n unat_of_nat_u16 [of "2 * n + 1"]
    by (simp add: drop_bit_eq_div take_bit_nat_eq_self)
  then have "unat (drop_bit 1 (of_nat (2 * n + 1) :: u16)) = unat (of_nat n :: u16)" using n by (simp add: unat_of_nat_u16)
  then show ?thesis unfolding e word_unat_eq_iff .
qed

lemma row_start: "n < 32768 \<Longrightarrow> (of_nat n - of_nat n mod 80 + 80 :: u16) = of_nat ((n div 80 + 1) * 80)"
proof -
  assume n: "n < 32768"
  have "(of_nat n :: u16) mod 80 = of_nat (n mod 80)"
    using n by (simp add: word_unat_eq_iff unat_mod unat_of_nat_u16 del: unsigned_of_nat)
  moreover have "(of_nat n :: u16) = of_nat (n div 80 * 80) + of_nat (n mod 80)"
    unfolding of_nat_add [symmetric] by (simp only: div_mult_mod_eq)
  ultimately show ?thesis by (simp add: algebra_simps)
qed

section \<open>Cursor and cells\<close>

lemma get_set_cursor [simp]: "get_cursor (set_cursor bx v) = bx" "video (set_cursor bx v) = video v"
  by (auto simp: get_cursor_def set_cursor_def bit_simps intro!: bit_word_eqI) 

lemma display_set_cursor: "display_of (set_cursor bx v) = (cells v, unat bx)"
  by (simp add: display_of_def cursor_def cells_def)

lemma length_cells [simp]: "length (cells v) = 2000"
  by (simp add: cells_def)

lemma cells_put:
  assumes "p < 2000"
  shows "cells (put_cell (of_nat (2 * p)) ch v) = (cells v)[p := (ch, 0x07)]"
proof (rule nth_equalityI)
  fix i assume "i < length (cells (put_cell (of_nat (2 * p)) ch v))"
  then have i: "i < 2000" by simp
  have s: "of_nat (2 * p) + 1 = (of_nat (2 * p + 1) :: u16)" by simp
  have "(of_nat (2 * i) :: u16) = of_nat (2 * p) \<longleftrightarrow> i = p" "(of_nat (2 * i + 1) :: u16) = of_nat (2 * p + 1) \<longleftrightarrow> i = p"
    "(of_nat (2 * i) :: u16) \<noteq> of_nat (2 * p + 1)" "(of_nat (2 * i + 1) :: u16) \<noteq> of_nat (2 * p)"
    using i assms by (subst of_nat_u16_eq; simp; presburger?)+
  then show "cells (put_cell (of_nat (2 * p)) ch v) ! i = (cells v)[p := (ch, 0x07)] ! i"
    using i assms unfolding put_cell_def s cells_def by (simp add: nth_list_update del: of_nat_mult of_nat_add of_nat_Suc)
qed simp

section \<open>Scrolling\<close>

text \<open>The bytes below 4 k have been fetched from one row further.\<close>

definition fetched :: "nat \<Rightarrow> vga \<Rightarrow> vga" where
  "fetched k v = v\<lparr>video := (\<lambda>a. if unat a < 4 * k then video v (a + 160) else video v a)\<rparr>"

lemma fetched_step:
  fixes v :: vga
  assumes "k < 10000"
  defines "f \<equiv> video (fetched k v)" and "si \<equiv> of_nat (4 * k + 160) :: u16" and "di \<equiv> of_nat (4 * k) :: u16"
  shows "(fetched k v)\<lparr>video := f(di := f si, di + 1 := f (si + 1), di + 2 := f (si + 2), di + 3 := f (si + 3))\<rparr> = fetched (Suc k) v"
proof -
  have s: "di + 1 = of_nat (4 * k + 1)" "di + 2 = of_nat (4 * k + 2)" "di + 3 = of_nat (4 * k + 3)"
    "si + 1 = of_nat (4 * k + 161)" "si + 2 = of_nat (4 * k + 162)" "si + 3 = of_nat (4 * k + 163)"
    by (simp_all add: si_def di_def)
  have f: "f (of_nat b) = video v (of_nat b)" if "4 * k \<le> b" "b < 65536" for b
    using that by (simp add: f_def fetched_def unat_of_nat_u16 del: of_nat_add of_nat_mult)
  have "(f(di := f si, di + 1 := f (si + 1), di + 2 := f (si + 2), di + 3 := f (si + 3))) (of_nat a) = video (fetched (Suc k) v) (of_nat a)"
    if a: "a < 65536" for a
  proof -
    have e: "(of_nat a :: u16) = of_nat b \<longleftrightarrow> a = b" if "b < 65536" for b using a that by (rule of_nat_u16_eq)
    have l: "unat (of_nat a :: u16) = a" using a by (rule unat_of_nat_u16)
    have p: "(of_nat b :: u16) + 160 = of_nat (b + 160)" for b by simp
    have r: "video (fetched (Suc k) v) (of_nat a) = (if a < 4 * k + 4 then video v (of_nat (a + 160)) else video v (of_nat a))"
      "f (of_nat a) = (if a < 4 * k then video v (of_nat (a + 160)) else video v (of_nat a))"
      using l by (auto simp: f_def fetched_def add.commute)
    consider "a < 4 * k" | "a = 4 * k" | "a = 4 * k + 1" | "a = 4 * k + 2" | "a = 4 * k + 3" | "4 * k + 4 \<le> a" by linarith
    then show ?thesis
      using assms(1) a unfolding s unfolding si_def di_def fun_upd_apply r
      by cases (simp_all add: of_nat_u16_eq f ac_simps del: of_nat_add of_nat_mult of_nat_Suc)
  qed
  then have "f(di := f si, di + 1 := f (si + 1), di + 2 := f (si + 2), di + 3 := f (si + 3)) = video (fetched (Suc k) v)"
    by (intro ext) (metis unat_u16_less of_nat_unat ucast_id)
  then show ?thesis by (simp add: fetched_def)
qed

lemma movsd_fetches: "k + n \<le> 10000 \<Longrightarrow> movsd_loop n (of_nat (4 * k + 160)) (of_nat (4 * k)) (fetched k v) = fetched (k + n) v"
proof (induction n arbitrary: k)
  case (Suc n)
  have s: "(of_nat (4 * k + 160) :: u16) + 4 = of_nat (4 * Suc k + 160)" "(of_nat (4 * k) :: u16) + 4 = of_nat (4 * Suc k)" by simp_all
  have k: "k < 10000" using Suc.prems by simp
  show ?case
    using Suc.IH [of "Suc k"] Suc.prems unfolding movsd_loop.simps fetched_step [OF k] s by simp
qed simp

lemma cells_fetched: "i < 1920 \<Longrightarrow> cells (fetched 960 v) ! i = cells v ! (i + 80)"
proof -
  assume i: "i < 1920"
  have "(of_nat (2 * i) :: u16) + 160 = of_nat (2 * (i + 80))" "(of_nat (2 * i + 1) :: u16) + 160 = of_nat (2 * (i + 80) + 1)" by simp_all
  moreover have "unat (of_nat (2 * i) :: u16) < 3840" "unat (of_nat (2 * i + 1) :: u16) < 3840"
    using i unat_of_nat_u16 [of "2 * i"] unat_of_nat_u16 [of "2 * i + 1"] by simp_all
  ultimately show ?thesis using i by (simp add: cells_def fetched_def del: of_nat_mult of_nat_add of_nat_Suc)
qed

lemma blank_cells: "p + n \<le> 2000 \<Longrightarrow>
  cells (blank_loop n (of_nat (2 * p)) v) = take p (cells v) @ replicate n (0x20, 0x07) @ drop (p + n) (cells v)"
proof (induction n arbitrary: p v)
  case (Suc n)
  have s: "(of_nat (2 * p) :: u16) + 2 = of_nat (2 * Suc p)" by simp
  have p: "p < 2000" using Suc.prems by simp
  have "cells (blank_loop (Suc n) (of_nat (2 * p)) v)
      = take (Suc p) ((cells v)[p := (0x20, 0x07)]) @ replicate n (0x20, 0x07) @ drop (Suc p + n) ((cells v)[p := (0x20, 0x07)])"
    using Suc.IH [of "Suc p" "put_cell (of_nat (2 * p)) 0x20 v"] Suc.prems unfolding blank_loop.simps s cells_put [OF p] by simp
  then show ?case using p by (simp add: take_Suc_conv_app_nth)
qed simp

lemma roll_display: "display_of (roll_screen v) = (drop 80 (cells v) @ replicate 80 (0x20, 0x07), 1920)"
proof -
  have f: "movsd_loop 960 160 0 v = fetched 960 v" using movsd_fetches [of 0 960 v] by (simp add: fetched_def)
  have "cells (blank_loop 80 3840 (fetched 960 v)) = take 1920 (cells (fetched 960 v)) @ replicate 80 (0x20, 0x07)"
    using blank_cells [of 1920 80 "fetched 960 v"] by simp
  moreover have "take 1920 (cells (fetched 960 v)) = drop 80 (cells v)"
    by (rule nth_equalityI) (simp_all add: cells_fetched add.commute)
  ultimately show ?thesis by (simp add: roll_screen_def f display_set_cursor)
qed

lemma cls_display: "display_of (cls_screen v) = empty_display"
  using blank_cells [of 0 2000 v] by (simp add: cls_screen_def display_set_cursor empty_display_def)

section \<open>Characters\<close>

lemma line_feed_display: "n \<le> 2000 \<Longrightarrow> n div 80 \<le> 25 \<Longrightarrow> display_of (line_feed (of_nat n) v)
    = (if (n div 80 + 1) * 80 < 2000 then (cells v, (n div 80 + 1) * 80) else (drop 80 (cells v) @ replicate 80 (0x20, 0x07), 1920))"
proof -
  assume n: "n \<le> 2000" "n div 80 \<le> 25"
  obtain k where k: "k = (n div 80 + 1) * 80" by blast
  have l: "k < 32768" and n32: "n < 32768" using n by (simp_all add: k)
  have "line_feed (of_nat n) v = (if k < 2000 then set_cursor (of_nat k) v else roll_screen v)"
    unfolding line_feed_def Let_def row_start [OF n32] k [symmetric] below_2000 [OF l] by (rule refl)
  then show ?thesis using l unat_of_nat_u16 [of k] unfolding k [symmetric] by (simp add: display_set_cursor roll_display)
qed

lemma put_char_display:
  assumes "cursor v < 2000" "ch = 0x08 \<longrightarrow> 0 < cursor v"
  shows "display_of (put_char_vga ch v) = show_char ch (display_of v)"
proof -
  obtain n where n: "get_cursor v = of_nat n" "cursor v = n" by (metis cursor_def of_nat_unat ucast_id)
  have l: "n < 2000" using assms(1) n(2) by simp
  have d: "display_of v = (cells v, n)" by (simp add: display_of_def n(2))
  have r: "n div 80 \<le> 24" using l by (simp add: div_le_mono [of n 1999 80, simplified])
  note put = cells_put [OF l, of ch v]
  consider "ch = 0x0d \<or> ch = 0x0a" | "ch = 0x08" | "ch \<notin> {0x0d, 0x0a, 0x08}" by blast
  then show ?thesis
  proof cases
    case 1
    then have "put_char_vga ch v = line_feed (of_nat n) v" "show_char ch (display_of v) = next_row (cells v, n)"
      by (auto simp: put_char_vga_def show_char_def n(1) d)
    then show ?thesis using line_feed_display [of n v] l r by (auto simp: next_row_def)
  next
    case 2
    have s: "(of_nat n - 1 :: u16) = of_nat (n - 1)" "n - 1 < 2000" "n - 1 < 32768" using assms(2) 2 n(2) l by (simp_all add: of_nat_diff)
    have "put_char_vga ch v = set_cursor (of_nat (n - 1)) (put_cell (of_nat (2 * (n - 1))) 0x20 v)"
      unfolding put_char_vga_def n(1) s(1) Let_def twice_u16 [OF s(3)] half_u16 [OF s(3)] by (simp add: 2)
    then show ?thesis using cells_put [OF s(2), of "0x20" v] unat_of_nat_u16 [of "n - 1"] l
      by (simp add: display_set_cursor show_char_def d 2)
  next
    case 3
    have n32: "n < 32768" "n + 1 < 32768" using l by simp_all
    let ?v = "put_cell (of_nat (2 * n)) ch v"
    have s: "(of_nat n + 1 :: u16) = of_nat (n + 1)" by simp
    have "put_char_vga ch v = (if n + 1 < 2000 then set_cursor (of_nat (n + 1)) ?v else line_feed (of_nat (n + 1)) ?v)"
      unfolding put_char_vga_def n(1) Let_def twice_u16 [OF n32(1)] half_u16 [OF n32(1)] s below_2000 [OF n32(2)] using 3 by simp
    moreover have "display_of (line_feed (of_nat (n + 1)) ?v) = next_row ((cells v)[n := (ch, 0x07)], n)" if "\<not> n + 1 < 2000"
      using line_feed_display [of "n + 1" ?v] that l put by (simp add: next_row_def)
    moreover have "display_of (set_cursor (of_nat (n + 1)) ?v) = ((cells v)[n := (ch, 0x07)], n + 1)" if "n + 1 < 2000"
      using put unat_of_nat_u16 [of "n + 1"] that by (simp add: display_set_cursor)
    ultimately show ?thesis using 3 by (simp add: show_char_def d)
  qed
qed

lemma show_char_stays:
  assumes "snd d < 2000" "length (fst d) = 2000"
  shows "snd (show_char ch d) < 2000" "length (fst (show_char ch d)) = 2000"
proof -
  have "snd (next_row (cs, p)) < 2000" "length cs = 2000 \<Longrightarrow> length (fst (next_row (cs, p))) = 2000" if "p < 2000" for cs p
    using that by (auto simp: next_row_def)
  then show "snd (show_char ch d) < 2000" "length (fst (show_char ch d)) = 2000"
    using assms by (auto simp: show_char_def split: prod.splits)
qed

lemma put_chars_display:
  assumes "cursor v < 2000" "0x08 \<notin> set cs"
  shows "display_of (fold put_char_vga cs v) = fold show_char cs (display_of v)" "cursor (fold put_char_vga cs v) < 2000"
proof -
  have "display_of (fold put_char_vga cs v) = fold show_char cs (display_of v) \<and> cursor (fold put_char_vga cs v) < 2000"
    using assms
  proof (induction cs arbitrary: v)
    case (Cons ch cs)
    have p: "display_of (put_char_vga ch v) = show_char ch (display_of v)" using put_char_display [of v ch] Cons.prems by auto
    have "cursor (put_char_vga ch v) = snd (display_of (put_char_vga ch v))" by (simp add: display_of_def)
    also have "\<dots> < 2000" unfolding p using show_char_stays(1) [of "display_of v" ch] Cons.prems(1) by (simp add: display_of_def)
    finally show ?case using Cons.IH [of "put_char_vga ch v"] Cons.prems p by auto
  qed simp
  then show "display_of (fold put_char_vga cs v) = fold show_char cs (display_of v)" "cursor (fold put_char_vga cs v) < 2000" by simp_all
qed

lemma put_str_vga_cstr: "cstr m p cs \<Longrightarrow> put_str_vga m p v = Some (fold put_char_vga cs v)"
proof (induction cs arbitrary: p v)
  case Nil
  then show ?case by (simp add: put_str_vga.simps)
next
  case (Cons c cs)
  then show ?case by (simp add: put_str_vga.simps [of m p])
qed

section \<open>Numbers\<close>

lemma hex_char_digit: "hex_char (x AND 0x0000000f) = digit_char (unat x mod 16)"
proof -
  have "x AND 0xf = of_nat (unat x mod 16)"
  proof -
    have m: "(0xf :: u32) = mask 4" by (simp add: mask_eq_exp_minus_1)
    have "unat (x AND 0xf) = unat x mod 16"
      unfolding m by (simp add: unsigned_take_bit_eq flip: take_bit_eq_mask) (simp add: take_bit_eq_mod)
    then show ?thesis by (metis of_nat_unat ucast_id)
  qed
  moreover have "\<forall>d \<in> set [0..<16]. hex_char (of_nat d) = digit_char d" by code_simp
  moreover have "unat x mod 16 \<in> set [0..<16]" by simp
  ultimately show ?thesis by (metis (no_types))
qed

lemma digits_loop_hex: "k \<le> length buf \<Longrightarrow> digits_loop k eax buf = hex_digits k (unat eax) @ drop k buf"
proof (induction k arbitrary: eax buf)
  case (Suc k)
  have u: "unat (drop_bit 4 eax) = unat eax div 16" by (simp add: drop_bit_eq_div unat_div)
  have "digits_loop k (drop_bit 4 eax) (buf[k := hex_char (eax AND 0x0000000f)])
      = hex_digits k (unat eax div 16) @ drop k (buf[k := hex_char (eax AND 0x0000000f)])"
    using Suc.IH [of "buf[k := hex_char (eax AND 0x0000000f)]" "drop_bit 4 eax"] Suc.prems unfolding u by simp
  moreover have "drop k (buf[k := hex_char (eax AND 0x0000000f)]) = digit_char (unat eax mod 16) # drop (Suc k) buf"
    using Suc.prems by (subst Cons_nth_drop_Suc [symmetric]) (simp_all add: hex_char_digit)
  ultimately show ?case by simp
qed simp

declare skip_prefix_0.simps [simp del] put_each_num.simps [simp del]

lemma put_each_fold: "length buf = 8 \<Longrightarrow> put_each_num edi cl buf v = fold put_char_vga (cl # drop (edi + 1) buf) v"
proof (induction edi cl buf v rule: put_each_num.induct)
  case (1 edi cl buf v)
  show ?case
  proof (cases "edi + 1 < 8")
    case True
    then have "drop (edi + 1) buf = buf ! (edi + 1) # drop (edi + 1 + 1) buf" using 1(2) by (simp add: Cons_nth_drop_Suc)
    then show ?thesis using 1 True by (simp add: put_each_num.simps [of edi] Let_def)
  next
    case False
    then show ?thesis using 1(2) by (simp add: put_each_num.simps [of edi] Let_def)
  qed
qed

lemma skip_put:
  assumes "length buf = 8" "i \<le> 8"
  shows "(case skip_prefix_0 i buf of (cl, edi) \<Rightarrow> put_each_num edi cl buf v)
    = fold put_char_vga (let s = dropWhile (\<lambda>ch. ch = 0x30) (drop i buf) in if s = [] then [0x30] else s) v"
  using assms
proof (induction i buf rule: skip_prefix_0.induct)
  case (1 i buf)
  show ?case
  proof (cases "i = 8")
    case True
    then show ?thesis using 1(2) by (simp add: skip_prefix_0.simps put_each_fold)
  next
    case False
    then have i: "i < 8" using 1(3) by simp
    then have d: "drop i buf = buf ! i # drop (Suc i) buf" using 1(2) by (simp add: Cons_nth_drop_Suc)
    show ?thesis
    proof (cases "buf ! i = 0x30")
      case True
      then show ?thesis using 1(1) [of] 1(2) i unfolding d by (simp add: skip_prefix_0.simps [of i])
    next
      case False
      then show ?thesis using 1(2) i unfolding d by (simp add: skip_prefix_0.simps [of i] put_each_fold)
    qed
  qed
qed

lemma put_int_vga_digits: "put_int_vga num v = fold put_char_vga (digits 16 (unat num)) v"
proof -
  have b: "digits_loop 8 num (replicate 8 0) = hex_digits 8 (unat num)" using digits_loop_hex [of 8 "replicate 8 0" num] by simp
  have l: "length (hex_digits 8 (unat num)) = 8" by (simp add: hex_digits_map)
  have "unat num < 16 ^ 8" using unat_u32_less [of num] by simp
  note s = hex_digits_shown [OF this]
  have "digits 16 0 = [0x30]" by (simp add: digits.simps digit_char_def)
  moreover have "digits 16 (unat num) \<noteq> []" by (subst digits.simps) simp
  ultimately have "(let s = dropWhile (\<lambda>ch. ch = 0x30) (drop 0 (hex_digits 8 (unat num))) in if s = [] then [0x30] else s) = digits 16 (unat num)"
    using s by (simp add: Let_def)
  then show ?thesis using skip_put [OF l, of 0 v] unfolding put_int_vga_def b Let_def by simp
qed

lemma no_backspace: "0x08 \<notin> set (digits 16 n)"
proof (induction n rule: less_induct)
  case (less n)
  have d: "digit_char d \<noteq> 0x08" if "d < 16" for d
  proof -
    have "\<forall>d \<in> set [0..<16]. digit_char d \<noteq> 0x08" by code_simp
    then show ?thesis using that by simp
  qed
  show ?case
    by (subst digits.simps) (use less.IH [of "n div 16"] d [of n] d [of "n mod 16"] in auto)
qed

section \<open>The console on the screen\<close>

definition displays :: "console \<Rightarrow> vga \<Rightarrow> bool" where
  "displays c v \<longleftrightarrow> cursor v < 2000 \<and> display_of v = fold show_char (screen c) empty_display"

lemma shows_chars:
  assumes "displays c v" "0x08 \<notin> set cs"
  shows "displays (c\<lparr>screen := screen c @ cs\<rparr>) (fold put_char_vga cs v)"
  using assms put_chars_display [of v cs] by (simp add: displays_def)

text \<open>C39: The bytes of video memory and the cursor implement a screen of 25 rows of 80 cells: after cls_screen it
  is blank, and put_char puts a character at the position and goes on, to the next row at the end of one
  and at CR and LF, with all rows one up and a blank last row below the last; backspace clears the cell before the
  position. So what put_char, put_str and put_int of the console model append is what the screen shows: put_str
  ends at the NUL, and put_int prints the hexadecimal numeral without leading zeros.\<close>
theorem screen_shows_console:
  assumes "displays c v"
  shows "(screen c0 = [] \<longrightarrow> displays c0 (cls_screen v0))
    \<and> ((ch = 0x08 \<longrightarrow> 0 < cursor v) \<longrightarrow> displays (put_char ch c) (put_char_vga ch v))
    \<and> (cstr m p cs \<and> 0x08 \<notin> set cs \<longrightarrow>
        (\<exists>c' v'. put_str m p c = Some c' \<and> put_str_vga m p v = Some v' \<and> screen c' = screen c @ cs \<and> displays c' v'))
    \<and> displays (put_int num c) (put_int_vga num v)"
proof -
  have p: "displays (put_char ch c) (put_char_vga ch v)" if "ch = 0x08 \<longrightarrow> 0 < cursor v"
  proof -
    have d: "display_of (put_char_vga ch v) = show_char ch (display_of v)" using put_char_display [OF _ that] assms by (simp add: displays_def)
    have "cursor (put_char_vga ch v) = snd (display_of (put_char_vga ch v))" by (simp add: display_of_def)
    also have "\<dots> < 2000" unfolding d using show_char_stays(1) [of "display_of v" ch] assms by (simp add: display_of_def displays_def)
    finally show ?thesis using d assms by (simp add: displays_def put_char_def)
  qed
  have s: "\<exists>c' v'. put_str m p c = Some c' \<and> put_str_vga m p v = Some v' \<and> screen c' = screen c @ cs \<and> displays c' v'"
    if "cstr m p cs" "0x08 \<notin> set cs"
    using put_str_cstr [OF that(1), of c] put_str_vga_cstr [OF that(1), of v] shows_chars [OF assms that(2)] by simp
  have n: "displays (put_int num c) (put_int_vga num v)"
    using shows_chars [OF assms no_backspace] by (simp add: put_int_digits put_int_vga_digits)
  have c: "displays c0 (cls_screen v0)" if "screen c0 = []"
    using that cls_display [of v0] by (simp add: displays_def empty_display_def display_of_def)
  show ?thesis using p s n c by blast
qed

definition demo_vga :: vga where
  "demo_vga = cls_screen \<lparr>video = (\<lambda>_. 0x41), crtc = (\<lambda>_. 0)\<rparr>"

lemma screen_shows_console_witness:
  "displays (put_int 0x2a (console_init [])) (put_int_vga 0x2a demo_vga)
     \<and> (\<exists>c' v'. put_str ((\<lambda>_. 0)(0x1000 := 0x4f, 0x1001 := 0x4b, 0x1002 := 0x0a)) 0x1000 (console_init []) = Some c'
          \<and> put_str_vga ((\<lambda>_. 0)(0x1000 := 0x4f, 0x1001 := 0x4b, 0x1002 := 0x0a)) 0x1000 demo_vga = Some v'
          \<and> screen c' = [0x4f, 0x4b, 0x0a] \<and> displays c' v' \<and> cursor v' = 80)"
proof -
  have d: "display_of demo_vga = empty_display" by (simp add: demo_vga_def cls_display)
  then have s: "displays (console_init []) demo_vga" by (simp add: displays_def console_init_def empty_display_def display_of_def)
  have c: "cstr ((\<lambda>_. 0)(0x1000 := 0x4f, 0x1001 := 0x4b, 0x1002 := 0x0a)) 0x1000 [0x4f, 0x4b, 0x0a]" "0x08 \<notin> set [0x4f, 0x4b, 0x0a :: u8]"
    by simp_all
  have n: "screen (console_init []) = []" by (simp add: console_init_def)
  have f: "snd (fold show_char [0x4f, 0x4b, 0x0a] (R, 0)) = 80" for R by (simp add: show_char_def next_row_def)
  have k: "cursor v' = 80" if "screen c' = [0x4f, 0x4b, 0x0a]" "displays c' v'" for c' v'
    using that f [of "replicate 2000 (0x20, 0x07)"] unfolding displays_def display_of_def empty_display_def by (metis snd_conv)
  let ?m = "(\<lambda>_. 0)(0x1000 := 0x4f, 0x1001 := 0x4b, 0x1002 := 0x0a) :: mem"
  note t = screen_shows_console [OF s, where m = ?m and p = "0x1000" and cs = "[0x4f, 0x4b, 0x0a]" and num = "0x2a"
    and ch = "0x41" and ?c0.0 = "console_init []" and ?v0.0 = demo_vga]
  from t c have a: "displays (put_int 0x2a (console_init [])) (put_int_vga 0x2a demo_vga)" by blast
  from t c n obtain c' v' where "put_str ?m 0x1000 (console_init []) = Some c'" "put_str_vga ?m 0x1000 demo_vga = Some v'"
    "screen c' = [0x4f, 0x4b, 0x0a]" "displays c' v'" by auto
  with a k show ?thesis by blast
qed

text \<open>A backspace at the start of the screen: the cursor leaves it.\<close>

lemma backspace_at_start: "get_cursor v = 0 \<Longrightarrow> get_cursor (put_char_vga 0x08 v) = 0x7fff"
  by (simp add: put_char_vga_def mask_eq_exp_minus_1)

end
