(* ===== verification/Bootload.thy ===== *)
theory Bootload
  imports Loader Descriptors
begin

text \<open>
  root/loader.S before and after setup_page: the size of memory from the answers of the BIOS, and
  kernel_init, which copies the segments of the kernel from its ELF file to where they run. Memory is bytes at
  physical addresses; \<open>phys_of\<close> is the mapping setup_page makes (loader_maps_kernel). The stack
  of mem_cpy, below 0x900, is left out.
\<close>

section \<open>The size of memory\<close>

text \<open>The base and the length of an area, low words; jge compares with sign.\<close>

fun find_max_mem_area :: "(u32 \<times> u32) list \<Rightarrow> u32 \<Rightarrow> u32" where
  "find_max_mem_area [] edx = edx"
| "find_max_mem_area ((bas, len) # ards) edx =
     (let eax = bas + len in find_max_mem_area ards (if eax \<le>s edx then edx else eax))"

text \<open>The answers of int 0x15: the areas of 0xe820, ax and bx of 0xe801, ax of 0x88; None stands for the
  carry flag. The third method runs into the endless loop behind it.\<close>

definition e801_bytes :: "u16 \<Rightarrow> u16 \<Rightarrow> u32" where
  "e801_bytes ax bx = (let edx = ucast ax * 0x400 + 0x100000 in edx + ucast bx * 0x10000)"

definition detect_memory :: "(u32 \<times> u32) list option \<Rightarrow> (u16 \<times> u16) option \<Rightarrow> u16 option \<Rightarrow> u32 res" where
  "detect_memory e820 e801 e88 =
     (case e820 of Some ards \<Rightarrow> Inr (find_max_mem_area ards 0)
      | None \<Rightarrow> (case e801 of Some (ax, bx) \<Rightarrow> Inr (e801_bytes ax bx)
      | None \<Rightarrow> Inl Diverges))"

lemma signed_below:
  assumes "unat (a :: u32) < 2147483648"
  shows "sint a = int (unat a)"
proof -
  have "uint a < 2147483648" "- 2147483648 \<le> uint a" using assms uint_nat [of a] by linarith+
  then have "sint a = uint a" by (simp add: sint_uint signed_take_bit_int_eq_self)
  then show ?thesis unfolding uint_nat .
qed

text \<open>Below 2 GB the result is the highest end of an area.\<close>

lemma find_max_mem_area_max:
  assumes "\<forall>(b, l) \<in> set ards. unat b + unat l < 2147483648" "unat edx < 2147483648"
  shows "unat (find_max_mem_area ards edx) = Max (insert (unat edx) ((\<lambda>(b, l). unat b + unat l) ` set ards))"
  using assms
proof (induction ards arbitrary: edx)
  case (Cons x ards)
  obtain b l where x: "x = (b, l)" by (cases x)
  have bl: "unat b + unat l < 2147483648" using Cons.prems(1) x by simp
  then have u: "unat (b + l) = unat b + unat l" by (intro unat_add_u32) simp
  let ?e = "if b + l \<le>s edx then edx else b + l"
  have e: "unat ?e = max (unat edx) (unat b + unat l)"
  proof -
    have "b + l \<le>s edx \<longleftrightarrow> unat (b + l) \<le> unat edx"
      unfolding word_sle_eq using signed_below [of edx] signed_below [of "b + l"] Cons.prems(2) u bl by linarith
    then show ?thesis using u by (simp add: max_def)
  qed
  have "unat (find_max_mem_area ards ?e) = Max (insert (unat ?e) ((\<lambda>(b, l). unat b + unat l) ` set ards))"
    by (rule Cons.IH) (use Cons.prems e bl in auto)
  then show ?case unfolding e x by (cases "ards = []") (simp_all add: Let_def max.assoc)
qed simp

section \<open>Reading sectors\<close>

text \<open>The command rd_disk_m_16 of the boot sector and rd_disk_m_32 of the loader give to the disk before they wait
  for it: eax is the first sector, cl the count.\<close>

definition rd_disk_command :: "u32 \<Rightarrow> u8 \<Rightarrow> port_write list" where
  "rd_disk_command eax cl =
     [(0x1f2, cl), (0x1f3, ucast eax), (0x1f4, ucast (drop_bit 8 eax)), (0x1f5, ucast (drop_bit 8 (drop_bit 8 eax))),
      (0x1f6, (ucast (drop_bit 8 (drop_bit 8 (drop_bit 8 eax))) AND 0x0f) OR 0xe0), (0x1f7, 0x20)]"

text \<open>The four address bytes are the 28 bits of the sector number, with LBA mode and the first disk chosen.\<close>

lemma rd_disk_selects:
  assumes "eax < 0x10000000"
  shows "\<exists>a b c d. last_write 0x1f3 (rd_disk_command eax cl) = Some a \<and> last_write 0x1f4 (rd_disk_command eax cl) = Some b
    \<and> last_write 0x1f5 (rd_disk_command eax cl) = Some c \<and> last_write 0x1f6 (rd_disk_command eax cl) = Some d
    \<and> ucast a OR push_bit 8 (ucast b) OR push_bit 16 (ucast c) OR push_bit 24 (ucast (d AND 0x0f)) = eax \<and> d AND 0xf0 = 0xe0"
proof -
  have m: "(0x0f :: u8) = mask 4" "(0xf0 :: u8) = push_bit 4 (mask 4)" "(0xe0 :: u8) = push_bit 5 (mask 3)"
    by (simp_all add: mask_eq_exp_minus_1 push_bit_eq_mult)
  have "take_bit 28 eax = eax" using assms by (simp add: word_unat_eq_iff unsigned_take_bit_eq take_bit_nat_eq_self word_less_nat_alt)
  then have h: "k < 28" if "bit eax k" for k using that by (metis bit_take_bit_iff)
  have e: "drop_bit 8 (drop_bit 8 eax) = drop_bit 16 eax" "drop_bit 8 (drop_bit 8 (drop_bit 8 eax)) = drop_bit 24 eax" by simp_all
  let ?d = "(ucast (drop_bit 24 eax) AND 0x0f) OR 0xe0 :: u8"
  have "ucast (ucast eax :: u8) OR push_bit 8 (ucast (ucast (drop_bit 8 eax) :: u8)) OR push_bit 16 (ucast (ucast (drop_bit 16 eax) :: u8))
      OR push_bit 24 (ucast (?d AND 0x0f)) = eax"
    unfolding m by (rule bit_word_eqI) (auto simp: bit_simps dest: h)
  moreover have "?d AND 0xf0 = 0xe0" unfolding m by (rule bit_word_eqI) (auto simp: bit_simps)
  ultimately show ?thesis unfolding rd_disk_command_def e by simp
qed

section \<open>kernel_init\<close>

type_synonym bytes = "addr \<Rightarrow> u8"

definition KERNEL_BIN_BASE_ADDR :: addr where "KERNEL_BIN_BASE_ADDR = 0x70000"

definition phys_of :: "addr \<Rightarrow> addr" where
  "phys_of a = (if 0xc0000000 \<le> a then a - 0xc0000000 else a)"

definition load16 :: "bytes \<Rightarrow> addr \<Rightarrow> u16" where
  "load16 m a = ucast (m a) OR push_bit 8 (ucast (m (a + 1)))"

definition load32 :: "bytes \<Rightarrow> addr \<Rightarrow> u32" where
  "load32 m a = ucast (m a) OR push_bit 8 (ucast (m (a + 1))) OR push_bit 16 (ucast (m (a + 2))) OR push_bit 24 (ucast (m (a + 3)))"

fun rep_movsb :: "nat \<Rightarrow> addr \<Rightarrow> addr \<Rightarrow> bytes \<Rightarrow> bytes" where
  "rep_movsb 0 esi edi m = m"
| "rep_movsb (Suc ecx) esi edi m = rep_movsb ecx (esi + 1) (edi + 1) (m(phys_of edi := m (phys_of esi)))"

text \<open>The program header at ebx: type, offset, address and size in the file. Only the low byte of the type is tested.\<close>

definition load_segment :: "addr \<Rightarrow> bytes \<Rightarrow> bytes" where
  "load_segment ebx m =
     (if m ebx = 0 \<or> load32 m (ebx + 8) < 0xc0001500 then m
      else rep_movsb (unat (load32 m (ebx + 16))) (load32 m (ebx + 4) + KERNEL_BIN_BASE_ADDR) (load32 m (ebx + 8)) m)"

fun each_segment :: "nat \<Rightarrow> addr \<Rightarrow> u32 \<Rightarrow> bytes \<Rightarrow> bytes" where
  "each_segment 0 ebx edx m = m"
| "each_segment (Suc ecx) ebx edx m = each_segment ecx (ebx + edx) edx (load_segment ebx m)"

text \<open>loop counts down before it tests: from zero it goes round 2 ^ 32 times.\<close>

definition kernel_init :: "bytes \<Rightarrow> bytes" where
  "kernel_init m =
     (let edx = ucast (load16 m (KERNEL_BIN_BASE_ADDR + 42));
          ebx = load32 m (KERNEL_BIN_BASE_ADDR + 28) + KERNEL_BIN_BASE_ADDR;
          cx = unat (load16 m (KERNEL_BIN_BASE_ADDR + 44))
      in each_segment (if cx = 0 then 4294967296 else cx) ebx edx m)"

section \<open>Where a segment goes\<close>

definition seg_used :: "bytes \<Rightarrow> addr \<Rightarrow> bool" where
  "seg_used m h \<longleftrightarrow> m h \<noteq> 0 \<and> 0xc0001500 \<le> load32 m (h + 8)"

definition seg_to :: "bytes \<Rightarrow> addr \<Rightarrow> nat" where "seg_to m h = unat (load32 m (h + 8)) - 0xc0000000"
definition seg_from :: "bytes \<Rightarrow> addr \<Rightarrow> nat" where "seg_from m h = unat (load32 m (h + 4)) + 0x70000"
definition seg_len :: "bytes \<Rightarrow> addr \<Rightarrow> nat" where "seg_len m h = unat (load32 m (h + 16))"

text \<open>The segment comes from the file below the video memory and goes to memory below the file.\<close>

definition seg_fits :: "bytes \<Rightarrow> addr \<Rightarrow> bool" where
  "seg_fits m h \<longleftrightarrow> 0x70000 \<le> unat h \<and> unat h + 20 \<le> 0xa0000
     \<and> (seg_used m h \<longrightarrow> seg_to m h + seg_len m h \<le> 0x70000 \<and> seg_from m h + seg_len m h \<le> 0xa0000)"

definition seg_bytes :: "bytes \<Rightarrow> addr \<Rightarrow> nat set" where
  "seg_bytes m h = (if seg_used m h then {seg_to m h..<seg_to m h + seg_len m h} else {})"

lemma rep_movsb_copies:
  assumes "d + n \<le> 0x70000" "0x70000 \<le> s" "s + n \<le> 0xa0000" "a < 0xa0000"
  shows "rep_movsb n (of_nat s) (of_nat (0xc0000000 + d)) m (of_nat a)
    = (if d \<le> a \<and> a < d + n then m (of_nat (s + (a - d))) else m (of_nat a))"
  using assms
proof (induction n arbitrary: s d m)
  case (Suc n)
  have p: "phys_of (of_nat s) = of_nat s" "phys_of (of_nat (0xc0000000 + d)) = of_nat d"
    using Suc.prems unat_of_nat_u32 [of s] unat_of_nat_u32 [of "0xc0000000 + d"] by (simp_all add: phys_of_def word_le_nat_alt)
  have s: "of_nat s + 1 = (of_nat (Suc s) :: addr)" "of_nat (0xc0000000 + d) + 1 = (of_nat (0xc0000000 + Suc d) :: addr)" by simp_all
  have e: "(of_nat b :: addr) = of_nat d \<longleftrightarrow> b = d" if "b < 0xa0000" for b
    using that Suc.prems unat_of_nat_u32 [of b] unat_of_nat_u32 [of d] by (auto simp: u32_eq_iff)
  have "rep_movsb n (of_nat (Suc s)) (of_nat (0xc0000000 + Suc d)) (m(of_nat d := m (of_nat s))) (of_nat a)
      = (if Suc d \<le> a \<and> a < Suc d + n then (m(of_nat d := m (of_nat s))) (of_nat (Suc s + (a - Suc d))) else (m(of_nat d := m (of_nat s))) (of_nat a))"
    using Suc.prems by (intro Suc.IH) simp_all
  note ih = this
  show ?case
  proof (cases "Suc d \<le> a \<and> a < Suc d + n")
    case True
    then have b: "Suc s + (a - Suc d) = s + (a - d)" "s + (a - d) < 0xa0000" "s + (a - d) \<noteq> d" using Suc.prems by auto
    have "(m(of_nat d := m (of_nat s))) (of_nat (Suc s + (a - Suc d))) = m (of_nat (s + (a - d)))"
      using e [OF b(2)] b(3) unfolding b(1) by (simp only: fun_upd_apply if_False)
    then show ?thesis using ih True unfolding rep_movsb.simps p s by (simp del: of_nat_Suc of_nat_add)
  next
    case False
    note f = False
    show ?thesis
    proof (cases "a = d")
      case True
      then show ?thesis using ih f e [OF Suc.prems(4)] unfolding rep_movsb.simps p s True by (simp del: of_nat_Suc of_nat_add)
    next
      case False
      then have k: "\<not> (d \<le> a \<and> a < d + Suc n)" using f by auto
      show ?thesis using ih [unfolded if_not_P [OF f]] False e [OF Suc.prems(4)]
        unfolding rep_movsb.simps p s if_not_P [OF k] by (simp only: fun_upd_apply if_False)
    qed
  qed
qed auto

lemma load_segment_at:
  assumes "seg_fits m h" "a < 0xa0000"
  shows "load_segment h m (of_nat a) = (if a \<in> seg_bytes m h then m (of_nat (seg_from m h + (a - seg_to m h))) else m (of_nat a))"
proof (cases "seg_used m h")
  case True
  let ?v = "load32 m (h + 8)" and ?o = "load32 m (h + 4)"
  have c: "0xc0000000 \<le> unat ?v" using True by (simp add: seg_used_def word_le_nat_alt)
  have v: "?v = of_nat (0xc0000000 + seg_to m h)" using c by (simp add: seg_to_def del: of_nat_add)
  have o: "?o + KERNEL_BIN_BASE_ADDR = of_nat (seg_from m h)" by (simp add: seg_from_def KERNEL_BIN_BASE_ADDR_def)
  have "load_segment h m = rep_movsb (seg_len m h) (of_nat (seg_from m h)) (of_nat (0xc0000000 + seg_to m h)) m"
    using True unfolding load_segment_def o v [symmetric] seg_len_def by (simp add: seg_used_def not_less [symmetric])
  then show ?thesis using rep_movsb_copies [of "seg_to m h" "seg_len m h" "seg_from m h" a m] assms True
    by (simp add: seg_fits_def seg_bytes_def seg_from_def)
next
  case False
  then show ?thesis by (auto simp: load_segment_def seg_bytes_def seg_used_def not_less)
qed

section \<open>All segments\<close>

text \<open>The file, from 0x70000 on, is only read.\<close>

definition same_file :: "bytes \<Rightarrow> bytes \<Rightarrow> bool" where
  "same_file m m' \<longleftrightarrow> (\<forall>a. 0x70000 \<le> a \<and> a < 0xa0000 \<longrightarrow> m' (of_nat a) = m (of_nat a))"

lemma file_byte: "same_file m m' \<Longrightarrow> 0x70000 \<le> unat h \<Longrightarrow> unat h + k < 0xa0000 \<Longrightarrow> m' (h + of_nat k) = m (h + of_nat k)"
proof -
  assume a: "same_file m m'" "0x70000 \<le> unat h" "unat h + k < 0xa0000"
  have "h + of_nat k = of_nat (unat h + k)" by simp
  then show ?thesis using a by (simp add: same_file_def del: of_nat_add of_nat_unat)
qed

lemma same_segment:
  assumes "same_file m m'" "0x70000 \<le> unat h" "unat h + 20 \<le> 0xa0000"
  shows "seg_used m' h = seg_used m h" "seg_to m' h = seg_to m h" "seg_from m' h = seg_from m h" "seg_len m' h = seg_len m h"
    "seg_fits m' h = seg_fits m h" "seg_bytes m' h = seg_bytes m h"
proof -
  have b: "m' (h + of_nat k) = m (h + of_nat k)" if "k < 20" for k using file_byte [OF assms(1,2), of k] that assms(3) by simp
  have "load32 m' (h + of_nat k) = load32 m (h + of_nat k)" if "k + 3 < 20" for k
    using b [of k] b [of "k + 1"] b [of "k + 2"] b [of "k + 3"] that by (simp add: load32_def ac_simps)
  from this [of 4] this [of 8] this [of 16]
  have l: "load32 m' (h + 4) = load32 m (h + 4)" "load32 m' (h + 8) = load32 m (h + 8)" "load32 m' (h + 16) = load32 m (h + 16)" by simp_all
  have "m' h = m h" using b [of 0] by simp
  then show r: "seg_used m' h = seg_used m h" "seg_to m' h = seg_to m h" "seg_from m' h = seg_from m h" "seg_len m' h = seg_len m h"
    by (simp_all add: seg_used_def seg_to_def seg_from_def seg_len_def l)
  show "seg_fits m' h = seg_fits m h" "seg_bytes m' h = seg_bytes m h" by (simp_all add: seg_fits_def seg_bytes_def r)
qed

lemma seg_bytes_below: "seg_fits m h \<Longrightarrow> a \<in> seg_bytes m h \<Longrightarrow> a < 0x70000"
  by (auto simp: seg_fits_def seg_bytes_def split: if_splits)

lemma load_segment_file: "seg_fits m h \<Longrightarrow> same_file m (load_segment h m)"
  unfolding same_file_def using load_segment_at [of m h] seg_bytes_below [of m h] by (metis not_le)

lemma same_file_trans: "same_file m m' \<Longrightarrow> same_file m' m'' \<Longrightarrow> same_file m m''"
  by (simp add: same_file_def)

lemma each_segment_at:
  assumes "\<forall>i < n. seg_fits m (h + of_nat i * e)"
    and "\<forall>i < n. \<forall>j < n. i \<noteq> j \<longrightarrow> seg_bytes m (h + of_nat i * e) \<inter> seg_bytes m (h + of_nat j * e) = {}" and "a < 0xa0000"
  shows "(\<forall>i < n. a \<in> seg_bytes m (h + of_nat i * e) \<longrightarrow>
        each_segment n h e m (of_nat a) = m (of_nat (seg_from m (h + of_nat i * e) + (a - seg_to m (h + of_nat i * e)))))
    \<and> ((\<forall>i < n. a \<notin> seg_bytes m (h + of_nat i * e)) \<longrightarrow> each_segment n h e m (of_nat a) = m (of_nat a))"
  using assms(1,2)
proof (induction n arbitrary: h m)
  case (Suc n)
  let ?m = "load_segment h m"
  let ?h = "\<lambda>i. h + of_nat i * e"
  have s: "h + e + of_nat i * e = ?h (Suc i)" for i by (simp add: algebra_simps)
  have f0: "seg_fits m h" using Suc.prems(1) [rule_format, of 0] by simp
  have f: "seg_fits m (?h i)" if "i < Suc n" for i using Suc.prems(1) that by blast
  have sf: "same_file m ?m" by (rule load_segment_file [OF f0])
  have S: "seg_fits ?m (?h i) = seg_fits m (?h i)" "seg_bytes ?m (?h i) = seg_bytes m (?h i)" "seg_from ?m (?h i) = seg_from m (?h i)"
    "seg_to ?m (?h i) = seg_to m (?h i)" "seg_len ?m (?h i) = seg_len m (?h i)" "seg_used ?m (?h i) = seg_used m (?h i)" if "i < Suc n" for i
    using same_segment [OF sf, of "?h i"] f [OF that] by (simp_all add: seg_fits_def)
  have 0: "?m (of_nat a) = (if a \<in> seg_bytes m h then m (of_nat (seg_from m h + (a - seg_to m h))) else m (of_nat a))"
    by (rule load_segment_at [OF f0 assms(3)])
  have disj: "seg_bytes m (?h i) \<inter> seg_bytes m (?h j) = {}" if "i < Suc n" "j < Suc n" "i \<noteq> j" for i j
    using Suc.prems(2) that by blast
  have ih: "(\<forall>i < n. a \<in> seg_bytes m (?h (Suc i)) \<longrightarrow>
        each_segment n (h + e) e ?m (of_nat a) = ?m (of_nat (seg_from m (?h (Suc i)) + (a - seg_to m (?h (Suc i))))))
    \<and> ((\<forall>i < n. a \<notin> seg_bytes m (?h (Suc i))) \<longrightarrow> each_segment n (h + e) e ?m (of_nat a) = ?m (of_nat a))"
  proof -
    have "\<forall>i < n. seg_fits ?m (?h (Suc i))" using S(1) f by (simp del: of_nat_Suc)
    moreover have "\<forall>i < n. \<forall>j < n. i \<noteq> j \<longrightarrow> seg_bytes ?m (?h (Suc i)) \<inter> seg_bytes ?m (?h (Suc j)) = {}"
      using S(2) disj by (simp del: of_nat_Suc)
    ultimately show ?thesis using Suc.IH [of ?m "h + e"] S(2-4) unfolding s by (simp del: of_nat_Suc of_nat_add)
  qed
  have kept: "?m (of_nat (seg_from m (?h i) + (a - seg_to m (?h i)))) = m (of_nat (seg_from m (?h i) + (a - seg_to m (?h i))))"
    if "i < Suc n" "a \<in> seg_bytes m (?h i)" for i
  proof -
    have "0x70000 \<le> seg_from m (?h i) + (a - seg_to m (?h i))" "seg_from m (?h i) + (a - seg_to m (?h i)) < 0xa0000"
      using f [OF that(1)] that(2) by (auto simp: seg_fits_def seg_bytes_def seg_from_def split: if_splits)
    then show ?thesis using sf unfolding same_file_def by blast
  qed
  show ?case
  proof (intro conjI allI impI)
    fix i assume i: "i < Suc n" "a \<in> seg_bytes m (?h i)"
    show "each_segment (Suc n) h e m (of_nat a) = m (of_nat (seg_from m (?h i) + (a - seg_to m (?h i))))"
    proof (cases i)
      case 0
      have "\<forall>k < n. a \<notin> seg_bytes m (?h (Suc k))" using disj [of 0 "Suc k" for k] i(2) 0 by auto
      then have "each_segment n (h + e) e ?m (of_nat a) = ?m (of_nat a)" using ih by blast
      then show ?thesis using \<open>?m (of_nat a) = _\<close> i(2) 0 by simp
    next
      case (Suc k)
      then have "each_segment n (h + e) e ?m (of_nat a) = ?m (of_nat (seg_from m (?h i) + (a - seg_to m (?h i))))" using ih i by simp
      then show ?thesis using kept [OF i] by simp
    qed
  next
    assume o: "\<forall>i < Suc n. a \<notin> seg_bytes m (?h i)"
    then have "\<forall>i < n. a \<notin> seg_bytes m (?h (Suc i))" by blast
    then have "each_segment n (h + e) e ?m (of_nat a) = ?m (of_nat a)" using ih by blast
    moreover have "a \<notin> seg_bytes m h" using o [rule_format, of 0] by simp
    ultimately show "each_segment (Suc n) h e m (of_nat a) = m (of_nat a)" using 0 by simp
  qed
qed simp

text \<open>C40: kernel_init loads the kernel: when the program headers lie in the file, the segments come from it and go,
  apart from each other, to memory below it, then every segment in use (type not zero, address from
  0xc0001500 on) holds at its address the bytes of the file, and no other byte below the video memory
  changes, the words apart that the calls of mem_cpy push on the stack below 0x900, which the model leaves out. So what a segment has in memory beyond its size in the file is not cleared.\<close>
theorem kernel_init_loads:
  fixes m :: bytes
  defines "n \<equiv> unat (load16 m 0x7002c)" and "h \<equiv> \<lambda>i. load32 m 0x7001c + 0x70000 + of_nat i * ucast (load16 m 0x7002a)"
  assumes "0 < n" "\<forall>i < n. seg_fits m (h i)" "\<forall>i < n. \<forall>j < n. i \<noteq> j \<longrightarrow> seg_bytes m (h i) \<inter> seg_bytes m (h j) = {}"
  shows "(\<forall>i < n. seg_used m (h i) \<longrightarrow> (\<forall>k < unat (load32 m (h i + 16)).
        kernel_init m (phys_of (load32 m (h i + 8)) + of_nat k) = m (load32 m (h i + 4) + 0x70000 + of_nat k)))
    \<and> (\<forall>a < 0xa0000. (\<forall>i < n. a \<notin> seg_bytes m (h i)) \<longrightarrow> kernel_init m (of_nat a) = m (of_nat a))"
proof -
  have hi: "load32 m 0x7001c + 0x70000 + of_nat i * ucast (load16 m 0x7002a) = h i" for i by (simp add: h_def)
  have r: "kernel_init m = each_segment n (load32 m 0x7001c + 0x70000) (ucast (load16 m 0x7002a)) m"
    using assms(3) by (simp add: kernel_init_def Let_def KERNEL_BIN_BASE_ADDR_def n_def)
  note E = each_segment_at [of n m "load32 m 0x7001c + 0x70000" "ucast (load16 m 0x7002a)", unfolded hi, OF assms(4,5), folded r]
  have at: "\<forall>i < n. a \<in> seg_bytes m (h i) \<longrightarrow> kernel_init m (of_nat a) = m (of_nat (seg_from m (h i) + (a - seg_to m (h i))))"
    "(\<forall>i < n. a \<notin> seg_bytes m (h i)) \<longrightarrow> kernel_init m (of_nat a) = m (of_nat a)" if "a < 0xa0000" for a
    using E [OF that] by blast+
  have "kernel_init m (phys_of (load32 m (h i + 8)) + of_nat k) = m (load32 m (h i + 4) + 0x70000 + of_nat k)"
    if i: "i < n" "seg_used m (h i)" "k < unat (load32 m (h i + 16))" for i k
  proof -
    let ?a = "seg_to m (h i) + k"
    have a: "?a \<in> seg_bytes m (h i)" using i(2,3) by (simp add: seg_bytes_def seg_len_def)
    then have l: "?a < 0xa0000" using seg_bytes_below [OF assms(4) [rule_format, OF i(1)] a] by simp
    have "0xc0000000 \<le> load32 m (h i + 8)" using i(2) by (simp add: seg_used_def word_le_nat_alt)
    then have "phys_of (load32 m (h i + 8)) = of_nat (seg_to m (h i))"
      by (simp add: phys_of_def seg_to_def word_le_nat_alt of_nat_diff)
    then have "phys_of (load32 m (h i + 8)) + of_nat k = of_nat ?a" by simp
    moreover have "of_nat (seg_from m (h i) + (?a - seg_to m (h i))) = load32 m (h i + 4) + 0x70000 + of_nat k"
      by (simp add: seg_from_def)
    ultimately show ?thesis using at(1) [OF l] i(1) a by metis
  qed
  then show ?thesis using at(2) by blast
qed

text \<open>A file with one program header, for three bytes.\<close>

definition demo_file :: bytes where
  "demo_file = (\<lambda>_. 0)(0x7001c := 0x34, 0x7002a := 32, 0x7002c := 1, 0x70034 := 1, 0x70039 := 0x10, 0x7003d := 0x15, 0x7003f := 0xc0,
     0x70044 := 3, 0x71000 := 7, 0x71001 := 8, 0x71002 := 9)"

lemma kernel_init_loads_witness:
  "kernel_init demo_file 0x1500 = 7 \<and> kernel_init demo_file 0x1501 = 8 \<and> kernel_init demo_file 0x1502 = 9 \<and> kernel_init demo_file 0x1503 = 0"
proof -
  let ?h = "\<lambda>i. load32 demo_file 0x7001c + 0x70000 + of_nat i * ucast (load16 demo_file 0x7002a)"
  have f: "load16 demo_file 0x7002c = 1" "load16 demo_file 0x7002a = 32" "load32 demo_file 0x7001c = 0x34"
    "load32 demo_file 0x70038 = 0x1000" "load32 demo_file 0x7003c = 0xc0001500" "load32 demo_file 0x70044 = 3" "demo_file 0x70034 = 1"
    by (simp_all add: load16_def load32_def demo_file_def push_bit_eq_mult)
  have h: "?h 0 = 0x70034" by (simp add: f)
  have u: "seg_used demo_file 0x70034" "seg_to demo_file 0x70034 = 0x1500" "seg_from demo_file 0x70034 = 0x71000" "seg_len demo_file 0x70034 = 3"
    by (simp_all add: seg_used_def seg_to_def seg_from_def seg_len_def f)
  have n: "unat (load16 demo_file 0x7002c) = 1" by (simp add: f)
  have fits: "\<forall>i < unat (load16 demo_file 0x7002c). seg_fits demo_file (?h i)" unfolding n by (simp add: f seg_fits_def u)
  have disj: "\<forall>i < unat (load16 demo_file 0x7002c). \<forall>j < unat (load16 demo_file 0x7002c). i \<noteq> j \<longrightarrow>
      seg_bytes demo_file (?h i) \<inter> seg_bytes demo_file (?h j) = {}" unfolding n by simp
  have z: "0 < unat (load16 demo_file 0x7002c)" unfolding n by simp
  note t = kernel_init_loads [OF z fits disj, unfolded n]
  have "kernel_init demo_file (0x1500 + of_nat k) = demo_file (0x71000 + of_nat k)" if "k < 3" for k
    using t [THEN conjunct1, rule_format, of 0 k] that by (simp add: f u phys_of_def)
  from this [of 0] this [of 1] this [of 2]
  have "kernel_init demo_file 0x1500 = 7 \<and> kernel_init demo_file 0x1501 = 8 \<and> kernel_init demo_file 0x1502 = 9" by (simp add: demo_file_def)
  moreover have "kernel_init demo_file (of_nat 0x1503) = demo_file (of_nat 0x1503)"
    by (rule t [THEN conjunct2, rule_format]) (simp_all add: f seg_bytes_def u)
  ultimately show ?thesis by (simp add: demo_file_def)
qed

end
