(* ===== verification/Spec2Isabelle.thy ===== *)
theory Spec2Isabelle
  imports Bitmap Klist Cstring Page_Table Threads Sync Memory Paging Malloc Ioqueue Keyboard
    Clock Descriptors Stdio Ide Partitions Inode Files Dirs Format Open Create Mount
    Tasks Process Syscall Loader Boot Asm Switch Entry Screen Bootload
begin

text \<open>
  Verification library of Hongbai-os, a 32-bit x86 teaching kernel in C.

  THE PROGRAM. The kernel has preemptive threads (thread/), memory in pages and blocks
  (kernel/memory.c) under a recursive page table, devices that speak through interrupts and a ring
  of bytes (device/), a file system on an IDE disk (fs/), and user processes (userprog/). The parts
  call each other: the lock of thread/sync.c parks threads with thread_block and thread_unblock; the
  page pools and the heap take the lock; the ring of the keyboard blocks its reader; schedule
  activates the address space of the task it switches to; every allocator rests on the bitmap.

  THE THEORIES.
  HB_Prelude: the machine types, the result type (\<open>stop + 'a\<close>: a failed ASSERT, a PANIC, an access
  outside an object, a thread that had to block, a loop that does not return) and word lemmas.
  Interfaces: the contracts between components as locales: \<open>slot_allocator\<close> (take a free slot, give
  it back), \<open>fifo\<close>, \<open>kernel_list\<close> (a fifo with push, remove and search), \<open>safe_system\<close> (an invariant
  of a transition system); each is interpreted on the model's definitions where they are defined.
  Bitmap: lib/kernel/bitmap.c on the bytes; abstracted to the predicate \<open>bm_bit\<close>.
  Klist: lib/kernel/list.c on a store of links; \<open>is_list\<close> relates the links to a sequence. The other
  theories use the sequence, which is what klist_refines_sequence allows.
  Cstring: lib/string.c on byte memory; \<open>cstr\<close> says that a C string lies at an address.
  Page_Table: page table entries as a map from the addresses of the recursive mapping to words.
  Threads: the scheduler of thread/thread.c, with process_activate and the timer interrupt.
  \<open>sched_inv\<close> is its invariant, \<open>sched_event\<close> its steps.
  Sync: semaphore and lock; the lock again as a machine whose steps are the single statements of
  lock_acquire and lock_release, interleaved with ticks and blocking, with the invariant \<open>lock_inv\<close>.
  Memory: the page half of kernel/memory.c. Paging: page table, virtual bitmap and
  physical bitmap agree (\<open>space_ok\<close>) and malloc_page and mfree_page keep it so.
  Malloc: the block half of kernel/memory.c, with the heap invariant \<open>heap_ok\<close>.
  Ioqueue: device/ioqueue.c. Keyboard: device/keyboard.c, against a decoder of scan codes on lists.
  Clock: the rest of device/timer.c. Descriptors: kernel/interrupt.c and userprog/tss.c, the tables the
  processor reads and the port writes that set up the interrupt controllers.
  Stdio: lib/stdio.c and device/console.c; \<open>render\<close> is what a format string means.
  Ide: device/ide.c, with the word transfers of kernel/io.h. The device behind the ports is a parameter;
  \<open>ata_behaves\<close> says what the standard promises of it: busy after a command for any time, an interrupt, one
  block of 512 bytes per sector, busy again between sectors if it likes. The driver relies on more, which the
  properties name: \<open>no_pause\<close> for more than one sector, \<open>ready_to_write\<close> for the first poll of a write;
  where ready_to_write fails the driver does not return. The device \<open>demo_ports slow\<close> satisfies the first, and
  those too when it is not slow. Partitions: the scan of the partition tables on the sectors ide_read gives,
  and ide_init, which takes sectors and answers as arguments; \<open>mbr_layout\<close> says how a disk is laid out.
  Sectors: little-endian words in bytes and the disk as a map from sectors to 512 bytes. Inode, Files,
  Dirs, Format: fs/ on that disk, with the state \<open>fs\<close>: the mounted partition with its bitmaps and open
  inodes, inodes and directories in memory, the file table. \<open>disk_inode\<close> is the inode at a number of the
  table on the disk, \<open>synced\<close> says that bitmaps agree on disk and in memory, \<open>opens_ok\<close> is the invariant of
  the open inodes. Open: file_create, the paths and sys_open; \<open>components\<close> are the names of a path.
  Create: what file_create and sys_open leave when they succeed (\<open>created\<close>), under what they need
  (\<open>room_to_create\<close>). Mount: filesys_init on an unformatted partition (\<open>rootfs\<close>) and the files that
  follow, one after the other (\<open>with_files\<close>).
  Kernel_Pages: the pages the kernel takes for itself; \<open>kernel_page\<close> says that a page of the kernel is
  mapped and counted. Tasks: the rest of thread/thread.c (pids, PCBs, first stack frames, thread_start,
  thread_init, idle) and the pops with which switch_to enters a new task; \<open>proc_inv\<close> joins the scheduler's
  invariant with PCBs on pages of their own and pids that differ. Process: userprog/process.c, and the
  kernel as a transition system of ticks, blocks, wake-ups, the interrupt flag and creations. thread_start and
  process_execute are one step there, which is what they are with interrupts off; so the system takes these
  steps with interrupts off only. allocate_pid alone is split at the release of its lock (\<open>count_pid\<close>,
  \<open>read_pid\<close>), to show that two pids coincide when it is interrupted there. Syscall: the table of the system
  calls as addresses, the call through it, which tests nothing, and the stubs, with printf as the program
  that uses them; where the functions lie and what any other address does is the parameter \<open>sys_code\<close>.
  Loader: setup_page of root/loader.S on physical memory and the two-level walk of the processor; the map
  of Page_Table is the window of that walk (\<open>window_walks\<close>). Boot: the record \<open>kernel\<close> joins the states
  of all components; init_all of kernel/init.c and main of kernel/main.c run on it. kernel_core_starts leads
  from the loader's tables over mem_init (\<open>mem_init_booted\<close>) and thread_init to syscall_init with the invariant
  \<open>proc_inv\<close>: this part asks for no block of the heap. main_runs goes on over ide_init, filesys_init and the
  two calls of sys_open to \<open>synced\<close>, for answers of sys_malloc that are not NULL.

  Asm: the processor of the assembly sources: registers, flags, the words of the stacks, instructions as a
  datatype, the delivery of an interrupt and iretd. \<open>stack_at\<close> reads the stack as a list, \<open>returns_to\<close> is the
  C calling convention. Switch: thread/switch.S; for its caller switch_to is a C function that returns late
  (switch_away_and_back), for a new task it is \<open>switch_in\<close> of Tasks. Entry: kernel/kernel.S; the C function
  an entry calls is a parameter, of which returns_to is assumed, and switch_away_and_back gives just that for
  a handler that schedules. start_process_reaches_user joins start_process with intr_exit. Screen:
  lib/kernel/print.S on video memory; \<open>displays\<close> relates it to the characters Stdio keeps. Bootload: the parts of
  root/loader.S around setup_page: the size of memory, and kernel_init on the bytes of the ELF file.

  STATE. \<open>kthreads\<close> holds the task table (by PCB address), the two lists, the running task,
  interrupt flag, cr3, TSS stack and page table; \<open>memory\<close> extends it with pools, arenas and bytes. What
  follows a call of schedule in the code happens when the caller runs again, so an operation that may
  block is one pass of its loop and says whether it got through.

  BOUNDS. Integers keep their width as words. Loops bounded by a counter recurse on it; loops that
  follow links or look for a NUL are \<open>partial_function\<close>s, and the properties show that they return.

  Partitions in Mount and Boot have at most 4707 sectors: beyond that fs/fs.c gives the inode bitmap a length
  that is not its own. The stream \<open>mallocs\<close> of answers stands for sys_malloc in fs/; what
  the code does with NULL is modelled, that the heap of Malloc gives other answers is not shown. Formatting
  asks for 311296 bytes and more.

  NOT MODELLED. Of the boot code the calls of the BIOS, the polling of the disk and the switch to protected mode.
  The words of the kernel stacks in Asm and the typed frames of Tasks are joined by hypotheses of the
  properties (\<open>frame_words\<close>, \<open>thread_stack_words\<close>), not by one memory. The page table is that of the directory
  in use: the user half is not exchanged when another task runs; and it keeps the entries of the kernel half
  apart from those below, while the entries 0 and 768 of the first directory share a table. In Boot a command to a
  disk is done at once; that the thread waits for it is in Ide. Of general_intr_handler what follows the first
  call of set_cursor, which from C does not return to its caller (\<open>set_cursor_from_C\<close> in Asm). The stack words
  that mem_cpy of root/loader.S pushes below 0x900.
  The demonstration threads of kernel/main.c, which nothing starts, and the texts printed at start.
\<close>

end
